(* ===== verification/Pari_Prelude.thy ===== *)
theory Pari_Prelude
  imports Main "HOL-Library.Word" "HOL-Library.AList" "HOL-Library.Product_Lexorder"
begin

text \<open>
  The shared vocabulary of the development: the machine types of the Rust sources, Rust's
  \<open>Result\<close> and its combinators, checked arithmetic on \<open>usize\<close>, slices and chunk iterators,
  and little-endian byte encodings. The target is a
  64-bit one, so \<open>usize\<close> is a natural number whose checked operations fail from \<open>2 ^ 64\<close> on.
  The lemmas here are generic facts on lists, options, maps and words; the collections
  \<open>res_simps\<close> and \<open>le_simps\<close> carry the component proofs.
\<close>

unbundle bit_operations_syntax

named_theorems res_simps \<open>unfolding rules for results\<close>
named_theorems le_simps \<open>little-endian round trips and lengths\<close>

section \<open>Machine types\<close>

type_synonym u8 = "8 word"
type_synonym u16 = "16 word"
type_synonym u32 = "32 word"
type_synonym u64 = "64 word"
type_synonym usize = nat
type_synonym bytes = "u8 list"

section \<open>Results\<close>

text \<open>\<open>Result\<close> with a third outcome for a panic (a failed \<open>expect\<close>, an index out of range).\<close>

datatype ('a, 'e) result = Ok 'a | Err 'e | Panic

primrec and_then :: "('a, 'e) result \<Rightarrow> ('a \<Rightarrow> ('b, 'e) result) \<Rightarrow> ('b, 'e) result" where
  "and_then (Ok x) f = f x"
| "and_then (Err e) f = Err e"
| "and_then Panic f = Panic"

primrec map_err :: "('e \<Rightarrow> 'd) \<Rightarrow> ('a, 'e) result \<Rightarrow> ('a, 'd) result" where
  "map_err f (Ok x) = Ok x"
| "map_err f (Err e) = Err (f e)"
| "map_err f Panic = Panic"

primrec ok_or :: "'e \<Rightarrow> 'a option \<Rightarrow> ('a, 'e) result" where
  "ok_or e None = Err e"
| "ok_or e (Some x) = Ok x"

primrec expect :: "'a option \<Rightarrow> ('a, 'e) result" where
  "expect None = Panic"
| "expect (Some x) = Ok x"

text \<open>A guard with an early return, \<open>if c { return Err(e) }\<close>, and the two loop shapes with
  the question mark operator in their body.\<close>

definition err_if :: "bool \<Rightarrow> 'e \<Rightarrow> (unit, 'e) result" where
  "err_if c e = (if c then Err e else Ok ())"

fun fold_result :: "('a \<Rightarrow> 's \<Rightarrow> ('s, 'e) result) \<Rightarrow> 'a list \<Rightarrow> 's \<Rightarrow> ('s, 'e) result" where
  "fold_result f [] s = Ok s"
| "fold_result f (x # xs) s = and_then (f x s) (fold_result f xs)"

fun try_map :: "('a \<Rightarrow> ('b, 'e) result) \<Rightarrow> 'a list \<Rightarrow> ('b list, 'e) result" where
  "try_map f [] = Ok []"
| "try_map f (x # xs) = and_then (f x) (\<lambda>y. and_then (try_map f xs) (\<lambda>ys. Ok (y # ys)))"

lemma and_then_cong [fundef_cong]:
  assumes "r = r'" and "\<And>x. r' = Ok x \<Longrightarrow> f x = g x"
  shows "and_then r f = and_then r' g"
  using assms by (cases r') auto

lemma and_then_eq_Ok [res_simps]: "and_then r f = Ok y \<longleftrightarrow> (\<exists>x. r = Ok x \<and> f x = Ok y)"
  by (cases r) auto

lemma and_then_eq_Err:
  "and_then r f = Err e \<longleftrightarrow> r = Err e \<or> (\<exists>x. r = Ok x \<and> f x = Err e)"
  by (cases r) auto

lemma map_err_eq_Ok [res_simps]: "map_err f r = Ok y \<longleftrightarrow> r = Ok y"
  by (cases r) auto

lemma ok_or_eq_Ok [res_simps]: "ok_or e x = Ok y \<longleftrightarrow> x = Some y"
  by (cases x) auto

lemma expect_eq_Ok [res_simps]: "expect x = Ok y \<longleftrightarrow> x = Some y"
  by (cases x) auto

lemma err_if_eq_Ok [res_simps]: "err_if c e = Ok u \<longleftrightarrow> \<not> c"
  by (simp add: err_if_def)

lemma err_if_True [simp]: "c \<Longrightarrow> err_if c e = Err e"
  by (simp add: err_if_def)

lemma err_if_False [simp]: "\<not> c \<Longrightarrow> err_if c e = Ok ()"
  by (simp add: err_if_def)

lemma try_map_all_ok:
  assumes "\<And>x. x \<in> set xs \<Longrightarrow> f x = Ok (g x)"
  shows "try_map f xs = Ok (map g xs)"
  using assms by (induction xs) auto

lemma try_map_eq_Ok:
  "try_map f xs = Ok ys \<longleftrightarrow> list_all2 (\<lambda>x y. f x = Ok y) xs ys"
  by (induction xs arbitrary: ys) (auto simp: res_simps list_all2_Cons1)

lemma length_try_map: "try_map f xs = Ok ys \<Longrightarrow> length ys = length xs"
  by (simp add: try_map_eq_Ok list_all2_lengthD)

lemma try_map_cong [fundef_cong]:
  assumes "xs = ys" and "\<And>x. x \<in> set ys \<Longrightarrow> f x = g x"
  shows "try_map f xs = try_map g ys"
  using assms(2) unfolding assms(1) by (induction ys) (auto cong: and_then_cong)

lemma fold_result_append:
  "fold_result f (xs @ ys) s = and_then (fold_result f xs s) (fold_result f ys)"
proof (induction xs arbitrary: s)
  case (Cons x xs)
  then show ?case by (cases "f x s") auto
qed simp

text \<open>A loop whose body keeps an invariant ends, when it ends without error, in a state that
  satisfies it.\<close>

lemma fold_result_invariant:
  assumes "fold_result f xs s = Ok t" and "P s"
    and "\<And>x s s'. x \<in> set xs \<Longrightarrow> P s \<Longrightarrow> f x s = Ok s' \<Longrightarrow> P s'"
  shows "P t"
  using assms by (induction xs arbitrary: s) (auto simp: res_simps)

text \<open>The loop rule for a body that never fails, with an invariant over the processed prefix.\<close>

lemma fold_result_total:
  assumes "Q [] s"
    and "\<And>ys x zs s. xs = ys @ x # zs \<Longrightarrow> Q ys s \<Longrightarrow> \<exists>s'. f x s = Ok s' \<and> Q (ys @ [x]) s'"
  shows "\<exists>t. fold_result f xs s = Ok t \<and> Q xs t"
  using assms(2)
proof (induction xs rule: rev_induct)
  case Nil
  with assms(1) show ?case by simp
next
  case (snoc x xs)
  have "\<exists>t. fold_result f xs s = Ok t \<and> Q xs t"
    using snoc.prems by (intro snoc.IH) fastforce
  then obtain t where t: "fold_result f xs s = Ok t" "Q xs t" by blast
  moreover obtain t' where "f x t = Ok t'" "Q (xs @ [x]) t'"
    using snoc.prems [of xs x "[]" t] t(2) by auto
  ultimately show ?case by (auto simp: fold_result_append)
qed

lemma fold_result_concat:
  "fold_result (\<lambda>x. fold_result (\<lambda>y. f (x, y)) (g x)) xs s
     = fold_result f (concat (map (\<lambda>x. map (Pair x) (g x)) xs)) s"
proof -
  have inner: "fold_result (\<lambda>y. f (x, y)) ys s = fold_result f (map (Pair x) ys) s" for x ys s
    by (induction ys arbitrary: s) (auto cong: and_then_cong)
  show ?thesis
    by (induction xs arbitrary: s) (auto simp: fold_result_append inner cong: and_then_cong)
qed

text \<open>A loop that appends one result per element and threads a counter.\<close>

lemma fold_collect:
  assumes "\<And>x out n. f x (out, n) = and_then (q x) (\<lambda>k. Ok (out @ [k], g n k))"
  shows "fold_result f xs (out, n) = and_then (try_map q xs) (\<lambda>ks. Ok (out @ ks, fold (\<lambda>k n. g n k) ks n))"
proof (induction xs arbitrary: out n)
  case (Cons x xs)
  then show ?case by (cases "q x"; cases "try_map q xs") (simp_all add: assms)
qed simp

text \<open>The same loop over functions that may not return.\<close>

fun fold_option :: "('a \<Rightarrow> 's \<Rightarrow> 's option) \<Rightarrow> 'a list \<Rightarrow> 's \<Rightarrow> 's option" where
  "fold_option f [] s = Some s"
| "fold_option f (x # xs) s = Option.bind (f x s) (fold_option f xs)"

lemma fold_option_append:
  "fold_option f (xs @ ys) s = Option.bind (fold_option f xs s) (fold_option f ys)"
proof (induction xs arbitrary: s)
  case (Cons x xs)
  then show ?case by (cases "f x s") auto
qed simp

lemma fold_option_total:
  assumes "Q [] s"
    and "\<And>ys x zs s. xs = ys @ x # zs \<Longrightarrow> Q ys s \<Longrightarrow> \<exists>s'. f x s = Some s' \<and> Q (ys @ [x]) s'"
  shows "\<exists>t. fold_option f xs s = Some t \<and> Q xs t"
  using assms(2)
proof (induction xs rule: rev_induct)
  case Nil
  with assms(1) show ?case by simp
next
  case (snoc x xs)
  have "\<exists>t. fold_option f xs s = Some t \<and> Q xs t"
    using snoc.prems by (intro snoc.IH) fastforce
  then obtain t where t: "fold_option f xs s = Some t" "Q xs t" by blast
  moreover obtain t' where "f x t = Some t'" "Q (xs @ [x]) t'"
    using snoc.prems [of xs x "[]" t] t(2) by auto
  ultimately show ?case by (auto simp: fold_option_append)
qed

section \<open>Stateful results\<close>

text \<open>Operations that return their result together with the state they leave, also when they fail.\<close>

definition st_then :: "('a, 'e) result \<times> 's \<Rightarrow> ('a \<Rightarrow> 's \<Rightarrow> ('b, 'e) result \<times> 's) \<Rightarrow> ('b, 'e) result \<times> 's" where
  "st_then m f = (case m of (Ok x, s) \<Rightarrow> f x s | (Err e, s) \<Rightarrow> (Err e, s) | (Panic, s) \<Rightarrow> (Panic, s))"

fun st_fold :: "('a \<Rightarrow> 's \<Rightarrow> (unit, 'e) result \<times> 's) \<Rightarrow> 'a list \<Rightarrow> 's \<Rightarrow> (unit, 'e) result \<times> 's" where
  "st_fold f [] s = (Ok (), s)"
| "st_fold f (x # xs) s = st_then (f x s) (\<lambda>_ s. st_fold f xs s)"

lemma st_then_simps [simp]:
  "st_then (Ok x, s) f = f x s" "st_then (Err e, s) f = (Err e, s)" "st_then (Panic, s) f = (Panic, s)"
  by (simp_all add: st_then_def)

lemma st_fold_all_ok:
  assumes "\<And>x s. x \<in> set xs \<Longrightarrow> f x s = (Ok (), g x s)"
  shows "st_fold f xs s = (Ok (), fold g xs s)"
  using assms by (induction xs arbitrary: s) auto

section \<open>Checked arithmetic\<close>

abbreviation usize_limit :: nat where
  "usize_limit \<equiv> 18446744073709551616"

definition checked_add_usize :: "usize \<Rightarrow> usize \<Rightarrow> usize option" where
  "checked_add_usize a b = (if a + b < usize_limit then Some (a + b) else None)"

definition checked_mul_usize :: "usize \<Rightarrow> usize \<Rightarrow> usize option" where
  "checked_mul_usize a b = (if a * b < usize_limit then Some (a * b) else None)"

definition saturating_add_usize :: "usize \<Rightarrow> usize \<Rightarrow> usize" where
  "saturating_add_usize a b = min (a + b) (usize_limit - 1)"

definition saturating_mul_usize :: "usize \<Rightarrow> usize \<Rightarrow> usize" where
  "saturating_mul_usize a b = min (a * b) (usize_limit - 1)"

definition checked_add :: "'a::len word \<Rightarrow> 'a word \<Rightarrow> 'a word option" where
  "checked_add a b = (if unat a + unat b < 2 ^ LENGTH('a) then Some (a + b) else None)"

definition checked_mul :: "'a::len word \<Rightarrow> 'a word \<Rightarrow> 'a word option" where
  "checked_mul a b = (if unat a * unat b < 2 ^ LENGTH('a) then Some (a * b) else None)"

definition saturating_add :: "'a::len word \<Rightarrow> 'a word \<Rightarrow> 'a word" where
  "saturating_add a b = (if unat a + unat b < 2 ^ LENGTH('a) then a + b else - 1)"

text \<open>\<open>u32::try_from\<close> and \<open>u64::try_from\<close> of a \<open>usize\<close>. The other direction,
  \<open>usize::try_from\<close> of a \<open>u64\<close> or \<open>u32\<close>, always succeeds on a 64-bit target and is \<open>unat\<close>.\<close>

definition u32_try_from :: "usize \<Rightarrow> u32 option" where
  "u32_try_from n = (if n < 4294967296 then Some (of_nat n) else None)"

definition u64_try_from :: "usize \<Rightarrow> u64 option" where
  "u64_try_from n = (if n < usize_limit then Some (of_nat n) else None)"

definition div_ceil :: "nat \<Rightarrow> nat \<Rightarrow> nat" where
  "div_ceil a b = (if a mod b = 0 then a div b else a div b + 1)"

lemma checked_add_Some: "checked_add a b = Some c \<Longrightarrow> unat c = unat a + unat b"
  by (auto simp: checked_add_def unat_word_ariths split: if_splits)

lemma checked_mul_Some: "checked_mul a b = Some c \<Longrightarrow> unat c = unat a * unat b"
  by (auto simp: checked_mul_def unat_word_ariths split: if_splits)

lemma unat_of_nat_u64: "n < usize_limit \<Longrightarrow> unat (of_nat n :: u64) = n"
  by (simp add: unat_of_nat)

lemma unat_of_nat_u32: "n < 4294967296 \<Longrightarrow> unat (of_nat n :: u32) = n"
  by (simp add: unat_of_nat)

lemma u64_try_from_Some: "u64_try_from n = Some w \<longleftrightarrow> n < usize_limit \<and> w = of_nat n"
  by (auto simp: u64_try_from_def)

lemma u32_try_from_Some: "u32_try_from n = Some w \<longleftrightarrow> n < 4294967296 \<and> w = of_nat n"
  by (auto simp: u32_try_from_def)

lemma unat_u32_less: "unat (w :: u32) < 4294967296"
  using unsigned_less [of w] by simp

lemma unat_u64_less: "unat (w :: u64) < usize_limit"
  using unsigned_less [of w] by simp

lemma div_ceil_pos: "0 < a \<Longrightarrow> 0 < b \<Longrightarrow> 0 < div_ceil a b"
  by (auto simp: div_ceil_def)

lemma div_ceil_alt: "0 < b \<Longrightarrow> div_ceil a b = (a + b - 1) div b"
proof -
  assume b: "0 < b"
  define q where "q = a div b"
  define r where "r = a mod b"
  have a: "a = b * q + r" and r: "r < b" using b by (simp_all add: q_def r_def)
  have "a + b - 1 = b * q + (r + b - 1)" using a b by linarith
  then have "(a + b - 1) div b = (b * q + (r + b - 1)) div b" by (simp only:)
  also have "\<dots> = q + (r + b - 1) div b" by (rule div_mult_self4) (use b in simp)
  also have "(r + b - 1) div b = (if r = 0 then 0 else 1)"
  proof (cases "r = 0")
    case False
    then have "r + b - 1 = (r - 1) + b" and "(r - 1) div b = 0" using r by simp_all
    then show ?thesis using b False by (simp only: div_add_self2) simp
  qed (use b in simp)
  finally show ?thesis by (simp add: div_ceil_def q_def r_def)
qed

lemma div_ceil_mono: "0 < b \<Longrightarrow> a \<le> c \<Longrightarrow> div_ceil a b \<le> div_ceil c b"
  by (simp add: div_ceil_alt div_le_mono diff_le_mono)

section \<open>Slices and chunks\<close>

lemma sum_list_map_sort: "sum_list (map f (sort xs)) = (sum_list (map f xs) :: nat)"
proof (induction xs)
  case (Cons x xs)
  have "sum_list (map f (insort x ys)) = f x + sum_list (map f ys)" for ys by (induction ys) auto
  with Cons show ?case by simp
qed simp

lemma set_map_filter_iff: "y \<in> set (List.map_filter f xs) \<longleftrightarrow> (\<exists>x \<in> set xs. f x = Some y)"
  by (force simp: map_filter_def)

text \<open>\<open>bytes.get(a..b)\<close>.\<close>

definition slice_get :: "'a list \<Rightarrow> nat \<Rightarrow> nat \<Rightarrow> 'a list option" where
  "slice_get xs a b = (if a \<le> b \<and> b \<le> length xs then Some (take (b - a) (drop a xs)) else None)"

text \<open>\<open>slice::chunks_exact\<close> drops the short rest, \<open>slice::chunks\<close> keeps it. A chunk size of
  zero panics in Rust; every caller passes a positive one.\<close>

fun chunks_exact :: "nat \<Rightarrow> 'a list \<Rightarrow> 'a list list" where
  "chunks_exact n xs =
     (if n = 0 \<or> length xs < n then [] else take n xs # chunks_exact n (drop n xs))"

fun chunks :: "nat \<Rightarrow> 'a list \<Rightarrow> 'a list list" where
  "chunks n xs = (if n = 0 \<or> xs = [] then [] else take n xs # chunks n (drop n xs))"

declare chunks_exact.simps [simp del] chunks.simps [simp del]

lemma concat_chunks: "0 < n \<Longrightarrow> concat (chunks n xs) = xs"
proof (induction n xs rule: chunks.induct)
  case (1 n xs)
  then show ?case by (subst chunks.simps) auto
qed

lemma length_chunks_exact: "0 < n \<Longrightarrow> length (chunks_exact n xs) = length xs div n"
proof (induction n xs rule: chunks_exact.induct)
  case (1 n xs)
  show ?case
  proof (cases "length xs < n")
    case True
    then show ?thesis by (subst chunks_exact.simps) simp
  next
    case False
    with "1.prems" have "length xs div n = Suc ((length xs - n) div n)"
      by (simp add: le_div_geq not_less)
    moreover have "length (chunks_exact n (drop n xs)) = (length xs - n) div n"
      using "1.IH" "1.prems" False by simp
    moreover have "length (chunks_exact n xs) = Suc (length (chunks_exact n (drop n xs)))"
      using False "1.prems" by (subst chunks_exact.simps) simp
    ultimately show ?thesis by simp
  qed
qed

lemma chunks_exact_Nil [simp]: "chunks_exact n [] = []"
  by (subst chunks_exact.simps) auto

lemma chunks_exact_append:
  "length xs = n \<Longrightarrow> 0 < n \<Longrightarrow> chunks_exact n (xs @ ys) = xs # chunks_exact n ys"
  by (subst chunks_exact.simps) simp

lemma chunks_exact_concat:
  assumes "0 < n" and "\<And>x. x \<in> set xs \<Longrightarrow> length x = n"
  shows "chunks_exact n (concat xs) = xs"
  using assms(2) by (induction xs) (auto simp: chunks_exact_append assms(1))

lemma chunks_exact_length_mem: "x \<in> set (chunks_exact n xs) \<Longrightarrow> length x = n"
proof (induction n xs rule: chunks_exact.induct)
  case (1 n xs)
  then show ?case by (subst (asm) chunks_exact.simps) (auto split: if_splits)
qed

lemma concat_chunks_exact:
  "0 < n \<Longrightarrow> n dvd length xs \<Longrightarrow> concat (chunks_exact n xs) = xs"
proof (induction n xs rule: chunks_exact.induct)
  case (1 n xs)
  show ?case
  proof (cases "length xs < n")
    case True
    with "1.prems" have "xs = []" using nat_dvd_not_less by blast
    then show ?thesis by simp
  next
    case False
    with "1.prems" have "n dvd length (drop n xs)" by (simp add: dvd_minus_self)
    with "1.IH" "1.prems" False have "concat (chunks_exact n (drop n xs)) = drop n xs" by simp
    with False "1.prems" show ?thesis by (subst chunks_exact.simps) simp
  qed
qed

section \<open>Little-endian bytes\<close>

text \<open>\<open>to_le_bytes\<close> of a word of \<open>n\<close> bytes and \<open>from_le_bytes\<close>.\<close>

primrec to_le_bytes :: "nat \<Rightarrow> 'a::len word \<Rightarrow> bytes" where
  "to_le_bytes 0 w = []"
| "to_le_bytes (Suc n) w = ucast w # to_le_bytes n (drop_bit 8 w)"

primrec from_le_bytes :: "bytes \<Rightarrow> 'a::len word" where
  "from_le_bytes [] = 0"
| "from_le_bytes (b # bs) = ucast b OR push_bit 8 (from_le_bytes bs)"

abbreviation le16 :: "u16 \<Rightarrow> bytes" where "le16 \<equiv> to_le_bytes 2"
abbreviation le32 :: "u32 \<Rightarrow> bytes" where "le32 \<equiv> to_le_bytes 4"
abbreviation le64 :: "u64 \<Rightarrow> bytes" where "le64 \<equiv> to_le_bytes 8"

lemma length_to_le_bytes [simp, le_simps]: "length (to_le_bytes n w) = n"
  by (induction n arbitrary: w) auto

lemma bit_from_le_bytes:
  "bit (from_le_bytes bs :: 'a::len word) k \<longleftrightarrow>
     k < LENGTH('a) \<and> k div 8 < length bs \<and> bit (bs ! (k div 8)) (k mod 8)"
proof (induction bs arbitrary: k)
  case Nil
  then show ?case by simp
next
  case (Cons b bs)
  show ?case
  proof (cases "k < 8")
    case True
    then show ?thesis by (auto simp: bit_or_iff bit_push_bit_iff bit_ucast_iff bit_imp_le_length)
  next
    case False
    then have "(b # bs) ! (k div 8) = bs ! ((k - 8) div 8)" and "(k - 8) mod 8 = k mod 8"
      and "k div 8 < length (b # bs) \<longleftrightarrow> (k - 8) div 8 < length bs"
      by (auto simp: nth_Cons' le_div_geq le_mod_geq not_less)
    moreover have "\<not> bit b k" using False by (auto dest: bit_imp_le_length)
    ultimately show ?thesis
      using False by (auto simp: bit_or_iff bit_push_bit_iff bit_ucast_iff Cons.IH bit_imp_le_length)
  qed
qed

lemma nth_to_le_bytes: "i < n \<Longrightarrow> to_le_bytes n w ! i = ucast (drop_bit (8 * i) w)"
proof (induction n arbitrary: w i)
  case (Suc n)
  then show ?case by (cases i) (auto simp: drop_bit_drop_bit ac_simps)
qed simp

lemma from_to_le_bytes:
  assumes "LENGTH('a) \<le> 8 * n"
  shows "from_le_bytes (to_le_bytes n w) = (w :: 'a::len word)"
proof (rule bit_word_eqI)
  fix k
  assume "k < LENGTH('a)"
  with assms have "k div 8 < n" by simp
  moreover have "8 * (k div 8) + k mod 8 = k" by simp
  ultimately show "bit (from_le_bytes (to_le_bytes n w) :: 'a word) k = bit w k"
    using \<open>k < LENGTH('a)\<close>
    by (auto simp: bit_from_le_bytes nth_to_le_bytes bit_ucast_iff bit_drop_bit_eq simp del: mult_div_mod_eq)
qed

lemma from_le_bytes_le16 [simp, le_simps]: "from_le_bytes (le16 w) = w"
  and from_le_bytes_le32 [simp, le_simps]: "from_le_bytes (le32 v) = v"
  and from_le_bytes_le64 [simp, le_simps]: "from_le_bytes (le64 u) = u"
  by (simp_all add: from_to_le_bytes)

lemma to_from_le_bytes:
  assumes "length bs = n" and "8 * n \<le> LENGTH('a)"
  shows "to_le_bytes n (from_le_bytes bs :: 'a::len word) = bs"
proof (rule nth_equalityI)
  show "length (to_le_bytes n (from_le_bytes bs :: 'a word)) = length bs"
    by (simp add: assms)
next
  fix i
  assume "i < length (to_le_bytes n (from_le_bytes bs :: 'a word))"
  then have i: "i < n" by simp
  show "to_le_bytes n (from_le_bytes bs :: 'a word) ! i = bs ! i"
  proof (rule bit_word_eqI)
    fix k
    assume "k < LENGTH(8)"
    then have k: "k < 8" by simp
    then have "(8 * i + k) div 8 = i" and "(8 * i + k) mod 8 = k" by simp_all
    then show "bit (to_le_bytes n (from_le_bytes bs :: 'a word) ! i) k = bit (bs ! i) k"
      using i k assms
      by (auto simp: nth_to_le_bytes bit_ucast_iff bit_drop_bit_eq bit_from_le_bytes ac_simps)
  qed
qed

lemma le64_from_le_bytes: "length bs = 8 \<Longrightarrow> le64 (from_le_bytes bs) = bs"
  by (simp add: to_from_le_bytes)

lemma le32_from_le_bytes: "length bs = 4 \<Longrightarrow> le32 (from_le_bytes bs) = bs"
  by (simp add: to_from_le_bytes)

lemma le16_from_le_bytes: "length bs = 2 \<Longrightarrow> le16 (from_le_bytes bs) = bs"
  by (simp add: to_from_le_bytes)

lemma le64_inject [simp]: "le64 a = le64 b \<longleftrightarrow> a = b"
  by (metis from_le_bytes_le64)

lemma length_concat_le64 [simp]: "length (concat (map le64 xs)) = 8 * length xs"
  by (induction xs) auto

lemma chunks_exact_le64: "chunks_exact 8 (concat (map le64 xs)) = map le64 xs"
  by (rule chunks_exact_concat) auto

end
