(* ===== verification/Pari_F64.thy ===== *)
theory Pari_F64
  imports Pari_Prelude
begin

text \<open>
  IEEE-754 binary64 values as their bit patterns (\<open>f64::to_bits\<close>). The sources test finiteness,
  compare with the literals \<open>0.0\<close> and \<open>1.0\<close>, order values by \<open>total_cmp\<close>, convert integers, and
  add, subtract, multiply and divide; each is defined on the bits here, with the rounding of
  IEEE-754 (to nearest, ties to even). \<open>powf\<close> has no specified precision in Rust and stays a
  parameter of the definitions that use it. The lemmas show that the
  thresholds the validators accept are exactly the patterns above \<open>+0.0\<close> and up to \<open>1.0\<close>, and
  that the quotient of two counts is \<open>0.0\<close> or \<open>1.0\<close> only where the counts say so.
\<close>

unbundle bit_operations_syntax

type_synonym f64 = "64 word"

abbreviation f64_one :: f64 where
  "f64_one \<equiv> 0x3FF0000000000000"

section \<open>Fields and comparisons\<close>

definition f64_negative :: "f64 \<Rightarrow> bool" where
  "f64_negative x \<longleftrightarrow> 9223372036854775808 \<le> unat x"

definition f64_exponent :: "f64 \<Rightarrow> nat" where
  "f64_exponent x = unat x div 4503599627370496 mod 2048"

definition f64_mantissa :: "f64 \<Rightarrow> nat" where
  "f64_mantissa x = unat x mod 4503599627370496"

definition f64_is_finite :: "f64 \<Rightarrow> bool" where
  "f64_is_finite x \<longleftrightarrow> f64_exponent x \<noteq> 2047"

definition f64_is_nan :: "f64 \<Rightarrow> bool" where
  "f64_is_nan x \<longleftrightarrow> f64_exponent x = 2047 \<and> f64_mantissa x \<noteq> 0"

text \<open>\<open>x <= 0.0\<close>: a negative number, or a zero of either sign. \<open>x > 1.0\<close>: positive and above
  the pattern of \<open>1.0\<close>, since the patterns of positive values are ordered as the values are.\<close>

definition f64_le_zero :: "f64 \<Rightarrow> bool" where
  "f64_le_zero x \<longleftrightarrow> \<not> f64_is_nan x \<and> (f64_negative x \<or> x = 0)"

definition f64_gt_one :: "f64 \<Rightarrow> bool" where
  "f64_gt_one x \<longleftrightarrow> \<not> f64_is_nan x \<and> \<not> f64_negative x \<and> f64_one < x"

text \<open>The guard the validators of all crates share:
  \<open>!threshold.is_finite() || threshold <= 0.0 || threshold > 1.0\<close>.\<close>

definition threshold_rejected :: "f64 \<Rightarrow> bool" where
  "threshold_rejected t \<longleftrightarrow> \<not> f64_is_finite t \<or> f64_le_zero t \<or> f64_gt_one t"

lemma threshold_accepted_iff: "\<not> threshold_rejected t \<longleftrightarrow> 0 < t \<and> t \<le> f64_one"
proof -
  have zero: "t = 0 \<longleftrightarrow> unat t = 0" by (simp add: unat_eq_zero)
  have pos: "0 < t \<longleftrightarrow> 0 < unat t" by (simp add: word_less_nat_alt)
  have le: "t \<le> f64_one \<longleftrightarrow> unat t \<le> 4607182418800017408" by (simp add: word_le_nat_alt)
  have small: "unat t div 4503599627370496 mod 2048 \<noteq> 2047" if "unat t \<le> 4607182418800017408"
  proof -
    have "unat t div 4503599627370496 \<le> 1023" using div_le_mono [OF that, of 4503599627370496] by simp
    then show ?thesis by simp
  qed
  show ?thesis
    unfolding threshold_rejected_def f64_is_finite_def f64_le_zero_def f64_gt_one_def
      f64_is_nan_def f64_negative_def f64_exponent_def zero pos
    using small by (auto simp: le not_le not_less word_less_nat_alt)
qed

text \<open>\<open>f64::total_cmp\<close> compares the patterns as signed integers after flipping the lower 63
  bits of the negative ones.\<close>

definition f64_total_key :: "f64 \<Rightarrow> int" where
  "f64_total_key x = sint (if f64_negative x then x XOR 0x7FFFFFFFFFFFFFFF else x)"

definition f64_total_less :: "f64 \<Rightarrow> f64 \<Rightarrow> bool" where
  "f64_total_less x y \<longleftrightarrow> f64_total_key x < f64_total_key y"

definition f64_total_eq :: "f64 \<Rightarrow> f64 \<Rightarrow> bool" where
  "f64_total_eq x y \<longleftrightarrow> f64_total_key x = f64_total_key y"

section \<open>The quotient of two counts\<close>

text \<open>\<open>f64::from(p) / f64::from(q)\<close> for integers \<open>p\<close> and \<open>q\<close> below \<open>2 ^ 32\<close>: both conversions are
  exact, and the quotient is rounded to the nearest pattern, ties to even. The exponent of a
  quotient below one is found by doubling the numerator, that of a larger one by halving.\<close>

function doublings :: "nat \<Rightarrow> nat \<Rightarrow> nat" where
  "doublings p q = (if p = 0 \<or> q \<le> p then 0 else Suc (doublings (2 * p) q))"
  by pat_completeness auto
termination
  by (relation "measure (\<lambda>(p, q). q - p)") auto

fun halvings :: "nat \<Rightarrow> nat" where
  "halvings n = (if n < 2 then 0 else Suc (halvings (n div 2)))"

declare doublings.simps [simp del] halvings.simps [simp del]

definition round_half_even :: "nat \<Rightarrow> nat \<Rightarrow> nat" where
  "round_half_even n d =
     (let q = n div d; r = n mod d
      in if 2 * r < d \<or> (2 * r = d \<and> even q) then q else q + 1)"

definition f64_ratio :: "nat \<Rightarrow> nat \<Rightarrow> f64" where
  "f64_ratio p q =
     (if q = 0 then (if p = 0 then 0x7FF8000000000000 else 0x7FF0000000000000)
      else if p = 0 then 0
      else if p < q then
        (let t = doublings p q
         in of_nat ((1023 - t) * 2 ^ 52 + (round_half_even (p * 2 ^ (52 + t)) q - 2 ^ 52)))
      else
        (let e = halvings (p div q)
         in of_nat ((1023 + e) * 2 ^ 52 + (round_half_even (p * 2 ^ 52) (q * 2 ^ e) - 2 ^ 52))))"

lemma doublings_bounds:
  assumes "0 < p" and "p < q"
  shows "0 < doublings p q \<and> q \<le> p * 2 ^ doublings p q \<and> p * 2 ^ doublings p q < 2 * q"
  using assms
proof (induction p q rule: doublings.induct)
  case (1 p q)
  have step: "doublings p q = Suc (doublings (2 * p) q)"
    using "1.prems" by (subst doublings.simps) simp
  show ?case
  proof (cases "2 * p < q")
    case True
    with "1.IH" "1.prems" have "q \<le> 2 * p * 2 ^ doublings (2 * p) q"
      and "2 * p * 2 ^ doublings (2 * p) q < 2 * q"
      by auto
    then show ?thesis by (simp add: step ac_simps)
  next
    case False
    then have "doublings (2 * p) q = 0" by (subst doublings.simps) simp
    with False "1.prems" show ?thesis by (simp add: step)
  qed
qed

lemma round_half_even_le: "0 < d \<Longrightarrow> n \<le> m * d \<Longrightarrow> round_half_even n d \<le> m"
proof -
  assume d: "0 < d" and n: "n \<le> m * d"
  then have "n div d \<le> m" using div_le_mono [OF n, of d] by simp
  moreover have "n mod d = 0" if "n div d = m"
  proof -
    have "n = m * d + n mod d" using that by (metis div_mult_mod_eq)
    with n show ?thesis by simp
  qed
  ultimately show ?thesis
    using d by (cases "n div d = m") (auto simp: round_half_even_def Let_def)
qed

lemma round_half_even_ge: "0 < d \<Longrightarrow> m * d \<le> n \<Longrightarrow> m \<le> round_half_even n d"
proof -
  assume d: "0 < d" and n: "m * d \<le> n"
  then have "m \<le> n div d" using div_le_mono [OF n, of d] by simp
  then show ?thesis by (auto simp: round_half_even_def Let_def)
qed

text \<open>A quotient below one of counts below \<open>2 ^ 32\<close> stays strictly between the patterns of
  \<open>0.0\<close> and \<open>1.0\<close>.\<close>

lemma f64_ratio_proper:
  assumes "0 < p" and "p < q" and "q < 2 ^ 32"
  shows "0 < f64_ratio p q \<and> f64_ratio p q < f64_one"
proof -
  define t where "t = doublings p q"
  define m where "m = round_half_even (p * 2 ^ (52 + t)) q"
  have t: "0 < t" "q \<le> p * 2 ^ t" "p * 2 ^ t < 2 * q"
    using doublings_bounds [OF assms(1,2)] by (auto simp: t_def)
  have "t \<le> 32"
  proof (rule ccontr)
    assume "\<not> t \<le> 32"
    then have "(2::nat) ^ 33 \<le> 2 ^ t" by (intro power_increasing) auto
    also have "\<dots> \<le> p * 2 ^ t" using assms(1) by simp
    finally show False using t(3) assms(3) by simp
  qed
  have lo: "2 ^ 52 \<le> m"
    unfolding m_def by (rule round_half_even_ge) (use assms t(2) in \<open>auto simp: power_add\<close>)
  have hi: "m < 2 ^ 53"
  proof -
    have "p * 2 ^ t + 1 \<le> 2 * q" using t(3) by simp
    then have "2 ^ 52 * (p * 2 ^ t + 1) \<le> 2 ^ 52 * (2 * q)" by (rule mult_le_mono2)
    then have "p * 2 ^ (52 + t) \<le> (2 ^ 53 - 1) * q"
      using assms(3) by (simp add: power_add algebra_simps)
    then have "m \<le> 2 ^ 53 - 1"
      unfolding m_def using assms by (intro round_half_even_le) auto
    then show ?thesis by simp
  qed
  define n where "n = (1023 - t) * 2 ^ 52 + (m - 2 ^ 52)"
  have "n < 1023 * 2 ^ 52"
  proof -
    have "(1023 - t) * 2 ^ 52 \<le> 1022 * (2 ^ 52 :: nat)" using t(1) by (intro mult_right_mono) auto
    then show ?thesis using lo hi by (simp add: n_def)
  qed
  moreover have "0 < n" using \<open>t \<le> 32\<close> by (simp add: n_def)
  moreover have "f64_ratio p q = of_nat n"
    using assms by (simp add: f64_ratio_def n_def m_def t_def Let_def)
  ultimately show ?thesis
    by (simp add: word_less_nat_alt unat_of_nat)
qed

lemma f64_ratio_self: "0 < q \<Longrightarrow> f64_ratio q q = f64_one"
proof -
  assume q: "0 < q"
  have "halvings (q div q) = 0" using q by (subst halvings.simps) simp
  moreover have "round_half_even (q * 2 ^ 52) q = 2 ^ 52"
    using q by (simp add: round_half_even_def Let_def)
  ultimately show ?thesis using q by (simp add: f64_ratio_def Let_def)
qed

lemma f64_ratio_zero: "0 < q \<Longrightarrow> f64_ratio 0 q = 0"
  by (simp add: f64_ratio_def)

lemma f64_ratio_cases:
  assumes "0 < q" and "q < 4294967296" and "p \<le> q"
  shows "f64_ratio p q \<le> f64_one \<and> (f64_ratio p q = f64_one \<longleftrightarrow> p = q) \<and> (f64_ratio p q = 0 \<longleftrightarrow> p = 0)"
proof -
  consider "p = 0" | "0 < p" "p < q" | "p = q" using assms(3) by linarith
  then show ?thesis
  proof cases
    case 2
    then show ?thesis using f64_ratio_proper [of p q] assms by auto
  qed (use assms in \<open>auto simp: f64_ratio_zero f64_ratio_self\<close>)
qed

section \<open>Arithmetic\<close>

text \<open>A finite pattern stands for the significand times a power of two. \<open>f64_round\<close> is the
  pattern nearest to \<open>n / d * 2 ^ e\<close> with the given sign.\<close>

abbreviation f64_nan :: f64 where "f64_nan \<equiv> 0x7FF8000000000000"
abbreviation f64_infinity :: f64 where "f64_infinity \<equiv> 0x7FF0000000000000"

definition f64_signed :: "bool \<Rightarrow> f64 \<Rightarrow> f64" where
  "f64_signed neg x = (if neg then x OR 0x8000000000000000 else x)"

definition f64_significand :: "f64 \<Rightarrow> nat" where
  "f64_significand x = (if f64_exponent x = 0 then f64_mantissa x else f64_mantissa x + 4503599627370496)"

definition f64_scale :: "f64 \<Rightarrow> int" where
  "f64_scale x = int (max 1 (f64_exponent x)) - 1075"

definition f64_is_infinite :: "f64 \<Rightarrow> bool" where
  "f64_is_infinite x \<longleftrightarrow> f64_exponent x = 2047 \<and> f64_mantissa x = 0"

definition f64_is_zero :: "f64 \<Rightarrow> bool" where
  "f64_is_zero x \<longleftrightarrow> f64_exponent x = 0 \<and> f64_mantissa x = 0"

text \<open>The integer part of the binary logarithm of \<open>n / d\<close>.\<close>

definition log2_quotient :: "nat \<Rightarrow> nat \<Rightarrow> int" where
  "log2_quotient n d =
     (let k = int (halvings n) - int (halvings d)
      in if (if 0 \<le> k then d * 2 ^ nat k \<le> n else d \<le> n * 2 ^ nat (- k)) then k else k - 1)"

definition f64_round :: "bool \<Rightarrow> nat \<Rightarrow> nat \<Rightarrow> int \<Rightarrow> f64" where
  "f64_round neg n d e =
     f64_signed neg
       (if n = 0 then 0
        else let s = max (log2_quotient n d + e - 52) (- 1074);
                 q = (if s \<le> e then round_half_even (n * 2 ^ nat (e - s)) d
                      else round_half_even n (d * 2 ^ nat (s - e)));
                 bits = nat (s + 1074) * 4503599627370496 + q
             in if 9218868437227405312 \<le> bits then f64_infinity else of_nat bits)"

definition f64_from_nat :: "nat \<Rightarrow> f64" where
  "f64_from_nat n = f64_round False n 1 0"

definition f64_neg :: "f64 \<Rightarrow> f64" where
  "f64_neg x = x XOR 0x8000000000000000"

definition f64_add :: "f64 \<Rightarrow> f64 \<Rightarrow> f64" where
  "f64_add x y =
     (if f64_is_nan x \<or> f64_is_nan y then f64_nan
      else if f64_is_infinite x then
        (if f64_is_infinite y \<and> f64_negative x \<noteq> f64_negative y then f64_nan else x)
      else if f64_is_infinite y then y
      else let e = min (f64_scale x) (f64_scale y);
               value = (\<lambda>v. (if f64_negative v then - 1 else 1)
                         * (int (f64_significand v) * 2 ^ nat (f64_scale v - e)));
               sum = value x + value y
           in if sum = 0 then f64_signed (f64_negative x \<and> f64_negative y) 0
              else f64_round (sum < 0) (nat \<bar>sum\<bar>) 1 e)"

definition f64_sub :: "f64 \<Rightarrow> f64 \<Rightarrow> f64" where
  "f64_sub x y = f64_add x (f64_neg y)"

definition f64_mul :: "f64 \<Rightarrow> f64 \<Rightarrow> f64" where
  "f64_mul x y =
     (let neg = (f64_negative x \<noteq> f64_negative y)
      in if f64_is_nan x \<or> f64_is_nan y then f64_nan
         else if f64_is_infinite x \<or> f64_is_infinite y then
           (if f64_is_zero x \<or> f64_is_zero y then f64_nan else f64_signed neg f64_infinity)
         else f64_round neg (f64_significand x * f64_significand y) 1 (f64_scale x + f64_scale y))"

definition f64_div :: "f64 \<Rightarrow> f64 \<Rightarrow> f64" where
  "f64_div x y =
     (let neg = (f64_negative x \<noteq> f64_negative y)
      in if f64_is_nan x \<or> f64_is_nan y then f64_nan
         else if f64_is_infinite x then (if f64_is_infinite y then f64_nan else f64_signed neg f64_infinity)
         else if f64_is_infinite y then f64_signed neg 0
         else if f64_is_zero y then (if f64_is_zero x then f64_nan else f64_signed neg f64_infinity)
         else f64_round neg (f64_significand x) (f64_significand y) (f64_scale x - f64_scale y))"

end
