(* ===== verification/Pari_MinHash.thy ===== *)
theory Pari_MinHash
  imports Pari_Prelude Pari_F64
begin

text \<open>
  Crate \<open>pari-core\<close> (\<open>crates/pari-core/src/minhash.rs\<close> and \<open>hash.rs\<close>): the SplitMix64 generator,
  the two finalizers, the affine MinHash sketches of both widths, and ordered batch construction.
  The two widths share a record over the word length; operations whose code differs between
  \<open>MinHash32\<close> and \<open>MinHash64\<close> are defined once per width. SHA-1 comes from a third-party crate
  and is the parameter \<open>sha1\<close>; the worker pool of \<open>rayon\<close> and the CPU count are parameters too.

  The locale \<open>affine_scheme\<close> states what the sketch operations rely on; it is interpreted for
  both widths. Its lemmas show that every permutation is a bijection, and that a signature is
  the pointwise minimum over the set of hashed values, so that order and repetition of the
  input do not matter and a merge is the sketch of the union.
\<close>

unbundle bit_operations_syntax

section \<open>Input hashes\<close>

definition sha1_hash32 :: "(bytes \<Rightarrow> bytes) \<Rightarrow> bytes \<Rightarrow> u32" where
  "sha1_hash32 sha1 data =
     (let digest = sha1 data
      in from_le_bytes [digest ! 0, digest ! 1, digest ! 2, digest ! 3])"

definition sha1_hash64 :: "(bytes \<Rightarrow> bytes) \<Rightarrow> bytes \<Rightarrow> u64" where
  "sha1_hash64 sha1 data =
     (let digest = sha1 data
      in from_le_bytes [digest ! 0, digest ! 1, digest ! 2, digest ! 3,
                        digest ! 4, digest ! 5, digest ! 6, digest ! 7])"

section \<open>Errors and the generator\<close>

datatype minhash_error =
    InvalidPermutationCount usize
  | IncompatibleSeed u64 u64
  | IncompatiblePermutationCount usize usize
  | BatchPoolUnavailable string

definition validate_num_perm :: "usize \<Rightarrow> (unit, minhash_error) result" where
  "validate_num_perm num_perm =
     (if num_perm = 0 \<or> u32_try_from num_perm = None
      then Err (InvalidPermutationCount num_perm) else Ok ())"

record splitmix64 =
  sm_state :: u64

definition splitmix64_new :: "u64 \<Rightarrow> splitmix64" where
  "splitmix64_new seed = \<lparr>sm_state = seed\<rparr>"

definition next_u64 :: "splitmix64 \<Rightarrow> u64 \<times> splitmix64" where
  "next_u64 g =
     (let state = sm_state g + 0x9E3779B97F4A7C15;
          value = (state XOR drop_bit 30 state) * 0xBF58476D1CE4E5B9;
          value = (value XOR drop_bit 27 value) * 0x94D049BB133111EB
      in (value XOR drop_bit 31 value, g\<lparr>sm_state := state\<rparr>))"

definition next_u32 :: "splitmix64 \<Rightarrow> u32 \<times> splitmix64" where
  "next_u32 g =
     (let (value, g') = next_u64 g; bytes = le64 value
      in (from_le_bytes [bytes ! 0, bytes ! 1, bytes ! 2, bytes ! 3], g'))"

definition fmix32 :: "u32 \<Rightarrow> u32" where
  "fmix32 value =
     (let value = value XOR drop_bit 16 value;
          value = value * 0x85EBCA6B;
          value = value XOR drop_bit 13 value;
          value = value * 0xC2B2AE35
      in value XOR drop_bit 16 value)"

definition fmix64 :: "u64 \<Rightarrow> u64" where
  "fmix64 value =
     (let value = value XOR drop_bit 33 value;
          value = value * 0xFF51AFD7ED558CCD;
          value = value XOR drop_bit 33 value;
          value = value * 0xC4CEB9FE1A85EC53
      in value XOR drop_bit 33 value)"

section \<open>Sketches\<close>

record 'v minhash =
  mh_seed :: u64
  hashvalues :: "'v list"
  multipliers :: "'v list"
  offsets :: "'v list"

type_synonym minhash32 = "u32 minhash"
type_synonym minhash64 = "u64 minhash"

text \<open>The push loops of the constructors: \<open>n\<close> draws from a generator.\<close>

primrec draw :: "('g \<Rightarrow> 'a \<times> 'g) \<Rightarrow> nat \<Rightarrow> 'g \<Rightarrow> 'a list \<times> 'g" where
  "draw nxt 0 g = ([], g)"
| "draw nxt (Suc n) g = (let (x, g') = nxt g; (xs, g'') = draw nxt n g' in (x # xs, g''))"

definition MinHash32_new :: "usize \<Rightarrow> u64 \<Rightarrow> (minhash32, minhash_error) result" where
  "MinHash32_new num_perm seed =
     and_then (validate_num_perm num_perm) (\<lambda>_.
       let generator = splitmix64_new seed;
           (ms, generator) = draw (\<lambda>g. let (v, g') = next_u32 g in (v OR 1, g')) num_perm generator;
           (bs, generator) = draw next_u32 num_perm generator
       in Ok \<lparr>mh_seed = seed, hashvalues = replicate num_perm (- 1),
              multipliers = ms, offsets = bs\<rparr>)"

definition MinHash64_new :: "usize \<Rightarrow> u64 \<Rightarrow> (minhash64, minhash_error) result" where
  "MinHash64_new num_perm seed =
     and_then (validate_num_perm num_perm) (\<lambda>_.
       let generator = splitmix64_new seed;
           (ms, generator) = draw (\<lambda>g. let (v, g') = next_u64 g in (v OR 1, g')) num_perm generator;
           (bs, generator) = draw next_u64 num_perm generator
       in Ok \<lparr>mh_seed = seed, hashvalues = replicate num_perm (- 1),
              multipliers = ms, offsets = bs\<rparr>)"

definition MinHash32_from_signature :: "u32 list \<Rightarrow> u64 \<Rightarrow> (minhash32, minhash_error) result" where
  "MinHash32_from_signature signature seed =
     and_then (MinHash32_new (length signature) seed) (\<lambda>sketch.
       Ok (sketch\<lparr>hashvalues := signature\<rparr>))"

definition MinHash64_from_signature :: "u64 list \<Rightarrow> u64 \<Rightarrow> (minhash64, minhash_error) result" where
  "MinHash64_from_signature signature seed =
     and_then (MinHash64_new (length signature) seed) (\<lambda>sketch.
       Ok (sketch\<lparr>hashvalues := signature\<rparr>))"

text \<open>The body of the loop of \<open>update_hashed\<close>. The zipped iterators stop at the shortest array
  and leave the rest of \<open>hashvalues\<close> as it is.\<close>

fun lower_values :: "'w::len word \<Rightarrow> 'w word list \<Rightarrow> 'w word list \<Rightarrow> 'w word list \<Rightarrow> 'w word list" where
  "lower_values mixed (current # cs) (multiplier # ms) (offset # bs) =
     (let permuted = multiplier * mixed + offset
      in if permuted < current then permuted else current) # lower_values mixed cs ms bs"
| "lower_values mixed cs ms bs = cs"

definition update_hashed32 :: "u32 \<Rightarrow> minhash32 \<Rightarrow> minhash32" where
  "update_hashed32 hash s =
     s\<lparr>hashvalues := lower_values (fmix32 hash) (hashvalues s) (multipliers s) (offsets s)\<rparr>"

definition update_hashed64 :: "u64 \<Rightarrow> minhash64 \<Rightarrow> minhash64" where
  "update_hashed64 hash s =
     s\<lparr>hashvalues := lower_values (fmix64 hash) (hashvalues s) (multipliers s) (offsets s)\<rparr>"

definition MinHash32_update :: "(bytes \<Rightarrow> bytes) \<Rightarrow> bytes \<Rightarrow> minhash32 \<Rightarrow> minhash32" where
  "MinHash32_update sha1 value s = update_hashed32 (sha1_hash32 sha1 value) s"

definition MinHash64_update :: "(bytes \<Rightarrow> bytes) \<Rightarrow> bytes \<Rightarrow> minhash64 \<Rightarrow> minhash64" where
  "MinHash64_update sha1 value s = update_hashed64 (sha1_hash64 sha1 value) s"

definition MinHash32_update_many :: "(bytes \<Rightarrow> bytes) \<Rightarrow> bytes list \<Rightarrow> minhash32 \<Rightarrow> minhash32" where
  "MinHash32_update_many sha1 values s = fold (MinHash32_update sha1) values s"

definition MinHash64_update_many :: "(bytes \<Rightarrow> bytes) \<Rightarrow> bytes list \<Rightarrow> minhash64 \<Rightarrow> minhash64" where
  "MinHash64_update_many sha1 values s = fold (MinHash64_update sha1) values s"

definition ensure_compatible :: "'w::len word minhash \<Rightarrow> 'w word minhash \<Rightarrow> (unit, minhash_error) result" where
  "ensure_compatible s t =
     (if mh_seed s \<noteq> mh_seed t then Err (IncompatibleSeed (mh_seed s) (mh_seed t))
      else if length (hashvalues s) \<noteq> length (hashvalues t)
      then Err (IncompatiblePermutationCount (length (hashvalues s)) (length (hashvalues t)))
      else Ok ())"

fun merge_values :: "'w::len word list \<Rightarrow> 'w word list \<Rightarrow> 'w word list" where
  "merge_values (current # cs) (incoming # xs) = min current incoming # merge_values cs xs"
| "merge_values cs xs = cs"

definition minhash_merge ::
  "'w::len word minhash \<Rightarrow> 'w word minhash \<Rightarrow> ('w word minhash, minhash_error) result" where
  "minhash_merge s t =
     and_then (ensure_compatible s t) (\<lambda>_.
       Ok (s\<lparr>hashvalues := merge_values (hashvalues s) (hashvalues t)\<rparr>))"

definition minhash_clear :: "'w::len word minhash \<Rightarrow> 'w word minhash" where
  "minhash_clear s = s\<lparr>hashvalues := replicate (length (hashvalues s)) (- 1)\<rparr>"

definition minhash_is_empty :: "'w::len word minhash \<Rightarrow> bool" where
  "minhash_is_empty s \<longleftrightarrow> (\<forall>value \<in> set (hashvalues s). value = - 1)"

definition minhash_num_perm :: "'w::len word minhash \<Rightarrow> usize" where
  "minhash_num_perm s = length (hashvalues s)"

definition signature_match_ratio :: "'a list \<Rightarrow> 'a list \<Rightarrow> (f64, 'e) result" where
  "signature_match_ratio left right =
     (let matches = length (filter (\<lambda>(l, r). l = r) (zip left right))
      in and_then (expect (u32_try_from matches)) (\<lambda>matches.
         and_then (expect (u32_try_from (length left))) (\<lambda>total.
         Ok (f64_ratio (unat matches) (unat total)))))"

definition minhash_jaccard ::
  "'w::len word minhash \<Rightarrow> 'w word minhash \<Rightarrow> (f64, minhash_error) result" where
  "minhash_jaccard s t =
     and_then (ensure_compatible s t) (\<lambda>_.
       signature_match_ratio (hashvalues s) (hashvalues t))"

section \<open>Ordered batches\<close>

datatype batch_threads = BatchAuto | BatchSequential | BatchMax usize

definition PARALLEL_BATCH_MIN_ROWS :: usize where
  "PARALLEL_BATCH_MIN_ROWS = 256"

definition AUTO_BATCH_MAX_THREADS :: usize where
  "AUTO_BATCH_MAX_THREADS = 8"

text \<open>\<open>available\<close> is \<open>thread::available_parallelism().map_or(1, NonZeroUsize::get)\<close>.\<close>

definition effective_threads :: "usize \<Rightarrow> batch_threads \<Rightarrow> usize \<Rightarrow> usize" where
  "effective_threads available threads rows =
     (if rows < PARALLEL_BATCH_MIN_ROWS \<or> threads = BatchSequential then 1
      else let requested = (case threads of
                 BatchAuto \<Rightarrow> min available AUTO_BATCH_MAX_THREADS
               | BatchSequential \<Rightarrow> 1
               | BatchMax n \<Rightarrow> n)
           in max (min (min requested available) rows) 1)"

text \<open>The process-wide pool cache: \<open>poisoned\<close> is the state of its mutex, and \<open>build\<close> stands for
  \<open>rayon::ThreadPoolBuilder\<close>.\<close>

record 'p pool_cache =
  pool_poisoned :: bool
  pool_cached :: "(usize \<times> 'p) option"

definition batch_pool ::
  "(usize \<Rightarrow> ('p, string) result) \<Rightarrow> usize \<Rightarrow> 'p pool_cache
     \<Rightarrow> ('p, minhash_error) result \<times> 'p pool_cache" where
  "batch_pool build threads cache =
     (if pool_poisoned cache
      then (Err (BatchPoolUnavailable ''worker-pool cache lock is poisoned''), cache)
      else case pool_cached cache of
        Some (cached_threads, pool) \<Rightarrow>
          if cached_threads = threads then (Ok pool, cache)
          else (case build threads of
                  Err message \<Rightarrow> (Err (BatchPoolUnavailable message), cache)
                | Panic \<Rightarrow> (Panic, cache)
                | Ok pool \<Rightarrow> (Ok pool, cache\<lparr>pool_cached := Some (threads, pool)\<rparr>))
      | None \<Rightarrow>
          (case build threads of
             Err message \<Rightarrow> (Err (BatchPoolUnavailable message), cache)
           | Panic \<Rightarrow> (Panic, cache)
           | Ok pool \<Rightarrow> (Ok pool, cache\<lparr>pool_cached := Some (threads, pool)\<rparr>)))"

text \<open>\<open>from_batch_with\<close>: the parallel branch hands the chunks to the pool and flattens what it collects. The
  parameter \<open>par_collect\<close> stands for rayon's \<open>pool.install(|| tasks.map(f).collect())\<close>.\<close>

definition from_batch_with ::
  "(usize \<Rightarrow> u64 \<Rightarrow> ('s, minhash_error) result) \<Rightarrow> (usize \<Rightarrow> ('p, string) result)
     \<Rightarrow> ('p \<Rightarrow> ('r list \<Rightarrow> 's list) \<Rightarrow> 'r list list \<Rightarrow> 's list list) \<Rightarrow> usize
     \<Rightarrow> 'r list \<Rightarrow> usize \<Rightarrow> u64 \<Rightarrow> batch_threads \<Rightarrow> ('r \<Rightarrow> 's \<Rightarrow> 's) \<Rightarrow> 'p pool_cache
     \<Rightarrow> ('s list, minhash_error) result \<times> 'p pool_cache" where
  "from_batch_with new build par_collect available rows num_perm seed threads update cache =
     (case new num_perm seed of
        Err e \<Rightarrow> (Err e, cache)
      | Panic \<Rightarrow> (Panic, cache)
      | Ok template \<Rightarrow>
          let build_row = (\<lambda>row. update row template);
              effective = effective_threads available threads (length rows)
          in if effective = 1 then (Ok (map build_row rows), cache)
             else let chunk_size = div_ceil (length rows) effective;
                      (pool, cache') = batch_pool build effective cache
                  in (and_then pool (\<lambda>pool. Ok (concat (par_collect pool (map build_row) (chunks chunk_size rows)))),
                      cache'))"

definition MinHash32_from_batch ::
  "(usize \<Rightarrow> ('p, string) result) \<Rightarrow> ('p \<Rightarrow> (bytes list list \<Rightarrow> minhash32 list) \<Rightarrow> bytes list list list \<Rightarrow> minhash32 list list)
     \<Rightarrow> usize \<Rightarrow> (bytes \<Rightarrow> bytes) \<Rightarrow> bytes list list \<Rightarrow> usize \<Rightarrow> u64 \<Rightarrow> batch_threads \<Rightarrow> 'p pool_cache
     \<Rightarrow> (minhash32 list, minhash_error) result \<times> 'p pool_cache" where
  "MinHash32_from_batch build par_collect available sha1 rows num_perm seed threads cache =
     from_batch_with MinHash32_new build par_collect available rows num_perm seed threads
       (MinHash32_update_many sha1) cache"

definition MinHash64_from_batch ::
  "(usize \<Rightarrow> ('p, string) result) \<Rightarrow> ('p \<Rightarrow> (bytes list list \<Rightarrow> minhash64 list) \<Rightarrow> bytes list list list \<Rightarrow> minhash64 list list)
     \<Rightarrow> usize \<Rightarrow> (bytes \<Rightarrow> bytes) \<Rightarrow> bytes list list \<Rightarrow> usize \<Rightarrow> u64 \<Rightarrow> batch_threads \<Rightarrow> 'p pool_cache
     \<Rightarrow> (minhash64 list, minhash_error) result \<times> 'p pool_cache" where
  "MinHash64_from_batch build par_collect available sha1 rows num_perm seed threads cache =
     from_batch_with MinHash64_new build par_collect available rows num_perm seed threads
       (MinHash64_update_many sha1) cache"

section \<open>Bijections on words\<close>

lemma inj_xorshift:
  assumes "0 < n"
  shows "inj (\<lambda>x :: 'w::len word. x XOR drop_bit n x)"
proof (rule injI)
  fix x y :: "'w word"
  assume eq: "x XOR drop_bit n x = y XOR drop_bit n y"
  have "bit x k = bit y k" for k
  proof (induction "LENGTH('w) - k" arbitrary: k rule: less_induct)
    case less
    show ?case
    proof (cases "k < LENGTH('w)")
      case True
      with less assms have "bit x (n + k) = bit y (n + k)" by simp
      moreover from eq have "bit (x XOR drop_bit n x) k = bit (y XOR drop_bit n y) k" by simp
      ultimately show ?thesis by (auto simp: bit_xor_iff bit_drop_bit_eq)
    next
      case False
      then show ?thesis by (auto dest: bit_imp_le_length)
    qed
  qed
  then show "x = y" by (rule bit_eqI)
qed

lemma inj_odd_mult:
  assumes "odd a"
  shows "inj (\<lambda>x :: 'w::len word. a * x)"
proof (rule injI)
  fix x y :: "'w word"
  assume "a * x = a * y"
  then have "a * (x - y) = 0" by (simp add: algebra_simps)
  then have "2 ^ LENGTH('w) dvd uint a * uint (x - y)"
    by (metis dvd_eq_mod_eq_0 uint_mult_lem uint_word_ariths(3) unsigned_0)
  moreover have "odd (uint a)"
    using assms by (simp add: bit_0 [symmetric] bit_uint_iff)
  then have "coprime (2 ^ LENGTH('w)) (uint a)"
    by (simp add: coprime_left_2_iff_odd)
  ultimately have "2 ^ LENGTH('w) dvd uint (x - y)"
    by (simp add: coprime_dvd_mult_right_iff)
  moreover have "0 \<le> uint (x - y)" and "uint (x - y) < 2 ^ LENGTH('w)" by simp_all
  ultimately have "uint (x - y) = 0" by (metis dvd_imp_mod_0 mod_pos_pos_trivial)
  then have "x - y = 0" by (simp only: uint_0_iff)
  then show "x = y" by simp
qed

lemma bij_of_inj_word: "inj f \<Longrightarrow> bij (f :: 'w::len word \<Rightarrow> 'w word)"
  by (simp add: bij_def finite_UNIV_inj_surj)

lemma bij_affine:
  assumes "odd a"
  shows "bij (\<lambda>x :: 'w::len word. a * x + b)"
  by (rule bij_of_inj_word) (use inj_odd_mult [OF assms] in \<open>auto simp: inj_def\<close>)

lemma bij_fmix32: "bij fmix32"
proof -
  have eq: "fmix32 = (\<lambda>x. x XOR drop_bit 16 x) \<circ> (\<lambda>x. 0xC2B2AE35 * x) \<circ> (\<lambda>x. x XOR drop_bit 13 x)
      \<circ> (\<lambda>x. 0x85EBCA6B * x) \<circ> (\<lambda>x. x XOR drop_bit 16 x)"
    by (simp add: fun_eq_iff fmix32_def Let_def ac_simps)
  show ?thesis
    unfolding eq by (intro bij_of_inj_word inj_compose inj_xorshift inj_odd_mult) simp_all
qed

lemma bij_fmix64: "bij fmix64"
proof -
  have eq: "fmix64 = (\<lambda>x. x XOR drop_bit 33 x) \<circ> (\<lambda>x. 0xC4CEB9FE1A85EC53 * x) \<circ> (\<lambda>x. x XOR drop_bit 33 x)
      \<circ> (\<lambda>x. 0xFF51AFD7ED558CCD * x) \<circ> (\<lambda>x. x XOR drop_bit 33 x)"
    by (simp add: fun_eq_iff fmix64_def Let_def ac_simps)
  show ?thesis
    unfolding eq by (intro bij_of_inj_word inj_compose inj_xorshift inj_odd_mult) simp_all
qed

section \<open>Well-formed sketches\<close>

text \<open>The invariant of a sketch: three arrays of one length in the accepted range, and odd
  multipliers. \<open>perm_value\<close> is the image of a hashed value under the permutation \<open>i\<close>.\<close>

definition mh_wf :: "'w::len word minhash \<Rightarrow> bool" where
  "mh_wf s \<longleftrightarrow> 0 < length (hashvalues s) \<and> length (hashvalues s) < 4294967296
     \<and> length (multipliers s) = length (hashvalues s) \<and> length (offsets s) = length (hashvalues s)
     \<and> (\<forall>a \<in> set (multipliers s). odd a)"

definition perm_value :: "('w::len word \<Rightarrow> 'w word) \<Rightarrow> 'w word minhash \<Rightarrow> nat \<Rightarrow> 'w word \<Rightarrow> 'w word" where
  "perm_value mix s i hash = multipliers s ! i * mix hash + offsets s ! i"

lemma validate_num_perm_Ok [simp]: "validate_num_perm n = Ok u \<longleftrightarrow> 0 < n \<and> n < 4294967296"
  by (auto simp: validate_num_perm_def u32_try_from_def)

lemma validate_num_perm_cases:
  "validate_num_perm n = (if 0 < n \<and> n < 4294967296 then Ok () else Err (InvalidPermutationCount n))"
  by (auto simp: validate_num_perm_def u32_try_from_def)

lemma length_draw [simp]: "length (fst (draw nxt n g)) = n"
  by (induction n arbitrary: g) (auto simp: Let_def case_prod_beta)

lemma draw_all:
  assumes "\<And>g. P (fst (nxt g))"
  shows "x \<in> set (fst (draw nxt n g)) \<Longrightarrow> P x"
proof (induction n arbitrary: g)
  case (Suc n)
  then show ?case using assms [of g] by (auto simp: Let_def case_prod_beta)
qed simp

lemma odd_or_one: "odd (v OR 1 :: 'w::len word)"
  by (simp add: even_or_iff)

lemma length_lower_values [simp]: "length (lower_values h cs ms bs) = length cs"
  by (induction h cs ms bs rule: lower_values.induct) auto

lemma nth_lower_values:
  assumes "length ms = length cs" and "length bs = length cs" and "i < length cs"
  shows "lower_values h cs ms bs ! i = min (cs ! i) (ms ! i * h + bs ! i)"
  using assms
proof (induction h cs ms bs arbitrary: i rule: lower_values.induct)
  case (1 h c cs m ms b bs)
  then show ?case by (cases i) (auto simp: Let_def)
qed auto

lemma length_merge_values [simp]: "length (merge_values cs xs) = length cs"
  by (induction cs xs rule: merge_values.induct) auto

lemma nth_merge_values:
  assumes "length xs = length cs" and "i < length cs"
  shows "merge_values cs xs ! i = min (cs ! i) (xs ! i)"
  using assms
proof (induction cs xs arbitrary: i rule: merge_values.induct)
  case (1 c cs x xs)
  then show ?case by (cases i) auto
qed auto

lemma MinHash32_new_Ok:
  assumes "MinHash32_new n seed = Ok s"
  shows "mh_wf s \<and> mh_seed s = seed \<and> hashvalues s = replicate n (- 1)"
proof -
  have "odd x" if "x \<in> set (fst (draw (\<lambda>g. let (v, g') = next_u32 g in (v OR 1, g')) n (splitmix64_new seed)))" for x
    by (rule draw_all [OF _ that]) (auto simp: odd_or_one split: prod.split)
  with assms show ?thesis
    unfolding MinHash32_new_def and_then_eq_Ok
    by (auto simp: mh_wf_def Let_def split: prod.splits) (metis length_draw fst_conv)+
qed

lemma MinHash64_new_Ok:
  assumes "MinHash64_new n seed = Ok s"
  shows "mh_wf s \<and> mh_seed s = seed \<and> hashvalues s = replicate n (- 1)"
proof -
  have "odd x" if "x \<in> set (fst (draw (\<lambda>g. let (v, g') = next_u64 g in (v OR 1, g')) n (splitmix64_new seed)))" for x
    by (rule draw_all [OF _ that]) (auto simp: odd_or_one split: prod.split)
  with assms show ?thesis
    unfolding MinHash64_new_def and_then_eq_Ok
    by (auto simp: mh_wf_def Let_def split: prod.splits) (metis length_draw fst_conv)+
qed

lemma MinHash32_new_cases:
  "MinHash32_new n seed = Err e \<longleftrightarrow> \<not> (0 < n \<and> n < 4294967296) \<and> e = InvalidPermutationCount n"
  unfolding MinHash32_new_def validate_num_perm_cases by (auto simp: Let_def split: prod.split)

lemma MinHash64_new_cases:
  "MinHash64_new n seed = Err e \<longleftrightarrow> \<not> (0 < n \<and> n < 4294967296) \<and> e = InvalidPermutationCount n"
  unfolding MinHash64_new_def validate_num_perm_cases by (auto simp: Let_def split: prod.split)

section \<open>The contract of an affine scheme\<close>

locale affine_scheme =
  fixes mix :: "'w::len word \<Rightarrow> 'w word"
    and update_hashed :: "'w word \<Rightarrow> 'w word minhash \<Rightarrow> 'w word minhash"
    and create :: "usize \<Rightarrow> u64 \<Rightarrow> ('w word minhash, minhash_error) result"
  assumes bij_mix: "bij mix"
    and update_frame: "mh_seed (update_hashed h s) = mh_seed s"
      "multipliers (update_hashed h s) = multipliers s" "offsets (update_hashed h s) = offsets s"
      "length (hashvalues (update_hashed h s)) = length (hashvalues s)"
    and update_lowers: "mh_wf s \<Longrightarrow> i < length (hashvalues s) \<Longrightarrow>
      hashvalues (update_hashed h s) ! i = min (hashvalues s ! i) (perm_value mix s i h)"
    and create_Ok: "create n seed = Ok s \<Longrightarrow>
      mh_wf s \<and> mh_seed s = seed \<and> hashvalues s = replicate n (- 1)"
    and create_Err: "create n seed = Err e \<longleftrightarrow>
      \<not> (0 < n \<and> n < 4294967296) \<and> e = InvalidPermutationCount n"
begin

lemma permutation_bij:
  assumes "mh_wf s" and "i < length (hashvalues s)"
  shows "bij (perm_value mix s i)"
proof -
  from assms have "odd (multipliers s ! i)" by (simp add: mh_wf_def)
  then have "bij ((\<lambda>x. multipliers s ! i * x + offsets s ! i) \<circ> mix)"
    by (intro bij_comp bij_mix bij_affine)
  then show ?thesis by (simp add: perm_value_def [abs_def] comp_def)
qed

lemma update_wf: "mh_wf s \<Longrightarrow> mh_wf (update_hashed h s)"
  by (simp add: mh_wf_def update_frame)

lemma fold_frame:
  "mh_seed (fold update_hashed hs s) = mh_seed s"
  "multipliers (fold update_hashed hs s) = multipliers s"
  "offsets (fold update_hashed hs s) = offsets s"
  "length (hashvalues (fold update_hashed hs s)) = length (hashvalues s)"
  by (induction hs arbitrary: s) (simp_all add: update_frame)

lemma fold_wf: "mh_wf s \<Longrightarrow> mh_wf (fold update_hashed hs s)"
  by (induction hs arbitrary: s) (simp_all add: update_wf)

lemma fold_signature:
  assumes "mh_wf s" and "i < length (hashvalues s)"
  shows "hashvalues (fold update_hashed hs s) ! i
    = Min (insert (hashvalues s ! i) (perm_value mix s i ` set hs))"
  using assms
proof (induction hs arbitrary: s)
  case (Cons h hs)
  let ?s = "update_hashed h s"
  have "perm_value mix ?s i = perm_value mix s i"
    by (simp add: perm_value_def fun_eq_iff update_frame)
  moreover have "hashvalues (fold update_hashed hs ?s) ! i
      = Min (insert (hashvalues ?s ! i) (perm_value mix ?s i ` set hs))"
    using Cons.prems by (intro Cons.IH) (simp_all add: update_wf update_frame)
  ultimately show ?case
    using Cons.prems by (cases "hs = []") (simp_all add: update_lowers min.assoc)
qed simp

lemma minhash_eqI:
  assumes "mh_seed s = mh_seed t" and "multipliers s = multipliers t" and "offsets s = offsets t"
    and "length (hashvalues s) = length (hashvalues t)"
    and "\<And>i. i < length (hashvalues s) \<Longrightarrow> hashvalues s ! i = hashvalues t ! i"
  shows "s = (t :: 'w word minhash)"
  using assms by (cases s, cases t) (auto intro: nth_equalityI)

text \<open>Order and repetition of the hashed values are irrelevant.\<close>

lemma fold_cong_set:
  assumes "mh_wf s" and "set hs = set gs"
  shows "fold update_hashed hs s = fold update_hashed gs s"
  by (rule minhash_eqI) (use assms in \<open>auto simp: fold_frame fold_signature\<close>)

lemma merge_fold:
  assumes "mh_wf s"
  shows "minhash_merge (fold update_hashed hs s) (fold update_hashed gs s)
    = Ok (fold update_hashed (hs @ gs) s)"
proof -
  let ?m = "(fold update_hashed hs s)\<lparr>hashvalues :=
    merge_values (hashvalues (fold update_hashed hs s)) (hashvalues (fold update_hashed gs s))\<rparr>"
  have "?m = fold update_hashed (hs @ gs) s"
  proof (rule minhash_eqI)
    fix i
    assume "i < length (hashvalues ?m)"
    then have i: "i < length (hashvalues s)" by (simp add: fold_frame)
    have "hashvalues ?m ! i = min (hashvalues (fold update_hashed hs s) ! i) (hashvalues (fold update_hashed gs s) ! i)"
      using i by (simp add: nth_merge_values fold_frame)
    also have "\<dots> = min (Min (insert (hashvalues s ! i) (perm_value mix s i ` set hs)))
        (Min (insert (hashvalues s ! i) (perm_value mix s i ` set gs)))"
      using i assms by (simp add: fold_signature)
    also have "\<dots> = Min (insert (hashvalues s ! i) (perm_value mix s i ` set hs)
        \<union> insert (hashvalues s ! i) (perm_value mix s i ` set gs))"
      by (rule Min_Un [symmetric]) simp_all
    also have "\<dots> = hashvalues (fold update_hashed (hs @ gs) s) ! i"
      using i assms by (simp only: fold_signature set_append image_Un Un_insert_left Un_insert_right insert_absorb2)
    finally show "hashvalues ?m ! i = hashvalues (fold update_hashed (hs @ gs) s) ! i" .
  qed (simp_all add: fold_frame del: fold_append)
  then show ?thesis
    by (simp add: minhash_merge_def ensure_compatible_def fold_frame)
qed

text \<open>An empty sketch reads as empty exactly while no inserted value is mapped to the maximum by
  every permutation.\<close>

lemma fresh_signature:
  assumes "create n seed = Ok s" and "i < n"
  shows "hashvalues (fold update_hashed hs s) ! i = Min (insert (- 1) (perm_value mix s i ` set hs))"
  using create_Ok [OF assms(1)] assms(2) by (subst fold_signature) auto

end

interpretation mh32: affine_scheme fmix32 update_hashed32 MinHash32_new
  by (unfold_locales; (rule bij_fmix32 MinHash32_new_cases | erule MinHash32_new_Ok
    | simp add: update_hashed32_def mh_wf_def perm_value_def nth_lower_values))

interpretation mh64: affine_scheme fmix64 update_hashed64 MinHash64_new
  by (unfold_locales; (rule bij_fmix64 MinHash64_new_cases | erule MinHash64_new_Ok
    | simp add: update_hashed64_def mh_wf_def perm_value_def nth_lower_values))

section \<open>Properties of sketches\<close>

lemma update_many32_fold:
  "MinHash32_update_many sha1 vs s = fold update_hashed32 (map (sha1_hash32 sha1) vs) s"
  by (simp add: MinHash32_update_many_def MinHash32_update_def [abs_def] fold_map comp_def)

lemma update_many64_fold:
  "MinHash64_update_many sha1 vs s = fold update_hashed64 (map (sha1_hash64 sha1) vs) s"
  by (simp add: MinHash64_update_many_def MinHash64_update_def [abs_def] fold_map comp_def)

text \<open>C19: every permutation of a fresh sketch of either width is a bijection of the hash domain:
  the finalizer is invertible and the affine map has an odd multiplier.\<close>

theorem permutations_bijective:
  assumes "MinHash32_new n seed = Ok s" and "MinHash64_new n seed = Ok t" and "i < n"
  shows "bij (perm_value fmix32 s i) \<and> bij (perm_value fmix64 t i)"
  using mh32.permutation_bij [of s i] mh64.permutation_bij [of t i] assms
    MinHash32_new_Ok [OF assms(1)] MinHash64_new_Ok [OF assms(2)] by simp

text \<open>C18: after any sequence of updates of a fresh sketch, component \<open>i\<close> of the signature is the
  minimum of the maximal value and the images of the hashed inputs under permutation \<open>i\<close>, and
  seed and permutations are those of the fresh sketch.\<close>

theorem signature_is_minimum:
  assumes "MinHash32_new n seed = Ok s" and "i < n"
  shows "hashvalues (MinHash32_update_many sha1 vs s) ! i
      = Min (insert (- 1) (perm_value fmix32 s i ` sha1_hash32 sha1 ` set vs))
    \<and> (MinHash32_update_many sha1 vs s)\<lparr>hashvalues := hashvalues s\<rparr> = s
    \<and> mh_wf (MinHash32_update_many sha1 vs s)"
proof (intro conjI)
  show "hashvalues (MinHash32_update_many sha1 vs s) ! i
      = Min (insert (- 1) (perm_value fmix32 s i ` sha1_hash32 sha1 ` set vs))"
    using mh32.fresh_signature [OF assms] by (simp add: update_many32_fold)
  show "(MinHash32_update_many sha1 vs s)\<lparr>hashvalues := hashvalues s\<rparr> = s"
    by (rule mh32.minhash_eqI) (simp_all add: update_many32_fold mh32.fold_frame)
  show "mh_wf (MinHash32_update_many sha1 vs s)"
    using MinHash32_new_Ok [OF assms(1)] by (simp add: update_many32_fold mh32.fold_wf)
qed

text \<open>C5: merging the sketches of two inputs gives exactly the sketch of the union, for both
  widths, and the sketch depends on the set of inputs only, not on their order or repetition.\<close>

theorem merge_is_union:
  assumes "MinHash32_new n seed = Ok s" and "MinHash64_new n seed = Ok t"
    and "set us = set vs \<union> set ws"
  shows "minhash_merge (MinHash32_update_many sha1 vs s) (MinHash32_update_many sha1 ws s)
      = Ok (MinHash32_update_many sha1 us s)
    \<and> minhash_merge (MinHash64_update_many sha1 vs t) (MinHash64_update_many sha1 ws t)
      = Ok (MinHash64_update_many sha1 us t)"
proof -
  have "mh_wf s" and "mh_wf t"
    using MinHash32_new_Ok [OF assms(1)] MinHash64_new_Ok [OF assms(2)] by simp_all
  then show ?thesis
    unfolding update_many32_fold update_many64_fold mh32.merge_fold [OF \<open>mh_wf s\<close>] mh64.merge_fold [OF \<open>mh_wf t\<close>]
    using assms(3) by (auto intro!: mh32.fold_cong_set mh64.fold_cong_set simp: image_Un simp del: fold_append)
qed

text \<open>Two sketches are merged or compared only if seed and length agree; otherwise the error
  names the two seeds, or the two lengths when the seeds agree, and nothing is changed.\<close>

lemma incompatible_sketches:
  "(mh_seed s \<noteq> mh_seed t \<longrightarrow>
      minhash_merge s t = Err (IncompatibleSeed (mh_seed s) (mh_seed t))
      \<and> minhash_jaccard s t = Err (IncompatibleSeed (mh_seed s) (mh_seed t)))
   \<and> (mh_seed s = mh_seed t \<and> minhash_num_perm s \<noteq> minhash_num_perm t \<longrightarrow>
      minhash_merge s t = Err (IncompatiblePermutationCount (minhash_num_perm s) (minhash_num_perm t))
      \<and> minhash_jaccard s t = Err (IncompatiblePermutationCount (minhash_num_perm s) (minhash_num_perm t)))
   \<and> (mh_seed s = mh_seed t \<and> minhash_num_perm s = minhash_num_perm t \<longrightarrow>
      (\<exists>m. minhash_merge s t = Ok m) \<and> minhash_jaccard s t = signature_match_ratio (hashvalues s) (hashvalues t))"
  by (simp add: minhash_merge_def minhash_jaccard_def ensure_compatible_def minhash_num_perm_def)

lemma count_matches:
  assumes "length xs = length ys"
  shows "length (filter (\<lambda>(l, r). l = r) (zip xs ys)) = card {i. i < length xs \<and> xs ! i = ys ! i}"
  using assms by (auto simp: length_filter_conv_card case_prod_beta intro!: arg_cong [where f = card])

lemma count_matches_bounds:
  assumes "length xs = length ys"
  shows "card {i. i < length xs \<and> xs ! i = ys ! i} \<le> length xs
    \<and> (card {i. i < length xs \<and> xs ! i = ys ! i} = length xs \<longleftrightarrow> xs = ys)
    \<and> (card {i. i < length xs \<and> xs ! i = ys ! i} = 0 \<longleftrightarrow> (\<forall>i < length xs. xs ! i \<noteq> ys ! i))"
proof -
  let ?A = "{i. i < length xs \<and> xs ! i = ys ! i}"
  have sub: "?A \<subseteq> {..<length xs}" by auto
  have "card ?A = length xs \<longleftrightarrow> xs = ys"
  proof
    assume "card ?A = length xs"
    then have "?A = {..<length xs}" by (intro card_subset_eq sub) simp_all
    then have "\<forall>i < length xs. xs ! i = ys ! i" by blast
    with assms show "xs = ys" by (simp add: nth_equalityI)
  qed simp
  moreover have "card ?A \<le> length xs" using card_mono [OF _ sub] by simp
  moreover have "card ?A = 0 \<longleftrightarrow> ?A = {}"
    by (rule card_0_eq) (rule finite_subset [OF sub finite_lessThan])
  then have "card ?A = 0 \<longleftrightarrow> (\<forall>i < length xs. xs ! i \<noteq> ys ! i)" by blast
  ultimately show ?thesis by (intro conjI)
qed

lemma signature_match_ratio_eq:
  assumes "length xs = length ys" and "length xs < 4294967296"
  shows "signature_match_ratio xs ys
    = Ok (f64_ratio (card {i. i < length xs \<and> xs ! i = ys ! i}) (length xs))"
proof -
  define a where "a = card {i. i < length xs \<and> xs ! i = ys ! i}"
  have "a < 4294967296" using count_matches_bounds [OF assms(1)] assms(2) by (simp add: a_def)
  then show ?thesis
    unfolding signature_match_ratio_def count_matches [OF assms(1)] a_def [symmetric]
    using assms(2) by (simp add: u32_try_from_def unat_of_nat_u32 Let_def)
qed

text \<open>C20: the Jaccard estimate of compatible well-formed sketches never panics; it is the rounded
  quotient of the number of agreeing components by the number of components, it lies between
  \<open>0.0\<close> and \<open>1.0\<close>, is \<open>1.0\<close> exactly for equal signatures and \<open>0.0\<close> exactly when no component
  agrees.\<close>

theorem jaccard_estimate:
  assumes "mh_wf s" and "mh_seed s = mh_seed t" and "length (hashvalues s) = length (hashvalues t)"
  shows "\<exists>r. minhash_jaccard s t = Ok r
    \<and> r = f64_ratio (card {i. i < length (hashvalues s) \<and> hashvalues s ! i = hashvalues t ! i})
                    (length (hashvalues s))
    \<and> r \<le> f64_one
    \<and> (r = f64_one \<longleftrightarrow> hashvalues s = hashvalues t)
    \<and> (r = 0 \<longleftrightarrow> (\<forall>i < length (hashvalues s). hashvalues s ! i \<noteq> hashvalues t ! i))"
proof -
  let ?n = "length (hashvalues s)"
  let ?c = "card {i. i < ?n \<and> hashvalues s ! i = hashvalues t ! i}"
  note bounds = count_matches_bounds [OF assms(3)]
  from assms(1) have n: "0 < ?n" "?n < 4294967296" by (simp_all add: mh_wf_def)
  have "ensure_compatible s t = Ok ()" using assms(2,3) by (simp add: ensure_compatible_def)
  then have "minhash_jaccard s t = Ok (f64_ratio ?c ?n)"
    by (simp only: minhash_jaccard_def and_then.simps signature_match_ratio_eq [OF assms(3) n(2)])
  moreover have "f64_ratio ?c ?n \<le> f64_one \<and> (f64_ratio ?c ?n = f64_one \<longleftrightarrow> ?c = ?n)
      \<and> (f64_ratio ?c ?n = 0 \<longleftrightarrow> ?c = 0)"
    by (rule f64_ratio_cases [OF n conjunct1 [OF bounds]])
  ultimately show ?thesis using bounds by (intro exI [of _ "f64_ratio ?c ?n"]) argo
qed

text \<open>A sketch rebuilt from its own signature and seed is the same sketch, so it can be updated
  and merged as the original; a signature of no values is refused.\<close>

lemma signature_roundtrip:
  assumes "MinHash32_new n seed = Ok s" and "MinHash64_new n seed = Ok t"
  shows "MinHash32_from_signature (hashvalues (MinHash32_update_many sha1 vs s)) seed
      = Ok (MinHash32_update_many sha1 vs s)
    \<and> MinHash64_from_signature (hashvalues (MinHash64_update_many sha1 vs t)) seed
      = Ok (MinHash64_update_many sha1 vs t)
    \<and> MinHash32_from_signature [] seed = Err (InvalidPermutationCount 0)
    \<and> MinHash64_from_signature [] seed = Err (InvalidPermutationCount 0)"
proof (intro conjI)
  have "length (hashvalues s) = n" and "length (hashvalues t) = n"
    using MinHash32_new_Ok [OF assms(1)] MinHash64_new_Ok [OF assms(2)] by simp_all
  then show "MinHash32_from_signature (hashvalues (MinHash32_update_many sha1 vs s)) seed
      = Ok (MinHash32_update_many sha1 vs s)"
    and "MinHash64_from_signature (hashvalues (MinHash64_update_many sha1 vs t)) seed
      = Ok (MinHash64_update_many sha1 vs t)"
    using assms
    by (auto simp: MinHash32_from_signature_def MinHash64_from_signature_def update_many32_fold
      update_many64_fold mh32.fold_frame mh64.fold_frame intro!: mh32.minhash_eqI mh64.minhash_eqI)
qed (simp_all add: MinHash32_from_signature_def MinHash64_from_signature_def MinHash32_new_def
  MinHash64_new_def validate_num_perm_def)

lemma clear_is_new:
  assumes "MinHash32_new n seed = Ok s"
  shows "minhash_clear (MinHash32_update_many sha1 vs s) = s"
  by (rule mh32.minhash_eqI)
    (use MinHash32_new_Ok [OF assms] in \<open>simp_all add: minhash_clear_def update_many32_fold mh32.fold_frame\<close>)

section \<open>Properties of batches\<close>

lemma effective_threads_bounds:
  "1 \<le> effective_threads available threads rows
   \<and> (effective_threads available threads rows \<noteq> 1 \<longrightarrow>
        256 \<le> rows \<and> effective_threads available threads rows \<le> rows
        \<and> effective_threads available threads rows \<le> available)"
  by (auto simp: effective_threads_def Let_def PARALLEL_BATCH_MIN_ROWS_def split: batch_threads.split)

text \<open>An indexed parallel iterator collects one result per task, each at the place of its task. The law is only needed
  for at most \<open>workers\<close> tasks, none of them empty.\<close>

definition collects_in_order :: "nat \<Rightarrow> ('p \<Rightarrow> ('r list \<Rightarrow> 's list) \<Rightarrow> 'r list list \<Rightarrow> 's list list) \<Rightarrow> bool" where
  "collects_in_order workers par_collect \<longleftrightarrow> (\<forall>pool f tasks. length tasks \<le> workers \<longrightarrow> [] \<notin> set tasks
     \<longrightarrow> length (par_collect pool f tasks) = length tasks \<and> (\<forall>i < length tasks. par_collect pool f tasks ! i = f (tasks ! i)))"

lemma collects_map:
  "collects_in_order workers par_collect \<Longrightarrow> length tasks \<le> workers \<Longrightarrow> [] \<notin> set tasks \<Longrightarrow> par_collect pool f tasks = map f tasks"
  unfolding collects_in_order_def by (intro nth_equalityI) auto

lemma chunks_nonempty: "[] \<notin> set (chunks n xs)"
proof (induction n xs rule: chunks.induct)
  case (1 n xs)
  then show ?case by (subst chunks.simps) auto
qed

lemma length_chunks: "0 < n \<Longrightarrow> length (chunks n xs) = div_ceil (length xs) n"
proof (induction n xs rule: chunks.induct)
  case (1 n xs)
  show ?case
  proof (cases "xs = []")
    case False
    then have "length (chunks n (drop n xs)) = div_ceil (length xs - n) n" using 1 by simp
    moreover have "div_ceil (length xs) n = Suc (div_ceil (length xs - n) n)"
    proof (cases "n \<le> length xs")
      case True
      then have "(length xs + n - 1) div n = Suc ((length xs - n + n - 1) div n)"
        using "1.prems" False le_div_geq [of n "length xs + n - 1"] by (cases xs) simp_all
      then show ?thesis using "1.prems" by (simp add: div_ceil_alt)
    next
      case short: False
      then show ?thesis using False by (simp add: div_ceil_def)
    qed
    ultimately show ?thesis using False "1.prems" by (subst chunks.simps) simp
  qed (simp add: chunks.simps [of n "[]"] div_ceil_def)
qed

lemma chunk_count: "0 < k \<Longrightarrow> rows \<noteq> [] \<Longrightarrow> length (chunks (div_ceil (length rows) k) rows) \<le> k"
proof -
  assume k: "0 < k" and rows: "rows \<noteq> []"
  let ?n = "div_ceil (length rows) k"
  have n: "0 < ?n" using k rows by (intro div_ceil_pos) simp_all
  have q: "length rows = length rows div k * k + length rows mod k" "length rows mod k < k" using k by simp_all
  have "length rows \<le> ?n * k"
  proof (cases "length rows mod k = 0")
    case False
    then have "?n * k = length rows div k * k + k" by (simp add: div_ceil_def)
    then show ?thesis using q by linarith
  qed (use q in \<open>simp add: div_ceil_def\<close>)
  then have "div_ceil (length rows) ?n \<le> div_ceil (?n * k) ?n" using n by (intro div_ceil_mono)
  then show ?thesis using n by (simp add: length_chunks div_ceil_def)
qed

lemma from_batch_with_result:
  assumes "k = effective_threads available threads (length rows)" and "new num_perm seed = Ok template"
    and ordered: "collects_in_order k par_collect"
  shows "from_batch_with new build par_collect available rows num_perm seed threads update cache =
     (if k = 1 then (Ok (map (\<lambda>row. update row template) rows), cache)
      else (and_then (fst (batch_pool build k cache)) (\<lambda>_. Ok (map (\<lambda>row. update row template) rows)), snd (batch_pool build k cache)))"
proof (cases "k = 1")
  case False
  let ?n = "div_ceil (length rows) k" and ?f = "\<lambda>row. update row template"
  have k: "0 < k" "rows \<noteq> []" using effective_threads_bounds [of available threads "length rows"] False assms(1) by auto
  have n: "0 < ?n" using k by (intro div_ceil_pos) auto
  have "concat (par_collect pool (map ?f) (chunks ?n rows)) = map ?f rows" for pool
    using collects_map [OF ordered chunk_count [OF k] chunks_nonempty] concat_chunks [OF n, of rows] by (simp add: map_concat [symmetric])
  then show ?thesis using False assms(1,2) by (simp add: from_batch_with_def Let_def case_prod_beta)
qed (use assms(1,2) in \<open>simp add: from_batch_with_def\<close>)

lemma batch_pool_cached:
  assumes "batch_pool build n cache = (Ok pool, cache')"
  shows "batch_pool build n cache' = (Ok pool, cache') \<and> pool_cached cache' = Some (n, pool)"
  using assms by (auto simp: batch_pool_def split: option.splits if_splits result.splits)

lemma batch_pool_available:
  assumes "\<not> pool_poisoned cache" and "build n = Ok pool"
  shows "\<exists>p. batch_pool build n cache = (Ok p, cache\<lparr>pool_cached := Some (n, p)\<rparr>)"
  using assms by (cases cache) (auto simp: batch_pool_def split: option.split)

text \<open>C21: For an accepted permutation count a batch returns one sketch per row, in order, each the sketch a single update of a fresh sketch with that row gives,
  whatever the thread policy, the number of CPUs and the pool, as long as rayon collects in order the at most \<open>k\<close> non-empty
  tasks it is given. The number of workers \<open>k\<close> is the limit of the policy (eight for the automatic one), the CPUs or the rows, whichever is least.
  Below 256 rows, with the sequential policy or one CPU no pool is touched; otherwise exactly a pool of \<open>k\<close> workers is taken from the cache or built and
  cached. The batch then fails only when the cache is poisoned or the pool cannot be built, with \<open>BatchPoolUnavailable\<close> and the cache unchanged.\<close>

theorem batch_is_ordered_map:
  assumes new: "MinHash32_new n seed = Ok s" "MinHash64_new n seed = Ok t" and cpus: "0 < available" "\<forall>m. threads = BatchMax m \<longrightarrow> 0 < m"
    and k: "k = (if length rows < 256 then 1 else min (length rows) (min available (case threads of BatchAuto \<Rightarrow> 8 | BatchSequential \<Rightarrow> 1 | BatchMax m \<Rightarrow> m)))"
    and ordered: "collects_in_order k par32" "collects_in_order k par64"
    and out: "MinHash32_from_batch build par32 available sha1 rows n seed threads cache = (r32, cache32)"
      "MinHash64_from_batch build par64 available sha1 rows n seed threads cache = (r64, cache64)"
  shows "if k = 1 \<or> (\<not> pool_poisoned cache \<and> ((\<exists>p. pool_cached cache = Some (k, p)) \<or> (\<exists>p. build k = Ok p)))
    then r32 = Ok (map (\<lambda>row. MinHash32_update_many sha1 row s) rows) \<and> r64 = Ok (map (\<lambda>row. MinHash64_update_many sha1 row t) rows)
       \<and> cache64 = cache32 \<and> (if k = 1 then cache32 = cache else (\<exists>p. cache32 = cache\<lparr>pool_cached := Some (k, p)\<rparr>))
    else cache32 = cache \<and> cache64 = cache \<and> (build k \<noteq> Panic \<or> pool_poisoned cache
       \<longrightarrow> (\<exists>message. r32 = Err (BatchPoolUnavailable message) \<and> r64 = Err (BatchPoolUnavailable message)))"
proof -
  have "effective_threads available threads (length rows) = k"
    using cpus by (cases threads) (auto simp: k effective_threads_def Let_def PARALLEL_BATCH_MIN_ROWS_def AUTO_BATCH_MAX_THREADS_def)
  note e = this [symmetric]
  note run = from_batch_with_result [where new = MinHash32_new, OF e new(1) ordered(1), of build "MinHash32_update_many sha1" cache, folded MinHash32_from_batch_def]
    from_batch_with_result [where new = MinHash64_new, OF e new(2) ordered(2), of build "MinHash64_update_many sha1" cache, folded MinHash64_from_batch_def]
  show ?thesis
  proof (cases "k = 1")
    case True
    then show ?thesis using run out by simp
  next
    case False
    have r: "r32 = and_then (fst (batch_pool build k cache)) (\<lambda>_. Ok (map (\<lambda>row. MinHash32_update_many sha1 row s) rows))"
      "r64 = and_then (fst (batch_pool build k cache)) (\<lambda>_. Ok (map (\<lambda>row. MinHash64_update_many sha1 row t) rows))"
      "cache32 = snd (batch_pool build k cache)" "cache64 = cache32"
      using False run out by auto
    show ?thesis
      using False unfolding r
      by (cases cache) (auto simp: batch_pool_def split: option.split result.split)
  qed
qed

section \<open>Instances\<close>

text \<open>\<open>next_u32\<close> is the low half of \<open>next_u64\<close>.\<close>

lemma next_u32_low_half: "next_u32 g = (ucast (fst (next_u64 g)), snd (next_u64 g))"
proof -
  have "from_le_bytes [le64 v ! 0, le64 v ! 1, le64 v ! 2, le64 v ! 3] = (ucast v :: u32)" for v
  proof -
    define bs where "bs = [le64 v ! 0, le64 v ! 1, le64 v ! 2, le64 v ! 3]"
    have len: "length bs = 4" by (simp add: bs_def)
    have nth: "bs ! j = ucast (drop_bit (8 * j) v)" if "j < 4" for j
    proof -
      have "j \<in> {0, 1, 2, 3}" using that by auto
      then have "bs ! j = le64 v ! j" by (auto simp: bs_def)
      then show ?thesis using that by (simp add: nth_to_le_bytes)
    qed
    have "from_le_bytes bs = (ucast v :: u32)"
    proof (rule bit_word_eqI)
      fix k
      assume "k < LENGTH(32)"
      then have "k < 32" by simp
      then have "k div 8 < 4" by (simp add: less_mult_imp_div_less)
      then show "bit (from_le_bytes bs :: u32) k = bit (ucast v :: u32) k"
        unfolding bit_from_le_bytes len using \<open>k < 32\<close> by (simp add: nth bit_ucast_iff bit_drop_bit_eq)
    qed
    then show ?thesis by (simp only: bs_def)
  qed
  then show ?thesis by (simp only: next_u32_def Let_def case_prod_beta fst_conv snd_conv)
qed

lemma replicate_two: "replicate 2 x = [x, x]"
  by (simp add: numeral_2_eq_2)

lemma draw_two: "draw nxt 2 g = (let (x, g') = nxt g; (y, g'') = nxt g' in ([x, y], g''))"
  by (simp add: numeral_2_eq_2 Let_def case_prod_beta)

lemma MinHash32_new_example:
  "MinHash32_new 2 42 = Ok \<lparr>mh_seed = 42, hashvalues = [- 1, - 1],
     multipliers = [803958421, 2993090819], offsets = [319790930, 239788948]\<rparr>"
  by (simp add: MinHash32_new_def validate_num_perm_def u32_try_from_def next_u32_low_half next_u64_def
    splitmix64_new_def draw_two replicate_two Let_def)

lemma MinHash64_new_example:
  "MinHash64_new 2 42 = Ok \<lparr>mh_seed = 42, hashvalues = [- 1, - 1],
     multipliers = [13679457532755275413, 2949826092126892291],
     offsets = [5139283748462763858, 6349198060258255764]\<rparr>"
  by (simp add: MinHash64_new_def validate_num_perm_def u32_try_from_def next_u64_def splitmix64_new_def
    draw_two replicate_two Let_def)

theorem permutations_bijective_witness:
  "bij (perm_value fmix32 \<lparr>mh_seed = 42, hashvalues = [- 1, - 1],
     multipliers = [803958421, 2993090819], offsets = [319790930, 239788948]\<rparr> 1)"
  using permutations_bijective [OF MinHash32_new_example MinHash64_new_example, of 1] by simp

theorem signature_is_minimum_witness:
  "\<exists>s. MinHash32_new 2 42 = Ok s
    \<and> hashvalues (MinHash32_update_many (\<lambda>d. d @ replicate 20 0) [[1], [2]] s) ! 1
      = Min {- 1, perm_value fmix32 s 1 1, perm_value fmix32 s 1 2}"
  using signature_is_minimum [OF MinHash32_new_example, of 1 "\<lambda>d. d @ replicate 20 0" "[[1], [2]]"]
  by (simp add: MinHash32_new_example sha1_hash32_def)

theorem merge_is_union_witness:
  "\<exists>s. MinHash32_new 2 42 = Ok s
    \<and> minhash_merge (MinHash32_update_many (\<lambda>d. d @ replicate 20 0) [[1], [3]] s)
         (MinHash32_update_many (\<lambda>d. d @ replicate 20 0) [[2], [1]] s)
      = Ok (MinHash32_update_many (\<lambda>d. d @ replicate 20 0) [[1], [2], [3]] s)"
  using merge_is_union [OF MinHash32_new_example MinHash64_new_example,
      of "[[1], [2], [3]]" "[[1], [3]]" "[[2], [1]]" "\<lambda>d. d @ replicate 20 0"]
  by (auto simp: MinHash32_new_example)

theorem jaccard_estimate_witness:
  "\<exists>r. minhash_jaccard \<lparr>mh_seed = 1, hashvalues = [7 :: u32, 8], multipliers = [1, 3], offsets = [0, 5]\<rparr>
      \<lparr>mh_seed = 1, hashvalues = [7, 9], multipliers = [1, 3], offsets = [0, 5]\<rparr> = Ok r
    \<and> r \<noteq> f64_one \<and> r \<noteq> 0"
  using jaccard_estimate [of "\<lparr>mh_seed = 1, hashvalues = [7 :: u32, 8], multipliers = [1, 3], offsets = [0, 5]\<rparr>"
    "\<lparr>mh_seed = 1, hashvalues = [7, 9], multipliers = [1, 3], offsets = [0, 5]\<rparr>"]
  by (auto simp: mh_wf_def All_less_Suc numeral_2_eq_2)

theorem batch_is_ordered_map_witness:
  "\<exists>s. MinHash32_new 2 42 = Ok s
    \<and> MinHash32_from_batch (\<lambda>k. Ok k) (\<lambda>_ f tasks. map f tasks) 4 (\<lambda>d. d @ replicate 20 0) (replicate 300 [[1], [2]]) 2 42 BatchAuto
        \<lparr>pool_poisoned = False, pool_cached = None\<rparr>
      = (Ok (map (\<lambda>row. MinHash32_update_many (\<lambda>d. d @ replicate 20 0) row s) (replicate 300 [[1], [2]])),
         \<lparr>pool_poisoned = False, pool_cached = Some (4, 4)\<rparr>)"
proof -
  let ?sha = "\<lambda>d :: bytes. d @ replicate 20 0" and ?rows = "replicate 300 [[1], [2]] :: bytes list list" and ?cache = "\<lparr>pool_poisoned = False, pool_cached = None\<rparr>"
  obtain r32 c32 where r32: "MinHash32_from_batch (\<lambda>k. Ok k) (\<lambda>_ f tasks. map f tasks) 4 ?sha ?rows 2 42 BatchAuto ?cache = (r32, c32)" by fastforce
  obtain r64 c64 where r64: "MinHash64_from_batch (\<lambda>k. Ok k) (\<lambda>_ f tasks. map f tasks) 4 ?sha ?rows 2 42 BatchAuto ?cache = (r64, c64)" by fastforce
  have "collects_in_order 4 (\<lambda>_ f tasks. map f tasks)" by (simp add: collects_in_order_def)
  note batch = batch_is_ordered_map [OF MinHash32_new_example MinHash64_new_example _ _ _ this this r32 r64]
  have "c32 = snd (batch_pool (\<lambda>k. Ok k) 4 ?cache)"
    using arg_cong [OF r32, of snd]
    by (simp add: MinHash32_from_batch_def from_batch_with_def MinHash32_new_example effective_threads_def PARALLEL_BATCH_MIN_ROWS_def
        AUTO_BATCH_MAX_THREADS_def Let_def case_prod_beta)
  then show ?thesis using batch r32 by (simp add: MinHash32_new_example batch_pool_def)
qed

end
