(* ===== verification/Pari_Maps.thy ===== *)
theory Pari_Maps
  imports Pari_Prelude
begin

text \<open>
  The collections of \<open>std\<close> the sources use. A \<open>HashMap\<close> is an association list with distinct
  keys: its order is the (unspecified) iteration order, and every property of a component is
  proved for all lists with distinct keys, so for every iteration order. A \<open>BTreeMap\<close> is an
  association list in strictly ascending key order. A \<open>HashSet\<close> is a list without repetition.
\<close>

section \<open>HashMap\<close>

type_synonym ('k, 'v) hashmap = "('k \<times> 'v) list"

definition hm_wf :: "('k, 'v) hashmap \<Rightarrow> bool" where
  "hm_wf m \<longleftrightarrow> distinct (map fst m)"

definition hm_get :: "('k, 'v) hashmap \<Rightarrow> 'k \<Rightarrow> 'v option" where
  "hm_get m k = map_of m k"

definition hm_contains :: "('k, 'v) hashmap \<Rightarrow> 'k \<Rightarrow> bool" where
  "hm_contains m k \<longleftrightarrow> hm_get m k \<noteq> None"

definition hm_insert :: "'k \<Rightarrow> 'v \<Rightarrow> ('k, 'v) hashmap \<Rightarrow> ('k, 'v) hashmap" where
  "hm_insert k v m = AList.update k v m"

definition hm_remove :: "'k \<Rightarrow> ('k, 'v) hashmap \<Rightarrow> ('k, 'v) hashmap" where
  "hm_remove k m = AList.delete k m"

text \<open>\<open>table.entry(k).or_default().push(x)\<close>.\<close>

definition hm_push :: "'k \<Rightarrow> 'v \<Rightarrow> ('k, 'v list) hashmap \<Rightarrow> ('k, 'v list) hashmap" where
  "hm_push k x m = hm_insert k (case hm_get m k of None \<Rightarrow> [x] | Some xs \<Rightarrow> xs @ [x]) m"

lemma hm_get_Nil [simp]: "hm_get [] k = None"
  by (simp add: hm_get_def)

lemma hm_get_insert [simp]: "hm_get (hm_insert k v m) j = (if j = k then Some v else hm_get m j)"
  by (simp add: hm_get_def hm_insert_def update_conv')

lemma hm_get_remove [simp]: "hm_get (hm_remove k m) j = (if j = k then None else hm_get m j)"
  by (simp add: hm_get_def hm_remove_def delete_conv')

lemma hm_get_push [simp]:
  "hm_get (hm_push k x m) j =
     (if j = k then Some (case hm_get m k of None \<Rightarrow> [x] | Some xs \<Rightarrow> xs @ [x]) else hm_get m j)"
  by (simp add: hm_push_def)

lemma hm_wf_Nil [simp]: "hm_wf []"
  by (simp add: hm_wf_def)

lemma hm_wf_insert [simp]: "hm_wf m \<Longrightarrow> hm_wf (hm_insert k v m)"
  by (simp add: hm_wf_def hm_insert_def distinct_update)

lemma hm_wf_remove [simp]: "hm_wf m \<Longrightarrow> hm_wf (hm_remove k m)"
  by (simp add: hm_wf_def hm_remove_def distinct_delete)

lemma hm_wf_push [simp]: "hm_wf m \<Longrightarrow> hm_wf (hm_push k x m)"
  by (simp add: hm_push_def)

lemma hm_get_mem: "hm_wf m \<Longrightarrow> (k, v) \<in> set m \<longleftrightarrow> hm_get m k = Some v"
  by (auto simp: hm_wf_def hm_get_def dest: map_of_SomeD)

lemma hm_contains_iff: "hm_contains m k \<longleftrightarrow> k \<in> fst ` set m"
  by (simp add: hm_contains_def hm_get_def map_of_eq_None_iff)

lemma hm_values: "hm_wf m \<Longrightarrow> snd ` set m = {v. \<exists>k. hm_get m k = Some v}"
  by (force simp: hm_get_mem [symmetric])

lemma length_hm_insert:
  "length (hm_insert k v m) = (if hm_contains m k then length m else Suc (length m))"
proof -
  have "length (map fst (hm_insert k v m)) = (if k \<in> fst ` set m then length m else Suc (length m))"
    by (simp add: hm_insert_def update_keys)
  then show ?thesis
    by (simp add: hm_contains_iff)
qed

lemma length_hm_remove:
  assumes "hm_wf m"
  shows "length (hm_remove k m) = (if hm_contains m k then length m - 1 else length m)"
proof -
  have "map fst (hm_remove k m) = remove1 k (map fst m)"
    using assms by (simp add: hm_remove_def delete_keys hm_wf_def distinct_remove1_removeAll)
  then have "length (hm_remove k m) = length (remove1 k (map fst m))"
    by (metis length_map)
  then show ?thesis
    by (simp add: length_remove1 hm_contains_iff)
qed

lemma card_hm_keys:
  assumes "hm_wf m"
  shows "card {k. hm_contains m k} = length m"
proof -
  have "{k. hm_contains m k} = set (map fst m)"
    by (auto simp: hm_contains_iff)
  then show ?thesis
    using assms distinct_card [of "map fst m"] by (simp add: hm_wf_def)
qed

text \<open>Tables whose entries are the non-empty ones of a family of lists.\<close>

definition non_empty :: "'a list \<Rightarrow> 'a list option" where
  "non_empty xs = (if xs = [] then None else Some xs)"

lemma hm_push_non_empty:
  "hm_get table h = non_empty ids \<Longrightarrow>
    hm_get (hm_push h' x table) h = non_empty (ids @ (if h' = h then [x] else []))"
  by (auto simp: non_empty_def split: option.splits if_splits)

section \<open>BTreeMap\<close>

type_synonym ('k, 'v) btreemap = "('k \<times> 'v) list"

definition bt_wf :: "('k::linorder, 'v) btreemap \<Rightarrow> bool" where
  "bt_wf m \<longleftrightarrow> sorted_wrt (<) (map fst m)"

fun bt_insert :: "'k::linorder \<Rightarrow> 'v \<Rightarrow> ('k, 'v) btreemap \<Rightarrow> ('k, 'v) btreemap" where
  "bt_insert k v [] = [(k, v)]"
| "bt_insert k v (p # m) =
     (if k = fst p then (k, v) # m
      else if fst p < k then p # bt_insert k v m
      else (k, v) # p # m)"

definition bt_remove :: "'k \<Rightarrow> ('k, 'v) btreemap \<Rightarrow> ('k, 'v) btreemap" where
  "bt_remove k m = filter (\<lambda>p. fst p \<noteq> k) m"

definition bt_push :: "'k::linorder \<Rightarrow> 'v \<Rightarrow> ('k, 'v list) btreemap \<Rightarrow> ('k, 'v list) btreemap" where
  "bt_push k x m = bt_insert k (case map_of m k of None \<Rightarrow> [x] | Some xs \<Rightarrow> xs @ [x]) m"

lemma bt_wf_Nil [simp]: "bt_wf []"
  by (simp add: bt_wf_def)

lemma fst_set_bt_insert [simp]: "fst ` set (bt_insert k v m) = insert k (fst ` set m)"
  by (induction m) auto

lemma bt_wf_insert [simp]: "bt_wf m \<Longrightarrow> bt_wf (bt_insert k v m)"
proof (induction m)
  case (Cons p m)
  have keys: "set (map fst (bt_insert k v m)) = insert k (set (map fst m))" by simp
  from Cons show ?case
    by (auto simp: bt_wf_def keys [simplified] dest: order.strict_trans)
qed (simp add: bt_wf_def)

lemma bt_wf_remove [simp]: "bt_wf m \<Longrightarrow> bt_wf (bt_remove k m)"
  by (induction m) (auto simp: bt_wf_def bt_remove_def)

lemma map_of_bt_insert [simp]:
  "map_of (bt_insert k v m) j = (if j = k then Some v else map_of m j)"
  by (induction m) auto

lemma map_of_bt_remove [simp]:
  "map_of (bt_remove k m) j = (if j = k then None else map_of m j)"
  by (induction m) (auto simp: bt_remove_def)

lemma bt_wf_push [simp]: "bt_wf m \<Longrightarrow> bt_wf (bt_push k x m)"
  by (simp add: bt_push_def)

lemma map_of_bt_push [simp]:
  "map_of (bt_push k x m) j =
     (if j = k then Some (case map_of m k of None \<Rightarrow> [x] | Some xs \<Rightarrow> xs @ [x]) else map_of m j)"
  by (simp add: bt_push_def)

lemma bt_wf_distinct: "bt_wf m \<Longrightarrow> distinct (map fst m)"
  by (auto simp: bt_wf_def dest: strict_sorted_iff [THEN iffD1])

lemma bt_wf_mem: "bt_wf m \<Longrightarrow> (k, v) \<in> set m \<longleftrightarrow> map_of m k = Some v"
  by (auto dest: bt_wf_distinct map_of_SomeD)

text \<open>Two ordered maps with the same lookups are the same list.\<close>

lemma map_of_graph:
  "distinct (map fst m) \<Longrightarrow> m = map (\<lambda>k. (k, the (map_of m k))) (map fst m)"
proof (induction m)
  case (Cons p m)
  then have "map (\<lambda>k. (k, the (map_of (p # m) k))) (map fst m) = map (\<lambda>k. (k, the (map_of m k))) (map fst m)"
    by (intro map_cong refl) (auto simp: image_iff intro: rev_image_eqI)
  with Cons show ?case by (cases p) auto
qed simp

lemma bt_ext:
  assumes "bt_wf m" and "bt_wf n" and "\<And>k. map_of m k = map_of n k"
  shows "m = n"
proof -
  have "set (map fst m) = set (map fst n)"
    using assms(3) by (metis (no_types) dom_map_of_conv_image_fst ext list.set_map)
  then have "map fst m = map fst n"
    using assms(1,2) unfolding bt_wf_def by (simp add: strict_sorted_equal)
  then show ?thesis
    using assms map_of_graph [of m] map_of_graph [of n] by (simp add: bt_wf_distinct)
qed

section \<open>HashSet\<close>

text \<open>\<open>HashSet::extend\<close>, and a set read out in ascending order (\<open>collect\<close> and
  \<open>sort_unstable\<close>).\<close>

definition hs_extend :: "'a list \<Rightarrow> 'a list \<Rightarrow> 'a list" where
  "hs_extend xs s = fold List.insert xs s"

lemma set_hs_extend [simp]: "set (hs_extend xs s) = set xs \<union> set s"
  unfolding hs_extend_def by (induction xs arbitrary: s) auto

lemma distinct_hs_extend [simp]: "distinct s \<Longrightarrow> distinct (hs_extend xs s)"
  unfolding hs_extend_def by (induction xs arbitrary: s) auto

lemma sort_distinct_eq: "distinct xs \<Longrightarrow> sort xs = sorted_list_of_set (set xs)"
  by (simp add: sorted_list_of_set_sort_remdups distinct_remdups_id)

end
