(* ===== verification/Pari_Params.thy ===== *)
theory Pari_Params
  imports Pari_F64
begin

text \<open>
  Crate \<open>pari-index\<close>, the banding parameters (\<open>crates/pari-index/src/lib.rs\<close>): validation, the
  analytical candidate probability, Simpson's rule, and the exhaustive tuner. The exponentiation
  \<open>powf\<close> of the platform is the parameter \<open>pow\<close>; the lemmas hold for every choice of it. They
  show that the tuner always returns valid parameters and that no admissible pair of bands and
  rows has a smaller error, nor an equal error with more signature values used.
\<close>

section \<open>Definitions\<close>

definition AUTO_TUNE_INTEGRATION_SEGMENTS :: nat where
  "AUTO_TUNE_INTEGRATION_SEGMENTS = 64"

definition MAX_AUTO_TUNE_PERMUTATIONS :: usize where
  "MAX_AUTO_TUNE_PERMUTATIONS = 4096"

record lsh_params =
  p_bands :: usize
  p_rows :: usize

definition used_permutations :: "lsh_params \<Rightarrow> usize option" where
  "used_permutations p = checked_mul_usize (p_bands p) (p_rows p)"

datatype lsh_error =
    InvalidThreshold f64
  | InvalidPermutationCount usize
  | AutomaticTuningTooLarge usize usize
  | InvalidParams usize usize usize
  | IncompatibleSeed u64 u64
  | IncompatiblePermutationCount usize usize
  | DuplicateKey u64
  | TooManyItems

definition validate_threshold :: "f64 \<Rightarrow> (unit, lsh_error) result" where
  "validate_threshold threshold =
     (if \<not> f64_is_finite threshold \<or> f64_le_zero threshold \<or> f64_gt_one threshold
      then Err (InvalidThreshold threshold) else Ok ())"

definition validate_num_perm :: "usize \<Rightarrow> (unit, lsh_error) result" where
  "validate_num_perm num_perm =
     (if num_perm = 0 \<or> u32_try_from num_perm = None
      then Err (InvalidPermutationCount num_perm) else Ok ())"

definition validate_params :: "lsh_params \<Rightarrow> usize \<Rightarrow> (unit, lsh_error) result" where
  "validate_params params num_perm =
     (case used_permutations params of
        None \<Rightarrow> Err (InvalidParams (p_bands params) (p_rows params) num_perm)
      | Some used \<Rightarrow>
          if p_bands params = 0 \<or> p_rows params = 0 \<or> num_perm < used
          then Err (InvalidParams (p_bands params) (p_rows params) num_perm) else Ok ())"

text \<open>The probability that two items of the given similarity share a band. Both conversions
  are guarded by \<open>expect\<close>.\<close>

definition candidate_probability ::
  "(f64 \<Rightarrow> f64 \<Rightarrow> f64) \<Rightarrow> f64 \<Rightarrow> usize \<Rightarrow> usize \<Rightarrow> (f64, 'e) result" where
  "candidate_probability pow similarity bands rows =
     and_then (expect (u32_try_from bands)) (\<lambda>b.
     and_then (expect (u32_try_from rows)) (\<lambda>r.
     Ok (f64_sub f64_one
          (pow (f64_sub f64_one (pow similarity (f64_from_nat (unat r)))) (f64_from_nat (unat b))))))"

definition simpson_integral :: "(f64 \<Rightarrow> (f64, 'e) result) \<Rightarrow> f64 \<Rightarrow> f64 \<Rightarrow> (f64, 'e) result" where
  "simpson_integral function start stop =
     (if f64_total_eq start stop then Ok 0
      else let step = f64_div (f64_sub stop start) (f64_from_nat AUTO_TUNE_INTEGRATION_SEGMENTS)
           in and_then (function start) (\<lambda>first. and_then (function stop) (\<lambda>last.
              and_then (fold_result
                (\<lambda>segment total.
                   let x = f64_add start (f64_mul (f64_from_nat segment) step);
                       weight = (if segment mod 2 = 0 then f64_from_nat 2 else f64_from_nat 4)
                   in and_then (function x) (\<lambda>y. Ok (f64_add total (f64_mul weight y))))
                [1..<AUTO_TUNE_INTEGRATION_SEGMENTS] (f64_add first last)) (\<lambda>total.
              Ok (f64_div (f64_mul total step) (f64_from_nat 3))))))"

text \<open>The two error areas of a pair of bands and rows and their mean.\<close>

definition false_positive_area :: "(f64 \<Rightarrow> f64 \<Rightarrow> f64) \<Rightarrow> f64 \<Rightarrow> usize \<Rightarrow> usize \<Rightarrow> (f64, 'e) result" where
  "false_positive_area pow threshold bands rows =
     simpson_integral (\<lambda>similarity. candidate_probability pow similarity bands rows) 0 threshold"

definition false_negative_area :: "(f64 \<Rightarrow> f64 \<Rightarrow> f64) \<Rightarrow> f64 \<Rightarrow> usize \<Rightarrow> usize \<Rightarrow> (f64, 'e) result" where
  "false_negative_area pow threshold bands rows =
     simpson_integral (\<lambda>similarity. and_then (candidate_probability pow similarity bands rows)
       (\<lambda>p. Ok (f64_sub f64_one p))) threshold f64_one"

abbreviation f64_half :: f64 where "f64_half \<equiv> 0x3FE0000000000000"

definition tuning_error :: "(f64 \<Rightarrow> f64 \<Rightarrow> f64) \<Rightarrow> f64 \<Rightarrow> usize \<Rightarrow> usize \<Rightarrow> (f64, 'e) result" where
  "tuning_error pow threshold bands rows =
     and_then (false_positive_area pow threshold bands rows) (\<lambda>false_positive.
     and_then (false_negative_area pow threshold bands rows) (\<lambda>false_negative.
     Ok (f64_mul f64_half (f64_add false_positive false_negative))))"

text \<open>The body of the two nested loops of \<open>optimize_params\<close> and its local state.\<close>

record tuning =
  best_params :: lsh_params
  best_error :: f64
  best_used :: usize

definition tune_step :: "(usize \<Rightarrow> usize \<Rightarrow> (f64, 'e) result) \<Rightarrow> usize \<times> usize \<Rightarrow> tuning \<Rightarrow> (tuning, 'e) result" where
  "tune_step error_of pair best =
     (let (bands, rows) = pair
      in and_then (error_of bands rows) (\<lambda>error.
         let used = bands * rows;
             better = (if f64_total_less error (best_error best) then True
                       else if f64_total_eq error (best_error best) then best_used best < used
                       else False)
         in Ok (if better
                then \<lparr>best_params = \<lparr>p_bands = bands, p_rows = rows\<rparr>, best_error = error, best_used = used\<rparr>
                else best)))"

definition optimize_params :: "(f64 \<Rightarrow> f64 \<Rightarrow> f64) \<Rightarrow> f64 \<Rightarrow> usize \<Rightarrow> (lsh_params, 'e) result" where
  "optimize_params pow threshold num_perm =
     and_then
       (fold_result (\<lambda>bands best.
          fold_result (\<lambda>rows. tune_step (tuning_error pow threshold) (bands, rows))
            [1..<num_perm div bands + 1] best)
          [1..<num_perm + 1]
          \<lparr>best_params = \<lparr>p_bands = 1, p_rows = 1\<rparr>, best_error = f64_infinity, best_used = 1\<rparr>)
       (\<lambda>best. Ok (best_params best))"

definition tune :: "(f64 \<Rightarrow> f64 \<Rightarrow> f64) \<Rightarrow> f64 \<Rightarrow> usize \<Rightarrow> (lsh_params, lsh_error) result" where
  "tune pow threshold num_perm =
     and_then (validate_threshold threshold) (\<lambda>_.
     and_then (validate_num_perm num_perm) (\<lambda>_.
     and_then (err_if (MAX_AUTO_TUNE_PERMUTATIONS < num_perm)
       (AutomaticTuningTooLarge num_perm MAX_AUTO_TUNE_PERMUTATIONS)) (\<lambda>_.
     optimize_params pow threshold num_perm)))"

section \<open>Valid parameters\<close>

definition params_valid :: "lsh_params \<Rightarrow> usize \<Rightarrow> bool" where
  "params_valid p num_perm \<longleftrightarrow> 0 < p_bands p \<and> 0 < p_rows p \<and> p_bands p * p_rows p \<le> num_perm"

lemma validate_threshold_Ok [simp]: "validate_threshold t = Ok u \<longleftrightarrow> 0 < t \<and> t \<le> f64_one"
  using threshold_accepted_iff [of t] by (auto simp: validate_threshold_def threshold_rejected_def)

lemma validate_num_perm_Ok_iff [simp]: "validate_num_perm n = Ok u \<longleftrightarrow> 0 < n \<and> n < 4294967296"
  by (auto simp: validate_num_perm_def u32_try_from_def)

lemma validate_params_Ok:
  "n < usize_limit \<Longrightarrow> validate_params p n = Ok u \<longleftrightarrow> params_valid p n"
  by (auto simp: validate_params_def used_permutations_def checked_mul_usize_def params_valid_def)

lemma validate_cases:
  "validate_threshold t = (if 0 < t \<and> t \<le> f64_one then Ok () else Err (InvalidThreshold t))"
  "validate_num_perm n = (if 0 < n \<and> n < 4294967296 then Ok () else Err (InvalidPermutationCount n))"
  "n < usize_limit \<Longrightarrow> validate_params p n
     = (if params_valid p n then Ok () else Err (InvalidParams (p_bands p) (p_rows p) n))"
  using threshold_accepted_iff [of t]
  by (auto simp: validate_threshold_def threshold_rejected_def validate_num_perm_def u32_try_from_def
      validate_params_def used_permutations_def checked_mul_usize_def params_valid_def)

lemma used_permutations_valid:
  "params_valid p n \<Longrightarrow> n < usize_limit \<Longrightarrow> used_permutations p = Some (p_bands p * p_rows p)"
  by (auto simp: used_permutations_def checked_mul_usize_def params_valid_def)

lemma valid_params_bounds:
  assumes "params_valid params n" and "n < 4294967296"
  shows "p_bands params < 4294967296 \<and> p_rows params < 4294967296"
proof -
  have "p_bands params * 1 \<le> p_bands params * p_rows params"
    and "1 * p_rows params \<le> p_bands params * p_rows params"
    using assms(1) unfolding params_valid_def by (intro mult_le_mono; simp)+
  then show ?thesis using assms unfolding params_valid_def by linarith
qed

section \<open>The tuner\<close>

lemma candidate_probability_total:
  assumes "b < 4294967296" and "r < 4294967296"
  shows "\<exists>y. candidate_probability pow s b r = Ok y"
  using assms by (simp add: candidate_probability_def u32_try_from_def)

lemma simpson_integral_total:
  assumes "\<And>x. \<exists>y. function x = Ok y"
  shows "\<exists>y. simpson_integral function start stop = Ok y"
proof -
  obtain g where g: "\<And>x. function x = Ok (g x)" using assms by metis
  have "\<exists>t. fold_result (\<lambda>segment total. Ok (h segment total)) xs s = Ok t"
    for h :: "nat \<Rightarrow> f64 \<Rightarrow> f64" and xs s
    by (induction xs arbitrary: s) auto
  then show ?thesis
    by (auto simp: simpson_integral_def Let_def g and_then_eq_Ok)
qed

lemma tuning_error_total:
  assumes "b < 4294967296" and "r < 4294967296"
  shows "\<exists>e. (tuning_error pow t b r :: (f64, 'e) result) = Ok e"
proof -
  note prob = candidate_probability_total [OF assms, of pow, where ?'a = 'e]
  have "\<exists>p. (false_positive_area pow t b r :: (f64, 'e) result) = Ok p"
    unfolding false_positive_area_def by (rule simpson_integral_total) (rule prob)
  moreover have "\<exists>q. (false_negative_area pow t b r :: (f64, 'e) result) = Ok q"
    unfolding false_negative_area_def
    by (rule simpson_integral_total) (use prob in \<open>auto simp: and_then_eq_Ok\<close>)
  ultimately show ?thesis by (auto simp: tuning_error_def)
qed

text \<open>The state of the search after a list of pairs: the best pair so far is no worse than any
  pair seen, where larger coverage breaks ties.\<close>

definition no_worse :: "f64 \<Rightarrow> usize \<Rightarrow> f64 \<Rightarrow> usize \<Rightarrow> bool" where
  "no_worse e used e' used' \<longleftrightarrow> f64_total_key e < f64_total_key e'
     \<or> (f64_total_key e = f64_total_key e' \<and> used' \<le> used)"

definition tuning_inv :: "(usize \<Rightarrow> usize \<Rightarrow> (f64, 'e) result) \<Rightarrow> usize \<Rightarrow> (usize \<times> usize) list \<Rightarrow> tuning \<Rightarrow> bool" where
  "tuning_inv error_of n seen best \<longleftrightarrow>
     params_valid (best_params best) n
     \<and> best_used best = p_bands (best_params best) * p_rows (best_params best)
     \<and> (error_of (p_bands (best_params best)) (p_rows (best_params best)) = Ok (best_error best)
        \<or> best_params best = \<lparr>p_bands = 1, p_rows = 1\<rparr> \<and> best_error best = f64_infinity)
     \<and> (\<forall>b r e. (b, r) \<in> set seen \<longrightarrow> error_of b r = Ok e \<longrightarrow> no_worse (best_error best) (best_used best) e (b * r))"

lemma no_worse_trans: "no_worse e u e' u' \<Longrightarrow> no_worse e' u' e'' u'' \<Longrightarrow> no_worse e u e'' u''"
  by (auto simp: no_worse_def)

lemma tune_step_inv:
  assumes "tuning_inv error_of n seen best" and "error_of b r = Ok e"
    and "0 < b" and "0 < r" and "b * r \<le> n"
  shows "\<exists>best'. tune_step error_of (b, r) best = Ok best' \<and> tuning_inv error_of n (seen @ [(b, r)]) best'"
proof (cases "no_worse (best_error best) (best_used best) e (b * r)")
  case True
  then have "tune_step error_of (b, r) best = Ok best"
    using assms(2) by (auto simp: tune_step_def Let_def no_worse_def f64_total_less_def f64_total_eq_def)
  moreover have "tuning_inv error_of n (seen @ [(b, r)]) best"
    using assms True by (auto simp: tuning_inv_def)
  ultimately show ?thesis by blast
next
  case False
  let ?best = "\<lparr>best_params = \<lparr>p_bands = b, p_rows = r\<rparr>, best_error = e, best_used = b * r\<rparr>"
  have step: "tune_step error_of (b, r) best = Ok ?best"
    using False assms(2) by (auto simp: tune_step_def Let_def no_worse_def f64_total_less_def f64_total_eq_def)
  have "no_worse e (b * r) (best_error best) (best_used best)" and "no_worse e (b * r) e (b * r)"
    using False by (auto simp: no_worse_def)
  then have "no_worse e (b * r) e'' (b'' * r'')"
    if "(b'', r'') \<in> set (seen @ [(b, r)])" "error_of b'' r'' = Ok e''" for b'' r'' e''
    using that assms(1,2) unfolding tuning_inv_def by (auto intro: no_worse_trans)
  then have "tuning_inv error_of n (seen @ [(b, r)]) ?best"
    unfolding tuning_inv_def params_valid_def using assms(2-5) by simp
  with step show ?thesis by blast
qed

text \<open>The pairs in the order of the two nested loops.\<close>

definition tuning_pairs :: "usize \<Rightarrow> (usize \<times> usize) list" where
  "tuning_pairs n = concat (map (\<lambda>b. map (Pair b) [1..<n div b + 1]) [1..<n + 1])"

lemma set_tuning_pairs: "(b, r) \<in> set (tuning_pairs n) \<longleftrightarrow> 0 < b \<and> 0 < r \<and> b * r \<le> n"
proof
  assume "(b, r) \<in> set (tuning_pairs n)"
  then have br: "0 < b" "0 < r" "r \<le> n div b" by (auto simp: tuning_pairs_def)
  then show "0 < b \<and> 0 < r \<and> b * r \<le> n" by (simp add: less_eq_div_iff_mult_less_eq ac_simps)
next
  assume br: "0 < b \<and> 0 < r \<and> b * r \<le> n"
  then have "b \<le> n"
    by (metis le_trans mult.right_neutral mult_le_mono2 less_eq_Suc_le One_nat_def)
  moreover have "r \<le> n div b" using br by (simp add: less_eq_div_iff_mult_less_eq ac_simps)
  ultimately show "(b, r) \<in> set (tuning_pairs n)"
    using br by (auto simp: tuning_pairs_def image_iff simp del: upt_Suc)
qed

lemma optimize_params_pairs:
  "optimize_params pow t n =
     and_then (fold_result (tune_step (tuning_error pow t)) (tuning_pairs n)
       \<lparr>best_params = \<lparr>p_bands = 1, p_rows = 1\<rparr>, best_error = f64_infinity, best_used = 1\<rparr>)
       (\<lambda>best. Ok (best_params best))"
  unfolding optimize_params_def tuning_pairs_def
  by (subst fold_result_concat [of "tune_step (tuning_error pow t)"]) (rule refl)

lemma optimize_params_inv:
  assumes "0 < n" and "n < 4294967296"
  shows "\<exists>best. (optimize_params pow t n :: (lsh_params, 'e) result) = Ok (best_params best)
    \<and> tuning_inv (tuning_error pow t :: usize \<Rightarrow> usize \<Rightarrow> (f64, 'e) result) n (tuning_pairs n) best"
proof -
  let ?init = "\<lparr>best_params = \<lparr>p_bands = 1, p_rows = 1\<rparr>, best_error = f64_infinity, best_used = 1\<rparr>"
  let ?err = "tuning_error pow t :: usize \<Rightarrow> usize \<Rightarrow> (f64, 'e) result"
  have "\<exists>best. fold_result (tune_step ?err) (tuning_pairs n) ?init = Ok best
      \<and> tuning_inv ?err n (tuning_pairs n) best"
  proof (rule fold_result_total)
    show "tuning_inv ?err n [] ?init"
      using assms by (simp add: tuning_inv_def params_valid_def)
  next
    fix ys x zs s
    assume eq: "tuning_pairs n = ys @ x # zs" and inv: "tuning_inv ?err n ys s"
    obtain b r where x: "x = (b, r)" by (cases x)
    have br: "0 < b" "0 < r" "b * r \<le> n"
      using set_tuning_pairs [of b r n] by (auto simp: eq x)
    then have "b \<le> n" and "r \<le> n"
      by (metis le_trans mult.right_neutral mult_le_mono2 less_eq_Suc_le One_nat_def,
          metis le_trans mult.left_neutral mult_le_mono1 less_eq_Suc_le One_nat_def)
    then obtain e where "?err b r = Ok e"
      using tuning_error_total [of b r pow t] assms(2) by auto
    then show "\<exists>s'. tune_step ?err x s = Ok s' \<and> tuning_inv ?err n (ys @ [x]) s'"
      unfolding x using br by (intro tune_step_inv [OF inv])
  qed
  then show ?thesis
    unfolding optimize_params_pairs by auto
qed

lemma tune_total:
  assumes "0 < t" and "t \<le> f64_one" and "0 < n" and "n \<le> 4096"
  shows "\<exists>p. tune pow t n = Ok p \<and> params_valid p n"
  using optimize_params_inv [of n pow t, where ?'e = lsh_error] assms
  by (auto simp: tune_def validate_cases MAX_AUTO_TUNE_PERMUTATIONS_def tuning_inv_def)

text \<open>Tuning never panics; it succeeds exactly for an accepted threshold and between one and
  4096 permutations, with the documented error otherwise.\<close>

lemma tune_result:
  "tune pow t n =
     (if \<not> (0 < t \<and> t \<le> f64_one) then Err (InvalidThreshold t)
      else if \<not> (0 < n \<and> n < 4294967296) then Err (InvalidPermutationCount n)
      else if 4096 < n then Err (AutomaticTuningTooLarge n 4096)
      else optimize_params pow t n)
   \<and> (0 < t \<and> t \<le> f64_one \<and> 0 < n \<and> n \<le> 4096 \<longrightarrow>
      (\<exists>p. tune pow t n = Ok p \<and> validate_params p n = Ok ()))"
proof
  show tune: "tune pow t n =
     (if \<not> (0 < t \<and> t \<le> f64_one) then Err (InvalidThreshold t)
      else if \<not> (0 < n \<and> n < 4294967296) then Err (InvalidPermutationCount n)
      else if 4096 < n then Err (AutomaticTuningTooLarge n 4096)
      else optimize_params pow t n)"
    by (auto simp: tune_def validate_cases MAX_AUTO_TUNE_PERMUTATIONS_def err_if_def)
  show "0 < t \<and> t \<le> f64_one \<and> 0 < n \<and> n \<le> 4096 \<longrightarrow>
      (\<exists>p. tune pow t n = Ok p \<and> validate_params p n = Ok ())"
  proof
    assume "0 < t \<and> t \<le> f64_one \<and> 0 < n \<and> n \<le> 4096"
    then show "\<exists>p. tune pow t n = Ok p \<and> validate_params p n = Ok ()"
      using tune_total [of t n pow] by (auto simp: validate_params_Ok)
  qed
qed

text \<open>C28: the tuned parameters minimise the error of the two probability areas over all pairs of
  bands and rows that fit the signature, in the total order of floating-point numbers; among
  pairs of equal error they use the most signature values. The starting pair with infinite
  error remains only if no pair has an error below or equal to infinity.\<close>

theorem tune_optimal:
  assumes "tune pow t n = Ok p" and "0 < b" and "0 < r" and "b * r \<le> n"
    and "tuning_error pow t b r = (Ok e' :: (f64, lsh_error) result)"
  shows "\<exists>e. ((tuning_error pow t (p_bands p) (p_rows p) :: (f64, lsh_error) result) = Ok e
        \<or> p = \<lparr>p_bands = 1, p_rows = 1\<rparr> \<and> e = f64_infinity)
    \<and> (f64_total_key e < f64_total_key e'
       \<or> f64_total_key e = f64_total_key e' \<and> b * r \<le> p_bands p * p_rows p)"
proof -
  have n: "0 < n" "n < 4294967296" and opt: "optimize_params pow t n = (Ok p :: (lsh_params, lsh_error) result)"
    using assms(1) by (auto simp: tune_def res_simps)
  obtain best where best: "best_params best = p"
    and inv: "tuning_inv (tuning_error pow t :: usize \<Rightarrow> usize \<Rightarrow> (f64, lsh_error) result) n (tuning_pairs n) best"
    using optimize_params_inv [OF n, of pow t, where ?'e = lsh_error] opt by auto
  have "(b, r) \<in> set (tuning_pairs n)"
    using assms by (simp add: set_tuning_pairs)
  then have "no_worse (best_error best) (best_used best) e' (b * r)"
    using inv assms(5) unfolding tuning_inv_def by blast
  then show ?thesis
    using inv unfolding tuning_inv_def best no_worse_def by auto
qed

section \<open>Instances\<close>

theorem tune_optimal_witness:
  "\<exists>p e e'. tune (\<lambda>x y. x) f64_half 4 = Ok p
    \<and> (tuning_error (\<lambda>x y. x) f64_half 2 2 :: (f64, lsh_error) result) = Ok e'
    \<and> ((tuning_error (\<lambda>x y. x) f64_half (p_bands p) (p_rows p) :: (f64, lsh_error) result) = Ok e
        \<or> p = \<lparr>p_bands = 1, p_rows = 1\<rparr> \<and> e = f64_infinity)
    \<and> f64_total_key e \<le> f64_total_key e'"
proof -
  obtain p where p: "tune (\<lambda>x y. x) f64_half 4 = Ok p"
    using tune_total [of f64_half 4 "\<lambda>x y. x"] by auto
  obtain e' where e': "(tuning_error (\<lambda>x y. x) f64_half 2 2 :: (f64, lsh_error) result) = Ok e'"
    using tuning_error_total [of 2 2 "\<lambda>x y. x" f64_half, where ?'e = lsh_error] by auto
  show ?thesis
    using tune_optimal [OF p, of 2 2 e'] p e' by fastforce
qed

end
