(* ===== verification/Pari_Stats.thy ===== *)
theory Pari_Stats
  imports Pari_F64
begin

text \<open>
  Crate \<open>pari-index\<close>, bucket statistics and query metrics (\<open>crates/pari-index/src/lib.rs\<close>). The lemmas
  show that the percentile position of \<open>nearest_rank\<close> is the exact rank and in range, and that the
  percentiles of a summary are the nearest ranks, characterised by counting.
\<close>

section \<open>Statistics\<close>

record bucket_distribution =
  bd_buckets :: u64
  bd_memberships :: u64
  bd_minimum :: u64
  bd_p50 :: u64
  bd_p95 :: u64
  bd_p99 :: u64
  bd_maximum :: u64

definition nearest_rank :: "u64 list \<Rightarrow> usize \<Rightarrow> (u64, 'e) result" where
  "nearest_rank ordered percentile =
     (let rank = (length ordered div 100) * percentile + div_ceil ((length ordered mod 100) * percentile) 100
      in if rank = 0 \<or> length ordered < rank then Panic else Ok (ordered ! (rank - 1)))"

definition u64_or_max :: "usize \<Rightarrow> u64" where
  "u64_or_max n = (case u64_try_from n of Some w \<Rightarrow> w | None \<Rightarrow> - 1)"

definition from_sizes :: "usize list \<Rightarrow> (bucket_distribution, 'e) result" where
  "from_sizes sizes =
     (let sizes = filter (\<lambda>size. 0 < size) (map u64_or_max sizes)
      in if sizes = [] then Ok \<lparr>bd_buckets = 0, bd_memberships = 0, bd_minimum = 0, bd_p50 = 0, bd_p95 = 0, bd_p99 = 0, bd_maximum = 0\<rparr>
         else let sizes = sort sizes
              in and_then (nearest_rank sizes 50) (\<lambda>p50. and_then (nearest_rank sizes 95) (\<lambda>p95.
                 and_then (nearest_rank sizes 99) (\<lambda>p99.
                 Ok \<lparr>bd_buckets = u64_or_max (length sizes),
                     bd_memberships = fold (\<lambda>x acc. saturating_add acc x) sizes 0,
                     bd_minimum = hd sizes, bd_p50 = p50, bd_p95 = p95, bd_p99 = p99, bd_maximum = last sizes\<rparr>))))"

definition average_members :: "bucket_distribution \<Rightarrow> f64" where
  "average_members d =
     (if bd_buckets d = 0 then 0
      else f64_div (f64_from_nat (unat (bd_memberships d))) (f64_from_nat (unat (bd_buckets d))))"

record query_metrics =
  operations :: u64
  queries :: u64
  candidates :: u64
  possible_candidates :: u64
  total_latency_ns :: u64
  max_latency_ns :: u64

abbreviation query_metrics_default :: query_metrics where
  "query_metrics_default \<equiv> \<lparr>operations = 0, queries = 0, candidates = 0, possible_candidates = 0,
     total_latency_ns = 0, max_latency_ns = 0\<rparr>"

text \<open>\<open>QueryMetrics::record\<close> saturates; the atomic counters of \<open>QueryObserver::record\<close> wrap
  around (\<open>fetch_add\<close>). The snapshot of an observer is the record of its counters, so both
  share a type.\<close>

definition query_metrics_record :: "usize \<Rightarrow> usize \<Rightarrow> usize \<Rightarrow> nat \<Rightarrow> query_metrics \<Rightarrow> query_metrics" where
  "query_metrics_record qs cands possible elapsed m =
     (let elapsed = u64_or_max elapsed
      in \<lparr>operations = saturating_add (operations m) 1,
          queries = saturating_add (queries m) (u64_or_max qs),
          candidates = saturating_add (candidates m) (u64_or_max cands),
          possible_candidates = saturating_add (possible_candidates m) (u64_or_max possible),
          total_latency_ns = saturating_add (total_latency_ns m) elapsed,
          max_latency_ns = max (max_latency_ns m) elapsed\<rparr>)"

definition query_observer_record :: "usize \<Rightarrow> usize \<Rightarrow> usize \<Rightarrow> nat \<Rightarrow> query_metrics \<Rightarrow> query_metrics" where
  "query_observer_record qs cands possible elapsed m =
     (let elapsed = u64_or_max elapsed
      in \<lparr>operations = operations m + 1,
          queries = queries m + u64_or_max qs,
          candidates = candidates m + u64_or_max cands,
          possible_candidates = possible_candidates m + u64_or_max possible,
          total_latency_ns = total_latency_ns m + elapsed,
          max_latency_ns = max (max_latency_ns m) elapsed\<rparr>)"

definition candidate_rate :: "query_metrics \<Rightarrow> f64" where
  "candidate_rate m =
     (if possible_candidates m = 0 then 0
      else f64_div (f64_from_nat (unat (candidates m))) (f64_from_nat (unat (possible_candidates m))))"

definition average_operation_ms :: "query_metrics \<Rightarrow> f64" where
  "average_operation_ms m =
     (if operations m = 0 then 0
      else f64_div (f64_div (f64_from_nat (unat (total_latency_ns m))) (f64_from_nat (unat (operations m))))
             (f64_from_nat 1000000))"

section \<open>Properties of summaries\<close>

text \<open>The split product is the exact nearest rank.\<close>

lemma nearest_rank_position:
  "(n div 100) * p + div_ceil ((n mod 100) * p) 100 = div_ceil (n * p) 100"
proof -
  have "n * p = (n mod 100) * p + 100 * ((n div 100) * p)"
    by (metis add.commute add_mult_distrib div_mult_mod_eq mult.assoc mult.commute)
  then show ?thesis by (simp add: div_ceil_alt)
qed

lemma nearest_rank_eq:
  assumes "xs \<noteq> []" and "0 < p" and "p \<le> 100"
  shows "nearest_rank xs p = Ok (xs ! (div_ceil (length xs * p) 100 - 1))
    \<and> 0 < div_ceil (length xs * p) 100 \<and> div_ceil (length xs * p) 100 \<le> length xs"
proof -
  have "0 < length xs * p" using assms by simp
  then have pos: "0 < div_ceil (length xs * p) 100" by (simp add: div_ceil_pos)
  moreover have "div_ceil (length xs * p) 100 \<le> div_ceil (length xs * 100) 100"
    using assms by (intro div_ceil_mono) simp_all
  then have "div_ceil (length xs * p) 100 \<le> length xs" by (simp add: div_ceil_def)
  ultimately show ?thesis
    unfolding nearest_rank_def nearest_rank_position Let_def by simp
qed

lemma u64_or_max_id: "n < usize_limit \<Longrightarrow> u64_or_max n = of_nat n"
  by (simp add: u64_or_max_def u64_try_from_def)

abbreviation rank_value :: "u64 list \<Rightarrow> usize \<Rightarrow> u64" where
  "rank_value ws p \<equiv> ws ! (div_ceil (length ws * p) 100 - 1)"

lemma sorted_extremes:
  assumes "sorted ws" and "x \<in> set ws"
  shows "hd ws \<le> x \<and> x \<le> last ws"
proof -
  have "ws \<noteq> []" using assms(2) by auto
  then show ?thesis
    using assms by (auto simp: in_set_conv_nth hd_conv_nth last_conv_nth intro!: sorted_nth_mono)
qed

text \<open>Sizes converted to words and sorted.\<close>

lemma sorted_words:
  fixes ns :: "nat list"
  defines "ws \<equiv> sort (map (of_nat :: nat \<Rightarrow> u64) ns)"
  assumes "\<forall>n \<in> set ns. n < usize_limit" and "ns \<noteq> []"
  shows "ws \<noteq> []" and "sum_list (map unat ws) = sum_list ns" and "unat ` set ws = set ns"
    and "unat (hd ws) = Min (set ns)" and "unat (last ws) = Max (set ns)"
proof -
  have un: "unat (of_nat n :: u64) = n" if "n \<in> set ns" for n
    using that assms(2) by (intro unat_of_nat_u64) blast
  have "length ws = length ns" by (simp add: ws_def)
  then show ne: "ws \<noteq> []" using assms(3) by (metis length_0_conv)
  have "map (unat \<circ> (of_nat :: nat \<Rightarrow> u64)) ns = ns" using un by (intro map_idI) simp
  then show "sum_list (map unat ws) = sum_list ns" by (simp add: ws_def sum_list_map_sort)
  show mem: "unat ` set ws = set ns" using un by (force simp: ws_def image_iff)
  have sorted: "sorted ws" by (simp add: ws_def)
  show "unat (hd ws) = Min (set ns)"
    using sorted_extremes [OF sorted] ne unfolding mem [symmetric]
    by (intro Min_eqI [symmetric]) (auto simp: word_le_nat_alt)
  show "unat (last ws) = Max (set ns)"
    using sorted_extremes [OF sorted] ne unfolding mem [symmetric]
    by (intro Max_eqI [symmetric]) (auto simp: word_le_nat_alt)
qed

lemma from_sizes_eq:
  assumes "\<forall>n \<in> set sizes. n < usize_limit" and "filter (\<lambda>n. 0 < n) sizes \<noteq> []"
  shows "let ws = sort (map of_nat (filter (\<lambda>n. 0 < n) sizes))
    in (from_sizes sizes :: (bucket_distribution, 'e) result) = Ok \<lparr>bd_buckets = u64_or_max (length ws),
        bd_memberships = fold (\<lambda>x acc. saturating_add acc x) ws 0, bd_minimum = hd ws, bd_p50 = rank_value ws 50,
        bd_p95 = rank_value ws 95, bd_p99 = rank_value ws 99, bd_maximum = last ws\<rparr>"
proof -
  let ?ns = "filter (\<lambda>n. 0 < n) sizes"
  have "map u64_or_max sizes = map of_nat sizes" using assms(1) by (auto simp: u64_or_max_id)
  moreover have "filter (\<lambda>n. (0 :: u64) < of_nat n) sizes = ?ns"
    using assms(1) by (intro filter_cong refl) (simp add: word_less_nat_alt unat_of_nat_u64)
  ultimately have "filter (\<lambda>size. 0 < size) (map u64_or_max sizes) = map of_nat ?ns"
    by (simp only: filter_map comp_def)
  moreover have "sort (map of_nat ?ns) \<noteq> ([] :: u64 list)"
    using sorted_words(1) [of ?ns] assms by simp
  note nearest_rank_eq [OF this, of 50, where ?'a = 'e] nearest_rank_eq [OF this, of 95, where ?'a = 'e]
    nearest_rank_eq [OF this, of 99, where ?'a = 'e]
  ultimately show ?thesis
    using assms(2) by (simp add: from_sizes_def Let_def)
qed

text \<open>The nearest rank, stated without sorting: the smallest size such that at least the given share of the non-empty buckets are
  no larger.\<close>

definition percentile_of :: "nat \<Rightarrow> nat list \<Rightarrow> nat" where
  "percentile_of p ns = Min (set (filter (\<lambda>x. p * length ns \<le> 100 * length (filter (\<lambda>y. y \<le> x) ns)) ns))"

lemma sorted_count:
  assumes "sorted ns" and "k < length ns"
  shows "k < length (filter (\<lambda>y. y \<le> ns ! k) ns)" and "x < ns ! k \<Longrightarrow> length (filter (\<lambda>y. y \<le> x) ns) \<le> k"
proof -
  have "filter (\<lambda>y. y \<le> ns ! k) (take (Suc k) ns) = take (Suc k) ns"
  proof (rule filter_True, rule ballI)
    fix y assume "y \<in> set (take (Suc k) ns)"
    then obtain i where i: "y = ns ! i" "i \<le> k" by (auto simp: in_set_conv_nth)
    show "y \<le> ns ! k" unfolding i(1) by (rule sorted_nth_mono [OF assms(1) i(2) assms(2)])
  qed
  then have "Suc k \<le> length (filter (\<lambda>y. y \<le> ns ! k) (take (Suc k) ns @ drop (Suc k) ns))"
    using assms(2) by (subst filter_append) simp
  then show "k < length (filter (\<lambda>y. y \<le> ns ! k) ns)" by simp
next
  assume x: "x < ns ! k"
  have "filter (\<lambda>y. y \<le> x) (drop k ns) = []"
  proof -
    have "x < y" if "y \<in> set (drop k ns)" for y
    proof -
      obtain i where i: "y = ns ! (k + i)" "k + i < length ns" using \<open>y \<in> set (drop k ns)\<close> by (auto simp: in_set_conv_nth)
      have "ns ! k \<le> y" unfolding i(1) by (rule sorted_nth_mono [OF assms(1) le_add1 i(2)])
      then show ?thesis using x by simp
    qed
    then show ?thesis by (fastforce simp: filter_empty_conv)
  qed
  then have "length (filter (\<lambda>y. y \<le> x) (take k ns @ drop k ns)) \<le> k" by (subst filter_append) (simp add: le_trans [OF length_filter_le])
  then show "length (filter (\<lambda>y. y \<le> x) ns) \<le> k" by simp
qed

lemma percentile_sort: "percentile_of p (sort ns) = percentile_of p ns"
proof -
  have "length (filter P (sort ns)) = length (filter P ns)" for P :: "nat \<Rightarrow> bool"
    by (metis filter_sort length_sort)
  then show ?thesis by (simp add: percentile_of_def)
qed

lemma percentile_nth:
  assumes "sorted ns" and "ns \<noteq> []" and "0 < p" and "p \<le> 100"
  shows "percentile_of p ns = ns ! (div_ceil (length ns * p) 100 - 1)"
proof -
  let ?r = "div_ceil (length ns * p) 100"
  have r: "0 < ?r" "?r \<le> length ns" using nearest_rank_eq [of "map of_nat ns :: u64 list" p, where ?'a = unit] assms by simp_all
  have ceil: "p * length ns \<le> 100 * m \<longleftrightarrow> ?r \<le> m" for m
  proof -
    have "?r \<le> m \<longleftrightarrow> length ns * p + 99 < 100 * (m + 1)"
      by (simp add: div_ceil_alt div_less_iff_less_mult less_Suc_eq_le [symmetric] mult.commute)
    then show ?thesis by (simp add: mult.commute [of p]) linarith
  qed
  have k: "?r - 1 < length ns" using r by simp
  show ?thesis
    unfolding percentile_of_def
  proof (rule Min_eqI)
    show "ns ! (?r - 1) \<in> set (filter (\<lambda>x. p * length ns \<le> 100 * length (filter (\<lambda>y. y \<le> x) ns)) ns)"
      using sorted_count(1) [OF assms(1) k] k r(1) unfolding ceil by simp
  next
    fix x assume "x \<in> set (filter (\<lambda>x. p * length ns \<le> 100 * length (filter (\<lambda>y. y \<le> x) ns)) ns)"
    then have "?r \<le> length (filter (\<lambda>y. y \<le> x) ns)" unfolding ceil by simp
    then show "ns ! (?r - 1) \<le> x" using sorted_count(2) [OF assms(1) k, of x] r(1) by (cases "x < ns ! (?r - 1)") simp_all
  qed simp
qed

lemma rank_value_percentile:
  assumes "\<forall>n \<in> set ns. n < usize_limit" and "ns \<noteq> []" and "0 < p" and "p \<le> 100"
  shows "unat (rank_value (sort (map of_nat ns)) p) = percentile_of p ns"
proof -
  let ?ws = "sort (map of_nat ns) :: u64 list"
  have un: "unat (of_nat n :: u64) = n" if "n \<in> set ns" for n using that assms(1) by (intro unat_of_nat_u64) blast
  have ins: "map unat (insort x xs) = insort (unat x) (map unat xs)" for x :: u64 and xs by (induction xs) (simp_all add: word_le_nat_alt)
  have srt: "map unat (sort xs) = sort (map unat xs)" for xs :: "u64 list"
  proof (induction xs)
    case (Cons x xs)
    then show ?case by (simp only: sort_key_simps list.map ins)
  qed simp
  have "map (unat \<circ> (of_nat :: nat \<Rightarrow> u64)) ns = ns" using un by (intro map_idI) simp
  then have w: "map unat ?ws = sort ns" by (simp only: srt map_map)
  have len: "length ?ws = length ns" by (simp only: length_sort length_map)
  then have ne: "?ws \<noteq> []" using assms(2) by (metis length_0_conv)
  have "div_ceil (length ns * p) 100 - 1 < length ?ws" using nearest_rank_eq [OF ne assms(3,4), where ?'a = unit] unfolding len by linarith
  then have "unat (rank_value ?ws p) = sort ns ! (div_ceil (length ns * p) 100 - 1)" unfolding len using nth_map [of _ ?ws unat] w len by metis
  moreover have "sort ns \<noteq> []" using assms(2) by (metis length_0_conv length_sort)
  ultimately show ?thesis using percentile_nth [OF sorted_sort _ assms(3,4), of ns] percentile_sort [of p ns] by (metis length_sort)
qed

lemma saturating_sum_min:
  fixes xs :: "u64 list"
  shows "unat (fold (\<lambda>x acc. saturating_add acc x) xs a) = min (unat a + sum_list (map unat xs)) (usize_limit - 1)"
proof (induction xs arbitrary: a)
  case Nil
  then show ?case using unat_u64_less [of a] by simp
next
  case (Cons x xs)
  have max: "unat (- 1 :: u64) = usize_limit - 1" by (simp add: unsigned_minus_1_eq_mask mask_eq_exp_minus_1)
  have "unat (saturating_add a x) = min (unat a + unat x) (usize_limit - 1)"
    by (simp add: saturating_add_def unat_word_ariths max)
  then show ?case using Cons by simp
qed

text \<open>C27: the summary of bucket sizes never panics. With no non-empty bucket it is the default. Otherwise it counts the
  non-empty buckets, their members (saturating at the largest 64-bit integer) and the extremes, and each percentile is the
  nearest rank: the smallest size such that at least this share of the non-empty buckets are no larger.\<close>

theorem distribution_exact:
  assumes "\<forall>n \<in> set sizes. n < usize_limit" and "length sizes < usize_limit" and "ns = filter (\<lambda>n. 0 < n) sizes"
  shows "\<exists>d. (from_sizes sizes :: (bucket_distribution, 'e) result) = Ok d
    \<and> (if ns = [] then d = \<lparr>bd_buckets = 0, bd_memberships = 0, bd_minimum = 0, bd_p50 = 0, bd_p95 = 0, bd_p99 = 0, bd_maximum = 0\<rparr>
       else unat (bd_buckets d) = length ns \<and> unat (bd_memberships d) = min (sum_list sizes) 18446744073709551615
         \<and> unat (bd_minimum d) = Min (set ns) \<and> unat (bd_maximum d) = Max (set ns)
         \<and> unat (bd_p50 d) = percentile_of 50 ns \<and> unat (bd_p95 d) = percentile_of 95 ns \<and> unat (bd_p99 d) = percentile_of 99 ns)"
proof (cases "ns = []")
  case True
  have "u64_or_max n = 0" if "n \<in> set sizes" for n
  proof -
    have "n = 0" using that assms(3) True by (metis (mono_tags, lifting) filter_empty_conv gr0I)
    then show ?thesis by (simp add: u64_or_max_def u64_try_from_def)
  qed
  then have "filter (\<lambda>size. 0 < size) (map u64_or_max sizes) = []" by (auto simp: filter_empty_conv)
  then show ?thesis using True by (simp add: from_sizes_def)
next
  case False
  define ws where "ws = sort (map (of_nat :: nat \<Rightarrow> u64) ns)"
  have lim: "\<forall>n \<in> set ns. n < usize_limit" using assms(1,3) by simp
  note words = sorted_words [OF lim False, folded ws_def]
  have sum: "sum_list ns = sum_list sizes" unfolding assms(3) by (induction sizes) auto
  have "length ns < usize_limit" using assms(2) length_filter_le [of "\<lambda>n. 0 < n" sizes] unfolding assms(3) by linarith
  then have "unat (u64_or_max (length ws)) = length ns" by (simp add: u64_or_max_id unat_of_nat_u64 ws_def)
  moreover have "unat (fold (\<lambda>x acc. saturating_add acc x) ws 0) = min (sum_list sizes) 18446744073709551615"
    using saturating_sum_min [of ws 0] by (simp add: words(2) sum)
  moreover have "unat (rank_value ws p) = percentile_of p ns" if "0 < p" "p \<le> 100" for p
    unfolding ws_def by (rule rank_value_percentile [OF lim False that])
  ultimately show ?thesis
    using from_sizes_eq [OF assms(1), where ?'e = 'e] False words(4,5) by (simp add: assms(3) [symmetric] ws_def [symmetric] Let_def)
qed

theorem distribution_exact_witness:
  "\<exists>d. (from_sizes [100, 3, 0, 1, 2, 4] :: (bucket_distribution, unit) result) = Ok d
     \<and> unat (bd_buckets d) = 5 \<and> unat (bd_memberships d) = 110 \<and> unat (bd_p50 d) = 3 \<and> unat (bd_p95 d) = 100"
proof -
  have "percentile_of 50 [100, 3, 1, 2, 4] = 3" "percentile_of 95 [100, 3, 1, 2, 4] = 100"
    by (simp_all add: percentile_of_def)
  then show ?thesis using distribution_exact [of "[100, 3, 0, 1, 2, 4]" "[100, 3, 1, 2, 4]", where ?'e = unit] by auto
qed

end
