(* ===== verification/Pari_Lsh.thy ===== *)
theory Pari_Lsh
  imports Pari_MinHash Pari_Maps Pari_Params Pari_Stats
begin

text \<open>
  Crate \<open>pari-index\<close>, the in-memory index (\<open>crates/pari-index/src/lib.rs\<close>): \<open>IndexData\<close> with its
  bucket tables, the operations the macro \<open>impl_lsh_index\<close> gives \<open>LshIndex32\<close> and \<open>LshIndex64\<close>,
  and band hashing. Operations of the macro take the band hash
  as an argument, as the macro does. Wall-clock times are arguments.

  The locale \<open>candidate_index\<close> is the contract of an index over band hashes: an abstract map from
  keys to band hashes that insertion and removal update, and queries that return, in ascending
  order, the keys sharing a band. It is interpreted on \<open>IndexData\<close>.
\<close>

unbundle bit_operations_syntax

section \<open>Band hashes\<close>

definition FNV_OFFSET_BASIS :: u64 where "FNV_OFFSET_BASIS = 0xCBF29CE484222325"
definition FNV_PRIME :: u64 where "FNV_PRIME = 0x00000100000001B3"

definition avalanche64 :: "u64 \<Rightarrow> u64" where
  "avalanche64 value =
     (let value = value XOR drop_bit 33 value;
          value = value * 0xFF51AFD7ED558CCD;
          value = value XOR drop_bit 33 value;
          value = value * 0xC4CEB9FE1A85EC53
      in value XOR drop_bit 33 value)"

definition hash_band32 :: "u32 list \<Rightarrow> (u64, 'e) result" where
  "hash_band32 values =
     (let hash = fold (\<lambda>value hash. (hash XOR ucast value) * FNV_PRIME) values FNV_OFFSET_BASIS
      in and_then (expect (u64_try_from (length values))) (\<lambda>n. Ok (avalanche64 (hash XOR n))))"

definition hash_band64 :: "u64 list \<Rightarrow> (u64, 'e) result" where
  "hash_band64 values =
     (let hash = fold (\<lambda>value hash. (hash XOR value) * FNV_PRIME) values FNV_OFFSET_BASIS
      in and_then (expect (u64_try_from (length values))) (\<lambda>n. Ok (avalanche64 (hash XOR n))))"

section \<open>IndexData\<close>

record lsh_stats =
  st_items :: usize
  st_bands :: usize
  st_rows :: usize
  st_buckets :: bucket_distribution
  st_queries :: "query_metrics option"

record index_data =
  buckets :: "(u64, u32 list) hashmap list"
  key_to_id :: "(u64, u32) hashmap"
  id_to_key :: "u64 option list"
  band_hashes :: "u64 list option list"
  query_observer :: "query_metrics option"

definition index_data_new :: "usize \<Rightarrow> index_data" where
  "index_data_new bands = \<lparr>buckets = replicate bands [], key_to_id = [], id_to_key = [],
     band_hashes = [], query_observer = None\<rparr>"

text \<open>\<open>for (table, x) in tables.iter_mut().zip(xs)\<close>: tables beyond the end of \<open>xs\<close> are kept.\<close>

fun zip_update :: "('x \<Rightarrow> 't \<Rightarrow> 't) \<Rightarrow> 'x list \<Rightarrow> 't list \<Rightarrow> 't list" where
  "zip_update f (x # xs) (t # ts) = f x t # zip_update f xs ts"
| "zip_update f xs ts = ts"

definition remove_from_table :: "u32 \<Rightarrow> u64 \<Rightarrow> (u64, u32 list) hashmap \<Rightarrow> (u64, u32 list) hashmap" where
  "remove_from_table ident hash table =
     (case hm_get table hash of
        Some ids \<Rightarrow> (let ids = filter (\<lambda>candidate. candidate \<noteq> ident) ids
                    in if ids = [] then hm_remove hash table else hm_insert hash ids table)
      | None \<Rightarrow> table)"

definition index_data_remove :: "u64 \<Rightarrow> index_data \<Rightarrow> bool \<times> index_data" where
  "index_data_remove key d =
     (case hm_get (key_to_id d) key of
        None \<Rightarrow> (False, d)
      | Some ident \<Rightarrow>
          let index = unat ident
          in if \<not> (index < length (id_to_key d) \<and> id_to_key d ! index = Some key) then (False, d)
             else if \<not> (index < length (band_hashes d)) then (False, d)
             else case band_hashes d ! index of
                    None \<Rightarrow> (False, d)
                  | Some hashes \<Rightarrow>
                      (True, d\<lparr>band_hashes := (band_hashes d)[index := None],
                               key_to_id := hm_remove key (key_to_id d),
                               buckets := zip_update (remove_from_table ident) hashes (buckets d),
                               id_to_key := (id_to_key d)[index := None]\<rparr>))"

definition index_data_contains :: "u64 \<Rightarrow> index_data \<Rightarrow> bool" where
  "index_data_contains key d \<longleftrightarrow> hm_contains (key_to_id d) key"

definition index_data_len :: "index_data \<Rightarrow> usize" where
  "index_data_len d = length (key_to_id d)"

definition index_data_is_empty :: "index_data \<Rightarrow> bool" where
  "index_data_is_empty d \<longleftrightarrow> key_to_id d = []"

definition index_data_set_observability :: "bool \<Rightarrow> index_data \<Rightarrow> index_data" where
  "index_data_set_observability enabled d =
     d\<lparr>query_observer := if enabled then Some query_metrics_default else None\<rparr>"

definition index_data_stats :: "lsh_params \<Rightarrow> index_data \<Rightarrow> (lsh_stats, 'e) result" where
  "index_data_stats params d =
     and_then (from_sizes (concat (map (map (length \<circ> snd)) (buckets d)))) (\<lambda>distribution.
     Ok \<lparr>st_items = index_data_len d, st_bands = p_bands params, st_rows = p_rows params,
         st_buckets = distribution, st_queries = query_observer d\<rparr>)"

definition ensure_capacity :: "usize \<Rightarrow> index_data \<Rightarrow> (unit, lsh_error) result" where
  "ensure_capacity additional d =
     and_then (ok_or TooManyItems (checked_add_usize (length (id_to_key d)) additional)) (\<lambda>projected.
     err_if (4294967295 < projected) TooManyItems)"

definition insert_validated :: "u64 \<Rightarrow> u64 list \<Rightarrow> index_data \<Rightarrow> (index_data, 'e) result" where
  "insert_validated key hashes d =
     and_then (expect (u32_try_from (length (id_to_key d)))) (\<lambda>ident.
     Ok (d\<lparr>buckets := zip_update (\<lambda>hash table. hm_push hash ident table) hashes (buckets d),
           key_to_id := hm_insert key ident (key_to_id d),
           id_to_key := id_to_key d @ [Some key],
           band_hashes := band_hashes d @ [Some hashes]\<rparr>))"

definition collect_candidate_ids :: "u64 list \<Rightarrow> index_data \<Rightarrow> u32 list \<Rightarrow> u32 list" where
  "collect_candidate_ids hashes d output =
     fold (\<lambda>(table, hash) output. case hm_get table hash of None \<Rightarrow> output | Some ids \<Rightarrow> hs_extend ids output)
       (zip (buckets d) hashes) output"

definition keys_for_candidates :: "u32 list \<Rightarrow> index_data \<Rightarrow> u64 list" where
  "keys_for_candidates ids d =
     sort (List.map_filter (\<lambda>ident. if unat ident < length (id_to_key d) then id_to_key d ! unat ident else None) ids)"

section \<open>LshIndex32 and LshIndex64\<close>

record lsh_index =
  idx_threshold :: f64
  idx_num_perm :: usize
  idx_seed :: u64
  idx_params :: lsh_params
  idx_data :: index_data

definition index_with_params :: "f64 \<Rightarrow> usize \<Rightarrow> u64 \<Rightarrow> lsh_params \<Rightarrow> (lsh_index, lsh_error) result" where
  "index_with_params threshold num_perm seed params =
     and_then (validate_threshold threshold) (\<lambda>_.
     and_then (Pari_Params.validate_num_perm num_perm) (\<lambda>_.
     and_then (validate_params params num_perm) (\<lambda>_.
     Ok \<lparr>idx_threshold = threshold, idx_num_perm = num_perm, idx_seed = seed, idx_params = params,
         idx_data = index_data_new (p_bands params)\<rparr>)))"

definition index_new :: "(f64 \<Rightarrow> f64 \<Rightarrow> f64) \<Rightarrow> f64 \<Rightarrow> usize \<Rightarrow> u64 \<Rightarrow> (lsh_index, lsh_error) result" where
  "index_new pow threshold num_perm seed =
     and_then (tune pow threshold num_perm) (\<lambda>params. index_with_params threshold num_perm seed params)"

definition index_ensure_compatible :: "'v minhash \<Rightarrow> lsh_index \<Rightarrow> (unit, lsh_error) result" where
  "index_ensure_compatible sketch index =
     (if mh_seed sketch \<noteq> idx_seed index
      then Err (lsh_error.IncompatibleSeed (idx_seed index) (mh_seed sketch))
      else if length (hashvalues sketch) \<noteq> idx_num_perm index
      then Err (lsh_error.IncompatiblePermutationCount (idx_num_perm index) (length (hashvalues sketch)))
      else Ok ())"

definition compute_band_hashes ::
  "('v list \<Rightarrow> (u64, 'e) result) \<Rightarrow> 'v list \<Rightarrow> lsh_index \<Rightarrow> (u64 list, 'e) result" where
  "compute_band_hashes hash_band signature index =
     and_then (expect (used_permutations (idx_params index))) (\<lambda>used.
     and_then (expect (slice_get signature 0 used)) (\<lambda>prefix.
     try_map hash_band (chunks_exact (p_rows (idx_params index)) prefix)))"

text \<open>The validation loop of \<open>insert_many\<close>; \<open>batch_keys\<close> is its local set.\<close>

fun validate_batch :: "lsh_index \<Rightarrow> (u64 \<times> 'v minhash) list \<Rightarrow> u64 list \<Rightarrow> (unit, lsh_error) result" where
  "validate_batch index [] batch_keys = Ok ()"
| "validate_batch index ((key, sketch) # items) batch_keys =
     (if hm_contains (key_to_id (idx_data index)) key \<or> key \<in> set batch_keys
      then Err (DuplicateKey key)
      else and_then (index_ensure_compatible sketch index) (\<lambda>_.
           validate_batch index items (key # batch_keys)))"

text \<open>The body of its insertion loop.\<close>

definition insert_step ::
  "('v list \<Rightarrow> (u64, 'e) result) \<Rightarrow> u64 \<times> 'v minhash \<Rightarrow> lsh_index \<Rightarrow> (lsh_index, 'e) result" where
  "insert_step hash_band item index =
     (let (key, sketch) = item
      in and_then (compute_band_hashes hash_band (hashvalues sketch) index) (\<lambda>hashes.
         and_then (insert_validated key hashes (idx_data index)) (\<lambda>data.
         Ok (index\<lparr>idx_data := data\<rparr>))))"

definition index_insert_many ::
  "('v list \<Rightarrow> (u64, lsh_error) result) \<Rightarrow> (u64 \<times> 'v minhash) list \<Rightarrow> lsh_index
     \<Rightarrow> (lsh_index, lsh_error) result" where
  "index_insert_many hash_band items index =
     and_then (validate_batch index items []) (\<lambda>_.
     and_then (ensure_capacity (length items) (idx_data index)) (\<lambda>_.
     fold_result (insert_step hash_band) items index))"

definition index_insert ::
  "('v list \<Rightarrow> (u64, lsh_error) result) \<Rightarrow> u64 \<Rightarrow> 'v minhash \<Rightarrow> lsh_index \<Rightarrow> (lsh_index, lsh_error) result" where
  "index_insert hash_band key sketch index = index_insert_many hash_band [(key, sketch)] index"

text \<open>A query records itself through the shared reference when an observer is set; \<open>elapsed\<close> is
  the measured time in nanoseconds. The updated index is returned beside the keys.\<close>

definition observe :: "usize \<Rightarrow> usize \<Rightarrow> usize \<Rightarrow> nat \<Rightarrow> lsh_index \<Rightarrow> lsh_index" where
  "observe qs cands possible elapsed index =
     index\<lparr>idx_data := (idx_data index)\<lparr>query_observer :=
       map_option (query_observer_record qs cands possible elapsed) (query_observer (idx_data index))\<rparr>\<rparr>"

definition index_query ::
  "('v list \<Rightarrow> (u64, lsh_error) result) \<Rightarrow> 'v minhash \<Rightarrow> nat \<Rightarrow> lsh_index
     \<Rightarrow> (u64 list \<times> lsh_index, lsh_error) result" where
  "index_query hash_band sketch elapsed index =
     and_then (index_ensure_compatible sketch index) (\<lambda>_.
     and_then (compute_band_hashes hash_band (hashvalues sketch) index) (\<lambda>hashes.
     let output = keys_for_candidates (collect_candidate_ids hashes (idx_data index) []) (idx_data index)
     in Ok (output, observe 1 (length output) (index_data_len (idx_data index)) elapsed index)))"

definition index_query_many ::
  "('v list \<Rightarrow> (u64, lsh_error) result) \<Rightarrow> 'v minhash list \<Rightarrow> nat \<Rightarrow> lsh_index
     \<Rightarrow> (u64 list list \<times> lsh_index, lsh_error) result" where
  "index_query_many hash_band sketches elapsed index =
     and_then (fold_result (\<lambda>sketch (output, candidate_count).
         and_then (index_ensure_compatible sketch index) (\<lambda>_.
         and_then (compute_band_hashes hash_band (hashvalues sketch) index) (\<lambda>hashes.
         let keys = keys_for_candidates (collect_candidate_ids hashes (idx_data index) []) (idx_data index)
         in Ok (output @ [keys], saturating_add_usize candidate_count (length keys)))))
       sketches ([], 0)) (\<lambda>(output, candidate_count).
     Ok (output, observe (length output) candidate_count
                   (saturating_mul_usize (length output) (index_data_len (idx_data index))) elapsed index))"

definition index_remove :: "u64 \<Rightarrow> lsh_index \<Rightarrow> bool \<times> lsh_index" where
  "index_remove key index =
     (let (changed, data) = index_data_remove key (idx_data index) in (changed, index\<lparr>idx_data := data\<rparr>))"

text \<open>The two instances of the macro.\<close>

definition LshIndex32_insert_many :: "(u64 \<times> minhash32) list \<Rightarrow> lsh_index \<Rightarrow> (lsh_index, lsh_error) result" where
  "LshIndex32_insert_many = index_insert_many hash_band32"

definition LshIndex64_insert_many :: "(u64 \<times> minhash64) list \<Rightarrow> lsh_index \<Rightarrow> (lsh_index, lsh_error) result" where
  "LshIndex64_insert_many = index_insert_many hash_band64"

definition LshIndex32_query :: "minhash32 \<Rightarrow> nat \<Rightarrow> lsh_index \<Rightarrow> (u64 list \<times> lsh_index, lsh_error) result" where
  "LshIndex32_query = index_query hash_band32"

definition LshIndex64_query :: "minhash64 \<Rightarrow> nat \<Rightarrow> lsh_index \<Rightarrow> (u64 list \<times> lsh_index, lsh_error) result" where
  "LshIndex64_query = index_query hash_band64"

section \<open>The contract of an index over band hashes\<close>

text \<open>Two lists of band hashes share a band when they agree at some position; \<open>band_matches\<close> are
  the keys of an abstract index that share a band with a query.\<close>

definition shares_band :: "u64 list \<Rightarrow> u64 list \<Rightarrow> bool" where
  "shares_band hs gs \<longleftrightarrow> (\<exists>(h, g) \<in> set (zip hs gs). h = g)"

definition band_matches :: "('k \<rightharpoonup> u64 list) \<Rightarrow> u64 list \<Rightarrow> 'k set" where
  "band_matches m hs = {k. \<exists>gs. m k = Some gs \<and> shares_band hs gs}"

lemma shares_band_nth:
  "shares_band hs gs \<longleftrightarrow> (\<exists>b. b < length hs \<and> b < length gs \<and> hs ! b = gs ! b)"
  by (auto simp: shares_band_def set_zip)

lemma shares_band_refl: "hs \<noteq> [] \<Longrightarrow> shares_band hs hs"
  by (cases hs) (auto simp: shares_band_def)

lemma finite_band_matches: "finite (dom m) \<Longrightarrow> finite (band_matches m hs)"
  by (rule finite_subset [of _ "dom m"]) (auto simp: band_matches_def)

lemma band_matches_upd:
  "band_matches (m(k \<mapsto> gs)) hs = (if shares_band hs gs then insert k (band_matches m hs) else band_matches m hs - {k})"
  by (auto simp: band_matches_def)

lemma band_matches_del: "band_matches (m(k := None)) hs = band_matches m hs - {k}"
  by (auto simp: band_matches_def)

text \<open>Operations on an index, as a sequence.\<close>

datatype index_op = OpInsert u64 "u64 list" | OpRemove u64

primrec spec_op :: "index_op \<Rightarrow> (u64 \<rightharpoonup> u64 list) \<Rightarrow> (u64 \<rightharpoonup> u64 list)" where
  "spec_op (OpInsert k hs) m = m(k \<mapsto> hs)"
| "spec_op (OpRemove k) m = m(k := None)"

primrec exec_op :: "(u64 \<Rightarrow> u64 list \<Rightarrow> 's \<Rightarrow> ('s, 'e) result) \<Rightarrow> (u64 \<Rightarrow> 's \<Rightarrow> bool \<times> 's) \<Rightarrow> index_op \<Rightarrow> 's \<Rightarrow> ('s, 'e) result" where
  "exec_op ins del (OpInsert k hs) s = ins k hs s"
| "exec_op ins del (OpRemove k) s = Ok (snd (del k s))"

definition run_ops :: "(u64 \<Rightarrow> u64 list \<Rightarrow> 's \<Rightarrow> ('s, 'e) result) \<Rightarrow> (u64 \<Rightarrow> 's \<Rightarrow> bool \<times> 's) \<Rightarrow> index_op list \<Rightarrow> 's \<Rightarrow> ('s, 'e) result" where
  "run_ops ins del ops s = fold_result (exec_op ins del) ops s"

fun ops_ok :: "nat \<Rightarrow> index_op list \<Rightarrow> (u64 \<rightharpoonup> u64 list) \<Rightarrow> bool" where
  "ops_ok w [] m \<longleftrightarrow> True"
| "ops_ok w (OpInsert k hs # ops) m \<longleftrightarrow> length hs = w \<and> m k = None \<and> ops_ok w ops (m(k \<mapsto> hs))"
| "ops_ok w (OpRemove k # ops) m \<longleftrightarrow> ops_ok w ops (m(k := None))"

locale candidate_index =
  fixes invar :: "'s \<Rightarrow> bool"
    and width :: "'s \<Rightarrow> nat"
    and room :: "'s \<Rightarrow> nat"
    and lookup :: "'s \<Rightarrow> u64 \<rightharpoonup> u64 list"
    and ins :: "u64 \<Rightarrow> u64 list \<Rightarrow> 's \<Rightarrow> ('s, 'e) result"
    and del :: "u64 \<Rightarrow> 's \<Rightarrow> bool \<times> 's"
    and cands :: "u64 list \<Rightarrow> 's \<Rightarrow> u64 list"
  assumes ins_law: "invar s \<Longrightarrow> 0 < room s \<Longrightarrow> length hs = width s \<Longrightarrow> lookup s k = None \<Longrightarrow>
      \<exists>s'. ins k hs s = Ok s' \<and> invar s' \<and> width s' = width s \<and> room s' = room s - 1
        \<and> lookup s' = (lookup s)(k \<mapsto> hs)"
    and del_law: "invar s \<Longrightarrow> invar (snd (del k s)) \<and> width (snd (del k s)) = width s
        \<and> room s \<le> room (snd (del k s))
        \<and> lookup (snd (del k s)) = (lookup s)(k := None) \<and> (fst (del k s) \<longleftrightarrow> k \<in> dom (lookup s))"
    and cands_law: "invar s \<Longrightarrow> length hs = width s \<Longrightarrow>
        set (cands hs s) = band_matches (lookup s) hs \<and> sorted_wrt (<) (cands hs s)"
    and lookup_law: "invar s \<Longrightarrow> finite (dom (lookup s)) \<and> (\<forall>k hs. lookup s k = Some hs \<longrightarrow> length hs = width s)"
begin

lemma cands_eq:
  assumes "invar s" and "length hs = width s"
  shows "cands hs s = sorted_list_of_set (band_matches (lookup s) hs)"
  using cands_law [OF assms] by (metis sorted_list_of_set.idem_if_sorted_distinct strict_sorted_iff)

text \<open>Two indexes with the same abstract map answer every query alike, whatever the history of
  their tables.\<close>

lemma cands_cong:
  assumes "invar s" and "invar t" and "lookup s = lookup t" and "length hs = width s" and "width s = width t"
  shows "cands hs s = cands hs t"
  using assms by (simp add: cands_eq)

lemma cands_self:
  assumes "invar s" and "lookup s k = Some hs" and "0 < width s"
  shows "k \<in> set (cands hs s)"
proof -
  have "length hs = width s" using assms lookup_law by blast
  then show ?thesis
    using assms cands_law by (auto simp: band_matches_def intro!: shares_band_refl)
qed

lemma ins_del_restores:
  assumes "invar s" and "0 < room s" and "length hs = width s" and "lookup s k = None" and "length gs = width s"
    and "ins k hs s = Ok s'"
  shows "cands gs (snd (del k s')) = cands gs s"
proof -
  have s': "invar s'" "width s' = width s" "lookup s' = (lookup s)(k \<mapsto> hs)"
    using ins_law [OF assms(1-4)] assms(6) by auto
  have "lookup (snd (del k s')) = lookup s"
    using del_law [OF s'(1), of k] s'(3) assms(4) by (simp add: fun_upd_idem)
  then show ?thesis
    using del_law [OF s'(1), of k] s' assms by (intro cands_cong) auto
qed

text \<open>Any history of admissible operations succeeds and leaves the map the history describes.\<close>

lemma run_ops_law:
  assumes "invar s" and "length ops \<le> room s" and "ops_ok (width s) ops (lookup s)"
  shows "\<exists>s'. run_ops ins del ops s = Ok s' \<and> invar s' \<and> width s' = width s
    \<and> lookup s' = fold spec_op ops (lookup s)"
  using assms
proof (induction ops arbitrary: s)
  case (Cons op ops)
  have "\<exists>s'. exec_op ins del op s = Ok s' \<and> invar s' \<and> width s' = width s \<and> room s - 1 \<le> room s'
      \<and> lookup s' = spec_op op (lookup s)"
  proof (cases op)
    case (OpInsert k hs)
    then show ?thesis using Cons.prems ins_law [of s hs k] by auto
  next
    case (OpRemove k)
    then show ?thesis using Cons.prems del_law [of s k] by auto
  qed
  then obtain s' where s': "exec_op ins del op s = Ok s'" "invar s'" "width s' = width s"
    "room s - 1 \<le> room s'" "lookup s' = spec_op op (lookup s)"
    by blast
  moreover have "ops_ok (width s) ops (spec_op op (lookup s))"
    using Cons.prems(3) by (cases op) auto
  then have "\<exists>t. run_ops ins del ops s' = Ok t \<and> invar t \<and> width t = width s' \<and> lookup t = fold spec_op ops (lookup s')"
    using Cons.prems s' by (intro Cons.IH) auto
  ultimately show ?case by (auto simp: run_ops_def)
qed (simp add: run_ops_def)

end

section \<open>The invariant of IndexData\<close>

text \<open>The identifiers, ascending, of the live entries whose hash in band \<open>b\<close> is \<open>h\<close>; every bucket
  holds exactly this list, and no bucket is empty.\<close>

definition live_ids :: "u64 list option list \<Rightarrow> nat \<Rightarrow> u64 \<Rightarrow> u32 list" where
  "live_ids bhs b h = map of_nat
     (filter (\<lambda>i. case bhs ! i of None \<Rightarrow> False | Some hs \<Rightarrow> hs ! b = h) [0..<length bhs])"

definition index_data_inv :: "index_data \<Rightarrow> bool" where
  "index_data_inv d \<longleftrightarrow>
     length (id_to_key d) = length (band_hashes d) \<and> length (band_hashes d) \<le> 4294967295
     \<and> hm_wf (key_to_id d) \<and> (\<forall>table \<in> set (buckets d). hm_wf table)
     \<and> (\<forall>i < length (band_hashes d). (id_to_key d ! i = None \<longleftrightarrow> band_hashes d ! i = None)
          \<and> (\<forall>hs. band_hashes d ! i = Some hs \<longrightarrow> length hs = length (buckets d)))
     \<and> (\<forall>k i. hm_get (key_to_id d) k = Some i \<longleftrightarrow>
          unat i < length (id_to_key d) \<and> id_to_key d ! unat i = Some k)
     \<and> (\<forall>b < length (buckets d). \<forall>h. hm_get (buckets d ! b) h = non_empty (live_ids (band_hashes d) b h))"

definition index_data_lookup :: "index_data \<Rightarrow> u64 \<rightharpoonup> u64 list" where
  "index_data_lookup d k =
     (case hm_get (key_to_id d) k of None \<Rightarrow> None | Some i \<Rightarrow> band_hashes d ! unat i)"

lemma index_data_invD:
  assumes "index_data_inv d"
  shows inv_length: "length (id_to_key d) = length (band_hashes d)"
    and inv_cap: "length (band_hashes d) \<le> 4294967295"
    and inv_wf: "hm_wf (key_to_id d)" "table \<in> set (buckets d) \<Longrightarrow> hm_wf table"
    and inv_live: "i < length (band_hashes d) \<Longrightarrow> id_to_key d ! i = None \<longleftrightarrow> band_hashes d ! i = None"
    and inv_width: "i < length (band_hashes d) \<Longrightarrow> band_hashes d ! i = Some hs \<Longrightarrow> length hs = length (buckets d)"
    and inv_key: "hm_get (key_to_id d) k = Some j \<longleftrightarrow> unat j < length (band_hashes d) \<and> id_to_key d ! unat j = Some k"
    and inv_bucket: "b < length (buckets d) \<Longrightarrow> hm_get (buckets d ! b) h = non_empty (live_ids (band_hashes d) b h)"
  using assms unfolding index_data_inv_def by simp_all

lemma length_zip_update [simp]: "length (zip_update f xs ts) = length ts"
  by (induction f xs ts rule: zip_update.induct) auto

lemma nth_zip_update:
  "i < length ts \<Longrightarrow> i < length xs \<Longrightarrow> zip_update f xs ts ! i = f (xs ! i) (ts ! i)"
proof (induction f xs ts arbitrary: i rule: zip_update.induct)
  case (1 f x xs t ts)
  then show ?case by (cases i) auto
qed auto

lemma set_zip_update: "t' \<in> set (zip_update f xs ts) \<Longrightarrow> t' \<in> set ts \<or> (\<exists>x \<in> set xs. \<exists>t \<in> set ts. t' = f x t)"
  by (induction f xs ts rule: zip_update.induct) auto

lemma set_live_ids:
  assumes "length bhs \<le> 4294967295"
  shows "i \<in> set (live_ids bhs b h) \<longleftrightarrow> unat i < length bhs \<and> (\<exists>hs. bhs ! unat i = Some hs \<and> hs ! b = h)"
proof -
  have "unat (of_nat n :: u32) = n" if "n < length bhs" for n
    using that assms by (intro unat_of_nat_u32) simp
  then show ?thesis
    by (force simp: live_ids_def image_iff split: option.splits)
qed

lemma distinct_live_ids:
  assumes "length bhs \<le> 4294967295"
  shows "distinct (live_ids bhs b h)"
proof -
  have inj: "inj_on (of_nat :: nat \<Rightarrow> u32) A" if "A \<subseteq> {0..<length bhs}" for A
  proof (rule inj_on_inverseI [where g = unat])
    fix n assume "n \<in> A"
    with that have "n < length bhs" by auto
    with assms show "unat (of_nat n :: u32) = n" by (intro unat_of_nat_u32) linarith
  qed
  show ?thesis
    unfolding live_ids_def distinct_map by (intro conjI inj) auto
qed

lemma live_ids_snoc:
  "live_ids (bhs @ [Some hs]) b h = live_ids bhs b h @ (if hs ! b = h then [of_nat (length bhs)] else [])"
proof -
  have "filter (\<lambda>i. case (bhs @ [Some hs]) ! i of None \<Rightarrow> False | Some hs \<Rightarrow> hs ! b = h) [0..<length bhs]
      = filter (\<lambda>i. case bhs ! i of None \<Rightarrow> False | Some hs \<Rightarrow> hs ! b = h) [0..<length bhs]"
    by (rule filter_cong) (auto simp: nth_append)
  then show ?thesis by (simp add: live_ids_def)
qed

lemma live_ids_clear:
  assumes "length bhs \<le> 4294967295" and "unat i < length bhs"
  shows "live_ids (bhs[unat i := None]) b h = filter (\<lambda>j. j \<noteq> i) (live_ids bhs b h)"
proof -
  have "of_nat n \<noteq> i \<longleftrightarrow> n \<noteq> unat i" if "n < length bhs" for n
  proof -
    have "unat (of_nat n :: u32) = n" using that assms by (intro unat_of_nat_u32) simp
    then show ?thesis by auto
  qed
  then have "filter (\<lambda>n. case (bhs[unat i := None]) ! n of None \<Rightarrow> False | Some hs \<Rightarrow> hs ! b = h) [0..<length bhs]
      = filter (\<lambda>n. (of_nat n :: u32) \<noteq> i \<and> (case bhs ! n of None \<Rightarrow> False | Some hs \<Rightarrow> hs ! b = h)) [0..<length bhs]"
    using assms(2) by (intro filter_cong refl) (auto simp: nth_list_update)
  then show ?thesis
    by (simp add: live_ids_def filter_map comp_def conj_commute)
qed

lemma inv_ident: "index_data_inv d \<Longrightarrow> n < length (band_hashes d) \<Longrightarrow> unat (of_nat n :: u32) = n"
  using inv_cap [of d] by (intro unat_of_nat_u32) simp

lemma inv_key_unique:
  assumes "index_data_inv d" and "i < length (band_hashes d)" and "j < length (band_hashes d)"
    and "id_to_key d ! i = Some k" and "id_to_key d ! j = Some k"
  shows "i = j"
proof -
  have "hm_get (key_to_id d) k = Some (of_nat i)" and "hm_get (key_to_id d) k = Some (of_nat j)"
    using assms by (simp_all add: inv_key inv_ident)
  then show ?thesis
    using inv_ident assms(1-3) by (metis option.inject)
qed

lemma index_data_lookup_iff:
  assumes "index_data_inv d"
  shows "index_data_lookup d k = Some hs \<longleftrightarrow>
    (\<exists>i < length (band_hashes d). id_to_key d ! i = Some k \<and> band_hashes d ! i = Some hs)"
proof
  assume "index_data_lookup d k = Some hs"
  then show "\<exists>i < length (band_hashes d). id_to_key d ! i = Some k \<and> band_hashes d ! i = Some hs"
    by (auto simp: index_data_lookup_def inv_key [OF assms] split: option.splits)
next
  assume "\<exists>i < length (band_hashes d). id_to_key d ! i = Some k \<and> band_hashes d ! i = Some hs"
  then obtain i where i: "i < length (band_hashes d)" "id_to_key d ! i = Some k" "band_hashes d ! i = Some hs"
    by blast
  then have "hm_get (key_to_id d) k = Some (of_nat i)"
    by (simp add: inv_key [OF assms] inv_ident [OF assms])
  with i show "index_data_lookup d k = Some hs"
    by (simp add: index_data_lookup_def inv_ident [OF assms])
qed

lemma index_data_lookup_None:
  assumes "index_data_inv d"
  shows "index_data_lookup d k = None \<longleftrightarrow> hm_get (key_to_id d) k = None"
proof (cases "hm_get (key_to_id d) k")
  case (Some i)
  then have "unat i < length (band_hashes d)" and "id_to_key d ! unat i \<noteq> None"
    by (auto simp: inv_key [OF assms])
  then show ?thesis
    using inv_live [OF assms] Some by (simp add: index_data_lookup_def)
qed (simp add: index_data_lookup_def)

lemma index_data_new_inv: "index_data_inv (index_data_new n) \<and> index_data_lookup (index_data_new n) = Map.empty"
  by (auto simp: index_data_inv_def index_data_new_def index_data_lookup_def live_ids_def non_empty_def)

lemma remove_from_table_non_empty:
  assumes "\<And>h. hm_get table h = non_empty (f h)" and "\<And>h. h \<noteq> h' \<Longrightarrow> i \<notin> set (f h)"
  shows "hm_get (remove_from_table i h' table) h = non_empty (filter (\<lambda>j. j \<noteq> i) (f h))"
proof -
  have "filter (\<lambda>j. j \<noteq> i) (f h) = f h" if "h \<noteq> h'" for h
    using assms(2) [OF that] by (auto simp: filter_id_conv)
  then show ?thesis
    using assms(1) [of h] assms(1) [of h']
    by (auto simp: remove_from_table_def non_empty_def Let_def split: option.splits if_splits)
qed

lemma insert_validated_law:
  assumes inv: "index_data_inv d" and cap: "length (band_hashes d) < 4294967295"
    and len: "length hashes = length (buckets d)" and fresh: "index_data_lookup d key = None"
  shows "\<exists>d'. insert_validated key hashes d = Ok d' \<and> index_data_inv d' \<and> length (buckets d') = length (buckets d)
    \<and> length (band_hashes d') = Suc (length (band_hashes d))
    \<and> index_data_lookup d' = (index_data_lookup d)(key \<mapsto> hashes)"
proof -
  let ?n = "length (band_hashes d)"
  define i where "i = (of_nat ?n :: u32)"
  have i: "unat i = ?n" using cap by (simp add: i_def unat_of_nat_u32)
  define d' where "d' = d\<lparr>buckets := zip_update (\<lambda>hash table. hm_push hash i table) hashes (buckets d),
      key_to_id := hm_insert key i (key_to_id d), id_to_key := id_to_key d @ [Some key],
      band_hashes := band_hashes d @ [Some hashes]\<rparr>"
  have ok: "insert_validated key hashes d = Ok d'"
    using cap inv_length [OF inv] by (simp add: insert_validated_def u32_try_from_def d'_def i_def)
  have none: "hm_get (key_to_id d) key = None"
    using fresh index_data_lookup_None [OF inv] by simp
  have key: "hm_get (key_to_id d') k = Some j \<longleftrightarrow> unat j < length (id_to_key d') \<and> id_to_key d' ! unat j = Some k" for k j
  proof (cases "unat j = ?n")
    case True
    then have "j = i" using i by (metis word_unat_eq_iff)
    then show ?thesis
      using i none inv_length [OF inv] inv_key [OF inv, of k i] by (auto simp: d'_def nth_append)
  next
    case False
    then have "j \<noteq> i" using i by auto
    then show ?thesis
      using False none inv_length [OF inv] inv_key [OF inv, of k j] inv_key [OF inv, of key j]
      by (auto simp: d'_def nth_append)
  qed
  have bucket: "hm_get (buckets d' ! b) h = non_empty (live_ids (band_hashes d') b h)" if "b < length (buckets d')" for b h
    using that len hm_push_non_empty [OF inv_bucket [OF inv, of b h]]
    by (simp add: d'_def nth_zip_update live_ids_snoc i_def)
  have "index_data_inv d'"
    unfolding index_data_inv_def
  proof (intro conjI allI impI ballI)
    fix table assume "table \<in> set (buckets d')"
    then show "hm_wf table" using set_zip_update inv_wf(2) [OF inv] by (fastforce simp: d'_def)
  qed (use key bucket inv_length [OF inv] inv_wf(1) [OF inv] inv_live [OF inv] inv_width [OF inv] cap len
       in \<open>auto simp: d'_def nth_append less_Suc_eq\<close>)
  moreover have "index_data_lookup d' = (index_data_lookup d)(key \<mapsto> hashes)"
  proof
    fix k
    show "index_data_lookup d' k = ((index_data_lookup d)(key \<mapsto> hashes)) k"
    proof (cases "hm_get (key_to_id d) k")
      case None
      then show ?thesis using i by (simp add: index_data_lookup_def d'_def nth_append)
    next
      case (Some j)
      then have "unat j < ?n" by (simp add: inv_key [OF inv])
      then show ?thesis using Some i none by (auto simp: index_data_lookup_def d'_def nth_append)
    qed
  qed
  ultimately show ?thesis using ok by (auto simp: d'_def)
qed

lemma index_data_remove_law:
  assumes inv: "index_data_inv d"
  shows "index_data_inv (snd (index_data_remove key d))
    \<and> length (buckets (snd (index_data_remove key d))) = length (buckets d)
    \<and> length (band_hashes (snd (index_data_remove key d))) = length (band_hashes d)
    \<and> index_data_lookup (snd (index_data_remove key d)) = (index_data_lookup d)(key := None)
    \<and> (fst (index_data_remove key d) \<longleftrightarrow> key \<in> dom (index_data_lookup d))"
proof (cases "hm_get (key_to_id d) key")
  case None
  then have "index_data_lookup d key = None" by (simp add: index_data_lookup_None [OF inv])
  then show ?thesis using None inv by (simp add: index_data_remove_def fun_upd_idem domIff)
next
  case (Some i)
  then have i: "unat i < length (band_hashes d)" "id_to_key d ! unat i = Some key"
    by (simp_all add: inv_key [OF inv])
  then obtain hashes where hashes: "band_hashes d ! unat i = Some hashes"
    using inv_live [OF inv] by fastforce
  then have len: "length hashes = length (buckets d)" using inv_width [OF inv] i by blast
  define d' where "d' = d\<lparr>band_hashes := (band_hashes d)[unat i := None], key_to_id := hm_remove key (key_to_id d),
      buckets := zip_update (remove_from_table i) hashes (buckets d), id_to_key := (id_to_key d)[unat i := None]\<rparr>"
  have rem: "index_data_remove key d = (True, d')"
    using Some i hashes inv_length [OF inv] by (simp add: index_data_remove_def d'_def Let_def)
  have same: "j = i" if "unat j = unat i" for j using that by (metis word_unat_eq_iff)
  have key: "hm_get (key_to_id d') k = Some j \<longleftrightarrow> unat j < length (id_to_key d') \<and> id_to_key d' ! unat j = Some k" for k j
    using inv_key [OF inv, of k j] inv_length [OF inv] i same inv_key_unique [OF inv, of "unat i" "unat j" key]
    by (auto simp: d'_def nth_list_update)
  have bucket: "hm_get (buckets d' ! b) h = non_empty (live_ids (band_hashes d') b h)" if "b < length (buckets d')" for b h
  proof -
    have "i \<notin> set (live_ids (band_hashes d) b g)" if "g \<noteq> hashes ! b" for g
      using that hashes by (auto simp: set_live_ids [OF inv_cap [OF inv]])
    moreover have "b < length (buckets d)" using that by (simp add: d'_def)
    ultimately show ?thesis
      using len remove_from_table_non_empty [OF inv_bucket [OF inv, of b], where h' = "hashes ! b" and i = i]
      by (simp add: d'_def nth_zip_update live_ids_clear [OF inv_cap [OF inv] i(1)])
  qed
  have "index_data_inv d'"
    unfolding index_data_inv_def
  proof (intro conjI allI impI ballI)
    fix table assume "table \<in> set (buckets d')"
    then have "table \<in> set (buckets d) \<or> (\<exists>h. \<exists>t \<in> set (buckets d). table = remove_from_table i h t)"
      using set_zip_update by (fastforce simp: d'_def)
    then show "hm_wf table"
      using inv_wf(2) [OF inv] by (auto simp: remove_from_table_def Let_def split: option.split)
  next
    fix j assume "j < length (band_hashes d')"
    then show "id_to_key d' ! j = None \<longleftrightarrow> band_hashes d' ! j = None"
      using inv_live [OF inv, of j] inv_length [OF inv] i(1) by (cases "j = unat i") (simp_all add: d'_def)
  next
    fix j hs assume "j < length (band_hashes d')" and "band_hashes d' ! j = Some hs"
    then show "length hs = length (buckets d')"
      using inv_width [OF inv, of j hs] i(1) by (cases "j = unat i") (simp_all add: d'_def)
  qed (use key bucket inv_length [OF inv] inv_wf(1) [OF inv] inv_live [OF inv] inv_cap [OF inv]
       in \<open>auto simp: d'_def nth_list_update\<close>)
  moreover have "index_data_lookup d' = (index_data_lookup d)(key := None)"
  proof
    fix k
    have "unat j \<noteq> unat i" if "hm_get (key_to_id d) k = Some j" "k \<noteq> key" for j
      using that i inv_key [OF inv, of k j] by auto
    then show "index_data_lookup d' k = ((index_data_lookup d)(key := None)) k"
      by (auto simp: index_data_lookup_def d'_def split: option.split)
  qed
  moreover have "index_data_lookup d key \<noteq> None" using Some by (simp add: index_data_lookup_None [OF inv])
  ultimately show ?thesis by (auto simp: rem) (simp_all add: d'_def)
qed

section \<open>Queries\<close>

lemma fold_extend_law:
  fixes ps :: "((u64, u32 list) hashmap \<times> u64) list" and out :: "u32 list"
  shows "set (fold (\<lambda>(table, hash) output. case hm_get table hash of None \<Rightarrow> output | Some ids \<Rightarrow> hs_extend ids output) ps out)
      = set out \<union> (\<Union>(table, hash) \<in> set ps. case hm_get table hash of None \<Rightarrow> {} | Some ids \<Rightarrow> set ids)"
    and "distinct out \<Longrightarrow>
      distinct (fold (\<lambda>(table, hash) output. case hm_get table hash of None \<Rightarrow> output | Some ids \<Rightarrow> hs_extend ids output) ps out)"
  by (induction ps arbitrary: out) (auto split: option.splits)

lemma collect_candidate_ids_law:
  assumes inv: "index_data_inv d" and len: "length hashes = length (buckets d)"
  shows "distinct (collect_candidate_ids hashes d [])
    \<and> set (collect_candidate_ids hashes d []) = (\<Union>b < length (buckets d). set (live_ids (band_hashes d) b (hashes ! b)))"
proof -
  have "set (collect_candidate_ids hashes d [])
      = (\<Union>(table, hash) \<in> set (zip (buckets d) hashes). case hm_get table hash of None \<Rightarrow> {} | Some ids \<Rightarrow> set ids)"
    unfolding collect_candidate_ids_def fold_extend_law by simp
  also have "\<dots> = (\<Union>b < length (buckets d). case hm_get (buckets d ! b) (hashes ! b) of None \<Rightarrow> {} | Some ids \<Rightarrow> set ids)"
    using len by (fastforce simp: set_zip)
  also have "\<dots> = (\<Union>b < length (buckets d). set (live_ids (band_hashes d) b (hashes ! b)))"
    by (rule SUP_cong) (simp_all add: inv_bucket [OF inv] non_empty_def)
  finally show ?thesis
    using fold_extend_law(2) [of "[]"] by (simp add: collect_candidate_ids_def)
qed

lemma keys_for_candidates_law:
  assumes inv: "index_data_inv d" and "distinct ids" and "\<And>i. i \<in> set ids \<Longrightarrow> unat i < length (band_hashes d)"
  shows "sorted_wrt (<) (keys_for_candidates ids d)
    \<and> set (keys_for_candidates ids d) = {k. \<exists>i \<in> set ids. id_to_key d ! unat i = Some k}"
proof -
  let ?g = "\<lambda>i. if unat i < length (id_to_key d) then id_to_key d ! unat i else None"
  have "distinct (List.map_filter ?g ids)"
    using assms(2,3)
  proof (induction ids)
    case (Cons i ids)
    have "k \<notin> set (List.map_filter ?g ids)" if "id_to_key d ! unat i = Some k" for k
    proof
      assume "k \<in> set (List.map_filter ?g ids)"
      then obtain j where "j \<in> set ids" "unat j < length (band_hashes d)" "id_to_key d ! unat j = Some k"
        by (auto simp: map_filter_def inv_length [OF inv] split: if_splits)
      then have "unat j = unat i"
        using Cons.prems(2) [of i] that by (intro inv_key_unique [OF inv]) auto
      then have "j = i" by (simp add: word_unat_eq_iff)
      with \<open>j \<in> set ids\<close> Cons.prems(1) show False by simp
    qed
    with Cons show ?case by (auto simp: map_filter_simps split: option.split)
  qed (simp add: map_filter_simps)
  then have "sorted_wrt (<) (keys_for_candidates ids d)"
    by (simp add: keys_for_candidates_def strict_sorted_iff)
  moreover have "set (List.map_filter ?g ids) = {k. \<exists>i \<in> set ids. id_to_key d ! unat i = Some k}"
    using assms(3) by (force simp: map_filter_def inv_length [OF inv])
  ultimately show ?thesis by (simp add: keys_for_candidates_def)
qed

definition index_data_cands :: "u64 list \<Rightarrow> index_data \<Rightarrow> u64 list" where
  "index_data_cands hashes d = keys_for_candidates (collect_candidate_ids hashes d []) d"

lemma index_data_cands_law:
  assumes inv: "index_data_inv d" and len: "length hashes = length (buckets d)"
  shows "set (index_data_cands hashes d) = band_matches (index_data_lookup d) hashes
    \<and> sorted_wrt (<) (index_data_cands hashes d)"
proof -
  note ids = collect_candidate_ids_law [OF inv len]
  note mem = set_live_ids [OF inv_cap [OF inv]]
  have keys: "sorted_wrt (<) (index_data_cands hashes d)
    \<and> set (index_data_cands hashes d)
      = {k. \<exists>i \<in> set (collect_candidate_ids hashes d []). id_to_key d ! unat i = Some k}"
    unfolding index_data_cands_def
    by (rule keys_for_candidates_law [OF inv]) (use ids mem in auto)
  have "(\<exists>i \<in> set (collect_candidate_ids hashes d []). id_to_key d ! unat i = Some k)
      \<longleftrightarrow> (\<exists>gs. index_data_lookup d k = Some gs \<and> shares_band hashes gs)" for k
  proof
    assume "\<exists>i \<in> set (collect_candidate_ids hashes d []). id_to_key d ! unat i = Some k"
    then obtain i where "id_to_key d ! unat i = Some k" and "i \<in> set (collect_candidate_ids hashes d [])"
      by blast
    moreover from this obtain b gs where "b < length (buckets d)"
      "unat i < length (band_hashes d)" "band_hashes d ! unat i = Some gs" "gs ! b = hashes ! b"
      using ids mem by auto
    ultimately show "\<exists>gs. index_data_lookup d k = Some gs \<and> shares_band hashes gs"
      using len inv_width [OF inv] by (fastforce simp: index_data_lookup_iff [OF inv] shares_band_nth)
  next
    assume "\<exists>gs. index_data_lookup d k = Some gs \<and> shares_band hashes gs"
    then obtain gs i b where i: "i < length (band_hashes d)" "id_to_key d ! i = Some k" "band_hashes d ! i = Some gs"
      "b < length (buckets d)" "hashes ! b = gs ! b"
      using len by (auto simp: index_data_lookup_iff [OF inv] shares_band_nth)
    then have "of_nat i \<in> set (live_ids (band_hashes d) b (hashes ! b))"
      by (simp add: mem inv_ident [OF inv])
    with i(4) ids have "of_nat i \<in> set (collect_candidate_ids hashes d [])"
      by blast
    with i show "\<exists>i \<in> set (collect_candidate_ids hashes d []). id_to_key d ! unat i = Some k"
      by (metis inv_ident [OF inv])
  qed
  with keys show ?thesis by (simp add: band_matches_def)
qed

lemma dom_index_data_lookup:
  "index_data_inv d \<Longrightarrow> dom (index_data_lookup d) = {k. hm_contains (key_to_id d) k}"
  by (simp only: dom_def hm_contains_def index_data_lookup_None)

lemma index_data_lookup_finite: "index_data_inv d \<Longrightarrow> finite (dom (index_data_lookup d))"
  by (simp add: dom_index_data_lookup hm_contains_iff)

lemma index_data_len_eq: "index_data_inv d \<Longrightarrow> index_data_len d = card (dom (index_data_lookup d))"
  by (simp add: dom_index_data_lookup card_hm_keys inv_wf(1) index_data_len_def)

lemma index_data_lookup_width: "index_data_inv d \<Longrightarrow> index_data_lookup d k = Some hs \<Longrightarrow> length hs = length (buckets d)"
  by (auto simp: index_data_lookup_iff intro: inv_width)

definition index_data_room :: "index_data \<Rightarrow> nat" where
  "index_data_room d = 4294967295 - length (band_hashes d)"

interpretation mem: candidate_index index_data_inv "\<lambda>d. length (buckets d)" index_data_room
  index_data_lookup insert_validated index_data_remove index_data_cands
proof unfold_locales
  fix d :: index_data and hs :: "u64 list" and k :: u64
  assume d: "index_data_inv d" "0 < index_data_room d" "length hs = length (buckets d)" "index_data_lookup d k = None"
  then have "length (band_hashes d) < 4294967295" by (simp add: index_data_room_def)
  from insert_validated_law [OF d(1) this d(3,4)]
  show "\<exists>d'. insert_validated k hs d = Ok d' \<and> index_data_inv d' \<and> length (buckets d') = length (buckets d)
      \<and> index_data_room d' = index_data_room d - 1 \<and> index_data_lookup d' = (index_data_lookup d)(k \<mapsto> hs)"
    by (auto simp: index_data_room_def)
next
  fix d k assume "index_data_inv d"
  then show "index_data_inv (snd (index_data_remove k d))
      \<and> length (buckets (snd (index_data_remove k d))) = length (buckets d)
      \<and> index_data_room d \<le> index_data_room (snd (index_data_remove k d))
      \<and> index_data_lookup (snd (index_data_remove k d)) = (index_data_lookup d)(k := None)
      \<and> (fst (index_data_remove k d) \<longleftrightarrow> k \<in> dom (index_data_lookup d))"
    using index_data_remove_law [of d k] by (simp add: index_data_room_def)
next
  fix d :: index_data and hs :: "u64 list"
  assume "index_data_inv d" and "length hs = length (buckets d)"
  then show "set (index_data_cands hs d) = band_matches (index_data_lookup d) hs \<and> sorted_wrt (<) (index_data_cands hs d)"
    by (rule index_data_cands_law)
next
  fix d assume "index_data_inv d"
  then show "finite (dom (index_data_lookup d)) \<and> (\<forall>k hs. index_data_lookup d k = Some hs \<longrightarrow> length hs = length (buckets d))"
    by (simp add: index_data_lookup_finite index_data_lookup_width)
qed

section \<open>Band hashing\<close>

text \<open>The value of a band hash, without the conversion that cannot fail.\<close>

definition band_hash :: "('v \<Rightarrow> u64) \<Rightarrow> 'v list \<Rightarrow> u64" where
  "band_hash widen values =
     avalanche64 (fold (\<lambda>value hash. (hash XOR widen value) * FNV_PRIME) values FNV_OFFSET_BASIS
       XOR of_nat (length values))"

definition band_total :: "('v list \<Rightarrow> (u64, 'e) result) \<Rightarrow> ('v list \<Rightarrow> u64) \<Rightarrow> bool" where
  "band_total hash_band h \<longleftrightarrow> (\<forall>xs. length xs < usize_limit \<longrightarrow> hash_band xs = Ok (h xs))"

lemma hash_band32_total: "band_total hash_band32 (band_hash ucast)"
  by (simp add: band_total_def hash_band32_def band_hash_def u64_try_from_def Let_def)

lemma hash_band64_total: "band_total hash_band64 (band_hash (\<lambda>v. v))"
  by (simp add: band_total_def hash_band64_def band_hash_def u64_try_from_def Let_def)

lemma bij_avalanche64: "bij avalanche64"
proof -
  have "avalanche64 = fmix64" by (rule ext) (simp only: avalanche64_def fmix64_def)
  then show ?thesis using bij_fmix64 by simp
qed

lemma inj_xor: "(a XOR c = b XOR c) = (a = (b :: 'w::len word))"
proof
  assume "a XOR c = b XOR c"
  then have "(a XOR c) XOR c = (b XOR c) XOR c" by (rule arg_cong)
  then show "a = b" by (simp add: xor.assoc)
qed simp

lemma band_step_inj:
  "(a XOR c) * FNV_PRIME = (b XOR c) * FNV_PRIME \<longleftrightarrow> a = b"
  "(c XOR a) * FNV_PRIME = (c XOR b) * FNV_PRIME \<longleftrightarrow> a = b"
proof -
  have odd: "odd FNV_PRIME" by (simp add: FNV_PRIME_def)
  have inj: "x * FNV_PRIME = y * FNV_PRIME \<longleftrightarrow> x = y" for x y
    using inj_eq [OF inj_odd_mult [OF odd], of x y] by (simp only: mult.commute)
  show "(a XOR c) * FNV_PRIME = (b XOR c) * FNV_PRIME \<longleftrightarrow> a = b" by (simp only: inj inj_xor)
  then show "(c XOR a) * FNV_PRIME = (c XOR b) * FNV_PRIME \<longleftrightarrow> a = b" by (simp only: xor.commute)
qed

lemma band_fold_inj:
  "fold (\<lambda>value hash. (hash XOR widen value) * FNV_PRIME) xs a
     = fold (\<lambda>value hash. (hash XOR widen value) * FNV_PRIME) xs b \<longleftrightarrow> a = b"
  by (induction xs arbitrary: a b) (simp_all add: band_step_inj)

lemma band_hash_single_change:
  assumes "inj widen" and "i < length xs" and "v \<noteq> xs ! i"
  shows "band_hash widen (xs[i := v]) \<noteq> band_hash widen xs"
proof -
  let ?f = "fold (\<lambda>value hash. (hash XOR widen value) * FNV_PRIME)"
  have "?f (xs[i := v]) a \<noteq> ?f xs a" for a
  proof -
    have "?f (take i xs @ v # drop (Suc i) xs) a \<noteq> ?f (take i xs @ xs ! i # drop (Suc i) xs) a"
      using assms by (simp add: band_fold_inj band_step_inj inj_eq)
    then show ?thesis
      using assms(2) by (simp add: upd_conv_take_nth_drop id_take_nth_drop [symmetric])
  qed
  then show ?thesis
    using bij_avalanche64 by (simp add: band_hash_def bij_def inj_eq inj_xor)
qed

section \<open>Indexes\<close>

definition sketch_bands :: "('v list \<Rightarrow> u64) \<Rightarrow> lsh_params \<Rightarrow> 'v list \<Rightarrow> u64 list" where
  "sketch_bands h params signature =
     map h (chunks_exact (p_rows params) (take (p_bands params * p_rows params) signature))"

definition index_wf :: "lsh_index \<Rightarrow> bool" where
  "index_wf index \<longleftrightarrow> params_valid (idx_params index) (idx_num_perm index)
     \<and> idx_num_perm index < 4294967296 \<and> index_data_inv (idx_data index)
     \<and> length (buckets (idx_data index)) = p_bands (idx_params index)"

definition index_compatible :: "'v minhash \<Rightarrow> lsh_index \<Rightarrow> bool" where
  "index_compatible sketch index \<longleftrightarrow>
     mh_seed sketch = idx_seed index \<and> length (hashvalues sketch) = idx_num_perm index"

abbreviation index_lookup :: "lsh_index \<Rightarrow> u64 \<rightharpoonup> u64 list" where
  "index_lookup index \<equiv> index_data_lookup (idx_data index)"

lemma index_ensure_compatible_Ok:
  "index_ensure_compatible sketch index = Ok u \<longleftrightarrow> index_compatible sketch index"
  by (auto simp: index_ensure_compatible_def index_compatible_def)

lemma index_ensure_compatible_not_Panic: "index_ensure_compatible sketch index \<noteq> Panic"
  by (auto simp: index_ensure_compatible_def)

lemma length_sketch_bands:
  assumes "params_valid params n" and "length signature = n"
  shows "length (sketch_bands h params signature) = p_bands params"
  using assms by (simp add: sketch_bands_def params_valid_def length_chunks_exact min_absorb2)

lemma compute_band_hashes_eq:
  assumes "band_total hash_band h" and "index_wf index" and "length signature = idx_num_perm index"
  shows "compute_band_hashes hash_band signature index = Ok (sketch_bands h (idx_params index) signature)"
proof -
  let ?p = "idx_params index"
  have valid: "params_valid ?p (idx_num_perm index)" and n: "idx_num_perm index < 4294967296"
    using assms(2) by (simp_all add: index_wf_def)
  then have used: "used_permutations ?p = Some (p_bands ?p * p_rows ?p)"
    using used_permutations_valid by simp
  have le: "p_bands ?p * p_rows ?p \<le> length signature" using valid assms(3) by (simp add: params_valid_def)
  have "length c < usize_limit" if "c \<in> set (chunks_exact (p_rows ?p) (take (p_bands ?p * p_rows ?p) signature))" for c
    using chunks_exact_length_mem [OF that] valid_params_bounds [OF valid n] by simp
  then have "try_map hash_band (chunks_exact (p_rows ?p) (take (p_bands ?p * p_rows ?p) signature))
      = Ok (sketch_bands h ?p signature)"
    unfolding sketch_bands_def using assms(1) by (intro try_map_all_ok) (simp add: band_total_def)
  then show ?thesis
    using used le by (simp add: compute_band_hashes_def slice_get_def)
qed

lemma validate_batch_Ok:
  "validate_batch index items seen = Ok () \<longleftrightarrow>
     distinct (map fst items) \<and> set (map fst items) \<inter> set seen = {}
     \<and> (\<forall>(key, sketch) \<in> set items. \<not> hm_contains (key_to_id (idx_data index)) key \<and> index_compatible sketch index)"
proof (induction index items seen rule: validate_batch.induct)
  case (2 index key sketch items seen)
  show ?case
  proof (cases "hm_contains (key_to_id (idx_data index)) key \<or> key \<in> set seen")
    case False
    then show ?thesis
      using 2 by (auto simp: and_then_eq_Ok index_ensure_compatible_Ok)
  qed auto
qed simp

lemma validate_batch_not_Panic: "validate_batch index items seen \<noteq> Panic"
proof (induction index items seen rule: validate_batch.induct)
  case (2 index key sketch items seen)
  then show ?case
    using index_ensure_compatible_not_Panic [of sketch index]
    by (cases "index_ensure_compatible sketch index") auto
qed simp

lemma ensure_capacity_eq:
  "ensure_capacity n d = (if length (id_to_key d) + n \<le> 4294967295 then Ok () else Err TooManyItems)"
  by (auto simp: ensure_capacity_def checked_add_usize_def err_if_def)

lemma insert_loop:
  fixes hash_band :: "'v list \<Rightarrow> (u64, 'e) result"
  assumes total: "band_total hash_band h" and wf: "index_wf index"
    and "distinct (map fst items)"
    and "\<forall>(key, sketch) \<in> set items. index_lookup index key = None \<and> index_compatible sketch index"
    and "length (band_hashes (idx_data index)) + length items \<le> 4294967295"
  shows "\<exists>index'. fold_result (insert_step hash_band) items index = Ok index'
     \<and> index_wf index' \<and> index'\<lparr>idx_data := idx_data index\<rparr> = index
     \<and> index_lookup index' = index_lookup index ++ (\<lambda>key. map_option (\<lambda>s. sketch_bands h (idx_params index) (hashvalues s)) (map_of items key))"
  using assms(2-)
proof (induction items arbitrary: index)
  case (Cons item items)
  obtain key sketch where item: "item = (key, sketch)" by (cases item)
  let ?bands = "sketch_bands h (idx_params index) (hashvalues sketch)"
  have compat: "index_compatible sketch index" and fresh: "index_lookup index key = None"
    using Cons.prems(3) by (auto simp: item)
  have hashes: "compute_band_hashes hash_band (hashvalues sketch) index = Ok ?bands"
    using compute_band_hashes_eq [OF total Cons.prems(1)] compat by (simp add: index_compatible_def)
  have "length ?bands = length (buckets (idx_data index))"
    using Cons.prems(1) compat length_sketch_bands [of "idx_params index" "idx_num_perm index" "hashvalues sketch" h]
    by (simp add: index_wf_def index_compatible_def)
  moreover have "length (band_hashes (idx_data index)) < 4294967295" using Cons.prems(4) by simp
  ultimately obtain d where d: "(insert_validated key ?bands (idx_data index) :: (index_data, 'e) result) = Ok d" "index_data_inv d"
    "length (buckets d) = length (buckets (idx_data index))"
    "length (band_hashes d) = Suc (length (band_hashes (idx_data index)))"
    "index_data_lookup d = (index_lookup index)(key \<mapsto> ?bands)"
    using insert_validated_law [of "idx_data index" ?bands key, where ?'a = 'e] Cons.prems(1) fresh
    by (auto simp: index_wf_def)
  let ?index = "index\<lparr>idx_data := d\<rparr>"
  have step: "insert_step hash_band item index = Ok ?index"
    by (simp add: insert_step_def item hashes d(1))
  have "\<exists>index'. fold_result (insert_step hash_band) items ?index = Ok index'
     \<and> index_wf index' \<and> index'\<lparr>idx_data := idx_data ?index\<rparr> = ?index
     \<and> index_lookup index' = index_lookup ?index ++ (\<lambda>key. map_option (\<lambda>s. sketch_bands h (idx_params ?index) (hashvalues s)) (map_of items key))"
  proof (rule Cons.IH)
    show "index_wf ?index" using Cons.prems(1) d by (simp add: index_wf_def)
    show "distinct (map fst items)" using Cons.prems(2) by simp
    show "\<forall>(k, s) \<in> set items. index_lookup ?index k = None \<and> index_compatible s ?index"
      using Cons.prems(2,3) by (force simp: d(5) item index_compatible_def)
    show "length (band_hashes (idx_data ?index)) + length items \<le> 4294967295" using Cons.prems(4) d(4) by simp
  qed
  then obtain index' where index': "fold_result (insert_step hash_band) items ?index = Ok index'"
    "index_wf index'" "index'\<lparr>idx_data := d\<rparr> = ?index"
    "index_lookup index' = index_lookup ?index ++ (\<lambda>key. map_option (\<lambda>s. sketch_bands h (idx_params ?index) (hashvalues s)) (map_of items key))"
    by auto
  have "key \<notin> fst ` set items" using Cons.prems(2) by (simp add: item)
  then have "map_of items key = None" by (simp add: map_of_eq_None_iff)
  then have "index_lookup index' = index_lookup index ++ (\<lambda>k. map_option (\<lambda>s. sketch_bands h (idx_params index) (hashvalues s)) (map_of (item # items) k))"
    unfolding index'(4) by (auto simp: d(5) item map_add_def fun_eq_iff split: option.split)
  moreover have "index'\<lparr>idx_data := idx_data index\<rparr> = index"
    using arg_cong [OF index'(3), of "\<lambda>i. i\<lparr>idx_data := idx_data index\<rparr>"] by simp
  ultimately show ?case
    using index'(1,2) step by auto
qed (simp add: map_add_def)

lemma index_insert_many_result:
  assumes total: "band_total hash_band h" and wf: "index_wf index"
  shows "index_insert_many hash_band items index \<noteq> Panic
    \<and> ((\<exists>index'. index_insert_many hash_band items index = Ok index') \<longleftrightarrow>
         distinct (map fst items)
         \<and> (\<forall>(key, sketch) \<in> set items. index_lookup index key = None \<and> index_compatible sketch index)
         \<and> length (id_to_key (idx_data index)) + length items \<le> 4294967295)
    \<and> (\<forall>index'. index_insert_many hash_band items index = Ok index' \<longrightarrow>
         index_wf index' \<and> index'\<lparr>idx_data := idx_data index\<rparr> = index
         \<and> index_lookup index' = index_lookup index
             ++ (\<lambda>key. map_option (\<lambda>s. sketch_bands h (idx_params index) (hashvalues s)) (map_of items key)))"
proof -
  have inv: "index_data_inv (idx_data index)" using wf by (simp add: index_wf_def)
  have fresh: "\<not> hm_contains (key_to_id (idx_data index)) key \<longleftrightarrow> index_lookup index key = None" for key
    by (simp add: index_data_lookup_None [OF inv] hm_contains_def)
  let ?ok = "distinct (map fst items)
         \<and> (\<forall>(key, sketch) \<in> set items. index_lookup index key = None \<and> index_compatible sketch index)"
  have valid: "validate_batch index items [] = Ok () \<longleftrightarrow> ?ok"
    by (simp add: validate_batch_Ok fresh)
  let ?cap = "length (id_to_key (idx_data index)) + length items \<le> 4294967295"
  show ?thesis
  proof (cases "?ok \<and> ?cap")
    case True
    then have "index_insert_many hash_band items index = fold_result (insert_step hash_band) items index"
      using valid by (simp add: index_insert_many_def ensure_capacity_eq)
    moreover note insert_loop [OF total wf, of items]
    ultimately show ?thesis
      using True inv_length [OF inv] by auto
  next
    case False
    have "\<exists>e. index_insert_many hash_band items index = Err e"
    proof (cases "validate_batch index items []")
      case (Ok u)
      with False valid have "\<not> ?cap" by simp
      with Ok show ?thesis by (simp add: index_insert_many_def ensure_capacity_eq)
    qed (use validate_batch_not_Panic in \<open>auto simp: index_insert_many_def\<close>)
    with False show ?thesis by auto
  qed
qed

lemma observer_frame [simp]:
  "index_data_inv (d\<lparr>query_observer := q\<rparr>) \<longleftrightarrow> index_data_inv d"
  "index_data_lookup (d\<lparr>query_observer := q\<rparr>) = index_data_lookup d"
  by (auto simp: index_data_inv_def index_data_lookup_def fun_eq_iff split: option.split)

lemma index_query_result:
  assumes total: "band_total hash_band h" and wf: "index_wf index" and compat: "index_compatible sketch index"
  shows "\<exists>index'. index_query hash_band sketch elapsed index
      = Ok (sorted_list_of_set (band_matches (index_lookup index) (sketch_bands h (idx_params index) (hashvalues sketch))), index')
    \<and> index_wf index' \<and> index_lookup index' = index_lookup index"
proof -
  let ?bands = "sketch_bands h (idx_params index) (hashvalues sketch)"
  have "length ?bands = length (buckets (idx_data index))"
    using wf compat length_sketch_bands [of "idx_params index" "idx_num_perm index" "hashvalues sketch" h]
    by (simp add: index_wf_def index_compatible_def)
  then have "index_data_cands ?bands (idx_data index) = sorted_list_of_set (band_matches (index_lookup index) ?bands)"
    using wf by (intro mem.cands_eq) (simp_all add: index_wf_def)
  moreover have "index_wf (observe q c p e index) \<and> index_lookup (observe q c p e index) = index_lookup index" for q c p e
    using wf by (simp add: index_wf_def observe_def)
  ultimately show ?thesis
    using compute_band_hashes_eq [OF total wf, of "hashvalues sketch"] compat
    by (simp add: index_query_def index_ensure_compatible_Ok Let_def index_data_cands_def index_ensure_compatible_def index_compatible_def)
qed

lemma index_remove_result:
  assumes wf: "index_wf index"
  shows "index_wf (snd (index_remove key index))
    \<and> index_lookup (snd (index_remove key index)) = (index_lookup index)(key := None)
    \<and> (fst (index_remove key index) \<longleftrightarrow> key \<in> dom (index_lookup index))"
  using wf mem.del_law [of "idx_data index" key]
  by (auto simp: index_wf_def index_remove_def Let_def case_prod_beta)

lemma index_with_params_result:
  assumes "num_perm < usize_limit"
  shows "case index_with_params threshold num_perm seed params of
      Ok index \<Rightarrow> index_wf index \<and> index_lookup index = Map.empty \<and> idx_params index = params
        \<and> idx_num_perm index = num_perm \<and> idx_seed index = seed
    | Err e \<Rightarrow> e = InvalidThreshold threshold \<or> e = lsh_error.InvalidPermutationCount num_perm
        \<or> e = InvalidParams (p_bands params) (p_rows params) num_perm
    | Panic \<Rightarrow> False"
  using index_data_new_inv [of "p_bands params"] assms
  by (auto simp: index_with_params_def validate_cases index_wf_def index_data_new_def)

section \<open>Properties of the index\<close>

text \<open>C23: a batch insertion never panics. It succeeds exactly when the keys are distinct and new, the
  sketches have the seed and length of the index, and the identifiers suffice; the index then
  maps each new key to the band hashes of its sketch and every other key as before, and stays
  well formed. In all other cases it fails before the first table changes.\<close>

theorem insert_many_exact:
  assumes "index_wf index"
  shows "LshIndex32_insert_many items index \<noteq> Panic
    \<and> ((\<exists>index'. LshIndex32_insert_many items index = Ok index') \<longleftrightarrow>
         distinct (map fst items)
         \<and> (\<forall>(key, sketch) \<in> set items. index_lookup index key = None \<and> index_compatible sketch index)
         \<and> length (id_to_key (idx_data index)) + length items \<le> 4294967295)
    \<and> (\<forall>index'. LshIndex32_insert_many items index = Ok index' \<longrightarrow>
         index_wf index' \<and> index'\<lparr>idx_data := idx_data index\<rparr> = index
         \<and> index_lookup index' = index_lookup index
             ++ (\<lambda>key. map_option (\<lambda>s. sketch_bands (band_hash ucast) (idx_params index) (hashvalues s)) (map_of items key)))"
  unfolding LshIndex32_insert_many_def
  by (rule index_insert_many_result [OF hash_band32_total assms])

lemma validate_batch_Err:
  "validate_batch index items seen = Err e \<Longrightarrow>
     (\<exists>key. e = DuplicateKey key \<and> key \<in> fst ` set items
        \<and> (hm_contains (key_to_id (idx_data index)) key \<or> key \<in> set seen \<or> \<not> distinct (map fst items)))
     \<or> (\<exists>(key, sketch) \<in> set items. index_ensure_compatible sketch index = Err e \<and> \<not> index_compatible sketch index)"
proof (induction index items seen rule: validate_batch.induct)
  case (2 index key sketch items seen)
  show ?case
  proof (cases "hm_contains (key_to_id (idx_data index)) key \<or> key \<in> set seen")
    case True
    then show ?thesis using 2 by auto
  next
    case False
    then consider "index_ensure_compatible sketch index = Err e"
      | "index_ensure_compatible sketch index = Ok ()" "validate_batch index items (key # seen) = Err e"
      using "2.prems" by (auto simp: and_then_eq_Err)
    then show ?thesis
    proof cases
      case 1
      then have "\<not> index_compatible sketch index" by (simp add: index_ensure_compatible_Ok [of _ _ "()", symmetric])
      with 1 show ?thesis by auto
    next
      case 2
      from "2.IH" [OF False 2(1) 2(2)] show ?thesis by (auto simp: rev_image_eqI)
    qed
  qed
qed simp

text \<open>C24: the error of a failed batch insertion is justified: a duplicate names a key of the batch that
  is stored already or repeated, an incompatibility comes from a sketch of the batch, and the
  capacity error means that more than \<open>2 ^ 32 - 1\<close> identifiers would be needed.\<close>

theorem insert_many_errors:
  assumes "LshIndex64_insert_many items index = Err e" and "index_wf index"
  shows "(\<exists>key. e = DuplicateKey key \<and> key \<in> fst ` set items
        \<and> (key \<in> dom (index_lookup index) \<or> \<not> distinct (map fst items)))
     \<or> (\<exists>(key, sketch) \<in> set items.
          mh_seed sketch \<noteq> idx_seed index \<and> e = lsh_error.IncompatibleSeed (idx_seed index) (mh_seed sketch)
          \<or> mh_seed sketch = idx_seed index \<and> length (hashvalues sketch) \<noteq> idx_num_perm index
            \<and> e = lsh_error.IncompatiblePermutationCount (idx_num_perm index) (length (hashvalues sketch)))
     \<or> (e = TooManyItems \<and> 4294967295 < length (id_to_key (idx_data index)) + length items)"
proof -
  have inv: "index_data_inv (idx_data index)" using assms(2) by (simp add: index_wf_def)
  have contains: "hm_contains (key_to_id (idx_data index)) key \<longleftrightarrow> key \<in> dom (index_lookup index)" for key
    using dom_index_data_lookup [OF inv] by simp
  have compat: "index_ensure_compatible sketch index = Err e \<longleftrightarrow>
       mh_seed sketch \<noteq> idx_seed index \<and> e = lsh_error.IncompatibleSeed (idx_seed index) (mh_seed sketch)
          \<or> mh_seed sketch = idx_seed index \<and> length (hashvalues sketch) \<noteq> idx_num_perm index
            \<and> e = lsh_error.IncompatiblePermutationCount (idx_num_perm index) (length (hashvalues sketch))" for sketch :: minhash64
    by (auto simp: index_ensure_compatible_def)
  consider "validate_batch index items [] = Err e"
    | "validate_batch index items [] = Ok ()" "ensure_capacity (length items) (idx_data index) = Err e"
    | "validate_batch index items [] = Ok ()" "ensure_capacity (length items) (idx_data index) = Ok ()"
    using assms(1) by (auto simp: LshIndex64_insert_many_def index_insert_many_def and_then_eq_Err)
  then show ?thesis
  proof cases
    case 1
    from validate_batch_Err [OF this] show ?thesis unfolding contains compat by auto
  next
    case 2
    then show ?thesis by (simp add: ensure_capacity_eq split: if_splits)
  next
    case 3
    then have "\<exists>index'. LshIndex64_insert_many items index = Ok index'"
      unfolding LshIndex64_insert_many_def
      using index_insert_many_result [OF hash_band64_total assms(2), of items] contains
      by (auto simp: validate_batch_Ok ensure_capacity_eq domIff split: if_splits)
    with assms(1) show ?thesis by simp
  qed
qed

text \<open>C22: a query with a compatible sketch never fails; it returns, in ascending order and without
  repetition, exactly the stored keys that share at least one band with the sketch, and leaves
  the stored data as they are.\<close>

theorem query_exact:
  assumes "index_wf index" and "index_compatible s index" and "index_compatible t index"
  shows "\<exists>index' index''.
      LshIndex32_query s elapsed index
        = Ok (sorted_list_of_set (band_matches (index_lookup index)
                (sketch_bands (band_hash ucast) (idx_params index) (hashvalues s))), index')
    \<and> LshIndex64_query t elapsed index
        = Ok (sorted_list_of_set (band_matches (index_lookup index)
                (sketch_bands (band_hash (\<lambda>v. v)) (idx_params index) (hashvalues t))), index'')
    \<and> index_wf index' \<and> index_lookup index' = index_lookup index
    \<and> index_wf index'' \<and> index_lookup index'' = index_lookup index"
  unfolding LshIndex32_query_def LshIndex64_query_def
  using index_query_result [OF hash_band32_total assms(1,2), of elapsed]
    index_query_result [OF hash_band64_total assms(1,3), of elapsed] by blast

text \<open>A key is always found by its own sketch: after an insertion of a batch, querying with any
  sketch of the batch returns its key.\<close>

lemma inserted_key_is_found:
  assumes "index_wf index" and "LshIndex32_insert_many items index = Ok index'" and "(key, sketch) \<in> set items"
  shows "\<exists>keys index''. LshIndex32_query sketch elapsed index' = Ok (keys, index'') \<and> key \<in> set keys"
proof -
  note ins = index_insert_many_result [OF hash_band32_total assms(1), of items, folded LshIndex32_insert_many_def]
  have wf': "index_wf index'" and frame: "index'\<lparr>idx_data := idx_data index\<rparr> = index"
    and look: "index_lookup index' = index_lookup index
      ++ (\<lambda>key. map_option (\<lambda>s. sketch_bands (band_hash ucast) (idx_params index) (hashvalues s)) (map_of items key))"
    and dist: "distinct (map fst items)" and compat: "index_compatible sketch index"
    using ins assms(2,3) by auto
  have same: "idx_params index' = idx_params index" "idx_seed index' = idx_seed index" "idx_num_perm index' = idx_num_perm index"
    using arg_cong [OF frame, of idx_params] arg_cong [OF frame, of idx_seed] arg_cong [OF frame, of idx_num_perm] by simp_all
  let ?bands = "sketch_bands (band_hash ucast) (idx_params index) (hashvalues sketch)"
  have "map_of items key = Some sketch" using dist assms(3) by simp
  then have "index_lookup index' key = Some ?bands" by (simp add: look)
  moreover have "0 < length (buckets (idx_data index'))" and "index_data_inv (idx_data index')"
    using wf' by (simp_all add: index_wf_def params_valid_def del: length_greater_0_conv)
  ultimately have "key \<in> set (index_data_cands ?bands (idx_data index'))"
    by (intro mem.cands_self)
  moreover have "length ?bands = length (buckets (idx_data index'))"
    using wf' compat length_sketch_bands [of "idx_params index" "idx_num_perm index" "hashvalues sketch" "band_hash ucast"]
    by (simp add: index_wf_def index_compatible_def same)
  moreover have "index_compatible sketch index'" using compat by (simp add: index_compatible_def same)
  ultimately show ?thesis
    using index_query_result [OF hash_band32_total wf', of sketch elapsed] mem.cands_eq [of "idx_data index'" ?bands] wf'
    by (auto simp: LshIndex32_query_def same index_wf_def)
qed

text \<open>C25: removal reports whether the key was stored, drops exactly this key, and keeps the index well
  formed; the key is never a candidate afterwards, and a removal undoes an insertion for every
  query.\<close>

theorem remove_exact:
  assumes "index_wf index"
  shows "index_wf (snd (index_remove key index))
    \<and> index_lookup (snd (index_remove key index)) = (index_lookup index)(key := None)
    \<and> (fst (index_remove key index) \<longleftrightarrow> key \<in> dom (index_lookup index))
    \<and> (\<forall>hs. length hs = p_bands (idx_params index) \<longrightarrow>
         set (index_data_cands hs (idx_data (snd (index_remove key index))))
           = set (index_data_cands hs (idx_data index)) - {key})"
proof -
  note r = index_remove_result [OF assms, of key]
  have "set (index_data_cands hs (idx_data (snd (index_remove key index))))
      = set (index_data_cands hs (idx_data index)) - {key}" if "length hs = p_bands (idx_params index)" for hs
  proof -
    have "idx_params (snd (index_remove key index)) = idx_params index"
      by (simp add: index_remove_def case_prod_beta)
    then show ?thesis
      using r assms that by (simp add: index_wf_def mem.cands_law band_matches_del)
  qed
  with r show ?thesis by blast
qed

text \<open>C3: after any history of admissible insertions and removals from an empty index, the tables answer
  every query exactly as the plain map that the history describes, although identifiers are
  never reused and buckets of removed keys disappear.\<close>

theorem index_history:
  assumes "ops_ok w ops Map.empty" and "length ops \<le> 4294967295" and "length hs = w"
  shows "\<exists>d. (run_ops insert_validated index_data_remove ops (index_data_new w) :: (index_data, lsh_error) result) = Ok d
    \<and> index_data_inv d \<and> index_data_lookup d = fold spec_op ops Map.empty
    \<and> index_data_cands hs d = sorted_list_of_set (band_matches (fold spec_op ops Map.empty) hs)
    \<and> index_data_len d = card (dom (fold spec_op ops Map.empty))"
proof -
  have new: "index_data_inv (index_data_new w)" "index_data_lookup (index_data_new w) = Map.empty"
    "length (buckets (index_data_new w)) = w" "index_data_room (index_data_new w) = 4294967295"
    using index_data_new_inv [of w] by (simp_all add: index_data_new_def index_data_room_def)
  obtain d where d: "(run_ops insert_validated index_data_remove ops (index_data_new w) :: (index_data, lsh_error) result) = Ok d"
    "index_data_inv d" "length (buckets d) = w" "index_data_lookup d = fold spec_op ops Map.empty"
    using mem.run_ops_law [of "index_data_new w" ops] assms new by auto
  then show ?thesis
    using mem.cands_eq [OF d(2), of hs] assms(3) index_data_len_eq [OF d(2)] by simp
qed

text \<open>C26: changing one value of a band changes its hash, for both widths.\<close>

theorem band_hash_detects_change:
  assumes "i < length xs" and "v \<noteq> xs ! i" and "j < length ys" and "w \<noteq> ys ! j"
    and "length xs < usize_limit" and "length ys < usize_limit"
  shows "(hash_band32 (xs[i := v]) :: (u64, lsh_error) result) \<noteq> hash_band32 xs
    \<and> (hash_band64 (ys[j := w]) :: (u64, lsh_error) result) \<noteq> hash_band64 ys"
proof -
  have "inj (ucast :: u32 \<Rightarrow> u64)"
    by (rule inj_on_inverseI [where g = ucast], rule bit_word_eqI) (simp add: bit_ucast_iff)
  then show ?thesis
    using hash_band32_total [where ?'a = lsh_error] hash_band64_total [where ?'a = lsh_error]
      band_hash_single_change [of "ucast :: u32 \<Rightarrow> u64" i xs v] band_hash_single_change [of "\<lambda>v. v" j ys w] assms
    by (simp add: band_total_def inj_def)
qed

section \<open>Batched queries\<close>

text \<open>A batched query returns the results of the single queries in order, or the error of the first
  sketch that fails.\<close>

lemma query_many_is_map:
  "and_then (index_query_many hash_band sketches elapsed index) (\<lambda>r. Ok (fst r))
     = try_map (\<lambda>sketch. and_then (index_query hash_band sketch t index) (\<lambda>r. Ok (fst r))) sketches"
proof -
  let ?q = "\<lambda>sketch. and_then (index_query hash_band sketch t index) (\<lambda>r. Ok (fst r))"
  let ?f = "\<lambda>sketch (output, candidate_count).
         and_then (index_ensure_compatible sketch index) (\<lambda>_.
         and_then (compute_band_hashes hash_band (hashvalues sketch) index) (\<lambda>hashes.
         let keys = keys_for_candidates (collect_candidate_ids hashes (idx_data index) []) (idx_data index)
         in Ok (output @ [keys], saturating_add_usize candidate_count (length keys))))"
  have "?f sketch (out, n) = and_then (?q sketch) (\<lambda>keys. Ok (out @ [keys], saturating_add_usize n (length keys)))"
    for sketch out n
    by (cases "index_ensure_compatible sketch index"; cases "compute_band_hashes hash_band (hashvalues sketch) index")
      (simp_all add: index_query_def Let_def)
  then have "fold_result ?f sketches ([], 0)
      = and_then (try_map ?q sketches) (\<lambda>ks. Ok ([] @ ks, fold (\<lambda>k n. saturating_add_usize n (length k)) ks 0))"
    by (rule fold_collect)
  then show ?thesis
    unfolding index_query_many_def by (cases "try_map ?q sketches") simp_all
qed

section \<open>Instances\<close>

text \<open>An empty index of two permutations in one band, and two sketches for it.\<close>

definition example_index :: lsh_index where
  "example_index = \<lparr>idx_threshold = f64_half, idx_num_perm = 2, idx_seed = 42,
     idx_params = \<lparr>p_bands = 2, p_rows = 1\<rparr>, idx_data = index_data_new 2\<rparr>"

definition example_sketch :: "'v list \<Rightarrow> 'v minhash" where
  "example_sketch hashes = \<lparr>mh_seed = 42, hashvalues = hashes, multipliers = [], offsets = []\<rparr>"

lemma example_index_wf: "index_wf example_index" and example_index_empty: "index_lookup example_index = Map.empty"
  using index_data_new_inv [of 2]
  by (simp_all add: index_wf_def example_index_def params_valid_def) (simp_all add: index_data_new_def)

lemma example_compatible: "length xs = 2 \<Longrightarrow> index_compatible (example_sketch xs) example_index"
  by (simp add: index_compatible_def example_sketch_def example_index_def)

lemma example_insert:
  "\<exists>index'. LshIndex32_insert_many [(7, example_sketch [1, 2]), (9, example_sketch [1, 3])] example_index = Ok index'"
  unfolding LshIndex32_insert_many_def
  using index_insert_many_result [OF hash_band32_total example_index_wf,
      of "[(7, example_sketch [1, 2]), (9, example_sketch [1, 3])]"]
  by (simp add: example_compatible example_index_empty) (simp add: example_index_def index_data_new_def)

theorem insert_many_exact_witness:
  "\<exists>index'. LshIndex32_insert_many [(7, example_sketch [1, 2]), (9, example_sketch [1, 3])] example_index = Ok index'
    \<and> index_wf index' \<and> dom (index_lookup index') = {7, 9}"
proof -
  obtain index' where ok: "LshIndex32_insert_many [(7, example_sketch [1, 2]), (9, example_sketch [1, 3])] example_index = Ok index'"
    using example_insert by blast
  then show ?thesis
    using insert_many_exact [OF example_index_wf, of "[(7, example_sketch [1, 2]), (9, example_sketch [1, 3])]"]
    by (auto simp: example_index_empty dom_def)
qed

theorem insert_many_errors_witness:
  "LshIndex64_insert_many [(7, example_sketch [1, 2]), (7, example_sketch [1, 3])] example_index = Err (DuplicateKey 7)
   \<and> \<not> distinct (map fst [(7 :: u64, example_sketch [1 :: u64, 2]), (7, example_sketch [1, 3])])"
proof -
  have err: "LshIndex64_insert_many [(7, example_sketch [1, 2]), (7, example_sketch [1, 3])] example_index = Err (DuplicateKey 7)"
    by (simp add: LshIndex64_insert_many_def index_insert_many_def index_ensure_compatible_def
        example_sketch_def example_index_def index_data_new_def hm_contains_def)
  show ?thesis
    using insert_many_errors [OF err example_index_wf] err by (auto simp: example_index_empty)
qed

theorem query_exact_witness:
  "\<exists>index'. LshIndex32_query (example_sketch [1, 2]) 0 example_index = Ok ([], index')"
  using query_exact [OF example_index_wf example_compatible [of "[1, 2]"] example_compatible [of "[1, 2]"], of 0]
  by (auto simp: example_index_empty band_matches_def)

theorem remove_exact_witness:
  "\<not> fst (index_remove 5 example_index) \<and> index_lookup (snd (index_remove 5 example_index)) = Map.empty"
  using remove_exact [OF example_index_wf, of 5] by (simp add: example_index_empty)

theorem index_history_witness:
  "\<exists>d. (run_ops insert_validated index_data_remove [OpInsert 7 [1, 2], OpInsert 9 [1, 3], OpRemove 7] (index_data_new 2)
        :: (index_data, lsh_error) result) = Ok d
     \<and> index_data_cands [1, 2] d = [9]"
  using index_history [of 2 "[OpInsert 7 [1, 2], OpInsert 9 [1, 3], OpRemove 7]" "[1, 2]"]
  by (auto simp: band_matches_upd band_matches_del shares_band_def) (auto simp: band_matches_def)

theorem band_hash_detects_change_witness:
  "(hash_band32 [1, 2, 4] :: (u64, lsh_error) result) \<noteq> hash_band32 [1, 2, 3]"
  using band_hash_detects_change [of 2 "[1, 2, 3]" 4 0 "[1]" 2] by (simp add: numeral_2_eq_2)

end
