(* ===== verification/Pari_UnionFind.thy ===== *)
theory Pari_UnionFind
  imports Pari_Maps
begin

text \<open>
  Crate \<open>pari-index\<close>, the disjoint-set forest (\<open>crates/pari-index/src/grouping.rs\<close>, \<open>UnionFind\<close>). The two
  loops of \<open>find\<close> are partial functions: \<open>None\<close> is a loop that does not end or an index out of
  range. On a well-formed forest both return. \<open>root_in\<close> is the number of steps from a node to
  its root; path compression never lengthens a path and keeps every root, and a union joins
  exactly two trees, whatever the (saturating) ranks are.

  The locale \<open>partition\<close> states the contract of a disjoint-set structure and derives from it that
  the unions of a list of edges give the connectivity of the edges. It is interpreted on
  \<open>UnionFind\<close>.
\<close>

section \<open>Definitions\<close>

record union_find =
  parent :: "usize list"
  rank :: "u8 list"

definition uf_with_len :: "usize \<Rightarrow> union_find" where
  "uf_with_len n = \<lparr>parent = [0..<n], rank = replicate n 0\<rparr>"

definition uf_len :: "union_find \<Rightarrow> usize" where
  "uf_len u = length (parent u)"

definition uf_push :: "union_find \<Rightarrow> union_find" where
  "uf_push u = u\<lparr>parent := parent u @ [length (parent u)], rank := rank u @ [0]\<rparr>"

text \<open>The first loop of \<open>find\<close> walks to the root, the second points every node of the path at it.\<close>

partial_function (option) find_root :: "usize list \<Rightarrow> usize \<Rightarrow> usize option" where
  "find_root p root =
     (if root < length p
      then if p ! root \<noteq> root then find_root p (p ! root) else Some root
      else None)"

partial_function (option) compress_path :: "usize \<Rightarrow> usize list \<Rightarrow> usize \<Rightarrow> usize list option" where
  "compress_path root p current =
     (if current < length p
      then if p ! current \<noteq> current then compress_path root (p[current := root]) (p ! current) else Some p
      else None)"

definition uf_find :: "usize \<Rightarrow> union_find \<Rightarrow> (usize \<times> union_find) option" where
  "uf_find node u =
     Option.bind (find_root (parent u) node) (\<lambda>root.
     Option.bind (compress_path root (parent u) node) (\<lambda>p.
     Some (root, u\<lparr>parent := p\<rparr>)))"

definition uf_connected :: "usize \<Rightarrow> usize \<Rightarrow> union_find \<Rightarrow> (bool \<times> union_find) option" where
  "uf_connected left right u =
     Option.bind (uf_find left u) (\<lambda>(l, u).
     Option.bind (uf_find right u) (\<lambda>(r, u). Some (l = r, u)))"

definition uf_union :: "usize \<Rightarrow> usize \<Rightarrow> union_find \<Rightarrow> union_find option" where
  "uf_union left right u =
     Option.bind (uf_find left u) (\<lambda>(l, u).
     Option.bind (uf_find right u) (\<lambda>(r, u).
     if l = r then Some u
     else if \<not> (l < length (rank u) \<and> r < length (rank u)) then None
     else let (l, r) = (if rank u ! l < rank u ! r then (r, l) else (l, r));
              u = u\<lparr>parent := (parent u)[r := l]\<rparr>
          in Some (if rank u ! l = rank u ! r
                   then u\<lparr>rank := (rank u)[l := saturating_add (rank u ! l) 1]\<rparr> else u)))"

section \<open>Roots\<close>

fun root_in :: "usize list \<Rightarrow> nat \<Rightarrow> usize \<Rightarrow> usize \<Rightarrow> bool" where
  "root_in p 0 i r \<longleftrightarrow> i = r \<and> r < length p \<and> p ! r = r"
| "root_in p (Suc n) i r \<longleftrightarrow> i < length p \<and> p ! i \<noteq> i \<and> root_in p n (p ! i) r"

definition uf_root :: "usize list \<Rightarrow> usize \<Rightarrow> usize \<Rightarrow> bool" where
  "uf_root p i r \<longleftrightarrow> (\<exists>n. root_in p n i r)"

definition uf_wf :: "union_find \<Rightarrow> bool" where
  "uf_wf u \<longleftrightarrow> length (rank u) = length (parent u) \<and> (\<forall>i < length (parent u). \<exists>r. uf_root (parent u) i r)"

definition uf_same :: "union_find \<Rightarrow> usize \<Rightarrow> usize \<Rightarrow> bool" where
  "uf_same u i j \<longleftrightarrow> (\<exists>r. uf_root (parent u) i r \<and> uf_root (parent u) j r)"

lemma root_in_unique: "root_in p n i r \<Longrightarrow> root_in p m i s \<Longrightarrow> n = m \<and> r = s"
proof (induction p n i r arbitrary: m rule: root_in.induct)
  case (1 p i r)
  then show ?case by (cases m) auto
next
  case (2 p n i r)
  then show ?case by (cases m) auto
qed

lemma uf_root_unique: "uf_root p i r \<Longrightarrow> uf_root p i s \<Longrightarrow> r = s"
  using root_in_unique by (auto simp: uf_root_def)

lemma root_in_root: "root_in p n i r \<Longrightarrow> i < length p \<and> r < length p \<and> p ! r = r"
  by (induction p n i r rule: root_in.induct) auto

lemma uf_root_root: "uf_root p i r \<Longrightarrow> i < length p \<and> r < length p \<and> p ! r = r \<and> uf_root p r r"
proof -
  assume "uf_root p i r"
  then obtain n where "root_in p n i r" by (auto simp: uf_root_def)
  note facts = root_in_root [OF this]
  then have "root_in p 0 r r" by simp
  with facts show ?thesis unfolding uf_root_def by blast
qed

lemma find_root_eq: "root_in p n i r \<Longrightarrow> find_root p i = Some r"
proof (induction p n i r rule: root_in.induct)
  case (1 p i r)
  then show ?case by (subst find_root.simps) simp
next
  case (2 p n i r)
  then show ?case by (subst find_root.simps) simp
qed

lemma root_in_shortcut:
  assumes "root_in p m c root" and "p ! c \<noteq> c" and "root_in p n i r"
  shows "\<exists>n' \<le> n. root_in (p[c := root]) n' i r"
  using assms(3)
proof (induction n arbitrary: i)
  case 0
  then have "c \<noteq> r" using assms(2) by auto
  with 0 have "root_in (p[c := root]) 0 i r" by simp
  then show ?case by blast
next
  case (Suc n)
  have root: "root < length p" "p ! root = root" using root_in_root [OF assms(1)] by simp_all
  show ?case
  proof (cases "i = c")
    case True
    then have "r = root" using root_in_unique [OF Suc.prems] assms(1) by blast
    moreover have "root \<noteq> c" using root assms(2) by auto
    ultimately have "root_in (p[c := root]) 1 i r" using True root root_in_root [OF Suc.prems] by simp
    then show ?thesis by (intro exI [of _ 1]) simp
  next
    case False
    obtain n' where "n' \<le> n" "root_in (p[c := root]) n' (p ! i) r" using Suc by auto
    then have "root_in (p[c := root]) (Suc n') i r" using False Suc.prems by simp
    with \<open>n' \<le> n\<close> show ?thesis by (intro exI [of _ "Suc n'"]) simp
  qed
qed

text \<open>Compression returns and keeps every root.\<close>

lemma compress_path_law:
  assumes "root_in p n c root"
  shows "\<exists>q. compress_path root p c = Some q \<and> length q = length p \<and> (\<forall>i r. uf_root p i r \<longrightarrow> uf_root q i r)"
  using assms
proof (induction n arbitrary: p c rule: less_induct)
  case (less n)
  show ?case
  proof (cases n)
    case 0
    with less.prems show ?thesis by (subst compress_path.simps) auto
  next
    case (Suc m)
    then have c: "c < length p" "p ! c \<noteq> c" "root_in p m (p ! c) root" using less.prems by auto
    let ?p = "p[c := root]"
    note short = root_in_shortcut [OF less.prems c(2)]
    obtain k where "k \<le> m" "root_in ?p k (p ! c) root" using short [OF c(3)] by blast
    moreover from this Suc obtain q where "compress_path root ?p (p ! c) = Some q" "length q = length p"
      "\<forall>i r. uf_root ?p i r \<longrightarrow> uf_root q i r"
      using less.IH [of k ?p "p ! c"] by auto
    moreover have "\<forall>i r. uf_root p i r \<longrightarrow> uf_root ?p i r" using short unfolding uf_root_def by blast
    ultimately show ?thesis using c by (subst compress_path.simps) auto
  qed
qed

lemma uf_root_preserved_iff:
  assumes "\<forall>i r. uf_root p i r \<longrightarrow> uf_root q i r" and "length q = length p"
    and "\<forall>i < length p. \<exists>r. uf_root p i r"
  shows "uf_root q i r \<longleftrightarrow> uf_root p i r"
  using assms by (metis uf_root_root uf_root_unique)

lemma uf_find_law:
  assumes "uf_wf u" and "node < uf_len u"
  shows "\<exists>root u'. uf_find node u = Some (root, u') \<and> uf_root (parent u) node root \<and> uf_wf u'
    \<and> uf_len u' = uf_len u \<and> rank u' = rank u \<and> (\<forall>i r. uf_root (parent u') i r \<longleftrightarrow> uf_root (parent u) i r)"
proof -
  have total: "\<forall>i < length (parent u). \<exists>r. uf_root (parent u) i r" using assms(1) by (simp add: uf_wf_def)
  then obtain n root where n: "root_in (parent u) n node root"
    using assms(2) by (auto simp: uf_len_def uf_root_def)
  then obtain q where q: "compress_path root (parent u) node = Some q" "length q = length (parent u)"
    "\<forall>i r. uf_root (parent u) i r \<longrightarrow> uf_root q i r"
    using compress_path_law by blast
  note iff = uf_root_preserved_iff [OF q(3,2) total]
  show ?thesis
    using find_root_eq [OF n] n q iff total assms(1)
    by (auto simp: uf_find_def uf_wf_def uf_len_def uf_root_def)
qed

lemma link_roots:
  assumes "uf_root p l l" and "uf_root p k k" and "l \<noteq> k" and "uf_root p i r"
  shows "uf_root (p[k := l]) i (if r = k then l else r)"
proof -
  have l: "l < length p" "p ! l = l" and k: "k < length p" "p ! k = k"
    using uf_root_root [OF assms(1)] uf_root_root [OF assms(2)] by simp_all
  obtain n where "root_in p n i r" using assms(4) by (auto simp: uf_root_def)
  then show ?thesis
  proof (induction n arbitrary: i)
    case 0
    show ?case
    proof (cases "r = k")
      case True
      then have "root_in (p[k := l]) 1 i l" using 0 l k assms(3) by simp
      then have "uf_root (p[k := l]) i l" unfolding uf_root_def by blast
      with True show ?thesis by simp
    next
      case False
      then have "root_in (p[k := l]) 0 i r" using 0 by simp
      then have "uf_root (p[k := l]) i r" unfolding uf_root_def by blast
      with False show ?thesis by simp
    qed
  next
    case (Suc n)
    then have i: "i < length p" "p ! i \<noteq> i" and "root_in p n (p ! i) r" by auto
    from Suc.IH [OF this(3)] obtain m where "root_in (p[k := l]) m (p ! i) (if r = k then l else r)"
      by (auto simp: uf_root_def)
    moreover have "i \<noteq> k" using i k by auto
    ultimately have "root_in (p[k := l]) (Suc m) i (if r = k then l else r)" using i by simp
    then show ?case unfolding uf_root_def by blast
  qed
qed

lemma link_same:
  assumes total: "\<forall>i < length p. \<exists>r. uf_root p i r"
    and roots: "uf_root p a l" "uf_root p b k" "l \<noteq> k" "q = p[k := l]"
  shows "(\<forall>i < length q. \<exists>r. uf_root q i r)
    \<and> ((\<exists>r. uf_root q i r \<and> uf_root q j r) \<longleftrightarrow>
        (\<exists>r. uf_root p i r \<and> uf_root p j r)
        \<or> (uf_root p i l \<and> uf_root p j k) \<or> (uf_root p i k \<and> uf_root p j l))"
proof -
  have l: "uf_root p l l" and k: "uf_root p k k" using uf_root_root roots by blast+
  note link = link_roots [OF l k roots(3), folded roots(4)]
  have len: "length q = length p" using roots(4) by simp
  have tot: "\<forall>i < length q. \<exists>r. uf_root q i r" using total link len by metis
  have iff: "uf_root q i s \<longleftrightarrow> (\<exists>r. uf_root p i r \<and> s = (if r = k then l else r))" for i s
  proof
    assume q: "uf_root q i s"
    then have "i < length p" using uf_root_root [OF q] len by simp
    then obtain r where r: "uf_root p i r" using total by blast
    then show "\<exists>r. uf_root p i r \<and> s = (if r = k then l else r)"
      using uf_root_unique [OF q link [OF r]] by blast
  qed (use link in blast)
  have "(\<exists>r. uf_root q i r \<and> uf_root q j r) \<longleftrightarrow>
      (\<exists>r s. uf_root p i r \<and> uf_root p j s \<and> (if r = k then l else r) = (if s = k then l else s))"
    unfolding iff by blast
  also have "\<dots> \<longleftrightarrow> (\<exists>r. uf_root p i r \<and> uf_root p j r)
        \<or> (uf_root p i l \<and> uf_root p j k) \<or> (uf_root p i k \<and> uf_root p j l)" (is "?merged \<longleftrightarrow> ?parts")
  proof
    assume ?merged
    then obtain r s where "uf_root p i r" "uf_root p j s" "(if r = k then l else r) = (if s = k then l else s)" by blast
    then show ?parts by (cases "r = k"; cases "s = k") auto
  next
    have eq: "(if l = k then l else l) = (if k = k then l else k)" "(if k = k then l else k) = (if l = k then l else l)"
      by simp_all
    assume ?parts
    then show ?merged using eq by blast
  qed
  finally show ?thesis using tot by blast
qed

lemma uf_same_refl: "uf_wf u \<Longrightarrow> i < uf_len u \<Longrightarrow> uf_same u i i"
  by (auto simp: uf_same_def uf_wf_def uf_len_def)

lemma uf_same_sym: "uf_same u i j \<Longrightarrow> uf_same u j i"
  by (auto simp: uf_same_def)

lemma uf_same_trans: "uf_same u i j \<Longrightarrow> uf_same u j k \<Longrightarrow> uf_same u i k"
  by (auto simp: uf_same_def dest: uf_root_unique)

lemma uf_same_range: "uf_same u i j \<Longrightarrow> i < uf_len u \<and> j < uf_len u"
  by (auto simp: uf_same_def uf_len_def dest: uf_root_root)

lemma uf_same_root: "uf_root (parent u) a r \<Longrightarrow> uf_same u i a \<longleftrightarrow> uf_root (parent u) i r"
  by (auto simp: uf_same_def dest: uf_root_unique)

lemma uf_union_law:
  assumes "uf_wf u" and "a < uf_len u" and "b < uf_len u"
  shows "\<exists>u'. uf_union a b u = Some u' \<and> uf_wf u' \<and> uf_len u' = uf_len u
    \<and> (\<forall>i j. uf_same u' i j \<longleftrightarrow> uf_same u i j \<or> uf_same u i a \<and> uf_same u b j \<or> uf_same u i b \<and> uf_same u a j)"
proof -
  obtain l u1 where l: "uf_find a u = Some (l, u1)" "uf_root (parent u) a l" "uf_wf u1" "uf_len u1 = uf_len u"
    "\<forall>i r. uf_root (parent u1) i r \<longleftrightarrow> uf_root (parent u) i r"
    using uf_find_law [OF assms(1,2)] by blast
  obtain k u2 where k: "uf_find b u1 = Some (k, u2)" "uf_root (parent u1) b k" "uf_wf u2" "uf_len u2 = uf_len u1"
    "\<forall>i r. uf_root (parent u2) i r \<longleftrightarrow> uf_root (parent u1) i r"
    using uf_find_law [OF l(3), of b] assms(3) l(4) by auto
  have roots: "uf_root (parent u2) i r \<longleftrightarrow> uf_root (parent u) i r" for i r using l(5) k(5) by simp
  have same2: "uf_same u2 i j \<longleftrightarrow> uf_same u i j" for i j by (simp add: uf_same_def roots)
  have bk: "uf_root (parent u) b k" using k(2) l(5) by simp
  show ?thesis
  proof (cases "l = k")
    case True
    then have "uf_union a b u = Some u2" using l(1) k(1) by (simp add: uf_union_def)
    moreover have "uf_same u a b" using l(2) bk True by (auto simp: uf_same_def)
    ultimately show ?thesis
      using k(3,4) l(4) same2 by (auto dest: uf_same_trans uf_same_sym)
  next
    case False
    have rng: "l < length (rank u2)" "k < length (rank u2)"
      using uf_root_root [OF l(2)] uf_root_root [OF bk] k(3,4) l(4) by (simp_all add: uf_wf_def uf_len_def)
    have total: "\<forall>i < length (parent u2). \<exists>r. uf_root (parent u2) i r" and rk: "length (rank u2) = length (parent u2)"
      using k(3) by (simp_all add: uf_wf_def)
    define c where "c = (if rank u2 ! l < rank u2 ! k then (k, l) else (l, k))"
    let ?q = "(parent u2)[snd c := fst c]"
    have "\<exists>u'. uf_union a b u = Some u' \<and> parent u' = ?q \<and> length (rank u') = length (rank u2)"
      using l(1) k(1) False rng
      by (cases "rank u2 ! l < rank u2 ! k") (simp_all add: uf_union_def c_def Let_def)
    then obtain u' where u': "uf_union a b u = Some u'" "parent u' = ?q" "length (rank u') = length (rank u2)"
      by blast
    have la: "uf_root (parent u2) a l" and kb: "uf_root (parent u2) b k" using l(2) bk roots by simp_all
    have link: "(\<forall>i < length ?q. \<exists>r. uf_root ?q i r)
      \<and> ((\<exists>r. uf_root ?q i r \<and> uf_root ?q j r) \<longleftrightarrow> (\<exists>r. uf_root (parent u2) i r \<and> uf_root (parent u2) j r)
        \<or> (uf_root (parent u2) i l \<and> uf_root (parent u2) j k) \<or> (uf_root (parent u2) i k \<and> uf_root (parent u2) j l))" for i j
      using link_same [OF total la kb False, of ?q i j] link_same [OF total kb la, of ?q i j] False
      by (auto simp: c_def)
    have "uf_wf u'" and "uf_len u' = uf_len u"
      using link rk u'(2,3) k(4) l(4) by (simp_all add: uf_wf_def uf_len_def)
    moreover have "uf_same u' i j \<longleftrightarrow> uf_same u i j \<or> uf_same u i a \<and> uf_same u b j \<or> uf_same u i b \<and> uf_same u a j" for i j
    proof -
      have ends: "uf_same u n a \<longleftrightarrow> uf_root (parent u) n l" "uf_same u a n \<longleftrightarrow> uf_root (parent u) n l"
        "uf_same u n b \<longleftrightarrow> uf_root (parent u) n k" "uf_same u b n \<longleftrightarrow> uf_root (parent u) n k" for n
        using uf_same_root [OF l(2), of n] uf_same_root [OF bk, of n] uf_same_sym [of u] by blast+
      show ?thesis
        unfolding ends using link [of i j] by (simp add: uf_same_def u'(2) roots)
    qed
    ultimately show ?thesis using u'(1) by blast
  qed
qed

section \<open>The contract of a disjoint-set structure\<close>

text \<open>Nodes are connected by edges when a path of edges, in either direction, leads from one to
  the other.\<close>

definition connected_by :: "('a \<times> 'a) set \<Rightarrow> ('a \<times> 'a) set" where
  "connected_by E = (E \<union> E\<inverse>)\<^sup>*"

lemma connected_by_refl: "(i, i) \<in> connected_by E"
  by (simp add: connected_by_def)

lemma connected_by_sym: "(i, j) \<in> connected_by E \<Longrightarrow> (j, i) \<in> connected_by E"
  unfolding connected_by_def by (metis sym_Un_converse sym_rtrancl symD)

lemma connected_by_trans: "(i, j) \<in> connected_by E \<Longrightarrow> (j, k) \<in> connected_by E \<Longrightarrow> (i, k) \<in> connected_by E"
  unfolding connected_by_def by (rule rtrancl_trans)

lemma connected_by_edge: "(i, j) \<in> E \<Longrightarrow> (i, j) \<in> connected_by E"
  unfolding connected_by_def by blast

lemma connected_by_mono: "E \<subseteq> F \<Longrightarrow> connected_by E \<subseteq> connected_by F"
  unfolding connected_by_def by (intro rtrancl_mono) blast

lemma connected_by_least:
  assumes "(i, j) \<in> connected_by E" and "\<And>x. P x x" and "\<And>x y. P x y \<Longrightarrow> P y x"
    and "\<And>x y z. P x y \<Longrightarrow> P y z \<Longrightarrow> P x z" and "\<And>x y. (x, y) \<in> E \<Longrightarrow> P x y"
  shows "P i j"
  using assms(1) unfolding connected_by_def
  by (induction rule: rtrancl_induct) (use assms(2-) in blast)+

lemma connected_by_insert:
  "(i, j) \<in> connected_by (insert (a, b) E) \<longleftrightarrow>
     (i, j) \<in> connected_by E \<or> (i, a) \<in> connected_by E \<and> (b, j) \<in> connected_by E
     \<or> (i, b) \<in> connected_by E \<and> (a, j) \<in> connected_by E"
proof
  assume "(i, j) \<in> connected_by (insert (a, b) E)"
  then show "(i, j) \<in> connected_by E \<or> (i, a) \<in> connected_by E \<and> (b, j) \<in> connected_by E
     \<or> (i, b) \<in> connected_by E \<and> (a, j) \<in> connected_by E"
  proof (rule connected_by_least)
    fix x y assume "(x, y) \<in> insert (a, b) E"
    then show "(x, y) \<in> connected_by E \<or> (x, a) \<in> connected_by E \<and> (b, y) \<in> connected_by E
       \<or> (x, b) \<in> connected_by E \<and> (a, y) \<in> connected_by E"
      by (auto intro: connected_by_refl connected_by_edge)
  qed (blast intro: connected_by_refl connected_by_sym connected_by_trans)+
next
  have "connected_by E \<subseteq> connected_by (insert (a, b) E)" by (rule connected_by_mono) blast
  moreover have "(a, b) \<in> connected_by (insert (a, b) E)" by (rule connected_by_edge) simp
  moreover assume "(i, j) \<in> connected_by E \<or> (i, a) \<in> connected_by E \<and> (b, j) \<in> connected_by E
     \<or> (i, b) \<in> connected_by E \<and> (a, j) \<in> connected_by E"
  ultimately show "(i, j) \<in> connected_by (insert (a, b) E)"
    by (meson connected_by_sym connected_by_trans subsetD)
qed

locale partition =
  fixes invar :: "'s \<Rightarrow> bool"
    and size_of :: "'s \<Rightarrow> nat"
    and same :: "'s \<Rightarrow> nat \<Rightarrow> nat \<Rightarrow> bool"
    and make :: "nat \<Rightarrow> 's"
    and join :: "nat \<Rightarrow> nat \<Rightarrow> 's \<Rightarrow> 's option"
    and find :: "nat \<Rightarrow> 's \<Rightarrow> (nat \<times> 's) option"
  assumes make_law: "invar (make n) \<and> size_of (make n) = n \<and> (same (make n) i j \<longleftrightarrow> i = j \<and> i < n)"
    and same_equiv: "invar s \<Longrightarrow> i < size_of s \<Longrightarrow> same s i i" "same s i j \<Longrightarrow> same s j i"
      "same s i j \<Longrightarrow> same s j k \<Longrightarrow> same s i k" "same s i j \<Longrightarrow> i < size_of s \<and> j < size_of s"
    and join_law: "invar s \<Longrightarrow> a < size_of s \<Longrightarrow> b < size_of s \<Longrightarrow>
      \<exists>s'. join a b s = Some s' \<and> invar s' \<and> size_of s' = size_of s
        \<and> (\<forall>i j. same s' i j \<longleftrightarrow> same s i j \<or> same s i a \<and> same s b j \<or> same s i b \<and> same s a j)"
    and find_law: "invar s \<Longrightarrow> i < size_of s \<Longrightarrow>
      \<exists>r s'. find i s = Some (r, s') \<and> invar s' \<and> size_of s' = size_of s \<and> same s i r \<and> same s' = same s"
    and find_canonical: "invar s \<Longrightarrow> same s i j \<Longrightarrow> find i s = Some (r, s1) \<Longrightarrow> find j s = Some (q, s2) \<Longrightarrow> r = q"
begin

text \<open>A structure represents a set of edges when its classes are the connected components.\<close>

definition represents :: "'s \<Rightarrow> (nat \<times> nat) set \<Rightarrow> bool" where
  "represents s E \<longleftrightarrow> invar s \<and>
     (\<forall>i j. same s i j \<longleftrightarrow> i < size_of s \<and> j < size_of s \<and> (i, j) \<in> connected_by E)"

lemma make_represents: "represents (make n) {}"
  using make_law [of n] by (auto simp: represents_def connected_by_def)

lemma join_represents:
  assumes "represents s E" and "a < size_of s" and "b < size_of s"
  shows "\<exists>s'. join a b s = Some s' \<and> size_of s' = size_of s \<and> represents s' (insert (a, b) E)"
proof -
  obtain s' where s': "join a b s = Some s'" "invar s'" "size_of s' = size_of s"
    "\<forall>i j. same s' i j \<longleftrightarrow> same s i j \<or> same s i a \<and> same s b j \<or> same s i b \<and> same s a j"
    using join_law [of s a b] assms by (auto simp: represents_def)
  then have "represents s' (insert (a, b) E)"
    using assms by (auto simp: represents_def connected_by_insert)
  with s' show ?thesis by blast
qed

lemma find_represents:
  assumes "represents s E" and "i < size_of s"
  shows "\<exists>r s'. find i s = Some (r, s') \<and> size_of s' = size_of s \<and> represents s' E
    \<and> (i, r) \<in> connected_by E \<and> r < size_of s"
proof -
  obtain r s' where "find i s = Some (r, s')" "invar s'" "size_of s' = size_of s" "same s i r" "same s' = same s"
    using find_law [of s i] assms by (auto simp: represents_def)
  then show ?thesis using assms by (auto simp: represents_def)
qed

end

lemma uf_with_len_root: "uf_root (parent (uf_with_len n)) i r \<longleftrightarrow> i = r \<and> i < n"
proof
  assume "uf_root (parent (uf_with_len n)) i r"
  then obtain k where "root_in [0..<n] k i r" by (auto simp: uf_root_def uf_with_len_def)
  then show "i = r \<and> i < n" by (cases k) auto
next
  assume "i = r \<and> i < n"
  then have "root_in [0..<n] 0 i r" by simp
  then have "\<exists>k. root_in [0..<n] k i r" by blast
  then show "uf_root (parent (uf_with_len n)) i r" by (simp only: uf_root_def uf_with_len_def union_find.simps)
qed

interpretation uf: partition uf_wf uf_len uf_same uf_with_len uf_union uf_find
proof unfold_locales
  fix n i j
  show "uf_wf (uf_with_len n) \<and> uf_len (uf_with_len n) = n \<and> (uf_same (uf_with_len n) i j \<longleftrightarrow> i = j \<and> i < n)"
    by (auto simp: uf_wf_def uf_same_def uf_with_len_root uf_len_def) (simp_all add: uf_with_len_def)
next
  fix u i assume "uf_wf u" and "i < uf_len u"
  from uf_find_law [OF this] obtain r u' where "uf_find i u = Some (r, u')" "uf_root (parent u) i r" "uf_wf u'"
    "uf_len u' = uf_len u" "\<forall>i r. uf_root (parent u') i r \<longleftrightarrow> uf_root (parent u) i r"
    by blast
  moreover from this have "uf_same u i r" and "uf_same u' = uf_same u"
    using uf_root_root by (auto simp: uf_same_def fun_eq_iff)
  ultimately show "\<exists>r u'. uf_find i u = Some (r, u') \<and> uf_wf u' \<and> uf_len u' = uf_len u \<and> uf_same u i r \<and> uf_same u' = uf_same u"
    by blast
next
  fix u i j r q u1 u2
  assume "uf_wf u" and "uf_same u i j" and find: "uf_find i u = Some (r, u1)" "uf_find j u = Some (q, u2)"
  then have "i < uf_len u" and "j < uf_len u" using uf_same_range by blast+
  with \<open>uf_wf u\<close> find have "uf_root (parent u) i r" and "uf_root (parent u) j q"
    using uf_find_law [of u i] uf_find_law [of u j] by auto
  with \<open>uf_same u i j\<close> show "r = q" by (auto simp: uf_same_def dest: uf_root_unique)
qed (use uf_same_refl uf_same_sym uf_same_trans uf_same_range uf_union_law in blast)+

text \<open>A pushed node is a class of its own.\<close>

lemma root_in_push: "root_in p k i r \<Longrightarrow> root_in (p @ [n]) k i r"
  by (induction p k i r rule: root_in.induct) (auto simp: nth_append)

lemma uf_push_law:
  assumes "uf_wf u"
  shows "uf_wf (uf_push u) \<and> uf_len (uf_push u) = Suc (uf_len u)
    \<and> (uf_same (uf_push u) i j \<longleftrightarrow> uf_same u i j \<or> i = uf_len u \<and> j = uf_len u)"
proof -
  let ?n = "length (parent u)" and ?q = "parent u @ [length (parent u)]"
  have old: "uf_root ?q i r" if "uf_root (parent u) i r" for i r
    using that root_in_push unfolding uf_root_def by blast
  have "root_in ?q 0 ?n ?n" by simp
  then have new: "uf_root ?q ?n ?n" unfolding uf_root_def by blast
  have total: "\<exists>r. uf_root (parent u) i r" if "i < ?n" for i using assms that by (simp add: uf_wf_def)
  have iff: "uf_root ?q i r \<longleftrightarrow> uf_root (parent u) i r \<or> i = ?n \<and> r = ?n" for i r
  proof
    assume q: "uf_root ?q i r"
    then have "i < Suc ?n" using uf_root_root [OF q] by simp
    then consider "i < ?n" | "i = ?n" by linarith
    then show "uf_root (parent u) i r \<or> i = ?n \<and> r = ?n"
      using q old new total by cases (metis uf_root_unique)+
  qed (use old new in auto)
  have "uf_wf (uf_push u)"
    using assms total by (auto simp: uf_wf_def uf_push_def iff less_Suc_eq)
  moreover have "uf_same (uf_push u) i j \<longleftrightarrow> uf_same u i j \<or> i = uf_len u \<and> j = uf_len u"
    by (auto simp: uf_same_def uf_push_def iff uf_len_def dest: uf_root_root)
  ultimately show ?thesis by (simp add: uf_len_def uf_push_def)
qed

lemma uf_push_represents:
  assumes "uf.represents u E" and "\<And>a b. (a, b) \<in> E \<Longrightarrow> a < uf_len u \<and> b < uf_len u"
  shows "uf.represents (uf_push u) E \<and> uf_len (uf_push u) = Suc (uf_len u)"
proof -
  have wf: "uf_wf u" using assms(1) by (simp add: uf.represents_def)
  have isolated: "i = uf_len u \<or> j = uf_len u \<longrightarrow> i = j" if "(i, j) \<in> connected_by E" for i j
    using that by (rule connected_by_least) (use assms(2) in fastforce)+
  show ?thesis
    using uf_push_law [OF wf] assms(1) isolated
    by (auto simp: uf.represents_def less_Suc_eq connected_by_refl)
qed

end
