(* ===== verification/Pari_Grouping.thy ===== *)
theory Pari_Grouping
  imports Pari_Lsh Pari_UnionFind "HOL-Library.List_Lexorder"
begin

text \<open>
  Crate \<open>pari-index\<close>, duplicate groups (\<open>crates/pari-index/src/grouping.rs\<close>): the connected components of
  an arbitrary stream of pairs and of the bucket collisions of an index, with and without
  verification of pairs and selection of representatives, and the iterator over unique candidate
  pairs. The callbacks \<open>verify\<close> and \<open>select\<close> are pure functions here. \<open>None\<close> is a call that does not
  return; the lemmas show that none occurs.

  The main lemmas state that the groups are exactly the connected components of sufficient size,
  in a canonical order, whatever the iteration order of the hash maps.
\<close>

section \<open>Definitions\<close>

record duplicate_group =
  representative :: u64
  members :: "u64 list"

datatype group_error = RepresentativeNotMember u64

definition ordered_pair :: "'a::linorder \<Rightarrow> 'a \<Rightarrow> 'a \<times> 'a" where
  "ordered_pair left right = (if left \<le> right then (left, right) else (right, left))"

definition live_key :: "index_data \<Rightarrow> u32 \<Rightarrow> u64 option" where
  "live_key index ident = (if unat ident < length (id_to_key index) then id_to_key index ! unat ident else None)"

type_synonym stream_state = "(u64, usize) hashmap \<times> u64 list \<times> union_find"

definition intern_key :: "u64 \<Rightarrow> stream_state \<Rightarrow> usize \<times> stream_state" where
  "intern_key key state =
     (let (ids, keys, u) = state
      in case hm_get ids key of
           Some ident \<Rightarrow> (ident, state)
         | None \<Rightarrow> let ident = length keys
                   in (ident, (hm_insert key ident ids, keys @ [key], uf_push u)))"

definition union_stream_step :: "u64 \<times> u64 \<Rightarrow> stream_state \<Rightarrow> stream_state option" where
  "union_stream_step pair state =
     (let (left, right) = pair;
          (left_id, state) = intern_key left state;
          (right_id, state) = intern_key right state;
          (ids, keys, u) = state
      in Option.bind (uf_union left_id right_id u) (\<lambda>u. Some (ids, keys, u)))"

definition union_stream :: "(u64 \<times> u64) list \<Rightarrow> (union_find \<times> u64 list) option" where
  "union_stream pairs =
     Option.bind (fold_option union_stream_step pairs ([], [], \<lparr>parent = [], rank = []\<rparr>))
       (\<lambda>(ids, keys, u). Some (u, keys))"

definition collect_step :: "usize \<times> u64 \<Rightarrow> (usize, u64 list) hashmap \<times> union_find
     \<Rightarrow> ((usize, u64 list) hashmap \<times> union_find) option" where
  "collect_step member state =
     (let (ident, key) = member; (by_root, u) = state
      in if uf_len u \<le> ident then Some (by_root, u)
         else Option.bind (uf_find ident u) (\<lambda>(root, u). Some (hm_push root key by_root, u)))"

definition collect_components :: "union_find \<Rightarrow> (usize \<times> u64) list \<Rightarrow> usize \<Rightarrow> u64 list list option" where
  "collect_components u ms min_size =
     (let minimum = max min_size 1
      in Option.bind (fold_option collect_step ms ([], u)) (\<lambda>(by_root, u).
         Some (sort (List.map_filter (\<lambda>values. if length values < minimum then None else Some (sort values))
           (map snd by_root)))))"

definition sort_groups :: "duplicate_group list \<Rightarrow> duplicate_group list" where
  "sort_groups groups = sort_key (\<lambda>g. (representative g, members g)) groups"

definition collect_default_groups :: "union_find \<Rightarrow> (usize \<times> u64) list \<Rightarrow> usize \<Rightarrow> duplicate_group list option" where
  "collect_default_groups u ms min_size =
     Option.bind (collect_components u ms min_size) (\<lambda>components.
     Option.bind (those (map (\<lambda>m. case m of [] \<Rightarrow> None | r # _ \<Rightarrow> Some \<lparr>representative = r, members = m\<rparr>) components))
       (\<lambda>groups. Some (sort_groups groups)))"

text \<open>A binary search in sorted members finds exactly the members.\<close>

definition collect_selected_groups ::
  "union_find \<Rightarrow> (usize \<times> u64) list \<Rightarrow> usize \<Rightarrow> (u64 list \<Rightarrow> u64) \<Rightarrow> (duplicate_group list, group_error) result option" where
  "collect_selected_groups u ms min_size select =
     Option.bind (collect_components u ms min_size) (\<lambda>components.
     Some (and_then (try_map (\<lambda>m. let selected = select m
              in if selected \<notin> set m then Err (RepresentativeNotMember selected)
                 else Ok \<lparr>representative = selected, members = m\<rparr>) components)
       (\<lambda>groups. Ok (sort_groups groups))))"

definition group_pairs :: "(u64 \<times> u64) list \<Rightarrow> usize \<Rightarrow> duplicate_group list option" where
  "group_pairs pairs min_size =
     Option.bind (union_stream pairs) (\<lambda>(u, keys). collect_default_groups u (enumerate 0 keys) min_size)"

definition group_pairs_with_representative ::
  "(u64 \<times> u64) list \<Rightarrow> usize \<Rightarrow> (u64 list \<Rightarrow> u64) \<Rightarrow> (duplicate_group list, group_error) result option" where
  "group_pairs_with_representative pairs min_size select =
     Option.bind (union_stream pairs) (\<lambda>(u, keys). collect_selected_groups u (enumerate 0 keys) min_size select)"

text \<open>The pairs of positions of one bucket, in the order of the two inner loops.\<close>

definition bucket_pairs :: "'a list \<Rightarrow> ('a \<times> 'a) list" where
  "bucket_pairs ids = concat (map (\<lambda>l. map (\<lambda>r. (ids ! l, ids ! r)) [l + 1..<length ids]) [0..<length ids])"

definition verify_step :: "index_data \<Rightarrow> (u64 \<Rightarrow> u64 \<Rightarrow> bool) \<Rightarrow> u32 \<times> u32 \<Rightarrow> union_find \<Rightarrow> union_find option" where
  "verify_step index verify pair u =
     (let (left_id, right_id) = pair
      in Option.bind (uf_connected (unat left_id) (unat right_id) u) (\<lambda>(joined, u).
         if joined then Some u
         else case live_key index left_id of
                None \<Rightarrow> Some u
              | Some left_key \<Rightarrow>
                  (case live_key index right_id of
                     None \<Rightarrow> Some u
                   | Some right_key \<Rightarrow>
                       let (left_key, right_key) = ordered_pair left_key right_key
                       in if verify left_key right_key then uf_union (unat left_id) (unat right_id) u else Some u)))"

definition union_index_buckets :: "index_data \<Rightarrow> (u64 \<Rightarrow> u64 \<Rightarrow> bool) \<Rightarrow> union_find \<Rightarrow> union_find option" where
  "union_index_buckets index verify u =
     fold_option (verify_step index verify)
       (concat (map (\<lambda>table. concat (map (bucket_pairs \<circ> snd) table)) (buckets index))) u"

definition anchor_step :: "index_data \<Rightarrow> u32 \<Rightarrow> usize option \<times> union_find \<Rightarrow> (usize option \<times> union_find) option" where
  "anchor_step index ident state =
     (let (anchor, u) = state
      in if live_key index ident = None then Some (anchor, u)
         else case anchor of
                Some anchor_node \<Rightarrow> Option.bind (uf_union anchor_node (unat ident) u) (\<lambda>u. Some (anchor, u))
              | None \<Rightarrow> Some (Some (unat ident), u))"

definition union_index_buckets_unverified :: "index_data \<Rightarrow> union_find \<Rightarrow> union_find option" where
  "union_index_buckets_unverified index u =
     fold_option (\<lambda>ids u. Option.bind (fold_option (anchor_step index) ids (None, u)) (\<lambda>(anchor, u). Some u))
       (concat (map (map snd) (buckets index))) u"

definition live_members :: "index_data \<Rightarrow> (usize \<times> u64) list" where
  "live_members index = List.map_filter (\<lambda>(i, key). map_option (Pair i) key) (enumerate 0 (id_to_key index))"

definition duplicate_groups :: "index_data \<Rightarrow> duplicate_group list option" where
  "duplicate_groups index =
     Option.bind (union_index_buckets_unverified index (uf_with_len (length (id_to_key index))))
       (\<lambda>u. collect_default_groups u (live_members index) 2)"

definition duplicate_groups_with :: "index_data \<Rightarrow> usize \<Rightarrow> (u64 \<Rightarrow> u64 \<Rightarrow> bool) \<Rightarrow> duplicate_group list option" where
  "duplicate_groups_with index min_size verify =
     Option.bind (union_index_buckets index verify (uf_with_len (length (id_to_key index))))
       (\<lambda>u. collect_default_groups u (live_members index) min_size)"

definition duplicate_groups_with_representative ::
  "index_data \<Rightarrow> usize \<Rightarrow> (u64 \<Rightarrow> u64 \<Rightarrow> bool) \<Rightarrow> (u64 list \<Rightarrow> u64) \<Rightarrow> (duplicate_group list, group_error) result option" where
  "duplicate_groups_with_representative index min_size verify select =
     Option.bind (union_index_buckets index verify (uf_with_len (length (id_to_key index))))
       (\<lambda>u. collect_selected_groups u (live_members index) min_size select)"

section \<open>The pair iterator\<close>

record candidate_pairs =
  cp_index :: index_data
  cp_buckets :: "u32 list list"
  cp_bucket_index :: usize
  cp_left_index :: usize
  cp_right_index :: usize
  cp_seen :: "(u32 \<times> u32) list"

definition candidate_pairs_new :: "index_data \<Rightarrow> candidate_pairs" where
  "candidate_pairs_new index =
     (let ordered = concat (map (\<lambda>(band, table). List.map_filter
            (\<lambda>(hash, ids). if 2 \<le> length ids then Some (band, hash, ids) else None) table)
            (enumerate 0 (buckets index)));
          ordered = sort_key (\<lambda>(band, hash, _). (band, hash)) ordered
      in \<lparr>cp_index = index, cp_buckets = map (\<lambda>(_, _, ids). ids) ordered,
          cp_bucket_index = 0, cp_left_index = 0, cp_right_index = 1, cp_seen = []\<rparr>)"

function candidate_pairs_next :: "candidate_pairs \<Rightarrow> (u64 \<times> u64) option \<times> candidate_pairs" where
  "candidate_pairs_next s =
     (if length (cp_buckets s) \<le> cp_bucket_index s then (None, s)
      else let ids = cp_buckets s ! cp_bucket_index s
           in if length ids \<le> cp_left_index s + 1 then
                candidate_pairs_next (s\<lparr>cp_bucket_index := cp_bucket_index s + 1, cp_left_index := 0, cp_right_index := 1\<rparr>)
              else if length ids \<le> cp_right_index s then
                candidate_pairs_next (s\<lparr>cp_left_index := cp_left_index s + 1, cp_right_index := cp_left_index s + 2\<rparr>)
              else let left = ids ! cp_left_index s;
                       right = ids ! cp_right_index s;
                       s = s\<lparr>cp_right_index := cp_right_index s + 1\<rparr>
                   in if left = right then candidate_pairs_next s
                      else let id_pair = ordered_pair left right
                           in if id_pair \<in> set (cp_seen s) then candidate_pairs_next s
                              else let s = s\<lparr>cp_seen := id_pair # cp_seen s\<rparr>
                                   in case live_key (cp_index s) (fst id_pair) of
                                        None \<Rightarrow> candidate_pairs_next s
                                      | Some left_key \<Rightarrow>
                                          (case live_key (cp_index s) (snd id_pair) of
                                             None \<Rightarrow> candidate_pairs_next s
                                           | Some right_key \<Rightarrow> (Some (ordered_pair left_key right_key), s)))"
  by pat_completeness auto

text \<open>The pairs of positions that the iterator has not visited yet.\<close>

definition pending :: "candidate_pairs \<Rightarrow> nat \<times> nat \<times> nat" where
  "pending s =
     (length (cp_buckets s) - cp_bucket_index s,
      length (cp_buckets s ! cp_bucket_index s) - cp_left_index s,
      length (cp_buckets s ! cp_bucket_index s) - cp_right_index s)"

termination candidate_pairs_next
  by (relation "inv_image (less_than <*lex*> less_than <*lex*> less_than) pending") (auto simp: pending_def)

declare candidate_pairs_next.simps [simp del]

section \<open>Components\<close>

text \<open>The keys of the members whose root is \<open>r\<close>, in the order of the members.\<close>

definition class_keys :: "usize list \<Rightarrow> (usize \<times> u64) list \<Rightarrow> usize \<Rightarrow> u64 list" where
  "class_keys p ms r = map snd (filter (\<lambda>(i, k). uf_root p i r) ms)"

lemma collect_loop:
  assumes wf: "uf_wf u" and rng: "\<And>i k. (i, k) \<in> set ms \<Longrightarrow> i < uf_len u"
  shows "\<exists>by_root u'. fold_option collect_step ms ([], u) = Some (by_root, u') \<and> hm_wf by_root
    \<and> (\<forall>r. hm_get by_root r = non_empty (class_keys (parent u) ms r))"
proof -
  define Q where "Q ys st \<longleftrightarrow> (case st of (by_root, u') \<Rightarrow> hm_wf by_root \<and> uf_wf u' \<and> uf_len u' = uf_len u
      \<and> (\<forall>i r. uf_root (parent u') i r \<longleftrightarrow> uf_root (parent u) i r)
      \<and> (\<forall>r. hm_get by_root r = non_empty (class_keys (parent u) ys r)))" for ys st
  have "\<exists>st. fold_option collect_step ms ([], u) = Some st \<and> Q ms st"
  proof (rule fold_option_total)
    show "Q [] ([], u)" using wf by (simp add: Q_def class_keys_def non_empty_def)
  next
    fix ys x zs st
    assume ms: "ms = ys @ x # zs" and Q: "Q ys st"
    obtain i k where x: "x = (i, k)" by (cases x)
    obtain by_root u1 where st: "st = (by_root, u1)" by (cases st)
    have i: "i < uf_len u1" using rng [of i k] Q by (simp add: ms x st Q_def)
    then obtain root u2 where f: "uf_find i u1 = Some (root, u2)" "uf_root (parent u1) i root" "uf_wf u2"
      "uf_len u2 = uf_len u1" "\<forall>i r. uf_root (parent u2) i r \<longleftrightarrow> uf_root (parent u1) i r"
      using uf_find_law [of u1 i] Q by (auto simp: st Q_def)
    have root: "uf_root (parent u) i r \<longleftrightarrow> r = root" for r
      using f(2) Q uf_root_unique by (auto simp: st Q_def)
    have "hm_get (hm_push root k by_root) r = non_empty (class_keys (parent u) (ys @ [x]) r)" for r
      using hm_push_non_empty [of by_root r "class_keys (parent u) ys r" root k] Q
      by (auto simp: class_keys_def x root st Q_def)
    moreover have "collect_step x st = Some (hm_push root k by_root, u2)"
      using i f(1) by (simp add: collect_step_def x st)
    ultimately show "\<exists>st'. collect_step x st = Some st' \<and> Q (ys @ [x]) st'"
      using Q f by (auto simp: Q_def st)
  qed
  then show ?thesis by (auto simp: Q_def)
qed

definition same_class :: "union_find \<Rightarrow> (usize \<times> u64) list \<Rightarrow> u64 \<Rightarrow> u64 set" where
  "same_class u ms k = {k'. \<exists>i j. (i, k) \<in> set ms \<and> (j, k') \<in> set ms \<and> uf_same u i j}"

lemma set_class_keys: "k \<in> set (class_keys p ms r) \<longleftrightarrow> (\<exists>i. (i, k) \<in> set ms \<and> uf_root p i r)"
  by (force simp: class_keys_def)

lemma key_determines_member:
  "distinct (map snd ms) \<Longrightarrow> (i, k) \<in> set ms \<Longrightarrow> (j, k) \<in> set ms \<Longrightarrow> i = j"
  by (metis (no_types, lifting) distinct_map inj_onD prod.inject snd_conv)

lemma class_keys_set:
  assumes "distinct (map snd ms)" and "(i, k) \<in> set ms" and "uf_root (parent u) i r"
  shows "set (class_keys (parent u) ms r) = same_class u ms k"
proof -
  have "uf_same u i j \<longleftrightarrow> uf_root (parent u) j r" for j
    using uf_same_root [OF assms(3), of j] uf_same_sym [of u] by blast
  then show ?thesis
    using key_determines_member [OF assms(1) assms(2)] assms(2)
    unfolding same_class_def set_eq_iff set_class_keys by blast
qed

lemma class_keys_meet:
  assumes "distinct (map snd ms)" and "k \<in> set (class_keys p ms r)" and "k \<in> set (class_keys p ms s)"
  shows "r = s"
  using assms(2,3) key_determines_member [OF assms(1)] uf_root_unique unfolding set_class_keys by metis

lemma distinct_class_keys: "distinct (map snd ms) \<Longrightarrow> distinct (class_keys p ms r)"
  unfolding class_keys_def by (rule distinct_map_filter)

text \<open>The list that \<open>collect_components\<close> sorts, for a table that holds the classes.\<close>

abbreviation large_classes :: "nat \<Rightarrow> (usize, u64 list) hashmap \<Rightarrow> u64 list list" where
  "large_classes minimum by_root \<equiv>
     List.map_filter (\<lambda>values. if length values < minimum then None else Some (sort values)) (map snd by_root)"

lemma set_large_classes:
  "c \<in> set (large_classes minimum by_root) \<longleftrightarrow> (\<exists>r vs. (r, vs) \<in> set by_root \<and> minimum \<le> length vs \<and> c = sort vs)"
  by (force simp: map_filter_def not_less split: if_splits)

lemma distinct_large_classes:
  assumes "distinct (map snd ms)" and "distinct (map fst by_root)"
    and "\<And>r vs. (r, vs) \<in> set by_root \<Longrightarrow> vs = class_keys p ms r \<and> vs \<noteq> []"
  shows "distinct (large_classes minimum by_root)"
  using assms(2,3)
proof (induction by_root)
  case (Cons e es)
  obtain r vs where e: "e = (r, vs)" by (cases e)
  have "sort vs \<notin> set (large_classes minimum es)"
  proof
    assume "sort vs \<in> set (large_classes minimum es)"
    then obtain s ws where s: "(s, ws) \<in> set es" "sort vs = sort ws" unfolding set_large_classes by blast
    then have "set ws = set vs" by (metis set_sort)
    moreover have "vs = class_keys p ms r" "vs \<noteq> []" "ws = class_keys p ms s"
      using Cons.prems(2) s(1) by (auto simp: e)
    ultimately have "r = s" using class_keys_meet [OF assms(1)] by (metis list.set_intros(1) neq_Nil_conv)
    with Cons.prems(1) s(1) show False by (force simp: e)
  qed
  then show ?case using Cons by (auto simp: map_filter_simps e)
qed (simp add: map_filter_simps)

lemma large_classes_sets:
  assumes wf: "uf_wf u" and rng: "\<And>i k. (i, k) \<in> set ms \<Longrightarrow> i < uf_len u" and keys: "distinct (map snd ms)"
    and by_root: "\<And>r vs. (r, vs) \<in> set by_root \<longleftrightarrow> vs = class_keys (parent u) ms r \<and> vs \<noteq> []" and "0 < m"
  shows "set ` set (large_classes m by_root)
    = {same_class u ms k |k. k \<in> snd ` set ms \<and> m \<le> card (same_class u ms k)}"
proof (intro set_eqI iffI)
  have card: "card (set (class_keys (parent u) ms r)) = length (class_keys (parent u) ms r)" for r
    by (rule distinct_card) (rule distinct_class_keys [OF keys])
  fix C
  {
    assume "C \<in> set ` set (large_classes m by_root)"
    then obtain c where c: "C = set c" "c \<in> set (large_classes m by_root)" by blast
    then obtain r where "c = sort (class_keys (parent u) ms r)" "m \<le> length (class_keys (parent u) ms r)"
      "class_keys (parent u) ms r \<noteq> []"
      unfolding set_large_classes by_root by blast
    with c(1) card have r: "C = set (class_keys (parent u) ms r)" "m \<le> card C" "C \<noteq> {}" by simp_all
    have "\<exists>k. k \<in> set (class_keys (parent u) ms r)"
      using r(3) unfolding r(1) by (simp only: ex_in_conv) simp
    then obtain k where "k \<in> set (class_keys (parent u) ms r)" ..
    then obtain i where k: "(i, k) \<in> set ms" "uf_root (parent u) i r" unfolding set_class_keys by blast
    then have "C = same_class u ms k" using r(1) class_keys_set [OF keys] by simp
    with r(2) k(1) show "C \<in> {same_class u ms k |k. k \<in> snd ` set ms \<and> m \<le> card (same_class u ms k)}"
      by force
  next
    assume "C \<in> {same_class u ms k |k. k \<in> snd ` set ms \<and> m \<le> card (same_class u ms k)}"
    then obtain i k where k: "C = same_class u ms k" "(i, k) \<in> set ms" "m \<le> card C" by auto
    have "i < uf_len u" using rng k(2) .
    then obtain r where "uf_root (parent u) i r" using wf by (auto simp: uf_wf_def uf_len_def)
    then have C: "C = set (class_keys (parent u) ms r)" using class_keys_set [OF keys k(2)] k(1) by simp
    then have "m \<le> length (class_keys (parent u) ms r)" using k(3) card by simp
    moreover from this \<open>0 < m\<close> have "class_keys (parent u) ms r \<noteq> []" by auto
    ultimately have "sort (class_keys (parent u) ms r) \<in> set (large_classes m by_root)"
      unfolding set_large_classes by_root by blast
    then show "C \<in> set ` set (large_classes m by_root)" by (rule rev_image_eqI) (simp add: C)
  }
qed

text \<open>The classes \<open>cls\<close> of the keys \<open>K\<close> that have at least \<open>m\<close> members, and at least one.\<close>

definition classes :: "u64 set \<Rightarrow> (u64 \<Rightarrow> u64 set) \<Rightarrow> nat \<Rightarrow> u64 set set" where
  "classes K cls m = {cls k |k. k \<in> K \<and> max m 1 \<le> card (cls k)}"

definition components_of :: "u64 list list \<Rightarrow> u64 set set \<Rightarrow> bool" where
  "components_of comps S \<longleftrightarrow>
     distinct comps \<and> (\<forall>c \<in> set comps. sorted_wrt (<) c \<and> c \<noteq> []) \<and> set ` set comps = S
     \<and> (\<forall>c \<in> set comps. \<forall>d \<in> set comps. set c \<inter> set d \<noteq> {} \<longrightarrow> c = d)"

text \<open>What \<open>collect_components\<close> returns: each class of sufficient size once, as a strictly ascending
  list.\<close>

lemma collect_components_law:
  assumes wf: "uf_wf u" and rng: "\<And>i k. (i, k) \<in> set ms \<Longrightarrow> i < uf_len u" and keys: "distinct (map snd ms)"
  shows "\<exists>comps. collect_components u ms m = Some comps
    \<and> components_of comps (classes (snd ` set ms) (same_class u ms) m)"
proof -
  obtain by_root u' where loop: "fold_option collect_step ms ([], u) = Some (by_root, u')" "hm_wf by_root"
    "\<And>r. hm_get by_root r = non_empty (class_keys (parent u) ms r)"
    using collect_loop [OF wf, of ms] rng by blast
  let ?comps = "sort (large_classes (max m 1) by_root)"
  have entry: "(r, vs) \<in> set by_root \<longleftrightarrow> vs = class_keys (parent u) ms r \<and> vs \<noteq> []" for r vs
    using hm_get_mem [OF loop(2)] loop(3) by (auto simp: non_empty_def)
  have mem: "c \<in> set ?comps \<Longrightarrow> \<exists>r. c = sort (class_keys (parent u) ms r) \<and> class_keys (parent u) ms r \<noteq> []" for c
    unfolding set_sort set_large_classes entry by blast
  have "collect_components u ms m = Some ?comps" by (simp add: collect_components_def loop(1))
  moreover have "distinct ?comps"
    unfolding distinct_sort using loop(2) entry
    by (intro distinct_large_classes [OF keys, of _ "parent u"]) (auto simp: hm_wf_def)
  moreover have "\<forall>c \<in> set ?comps. sorted_wrt (<) c \<and> c \<noteq> []"
  proof
    fix c assume "c \<in> set ?comps"
    then obtain r where r: "c = sort (class_keys (parent u) ms r)" "class_keys (parent u) ms r \<noteq> []" using mem by blast
    have "c \<noteq> []" using r by (metis set_empty set_sort)
    moreover have "sorted_wrt (<) c"
      unfolding r(1) strict_sorted_iff using distinct_class_keys [OF keys] by simp
    ultimately show "sorted_wrt (<) c \<and> c \<noteq> []" by simp
  qed
  moreover have "set ` set ?comps = classes (snd ` set ms) (same_class u ms) m"
    unfolding set_sort classes_def by (rule large_classes_sets [OF wf _ keys]) (use rng entry in auto)
  moreover have "\<forall>c \<in> set ?comps. \<forall>d \<in> set ?comps. set c \<inter> set d \<noteq> {} \<longrightarrow> c = d"
  proof (intro ballI impI)
    fix c d assume "c \<in> set ?comps" "d \<in> set ?comps" and meet: "set c \<inter> set d \<noteq> {}"
    then obtain r s where rs: "c = sort (class_keys (parent u) ms r)" "d = sort (class_keys (parent u) ms s)"
      using mem by blast
    with meet have "\<exists>k. k \<in> set (class_keys (parent u) ms r) \<and> k \<in> set (class_keys (parent u) ms s)" by auto
    then show "c = d" using class_keys_meet [OF keys] rs by blast
  qed
  ultimately have "collect_components u ms m = Some ?comps
    \<and> components_of ?comps (classes (snd ` set ms) (same_class u ms) m)"
    unfolding components_of_def by simp
  then show ?thesis ..
qed

section \<open>Groups\<close>

text \<open>The result every grouping function promises for a family of disjoint classes: each class once as
  an ascending list, with a member as its representative, in the order of the representatives.\<close>

definition groups_of :: "duplicate_group list \<Rightarrow> u64 set set \<Rightarrow> bool" where
  "groups_of gs S \<longleftrightarrow>
     (\<forall>g \<in> set gs. sorted_wrt (<) (members g) \<and> representative g \<in> set (members g))
     \<and> (set \<circ> members) ` set gs = S
     \<and> sorted_wrt (<) (map representative gs)"

lemma those_map_Some: "(\<And>x. x \<in> set xs \<Longrightarrow> f x = Some (g x)) \<Longrightarrow> those (map f xs) = Some (map g xs)"
  by (induction xs) auto

lemma sorted_pairs_fst: "sorted (map (\<lambda>x. (f x, h x)) xs) \<Longrightarrow> sorted (map f xs)"
  by (induction xs) (auto simp: less_eq_prod_def)

lemma sort_groups_law:
  assumes "inj_on representative (set gs)" and "distinct gs"
  shows "sorted_wrt (<) (map representative (sort_groups gs)) \<and> set (sort_groups gs) = set gs"
proof -
  have "sorted (map representative (sort_groups gs))"
    by (rule sorted_pairs_fst [where h = members]) (simp add: sort_groups_def)
  moreover have "distinct (map representative (sort_groups gs))"
    using assms by (simp add: sort_groups_def distinct_map)
  ultimately show ?thesis by (simp add: strict_sorted_iff sort_groups_def)
qed

lemma groups_of_components:
  assumes comps: "components_of comps S" and sel: "\<forall>c \<in> set comps. select c \<in> set c"
  shows "groups_of (sort_groups (map (\<lambda>c. \<lparr>representative = select c, members = c\<rparr>) comps)) S"
proof -
  let ?gs = "map (\<lambda>c. \<lparr>representative = select c, members = c\<rparr>) comps"
  have "inj_on representative (set ?gs)"
  proof (rule inj_onI)
    fix g h assume "g \<in> set ?gs" "h \<in> set ?gs" and eq: "representative g = representative h"
    then obtain c d where cd: "c \<in> set comps" "d \<in> set comps" "g = \<lparr>representative = select c, members = c\<rparr>"
      "h = \<lparr>representative = select d, members = d\<rparr>" by auto
    then have "select c = select d" using eq by simp
    with sel cd(1,2) have "select c \<in> set c \<inter> set d" by (metis IntI)
    then have "c = d" using comps cd(1,2) unfolding components_of_def by blast
    with cd show "g = h" by simp
  qed
  moreover have "distinct ?gs" using comps by (simp add: distinct_map inj_on_def components_of_def)
  ultimately have gs: "sorted_wrt (<) (map representative (sort_groups ?gs))" "set (sort_groups ?gs) = set ?gs"
    using sort_groups_law [of ?gs] by simp_all
  have "(set \<circ> members) ` set ?gs = set ` set comps" by (simp add: image_image)
  moreover have "\<forall>g \<in> set ?gs. sorted_wrt (<) (members g) \<and> representative g \<in> set (members g)"
    using comps sel by (simp add: components_of_def)
  ultimately show ?thesis unfolding groups_of_def gs(2) using gs(1) comps by (simp add: components_of_def)
qed

lemma collect_default_groups_law:
  assumes "uf_wf u" and "\<And>i k. (i, k) \<in> set ms \<Longrightarrow> i < uf_len u" and "distinct (map snd ms)"
  shows "\<exists>gs. collect_default_groups u ms m = Some gs \<and> groups_of gs (classes (snd ` set ms) (same_class u ms) m)
    \<and> (\<forall>g \<in> set gs. representative g = hd (members g))"
proof -
  obtain comps where comps: "collect_components u ms m = Some comps"
    "components_of comps (classes (snd ` set ms) (same_class u ms) m)"
    using collect_components_law [OF assms(1), of ms m] assms(2,3) by blast
  let ?gs = "map (\<lambda>c. \<lparr>representative = hd c, members = c\<rparr>) comps"
  have "those (map (\<lambda>m. case m of [] \<Rightarrow> None | r # _ \<Rightarrow> Some \<lparr>representative = r, members = m\<rparr>) comps) = Some ?gs"
    using comps(2) unfolding components_of_def by (intro those_map_Some) (auto split: list.split)
  then have "collect_default_groups u ms m = Some (sort_groups ?gs)"
    by (simp add: collect_default_groups_def comps(1))
  moreover have "groups_of (sort_groups ?gs) (classes (snd ` set ms) (same_class u ms) m)"
    by (rule groups_of_components [OF comps(2)]) (use comps(2) in \<open>simp add: components_of_def\<close>)
  moreover have "\<forall>g \<in> set (sort_groups ?gs). representative g = hd (members g)"
    by (auto simp: sort_groups_def)
  ultimately show ?thesis by blast
qed

lemma collect_selected_groups_law:
  assumes "uf_wf u" and "\<And>i k. (i, k) \<in> set ms \<Longrightarrow> i < uf_len u" and "distinct (map snd ms)"
  shows "(\<exists>gs. collect_selected_groups u ms m select = Some (Ok gs)
      \<and> groups_of gs (classes (snd ` set ms) (same_class u ms) m) \<and> (\<forall>g \<in> set gs. representative g = select (members g)))
    \<or> (\<exists>c. collect_selected_groups u ms m select = Some (Err (RepresentativeNotMember (select c)))
        \<and> select c \<notin> set c \<and> sorted_wrt (<) c
        \<and> set c \<in> classes (snd ` set ms) (same_class u ms) m)"
proof -
  obtain comps where comps: "collect_components u ms m = Some comps"
    "components_of comps (classes (snd ` set ms) (same_class u ms) m)"
    using collect_components_law [OF assms(1), of ms m] assms(2,3) by blast
  let ?step = "\<lambda>c. let selected = select c
              in if selected \<notin> set c then Err (RepresentativeNotMember selected)
                 else Ok \<lparr>representative = selected, members = c\<rparr>"
  let ?gs = "map (\<lambda>c. \<lparr>representative = select c, members = c\<rparr>) comps"
  show ?thesis
  proof (cases "\<forall>c \<in> set comps. select c \<in> set c")
    case True
    then have "try_map ?step comps = Ok ?gs" by (intro try_map_all_ok) simp
    then have "collect_selected_groups u ms m select = Some (Ok (sort_groups ?gs))"
      by (simp add: collect_selected_groups_def comps(1))
    moreover have "groups_of (sort_groups ?gs) (classes (snd ` set ms) (same_class u ms) m)"
      by (rule groups_of_components [OF comps(2) True])
    ultimately show ?thesis by (auto simp: sort_groups_def)
  next
    case False
    have "\<exists>c \<in> set cs. select c \<notin> set c \<and> try_map ?step cs = Err (RepresentativeNotMember (select c))"
      if "\<exists>c \<in> set cs. select c \<notin> set c" for cs
      using that
    proof (induction cs)
      case (Cons a cs)
      show ?case
      proof (cases "select a \<in> set a")
        case True
        with Cons.prems have "\<exists>c \<in> set cs. select c \<notin> set c" by auto
        from Cons.IH [OF this] show ?thesis using True by (auto simp: Let_def)
      qed (simp add: Let_def)
    qed simp
    then obtain c where "c \<in> set comps" "select c \<notin> set c" "try_map ?step comps = Err (RepresentativeNotMember (select c))"
      using False by blast
    moreover from this(1) comps(2) have "sorted_wrt (<) c"
      "set c \<in> classes (snd ` set ms) (same_class u ms) m"
      unfolding components_of_def by blast+
    ultimately show ?thesis by (auto simp: collect_selected_groups_def comps(1))
  qed
qed

section \<open>Components of keys\<close>

text \<open>A bijection between identifiers and keys carries connected components over.\<close>

lemma connected_by_image:
  assumes "(i, j) \<in> connected_by E'" and "\<And>i k l. (i, k) \<in> R \<Longrightarrow> (i, l) \<in> R \<Longrightarrow> k = l"
    and "E' \<subseteq> Domain R \<times> Domain R"
    and "\<And>i k j l. (i, k) \<in> R \<Longrightarrow> (j, l) \<in> R \<Longrightarrow> (i, j) \<in> E' \<Longrightarrow> (k, l) \<in> E"
  shows "i = j \<or> (\<exists>k l. (i, k) \<in> R \<and> (j, l) \<in> R \<and> (k, l) \<in> connected_by E)"
  using assms(1)
proof (rule connected_by_least)
  fix x y assume "(x, y) \<in> E'"
  with assms(3,4) show "x = y \<or> (\<exists>k l. (x, k) \<in> R \<and> (y, l) \<in> R \<and> (k, l) \<in> connected_by E)"
    by (blast intro: connected_by_edge)
qed (use assms(2) in \<open>blast intro: connected_by_sym connected_by_trans\<close>)+

lemma connected_by_transfer:
  assumes bij: "\<And>i k j l. (i, k) \<in> R \<Longrightarrow> (j, l) \<in> R \<Longrightarrow> i = j \<longleftrightarrow> k = l"
    and dom: "E' \<subseteq> Domain R \<times> Domain R" and ran: "E \<subseteq> Range R \<times> Range R"
    and edge: "\<And>i k j l. (i, k) \<in> R \<Longrightarrow> (j, l) \<in> R \<Longrightarrow> (i, j) \<in> E' \<longleftrightarrow> (k, l) \<in> E"
    and ik: "(i, k) \<in> R" "(j, l) \<in> R"
  shows "(i, j) \<in> connected_by E' \<longleftrightarrow> (k, l) \<in> connected_by E"
proof
  assume "(i, j) \<in> connected_by E'"
  then have "i = j \<or> (\<exists>k l. (i, k) \<in> R \<and> (j, l) \<in> R \<and> (k, l) \<in> connected_by E)"
    by (rule connected_by_image) (use bij dom edge in \<open>auto simp: subset_iff\<close>)
  with bij ik show "(k, l) \<in> connected_by E" by (metis connected_by_refl)
next
  assume "(k, l) \<in> connected_by E"
  then have "k = l \<or> (\<exists>i j. (k, i) \<in> R\<inverse> \<and> (l, j) \<in> R\<inverse> \<and> (i, j) \<in> connected_by E')"
    by (rule connected_by_image) (use bij ran edge in \<open>auto simp: subset_iff\<close>)
  with bij ik show "(i, j) \<in> connected_by E'" by (metis connected_by_refl converse_iff)
qed

definition component :: "('a \<times> 'a) set \<Rightarrow> 'a \<Rightarrow> 'a set" where
  "component E k = connected_by E `` {k}"

lemma classes_cong: "(\<And>k. k \<in> K \<Longrightarrow> f k = g k) \<Longrightarrow> classes K f m = classes K g m"
  unfolding classes_def by (intro Collect_cong ex_cong1) auto

text \<open>When the partition represents edges between identifiers that correspond to edges between keys,
  the classes of keys are the connected components of the key graph.\<close>

lemma same_class_component:
  assumes rep: "uf.represents u E'" and rng: "\<And>i k. (i, k) \<in> set ms \<Longrightarrow> i < uf_len u"
    and bij: "distinct (map fst ms)" "distinct (map snd ms)"
    and dom: "E' \<subseteq> fst ` set ms \<times> fst ` set ms" and ran: "E \<subseteq> snd ` set ms \<times> snd ` set ms"
    and edge: "\<And>i k j l. (i, k) \<in> set ms \<Longrightarrow> (j, l) \<in> set ms \<Longrightarrow> (i, j) \<in> E' \<longleftrightarrow> (k, l) \<in> E"
  shows "classes (snd ` set ms) (same_class u ms) m = classes (snd ` set ms) (component E) m"
proof -
  have iff: "i = j \<longleftrightarrow> k = l" if "(i, k) \<in> set ms" "(j, l) \<in> set ms" for i k j l
    using that bij key_determines_member [OF bij(2)] eq_key_imp_eq_value [OF bij(1)] by metis
  have conn: "(i, j) \<in> connected_by E' \<longleftrightarrow> (k, l) \<in> connected_by E" if "(i, k) \<in> set ms" "(j, l) \<in> set ms" for i k j l
    by (rule connected_by_transfer [of "set ms", OF iff _ _ edge that])
      (use dom ran in \<open>simp_all add: Domain_fst Range_snd\<close>)
  have "same_class u ms k = component E k" if k: "k \<in> snd ` set ms" for k
  proof -
    obtain i where i: "(i, k) \<in> set ms" using k by auto
    have closed: "l \<in> snd ` set ms" if "(k, l) \<in> connected_by E" for l
    proof -
      have "k \<in> snd ` set ms \<longleftrightarrow> l \<in> snd ` set ms"
        using that by (rule connected_by_least) (use ran in blast)+
      with k show ?thesis by simp
    qed
    have same: "uf_same u i j \<longleftrightarrow> (k, l) \<in> connected_by E" if "(j, l) \<in> set ms" for j l
      using rep rng [OF i] rng [OF that] conn [OF i that] by (simp add: uf.represents_def)
    have "l \<in> same_class u ms k \<longleftrightarrow> (\<exists>j. (j, l) \<in> set ms \<and> uf_same u i j)" for l
      using i key_determines_member [OF bij(2) i] unfolding same_class_def by blast
    also have "\<dots> l \<longleftrightarrow> (k, l) \<in> connected_by E" for l
      using same closed [of l] by (auto, blast)
    finally show ?thesis by (auto simp: component_def)
  qed
  then show ?thesis by (rule classes_cong)
qed

lemma uf_represents_cong:
  "connected_by E = connected_by F \<Longrightarrow> uf.represents u E \<longleftrightarrow> uf.represents u F"
  by (simp add: uf.represents_def)

section \<open>Streams of pairs\<close>

definition stream_inv :: "(u64 \<times> u64) set \<Rightarrow> u64 set \<Rightarrow> stream_state \<Rightarrow> bool" where
  "stream_inv E K state \<longleftrightarrow> (case state of (ids, keys, u) \<Rightarrow>
     (\<forall>k i. hm_get ids k = Some i \<longleftrightarrow> i < length keys \<and> keys ! i = k)
     \<and> distinct keys \<and> set keys = K \<and> E \<subseteq> K \<times> K \<and> uf_len u = length keys
     \<and> uf.represents u {(i, j). i < length keys \<and> j < length keys \<and> (keys ! i, keys ! j) \<in> E})"

lemma intern_key_inv:
  assumes "stream_inv E K state" and "intern_key key state = (i, state')"
  shows "stream_inv E (insert key K) state' \<and> i < length (fst (snd state')) \<and> fst (snd state') ! i = key
    \<and> (\<forall>j < length (fst (snd state)). j < length (fst (snd state')) \<and> fst (snd state') ! j = fst (snd state) ! j)"
proof -
  obtain ids keys u where state: "state = (ids, keys, u)" by (cases state)
  note inv = assms(1) [unfolded stream_inv_def state prod.case]
  show ?thesis
  proof (cases "hm_get ids key")
    case (Some j)
    then have "j < length keys" "keys ! j = key" using inv by blast+
    moreover from this have "insert key K = K" using inv nth_mem by blast
    ultimately show ?thesis using assms Some by (auto simp: intern_key_def state)
  next
    case None
    then have unused: "keys ! i \<noteq> key" if "i < length keys" for i
      using that None inv [THEN conjunct1, THEN spec, THEN spec, of key i] by auto
    then have new: "key \<notin> set keys" by (auto simp: in_set_conv_nth)
    then have fresh: "key \<notin> K" using inv by simp
    have E: "(key, k) \<notin> E" "(k, key) \<notin> E" for k using inv fresh by auto
    let ?E = "{(i, j). i < length keys \<and> j < length keys \<and> (keys ! i, keys ! j) \<in> E}"
    have "{(i, j). i < length (keys @ [key]) \<and> j < length (keys @ [key]) \<and> ((keys @ [key]) ! i, (keys @ [key]) ! j) \<in> E} = ?E"
      using E by (auto simp: nth_append less_Suc_eq)
    moreover have "uf.represents (uf_push u) ?E \<and> uf_len (uf_push u) = Suc (uf_len u)"
      using inv by (intro uf_push_represents) auto
    moreover have "hm_get (hm_insert key (length keys) ids) k = Some i
        \<longleftrightarrow> i < length (keys @ [key]) \<and> (keys @ [key]) ! i = k" for k i
      using inv unused by (auto simp: nth_append less_Suc_eq)
    moreover have "distinct (keys @ [key])" "set (keys @ [key]) = insert key K" "E \<subseteq> insert key K \<times> insert key K"
      using inv new by auto
    ultimately have "stream_inv E (insert key K) (hm_insert key (length keys) ids, keys @ [key], uf_push u)"
      using inv unfolding stream_inv_def by (simp only: prod.case length_append_singleton simp_thms)
    moreover have "i = length keys" "state' = (hm_insert key (length keys) ids, keys @ [key], uf_push u)"
      using assms(2) None by (auto simp: intern_key_def state Let_def)
    ultimately show ?thesis by (simp add: state nth_append)
  qed
qed

lemma union_stream_step_inv:
  assumes "stream_inv E K state"
  shows "\<exists>state'. union_stream_step (a, b) state = Some state' \<and> stream_inv (insert (a, b) E) (insert b (insert a K)) state'"
proof -
  obtain i s1 where i: "intern_key a state = (i, s1)" by (cases "intern_key a state")
  obtain j ids keys u where j: "intern_key b s1 = (j, (ids, keys, u))" by (metis prod_cases3 surj_pair)
  note s1 = intern_key_inv [OF assms i]
  note s2 = intern_key_inv [OF conjunct1 [OF s1] j, unfolded fst_conv snd_conv]
  have ij: "i < length keys" "keys ! i = a" "j < length keys" "keys ! j = b" using s1 s2 by auto
  note inv = conjunct1 [OF s2, unfolded stream_inv_def prod.case]
  let ?E = "\<lambda>E. {(i, j). i < length keys \<and> j < length keys \<and> (keys ! i, keys ! j) \<in> E}"
  obtain u' where u': "uf_union i j u = Some u'" "uf_len u' = uf_len u" "uf.represents u' (insert (i, j) (?E E))"
    using uf.join_represents [of u "?E E" i j] inv ij by auto
  moreover have "insert (i, j) (?E E) = ?E (insert (a, b) E)"
    using ij inv by (auto simp: nth_eq_iff_index_eq)
  ultimately have "stream_inv (insert (a, b) E) (insert b (insert a K)) (ids, keys, u')"
    using inv unfolding stream_inv_def by auto
  with i j u'(1) show ?thesis by (simp add: union_stream_step_def)
qed

definition endpoints :: "('a \<times> 'a) list \<Rightarrow> 'a set" where
  "endpoints pairs = fst ` set pairs \<union> snd ` set pairs"

lemma union_stream_inv:
  "\<exists>ids keys u. fold_option union_stream_step pairs ([], [], \<lparr>parent = [], rank = []\<rparr>) = Some (ids, keys, u)
    \<and> stream_inv (set pairs) (endpoints pairs) (ids, keys, u)"
proof -
  have "\<exists>state. fold_option union_stream_step pairs ([], [], \<lparr>parent = [], rank = []\<rparr>) = Some state
    \<and> stream_inv (set pairs) (endpoints pairs) state"
  proof (rule fold_option_total)
    have "uf_with_len 0 = \<lparr>parent = [], rank = []\<rparr>" by (simp add: uf_with_len_def)
    with uf.make_represents [of 0] show "stream_inv (set []) (endpoints []) ([], [], \<lparr>parent = [], rank = []\<rparr>)"
      by (simp add: stream_inv_def endpoints_def uf_len_def)
  next
    fix ys x zs state assume "stream_inv (set ys) (endpoints ys) state"
    from union_stream_step_inv [OF this, of "fst x" "snd x"]
    show "\<exists>state'. union_stream_step x state = Some state' \<and> stream_inv (set (ys @ [x])) (endpoints (ys @ [x])) state'"
      by (auto simp: endpoints_def insert_commute)
  qed
  then show ?thesis by auto
qed

lemma union_stream_law:
  "\<exists>u keys. union_stream pairs = Some (u, keys) \<and> uf_wf u
    \<and> (\<forall>i k. (i, k) \<in> set (enumerate 0 keys) \<longrightarrow> i < uf_len u) \<and> distinct (map snd (enumerate 0 keys))
    \<and> classes (snd ` set (enumerate 0 keys)) (same_class u (enumerate 0 keys)) m
      = classes (endpoints pairs) (component (set pairs)) m"
proof -
  obtain ids keys u where f: "fold_option union_stream_step pairs ([], [], \<lparr>parent = [], rank = []\<rparr>) = Some (ids, keys, u)"
    and "stream_inv (set pairs) (endpoints pairs) (ids, keys, u)"
    using union_stream_inv by blast
  note inv = this(2) [unfolded stream_inv_def prod.case]
  have mem: "(i, k) \<in> set (enumerate 0 keys) \<longleftrightarrow> i < length keys \<and> keys ! i = k" for i k
    by (auto simp: in_set_enumerate_eq)
  have snd: "snd ` set (enumerate 0 keys) = endpoints pairs" using inv by (metis list.set_map map_snd_enumerate)
  have "classes (snd ` set (enumerate 0 keys)) (same_class u (enumerate 0 keys)) m
      = classes (snd ` set (enumerate 0 keys)) (component (set pairs)) m"
  proof (rule same_class_component)
    show "uf.represents u {(i, j). i < length keys \<and> j < length keys \<and> (keys ! i, keys ! j) \<in> set pairs}"
      using inv by blast
    show "distinct (map snd (enumerate 0 keys))" using inv by simp
    have "fst ` set (enumerate 0 keys) = {0..<length keys}" by (metis add_0 atLeastLessThan_upt list.set_map map_fst_enumerate)
    then show "{(i, j). i < length keys \<and> j < length keys \<and> (keys ! i, keys ! j) \<in> set pairs}
      \<subseteq> fst ` set (enumerate 0 keys) \<times> fst ` set (enumerate 0 keys)" by auto
    show "set pairs \<subseteq> snd ` set (enumerate 0 keys) \<times> snd ` set (enumerate 0 keys)" using inv snd by simp
  qed (use inv in \<open>auto simp: mem image_iff\<close>)
  moreover have "uf_wf u" using inv by (simp add: uf.represents_def)
  ultimately show ?thesis using f inv by (auto simp: union_stream_def snd mem)
qed

section \<open>Buckets of an index\<close>

text \<open>Two stored keys collide when their band hashes agree in a band.\<close>

definition collide :: "(u64 \<rightharpoonup> u64 list) \<Rightarrow> u64 \<Rightarrow> u64 \<Rightarrow> bool" where
  "collide m k l \<longleftrightarrow> (\<exists>hs gs. m k = Some hs \<and> m l = Some gs \<and> shares_band hs gs)"

lemma collide_nth:
  "collide m k l \<longleftrightarrow> (\<exists>hs gs b. m k = Some hs \<and> m l = Some gs \<and> b < length hs \<and> b < length gs \<and> hs ! b = gs ! b)"
  by (auto simp: collide_def shares_band_nth)

definition all_buckets :: "index_data \<Rightarrow> u32 list list" where
  "all_buckets d = concat (map (map snd) (buckets d))"

lemma live_members_mem: "(i, k) \<in> set (live_members d) \<longleftrightarrow> i < length (id_to_key d) \<and> id_to_key d ! i = Some k"
  by (auto simp: live_members_def set_map_filter_iff in_set_enumerate_eq intro!: bexI [of _ "(i, Some k)"])

lemma live_key_eq: "live_key d a = Some k \<longleftrightarrow> (unat a, k) \<in> set (live_members d)"
  by (auto simp: live_key_def live_members_mem)

lemma distinct_live_members: "distinct (map fst (live_members d))"
proof -
  have "map fst (List.map_filter (\<lambda>(i, key). map_option (Pair i) key) xs) = map fst (filter (\<lambda>(i, key). key \<noteq> None) xs)" for xs :: "(nat \<times> u64 option) list"
    by (induction xs) (auto simp: map_filter_simps)
  then show ?thesis unfolding live_members_def by (simp add: distinct_map_filter)
qed

lemma distinct_live_keys:
  assumes "index_data_inv d"
  shows "distinct (map snd (live_members d))"
proof -
  have "inj_on snd (set (live_members d))"
    using inv_key_unique [OF assms] by (auto simp: inj_on_def live_members_mem inv_length [OF assms])
  then show ?thesis using distinct_live_members [of d] by (simp add: distinct_map)
qed

lemma live_keys:
  assumes "index_data_inv d"
  shows "snd ` set (live_members d) = dom (index_data_lookup d)"
proof -
  have "(\<exists>i. (i, k) \<in> set (live_members d)) \<longleftrightarrow> (\<exists>hs. index_data_lookup d k = Some hs)" for k
    unfolding index_data_lookup_iff [OF assms] live_members_mem inv_length [OF assms]
    using inv_live [OF assms] by (metis not_None_eq option.distinct(1))
  then show ?thesis by (force simp: dom_def)
qed

lemma live_lookup:
  assumes "index_data_inv d" and "(i, k) \<in> set (live_members d)"
  shows "index_data_lookup d k = band_hashes d ! i"
  using assms(2) inv_key [OF assms(1), of k "of_nat i"] inv_ident [OF assms(1), of i] inv_length [OF assms(1)]
  by (auto simp: live_members_mem index_data_lookup_def)

lemma set_all_buckets:
  assumes "index_data_inv d"
  shows "ids \<in> set (all_buckets d) \<longleftrightarrow>
    ids \<noteq> [] \<and> (\<exists>b < length (buckets d). \<exists>h. ids = live_ids (band_hashes d) b h)"
proof -
  have "ids \<in> set (all_buckets d) \<longleftrightarrow> (\<exists>b < length (buckets d). \<exists>h. (h, ids) \<in> set (buckets d ! b))"
    by (force simp: all_buckets_def in_set_conv_nth [of _ "buckets d"])
  also have "\<dots> \<longleftrightarrow> (\<exists>b < length (buckets d). \<exists>h. non_empty (live_ids (band_hashes d) b h) = Some ids)"
    using hm_get_mem inv_wf(2) [OF assms] inv_bucket [OF assms] by (metis nth_mem)
  finally show ?thesis by (auto simp: non_empty_def split: if_splits)
qed

lemma bucket_distinct: "index_data_inv d \<Longrightarrow> ids \<in> set (all_buckets d) \<Longrightarrow> distinct ids"
  by (auto simp: set_all_buckets dest: inv_cap intro: distinct_live_ids)

text \<open>Two identifiers stand in one bucket exactly when they are live and their keys share a band.\<close>

lemma together_iff:
  assumes inv: "index_data_inv d"
  shows "(\<exists>ids \<in> set (all_buckets d). a \<in> set ids \<and> b \<in> set ids) \<longleftrightarrow>
    (\<exists>k l. (unat a, k) \<in> set (live_members d) \<and> (unat b, l) \<in> set (live_members d)
       \<and> collide (index_data_lookup d) k l)"
proof -
  let ?B = "band_hashes d"
  have live: "(\<exists>k. (unat a, k) \<in> set (live_members d)) \<longleftrightarrow> unat a < length ?B \<and> (\<exists>hs. ?B ! unat a = Some hs)" for a
    using inv_live [OF inv, of "unat a"] by (auto simp: live_members_mem inv_length [OF inv])
  have "(\<exists>ids \<in> set (all_buckets d). a \<in> set ids \<and> b \<in> set ids) \<longleftrightarrow>
      (\<exists>c < length (buckets d). \<exists>h. a \<in> set (live_ids ?B c h) \<and> b \<in> set (live_ids ?B c h))"
    unfolding set_all_buckets [OF inv] Bex_def by (metis empty_iff empty_set)
  also have "\<dots> \<longleftrightarrow> (\<exists>hs hs' c. unat a < length ?B \<and> unat b < length ?B \<and> ?B ! unat a = Some hs \<and> ?B ! unat b = Some hs'
      \<and> c < length (buckets d) \<and> hs ! c = hs' ! c)"
    unfolding set_live_ids [OF inv_cap [OF inv]] by fastforce
  also have "\<dots> \<longleftrightarrow> (\<exists>k l. (unat a, k) \<in> set (live_members d) \<and> (unat b, l) \<in> set (live_members d)
       \<and> collide (index_data_lookup d) k l)"
  proof
    assume "\<exists>hs hs' c. unat a < length ?B \<and> unat b < length ?B \<and> ?B ! unat a = Some hs \<and> ?B ! unat b = Some hs'
      \<and> c < length (buckets d) \<and> hs ! c = hs' ! c"
    then obtain hs hs' c where c: "unat a < length ?B" "unat b < length ?B" "?B ! unat a = Some hs" "?B ! unat b = Some hs'"
      "c < length (buckets d)" "hs ! c = hs' ! c" by blast
    then obtain k l where "(unat a, k) \<in> set (live_members d)" "(unat b, l) \<in> set (live_members d)" using live by blast
    moreover from this c have "collide (index_data_lookup d) k l"
      using live_lookup [OF inv] inv_width [OF inv] unfolding collide_nth by metis
    ultimately show "\<exists>k l. (unat a, k) \<in> set (live_members d) \<and> (unat b, l) \<in> set (live_members d)
       \<and> collide (index_data_lookup d) k l" by blast
  next
    assume "\<exists>k l. (unat a, k) \<in> set (live_members d) \<and> (unat b, l) \<in> set (live_members d)
       \<and> collide (index_data_lookup d) k l"
    then obtain k l where "(unat a, k) \<in> set (live_members d)" "(unat b, l) \<in> set (live_members d)"
       "collide (index_data_lookup d) k l" by blast
    then show "\<exists>hs hs' c. unat a < length ?B \<and> unat b < length ?B \<and> ?B ! unat a = Some hs \<and> ?B ! unat b = Some hs'
      \<and> c < length (buckets d) \<and> hs ! c = hs' ! c"
      using live_lookup [OF inv] inv_width [OF inv] unfolding collide_nth live_members_mem inv_length [OF inv] by metis
  qed
  finally show ?thesis .
qed

text \<open>The common end of the grouping functions on an index: a partition of the identifiers that
  represents edges between keys has the components of these edges as its classes.\<close>

definition id_edges :: "index_data \<Rightarrow> (u64 \<times> u64) set \<Rightarrow> (usize \<times> usize) set" where
  "id_edges d E = {(i, j). \<exists>k l. (i, k) \<in> set (live_members d) \<and> (j, l) \<in> set (live_members d) \<and> (k, l) \<in> E}"

lemma index_partition:
  assumes inv: "index_data_inv d" and rep: "uf.represents u (id_edges d E)" and len: "uf_len u = length (id_to_key d)"
    and E: "E \<subseteq> dom (index_data_lookup d) \<times> dom (index_data_lookup d)"
  shows "uf_wf u \<and> (\<forall>i k. (i, k) \<in> set (live_members d) \<longrightarrow> i < uf_len u) \<and> distinct (map snd (live_members d))
    \<and> classes (snd ` set (live_members d)) (same_class u (live_members d)) m
      = classes (dom (index_data_lookup d)) (component E) m"
proof -
  have rng: "i < uf_len u" if "(i, k) \<in> set (live_members d)" for i k
    using that by (simp add: live_members_mem len)
  have "classes (snd ` set (live_members d)) (same_class u (live_members d)) m
      = classes (snd ` set (live_members d)) (component E) m"
  proof (rule same_class_component [OF rep rng distinct_live_members distinct_live_keys [OF inv]])
    show "id_edges d E \<subseteq> fst ` set (live_members d) \<times> fst ` set (live_members d)" by (force simp: id_edges_def)
    show "E \<subseteq> snd ` set (live_members d) \<times> snd ` set (live_members d)" using E live_keys [OF inv] by simp
    fix i k j l assume ik: "(i, k) \<in> set (live_members d)" and jl: "(j, l) \<in> set (live_members d)"
    then show "(i, j) \<in> id_edges d E \<longleftrightarrow> (k, l) \<in> E"
      by (auto simp: id_edges_def live_members_mem)
  qed
  with rng rep show ?thesis
    using distinct_live_keys [OF inv] by (auto simp: uf.represents_def live_keys [OF inv])
qed

lemma live_ident: "index_data_inv d \<Longrightarrow> (i, k) \<in> set (live_members d) \<Longrightarrow> \<exists>a :: u32. i = unat a"
  by (metis live_members_mem inv_ident inv_length)

lemma id_edges_together:
  assumes "index_data_inv d"
  shows "(i, j) \<in> id_edges d {(k, l). collide (index_data_lookup d) k l} \<longleftrightarrow>
    (\<exists>ids \<in> set (all_buckets d). \<exists>a b. a \<in> set ids \<and> b \<in> set ids \<and> i = unat a \<and> j = unat b)"
    (is "_ \<longleftrightarrow> ?R")
proof -
  have "(i, j) \<in> id_edges d {(k, l). collide (index_data_lookup d) k l} \<longleftrightarrow>
      (\<exists>(a :: u32) (b :: u32). i = unat a \<and> j = unat b \<and> (unat a, unat b) \<in> id_edges d {(k, l). collide (index_data_lookup d) k l})"
    using live_ident [OF assms] unfolding id_edges_def by blast
  also have "\<dots> \<longleftrightarrow> ?R"
    using together_iff [OF assms] unfolding id_edges_def by blast
  finally show ?thesis .
qed

lemma connected_by_subset: "E \<subseteq> connected_by F \<Longrightarrow> connected_by E \<subseteq> connected_by F"
proof (rule subrelI)
  fix i j assume "E \<subseteq> connected_by F" and "(i, j) \<in> connected_by E"
  from this(2) show "(i, j) \<in> connected_by F"
    by (rule connected_by_least)
      (use \<open>E \<subseteq> connected_by F\<close> in \<open>blast intro: connected_by_refl connected_by_sym connected_by_trans\<close>)+
qed

lemma connected_by_eqI: "E \<subseteq> connected_by F \<Longrightarrow> F \<subseteq> connected_by E \<Longrightarrow> connected_by E = connected_by F"
  by (simp add: connected_by_subset subset_antisym)

subsection \<open>Without verification\<close>

definition clique :: "u32 list \<Rightarrow> (usize \<times> usize) set" where
  "clique ids = unat ` set ids \<times> unat ` set ids"

lemma clique_snoc:
  assumes "ys \<noteq> []"
  shows "connected_by (insert (unat (hd ys), unat x) (F \<union> clique ys)) = connected_by (F \<union> clique (ys @ [x]))"
    (is "connected_by ?L = connected_by ?R")
proof (rule connected_by_eqI)
  show "?L \<subseteq> connected_by ?R"
    using assms by (auto simp: clique_def intro!: connected_by_edge)
  have hd: "(unat (hd ys), unat x) \<in> connected_by ?L" by (rule connected_by_edge) simp
  have old: "(unat y, unat z) \<in> connected_by ?L" if "y \<in> set ys" "z \<in> set ys" for y z
    using that by (intro connected_by_edge) (simp add: clique_def)
  have new: "(unat y, unat x) \<in> connected_by ?L" if "y \<in> set ys" for y
    using old [OF that hd_in_set [OF assms]] hd by (rule connected_by_trans)
  have "(i, j) \<in> connected_by ?L" if "(i, j) \<in> clique (ys @ [x])" for i j
    using that old new connected_by_sym [OF new] by (auto simp: clique_def connected_by_refl)
  then show "?R \<subseteq> connected_by ?L" by (auto intro: connected_by_edge)
qed

lemma anchor_loop:
  assumes "uf.represents u F" and "\<And>a. a \<in> set ids \<Longrightarrow> unat a < uf_len u \<and> live_key d a \<noteq> None"
  shows "\<exists>anchor u'. fold_option (anchor_step d) ids (None, u) = Some (anchor, u') \<and> uf_len u' = uf_len u
    \<and> uf.represents u' (F \<union> clique ids)"
proof -
  define Q where "Q ys st \<longleftrightarrow> (case st of (anchor, u') \<Rightarrow>
      anchor = (if ys = [] then None else Some (unat (hd ys))) \<and> uf_len u' = uf_len u \<and> uf.represents u' (F \<union> clique ys))" for ys st
  have "\<exists>st. fold_option (anchor_step d) ids (None, u) = Some st \<and> Q ids st"
  proof (rule fold_option_total)
    show "Q [] (None, u)" using assms(1) by (simp add: Q_def clique_def)
  next
    fix ys x zs st assume ids: "ids = ys @ x # zs" and Q: "Q ys st"
    obtain anchor u1 where st: "st = (anchor, u1)" by (cases st)
    have live: "live_key d x \<noteq> None" and x: "unat x < uf_len u1" using assms(2) [of x] Q by (auto simp: ids Q_def st)
    show "\<exists>st'. anchor_step d x st = Some st' \<and> Q (ys @ [x]) st'"
    proof (cases "ys = []")
      case True
      have "connected_by (F \<union> clique [x]) = connected_by F"
        by (rule connected_by_eqI) (auto simp: clique_def intro: connected_by_edge connected_by_refl)
      then have "uf.represents u1 (F \<union> clique [x])"
        using Q uf_represents_cong [of "F \<union> clique [x]" F u1] by (simp add: Q_def st True clique_def)
      then show ?thesis using Q live by (simp add: Q_def st True anchor_step_def)
    next
      case False
      then have "unat (hd ys) < uf_len u1" using assms(2) [of "hd ys"] Q by (auto simp: ids Q_def st)
      with x Q obtain u2 where "uf_union (unat (hd ys)) (unat x) u1 = Some u2" "uf_len u2 = uf_len u1"
        "uf.represents u2 (insert (unat (hd ys), unat x) (F \<union> clique ys))"
        using uf.join_represents [of u1 "F \<union> clique ys"] by (auto simp: Q_def st)
      then show ?thesis
        using Q live False uf_represents_cong [OF clique_snoc [OF False]] by (auto simp: Q_def st anchor_step_def)
    qed
  qed
  then show ?thesis by (auto simp: Q_def)
qed

lemma bucket_live:
  assumes "index_data_inv d" and "ids \<in> set (all_buckets d)" and "a \<in> set ids"
  shows "unat a < length (id_to_key d) \<and> live_key d a \<noteq> None"
proof -
  have "\<exists>k. (unat a, k) \<in> set (live_members d)" using together_iff [OF assms(1), of a a] assms(2,3) by blast
  then show ?thesis by (auto simp: live_members_mem live_key_def)
qed

lemma union_index_buckets_unverified_law:
  assumes "index_data_inv d"
  shows "\<exists>u. union_index_buckets_unverified d (uf_with_len (length (id_to_key d))) = Some u
    \<and> uf_len u = length (id_to_key d)
    \<and> uf.represents u (id_edges d {(k, l). collide (index_data_lookup d) k l})"
proof -
  let ?Q = "\<lambda>ys u. uf_len u = length (id_to_key d) \<and> uf.represents u (\<Union>ids \<in> set ys. clique ids)"
  have "\<exists>u. union_index_buckets_unverified d (uf_with_len (length (id_to_key d))) = Some u \<and> ?Q (all_buckets d) u"
    unfolding union_index_buckets_unverified_def all_buckets_def [symmetric]
  proof (rule fold_option_total)
    show "?Q [] (uf_with_len (length (id_to_key d)))"
      using uf.make_represents [of "length (id_to_key d)"] by (simp add: uf_len_def uf_with_len_def)
  next
    fix ys ids zs u assume split: "all_buckets d = ys @ ids # zs" and Q: "?Q ys u"
    then have "ids \<in> set (all_buckets d)" by simp
    with Q obtain anchor u' where "fold_option (anchor_step d) ids (None, u) = Some (anchor, u')" "uf_len u' = uf_len u"
      "uf.represents u' ((\<Union>ids \<in> set ys. clique ids) \<union> clique ids)"
      using anchor_loop [of u _ ids d] bucket_live [OF assms] by metis
    then show "\<exists>u'. Option.bind (fold_option (anchor_step d) ids (None, u)) (\<lambda>(anchor, u). Some u) = Some u' \<and> ?Q (ys @ [ids]) u'"
      using Q by (simp add: Un_commute)
  qed
  moreover have "(\<Union>ids \<in> set (all_buckets d). clique ids) = id_edges d {(k, l). collide (index_data_lookup d) k l}"
    unfolding set_eq_iff split_paired_All UN_iff id_edges_together [OF assms] clique_def by blast
  ultimately show ?thesis by simp
qed

subsection \<open>With verification\<close>

lemma set_bucket_pairs:
  "(a, b) \<in> set (bucket_pairs ids) \<longleftrightarrow> (\<exists>l r. l < r \<and> r < length ids \<and> a = ids ! l \<and> b = ids ! r)"
  by (fastforce simp: bucket_pairs_def image_iff Suc_le_eq)

lemma bucket_pairs_cover:
  assumes "a \<in> set ids" and "b \<in> set ids" and "a \<noteq> b"
  shows "(a, b) \<in> set (bucket_pairs ids) \<or> (b, a) \<in> set (bucket_pairs ids)"
proof -
  obtain l r where lr: "l < length ids" "r < length ids" "a = ids ! l" "b = ids ! r"
    using assms(1,2) by (auto simp: in_set_conv_nth)
  then have "l < r \<or> r < l" using assms(3) by (metis linorder_neqE_nat)
  with lr show ?thesis unfolding set_bucket_pairs by blast
qed

lemma visited_pairs:
  "concat (map (\<lambda>table. concat (map (bucket_pairs \<circ> snd) table)) (buckets d)) = concat (map bucket_pairs (all_buckets d))"
proof -
  have "concat (map (\<lambda>table. concat (map (bucket_pairs \<circ> snd) table)) ts) = concat (map bucket_pairs (concat (map (map snd) ts)))"
    for ts :: "('a \<times> u32 list) list list"
    by (induction ts) (simp_all add: comp_def)
  then show ?thesis by (simp add: all_buckets_def)
qed

definition pair_verified :: "(u64 \<Rightarrow> u64 \<Rightarrow> bool) \<Rightarrow> u64 \<Rightarrow> u64 \<Rightarrow> bool" where
  "pair_verified verify k l \<longleftrightarrow> verify (min k l) (max k l)"

lemma ordered_pair_min_max: "ordered_pair k l = (min k l, max k l)"
  by (simp add: ordered_pair_def min_def max_def)

lemma uf_connected_law:
  assumes "uf.represents u E" and "i < uf_len u" and "j < uf_len u"
  shows "\<exists>u'. uf_connected i j u = Some ((i, j) \<in> connected_by E, u') \<and> uf_len u' = uf_len u \<and> uf.represents u' E"
proof -
  obtain r u1 where r: "uf_find i u = Some (r, u1)" "uf_wf u1" "uf_len u1 = uf_len u" "uf_root (parent u) i r"
    "\<forall>i r. uf_root (parent u1) i r \<longleftrightarrow> uf_root (parent u) i r"
    using uf_find_law [of u i] assms by (auto simp: uf.represents_def)
  obtain q u2 where q: "uf_find j u1 = Some (q, u2)" "uf_len u2 = uf_len u1" "uf_root (parent u1) j q" "uf_wf u2"
    "\<forall>i r. uf_root (parent u2) i r \<longleftrightarrow> uf_root (parent u1) i r"
    using uf_find_law [of u1 j] assms(3) r by auto
  have "uf_same u2 = uf_same u" using r(5) q(5) by (simp add: uf_same_def fun_eq_iff)
  moreover have "r = q \<longleftrightarrow> (i, j) \<in> connected_by E"
  proof -
    have "r = q \<longleftrightarrow> uf_same u i j"
      using r(4,5) q(3) by (auto simp: uf_same_def dest: uf_root_unique)
    then show ?thesis using assms by (simp add: uf.represents_def)
  qed
  ultimately show ?thesis using r q assms by (auto simp: uf_connected_def uf.represents_def)
qed

definition accepts :: "index_data \<Rightarrow> (u64 \<Rightarrow> u64 \<Rightarrow> bool) \<Rightarrow> u32 \<Rightarrow> u32 \<Rightarrow> bool" where
  "accepts d verify a b \<longleftrightarrow> (\<exists>k l. live_key d a = Some k \<and> live_key d b = Some l \<and> pair_verified verify k l)"

lemma verify_step_law:
  assumes rep: "uf.represents u E" and rng: "unat a < uf_len u" "unat b < uf_len u"
  shows "\<exists>u'. verify_step d verify (a, b) u = Some u' \<and> uf_len u' = uf_len u
    \<and> uf.represents u' (if accepts d verify a b then insert (unat a, unat b) E else E)"
proof -
  obtain u1 where u1: "uf_connected (unat a) (unat b) u = Some ((unat a, unat b) \<in> connected_by E, u1)"
    "uf_len u1 = uf_len u" "uf.represents u1 E"
    using uf_connected_law [OF assms] by blast
  show ?thesis
  proof (cases "(unat a, unat b) \<in> connected_by E")
    case True
    then have "connected_by (insert (unat a, unat b) E) = connected_by E"
      by (intro connected_by_eqI) (auto intro: connected_by_edge)
    from uf_represents_cong [OF this] u1(3) have "uf.represents u1 (insert (unat a, unat b) E)" by simp
    with u1 True show ?thesis by (simp add: verify_step_def)
  next
    case False
    obtain u2 where "uf_union (unat a) (unat b) u1 = Some u2" "uf_len u2 = uf_len u1"
      "uf.represents u2 (insert (unat a, unat b) E)"
      using uf.join_represents [OF u1(3), of "unat a" "unat b"] rng u1(2) by auto
    with u1 False show ?thesis
      by (auto simp: verify_step_def accepts_def ordered_pair_min_max pair_verified_def split: option.splits)
  qed
qed

definition accepted :: "(u64 \<rightharpoonup> u64 list) \<Rightarrow> (u64 \<Rightarrow> u64 \<Rightarrow> bool) \<Rightarrow> (u64 \<times> u64) set" where
  "accepted m verify = {(k, l). k \<noteq> l \<and> collide m k l \<and> pair_verified verify k l}"

lemma verified_edges:
  assumes inv: "index_data_inv d"
  shows "connected_by {(unat a, unat b) |a b. (a, b) \<in> set (concat (map bucket_pairs (all_buckets d))) \<and> accepts d verify a b}
    = connected_by (id_edges d (accepted (index_data_lookup d) verify))" (is "connected_by ?F = connected_by ?E")
proof (rule connected_by_eqI)
  have iff: "(unat a, unat b) \<in> ?E \<longleftrightarrow>
      a \<noteq> b \<and> (\<exists>ids \<in> set (all_buckets d). a \<in> set ids \<and> b \<in> set ids) \<and> accepts d verify a b" for a b
  proof -
    have key: "k = k'" if "(unat a, k) \<in> set (live_members d)" "(unat a, k') \<in> set (live_members d)" for a :: u32 and k k'
      using that by (simp add: live_members_mem)
    have ident: "a = b" if "(unat a, k) \<in> set (live_members d)" "(unat b, k) \<in> set (live_members d)" for a b :: u32 and k
      using that inv_key_unique [OF inv, of "unat a" "unat b" k]
      by (simp add: live_members_mem inv_length [OF inv] word_unat_eq_iff)
    show ?thesis
      unfolding id_edges_def accepted_def accepts_def live_key_eq together_iff [OF inv] mem_Collect_eq prod.case
      using key ident by blast
  qed
  show "?F \<subseteq> connected_by ?E"
  proof
    fix p assume "p \<in> ?F"
    then obtain a b ids where p: "p = (unat a, unat b)" "accepts d verify a b"
      and ids: "ids \<in> set (all_buckets d)" "(a, b) \<in> set (bucket_pairs ids)" by auto
    then have "a \<in> set ids" "b \<in> set ids" "a \<noteq> b"
      using bucket_distinct [OF inv ids(1)] by (auto simp: set_bucket_pairs nth_eq_iff_index_eq)
    with ids p iff [of a b] show "p \<in> connected_by ?E" by (auto intro: connected_by_edge)
  qed
  have sym: "accepts d verify a b \<longleftrightarrow> accepts d verify b a" for a b
    by (auto simp: accepts_def pair_verified_def min.commute max.commute)
  show "?E \<subseteq> connected_by ?F"
  proof (rule subrelI)
    fix i j assume ij: "(i, j) \<in> ?E"
    then obtain a b :: u32 where ab: "i = unat a" "j = unat b" using live_ident [OF inv] by (force simp: id_edges_def)
    with ij iff [of a b] obtain ids where "a \<noteq> b" "ids \<in> set (all_buckets d)" "a \<in> set ids" "b \<in> set ids" "accepts d verify a b"
      by blast
    then have "(i, j) \<in> ?F \<or> (j, i) \<in> ?F" using bucket_pairs_cover [of a ids b] sym [of a b]
      unfolding ab set_concat set_map by blast
    then show "(i, j) \<in> connected_by ?F"
      by (elim disjE) (rule connected_by_edge, assumption, rule connected_by_sym, rule connected_by_edge)
  qed
qed

lemma union_index_buckets_law:
  assumes inv: "index_data_inv d"
  shows "\<exists>u. union_index_buckets d verify (uf_with_len (length (id_to_key d))) = Some u
    \<and> uf_len u = length (id_to_key d)
    \<and> uf.represents u (id_edges d (accepted (index_data_lookup d) verify))"
proof -
  let ?F = "\<lambda>ys. {(unat a, unat b) |a b. (a, b) \<in> set ys \<and> accepts d verify a b}"
  let ?Q = "\<lambda>ys u. uf_len u = length (id_to_key d) \<and> uf.represents u (?F ys)"
  have "\<exists>u. union_index_buckets d verify (uf_with_len (length (id_to_key d))) = Some u
      \<and> ?Q (concat (map bucket_pairs (all_buckets d))) u"
    unfolding union_index_buckets_def visited_pairs
  proof (rule fold_option_total)
    show "?Q [] (uf_with_len (length (id_to_key d)))"
      using uf.make_represents [of "length (id_to_key d)"] by (simp add: uf_len_def uf_with_len_def)
  next
    fix ys p zs u assume split: "concat (map bucket_pairs (all_buckets d)) = ys @ p # zs" and Q: "?Q ys u"
    obtain a b where p: "p = (a, b)" by (cases p)
    have "(a, b) \<in> set (concat (map bucket_pairs (all_buckets d)))" unfolding split p by simp
    then obtain ids where "ids \<in> set (all_buckets d)" "a \<in> set ids" "b \<in> set ids"
      by (auto simp: set_bucket_pairs)
    then have "unat a < uf_len u" "unat b < uf_len u" using bucket_live [OF inv] Q by auto
    with Q obtain u' where u': "verify_step d verify p u = Some u'" "uf_len u' = uf_len u"
      "uf.represents u' (if accepts d verify a b then insert (unat a, unat b) (?F ys) else ?F ys)"
      using verify_step_law [of u "?F ys" a b d verify] by (auto simp: p)
    moreover have "(if accepts d verify a b then insert (unat a, unat b) (?F ys) else ?F ys) = ?F (ys @ [p])"
      by (auto simp: p)
    ultimately show "\<exists>u'. verify_step d verify p u = Some u' \<and> ?Q (ys @ [p]) u'" using Q by auto
  qed
  then show ?thesis using uf_represents_cong [OF verified_edges [OF inv]] by auto
qed

section \<open>Candidate pairs\<close>

text \<open>A client that calls \<open>next\<close> until the iterator is exhausted.\<close>

partial_function (option) candidate_pairs_collect :: "candidate_pairs \<Rightarrow> (u64 \<times> u64) list option" where
  "candidate_pairs_collect s =
     (case candidate_pairs_next s of
        (None, _) \<Rightarrow> Some []
      | (Some p, s') \<Rightarrow> Option.bind (candidate_pairs_collect s') (\<lambda>ps. Some (p # ps)))"

text \<open>The position pairs the iterator has not visited, and the search for the next unseen live pair
  among them.\<close>

definition todo :: "candidate_pairs \<Rightarrow> (u32 \<times> u32) list" where
  "todo s =
     (if length (cp_buckets s) \<le> cp_bucket_index s then []
      else let ids = cp_buckets s ! cp_bucket_index s
           in map (\<lambda>r. (ids ! cp_left_index s, ids ! r)) [cp_right_index s..<length ids]
              @ concat (map (\<lambda>l. map (\<lambda>r. (ids ! l, ids ! r)) [l + 1..<length ids]) [cp_left_index s + 1..<length ids])
              @ concat (map bucket_pairs (drop (cp_bucket_index s + 1) (cp_buckets s))))"

fun first_new :: "index_data \<Rightarrow> (u32 \<times> u32) list \<Rightarrow> (u32 \<times> u32) list \<Rightarrow> (u64 \<times> u64) option \<times> (u32 \<times> u32) list \<times> (u32 \<times> u32) list" where
  "first_new d seen [] = (None, seen, [])"
| "first_new d seen ((a, b) # ps) =
     (if a = b \<or> ordered_pair a b \<in> set seen then first_new d seen ps
      else case live_key d (fst (ordered_pair a b)) of
             None \<Rightarrow> first_new d (ordered_pair a b # seen) ps
           | Some k \<Rightarrow> (case live_key d (snd (ordered_pair a b)) of
                          None \<Rightarrow> first_new d (ordered_pair a b # seen) ps
                        | Some l \<Rightarrow> (Some (ordered_pair k l), ordered_pair a b # seen, ps)))"

lemma bucket_pairs_unfold: "bucket_pairs ids = map (\<lambda>r. (ids ! 0, ids ! r)) [1..<length ids]
    @ concat (map (\<lambda>l. map (\<lambda>r. (ids ! l, ids ! r)) [l + 1..<length ids]) [1..<length ids])"
  by (cases "length ids") (simp_all add: bucket_pairs_def upt_conv_Cons del: upt_Suc)

lemma todo_next_bucket:
  assumes "cp_bucket_index s < length (cp_buckets s)" and "length (cp_buckets s ! cp_bucket_index s) \<le> cp_left_index s + 1"
    and "cp_left_index s < cp_right_index s"
  shows "todo (s\<lparr>cp_bucket_index := cp_bucket_index s + 1, cp_left_index := 0, cp_right_index := 1\<rparr>) = todo s"
proof -
  let ?i = "Suc (cp_bucket_index s)"
  have "todo s = concat (map bucket_pairs (drop ?i (cp_buckets s)))"
    using assms by (simp add: todo_def Let_def)
  also have "\<dots> = todo (s\<lparr>cp_bucket_index := cp_bucket_index s + 1, cp_left_index := 0, cp_right_index := 1\<rparr>)"
  proof (cases "?i < length (cp_buckets s)")
    case True
    then show ?thesis
      unfolding todo_def Let_def
      by (simp add: Cons_nth_drop_Suc [OF True, symmetric] bucket_pairs_unfold del: upt_Suc)
  qed (simp add: todo_def)
  finally show ?thesis ..
qed

lemma todo_next_left:
  assumes "cp_bucket_index s < length (cp_buckets s)" and "cp_left_index s + 1 < length (cp_buckets s ! cp_bucket_index s)"
    and "length (cp_buckets s ! cp_bucket_index s) \<le> cp_right_index s"
  shows "todo (s\<lparr>cp_left_index := cp_left_index s + 1, cp_right_index := cp_left_index s + 2\<rparr>) = todo s"
  using assms by (simp add: todo_def Let_def upt_conv_Cons del: upt_Suc)

lemma todo_next_right:
  assumes "cp_bucket_index s < length (cp_buckets s)" and "cp_right_index s < length (cp_buckets s ! cp_bucket_index s)"
  shows "todo s = (cp_buckets s ! cp_bucket_index s ! cp_left_index s, cp_buckets s ! cp_bucket_index s ! cp_right_index s)
    # todo (s\<lparr>cp_right_index := cp_right_index s + 1\<rparr>)"
  using assms by (simp add: todo_def Let_def upt_conv_Cons del: upt_Suc)

definition todo_state :: "candidate_pairs \<Rightarrow> (u32 \<times> u32) list \<times> (u32 \<times> u32) list" where
  "todo_state s = (cp_seen s, todo s)"

lemma todo_seen [simp]: "todo (s\<lparr>cp_seen := x\<rparr>) = todo s"
  by (simp add: todo_def)

lemma candidate_pairs_next_law:
  "cp_left_index s < cp_right_index s \<Longrightarrow>
    (case candidate_pairs_next s of (r, s') \<Rightarrow> cp_left_index s' < cp_right_index s' \<and> cp_index s' = cp_index s
      \<and> (r, cp_seen s', todo s') = first_new (cp_index s) (cp_seen s) (todo s))"
proof (induction s rule: candidate_pairs_next.induct)
  case (1 s)
  let ?ids = "cp_buckets s ! cp_bucket_index s"
  consider (stop) "length (cp_buckets s) \<le> cp_bucket_index s"
    | (bucket) "cp_bucket_index s < length (cp_buckets s)" "length ?ids \<le> cp_left_index s + 1"
    | (left) "cp_bucket_index s < length (cp_buckets s)" "cp_left_index s + 1 < length ?ids" "length ?ids \<le> cp_right_index s"
    | (visit) "cp_bucket_index s < length (cp_buckets s)" "cp_left_index s + 1 < length ?ids" "cp_right_index s < length ?ids"
    by linarith
  then show ?case
  proof cases
    case stop
    then show ?thesis using 1(7) by (simp add: candidate_pairs_next.simps [of s] todo_def)
  next
    case bucket
    then have "candidate_pairs_next s = candidate_pairs_next (s\<lparr>cp_bucket_index := cp_bucket_index s + 1, cp_left_index := 0, cp_right_index := 1\<rparr>)"
      by (subst candidate_pairs_next.simps) (simp add: Let_def)
    then show ?thesis using 1(1) bucket todo_next_bucket [OF bucket 1(7)] by simp
  next
    case left
    then have "candidate_pairs_next s = candidate_pairs_next (s\<lparr>cp_left_index := cp_left_index s + 1, cp_right_index := cp_left_index s + 2\<rparr>)"
      by (subst candidate_pairs_next.simps) (simp add: Let_def)
    then show ?thesis using 1(2) left todo_next_left [OF left] by simp
  next
    case visit
    define a b where "a = ?ids ! cp_left_index s" and "b = ?ids ! cp_right_index s"
    define s1 where "s1 = s\<lparr>cp_right_index := cp_right_index s + 1\<rparr>"
    define q where "q = ordered_pair a b"
    have todo: "todo s = (a, b) # todo s1" using todo_next_right [OF visit(1,3)] by (simp add: a_def b_def s1_def)
    have next_eq: "candidate_pairs_next s =
        (if a = b \<or> q \<in> set (cp_seen s1) then candidate_pairs_next s1
         else case live_key (cp_index s) (fst q) of
                None \<Rightarrow> candidate_pairs_next (s1\<lparr>cp_seen := q # cp_seen s1\<rparr>)
              | Some k \<Rightarrow> (case live_key (cp_index s) (snd q) of
                             None \<Rightarrow> candidate_pairs_next (s1\<lparr>cp_seen := q # cp_seen s1\<rparr>)
                           | Some l \<Rightarrow> (Some (ordered_pair k l), s1\<lparr>cp_seen := q # cp_seen s1\<rparr>)))"
      using visit by (subst candidate_pairs_next.simps) (simp add: Let_def a_def b_def q_def s1_def split: option.split)
    note visited = visit(1)[folded not_le] refl visit(2)[folded not_le] visit(3)[folded not_le] a_def b_def s1_def
    note ih = 1(3)[OF visited] 1(4)[OF visited _ q_def] 1(5)[OF visited _ q_def _ refl] 1(6)[OF visited _ q_def _ refl]
    have [simp]: "cp_seen s1 = cp_seen s" "cp_index s1 = cp_index s" "cp_left_index s1 < cp_right_index s1"
      using 1(7) by (simp_all add: s1_def)
    show ?thesis
    proof (cases "a = b \<or> q \<in> set (cp_seen s)")
      case True
      moreover from this have "case candidate_pairs_next s1 of (r, s') \<Rightarrow> cp_left_index s' < cp_right_index s'
          \<and> cp_index s' = cp_index s \<and> (r, cp_seen s', todo s') = first_new (cp_index s) (cp_seen s) (todo s1)"
        using ih(1,2) by (cases "a = b") simp_all
      ultimately show ?thesis by (simp add: next_eq todo q_def [symmetric])
    next
      case False
      then show ?thesis
        using ih(3,4) by (cases "live_key (cp_index s) (fst q)"; cases "live_key (cp_index s) (snd q)")
          (simp_all add: next_eq todo q_def [symmetric])
    qed
  qed
qed

section \<open>Exhausting the iterator\<close>

definition key_pair :: "index_data \<Rightarrow> u32 \<times> u32 \<Rightarrow> u64 \<times> u64" where
  "key_pair d q = ordered_pair (the (live_key d (fst q))) (the (live_key d (snd q)))"

definition pairs_live :: "index_data \<Rightarrow> (u32 \<times> u32) list \<Rightarrow> bool" where
  "pairs_live d ps \<longleftrightarrow> (\<forall>(a, b) \<in> set ps. a \<noteq> b \<and> live_key d a \<noteq> None \<and> live_key d b \<noteq> None)"

lemma first_new_law:
  assumes "pairs_live d ps"
  shows "(first_new d seen ps = (None, seen, []) \<and> (\<lambda>(a, b). ordered_pair a b) ` set ps \<subseteq> set seen)
    \<or> (\<exists>pre a b post. ps = pre @ (a, b) # post \<and> (\<lambda>(a, b). ordered_pair a b) ` set pre \<subseteq> set seen
        \<and> ordered_pair a b \<notin> set seen
        \<and> first_new d seen ps = (Some (key_pair d (ordered_pair a b)), ordered_pair a b # seen, post))"
  using assms
proof (induction ps)
  case (Cons p ps)
  obtain a b where p: "p = (a, b)" by (cases p)
  have ab: "a \<noteq> b" "live_key d a \<noteq> None" "live_key d b \<noteq> None" and ps: "pairs_live d ps"
    using Cons.prems by (simp_all add: pairs_live_def p)
  show ?case
  proof (cases "ordered_pair a b \<in> set seen")
    case True
    then have eq: "first_new d seen (p # ps) = first_new d seen ps" by (simp add: p)
    from Cons.IH [OF ps] show ?thesis
    proof (elim disjE exE conjE)
      fix pre a' b' post
      assume "ps = pre @ (a', b') # post" "(\<lambda>(a, b). ordered_pair a b) ` set pre \<subseteq> set seen"
        "ordered_pair a' b' \<notin> set seen" "first_new d seen ps = (Some (key_pair d (ordered_pair a' b')), ordered_pair a' b' # seen, post)"
      then show ?thesis using True unfolding eq
        by (intro disjI2 exI [of _ "p # pre"] exI [of _ a'] exI [of _ b'] exI [of _ post]) (simp add: p)
    qed (use True in \<open>simp add: eq, simp add: p\<close>)
  next
    case False
    have "live_key d (fst (ordered_pair a b)) \<noteq> None \<and> live_key d (snd (ordered_pair a b)) \<noteq> None"
      using ab(2,3) by (simp add: ordered_pair_def)
    then have "first_new d seen (p # ps) = (Some (key_pair d (ordered_pair a b)), ordered_pair a b # seen, ps)"
      using False ab(1) by (auto simp: p key_pair_def)
    then show ?thesis using False
      by (intro disjI2 exI [of _ "[]"] exI [of _ a] exI [of _ b] exI [of _ ps]) (simp add: p)
  qed
qed simp

lemma key_pair_inj:
  assumes inv: "index_data_inv d" and live: "live_key d a \<noteq> None" "live_key d b \<noteq> None" "live_key d a' \<noteq> None" "live_key d b' \<noteq> None"
    and eq: "key_pair d (ordered_pair a b) = key_pair d (ordered_pair a' b')"
  shows "ordered_pair a b = ordered_pair a' b'"
proof -
  have sym: "key_pair d (ordered_pair a b) = key_pair d (a, b)" for a b
    by (auto simp: key_pair_def ordered_pair_def not_le)
  have ident: "a = b" if "live_key d a = live_key d b" "live_key d a \<noteq> None" for a b
    using that inv_key_unique [OF inv, of "unat a" "unat b"]
    by (auto simp: live_key_def inv_length [OF inv] word_unat_eq_iff split: if_splits)
  from eq have "the (live_key d a) = the (live_key d a') \<and> the (live_key d b) = the (live_key d b')
      \<or> the (live_key d a) = the (live_key d b') \<and> the (live_key d b) = the (live_key d a')"
    unfolding sym by (auto simp: key_pair_def ordered_pair_def split: if_splits)
  then have "a = a' \<and> b = b' \<or> a = b' \<and> b = a'" using live by (auto intro!: ident)
  then show ?thesis by (auto simp: ordered_pair_min_max min.commute max.commute)
qed

lemma collect_law:
  assumes inv: "index_data_inv d"
  shows "cp_left_index s < cp_right_index s \<Longrightarrow> cp_index s = d \<Longrightarrow> pairs_live d (todo s) \<Longrightarrow>
    \<exists>ps. candidate_pairs_collect s = Some ps \<and> distinct ps
      \<and> set ps = key_pair d ` ((\<lambda>(a, b). ordered_pair a b) ` set (todo s) - set (cp_seen s))"
proof (induction "length (todo s)" arbitrary: s rule: less_induct)
  case less
  obtain r s' where n: "candidate_pairs_next s = (r, s')" by (cases "candidate_pairs_next s")
  with candidate_pairs_next_law [OF less.prems(1)] less.prems(2)
  have s': "cp_left_index s' < cp_right_index s'" "cp_index s' = d"
    and f: "first_new d (cp_seen s) (todo s) = (r, cp_seen s', todo s')" by simp_all
  let ?ord = "\<lambda>(a, b). ordered_pair a b"
  from first_new_law [OF less.prems(3), of "cp_seen s"] show ?case
  proof (elim disjE exE conjE)
    assume "first_new d (cp_seen s) (todo s) = (None, cp_seen s, [])" and "?ord ` set (todo s) \<subseteq> set (cp_seen s)"
    moreover from this(1) f have "candidate_pairs_collect s = Some []"
      by (subst candidate_pairs_collect.simps) (simp add: n)
    ultimately show ?thesis by auto
  next
    fix pre a b post
    assume split: "todo s = pre @ (a, b) # post" and pre: "?ord ` set pre \<subseteq> set (cp_seen s)" and new: "ordered_pair a b \<notin> set (cp_seen s)"
      and "first_new d (cp_seen s) (todo s) = (Some (key_pair d (ordered_pair a b)), ordered_pair a b # cp_seen s, post)"
    with f have r: "r = Some (key_pair d (ordered_pair a b))" "cp_seen s' = ordered_pair a b # cp_seen s" "todo s' = post" by simp_all
    have live: "pairs_live d post" "live_key d a \<noteq> None" "live_key d b \<noteq> None" using less.prems(3) by (simp_all add: pairs_live_def split)
    obtain ps where ps: "candidate_pairs_collect s' = Some ps" "distinct ps"
      "set ps = key_pair d ` (?ord ` set post - insert (ordered_pair a b) (set (cp_seen s)))"
      using less.hyps [of s'] s' live(1) by (auto simp: split r)
    have "key_pair d (ordered_pair a b) \<notin> set ps"
    proof
      assume "key_pair d (ordered_pair a b) \<in> set ps"
      then obtain q where q: "q \<in> ?ord ` set post" "q \<noteq> ordered_pair a b" "key_pair d (ordered_pair a b) = key_pair d q"
        unfolding ps(3) by blast
      then obtain a' b' where "(a', b') \<in> set post" "ordered_pair a' b' \<noteq> ordered_pair a b"
        "key_pair d (ordered_pair a b) = key_pair d (ordered_pair a' b')" by auto
      moreover from this(1) live(1) have "live_key d a' \<noteq> None" "live_key d b' \<noteq> None" by (auto simp: pairs_live_def)
      ultimately show False using key_pair_inj [OF inv live(2,3)] by metis
    qed
    moreover have "candidate_pairs_collect s = Some (key_pair d (ordered_pair a b) # ps)"
      by (subst candidate_pairs_collect.simps) (simp add: n r(1) ps(1))
    moreover have "set (key_pair d (ordered_pair a b) # ps) = key_pair d ` (?ord ` set (todo s) - set (cp_seen s))"
      using pre new unfolding list.set(2) ps(3) split by auto
    ultimately show ?thesis using ps(2) by auto
  qed
qed

lemma todo_new: "todo (candidate_pairs_new d) = concat (map bucket_pairs (cp_buckets (candidate_pairs_new d)))"
proof (cases "cp_buckets (candidate_pairs_new d)")
  case Nil
  then show ?thesis by (simp add: todo_def)
next
  case (Cons ids bs)
  have "bucket_pairs ids = map (\<lambda>r. (ids ! 0, ids ! r)) [1..<length ids]
      @ concat (map (\<lambda>l. map (\<lambda>r. (ids ! l, ids ! r)) [l + 1..<length ids]) [1..<length ids])"
    by (rule bucket_pairs_unfold)
  moreover have "cp_bucket_index (candidate_pairs_new d) = 0" "cp_left_index (candidate_pairs_new d) = 0"
    "cp_right_index (candidate_pairs_new d) = 1"
    by (simp_all add: candidate_pairs_new_def)
  ultimately show ?thesis by (simp add: todo_def Cons)
qed

lemma set_cp_buckets: "set (cp_buckets (candidate_pairs_new d)) = {ids \<in> set (all_buckets d). 2 \<le> length ids}"
proof -
  have "ids \<in> set (cp_buckets (candidate_pairs_new d)) \<longleftrightarrow>
      2 \<le> length ids \<and> (\<exists>b h. b < length (buckets d) \<and> (h, ids) \<in> set (buckets d ! b))" for ids
    by (force simp: candidate_pairs_new_def set_map_filter_iff in_set_enumerate_eq split: if_splits)
  moreover have "ids \<in> set (all_buckets d) \<longleftrightarrow> (\<exists>b < length (buckets d). \<exists>h. (h, ids) \<in> set (buckets d ! b))" for ids
    by (force simp: all_buckets_def in_set_conv_nth [of _ "buckets d"])
  ultimately show ?thesis by blast
qed

text \<open>The pairs of an index: the keys that collide, each pair once with the smaller key first.\<close>

definition colliding_pairs :: "(u64 \<rightharpoonup> u64 list) \<Rightarrow> (u64 \<times> u64) set" where
  "colliding_pairs m = {(k, l). k < l \<and> collide m k l}"

lemma collide_sym: "collide m k l \<Longrightarrow> collide m l k"
  unfolding collide_nth by metis

lemma accepted_dom: "accepted m verify \<subseteq> dom m \<times> dom m"
  by (auto simp: accepted_def collide_def)

lemma colliding_pairs_todo:
  assumes inv: "index_data_inv d"
  shows "key_pair d ` (\<lambda>(a, b). ordered_pair a b) ` set (todo (candidate_pairs_new d)) = colliding_pairs (index_data_lookup d)"
    and "pairs_live d (todo (candidate_pairs_new d))"
proof -
  let ?T = "set (todo (candidate_pairs_new d))"
  have T: "(a, b) \<in> ?T \<longleftrightarrow> (\<exists>ids \<in> set (all_buckets d). (a, b) \<in> set (bucket_pairs ids))" for a b
    unfolding todo_new by (auto simp: set_cp_buckets) (force simp: set_bucket_pairs)
  have mem: "a \<noteq> b \<and> (\<exists>ids \<in> set (all_buckets d). a \<in> set ids \<and> b \<in> set ids)" if "(a, b) \<in> ?T" for a b
  proof -
    from that obtain ids l r where "ids \<in> set (all_buckets d)" "l < r" "r < length ids" "a = ids ! l" "b = ids ! r"
      unfolding T set_bucket_pairs by blast
    moreover from this have "a \<noteq> b" using bucket_distinct [OF inv] by (simp add: nth_eq_iff_index_eq)
    ultimately show ?thesis by (metis less_trans nth_mem)
  qed
  have cover: "(a, b) \<in> ?T \<or> (b, a) \<in> ?T" if "a \<noteq> b" "ids \<in> set (all_buckets d)" "a \<in> set ids" "b \<in> set ids" for a b ids
    using bucket_pairs_cover that unfolding T by metis
  show "pairs_live d (todo (candidate_pairs_new d))"
    using mem bucket_live [OF inv] unfolding pairs_live_def by fastforce
  have keys: "key_pair d (ordered_pair a b) = (min k l, max k l)" if "live_key d a = Some k" "live_key d b = Some l" for a b k l
    using that by (auto simp: key_pair_def ordered_pair_def min_def max_def)
  show "key_pair d ` (\<lambda>(a, b). ordered_pair a b) ` ?T = colliding_pairs (index_data_lookup d)"
  proof (intro set_eqI iffI)
    fix p assume "p \<in> key_pair d ` (\<lambda>(a, b). ordered_pair a b) ` ?T"
    then obtain a b where ab: "(a, b) \<in> ?T" "p = key_pair d (ordered_pair a b)" by auto
    from mem [OF ab(1)] together_iff [OF inv, of a b] obtain k l where kl: "live_key d a = Some k" "live_key d b = Some l"
      "collide (index_data_lookup d) k l" "a \<noteq> b" unfolding live_key_eq by blast
    then have "k \<noteq> l" using inv_key_unique [OF inv, of "unat a" "unat b" k]
      by (auto simp: live_key_eq live_members_mem inv_length [OF inv] word_unat_eq_iff)
    then show "p \<in> colliding_pairs (index_data_lookup d)"
      using keys [OF kl(1,2)] kl(3) collide_sym ab(2) by (auto simp: colliding_pairs_def min_def max_def)
  next
    fix p assume "p \<in> colliding_pairs (index_data_lookup d)"
    then obtain k l where p: "p = (k, l)" "k < l" "collide (index_data_lookup d) k l" by (auto simp: colliding_pairs_def)
    then have "k \<in> snd ` set (live_members d)" "l \<in> snd ` set (live_members d)"
      unfolding live_keys [OF inv] by (auto simp: collide_def)
    then obtain i j where "(i, k) \<in> set (live_members d)" "(j, l) \<in> set (live_members d)" by auto
    then obtain a b :: u32 where ab: "(unat a, k) \<in> set (live_members d)" "(unat b, l) \<in> set (live_members d)"
      using live_ident [OF inv] by metis
    have ne: "a \<noteq> b" using ab p(2) by (auto simp: live_members_mem)
    obtain ids where "ids \<in> set (all_buckets d)" "a \<in> set ids" "b \<in> set ids"
      using together_iff [OF inv, of a b] ab p(3) by blast
    from cover [OF ne this] have "(a, b) \<in> ?T \<or> (b, a) \<in> ?T" .
    moreover have "key_pair d (ordered_pair a b) = p" "key_pair d (ordered_pair b a) = p"
      using keys [of a k b l] keys [of b l a k] ab p(1,2) by (simp_all add: live_key_eq)
    ultimately have "\<exists>q \<in> ?T. key_pair d (case q of (a, b) \<Rightarrow> ordered_pair a b) = p" by force
    then show "p \<in> key_pair d ` (\<lambda>(a, b). ordered_pair a b) ` ?T" by blast
  qed
qed

section \<open>Properties\<close>

text \<open>C32: Grouping a stream of pairs returns. The groups are the connected components of the pairs that
  have at least the requested number of members (and never fewer than one), each as a strictly
  ascending list with its smallest key as representative, ordered by representative. They depend
  on the set of pairs only, not on the order or repetition of the stream.\<close>

theorem group_pairs_components:
  "\<exists>groups. group_pairs pairs min_size = Some groups
    \<and> groups_of groups (classes (endpoints pairs) (component (set pairs)) min_size)
    \<and> map representative groups = map (hd \<circ> members) groups"
proof -
  obtain u keys where u: "union_stream pairs = Some (u, keys)" "uf_wf u"
    "\<And>i k. (i, k) \<in> set (enumerate 0 keys) \<Longrightarrow> i < uf_len u" "distinct (map snd (enumerate 0 keys))"
    "classes (snd ` set (enumerate 0 keys)) (same_class u (enumerate 0 keys)) min_size
      = classes (endpoints pairs) (component (set pairs)) min_size"
    using union_stream_law [of pairs min_size] by blast
  from collect_default_groups_law [OF u(2-4), where m = min_size] u(1,5) show ?thesis
    by (auto simp: group_pairs_def)
qed

text \<open>C12: The duplicate groups of a well-formed index are the connected components, of at least two keys,
  of the relation that two stored keys share a band, whatever the iteration order of the hash
  maps; the construction through anchors and union-find terminates and loses no collision.\<close>

theorem duplicate_groups_components:
  assumes "index_data_inv d"
  shows "\<exists>groups. duplicate_groups d = Some groups
    \<and> groups_of groups (classes (dom (index_data_lookup d))
        (component {(k, l). collide (index_data_lookup d) k l}) 2)
    \<and> map representative groups = map (hd \<circ> members) groups"
proof -
  let ?E = "{(k, l). collide (index_data_lookup d) k l}"
  obtain u where u: "union_index_buckets_unverified d (uf_with_len (length (id_to_key d))) = Some u"
    "uf_len u = length (id_to_key d)" "uf.represents u (id_edges d ?E)"
    using union_index_buckets_unverified_law [OF assms] by blast
  have "?E \<subseteq> dom (index_data_lookup d) \<times> dom (index_data_lookup d)" by (auto simp: collide_def)
  note part = index_partition [OF assms u(3,2) this, of 2]
  from collect_default_groups_law [of u "live_members d" 2] part u(1) show ?thesis
    by (auto simp: duplicate_groups_def)
qed

text \<open>C31: With a verification callback the groups are the connected components of the colliding pairs the
  callback accepts, called with the smaller key first. Skipping pairs that are already connected
  does not change the result.\<close>

theorem duplicate_groups_with_components:
  assumes "index_data_inv d"
  shows "\<exists>groups. duplicate_groups_with d min_size verify = Some groups
    \<and> groups_of groups (classes (dom (index_data_lookup d))
        (component (accepted (index_data_lookup d) verify)) min_size)
    \<and> map representative groups = map (hd \<circ> members) groups"
proof -
  obtain u where u: "union_index_buckets d verify (uf_with_len (length (id_to_key d))) = Some u"
    "uf_len u = length (id_to_key d)" "uf.represents u (id_edges d (accepted (index_data_lookup d) verify))"
    using union_index_buckets_law [OF assms] by blast
  note part = index_partition [OF assms u(3,2) accepted_dom, of min_size]
  from collect_default_groups_law [of u "live_members d" min_size] part u(1) show ?thesis
    by (auto simp: duplicate_groups_with_def)
qed

text \<open>With a representative callback the groups of a well-formed index are the same components with the
  selected representative, unless the callback selects a key outside of a group: then, and only
  then, the call fails with that key.\<close>

lemma duplicate_groups_representatives:
  assumes "index_data_inv d"
  shows "(\<exists>groups. duplicate_groups_with_representative d min_size verify select = Some (Ok groups)
      \<and> groups_of groups (classes (dom (index_data_lookup d)) (component (accepted (index_data_lookup d) verify)) min_size)
      \<and> map representative groups = map (select \<circ> members) groups)
    \<or> (\<exists>c. duplicate_groups_with_representative d min_size verify select = Some (Err (RepresentativeNotMember (select c)))
        \<and> select c \<notin> set c \<and> sorted_wrt (<) c
        \<and> set c \<in> classes (dom (index_data_lookup d)) (component (accepted (index_data_lookup d) verify)) min_size)"
proof -
  obtain u where u: "union_index_buckets d verify (uf_with_len (length (id_to_key d))) = Some u"
    "uf_len u = length (id_to_key d)" "uf.represents u (id_edges d (accepted (index_data_lookup d) verify))"
    using union_index_buckets_law [OF assms] by blast
  note part = index_partition [OF assms u(3,2) accepted_dom, of min_size]
  from collect_selected_groups_law [of u "live_members d" min_size select] part show ?thesis
    unfolding duplicate_groups_with_representative_def u(1) bind.bind_lunit
    by (elim conjE disjE exE) auto
qed

text \<open>C33: Exhausting the iterator over candidate pairs terminates and yields every pair of stored keys that
  share a band exactly once, the smaller key first.\<close>

theorem candidate_pairs_exact:
  assumes "index_data_inv d"
  shows "\<exists>ps. candidate_pairs_collect (candidate_pairs_new d) = Some ps \<and> distinct ps
    \<and> set ps = colliding_pairs (index_data_lookup d)"
proof -
  have "cp_left_index (candidate_pairs_new d) < cp_right_index (candidate_pairs_new d)"
    "cp_index (candidate_pairs_new d) = d" "cp_seen (candidate_pairs_new d) = []"
    by (simp_all add: candidate_pairs_new_def)
  then show ?thesis
    using collect_law [OF assms, of "candidate_pairs_new d"] colliding_pairs_todo [OF assms] by simp
qed
section \<open>Instances\<close>

text \<open>Two keys that share the hash of the single band.\<close>

definition example_collision :: index_data where
  "example_collision = \<lparr>buckets = [[(1, [0, 1])]], key_to_id = [(7, 0), (9, 1)], id_to_key = [Some 7, Some 9],
     band_hashes = [Some [1], Some [1]], query_observer = None\<rparr>"

lemma example_collision_inv: "index_data_inv example_collision"
  and example_collision_lookup: "index_data_lookup example_collision = [7 \<mapsto> [1], 9 \<mapsto> [1]]"
proof -
  let ?d = "index_data_new 1"
  have "index_data_inv ?d" "index_data_lookup ?d 7 = None" using index_data_new_inv [of 1] by auto
  from insert_validated_law [OF this(1) _ _ this(2), of "[1]"] index_data_new_inv [of 1]
  obtain d where d: "(insert_validated 7 [1] ?d :: (index_data, lsh_error) result) = Ok d" "index_data_inv d"
    "length (buckets d) = 1" "length (band_hashes d) = 1" "index_data_lookup d = [7 \<mapsto> [1]]"
    by (auto simp: index_data_new_def)
  from insert_validated_law [OF d(2), of "[1]" 9] d(3-5)
  obtain d' where d': "(insert_validated 9 [1] d :: (index_data, lsh_error) result) = Ok d'" "index_data_inv d'"
    "index_data_lookup d' = [7 \<mapsto> [1], 9 \<mapsto> [1]]" by auto
  have "d = \<lparr>buckets = [[(1, [0])]], key_to_id = [(7, 0)], id_to_key = [Some 7], band_hashes = [Some [1]], query_observer = None\<rparr>"
    using d(1) by (simp add: insert_validated_def index_data_new_def u32_try_from_def hm_push_def hm_insert_def hm_get_def)
  with d'(1) have "d' = example_collision"
    by (simp add: insert_validated_def u32_try_from_def hm_push_def hm_insert_def hm_get_def example_collision_def)
  with d'(2,3) show "index_data_inv example_collision" "index_data_lookup example_collision = [7 \<mapsto> [1], 9 \<mapsto> [1]]" by simp_all
qed

lemma example_classes:
  assumes "{(7, 9)} \<subseteq> E" and "E \<subseteq> {7, 9} \<times> {7, 9}"
  shows "classes (dom (index_data_lookup example_collision)) (component E) 2 = {{7, 9}}"
proof -
  have "l \<in> {7, 9}" if "(k, l) \<in> connected_by E" "k \<in> {7, 9}" for k l
  proof -
    have "k \<in> {7, 9} \<longleftrightarrow> l \<in> {7, 9}" using that(1) by (rule connected_by_least) (use assms(2) in auto)
    with that(2) show ?thesis by simp
  qed
  moreover have "(7, 9) \<in> connected_by E" "(9, 7) \<in> connected_by E"
    using assms(1) by (auto intro: connected_by_edge connected_by_sym)
  ultimately have "component E 7 = {7, 9}" "component E 9 = {7, 9}"
    by (auto simp: component_def connected_by_refl)
  then show ?thesis by (auto simp: classes_def example_collision_lookup)
qed

lemma example_collide: "collide (index_data_lookup example_collision) k l \<longleftrightarrow> k \<in> {7, 9} \<and> l \<in> {7, 9}"
  by (auto simp: collide_def example_collision_lookup shares_band_def)

theorem duplicate_groups_components_witness:
  "\<exists>groups. duplicate_groups example_collision = Some groups \<and> groups_of groups {{7, 9}}"
proof -
  have "classes (dom (index_data_lookup example_collision)) (component {(k, l). collide (index_data_lookup example_collision) k l}) 2 = {{7, 9}}"
    by (rule example_classes) (auto simp: example_collide)
  with duplicate_groups_components [OF example_collision_inv] show ?thesis by auto
qed

theorem duplicate_groups_with_components_witness:
  "\<exists>groups. duplicate_groups_with example_collision 2 (\<lambda>k l. k < l) = Some groups \<and> groups_of groups {{7, 9}}"
proof -
  have "classes (dom (index_data_lookup example_collision)) (component (accepted (index_data_lookup example_collision) (\<lambda>k l. k < l))) 2 = {{7, 9}}"
    by (rule example_classes) (auto simp: accepted_def pair_verified_def example_collide)
  with duplicate_groups_with_components [OF example_collision_inv, of 2 "\<lambda>k l. k < l"] show ?thesis by auto
qed

lemma distinct_set_singleton: "distinct ps \<Longrightarrow> set ps = {p} \<Longrightarrow> ps = [p]"
  using distinct_card [of ps] by (cases ps rule: remdups_adj.cases) auto

theorem candidate_pairs_exact_witness:
  "candidate_pairs_collect (candidate_pairs_new example_collision) = Some [(7, 9)]"
proof -
  have "colliding_pairs (index_data_lookup example_collision) = {(7, 9)}"
    by (auto simp: colliding_pairs_def example_collide)
  then obtain ps where "candidate_pairs_collect (candidate_pairs_new example_collision) = Some ps" "distinct ps" "set ps = {(7, 9)}"
    using candidate_pairs_exact [OF example_collision_inv] by auto
  moreover from this have "ps = [(7, 9)]" by (intro distinct_set_singleton)
  ultimately show ?thesis by simp
qed

end
