(* ===== verification/Pari_Planner.thy ===== *)
theory Pari_Planner
  imports Pari_Params
begin

text \<open>
  Crate \<open>pari-index\<close>, the planner (\<open>crates/pari-index/src/planner.rs\<close>): the size model in checked
  64-bit arithmetic, the storage policy, and the plan record. The lemmas show that a plan is
  returned exactly when no modelled byte count leaves 64 bits, that every returned count is the
  exact product, that the policy keeps to the budget, and that storage modes survive printing
  and parsing.
\<close>

section \<open>Storage modes\<close>

datatype storage_mode = ModeAuto | ModeMemory | ModePersistent | ModeLazy | ModeRedis

text \<open>A \<open>str\<close> is a list of Unicode scalar values; \<open>trim\<close> removes characters with the
  \<open>White_Space\<close> property at both ends, \<open>to_ascii_lowercase\<close> maps the ASCII capitals.\<close>

type_synonym rust_str = "nat list"

definition str_lit :: "string \<Rightarrow> rust_str" where
  "str_lit s = map of_char s"

definition is_whitespace :: "nat \<Rightarrow> bool" where
  "is_whitespace c \<longleftrightarrow> c \<in> set [9, 10, 11, 12, 13, 32, 133, 160, 5760, 8192, 8193, 8194, 8195, 8196, 8197,
     8198, 8199, 8200, 8201, 8202, 8232, 8233, 8239, 8287, 12288]"

definition str_trim :: "rust_str \<Rightarrow> rust_str" where
  "str_trim s = rev (dropWhile is_whitespace (rev (dropWhile is_whitespace s)))"

definition to_ascii_lowercase :: "rust_str \<Rightarrow> rust_str" where
  "to_ascii_lowercase s = map (\<lambda>c. if 65 \<le> c \<and> c \<le> 90 then c + 32 else c) s"

definition storage_mode_as_str :: "storage_mode \<Rightarrow> rust_str" where
  "storage_mode_as_str mode = str_lit (case mode of
       ModeAuto \<Rightarrow> ''auto''
     | ModeMemory \<Rightarrow> ''memory''
     | ModePersistent \<Rightarrow> ''persistent''
     | ModeLazy \<Rightarrow> ''lazy''
     | ModeRedis \<Rightarrow> ''redis'')"

datatype lsh_plan_error =
    InvalidExpectedItems u64
  | InvalidMemoryBudget u64
  | InvalidStorageMode rust_str
  | PlanLsh lsh_error
  | EstimateOverflow

definition storage_mode_from_str :: "rust_str \<Rightarrow> (storage_mode, lsh_plan_error) result" where
  "storage_mode_from_str value =
     (let v = to_ascii_lowercase (str_trim value)
      in if v = str_lit ''auto'' then Ok ModeAuto
         else if v \<in> set [str_lit ''memory'', str_lit ''in-memory'', str_lit ''in_memory''] then Ok ModeMemory
         else if v \<in> set [str_lit ''persistent'', str_lit ''local''] then Ok ModePersistent
         else if v \<in> set [str_lit ''lazy'', str_lit ''read-only'', str_lit ''read_only''] then Ok ModeLazy
         else if v \<in> set [str_lit ''redis'', str_lit ''shared''] then Ok ModeRedis
         else Err (InvalidStorageMode value))"

datatype parameter_source = Tuned | Existing

definition parameter_source_as_str :: "parameter_source \<Rightarrow> rust_str" where
  "parameter_source_as_str s = str_lit (case s of Tuned \<Rightarrow> ''tuned'' | Existing \<Rightarrow> ''existing'')"

datatype recommendation_reason =
    ExplicitMode | InMemoryFitsBudget | InMemoryExceedsBudget
  | LocalMetadataExceedsBudget | CapacityUnknown | ExplicitModeExceedsBudget

definition recommendation_reason_as_str :: "recommendation_reason \<Rightarrow> rust_str" where
  "recommendation_reason_as_str r = str_lit (case r of
       ExplicitMode \<Rightarrow> ''explicit_mode''
     | InMemoryFitsBudget \<Rightarrow> ''in_memory_fits_budget''
     | InMemoryExceedsBudget \<Rightarrow> ''in_memory_exceeds_budget''
     | LocalMetadataExceedsBudget \<Rightarrow> ''local_metadata_exceeds_budget''
     | CapacityUnknown \<Rightarrow> ''capacity_unknown''
     | ExplicitModeExceedsBudget \<Rightarrow> ''explicit_mode_exceeds_budget'')"

section \<open>Options, estimates and plans\<close>

record lsh_plan_options =
  o_expected_items :: u64
  o_threshold :: f64
  o_num_perm :: usize
  o_memory_budget_bytes :: "u64 option"
  o_storage_mode :: storage_mode

definition lsh_plan_options_new :: "u64 \<Rightarrow> f64 \<Rightarrow> usize \<Rightarrow> lsh_plan_options" where
  "lsh_plan_options_new expected_items threshold num_perm =
     \<lparr>o_expected_items = expected_items, o_threshold = threshold, o_num_perm = num_perm,
      o_memory_budget_bytes = None, o_storage_mode = ModeAuto\<rparr>"

record lsh_size_estimates =
  signature_bytes_per_item :: u64
  signature_bytes :: u64
  index_metadata_bytes_per_item :: u64
  index_metadata_bytes :: u64
  in_memory_index_bytes_per_item :: u64
  in_memory_index_bytes :: u64
  persistent_index_bytes_per_item :: u64
  persistent_index_bytes :: u64
  lazy_resident_bytes_per_item :: u64
  lazy_resident_bytes :: u64
  in_memory_with_headroom_bytes :: u64
  lazy_with_headroom_bytes :: u64

record lsh_plan =
  plan_model :: rust_str
  plan_expected_items :: u64
  plan_threshold :: f64
  plan_num_perm :: usize
  plan_params :: lsh_params
  plan_parameter_source :: parameter_source
  plan_used_permutations :: usize
  plan_unused_permutations :: usize
  candidate_probability_at_threshold :: f64
  similarity_at_50_percent_candidates :: f64
  plan_false_positive_area :: f64
  plan_false_negative_area :: f64
  bucket_memberships_per_item :: u64
  plan_sizes :: lsh_size_estimates
  plan_memory_budget_bytes :: "u64 option"
  in_memory_fits_budget :: "bool option"
  persistent_fits_budget :: "bool option"
  requested_storage :: storage_mode
  recommended_storage :: storage_mode
  plan_recommendation_reason :: recommendation_reason

definition plan_checked_mul :: "u64 \<Rightarrow> u64 \<Rightarrow> (u64, lsh_plan_error) result" where
  "plan_checked_mul left right = ok_or EstimateOverflow (checked_mul left right)"

definition plan_checked_add :: "u64 \<Rightarrow> u64 \<Rightarrow> (u64, lsh_plan_error) result" where
  "plan_checked_add left right = ok_or EstimateOverflow (checked_add left right)"

text \<open>\<open>u64::div_ceil\<close> by \<open>MEMORY_HEADROOM_DENOMINATOR\<close>, after scaling by the numerator.\<close>

definition with_headroom :: "u64 \<Rightarrow> (u64, lsh_plan_error) result" where
  "with_headroom b = and_then (plan_checked_mul b 3) (\<lambda>scaled. Ok (of_nat (div_ceil (unat scaled) 2)))"

definition size_estimates :: "u64 \<Rightarrow> usize \<Rightarrow> usize \<Rightarrow> u64 \<Rightarrow> (lsh_size_estimates, lsh_plan_error) result" where
  "size_estimates expected_items num_perm bands minhash_value_bytes =
     and_then (ok_or EstimateOverflow (u64_try_from num_perm)) (\<lambda>num_perm.
     and_then (ok_or EstimateOverflow (u64_try_from bands)) (\<lambda>bands.
     and_then (plan_checked_mul num_perm minhash_value_bytes) (\<lambda>sig_item.
     and_then (and_then (plan_checked_mul bands 16) (plan_checked_add 8)) (\<lambda>meta_item.
     and_then (and_then (plan_checked_mul bands 112) (plan_checked_add 64)) (\<lambda>mem_item.
     and_then (and_then (plan_checked_mul bands 48) (plan_checked_add 8)) (\<lambda>pers_item.
     and_then (and_then (plan_checked_mul bands 56) (plan_checked_add 8)) (\<lambda>lazy_item.
     and_then (plan_checked_mul expected_items mem_item) (\<lambda>mem.
     and_then (plan_checked_mul expected_items lazy_item) (\<lambda>lazy.
     and_then (plan_checked_mul expected_items sig_item) (\<lambda>sig.
     and_then (plan_checked_mul expected_items meta_item) (\<lambda>meta.
     and_then (and_then (plan_checked_mul expected_items pers_item) (plan_checked_add 736)) (\<lambda>pers.
     and_then (with_headroom mem) (\<lambda>mem_head.
     and_then (with_headroom lazy) (\<lambda>lazy_head.
     Ok \<lparr>signature_bytes_per_item = sig_item, signature_bytes = sig,
         index_metadata_bytes_per_item = meta_item, index_metadata_bytes = meta,
         in_memory_index_bytes_per_item = mem_item, in_memory_index_bytes = mem,
         persistent_index_bytes_per_item = pers_item, persistent_index_bytes = pers,
         lazy_resident_bytes_per_item = lazy_item, lazy_resident_bytes = lazy,
         in_memory_with_headroom_bytes = mem_head, lazy_with_headroom_bytes = lazy_head\<rparr>))))))))))))))"

definition recommend_storage ::
  "storage_mode \<Rightarrow> u64 option \<Rightarrow> bool option \<Rightarrow> bool option \<Rightarrow> storage_mode \<times> recommendation_reason" where
  "recommend_storage requested budget in_memory_fits persistent_fits =
     (case requested of
        ModeAuto \<Rightarrow> (case budget of
            None \<Rightarrow> (ModePersistent, CapacityUnknown)
          | Some _ \<Rightarrow>
              if in_memory_fits = Some True then (ModeMemory, InMemoryFitsBudget)
              else if persistent_fits = Some True then (ModePersistent, InMemoryExceedsBudget)
              else (ModeRedis, LocalMetadataExceedsBudget))
      | ModeMemory \<Rightarrow> (case budget of
            None \<Rightarrow> (ModeMemory, ExplicitMode)
          | Some _ \<Rightarrow>
              if in_memory_fits = Some True then (ModeMemory, InMemoryFitsBudget)
              else if persistent_fits = Some True then (ModePersistent, InMemoryExceedsBudget)
              else (ModeRedis, LocalMetadataExceedsBudget))
      | ModePersistent \<Rightarrow>
          (requested, if budget \<noteq> None \<and> persistent_fits = Some False
                      then ExplicitModeExceedsBudget else ExplicitMode)
      | ModeLazy \<Rightarrow>
          (requested, if budget \<noteq> None \<and> persistent_fits = Some False
                      then ExplicitModeExceedsBudget else ExplicitMode)
      | ModeRedis \<Rightarrow> (ModeRedis, ExplicitMode))"

definition build_plan ::
  "(f64 \<Rightarrow> f64 \<Rightarrow> f64) \<Rightarrow> lsh_plan_options \<Rightarrow> lsh_params \<Rightarrow> parameter_source \<Rightarrow> u64
     \<Rightarrow> (lsh_plan, lsh_plan_error) result" where
  "build_plan pow options params source value_bytes =
     and_then (err_if (o_memory_budget_bytes options = Some 0) (InvalidMemoryBudget 0)) (\<lambda>_.
     and_then (map_err PlanLsh (validate_threshold (o_threshold options))) (\<lambda>_.
     and_then (map_err PlanLsh (validate_num_perm (o_num_perm options))) (\<lambda>_.
     and_then (map_err PlanLsh (validate_params params (o_num_perm options))) (\<lambda>_.
     and_then (expect (used_permutations params)) (\<lambda>used.
     and_then (size_estimates (o_expected_items options) (o_num_perm options) (p_bands params) value_bytes) (\<lambda>sizes.
     let in_memory_fits = map_option (\<lambda>budget. in_memory_with_headroom_bytes sizes \<le> budget) (o_memory_budget_bytes options);
         persistent_fits = map_option (\<lambda>budget. lazy_with_headroom_bytes sizes \<le> budget) (o_memory_budget_bytes options);
         (recommended, reason) = recommend_storage (o_storage_mode options) (o_memory_budget_bytes options)
            in_memory_fits persistent_fits
     in
     and_then (false_positive_area pow (o_threshold options) (p_bands params) (p_rows params)) (\<lambda>fp_area.
     and_then (false_negative_area pow (o_threshold options) (p_bands params) (p_rows params)) (\<lambda>fn_area.
     and_then (expect (u32_try_from (p_bands params))) (\<lambda>b.
     and_then (expect (u32_try_from (p_rows params))) (\<lambda>r.
     let similarity = pow (f64_sub f64_one (pow f64_half (f64_div f64_one (f64_from_nat (unat b)))))
           (f64_div f64_one (f64_from_nat (unat r)))
     in
     and_then (candidate_probability pow (o_threshold options) (p_bands params) (p_rows params)) (\<lambda>at_threshold.
     and_then (ok_or EstimateOverflow (u64_try_from (p_bands params))) (\<lambda>memberships.
     Ok \<lparr>plan_model = str_lit ''pari-lsh-planner-v1'', plan_expected_items = o_expected_items options,
         plan_threshold = o_threshold options, plan_num_perm = o_num_perm options, plan_params = params,
         plan_parameter_source = source, plan_used_permutations = used,
         plan_unused_permutations = o_num_perm options - used,
         candidate_probability_at_threshold = at_threshold,
         similarity_at_50_percent_candidates = similarity,
         plan_false_positive_area = fp_area, plan_false_negative_area = fn_area,
         bucket_memberships_per_item = memberships, plan_sizes = sizes,
         plan_memory_budget_bytes = o_memory_budget_bytes options,
         in_memory_fits_budget = in_memory_fits, persistent_fits_budget = persistent_fits,
         requested_storage = o_storage_mode options, recommended_storage = recommended,
         plan_recommendation_reason = reason\<rparr>))))))))))))"

definition plan_lsh :: "(f64 \<Rightarrow> f64 \<Rightarrow> f64) \<Rightarrow> lsh_plan_options \<Rightarrow> (lsh_plan, lsh_plan_error) result" where
  "plan_lsh pow options =
     and_then (err_if (o_expected_items options = 0) (InvalidExpectedItems (o_expected_items options))) (\<lambda>_.
     and_then (map_err PlanLsh (tune pow (o_threshold options) (o_num_perm options))) (\<lambda>params.
     build_plan pow options params Tuned 4))"

definition explain_lsh :: "(f64 \<Rightarrow> f64 \<Rightarrow> f64) \<Rightarrow> lsh_plan_options \<Rightarrow> lsh_params \<Rightarrow> (lsh_plan, lsh_plan_error) result" where
  "explain_lsh pow options params = build_plan pow options params Existing 4"

definition explain_lsh64 :: "(f64 \<Rightarrow> f64 \<Rightarrow> f64) \<Rightarrow> lsh_plan_options \<Rightarrow> lsh_params \<Rightarrow> (lsh_plan, lsh_plan_error) result" where
  "explain_lsh64 pow options params = build_plan pow options params Existing 8"

text \<open>\<open>LshPlan::candidate_probability\<close>; the range test \<open>(0.0..=1.0).contains\<close> also admits the
  negative zero.\<close>

definition plan_candidate_probability :: "(f64 \<Rightarrow> f64 \<Rightarrow> f64) \<Rightarrow> lsh_plan \<Rightarrow> f64 \<Rightarrow> (f64 option, 'e) result" where
  "plan_candidate_probability pow plan similarity =
     (if \<not> f64_is_finite similarity
        \<or> \<not> (f64_is_zero similarity \<or> \<not> f64_le_zero similarity \<and> \<not> f64_gt_one similarity)
      then Ok None
      else and_then (candidate_probability pow similarity (p_bands (plan_params plan)) (p_rows (plan_params plan)))
             (\<lambda>p. Ok (Some p)))"

section \<open>Checked estimates\<close>

lemma plan_checked_mul_nat:
  assumes "x < usize_limit" and "y < usize_limit"
  shows "plan_checked_mul (of_nat x) (of_nat y)
    = (if x * y < usize_limit then Ok (of_nat (x * y)) else Err EstimateOverflow)"
  using assms by (simp add: plan_checked_mul_def checked_mul_def unat_of_nat_u64)

lemma plan_checked_add_nat:
  assumes "x < usize_limit" and "y < usize_limit"
  shows "plan_checked_add (of_nat x) (of_nat y)
    = (if x + y < usize_limit then Ok (of_nat (x + y)) else Err EstimateOverflow)"
  using assms by (simp add: plan_checked_add_def checked_add_def unat_of_nat_u64)

lemma with_headroom_nat:
  assumes "x < usize_limit"
  shows "with_headroom (of_nat x)
    = (if 3 * x < usize_limit then Ok (of_nat (div_ceil (3 * x) 2)) else Err EstimateOverflow)"
  using plan_checked_mul_nat [OF assms, of 3]
  by (simp add: with_headroom_def unat_of_nat_u64 ac_simps del: of_nat_mult)

lemma div_ceil_half_less: "a < usize_limit \<Longrightarrow> div_ceil a 2 < usize_limit"
  by (auto simp: div_ceil_def)

lemma div_ceil_le_iff: "div_ceil a 2 \<le> c \<longleftrightarrow> a \<le> 2 * c"
  by (auto simp: div_ceil_def) presburger+

text \<open>The bands of one item: a checked product and sum that cannot overflow.\<close>

lemma per_item_estimate:
  assumes "b < 4294967296" and "k < 4294967296" and "c < 4294967296"
  shows "and_then (plan_checked_mul (of_nat b) (of_nat k)) (plan_checked_add (of_nat c))
    = Ok (of_nat (c + b * k))"
proof -
  have "b * k \<le> 4294967295 * 4294967295" using assms by (intro mult_le_mono) auto
  then show ?thesis
    using assms by (subst plan_checked_mul_nat) (simp_all add: plan_checked_add_nat del: of_nat_mult of_nat_add)
qed

definition estimates_fit :: "nat \<Rightarrow> usize \<Rightarrow> usize \<Rightarrow> nat \<Rightarrow> bool" where
  "estimates_fit items n b vb \<longleftrightarrow>
     items * (n * vb) < usize_limit \<and> items * (8 + b * 16) < usize_limit
     \<and> 736 + items * (8 + b * 48) < usize_limit
     \<and> 3 * (items * (64 + b * 112)) < usize_limit \<and> 3 * (items * (8 + b * 56)) < usize_limit"

definition exact_estimates :: "nat \<Rightarrow> usize \<Rightarrow> usize \<Rightarrow> nat \<Rightarrow> lsh_size_estimates" where
  "exact_estimates items n b vb =
     \<lparr>signature_bytes_per_item = of_nat (n * vb), signature_bytes = of_nat (items * (n * vb)),
      index_metadata_bytes_per_item = of_nat (8 + b * 16), index_metadata_bytes = of_nat (items * (8 + b * 16)),
      in_memory_index_bytes_per_item = of_nat (64 + b * 112), in_memory_index_bytes = of_nat (items * (64 + b * 112)),
      persistent_index_bytes_per_item = of_nat (8 + b * 48),
      persistent_index_bytes = of_nat (736 + items * (8 + b * 48)),
      lazy_resident_bytes_per_item = of_nat (8 + b * 56), lazy_resident_bytes = of_nat (items * (8 + b * 56)),
      in_memory_with_headroom_bytes = of_nat (div_ceil (3 * (items * (64 + b * 112))) 2),
      lazy_with_headroom_bytes = of_nat (div_ceil (3 * (items * (8 + b * 56))) 2)\<rparr>"

lemma size_estimates_nat:
  assumes "items < usize_limit" and "n < 4294967296" and "b < 4294967296" and "vb < 4294967296"
  shows "size_estimates (of_nat items) n b (of_nat vb) =
    (if estimates_fit items n b vb then Ok (exact_estimates items n b vb) else Err EstimateOverflow)"
proof -
  have nvb: "n * vb \<le> 4294967295 * 4294967295" using assms by (intro mult_le_mono) auto
  have ptf: "u64_try_from n = Some (of_nat n)" "u64_try_from b = Some (of_nat b)"
    using assms by (simp_all add: u64_try_from_def)
  have sig: "plan_checked_mul (of_nat n) (of_nat vb) = Ok (of_nat (n * vb))"
    using assms nvb by (subst plan_checked_mul_nat) (simp_all del: of_nat_mult)
  note items = plan_checked_mul_nat [OF assms(1)]
  have pers: "and_then (plan_checked_mul (of_nat items) (of_nat y)) (plan_checked_add (of_nat 736))
      = (if 736 + items * y < usize_limit then Ok (of_nat (736 + items * y)) else Err EstimateOverflow)"
    if "y < usize_limit" for y
    by (simp add: items [OF that] plan_checked_add_nat del: of_nat_mult of_nat_add of_nat_numeral)
  note per = per_item_estimate [OF assms(3)]
  have bands_item:
    "and_then (plan_checked_mul (of_nat b) 16) (plan_checked_add 8) = Ok (of_nat (8 + b * 16))"
    "and_then (plan_checked_mul (of_nat b) 112) (plan_checked_add 64) = Ok (of_nat (64 + b * 112))"
    "and_then (plan_checked_mul (of_nat b) 48) (plan_checked_add 8) = Ok (of_nat (8 + b * 48))"
    "and_then (plan_checked_mul (of_nat b) 56) (plan_checked_add 8) = Ok (of_nat (8 + b * 56))"
    using per [of 16 8] per [of 112 64] per [of 48 8] per [of 56 8] by simp_all
  have small: "8 + b * 16 < usize_limit" "64 + b * 112 < usize_limit" "8 + b * 48 < usize_limit"
    "8 + b * 56 < usize_limit" "n * vb < usize_limit"
    using assms(3) nvb by simp_all
  show ?thesis
    unfolding size_estimates_def ptf ok_or.simps and_then.simps sig bands_item
      items [OF small(1)] items [OF small(2)] items [OF small(4)] items [OF small(5)]
      pers [OF small(3), simplified of_nat_numeral]
    by (auto simp: with_headroom_nat estimates_fit_def exact_estimates_def simp del: of_nat_mult of_nat_add)
qed

lemma size_estimates_eq:
  assumes "n < 4294967296" and "b < 4294967296" and "vb < 4294967296"
  shows "size_estimates items n b vb = (if estimates_fit (unat items) n b (unat vb)
    then Ok (exact_estimates (unat items) n b (unat vb)) else Err EstimateOverflow)"
  using size_estimates_nat [OF unat_u64_less assms(1,2), of "unat vb" items] assms(3)
  by (simp add: word_less_nat_alt)

lemma exact_estimates_unat:
  assumes "estimates_fit items n b vb"
  shows "unat (signature_bytes (exact_estimates items n b vb)) = items * (n * vb)"
    "unat (index_metadata_bytes (exact_estimates items n b vb)) = items * (8 + b * 16)"
    "unat (in_memory_index_bytes (exact_estimates items n b vb)) = items * (64 + b * 112)"
    "unat (persistent_index_bytes (exact_estimates items n b vb)) = 736 + items * (8 + b * 48)"
    "unat (lazy_resident_bytes (exact_estimates items n b vb)) = items * (8 + b * 56)"
    "unat (in_memory_with_headroom_bytes (exact_estimates items n b vb)) = div_ceil (3 * (items * (64 + b * 112))) 2"
    "unat (lazy_with_headroom_bytes (exact_estimates items n b vb)) = div_ceil (3 * (items * (8 + b * 56))) 2"
proof -
  note f = assms [unfolded estimates_fit_def]
  have fit: "x < usize_limit" if "3 * x < usize_limit" for x :: nat using that by simp
  show "unat (signature_bytes (exact_estimates items n b vb)) = items * (n * vb)"
    "unat (index_metadata_bytes (exact_estimates items n b vb)) = items * (8 + b * 16)"
    "unat (persistent_index_bytes (exact_estimates items n b vb)) = 736 + items * (8 + b * 48)"
    using f by (simp_all add: exact_estimates_def unat_of_nat_u64 del: of_nat_mult of_nat_add)
  show "unat (in_memory_index_bytes (exact_estimates items n b vb)) = items * (64 + b * 112)"
    "unat (lazy_resident_bytes (exact_estimates items n b vb)) = items * (8 + b * 56)"
    using f fit by (simp_all add: exact_estimates_def unat_of_nat_u64 del: of_nat_mult of_nat_add)
  show "unat (in_memory_with_headroom_bytes (exact_estimates items n b vb)) = div_ceil (3 * (items * (64 + b * 112))) 2"
    "unat (lazy_with_headroom_bytes (exact_estimates items n b vb)) = div_ceil (3 * (items * (8 + b * 56))) 2"
    using f by (simp_all add: exact_estimates_def unat_of_nat_u64 div_ceil_half_less del: of_nat_mult of_nat_add)
qed

text \<open>C30: the size model returns estimates exactly when no modelled byte count leaves 64 bits, and
  then every count is the exact product, with headroom rounded up; otherwise it reports the
  overflow. No product wraps around.\<close>

theorem size_estimates_exact:
  assumes "n < 4294967296" and "b < 4294967296" and "vb = 4 \<or> vb = 8"
  shows "(size_estimates items n b vb = Err EstimateOverflow \<longleftrightarrow> \<not> estimates_fit (unat items) n b (unat vb))
    \<and> (estimates_fit (unat items) n b (unat vb) \<longrightarrow> (\<exists>s. size_estimates items n b vb = Ok s
        \<and> unat (signature_bytes s) = unat items * (n * unat vb)
        \<and> unat (index_metadata_bytes s) = unat items * (8 + b * 16)
        \<and> unat (in_memory_index_bytes s) = unat items * (64 + b * 112)
        \<and> unat (persistent_index_bytes s) = 736 + unat items * (8 + b * 48)
        \<and> unat (lazy_resident_bytes s) = unat items * (8 + b * 56)
        \<and> unat (in_memory_with_headroom_bytes s) = div_ceil (3 * (unat items * (64 + b * 112))) 2
        \<and> unat (lazy_with_headroom_bytes s) = div_ceil (3 * (unat items * (8 + b * 56))) 2))"
proof -
  have "vb < 4294967296" using assms(3) by auto
  note eq = size_estimates_eq [OF assms(1,2) this, of items]
  show ?thesis
    unfolding eq by (simp add: exact_estimates_unat)
qed

section \<open>Plans\<close>

lemma build_plan_Ok:
  assumes "build_plan pow options params source vb = Ok plan"
  shows "params_valid params (o_num_perm options) \<and> 0 < o_num_perm options \<and> o_num_perm options < 4294967296
    \<and> 0 < o_threshold options \<and> o_threshold options \<le> f64_one
    \<and> size_estimates (o_expected_items options) (o_num_perm options) (p_bands params) vb = Ok (plan_sizes plan)
    \<and> plan_params plan = params
    \<and> plan_used_permutations plan + plan_unused_permutations plan = o_num_perm options
    \<and> (recommended_storage plan, plan_recommendation_reason plan)
       = recommend_storage (o_storage_mode options) (o_memory_budget_bytes options)
           (in_memory_fits_budget plan) (persistent_fits_budget plan)
    \<and> in_memory_fits_budget plan = map_option (\<lambda>B. in_memory_with_headroom_bytes (plan_sizes plan) \<le> B) (o_memory_budget_bytes options)
    \<and> persistent_fits_budget plan = map_option (\<lambda>B. lazy_with_headroom_bytes (plan_sizes plan) \<le> B) (o_memory_budget_bytes options)"
proof -
  have small: "o_num_perm options < usize_limit" and valid: "params_valid params (o_num_perm options)"
    using assms by (auto simp: build_plan_def res_simps validate_params_Ok)
  note used_permutations_valid [OF valid small]
  with assms valid show ?thesis
    by (auto simp: build_plan_def res_simps Let_def params_valid_def case_prod_beta)
qed

text \<open>C29: with a memory budget and automatic or in-memory mode, the planner recommends memory
  exactly when one and a half times the modelled in-memory size fits the budget, the
  persistent store exactly when memory does not fit and one and a half times the resident
  metadata does, and Redis when neither fits.\<close>

theorem recommendation_respects_budget:
  assumes "build_plan pow options params source vb = Ok plan" and "vb = 4 \<or> vb = 8"
    and "o_memory_budget_bytes options = Some B"
    and "o_storage_mode options = ModeAuto \<or> o_storage_mode options = ModeMemory"
  shows "let mem = unat (o_expected_items options) * (64 + p_bands params * 112);
             lazy = unat (o_expected_items options) * (8 + p_bands params * 56)
         in recommended_storage plan =
              (if 3 * mem \<le> 2 * unat B then ModeMemory
               else if 3 * lazy \<le> 2 * unat B then ModePersistent else ModeRedis)"
proof -
  note b = build_plan_Ok [OF assms(1)]
  have "p_bands params \<le> o_num_perm options"
    using b unfolding params_valid_def
    by (metis le_trans mult.right_neutral mult_le_mono2 less_eq_Suc_le One_nat_def)
  with b have bands: "p_bands params < 4294967296" by linarith
  have vb: "vb < 4294967296" using assms(2) by auto
  let ?items = "unat (o_expected_items options)"
  have sizes: "estimates_fit ?items (o_num_perm options) (p_bands params) (unat vb)"
    "plan_sizes plan = exact_estimates ?items (o_num_perm options) (p_bands params) (unat vb)"
    using b size_estimates_eq [OF _ bands vb, of "o_num_perm options" "o_expected_items options"]
    by (auto split: if_splits)
  have "in_memory_fits_budget plan = Some (3 * (?items * (64 + p_bands params * 112)) \<le> 2 * unat B)"
    and "persistent_fits_budget plan = Some (3 * (?items * (8 + p_bands params * 56)) \<le> 2 * unat B)"
    using b assms(3) by (auto simp: sizes(2) word_le_nat_alt exact_estimates_unat [OF sizes(1)] div_ceil_le_iff)
  then show ?thesis
    using b assms(3,4) unfolding Let_def by (auto simp: recommend_storage_def split: if_splits)
qed

lemma build_plan_total:
  assumes "params_valid params (o_num_perm options)" and "0 < o_num_perm options" and "o_num_perm options < 4294967296"
    and "0 < o_threshold options" and "o_threshold options \<le> f64_one"
    and "o_memory_budget_bytes options \<noteq> Some 0" and "vb < 4294967296"
  shows "if estimates_fit (unat (o_expected_items options)) (o_num_perm options) (p_bands params) (unat vb)
         then \<exists>plan. build_plan pow options params source vb = Ok plan
         else build_plan pow options params source vb = Err EstimateOverflow"
proof -
  note b = valid_params_bounds [OF assms(1,3)]
  let ?t = "o_threshold options"
  obtain c where c: "(candidate_probability pow ?t (p_bands params) (p_rows params) :: (f64, lsh_plan_error) result) = Ok c"
    using candidate_probability_total b by blast
  obtain f g where "(false_positive_area pow ?t (p_bands params) (p_rows params) :: (f64, lsh_plan_error) result) = Ok f"
    and "(false_negative_area pow ?t (p_bands params) (p_rows params) :: (f64, lsh_plan_error) result) = Ok g"
    using tuning_error_total [of "p_bands params" "p_rows params" pow ?t, where ?'e = lsh_plan_error] b
    by (auto simp: tuning_error_def res_simps)
  moreover note c
  moreover have "\<exists>x. u32_try_from (p_bands params) = Some x" and "\<exists>x. u32_try_from (p_rows params) = Some x"
    and "\<exists>x. u64_try_from (p_bands params) = Some x"
    using b by (auto simp: u32_try_from_def u64_try_from_def)
  moreover have "used_permutations params = Some (p_bands params * p_rows params)"
    using used_permutations_valid [OF assms(1)] assms(3) by simp
  moreover have "validate_params params (o_num_perm options) = Ok ()"
    using assms by (simp add: validate_params_Ok)
  ultimately show ?thesis
    using assms size_estimates_eq [OF assms(3) conjunct1 [OF b] assms(7), of "o_expected_items options"]
    by (auto simp: build_plan_def Let_def case_prod_beta and_then_eq_Ok validate_cases ok_or_eq_Ok expect_eq_Ok)
qed

text \<open>Planning a new index never panics. It fails for an empty index, a zero budget, an
  invalid threshold or signature length, or a modelled size beyond 64 bits, and in every other
  case returns a plan whose parameters are the tuned ones and pass validation.\<close>

lemma plan_lsh_result:
  assumes "o_num_perm options < usize_limit"
  shows "(case plan_lsh pow options of
      Ok plan \<Rightarrow> tune pow (o_threshold options) (o_num_perm options) = Ok (plan_params plan)
        \<and> validate_params (plan_params plan) (o_num_perm options) = Ok ()
        \<and> plan_used_permutations plan + plan_unused_permutations plan = o_num_perm options
    | Err e \<Rightarrow> (e = InvalidExpectedItems 0 \<and> o_expected_items options = 0)
        \<or> (\<exists>l. e = PlanLsh l \<and> tune pow (o_threshold options) (o_num_perm options) = Err l)
        \<or> (e = InvalidMemoryBudget 0 \<and> o_memory_budget_bytes options = Some 0)
        \<or> (e = EstimateOverflow \<and> (\<exists>p. tune pow (o_threshold options) (o_num_perm options) = Ok p
             \<and> \<not> estimates_fit (unat (o_expected_items options)) (o_num_perm options) (p_bands p) 4))
    | Panic \<Rightarrow> False)"
proof (cases "0 < o_threshold options \<and> o_threshold options \<le> f64_one
    \<and> 0 < o_num_perm options \<and> o_num_perm options \<le> 4096")
  case False
  then have "\<exists>l. tune pow (o_threshold options) (o_num_perm options) = Err l"
    by (auto simp: tune_def validate_cases MAX_AUTO_TUNE_PERMUTATIONS_def err_if_def)
  then show ?thesis by (auto simp: plan_lsh_def err_if_def)
next
  case True
  then obtain p where p: "tune pow (o_threshold options) (o_num_perm options) = Ok p"
    and valid: "params_valid p (o_num_perm options)"
    using tune_total by blast
  show ?thesis
  proof (cases "o_expected_items options = 0 \<or> o_memory_budget_bytes options = Some 0")
    case True
    then show ?thesis using p by (auto simp: plan_lsh_def build_plan_def err_if_def)
  next
    case False
    then have eq: "plan_lsh pow options = build_plan pow options p Tuned 4"
      using p by (simp add: plan_lsh_def)
    have total: "if estimates_fit (unat (o_expected_items options)) (o_num_perm options) (p_bands p) 4
         then \<exists>plan. build_plan pow options p Tuned 4 = Ok plan
         else build_plan pow options p Tuned 4 = Err EstimateOverflow"
      using build_plan_total [OF valid, of 4 pow Tuned] True False by simp
    show ?thesis
    proof (cases "estimates_fit (unat (o_expected_items options)) (o_num_perm options) (p_bands p) 4")
      case True
      with total obtain plan where plan: "build_plan pow options p Tuned 4 = Ok plan" by auto
      with build_plan_Ok [OF plan] show ?thesis
        unfolding eq plan result.case using p by (auto simp: validate_params_Ok)
    next
      case False
      with total p show ?thesis unfolding eq by auto
    qed
  qed
qed

lemma whitespace_not_letter:
  "is_whitespace c \<Longrightarrow> \<not> (65 \<le> c \<and> c \<le> 90) \<and> \<not> (97 \<le> c \<and> c \<le> 122)"
  by (auto simp: is_whitespace_def)

text \<open>Parsing the printed name of a storage mode gives the mode back, in any ASCII case and
  with white space around it.\<close>

lemma storage_mode_roundtrip:
  assumes "to_ascii_lowercase v = storage_mode_as_str mode"
    and "list_all is_whitespace before" and "list_all is_whitespace after"
  shows "storage_mode_from_str (before @ v @ after) = Ok mode"
proof -
  have "v \<noteq> []" using assms(1) by (cases mode) (auto simp: storage_mode_as_str_def str_lit_def to_ascii_lowercase_def)
  then have "hd (storage_mode_as_str mode) = (if 65 \<le> hd v \<and> hd v \<le> 90 then hd v + 32 else hd v)"
    and "last (storage_mode_as_str mode) = (if 65 \<le> last v \<and> last v \<le> 90 then last v + 32 else last v)"
    unfolding assms(1) [symmetric] by (simp_all add: to_ascii_lowercase_def hd_map last_map)
  moreover have "97 \<le> hd (storage_mode_as_str mode) \<and> hd (storage_mode_as_str mode) \<le> 122"
    and "97 \<le> last (storage_mode_as_str mode) \<and> last (storage_mode_as_str mode) \<le> 122"
    by (cases mode; simp add: storage_mode_as_str_def str_lit_def)+
  ultimately have first: "v \<noteq> [] \<and> \<not> is_whitespace (hd v) \<and> \<not> is_whitespace (last v)"
    using \<open>v \<noteq> []\<close> whitespace_not_letter [of "hd v"] whitespace_not_letter [of "last v"]
    by (auto split: if_splits)
  have drop: "dropWhile is_whitespace (ws @ u) = u" if "list_all is_whitespace ws" "u \<noteq> []" "\<not> is_whitespace (hd u)" for ws u
    using that by (induction ws) (auto simp: dropWhile_eq_self_iff)
  have "str_trim (before @ v @ after) = v"
    using first drop [OF assms(2), of "v @ after"] drop [of "rev after" "rev v"] assms(3)
    by (simp add: str_trim_def hd_rev list_all_rev)
  then show ?thesis
    using assms(1) by (cases mode) (simp_all add: storage_mode_from_str_def storage_mode_as_str_def str_lit_def)
qed

section \<open>Instances\<close>

theorem size_estimates_exact_witness:
  "(\<exists>s. size_estimates 1000 128 32 4 = Ok s \<and> unat (in_memory_with_headroom_bytes s) = 5472000)
   \<and> size_estimates 18446744073709551615 128 32 4 = Err EstimateOverflow"
proof
  have "unat (1000 :: u64) = 1000" by simp
  then show "\<exists>s. size_estimates 1000 128 32 4 = Ok s \<and> unat (in_memory_with_headroom_bytes s) = 5472000"
    using conjunct2 [OF size_estimates_exact [of 128 32 4 1000]]
    by (auto simp: estimates_fit_def div_ceil_def)
  show "size_estimates 18446744073709551615 128 32 4 = Err EstimateOverflow"
    using conjunct1 [OF size_estimates_exact [of 128 32 4 18446744073709551615]] by (simp add: estimates_fit_def)
qed

lemma plan_example:
  "\<exists>plan. build_plan (\<lambda>x y. x) \<lparr>o_expected_items = 1000, o_threshold = f64_half, o_num_perm = 128,
      o_memory_budget_bytes = Some 3000000, o_storage_mode = ModeAuto\<rparr> \<lparr>p_bands = 32, p_rows = 4\<rparr> Existing 4 = Ok plan"
  using build_plan_total [of "\<lparr>p_bands = 32, p_rows = 4\<rparr>" "\<lparr>o_expected_items = 1000, o_threshold = f64_half,
      o_num_perm = 128, o_memory_budget_bytes = Some 3000000, o_storage_mode = ModeAuto\<rparr>" 4 "\<lambda>x y. x" Existing]
  by (simp add: params_valid_def estimates_fit_def)

theorem recommendation_respects_budget_witness:
  "\<exists>plan. build_plan (\<lambda>x y. x) \<lparr>o_expected_items = 1000, o_threshold = f64_half, o_num_perm = 128,
      o_memory_budget_bytes = Some 3000000, o_storage_mode = ModeAuto\<rparr> \<lparr>p_bands = 32, p_rows = 4\<rparr> Existing 4 = Ok plan
    \<and> recommended_storage plan = ModePersistent"
proof -
  obtain plan where plan: "build_plan (\<lambda>x y. x) \<lparr>o_expected_items = 1000, o_threshold = f64_half, o_num_perm = 128,
      o_memory_budget_bytes = Some 3000000, o_storage_mode = ModeAuto\<rparr> \<lparr>p_bands = 32, p_rows = 4\<rparr> Existing 4 = Ok plan"
    using plan_example by blast
  then show ?thesis
    using recommendation_respects_budget [OF plan, of 3000000] by simp
qed

end
