(* ===== verification/Pari_Codec.thy ===== *)
theory Pari_Codec
  imports Pari_Prelude
begin

text \<open>
  Crate \<open>pari-format\<close>, key codecs (\<open>crates/pari-format/src/codec.rs\<close>): the codec identifiers, the
  errors, and the five codecs. A Rust \<open>String\<close> is the list of its chars, with the UTF-8 encoding and the decoder of the
  standard library. The two functions of \<open>serde_json\<close> are parameters, each returning a
  message on failure; nothing is assumed about them. The lemmas show that the codecs for bytes, strings and integers accept exactly
  what they write, and which inputs each codec rejects.
\<close>

section \<open>Definitions\<close>

abbreviation MAX_KEY_BYTES :: usize where "MAX_KEY_BYTES \<equiv> 16777216"

datatype codec_id = CodecBytes | CodecUtf8 | CodecU64 | CodecI64 | CodecJson

definition codec_id_from_raw :: "u16 \<Rightarrow> codec_id option" where
  "codec_id_from_raw value =
     (if value = 1 then Some CodecBytes else if value = 2 then Some CodecUtf8 else if value = 3 then Some CodecU64
      else if value = 4 then Some CodecI64 else if value = 5 then Some CodecJson else None)"

fun codec_id_as_raw :: "codec_id \<Rightarrow> u16" where
  "codec_id_as_raw CodecBytes = 1"
| "codec_id_as_raw CodecUtf8 = 2"
| "codec_id_as_raw CodecU64 = 3"
| "codec_id_as_raw CodecI64 = 4"
| "codec_id_as_raw CodecJson = 5"

datatype codec_error =
    PayloadTooLarge usize usize
  | InvalidLength usize usize
  | InvalidUtf8
  | InvalidJson string

definition check_payload_size :: "usize \<Rightarrow> (unit, codec_error) result" where
  "check_payload_size len = err_if (MAX_KEY_BYTES < len) (PayloadTooLarge len MAX_KEY_BYTES)"

definition exact_array :: "usize \<Rightarrow> bytes \<Rightarrow> (bytes, codec_error) result" where
  "exact_array n bs = (if length bs = n then Ok bs else Err (InvalidLength n (length bs)))"

definition bytes_encode :: "bytes \<Rightarrow> (bytes, codec_error) result" where
  "bytes_encode value = and_then (check_payload_size (length value)) (\<lambda>_. Ok value)"

definition bytes_decode :: "bytes \<Rightarrow> (bytes, codec_error) result" where
  "bytes_decode bs = and_then (check_payload_size (length bs)) (\<lambda>_. Ok bs)"

text \<open>A \<open>char\<close> is a scalar value: a code point that is not a surrogate. A \<open>String\<close> is the list of its chars;
  \<open>as_bytes\<close> gives the one to four bytes of each.\<close>

type_synonym rust_char = nat

definition scalar_value :: "rust_char \<Rightarrow> bool" where
  "scalar_value c \<longleftrightarrow> c < 55296 \<or> (57344 \<le> c \<and> c < 1114112)"

definition utf8_char :: "rust_char \<Rightarrow> nat list" where
  "utf8_char c =
     (if c < 128 then [c]
      else if c < 2048 then [192 + c div 64, 128 + c mod 64]
      else if c < 65536 then [224 + c div 4096, 128 + c div 64 mod 64, 128 + c mod 64]
      else [240 + c div 262144, 128 + c div 4096 mod 64, 128 + c div 64 mod 64, 128 + c mod 64])"

definition as_bytes :: "rust_char list \<Rightarrow> bytes" where
  "as_bytes s = map of_nat (concat (map utf8_char s))"

text \<open>\<open>str::from_utf8\<close> reads char by char: the ranges of the second byte exclude the longer forms of a char, the surrogates
  and what lies above the last code point.\<close>

definition utf8_tail :: "nat \<Rightarrow> bool" where
  "utf8_tail b \<longleftrightarrow> 128 \<le> b \<and> b \<le> 191"

fun utf8_next :: "nat list \<Rightarrow> (rust_char \<times> nat list) option" where
  "utf8_next [] = None"
| "utf8_next (a # bs) =
     (if a < 128 then Some (a, bs)
      else if 194 \<le> a \<and> a \<le> 223 then
        (case bs of b # rest \<Rightarrow>
           if utf8_tail b then Some ((a - 192) * 64 + (b - 128), rest) else None
         | _ \<Rightarrow> None)
      else if 224 \<le> a \<and> a \<le> 239 then
        (case bs of b # c # rest \<Rightarrow>
           if (if a = 224 then 160 else 128) \<le> b \<and> b \<le> (if a = 237 then 159 else 191) \<and> utf8_tail c
           then Some ((a - 224) * 4096 + (b - 128) * 64 + (c - 128), rest) else None
         | _ \<Rightarrow> None)
      else if 240 \<le> a \<and> a \<le> 244 then
        (case bs of b # c # d # rest \<Rightarrow>
           if (if a = 240 then 144 else 128) \<le> b \<and> b \<le> (if a = 244 then 143 else 191) \<and> utf8_tail c \<and> utf8_tail d
           then Some ((a - 240) * 262144 + (b - 128) * 4096 + (c - 128) * 64 + (d - 128), rest) else None
         | _ \<Rightarrow> None)
      else None)"

lemma utf8_next_shorter: "utf8_next bs = Some (c, rest) \<Longrightarrow> length rest < length bs"
  by (cases bs) (auto split: if_splits list.splits)

function utf8_scan :: "nat list \<Rightarrow> rust_char list option" where
  "utf8_scan bs =
     (if bs = [] then Some []
      else case utf8_next bs of
             None \<Rightarrow> None
           | Some (c, rest) \<Rightarrow> map_option ((#) c) (utf8_scan rest))"
  by pat_completeness auto

termination utf8_scan
  by (relation "measure length") (auto dest: utf8_next_shorter)

declare utf8_scan.simps [simp del]

definition from_utf8 :: "bytes \<Rightarrow> rust_char list option" where
  "from_utf8 bs = utf8_scan (map unat bs)"

definition utf8_encode :: "rust_char list \<Rightarrow> (bytes, codec_error) result" where
  "utf8_encode value = and_then (check_payload_size (length (as_bytes value))) (\<lambda>_. Ok (as_bytes value))"

definition utf8_decode :: "bytes \<Rightarrow> (rust_char list, codec_error) result" where
  "utf8_decode bs = and_then (check_payload_size (length bs)) (\<lambda>_. ok_or InvalidUtf8 (from_utf8 bs))"

definition u64_encode :: "u64 \<Rightarrow> (bytes, codec_error) result" where
  "u64_encode value = Ok (le64 value)"

definition u64_decode :: "bytes \<Rightarrow> (u64, codec_error) result" where
  "u64_decode bs = and_then (exact_array 8 bs) (\<lambda>raw. Ok (from_le_bytes raw))"

text \<open>A signed key is an integer in the range of \<open>i64\<close>, encoded in two's complement.\<close>

definition i64_encode :: "int \<Rightarrow> (bytes, codec_error) result" where
  "i64_encode value = Ok (le64 (word_of_int value))"

definition i64_decode :: "bytes \<Rightarrow> (int, codec_error) result" where
  "i64_decode bs = and_then (exact_array 8 bs) (\<lambda>raw. Ok (sint (from_le_bytes raw :: u64)))"

definition json_encode :: "('v \<Rightarrow> (bytes, string) result) \<Rightarrow> 'v \<Rightarrow> (bytes, codec_error) result" where
  "json_encode to_vec value =
     and_then (map_err InvalidJson (to_vec value)) (\<lambda>bs.
     and_then (check_payload_size (length bs)) (\<lambda>_. Ok bs))"

definition json_decode :: "(bytes \<Rightarrow> ('v, string) result) \<Rightarrow> bytes \<Rightarrow> ('v, codec_error) result" where
  "json_decode from_slice bs =
     and_then (check_payload_size (length bs)) (\<lambda>_. map_err InvalidJson (from_slice bs))"

section \<open>Identifiers\<close>

lemma codec_id_roundtrip [simp]: "codec_id_from_raw (codec_id_as_raw c) = Some c"
  by (cases c) (simp_all add: codec_id_from_raw_def)

lemma codec_id_from_raw_iff: "codec_id_from_raw v = Some c \<longleftrightarrow> v = codec_id_as_raw c"
  by (cases c) (auto simp: codec_id_from_raw_def split: if_splits)

section \<open>The contract of a codec\<close>

text \<open>\<open>KeyCodec\<close>: a codec over the keys that satisfy \<open>valid\<close>. What it encodes it decodes again, and two
  keys never share an encoding.\<close>

locale key_codec =
  fixes valid :: "'k \<Rightarrow> bool"
    and encode :: "'k \<Rightarrow> (bytes, codec_error) result"
    and decode :: "bytes \<Rightarrow> ('k, codec_error) result"
  assumes decode_encode: "valid k \<Longrightarrow> encode k = Ok bs \<Longrightarrow> decode bs = Ok k"
    and encode_decode: "decode bs = Ok k \<Longrightarrow> valid k \<and> encode k = Ok bs"
begin

lemma encode_injective: "valid k \<Longrightarrow> valid l \<Longrightarrow> encode k = Ok bs \<Longrightarrow> encode l = Ok bs \<Longrightarrow> k = l"
  using decode_encode by (metis result.inject(1))

lemma encode_iff_decode: "valid k \<and> encode k = Ok bs \<longleftrightarrow> decode bs = Ok k"
  using decode_encode encode_decode by blast

text \<open>Lists of keys survive as well, element by element.\<close>

lemma try_map_roundtrip:
  assumes "\<forall>k \<in> set ks. valid k" and "try_map encode ks = Ok bss"
  shows "try_map decode bss = Ok ks"
proof -
  have "list_all2 (\<lambda>k bs. encode k = Ok bs) ks bss" using assms(2) by (simp add: try_map_eq_Ok)
  then have "list_all2 (\<lambda>bs k. decode bs = Ok k) bss ks"
    using assms(1) by (induction rule: list_all2_induct) (auto simp: decode_encode)
  then show ?thesis by (simp add: try_map_eq_Ok)
qed

end

lemma exact_array_Ok: "exact_array n bs = Ok raw \<longleftrightarrow> raw = bs \<and> length bs = n"
  by (auto simp: exact_array_def)

interpretation bytes_codec: key_codec "\<lambda>_. True" bytes_encode bytes_decode
  by unfold_locales (auto simp: bytes_encode_def bytes_decode_def res_simps)

subsection \<open>UTF-8\<close>

lemma div_digits: "(c :: nat) div 4096 = c div 64 div 64" "c div 262144 = c div 64 div 64 div 64"
  by (simp_all add: div_mult2_eq [symmetric])

lemma digits:
  fixes c :: nat
  shows "c = c div 4096 * 4096 + c div 64 mod 64 * 64 + c mod 64"
    and "c = c div 262144 * 262144 + c div 4096 mod 64 * 4096 + c div 64 mod 64 * 64 + c mod 64"
proof -
  have one: "n = n div 64 * 64 + n mod 64" for n :: nat by simp
  show "c = c div 4096 * 4096 + c div 64 mod 64 * 64 + c mod 64" unfolding div_digits using one [of c] one [of "c div 64"] by linarith
  show "c = c div 262144 * 262144 + c div 4096 mod 64 * 4096 + c div 64 mod 64 * 64 + c mod 64"
    unfolding div_digits using one [of c] one [of "c div 64"] one [of "c div 64 div 64"] by linarith
qed

lemma utf8_next_char:
  assumes c: "scalar_value c" shows "utf8_next (utf8_char c @ rest) = Some (c, rest)"
proof -
  consider "c < 128" | "128 \<le> c" "c < 2048" | "2048 \<le> c" "c < 65536" | "65536 \<le> c" by linarith
  then show ?thesis
  proof cases
    case 2
    then have "2 \<le> c div 64" "c div 64 < 32" "c mod 64 < 64" by auto
    then show ?thesis using 2 by (simp add: utf8_char_def utf8_tail_def)
  next
    case 3
    define x y z where "x = c div 4096" and "y = c div 64 mod 64" and "z = c mod 64"
    have r: "y < 64" "z < 64" "c = x * 4096 + y * 64 + z" using digits(1) [of c] unfolding x_def y_def z_def by simp_all
    have "x < 16" using 3 r by linarith
    note r = this r
    have b: "x = 0 \<Longrightarrow> 32 \<le> y" "x = 13 \<Longrightarrow> y \<le> 31" using 3 c r by (auto simp: scalar_value_def)
    have "utf8_char c = [224 + x, 128 + y, 128 + z]" using 3 by (simp add: utf8_char_def x_def y_def z_def)
    then show ?thesis using r b by (simp add: utf8_tail_def)
  next
    case 4
    define x y z w where "x = c div 262144" and "y = c div 4096 mod 64" and "z = c div 64 mod 64" and "w = c mod 64"
    have r: "x \<le> 4" "y < 64" "z < 64" "w < 64" "c = x * 262144 + y * 4096 + z * 64 + w"
    proof -
      show "y < 64" "z < 64" "w < 64" and c': "c = x * 262144 + y * 4096 + z * 64 + w"
        using digits(2) [of c] unfolding x_def y_def z_def w_def by simp_all
      have "c < 1114112" using c by (auto simp: scalar_value_def)
      then show "x \<le> 4" using c' by linarith
    qed
    have b: "x = 0 \<Longrightarrow> 16 \<le> y" "x = 4 \<Longrightarrow> y \<le> 15" using 4 c r by (auto simp: scalar_value_def)
    have "utf8_char c = [240 + x, 128 + y, 128 + z, 128 + w]" using 4 by (simp add: utf8_char_def x_def y_def z_def w_def)
    then show ?thesis using r b by (simp add: utf8_tail_def)
  qed (simp add: utf8_char_def)
qed

lemma digit: "z < 64 \<Longrightarrow> (q * 64 + z) div 64 = q \<and> (q * 64 + z) mod 64 = (z :: nat)"
  by simp

lemma utf8_char_digits:
  "2 \<le> x \<Longrightarrow> x < 32 \<Longrightarrow> y < 64 \<Longrightarrow> utf8_char (x * 64 + y) = [192 + x, 128 + y]"
  "x < 16 \<Longrightarrow> y < 64 \<Longrightarrow> z < 64 \<Longrightarrow> x = 0 \<longrightarrow> 32 \<le> y \<Longrightarrow> utf8_char (x * 4096 + y * 64 + z) = [224 + x, 128 + y, 128 + z]"
  "x \<le> 4 \<Longrightarrow> y < 64 \<Longrightarrow> z < 64 \<Longrightarrow> w < 64 \<Longrightarrow> x = 0 \<longrightarrow> 16 \<le> y
    \<Longrightarrow> utf8_char (x * 262144 + y * 4096 + z * 64 + w) = [240 + x, 128 + y, 128 + z, 128 + w]"
proof -
  show "2 \<le> x \<Longrightarrow> x < 32 \<Longrightarrow> y < 64 \<Longrightarrow> utf8_char (x * 64 + y) = [192 + x, 128 + y]" by (simp add: utf8_char_def)
next
  assume r: "x < 16" "y < 64" "z < 64" "x = 0 \<longrightarrow> 32 \<le> y"
  define c where "c = x * 4096 + y * 64 + z"
  have "2048 \<le> c" "c < 65536" using r unfolding c_def by (cases "x = 0"; simp; linarith)+
  moreover have "c div 4096 = x" "c div 64 mod 64 = y" "c mod 64 = z"
    using r digit [of z "x * 64 + y"] digit [of y x] unfolding c_def div_digits by (simp_all add: algebra_simps)
  ultimately show "utf8_char (x * 4096 + y * 64 + z) = [224 + x, 128 + y, 128 + z]" unfolding c_def [symmetric] by (simp add: utf8_char_def)
next
  assume r: "x \<le> 4" "y < 64" "z < 64" "w < 64" "x = 0 \<longrightarrow> 16 \<le> y"
  define c where "c = x * 262144 + y * 4096 + z * 64 + w"
  have "65536 \<le> c" using r unfolding c_def by (cases "x = 0"; simp; linarith)
  moreover have "c div 262144 = x" "c div 4096 mod 64 = y" "c div 64 mod 64 = z" "c mod 64 = w"
    using r digit [of w "(x * 64 + y) * 64 + z"] digit [of z "x * 64 + y"] digit [of y x] unfolding c_def div_digits by (simp_all add: algebra_simps)
  ultimately show "utf8_char (x * 262144 + y * 4096 + z * 64 + w) = [240 + x, 128 + y, 128 + z, 128 + w]"
    unfolding c_def [symmetric] by (simp add: utf8_char_def)
qed

lemma byte_offset: "(k :: nat) \<le> a \<Longrightarrow> \<exists>x. a = k + x"
  by (rule le_Suc_ex)

lemma utf8_next_Some:
  assumes n: "utf8_next bs = Some (c, rest)" shows "scalar_value c \<and> bs = utf8_char c @ rest"
proof -
  obtain a as where bs: "bs = a # as" using n by (cases bs) auto
  consider "a < 128" | "194 \<le> a" "a \<le> 223" | "224 \<le> a" "a \<le> 239" | "240 \<le> a" "a \<le> 244"
    using n by (auto simp: bs split: if_splits)
  then show ?thesis
  proof cases
    case 1
    then show ?thesis using n by (auto simp: bs scalar_value_def utf8_char_def)
  next
    case 2
    then obtain b where as: "as = b # rest" "utf8_tail b" "c = (a - 192) * 64 + (b - 128)" using n by (auto simp: bs split: list.splits if_splits)
    obtain x y where "a = 192 + x" "b = 128 + y" using byte_offset [of 192 a] byte_offset [of 128 b] 2 as(2) by (auto simp: utf8_tail_def)
    then show ?thesis using 2 as bs utf8_char_digits(1) [of x y] by (simp add: utf8_tail_def scalar_value_def)
  next
    case 3
    then obtain b d where as: "as = b # d # rest" "(if a = 224 then 160 else 128) \<le> b" "b \<le> (if a = 237 then 159 else 191)" "utf8_tail d"
      "c = (a - 224) * 4096 + (b - 128) * 64 + (d - 128)" using n by (simp add: bs split: list.splits if_splits)
    obtain x y z where e: "a = 224 + x" "b = 128 + y" "d = 128 + z"
      using byte_offset [of 224 a] byte_offset [of 128 b] byte_offset [of 128 d] 3 as(2,4) by (auto simp: utf8_tail_def split: if_splits)
    have r: "x < 16" "y < 64" "z < 64" "x = 0 \<longrightarrow> 32 \<le> y" "x = 13 \<longrightarrow> y \<le> 31" using 3 as(2-4) e by (auto simp: utf8_tail_def split: if_splits)
    have c: "c = x * 4096 + y * 64 + z" using as(5) e by simp
    have "scalar_value c"
    proof (cases "x \<le> 13")
      case True
      then show ?thesis using r unfolding c scalar_value_def by (cases "x = 13") (simp, linarith)+
    next
      case False
      then show ?thesis using r unfolding c scalar_value_def by linarith
    qed
    then show ?thesis using utf8_char_digits(2) [OF r(1-4)] as(1) bs e c by simp
  next
    case 4
    then obtain b d f where as: "as = b # d # f # rest" "(if a = 240 then 144 else 128) \<le> b" "b \<le> (if a = 244 then 143 else 191)" "utf8_tail d" "utf8_tail f"
      "c = (a - 240) * 262144 + (b - 128) * 4096 + (d - 128) * 64 + (f - 128)" using n by (simp add: bs split: list.splits if_splits)
    obtain x y z w where e: "a = 240 + x" "b = 128 + y" "d = 128 + z" "f = 128 + w"
      using byte_offset [of 240 a] byte_offset [of 128 b] byte_offset [of 128 d] byte_offset [of 128 f] 4 as(2,4,5) by (auto simp: utf8_tail_def split: if_splits)
    have r: "x \<le> 4" "y < 64" "z < 64" "w < 64" "x = 0 \<longrightarrow> 16 \<le> y" "x = 4 \<longrightarrow> y \<le> 15"
      using 4 as(2-5) e by (auto simp: utf8_tail_def split: if_splits)
    have c: "c = x * 262144 + y * 4096 + z * 64 + w" using as(6) e by simp
    have "57344 \<le> c \<and> c < 1114112" using r unfolding c by (cases "x = 0"; cases "x = 4"; simp; linarith)
    then have "scalar_value c" by (simp add: scalar_value_def)
    then show ?thesis using utf8_char_digits(3) [OF r(1-5)] as(1) bs e c by simp
  qed
qed

lemma utf8_char_bytes: "scalar_value c \<Longrightarrow> utf8_char c \<noteq> [] \<and> (\<forall>b \<in> set (utf8_char c). b < 256)"
  unfolding utf8_char_def scalar_value_def by auto

lemma utf8_scan_Some: "utf8_scan ns = Some s \<longleftrightarrow> list_all scalar_value s \<and> concat (map utf8_char s) = ns"
proof
  show "utf8_scan ns = Some s \<Longrightarrow> list_all scalar_value s \<and> concat (map utf8_char s) = ns"
  proof (induction ns arbitrary: s rule: utf8_scan.induct)
    case (1 bs)
    show ?case
    proof (cases "bs = []")
      case True
      then show ?thesis using "1.prems" by (simp add: utf8_scan.simps [of "[]"])
    next
      case False
      then obtain c rest s' where n: "utf8_next bs = Some (c, rest)" "utf8_scan rest = Some s'" "s = c # s'"
        using "1.prems" by (subst (asm) utf8_scan.simps) (auto split: option.splits)
      then show ?thesis using "1.IH" [OF False n(1) refl n(2)] utf8_next_Some [OF n(1)] by simp
    qed
  qed
next
  have "list_all scalar_value s \<Longrightarrow> utf8_scan (concat (map utf8_char s)) = Some s"
  proof (induction s)
    case (Cons c s)
    then show ?case using utf8_char_bytes [of c]
      by (subst utf8_scan.simps) (simp add: utf8_next_char)
  qed (simp add: utf8_scan.simps [of "[]"])
  then show "list_all scalar_value s \<and> concat (map utf8_char s) = ns \<Longrightarrow> utf8_scan ns = Some s" by blast
qed

lemma from_utf8_Some: "from_utf8 bs = Some s \<longleftrightarrow> list_all scalar_value s \<and> as_bytes s = bs"
proof -
  have "concat (map utf8_char s) = map unat bs \<longleftrightarrow> as_bytes s = bs" if s: "list_all scalar_value s"
  proof -
    have "\<forall>n \<in> set (concat (map utf8_char s)). n < 256" using s utf8_char_bytes by (fastforce simp: list_all_iff)
    then have "map unat (as_bytes s) = concat (map utf8_char s)" unfolding as_bytes_def map_map by (intro map_idI) (simp add: unat_of_nat del: set_concat)
    moreover have "inj (unat :: u8 \<Rightarrow> nat)" by (rule injI) (simp add: word_unat_eq_iff)
    ultimately show ?thesis by (metis inj_map_eq_map)
  qed
  then show ?thesis by (auto simp: from_utf8_def utf8_scan_Some)
qed

interpretation utf8_codec: key_codec "list_all scalar_value" utf8_encode utf8_decode
  by unfold_locales (auto simp: utf8_encode_def utf8_decode_def res_simps from_utf8_Some)

interpretation u64_codec: key_codec "\<lambda>_. True" u64_encode u64_decode
  by unfold_locales (auto simp: u64_encode_def u64_decode_def res_simps exact_array_Ok le64_from_le_bytes)

definition i64_range :: "int \<Rightarrow> bool" where
  "i64_range i \<longleftrightarrow> - (2 ^ 63) \<le> i \<and> i < 2 ^ 63"

lemma sint_word_of_int_i64: "i64_range i \<Longrightarrow> sint (word_of_int i :: u64) = i"
  by (simp add: i64_range_def signed_of_int signed_take_bit_int_eq_self)

lemma sint_i64_range: "i64_range (sint (w :: u64))"
  using sint_ge [of w] sint_lt [of w] by (simp add: i64_range_def)

interpretation i64_codec: key_codec i64_range i64_encode i64_decode
  by unfold_locales
    (auto simp: i64_encode_def i64_decode_def res_simps exact_array_Ok sint_word_of_int_i64 sint_i64_range le64_from_le_bytes)

section \<open>Properties\<close>

text \<open>C35: The codecs for bytes, UTF-8 strings, unsigned and signed 64-bit integers are partial inverses: a byte string decodes to a
  key exactly when the key is a legal one and encodes to that byte string. The string codec rejects as malformed exactly the
  byte strings within the limit that are the encoding of no string, surrogates and longer forms included, and the integer codecs accept
  exactly eight bytes. The JSON codec, whose library is a parameter, is not part of the claim.\<close>

theorem codecs_roundtrip:
  "(bytes_decode bs = Ok b \<longleftrightarrow> bytes_encode b = Ok bs)
   \<and> (utf8_decode bs = Ok s \<longleftrightarrow> list_all scalar_value s \<and> utf8_encode s = Ok bs)
   \<and> (utf8_decode bs = Err InvalidUtf8 \<longleftrightarrow> length bs \<le> MAX_KEY_BYTES \<and> (\<nexists>s. list_all scalar_value s \<and> as_bytes s = bs))
   \<and> (u64_decode bs = Ok n \<longleftrightarrow> u64_encode n = Ok bs) \<and> ((\<exists>n. u64_decode bs = Ok n) \<longleftrightarrow> length bs = 8)
   \<and> (i64_decode bs = Ok i \<longleftrightarrow> i64_range i \<and> i64_encode i = Ok bs) \<and> ((\<exists>i. i64_decode bs = Ok i) \<longleftrightarrow> length bs = 8)"
proof -
  have "utf8_decode bs = Err InvalidUtf8 \<longleftrightarrow> length bs \<le> MAX_KEY_BYTES \<and> from_utf8 bs = None"
    by (cases "from_utf8 bs") (simp_all add: utf8_decode_def check_payload_size_def err_if_def)
  also have "\<dots> \<longleftrightarrow> length bs \<le> MAX_KEY_BYTES \<and> (\<nexists>s. list_all scalar_value s \<and> as_bytes s = bs)"
    using from_utf8_Some [of bs] by (metis not_None_eq)
  finally show ?thesis
    using bytes_codec.encode_iff_decode [of b bs] utf8_codec.encode_iff_decode [of s bs]
      u64_codec.encode_iff_decode [of n bs] i64_codec.encode_iff_decode [of i bs]
    by (auto simp: u64_decode_def i64_decode_def res_simps exact_array_Ok)
qed

text \<open>Every rejected key is rejected for the documented reason: oversized payloads by the variable-width
  codecs before anything else is looked at, and any length but eight by the integer codecs. No codec panics.\<close>

lemma codec_errors:
  "bytes_decode bs = (if MAX_KEY_BYTES < length bs then Err (PayloadTooLarge (length bs) MAX_KEY_BYTES) else Ok bs)
   \<and> (utf8_decode bs = Err (PayloadTooLarge m l) \<longleftrightarrow> MAX_KEY_BYTES < length bs \<and> m = length bs \<and> l = MAX_KEY_BYTES)
   \<and> (u64_decode bs = Err e \<longleftrightarrow> length bs \<noteq> 8 \<and> e = InvalidLength 8 (length bs))
   \<and> (i64_decode bs = Err e \<longleftrightarrow> length bs \<noteq> 8 \<and> e = InvalidLength 8 (length bs))
   \<and> u64_decode bs \<noteq> Panic \<and> i64_decode bs \<noteq> Panic \<and> utf8_decode bs \<noteq> Panic"
  by (cases "from_utf8 bs") (auto simp: bytes_decode_def utf8_decode_def check_payload_size_def u64_decode_def i64_decode_def
      exact_array_def)

text \<open>The JSON codec hands its library no input above the limit and returns no output above it, whatever the library does.\<close>

lemma json_codec_bounded:
  "(json_encode to_vec v = Ok bs \<longleftrightarrow> to_vec v = Ok bs \<and> length bs \<le> MAX_KEY_BYTES)
   \<and> (json_decode from_slice bs = Ok v \<longleftrightarrow> from_slice bs = Ok v \<and> length bs \<le> MAX_KEY_BYTES)"
  by (auto simp: json_encode_def json_decode_def res_simps check_payload_size_def)

theorem codecs_roundtrip_witness:
  "utf8_encode [65, 233, 8364, 128512] = Ok [65, 195, 169, 226, 130, 172, 240, 159, 152, 128]
   \<and> utf8_decode [65, 195, 169, 226, 130, 172, 240, 159, 152, 128] = Ok [65, 233, 8364, 128512]"
proof -
  have enc: "utf8_encode [65, 233, 8364, 128512] = Ok [65, 195, 169, 226, 130, 172, 240, 159, 152, 128]"
    by (simp add: utf8_encode_def as_bytes_def utf8_char_def check_payload_size_def)
  then show ?thesis
    using codecs_roundtrip [of "[65, 195, 169, 226, 130, 172, 240, 159, 152, 128]" _ "[65, 233, 8364, 128512]"] by (simp add: scalar_value_def)
qed

end
