(* ===== verification/Pari_Format.thy ===== *)
theory Pari_Format
  imports Pari_F64 Pari_Codec
begin

text \<open>
  Crate \<open>pari-format\<close>, the versioned container (\<open>crates/pari-format/src/format.rs\<close>): header and section
  frames, their encoder and the whole-file decoder with its bounds and checksum checks. CRC-32 is
  the parameter \<open>crc\<close>; thresholds are IEEE bit patterns.

  The lemmas characterise the decoder exactly: it accepts a byte string if and only if the string
  is the canonical header followed by well-formed frames, and then returns precisely the known
  sections of these frames.
\<close>

section \<open>Definitions\<close>

definition MAGIC :: bytes where
  "MAGIC = [80, 65, 82, 73, 73, 68, 88, 0]"

abbreviation FORMAT_VERSION :: u16 where "FORMAT_VERSION \<equiv> 1"
abbreviation HEADER_SIZE :: usize where "HEADER_SIZE \<equiv> 72"
abbreviation HEADER_SIZE_U16 :: u16 where "HEADER_SIZE_U16 \<equiv> 72"
abbreviation SECTION_HEADER_SIZE :: usize where "SECTION_HEADER_SIZE \<equiv> 16"
abbreviation SECTION_FLAG_REQUIRED :: u16 where "SECTION_FLAG_REQUIRED \<equiv> 1"
abbreviation KNOWN_SECTION_FLAGS :: u16 where "KNOWN_SECTION_FLAGS \<equiv> SECTION_FLAG_REQUIRED"
abbreviation MAX_SECTION_COUNT :: usize where "MAX_SECTION_COUNT \<equiv> 1024"
abbreviation MAX_SECTION_BYTES :: u64 where "MAX_SECTION_BYTES \<equiv> 268435456"
abbreviation SUPPORTED_FEATURE_FLAGS :: u64 where "SUPPORTED_FEATURE_FLAGS \<equiv> 0"

datatype algorithm = MinHashLsh

definition algorithm_from_raw :: "u16 \<Rightarrow> algorithm option" where
  "algorithm_from_raw value = (if value = 1 then Some MinHashLsh else None)"

fun algorithm_as_raw :: "algorithm \<Rightarrow> u16" where
  "algorithm_as_raw MinHashLsh = 1"

datatype signature_scheme = PariAffine32V1 | PariAffine64V1

definition signature_scheme_from_raw :: "u16 \<Rightarrow> signature_scheme option" where
  "signature_scheme_from_raw value =
     (if value = 1 then Some PariAffine32V1 else if value = 2 then Some PariAffine64V1 else None)"

fun signature_scheme_as_raw :: "signature_scheme \<Rightarrow> u16" where
  "signature_scheme_as_raw PariAffine32V1 = 1"
| "signature_scheme_as_raw PariAffine64V1 = 2"

fun width_bits :: "signature_scheme \<Rightarrow> u16" where
  "width_bits PariAffine32V1 = 32"
| "width_bits PariAffine64V1 = 64"

datatype section_kind = Keys | BandHashes | Buckets | Tombstones

definition section_kind_from_raw :: "u16 \<Rightarrow> section_kind option" where
  "section_kind_from_raw value =
     (if value = 1 then Some Keys else if value = 2 then Some BandHashes
      else if value = 3 then Some Buckets else if value = 4 then Some Tombstones else None)"

fun section_kind_as_raw :: "section_kind \<Rightarrow> u16" where
  "section_kind_as_raw Keys = 1"
| "section_kind_as_raw BandHashes = 2"
| "section_kind_as_raw Buckets = 3"
| "section_kind_as_raw Tombstones = 4"

datatype format_error =
    Truncated string
  | InvalidMagic
  | UnsupportedVersion u16
  | InvalidHeaderSize u16
  | InvalidReservedBytes
  | HeaderChecksumMismatch u32 u32
  | UnsupportedAlgorithm u16
  | UnsupportedSignatureScheme u16
  | SignatureWidthMismatch u16 u16
  | UnsupportedCodec u16
  | InvalidMetadata string
  | UnsupportedFeatures u64
  | TooManySections usize usize
  | SectionTooLarge u64
  | InvalidSectionFlags u16
  | UnknownRequiredSection u16
  | SectionChecksumMismatch u32 u32
  | LengthOverflow
  | TrailingBytes usize

record index_metadata =
  md_algorithm :: algorithm
  md_signature_scheme :: signature_scheme
  md_key_codec :: codec_id
  md_num_perm :: u32
  md_seed :: u64
  md_threshold :: f64
  md_bands :: u32
  md_rows :: u32
  md_feature_flags :: u64

definition validate_metadata :: "u32 \<Rightarrow> f64 \<Rightarrow> u32 \<Rightarrow> u32 \<Rightarrow> u64 \<Rightarrow> (unit, format_error) result" where
  "validate_metadata num_perm threshold bands rows feature_flags =
     and_then (err_if (num_perm = 0) (InvalidMetadata ''num_perm must be positive'')) (\<lambda>_.
     and_then (err_if (threshold_rejected threshold) (InvalidMetadata ''threshold must be finite and in (0, 1]'')) (\<lambda>_.
     and_then (ok_or (InvalidMetadata ''bands * rows overflows'') (checked_mul bands rows)) (\<lambda>used.
     and_then (err_if (bands = 0 \<or> rows = 0 \<or> num_perm < used)
       (InvalidMetadata ''bands and rows must be positive and use no more than num_perm values'')) (\<lambda>_.
     err_if (feature_flags AND NOT SUPPORTED_FEATURE_FLAGS \<noteq> 0)
       (UnsupportedFeatures (feature_flags AND NOT SUPPORTED_FEATURE_FLAGS))))))"

definition index_metadata_new ::
  "algorithm \<Rightarrow> signature_scheme \<Rightarrow> codec_id \<Rightarrow> u32 \<Rightarrow> u64 \<Rightarrow> f64 \<Rightarrow> u32 \<Rightarrow> u32 \<Rightarrow> u64
     \<Rightarrow> (index_metadata, format_error) result" where
  "index_metadata_new algorithm scheme codec num_perm seed threshold bands rows feature_flags =
     and_then (validate_metadata num_perm threshold bands rows feature_flags) (\<lambda>_.
     Ok \<lparr>md_algorithm = algorithm, md_signature_scheme = scheme, md_key_codec = codec, md_num_perm = num_perm,
         md_seed = seed, md_threshold = threshold, md_bands = bands, md_rows = rows, md_feature_flags = feature_flags\<rparr>)"

record index_section =
  sec_kind :: section_kind
  sec_required :: bool
  sec_payload :: bytes

definition section_new :: "section_kind \<Rightarrow> bool \<Rightarrow> bytes \<Rightarrow> (index_section, format_error) result" where
  "section_new kind required payload =
     and_then (ok_or LengthOverflow (u64_try_from (length payload))) (\<lambda>len.
     and_then (err_if (MAX_SECTION_BYTES < len) (SectionTooLarge len)) (\<lambda>_.
     Ok \<lparr>sec_kind = kind, sec_required = required, sec_payload = payload\<rparr>))"

record index_file =
  if_metadata :: index_metadata
  if_sections :: "index_section list"

definition index_file_new :: "index_metadata \<Rightarrow> index_section list \<Rightarrow> (index_file, format_error) result" where
  "index_file_new metadata sections =
     and_then (err_if (MAX_SECTION_COUNT < length sections) (TooManySections (length sections) MAX_SECTION_COUNT)) (\<lambda>_.
     Ok \<lparr>if_metadata = metadata, if_sections = sections\<rparr>)"

definition read_array :: "usize \<Rightarrow> bytes \<Rightarrow> usize \<Rightarrow> (bytes, format_error) result" where
  "read_array n bs offset =
     and_then (ok_or LengthOverflow (checked_add_usize offset n)) (\<lambda>end.
     ok_or (Truncated ''field'') (slice_get bs offset end))"

definition read_u16 :: "bytes \<Rightarrow> usize \<Rightarrow> (u16, format_error) result" where
  "read_u16 bs offset = and_then (read_array 2 bs offset) (\<lambda>raw. Ok (from_le_bytes raw))"

definition read_u32 :: "bytes \<Rightarrow> usize \<Rightarrow> (u32, format_error) result" where
  "read_u32 bs offset = and_then (read_array 4 bs offset) (\<lambda>raw. Ok (from_le_bytes raw))"

definition read_u64 :: "bytes \<Rightarrow> usize \<Rightarrow> (u64, format_error) result" where
  "read_u64 bs offset = and_then (read_array 8 bs offset) (\<lambda>raw. Ok (from_le_bytes raw))"

text \<open>The header array: each \<open>copy_from_slice\<close> writes the next field; bytes 36 to 40 and 68 to 72 keep the
  initial zeros.\<close>

definition header_fields :: "index_metadata \<Rightarrow> u32 \<Rightarrow> bytes" where
  "header_fields metadata section_count =
     MAGIC @ le16 FORMAT_VERSION @ le16 HEADER_SIZE_U16 @ le16 (algorithm_as_raw (md_algorithm metadata))
     @ le16 (signature_scheme_as_raw (md_signature_scheme metadata)) @ le16 (width_bits (md_signature_scheme metadata))
     @ le16 (codec_id_as_raw (md_key_codec metadata)) @ le32 (md_num_perm metadata) @ le32 (md_bands metadata)
     @ le32 (md_rows metadata) @ le32 section_count @ replicate 4 0 @ le64 (md_seed metadata)
     @ le64 (md_threshold metadata) @ le64 (md_feature_flags metadata)"

definition encode_header :: "(bytes \<Rightarrow> u32) \<Rightarrow> index_metadata \<Rightarrow> u32 \<Rightarrow> bytes" where
  "encode_header crc metadata section_count =
     (let fields = header_fields metadata section_count in fields @ le32 (crc fields) @ replicate 4 0)"

definition decode_header :: "(bytes \<Rightarrow> u32) \<Rightarrow> bytes \<Rightarrow> (index_metadata \<times> u32, format_error) result" where
  "decode_header crc bs =
     and_then (ok_or (Truncated ''file header'') (slice_get bs 0 HEADER_SIZE)) (\<lambda>header.
     and_then (err_if (slice_get header 0 8 \<noteq> Some MAGIC) InvalidMagic) (\<lambda>_.
     and_then (read_u16 header 8) (\<lambda>version.
     and_then (err_if (version \<noteq> FORMAT_VERSION) (UnsupportedVersion version)) (\<lambda>_.
     and_then (read_u16 header 10) (\<lambda>header_size.
     and_then (err_if (unat header_size \<noteq> HEADER_SIZE) (InvalidHeaderSize header_size)) (\<lambda>_.
     and_then (err_if (slice_get header 36 40 \<noteq> Some [0, 0, 0, 0] \<or> slice_get header 68 72 \<noteq> Some [0, 0, 0, 0])
       InvalidReservedBytes) (\<lambda>_.
     and_then (read_u32 header 64) (\<lambda>expected_checksum.
     and_then (ok_or (Truncated ''header checksum range'') (slice_get header 0 64)) (\<lambda>range.
     let actual_checksum = crc range in
     and_then (err_if (expected_checksum \<noteq> actual_checksum) (HeaderChecksumMismatch expected_checksum actual_checksum)) (\<lambda>_.
     and_then (read_u16 header 12) (\<lambda>algorithm_raw.
     and_then (ok_or (UnsupportedAlgorithm algorithm_raw) (algorithm_from_raw algorithm_raw)) (\<lambda>algorithm.
     and_then (read_u16 header 14) (\<lambda>scheme_raw.
     and_then (ok_or (UnsupportedSignatureScheme scheme_raw) (signature_scheme_from_raw scheme_raw)) (\<lambda>signature_scheme.
     and_then (read_u16 header 16) (\<lambda>signature_width.
     and_then (err_if (signature_width \<noteq> width_bits signature_scheme)
       (SignatureWidthMismatch (width_bits signature_scheme) signature_width)) (\<lambda>_.
     and_then (read_u16 header 18) (\<lambda>codec_raw.
     and_then (ok_or (UnsupportedCodec codec_raw) (codec_id_from_raw codec_raw)) (\<lambda>key_codec.
     and_then (read_u32 header 20) (\<lambda>num_perm.
     and_then (read_u32 header 24) (\<lambda>bands.
     and_then (read_u32 header 28) (\<lambda>rows.
     and_then (read_u32 header 32) (\<lambda>section_count.
     and_then (read_u64 header 40) (\<lambda>seed.
     and_then (read_u64 header 48) (\<lambda>threshold.
     and_then (read_u64 header 56) (\<lambda>feature_flags.
     and_then (index_metadata_new algorithm signature_scheme key_codec num_perm seed threshold bands rows feature_flags) (\<lambda>metadata.
     Ok (metadata, section_count)))))))))))))))))))))))))))"

definition encode_section :: "(bytes \<Rightarrow> u32) \<Rightarrow> index_section \<Rightarrow> bytes \<Rightarrow> (bytes, format_error) result" where
  "encode_section crc section output =
     and_then (ok_or LengthOverflow (u64_try_from (length (sec_payload section)))) (\<lambda>len.
     and_then (err_if (MAX_SECTION_BYTES < len) (SectionTooLarge len)) (\<lambda>_.
     let flags = if sec_required section then SECTION_FLAG_REQUIRED else 0
     in Ok (output @ le16 (section_kind_as_raw (sec_kind section)) @ le16 flags @ le64 len
            @ le32 (crc (sec_payload section)) @ sec_payload section)))"

definition index_file_encode :: "(bytes \<Rightarrow> u32) \<Rightarrow> index_file \<Rightarrow> (bytes, format_error) result" where
  "index_file_encode crc file =
     and_then (ok_or (TooManySections (length (if_sections file)) MAX_SECTION_COUNT)
       (u32_try_from (length (if_sections file)))) (\<lambda>section_count.
     and_then (fold_result (\<lambda>section total.
         ok_or LengthOverflow (Option.bind (checked_add_usize total SECTION_HEADER_SIZE)
           (\<lambda>value. checked_add_usize value (length (sec_payload section)))))
       (if_sections file) HEADER_SIZE) (\<lambda>total.
     fold_result (encode_section crc) (if_sections file) (encode_header crc (if_metadata file) section_count)))"

text \<open>One pass of the decoding loop: the section, when it is a known one, and the next cursor.\<close>

definition decode_section :: "(bytes \<Rightarrow> u32) \<Rightarrow> bytes \<Rightarrow> usize \<Rightarrow> (index_section option \<times> usize, format_error) result" where
  "decode_section crc bs cursor =
     and_then (ok_or LengthOverflow (checked_add_usize cursor SECTION_HEADER_SIZE)) (\<lambda>header_end.
     and_then (ok_or (Truncated ''section header'') (slice_get bs cursor header_end)) (\<lambda>header.
     and_then (read_u16 header 0) (\<lambda>kind_raw.
     and_then (read_u16 header 2) (\<lambda>flags.
     and_then (read_u64 header 4) (\<lambda>len.
     and_then (read_u32 header 12) (\<lambda>expected_checksum.
     and_then (err_if (flags AND NOT KNOWN_SECTION_FLAGS \<noteq> 0) (InvalidSectionFlags flags)) (\<lambda>_.
     and_then (err_if (MAX_SECTION_BYTES < len) (SectionTooLarge len)) (\<lambda>_.
     and_then (ok_or LengthOverflow (checked_add_usize header_end (unat len))) (\<lambda>payload_end.
     and_then (ok_or (Truncated ''section payload'') (slice_get bs header_end payload_end)) (\<lambda>payload.
     let actual_checksum = crc payload in
     and_then (err_if (actual_checksum \<noteq> expected_checksum) (SectionChecksumMismatch expected_checksum actual_checksum)) (\<lambda>_.
     let required = flags AND SECTION_FLAG_REQUIRED \<noteq> 0 in
     case section_kind_from_raw kind_raw of
       Some kind \<Rightarrow> and_then (section_new kind required payload) (\<lambda>section. Ok (Some section, payload_end))
     | None \<Rightarrow> if required then Err (UnknownRequiredSection kind_raw) else Ok (None, payload_end))))))))))))"

fun decode_sections :: "(bytes \<Rightarrow> u32) \<Rightarrow> bytes \<Rightarrow> nat \<Rightarrow> usize \<Rightarrow> index_section list \<Rightarrow> (index_section list \<times> usize, format_error) result" where
  "decode_sections crc bs 0 cursor sections = Ok (sections, cursor)"
| "decode_sections crc bs (Suc n) cursor sections =
     and_then (decode_section crc bs cursor) (\<lambda>(section, cursor).
     decode_sections crc bs n cursor (case section of None \<Rightarrow> sections | Some s \<Rightarrow> sections @ [s]))"

definition index_file_decode :: "(bytes \<Rightarrow> u32) \<Rightarrow> bytes \<Rightarrow> (index_file, format_error) result" where
  "index_file_decode crc bs =
     and_then (decode_header crc bs) (\<lambda>(metadata, count).
     let section_count = unat count in
     and_then (err_if (MAX_SECTION_COUNT < section_count) (TooManySections section_count MAX_SECTION_COUNT)) (\<lambda>_.
     and_then (decode_sections crc bs section_count HEADER_SIZE []) (\<lambda>(sections, cursor).
     and_then (err_if (cursor \<noteq> length bs) (TrailingBytes (length bs - cursor))) (\<lambda>_.
     index_file_new metadata sections))))"

section \<open>Identifiers and metadata\<close>

lemma algorithm_from_raw_iff: "algorithm_from_raw v = Some a \<longleftrightarrow> v = algorithm_as_raw a"
  by (cases a) (auto simp: algorithm_from_raw_def split: if_splits)

lemma signature_scheme_from_raw_iff: "signature_scheme_from_raw v = Some s \<longleftrightarrow> v = signature_scheme_as_raw s"
  by (cases s) (auto simp: signature_scheme_from_raw_def split: if_splits)

lemma section_kind_from_raw_iff: "section_kind_from_raw v = Some k \<longleftrightarrow> v = section_kind_as_raw k"
  by (cases k) (auto simp: section_kind_from_raw_def split: if_splits)

definition metadata_valid :: "index_metadata \<Rightarrow> bool" where
  "metadata_valid md \<longleftrightarrow>
     0 < md_num_perm md \<and> \<not> threshold_rejected (md_threshold md) \<and> 0 < md_bands md \<and> 0 < md_rows md
     \<and> unat (md_bands md) * unat (md_rows md) \<le> unat (md_num_perm md) \<and> md_feature_flags md = 0"

lemma validate_metadata_Ok:
  "validate_metadata n t b r f = Ok () \<longleftrightarrow>
     0 < n \<and> \<not> threshold_rejected t \<and> 0 < b \<and> 0 < r \<and> unat b * unat r \<le> unat n \<and> f = 0"
proof -
  have "(\<exists>u. checked_mul b r = Some u \<and> \<not> n < u) \<longleftrightarrow> unat b * unat r \<le> unat n"
  proof
    assume "\<exists>u. checked_mul b r = Some u \<and> \<not> n < u"
    then show "unat b * unat r \<le> unat n" using checked_mul_Some by (fastforce simp: word_less_nat_alt)
  next
    assume le: "unat b * unat r \<le> unat n"
    then have "unat b * unat r < 2 ^ 32" using unat_u32_less [of n] by simp
    then have "checked_mul b r = Some (b * r)" by (simp add: checked_mul_def)
    moreover from this have "\<not> n < b * r" using checked_mul_Some [of b r] le by (simp add: word_less_nat_alt)
    ultimately show "\<exists>u. checked_mul b r = Some u \<and> \<not> n < u" by blast
  qed
  then show ?thesis
    by (auto simp: validate_metadata_def res_simps word_gt_0)
qed

lemma index_metadata_new_Ok:
  "index_metadata_new a s c n seed t b r f = Ok md \<longleftrightarrow>
     metadata_valid md \<and> md = \<lparr>md_algorithm = a, md_signature_scheme = s, md_key_codec = c, md_num_perm = n,
         md_seed = seed, md_threshold = t, md_bands = b, md_rows = r, md_feature_flags = f\<rparr>"
  by (auto simp: index_metadata_new_def res_simps validate_metadata_Ok metadata_valid_def)

section \<open>Fields\<close>

lemma slice_get_eq_Some: "slice_get xs a b = Some ys \<longleftrightarrow> a \<le> b \<and> b \<le> length xs \<and> ys = take (b - a) (drop a xs)"
  by (auto simp: slice_get_def)

lemma read_array_small:
  "offset + n < usize_limit \<Longrightarrow> read_array n bs offset
     = (if offset + n \<le> length bs then Ok (take n (drop offset bs)) else Err (Truncated ''field''))"
  by (simp add: read_array_def checked_add_usize_def slice_get_def)

lemma read_u16_field: "length xs = offset \<Longrightarrow> offset + 2 < usize_limit \<Longrightarrow> length v = 2
    \<Longrightarrow> read_u16 (xs @ v @ ys) offset = Ok (from_le_bytes v)"
  by (simp add: read_u16_def read_array_small)

lemma read_u32_field: "length xs = offset \<Longrightarrow> offset + 4 < usize_limit \<Longrightarrow> length v = 4
    \<Longrightarrow> read_u32 (xs @ v @ ys) offset = Ok (from_le_bytes v)"
  by (simp add: read_u32_def read_array_small)

lemma read_u64_field: "length xs = offset \<Longrightarrow> offset + 8 < usize_limit \<Longrightarrow> length v = 8
    \<Longrightarrow> read_u64 (xs @ v @ ys) offset = Ok (from_le_bytes v)"
  by (simp add: read_u64_def read_array_small)

lemma from_le16_eq: "length v = 2 \<Longrightarrow> from_le_bytes v = (w :: u16) \<longleftrightarrow> v = le16 w"
  by (metis from_le_bytes_le16 le16_from_le_bytes)

lemma from_le32_eq: "length v = 4 \<Longrightarrow> from_le_bytes v = (w :: u32) \<longleftrightarrow> v = le32 w"
  by (metis from_le_bytes_le32 le32_from_le_bytes)

lemma from_le64_eq: "length v = 8 \<Longrightarrow> from_le_bytes v = (w :: u64) \<longleftrightarrow> v = le64 w"
  by (metis from_le_bytes_le64 le64_from_le_bytes)

text \<open>A byte string cut into fields of the given widths.\<close>

fun cut :: "nat list \<Rightarrow> 'a list \<Rightarrow> 'a list list" where
  "cut [] xs = []"
| "cut (n # ns) xs = take n xs # cut ns (drop n xs)"

lemma concat_cut: "length xs = sum_list ns \<Longrightarrow> concat (cut ns xs) = xs"
  by (induction ns xs rule: cut.induct) auto

lemma length_cut: "length xs = sum_list ns \<Longrightarrow> map length (cut ns xs) = ns"
  by (induction ns xs rule: cut.induct) auto

section \<open>Headers\<close>

lemma length_MAGIC [simp]: "length MAGIC = 8"
  by (simp add: MAGIC_def)

lemma length_header_fields [simp]: "length (header_fields md n) = 64"
  by (simp add: header_fields_def)

lemma length_encode_header [simp]: "length (encode_header crc md n) = 72"
  by (simp add: encode_header_def Let_def)

lemma decode_header_fields:
  assumes len: "length m = 8" "length v = 2" "length s = 2" "length a = 2" "length g = 2" "length w = 2" "length c = 2"
    "length p = 4" "length b = 4" "length r = 4" "length n = 4" "length z = 4" "length sd = 8" "length t = 8" "length f = 8"
    "length k = 4" "length y = 4"
  shows "decode_header crc (m @ v @ s @ a @ g @ w @ c @ p @ b @ r @ n @ z @ sd @ t @ f @ k @ y @ rest) = Ok (md, count)
    \<longleftrightarrow> metadata_valid md \<and> m = MAGIC \<and> v = le16 FORMAT_VERSION \<and> s = le16 HEADER_SIZE_U16
      \<and> a = le16 (algorithm_as_raw (md_algorithm md)) \<and> g = le16 (signature_scheme_as_raw (md_signature_scheme md))
      \<and> w = le16 (width_bits (md_signature_scheme md)) \<and> c = le16 (codec_id_as_raw (md_key_codec md))
      \<and> p = le32 (md_num_perm md) \<and> b = le32 (md_bands md) \<and> r = le32 (md_rows md) \<and> n = le32 count \<and> z = replicate 4 0
      \<and> sd = le64 (md_seed md) \<and> t = le64 (md_threshold md) \<and> f = le64 (md_feature_flags md)
      \<and> k = le32 (crc (m @ v @ s @ a @ g @ w @ c @ p @ b @ r @ n @ z @ sd @ t @ f)) \<and> y = replicate 4 0"
proof -
  let ?h = "m @ v @ s @ a @ g @ w @ c @ p @ b @ r @ n @ z @ sd @ t @ f @ k @ y"
  have get: "slice_get (?h @ rest) 0 72 = Some ?h" "slice_get ?h 0 8 = Some m" "slice_get ?h 36 40 = Some z"
    "slice_get ?h 68 72 = Some y" "slice_get ?h 0 64 = Some (m @ v @ s @ a @ g @ w @ c @ p @ b @ r @ n @ z @ sd @ t @ f)"
    by (simp_all add: slice_get_def len)
  have u16: "read_u16 ?h 8 = Ok (from_le_bytes v)" "read_u16 ?h 10 = Ok (from_le_bytes s)" "read_u16 ?h 12 = Ok (from_le_bytes a)"
    "read_u16 ?h 14 = Ok (from_le_bytes g)" "read_u16 ?h 16 = Ok (from_le_bytes w)" "read_u16 ?h 18 = Ok (from_le_bytes c)"
    by (simp_all add: read_u16_def read_array_small len)
  have u32: "read_u32 ?h 20 = Ok (from_le_bytes p)" "read_u32 ?h 24 = Ok (from_le_bytes b)" "read_u32 ?h 28 = Ok (from_le_bytes r)"
    "read_u32 ?h 32 = Ok (from_le_bytes n)" "read_u32 ?h 64 = Ok (from_le_bytes k)"
    by (simp_all add: read_u32_def read_array_small len)
  have u64: "read_u64 ?h 40 = Ok (from_le_bytes sd)" "read_u64 ?h 48 = Ok (from_le_bytes t)" "read_u64 ?h 56 = Ok (from_le_bytes f)"
    by (simp_all add: read_u64_def read_array_small len)
  have size: "unat (x :: u16) = 72 \<longleftrightarrow> x = 72" for x
    by (simp add: word_unat_eq_iff)
  have four: "replicate 4 0 = [0 :: u8, 0, 0, 0]" by (simp add: numeral_eq_Suc)
  show ?thesis
    using get(1) unfolding decode_header_def append_assoc
    by (simp only: get u16 u32 u64 ok_or.simps and_then.simps Let_def, cases md)
      (auto simp: res_simps algorithm_from_raw_iff signature_scheme_from_raw_iff codec_id_from_raw_iff index_metadata_new_Ok
        size four from_le16_eq [OF len(2)] from_le16_eq [OF len(3)] from_le16_eq [OF len(4)] from_le16_eq [OF len(5)]
        from_le16_eq [OF len(6)] from_le16_eq [OF len(7)] from_le32_eq [OF len(16)] le32_from_le_bytes len le64_from_le_bytes)
qed

lemma decode_header_iff:
  "decode_header crc bs = Ok (md, count) \<longleftrightarrow>
     metadata_valid md \<and> 72 \<le> length bs \<and> take 72 bs = encode_header crc md count"
proof (cases "72 \<le> length bs")
  case True
  let ?ns = "[8, 2, 2, 2, 2, 2, 2, 4, 4, 4, 4, 4, 8, 8, 8, 4, 4] :: nat list"
  obtain m v s a g w c p b r n z sd t f k y where cut: "cut ?ns (take 72 bs) = [m, v, s, a, g, w, c, p, b, r, n, z, sd, t, f, k, y]"
    by simp
  have len: "length m = 8" "length v = 2" "length s = 2" "length a = 2" "length g = 2" "length w = 2" "length c = 2"
    "length p = 4" "length b = 4" "length r = 4" "length n = 4" "length z = 4" "length sd = 8" "length t = 8" "length f = 8"
    "length k = 4" "length y = 4"
    using length_cut [of "take 72 bs" ?ns] True unfolding cut by simp_all
  have h: "take 72 bs = m @ v @ s @ a @ g @ w @ c @ p @ b @ r @ n @ z @ sd @ t @ f @ k @ y"
    using concat_cut [of "take 72 bs" ?ns] True unfolding cut by simp
  then have bs: "bs = m @ v @ s @ a @ g @ w @ c @ p @ b @ r @ n @ z @ sd @ t @ f @ k @ y @ drop 72 bs"
    by (metis append_take_drop_id append_assoc)
  have "take 72 bs = encode_header crc md count \<longleftrightarrow>
      m = MAGIC \<and> v = le16 FORMAT_VERSION \<and> s = le16 HEADER_SIZE_U16
      \<and> a = le16 (algorithm_as_raw (md_algorithm md)) \<and> g = le16 (signature_scheme_as_raw (md_signature_scheme md))
      \<and> w = le16 (width_bits (md_signature_scheme md)) \<and> c = le16 (codec_id_as_raw (md_key_codec md))
      \<and> p = le32 (md_num_perm md) \<and> b = le32 (md_bands md) \<and> r = le32 (md_rows md) \<and> n = le32 count \<and> z = replicate 4 0
      \<and> sd = le64 (md_seed md) \<and> t = le64 (md_threshold md) \<and> f = le64 (md_feature_flags md)
      \<and> k = le32 (crc (m @ v @ s @ a @ g @ w @ c @ p @ b @ r @ n @ z @ sd @ t @ f)) \<and> y = replicate 4 0"
    unfolding h encode_header_def header_fields_def Let_def append_assoc
    by (simp add: len cong: conj_cong)
  then show ?thesis
    using True decode_header_fields [OF len, of crc "drop 72 bs" md count] by (subst bs) simp
next
  case False
  then show ?thesis by (simp add: decode_header_def slice_get_def)
qed

section \<open>Frames\<close>

text \<open>A frame as the format defines it: kind, required flag and payload. Readers skip optional frames of
  an unknown kind.\<close>

type_synonym frame = "u16 \<times> bool \<times> bytes"

definition frame_bytes :: "(bytes \<Rightarrow> u32) \<Rightarrow> frame \<Rightarrow> bytes" where
  "frame_bytes crc fr = (case fr of (kind, required, payload) \<Rightarrow>
     le16 kind @ le16 (if required then 1 else 0) @ le64 (of_nat (length payload)) @ le32 (crc payload) @ payload)"

definition frame_ok :: "frame \<Rightarrow> bool" where
  "frame_ok fr = (case fr of (kind, required, payload) \<Rightarrow>
     length payload \<le> 268435456 \<and> (required \<longrightarrow> section_kind_from_raw kind \<noteq> None))"

definition frame_section :: "frame \<Rightarrow> index_section option" where
  "frame_section fr = (case fr of (kind, required, payload) \<Rightarrow>
     map_option (\<lambda>k. \<lparr>sec_kind = k, sec_required = required, sec_payload = payload\<rparr>) (section_kind_from_raw kind))"

lemma length_frame_bytes: "length (frame_bytes crc (k, r, p)) = 16 + length p"
  by (simp add: frame_bytes_def)

lemma flags_known: "(flags :: u16) AND NOT 1 = 0 \<longleftrightarrow> flags = 0 \<or> flags = 1"
proof
  assume "flags AND NOT 1 = 0"
  then have "flags = flags AND 1" by (metis (no_types) and.commute bit.conj_disj_distrib bit.disj_cancel_right word_and_max or.right_neutral or.commute)
  then show "flags = 0 \<or> flags = 1" by (metis and_one_eq mod2_eq_if)
qed auto

lemma section_new_Ok:
  "section_new kind required payload = Ok s \<longleftrightarrow>
     length payload \<le> 268435456 \<and> s = \<lparr>sec_kind = kind, sec_required = required, sec_payload = payload\<rparr>"
  by (auto simp: section_new_def res_simps u64_try_from_Some word_less_nat_alt unat_of_nat_u64)

lemma decode_section_frame:
  assumes "length bs < usize_limit" and "frame_ok fr" and "cursor \<le> length bs" and "drop cursor bs = frame_bytes crc fr @ rest"
  shows "decode_section crc bs cursor = Ok (frame_section fr, cursor + length (frame_bytes crc fr))"
proof -
  obtain k r p where fr: "fr = (k, r, p)" by (cases fr)
  define flags :: u16 where "flags = (if r then 1 else 0)"
  let ?header = "le16 k @ le16 flags @ le64 (of_nat (length p)) @ le32 (crc p)"
  have drop: "drop cursor bs = ?header @ p @ rest" using assms(4) by (simp add: frame_bytes_def fr flags_def)
  have len: "length bs = cursor + 16 + length p + length rest" using arg_cong [OF drop, of length] assms(3) by simp
  have p: "length p \<le> 268435456" "unat (of_nat (length p) :: u64) = length p"
    using assms(2) by (simp_all add: frame_ok_def fr unat_of_nat_u64)
  have add: "checked_add_usize cursor 16 = Some (cursor + 16)" "checked_add_usize (cursor + 16) (length p) = Some (cursor + 16 + length p)"
    using len assms(1) by (simp_all add: checked_add_usize_def)
  have header: "slice_get bs cursor (cursor + 16) = Some ?header"
    using len drop by (simp add: slice_get_def)
  have "drop (cursor + 16) bs = p @ rest" using arg_cong [OF drop, of "drop 16"] by (simp add: add.commute)
  then have payload: "slice_get bs (cursor + 16) (cursor + 16 + length p) = Some p"
    using len by (simp add: slice_get_def)
  have reads: "read_u16 ?header 0 = Ok k" "read_u16 ?header 2 = Ok flags" "read_u64 ?header 4 = Ok (of_nat (length p))"
    "read_u32 ?header 12 = Ok (crc p)"
    by (simp_all add: read_u16_def read_u32_def read_u64_def read_array_small)
  have flags: "flags AND NOT 1 = 0" "flags AND 1 \<noteq> 0 \<longleftrightarrow> r" by (simp_all add: flags_def)
  have "\<not> MAX_SECTION_BYTES < of_nat (length p)" using p by (simp add: word_less_nat_alt)
  then have "decode_section crc bs cursor = (case section_kind_from_raw k of
       Some kind \<Rightarrow> and_then (section_new kind r p) (\<lambda>section. Ok (Some section, cursor + 16 + length p))
     | None \<Rightarrow> if r then Err (UnknownRequiredSection k) else Ok (None, cursor + 16 + length p))"
    unfolding decode_section_def add(1) ok_or.simps and_then.simps header reads p(2) add(2) payload Let_def flags
    by (simp cong: option.case_cong)
  moreover have "section_new kind r p = Ok \<lparr>sec_kind = kind, sec_required = r, sec_payload = p\<rparr>" for kind
    using p by (simp add: section_new_Ok)
  ultimately show ?thesis
    using assms(2) by (auto simp: frame_section_def fr frame_ok_def length_frame_bytes split: option.splits)
qed

lemma decode_section_Ok:
  assumes "decode_section crc bs cursor = Ok (s, cursor')"
  shows "\<exists>fr. frame_ok fr \<and> s = frame_section fr \<and> cursor' = cursor + length (frame_bytes crc fr)
    \<and> cursor' \<le> length bs \<and> drop cursor bs = frame_bytes crc fr @ drop cursor' bs"
proof -
  from assms obtain header kind_raw flags len payload where
    h: "slice_get bs cursor (cursor + 16) = Some header" and k: "read_u16 header 0 = Ok kind_raw" and f: "read_u16 header 2 = Ok flags"
    and l: "read_u64 header 4 = Ok len" and c: "read_u32 header 12 = Ok (crc payload)" and fl: "flags AND NOT 1 = 0"
    and max: "\<not> MAX_SECTION_BYTES < len"
    and p: "slice_get bs (cursor + 16) (cursor + 16 + unat len) = Some payload"
    and res: "(case section_kind_from_raw kind_raw of
       Some kind \<Rightarrow> and_then (section_new kind (flags AND 1 \<noteq> 0) payload) (\<lambda>section. Ok (Some section, cursor + 16 + unat len))
     | None \<Rightarrow> if flags AND 1 \<noteq> 0 then Err (UnknownRequiredSection kind_raw) else Ok (None, cursor + 16 + unat len)) = Ok (s, cursor')"
    unfolding decode_section_def Let_def by (auto simp: res_simps checked_add_usize_def split: if_splits)
  have header: "header = take 16 (drop cursor bs)" "cursor + 16 \<le> length bs" using h by (simp_all add: slice_get_eq_Some)
  then have len16: "length header = 16" by simp
  have payload: "payload = take (unat len) (drop (cursor + 16) bs)" "cursor + 16 + unat len \<le> length bs"
    using p by (simp_all add: slice_get_eq_Some)
  define fr where "fr = (kind_raw, flags AND 1 \<noteq> 0, payload)"
  have lp: "length payload = unat len" using payload by simp
  have "header = take 2 header @ take 2 (drop 2 header) @ take 8 (drop 4 header) @ take 4 (drop 12 header)"
    using concat_cut [of header "[2, 2, 8, 4]"] len16 by simp
  moreover have "take 2 header = le16 kind_raw" "take 2 (drop 2 header) = le16 flags" "take 8 (drop 4 header) = le64 len"
    "take 4 (drop 12 header) = le32 (crc payload)"
    using k f l c len16 by (simp_all add: read_u16_def read_u32_def read_u64_def read_array_small from_le16_eq from_le32_eq from_le64_eq)
  moreover have "flags = (if flags AND 1 \<noteq> 0 then 1 else 0)" using fl unfolding flags_known by auto
  moreover have "len = of_nat (length payload)" by (simp add: lp)
  ultimately have bytes: "frame_bytes crc fr = header @ payload"
    by (simp add: frame_bytes_def fr_def)
  have "frame_ok fr \<and> s = frame_section fr \<and> cursor' = cursor + 16 + unat len"
    using res max lp
    by (auto simp: frame_ok_def frame_section_def fr_def res_simps section_new_Ok word_less_nat_alt split: option.splits if_splits)
  moreover have "drop cursor bs = header @ payload @ drop (cursor + 16 + unat len) bs"
    unfolding header payload by (metis add.commute append_take_drop_id drop_drop)
  ultimately show ?thesis using payload(2) lp len16 by (intro exI [of _ fr]) (simp add: bytes)
qed

section \<open>Containers\<close>

lemma drop_prefix:
  assumes "c \<le> length bs" and "drop c bs = xs @ ys"
  shows "c + length xs \<le> length bs" and "drop (c + length xs) bs = ys"
proof -
  show "c + length xs \<le> length bs" using assms(1) arg_cong [OF assms(2), of length] by simp
  show "drop (c + length xs) bs = ys"
    using arg_cong [OF assms(2), of "drop (length xs)"] by (simp add: add.commute)
qed

lemma decode_sections_frames:
  assumes "length bs < usize_limit" and "\<And>fr. fr \<in> set frames \<Longrightarrow> frame_ok fr" and "cursor \<le> length bs"
    and "drop cursor bs = concat (map (frame_bytes crc) frames) @ rest"
  shows "decode_sections crc bs (length frames) cursor sections
    = Ok (sections @ List.map_filter frame_section frames, cursor + length (concat (map (frame_bytes crc) frames)))"
  using assms(2-)
proof (induction frames arbitrary: cursor sections)
  case (Cons fr frames)
  let ?c = "cursor + length (frame_bytes crc fr)"
  have d: "drop cursor bs = frame_bytes crc fr @ concat (map (frame_bytes crc) frames) @ rest" using Cons.prems(3) by simp
  have next_cursor: "?c \<le> length bs" "drop ?c bs = concat (map (frame_bytes crc) frames) @ rest"
    by (rule drop_prefix [OF Cons.prems(2) d])+
  have "decode_section crc bs cursor = Ok (frame_section fr, ?c)"
    using d Cons.prems by (intro decode_section_frame [OF assms(1)]) auto
  with Cons.IH [OF _ next_cursor] Cons.prems(1) show ?case
    by (auto simp: map_filter_simps add.assoc split: option.splits)
qed (simp add: map_filter_simps)

lemma decode_sections_Ok:
  assumes "decode_sections crc bs n cursor sections = Ok (sections', cursor')" and "cursor \<le> length bs"
  shows "\<exists>frames. length frames = n \<and> (\<forall>fr \<in> set frames. frame_ok fr)
    \<and> sections' = sections @ List.map_filter frame_section frames \<and> cursor' \<le> length bs
    \<and> drop cursor bs = concat (map (frame_bytes crc) frames) @ drop cursor' bs"
  using assms
proof (induction n arbitrary: cursor sections)
  case (Suc n)
  then obtain s c where step: "decode_section crc bs cursor = Ok (s, c)"
    and rest: "decode_sections crc bs n c (case s of None \<Rightarrow> sections | Some s \<Rightarrow> sections @ [s]) = Ok (sections', cursor')"
    by (auto simp: res_simps)
  from decode_section_Ok [OF step] obtain fr where fr: "frame_ok fr" "s = frame_section fr" "c \<le> length bs"
    "drop cursor bs = frame_bytes crc fr @ drop c bs" by blast
  from Suc.IH [OF rest fr(3)] obtain frames where frames: "length frames = n" "\<forall>fr \<in> set frames. frame_ok fr"
    "sections' = (case s of None \<Rightarrow> sections | Some s \<Rightarrow> sections @ [s]) @ List.map_filter frame_section frames"
    "cursor' \<le> length bs" "drop c bs = concat (map (frame_bytes crc) frames) @ drop cursor' bs" by blast
  show ?case
    using fr frames by (intro exI [of _ "fr # frames"]) (auto simp: map_filter_simps split: option.splits)
qed (simp add: map_filter_simps)

text \<open>The containers of a file: a canonical header and at most 1024 well-formed frames.\<close>

definition container :: "(bytes \<Rightarrow> u32) \<Rightarrow> bytes \<Rightarrow> index_metadata \<Rightarrow> frame list \<Rightarrow> bool" where
  "container crc bs md frames \<longleftrightarrow>
     metadata_valid md \<and> length frames \<le> MAX_SECTION_COUNT \<and> (\<forall>fr \<in> set frames. frame_ok fr)
     \<and> bs = encode_header crc md (of_nat (length frames)) @ concat (map (frame_bytes crc) frames)"

lemma length_map_filter_le: "length (List.map_filter f xs) \<le> length xs"
  by (induction xs) (auto simp: map_filter_simps split: option.splits)

lemma container_length:
  assumes "container crc bs md frames"
  shows "length bs < usize_limit"
proof -
  have "length (concat (map (frame_bytes crc) frames)) \<le> 268435472 * length frames" if "\<forall>fr \<in> set frames. frame_ok fr" for frames
    using that by (induction frames) (auto simp: length_frame_bytes frame_ok_def)
  with assms have "length bs \<le> 72 + 268435472 * length frames" "length frames \<le> 1024"
    by (auto simp: container_def)
  then show ?thesis by linarith
qed

lemma index_file_decode_iff:
  "index_file_decode crc bs = Ok file \<longleftrightarrow>
     (\<exists>frames. container crc bs (if_metadata file) frames \<and> if_sections file = List.map_filter frame_section frames)"
proof
  assume "index_file_decode crc bs = Ok file"
  then obtain md count sections cursor where h: "decode_header crc bs = Ok (md, count)" and max: "unat count \<le> 1024"
    and secs: "decode_sections crc bs (unat count) 72 [] = Ok (sections, cursor)" and c: "cursor = length bs"
    and fl: "file = \<lparr>if_metadata = md, if_sections = sections\<rparr>"
    by (auto simp: index_file_decode_def index_file_new_def res_simps Let_def)
  from h have hd: "metadata_valid md" "72 \<le> length bs" "take 72 bs = encode_header crc md count"
    unfolding decode_header_iff by blast+
  from decode_sections_Ok [OF secs hd(2)] obtain frames where frames: "length frames = unat count" "\<forall>fr \<in> set frames. frame_ok fr"
    "sections = List.map_filter frame_section frames" "drop 72 bs = concat (map (frame_bytes crc) frames)"
    by (auto simp: c)
  have "count = of_nat (length frames)" by (simp add: frames(1))
  with hd frames max have "container crc bs md frames"
    unfolding container_def by (metis append_take_drop_id)
  with frames(3) show "\<exists>frames. container crc bs (if_metadata file) frames \<and> if_sections file = List.map_filter frame_section frames"
    by (auto simp: fl)
next
  assume "\<exists>frames. container crc bs (if_metadata file) frames \<and> if_sections file = List.map_filter frame_section frames"
  then obtain frames where c: "container crc bs (if_metadata file) frames" and s: "if_sections file = List.map_filter frame_section frames"
    by blast
  note cont = c [unfolded container_def]
  have n: "unat (of_nat (length frames) :: u32) = length frames" using cont by (intro unat_of_nat_u32) simp
  have "decode_header crc bs = Ok (if_metadata file, of_nat (length frames))"
    using cont by (simp add: decode_header_iff)
  moreover have "decode_sections crc bs (length frames) 72 [] = Ok (if_sections file, length bs)"
    using decode_sections_frames [OF container_length [OF c], of frames 72 crc "[]" "[]"] cont by (simp add: s)
  moreover have "length (if_sections file) \<le> 1024" using length_map_filter_le [of frame_section frames] cont by (simp add: s)
  ultimately show "index_file_decode crc bs = Ok file"
    using cont by (simp add: index_file_decode_def index_file_new_def Let_def n)
qed

definition section_frame :: "index_section \<Rightarrow> frame" where
  "section_frame s = (section_kind_as_raw (sec_kind s), sec_required s, sec_payload s)"

lemma section_kind_roundtrip [simp]: "section_kind_from_raw (section_kind_as_raw k) = Some k"
  by (simp add: section_kind_from_raw_iff)

lemma frame_section_frame [simp]: "frame_section (section_frame s) = Some s"
  by (simp add: frame_section_def section_frame_def)

lemma frame_section_eq: "frame_section fr = Some s \<longleftrightarrow> fr = section_frame s"
  by (cases fr; cases s) (auto simp: frame_section_def section_frame_def section_kind_from_raw_iff)

lemma frame_ok_section [simp]: "frame_ok (section_frame s) \<longleftrightarrow> length (sec_payload s) \<le> 268435456"
  by (simp add: frame_ok_def section_frame_def)

lemma encode_section_eq:
  "length (sec_payload s) \<le> 268435456 \<Longrightarrow> encode_section crc s out = Ok (out @ frame_bytes crc (section_frame s))"
  by (simp add: encode_section_def u64_try_from_def word_less_nat_alt unat_of_nat_u64 frame_bytes_def section_frame_def Let_def)

definition file_valid :: "index_file \<Rightarrow> bool" where
  "file_valid file \<longleftrightarrow> metadata_valid (if_metadata file) \<and> length (if_sections file) \<le> MAX_SECTION_COUNT
     \<and> (\<forall>s \<in> set (if_sections file). length (sec_payload s) \<le> 268435456)"

lemma index_file_encode_valid:
  assumes "file_valid file"
  shows "\<exists>bs. index_file_encode crc file = Ok bs \<and> container crc bs (if_metadata file) (map section_frame (if_sections file))"
proof -
  let ?frames = "map section_frame (if_sections file)"
  let ?bs = "encode_header crc (if_metadata file) (of_nat (length ?frames)) @ concat (map (frame_bytes crc) ?frames)"
  have c: "container crc ?bs (if_metadata file) ?frames" using assms by (auto simp: container_def file_valid_def)
  have total: "\<exists>t. fold_result (\<lambda>section total. ok_or LengthOverflow (Option.bind (checked_add_usize total 16)
      (\<lambda>value. checked_add_usize value (length (sec_payload section))))) ss n = Ok t"
    if "n + (\<Sum>s\<leftarrow>ss. 16 + length (sec_payload s)) < usize_limit" for ss n
    using that by (induction ss arbitrary: n) (auto simp: checked_add_usize_def add.assoc)
  have sum: "length (concat (map (frame_bytes crc) (map section_frame ss))) = (\<Sum>s\<leftarrow>ss. 16 + length (sec_payload s))" for ss
    by (induction ss) (auto simp: section_frame_def length_frame_bytes)
  have out: "fold_result (encode_section crc) ss out = Ok (out @ concat (map (frame_bytes crc) (map section_frame ss)))"
    if "\<forall>s \<in> set ss. length (sec_payload s) \<le> 268435456" for ss out
    using that by (induction ss arbitrary: out) (auto simp: encode_section_eq)
  have "72 + (\<Sum>s\<leftarrow>if_sections file. 16 + length (sec_payload s)) < usize_limit"
    using container_length [OF c] sum [of "if_sections file"] by (simp add: length_concat)
  with total [of 72 "if_sections file"] out [of "if_sections file"] assms
  have "index_file_encode crc file = Ok ?bs"
    by (auto simp: index_file_encode_def file_valid_def u32_try_from_def)
  with c show ?thesis by blast
qed

section \<open>Properties\<close>

text \<open>C34: Encoding is total on valid containers and decoding inverts it: a container with valid metadata, at
  most 1024 sections and bounded payloads is encoded without error, and decoding the bytes gives
  the container back, for any checksum function.\<close>

theorem container_roundtrip:
  assumes "file_valid file"
  shows "\<exists>bs. index_file_encode crc file = Ok bs \<and> index_file_decode crc bs = Ok file"
proof -
  obtain bs where bs: "index_file_encode crc file = Ok bs" "container crc bs (if_metadata file) (map section_frame (if_sections file))"
    using index_file_encode_valid [OF assms] by blast
  have "List.map_filter frame_section (map section_frame ss) = ss" for ss
    by (induction ss) (simp_all add: map_filter_simps)
  with bs show ?thesis by (auto simp: index_file_decode_iff)
qed

text \<open>C9: The decoder accepts exactly the canonical byte strings: a valid header whose checksum matches
  followed by the declared number of frames and nothing else, where every frame carries its own
  length and checksum, is at most 256 MiB long, and is optional if its kind is unknown. The result
  holds the known frames in file order, so no corrupt, truncated or extended string is accepted.\<close>

theorem container_decode_exact:
  "index_file_decode crc bs = Ok file \<longleftrightarrow>
     (\<exists>frames. container crc bs (if_metadata file) frames \<and> if_sections file = List.map_filter frame_section frames)"
  by (rule index_file_decode_iff)

theorem container_roundtrip_witness:
  "\<exists>bs. index_file_encode (\<lambda>b. of_nat (length b))
       \<lparr>if_metadata = \<lparr>md_algorithm = MinHashLsh, md_signature_scheme = PariAffine32V1, md_key_codec = CodecU64,
          md_num_perm = 4, md_seed = 7, md_threshold = f64_one, md_bands = 2, md_rows = 2, md_feature_flags = 0\<rparr>,
        if_sections = [\<lparr>sec_kind = Keys, sec_required = True, sec_payload = [1, 2]\<rparr>]\<rparr> = Ok bs
     \<and> index_file_decode (\<lambda>b. of_nat (length b)) bs = Ok
       \<lparr>if_metadata = \<lparr>md_algorithm = MinHashLsh, md_signature_scheme = PariAffine32V1, md_key_codec = CodecU64,
          md_num_perm = 4, md_seed = 7, md_threshold = f64_one, md_bands = 2, md_rows = 2, md_feature_flags = 0\<rparr>,
        if_sections = [\<lparr>sec_kind = Keys, sec_required = True, sec_payload = [1, 2]\<rparr>]\<rparr>"
  by (rule container_roundtrip) (simp add: file_valid_def metadata_valid_def threshold_accepted_iff)

end
