(* ===== verification/Pari_Layout.thy ===== *)
theory Pari_Layout
  imports Pari_Format
begin

text \<open>
  Crate \<open>pari-format\<close>, the lazy container reader (\<open>crates/pari-format/src/layout.rs\<close>): the scan of a
  seekable file into section descriptors, and the reads of whole sections and of ranges.

  A seekable source is its bytes, a position and a schedule of I/O outcomes: every seek and every
  read first takes the next entry of the schedule and fails with it if there is one, so that the
  I/O error paths are part of the model. CRC-32 is the parameter \<open>crc\<close> and the incremental hasher of
  the same crate is a record of its three operations, which \<open>hasher_law\<close> relates to \<open>crc\<close>.

  The lemmas relate the scan to the containers of the whole-file decoder.
\<close>

section \<open>Seekable sources\<close>

text \<open>Errors of the operating system by kind; the last constructor is an error reported together with
  failures of the rollback and of the cleanup that followed it.\<close>

datatype io_error =
    UnexpectedEof
  | IoNotFound
  | IoAlreadyExists
  | OtherIo string
  | IoRecovery io_error "io_error option" "io_error option"

record reader =
  rd_bytes :: bytes
  rd_pos :: nat
  rd_faults :: "io_error option list"

definition io_tick :: "reader \<Rightarrow> (reader, io_error) result" where
  "io_tick r = (case rd_faults r of
     [] \<Rightarrow> Ok r
   | None # fs \<Rightarrow> Ok (r\<lparr>rd_faults := fs\<rparr>)
   | Some e # fs \<Rightarrow> Err e)"

definition seek_end :: "reader \<Rightarrow> (u64 \<times> reader, io_error) result" where
  "seek_end r = and_then (io_tick r) (\<lambda>r. Ok (of_nat (length (rd_bytes r)), r\<lparr>rd_pos := length (rd_bytes r)\<rparr>))"

definition seek_start :: "u64 \<Rightarrow> reader \<Rightarrow> (reader, io_error) result" where
  "seek_start pos r = and_then (io_tick r) (\<lambda>r. Ok (r\<lparr>rd_pos := unat pos\<rparr>))"

definition read_exact :: "usize \<Rightarrow> reader \<Rightarrow> (bytes \<times> reader, io_error) result" where
  "read_exact n r = and_then (io_tick r) (\<lambda>r.
     if rd_pos r + n \<le> length (rd_bytes r)
     then Ok (take n (drop (rd_pos r) (rd_bytes r)), r\<lparr>rd_pos := rd_pos r + n\<rparr>)
     else Err UnexpectedEof)"

record 'h crc_hasher =
  hasher_new :: 'h
  hasher_update :: "bytes \<Rightarrow> 'h \<Rightarrow> 'h"
  hasher_finalize :: "'h \<Rightarrow> u32"

text \<open>The documented behaviour of the hasher: feeding a payload in pieces gives its checksum.\<close>

definition hasher_law :: "(bytes \<Rightarrow> u32) \<Rightarrow> 'h crc_hasher \<Rightarrow> bool" where
  "hasher_law crc hasher \<longleftrightarrow>
     (\<forall>pieces. hasher_finalize hasher (fold (hasher_update hasher) pieces (hasher_new hasher)) = crc (concat pieces))"

section \<open>Definitions\<close>

abbreviation HEADER_SIZE_U64 :: u64 where "HEADER_SIZE_U64 \<equiv> 72"
abbreviation SECTION_HEADER_SIZE_U64 :: u64 where "SECTION_HEADER_SIZE_U64 \<equiv> 16"
abbreviation CHECKSUM_BUFFER_BYTES :: u64 where "CHECKSUM_BUFFER_BYTES \<equiv> 65536"

datatype layout_error =
    Io io_error
  | Format format_error
  | RangeOutOfBounds u64 usize u64

record section_descriptor =
  sd_kind :: section_kind
  sd_required :: bool
  sd_payload_offset :: u64
  sd_payload_length :: u64
  sd_checksum :: u32

record file_layout =
  fl_metadata :: index_metadata
  fl_sections :: "section_descriptor list"
  fl_file_length :: u64

definition read_exact_format :: "usize \<Rightarrow> string \<Rightarrow> reader \<Rightarrow> (bytes \<times> reader, layout_error) result" where
  "read_exact_format n context r =
     map_err (\<lambda>error. if error = UnexpectedEof then Format (Truncated context) else Io error) (read_exact n r)"

definition layout_decode_header :: "(bytes \<Rightarrow> u32) \<Rightarrow> bytes \<Rightarrow> (index_metadata \<times> u32, format_error) result" where
  "layout_decode_header crc header =
     and_then (err_if (slice_get header 0 8 \<noteq> Some MAGIC) InvalidMagic) (\<lambda>_.
     and_then (read_u16 header 8) (\<lambda>version.
     and_then (err_if (version \<noteq> FORMAT_VERSION) (UnsupportedVersion version)) (\<lambda>_.
     and_then (read_u16 header 10) (\<lambda>header_size.
     and_then (err_if (header_size \<noteq> HEADER_SIZE_U16) (InvalidHeaderSize header_size)) (\<lambda>_.
     and_then (err_if (slice_get header 36 40 \<noteq> Some [0, 0, 0, 0] \<or> slice_get header 68 72 \<noteq> Some [0, 0, 0, 0])
       InvalidReservedBytes) (\<lambda>_.
     and_then (read_u32 header 64) (\<lambda>expected_checksum.
     and_then (ok_or (Truncated ''header checksum range'') (slice_get header 0 64)) (\<lambda>range.
     let actual_checksum = crc range in
     and_then (err_if (expected_checksum \<noteq> actual_checksum) (HeaderChecksumMismatch expected_checksum actual_checksum)) (\<lambda>_.
     and_then (read_u16 header 12) (\<lambda>algorithm_raw.
     and_then (ok_or (UnsupportedAlgorithm algorithm_raw) (algorithm_from_raw algorithm_raw)) (\<lambda>algorithm.
     and_then (read_u16 header 14) (\<lambda>scheme_raw.
     and_then (ok_or (UnsupportedSignatureScheme scheme_raw) (signature_scheme_from_raw scheme_raw)) (\<lambda>signature_scheme.
     and_then (read_u16 header 16) (\<lambda>signature_width.
     and_then (err_if (signature_width \<noteq> width_bits signature_scheme)
       (SignatureWidthMismatch (width_bits signature_scheme) signature_width)) (\<lambda>_.
     and_then (read_u16 header 18) (\<lambda>codec_raw.
     and_then (ok_or (UnsupportedCodec codec_raw) (codec_id_from_raw codec_raw)) (\<lambda>key_codec.
     and_then (read_u32 header 20) (\<lambda>num_perm.
     and_then (read_u32 header 24) (\<lambda>bands.
     and_then (read_u32 header 28) (\<lambda>rows.
     and_then (read_u32 header 32) (\<lambda>section_count.
     and_then (read_u64 header 40) (\<lambda>seed.
     and_then (read_u64 header 48) (\<lambda>threshold.
     and_then (read_u64 header 56) (\<lambda>feature_flags.
     and_then (err_if (feature_flags AND NOT SUPPORTED_FEATURE_FLAGS \<noteq> 0)
       (UnsupportedFeatures (feature_flags AND NOT SUPPORTED_FEATURE_FLAGS))) (\<lambda>_.
     and_then (index_metadata_new algorithm signature_scheme key_codec num_perm seed threshold bands rows feature_flags) (\<lambda>metadata.
     Ok (metadata, section_count)))))))))))))))))))))))))))"

text \<open>The checksum loop over an optional payload of unknown kind, through a bounded buffer.\<close>

function skip_loop :: "'h crc_hasher \<Rightarrow> u64 \<Rightarrow> 'h \<Rightarrow> reader \<Rightarrow> ('h \<times> reader, layout_error) result" where
  "skip_loop hasher remaining h r =
     (if remaining = 0 then Ok (h, r)
      else let count = unat (min remaining CHECKSUM_BUFFER_BYTES) in
           and_then (read_exact_format count ''section payload'' r) (\<lambda>(piece, r).
           skip_loop hasher (remaining - of_nat count) (hasher_update hasher piece h) r))"
  by pat_completeness auto

lemma buffer_step:
  fixes remaining buffer :: u64
  assumes "remaining \<noteq> 0" and "buffer \<noteq> 0"
  shows "unat (min remaining buffer) \<le> unat remaining" and "0 < unat (min remaining buffer)"
    and "unat (remaining - of_nat (unat (min remaining buffer))) = unat remaining - unat (min remaining buffer)"
proof -
  have le: "min remaining buffer \<le> remaining" by simp
  then show "unat (min remaining buffer) \<le> unat remaining" by (simp add: word_le_nat_alt)
  show "0 < unat (min remaining buffer)" using assms by (simp add: min_def unat_gt_0)
  show "unat (remaining - of_nat (unat (min remaining buffer))) = unat remaining - unat (min remaining buffer)"
    using le by (simp add: unat_sub)
qed

termination skip_loop
proof (relation "measure (\<lambda>(_, remaining, _, _). unat remaining)")
  fix hasher :: "'h crc_hasher" and remaining :: u64 and h r count x piece r'
  assume "remaining \<noteq> 0" and "count = unat (min remaining CHECKSUM_BUFFER_BYTES)"
  then show "((hasher, remaining - of_nat count, hasher_update hasher piece h, r'), hasher, remaining, h, r)
      \<in> measure (\<lambda>(_, remaining, _, _). unat remaining)"
    using buffer_step [of remaining CHECKSUM_BUFFER_BYTES] by simp
qed simp

declare skip_loop.simps [simp del]

definition verify_skipped_payload :: "'h crc_hasher \<Rightarrow> u64 \<Rightarrow> u32 \<Rightarrow> reader \<Rightarrow> (reader, layout_error) result" where
  "verify_skipped_payload hasher remaining expected r =
     and_then (skip_loop hasher remaining (hasher_new hasher) r) (\<lambda>(h, r).
     let actual = hasher_finalize hasher h in
     and_then (err_if (actual \<noteq> expected) (Format (SectionChecksumMismatch expected actual))) (\<lambda>_. Ok r))"

text \<open>One pass of the scan: the descriptor of a known section, the next cursor and the reader.\<close>

definition scan_section :: "'h crc_hasher \<Rightarrow> u64 \<Rightarrow> u64 \<Rightarrow> reader
     \<Rightarrow> (section_descriptor option \<times> u64 \<times> reader, layout_error) result" where
  "scan_section hasher file_length cursor r =
     and_then (ok_or (Format LengthOverflow) (checked_add cursor SECTION_HEADER_SIZE_U64)) (\<lambda>header_end.
     and_then (err_if (file_length < header_end) (Format (Truncated ''section header''))) (\<lambda>_.
     and_then (map_err Io (seek_start cursor r)) (\<lambda>r.
     and_then (read_exact_format SECTION_HEADER_SIZE ''section header'' r) (\<lambda>(header, r).
     and_then (map_err Format (read_u16 header 0)) (\<lambda>kind_raw.
     and_then (map_err Format (read_u16 header 2)) (\<lambda>flags.
     and_then (map_err Format (read_u64 header 4)) (\<lambda>payload_length.
     and_then (map_err Format (read_u32 header 12)) (\<lambda>checksum.
     and_then (err_if (flags AND NOT KNOWN_SECTION_FLAGS \<noteq> 0) (Format (InvalidSectionFlags flags))) (\<lambda>_.
     and_then (err_if (MAX_SECTION_BYTES < payload_length) (Format (SectionTooLarge payload_length))) (\<lambda>_.
     let payload_offset = header_end in
     and_then (ok_or (Format LengthOverflow) (checked_add payload_offset payload_length)) (\<lambda>payload_end.
     and_then (err_if (file_length < payload_end) (Format (Truncated ''section payload''))) (\<lambda>_.
     let required = flags AND SECTION_FLAG_REQUIRED \<noteq> 0 in
     case section_kind_from_raw kind_raw of
       Some kind \<Rightarrow> Ok (Some \<lparr>sd_kind = kind, sd_required = required, sd_payload_offset = payload_offset,
                              sd_payload_length = payload_length, sd_checksum = checksum\<rparr>, payload_end, r)
     | None \<Rightarrow> if required then Err (Format (UnknownRequiredSection kind_raw))
               else and_then (verify_skipped_payload hasher payload_length checksum r) (\<lambda>r.
                    Ok (None, payload_end, r))))))))))))))"

fun scan_sections :: "'h crc_hasher \<Rightarrow> u64 \<Rightarrow> nat \<Rightarrow> u64 \<Rightarrow> section_descriptor list \<Rightarrow> reader
     \<Rightarrow> (section_descriptor list \<times> u64 \<times> reader, layout_error) result" where
  "scan_sections hasher file_length 0 cursor sections r = Ok (sections, cursor, r)"
| "scan_sections hasher file_length (Suc n) cursor sections r =
     and_then (scan_section hasher file_length cursor r) (\<lambda>(descriptor, cursor, r).
     scan_sections hasher file_length n cursor
       (case descriptor of None \<Rightarrow> sections | Some d \<Rightarrow> sections @ [d]) r)"

definition checked_sub :: "u64 \<Rightarrow> u64 \<Rightarrow> u64 option" where
  "checked_sub a b = (if b \<le> a then Some (a - b) else None)"

definition layout_read_from :: "(bytes \<Rightarrow> u32) \<Rightarrow> 'h crc_hasher \<Rightarrow> reader \<Rightarrow> (file_layout \<times> reader, layout_error) result" where
  "layout_read_from crc hasher r =
     and_then (map_err Io (seek_end r)) (\<lambda>(file_length, r).
     and_then (map_err Io (seek_start 0 r)) (\<lambda>r.
     and_then (read_exact_format HEADER_SIZE ''file header'' r) (\<lambda>(header, r).
     and_then (map_err Format (layout_decode_header crc header)) (\<lambda>(metadata, count).
     let section_count = unat count in
     and_then (err_if (MAX_SECTION_COUNT < section_count) (Format (TooManySections section_count MAX_SECTION_COUNT))) (\<lambda>_.
     and_then (scan_sections hasher file_length section_count HEADER_SIZE_U64 [] r) (\<lambda>(sections, cursor, r).
     if cursor \<noteq> file_length then
       and_then (ok_or (Format LengthOverflow) (checked_sub file_length cursor)) (\<lambda>remaining.
       Err (Format (TrailingBytes (unat remaining))))
     else Ok (\<lparr>fl_metadata = metadata, fl_sections = sections, fl_file_length = file_length\<rparr>, r)))))))"

definition layout_section :: "section_kind \<Rightarrow> file_layout \<Rightarrow> section_descriptor option" where
  "layout_section kind layout = List.find (\<lambda>descriptor. sd_kind descriptor = kind) (fl_sections layout)"

definition read_section_range :: "file_layout \<Rightarrow> section_descriptor \<Rightarrow> u64 \<Rightarrow> usize \<Rightarrow> reader
     \<Rightarrow> (bytes \<times> reader, layout_error) result" where
  "read_section_range layout descriptor offset len r =
     and_then (ok_or (Format LengthOverflow) (u64_try_from len)) (\<lambda>length_u64.
     and_then (ok_or (Format LengthOverflow) (checked_add offset length_u64)) (\<lambda>range_end.
     and_then (err_if (sd_payload_length descriptor < range_end)
       (RangeOutOfBounds offset len (sd_payload_length descriptor))) (\<lambda>_.
     and_then (ok_or (Format LengthOverflow) (checked_add (sd_payload_offset descriptor) offset)) (\<lambda>absolute.
     and_then (ok_or (Format LengthOverflow) (checked_add absolute length_u64)) (\<lambda>absolute_end.
     and_then (err_if (fl_file_length layout < absolute_end) (Format (Truncated ''section range''))) (\<lambda>_.
     and_then (map_err Io (seek_start absolute r)) (\<lambda>r.
     read_exact_format len ''section range'' r)))))))"

definition read_section :: "(bytes \<Rightarrow> u32) \<Rightarrow> file_layout \<Rightarrow> section_descriptor \<Rightarrow> reader
     \<Rightarrow> (bytes \<times> reader, layout_error) result" where
  "read_section crc layout descriptor r =
     and_then (read_section_range layout descriptor 0 (unat (sd_payload_length descriptor)) r) (\<lambda>(payload, r).
     let actual = crc payload in
     and_then (err_if (actual \<noteq> sd_checksum descriptor)
       (Format (SectionChecksumMismatch (sd_checksum descriptor) actual))) (\<lambda>_.
     Ok (payload, r)))"

section \<open>Reads\<close>

text \<open>The state a source is left in: the same bytes, and no faults when there were none.\<close>

definition same_file :: "reader \<Rightarrow> reader \<Rightarrow> bool" where
  "same_file r r' \<longleftrightarrow> rd_bytes r' = rd_bytes r \<and> (rd_faults r = [] \<longrightarrow> rd_faults r' = [])"

lemma same_file_trans: "same_file r r' \<Longrightarrow> same_file r' r'' \<Longrightarrow> same_file r r''"
  by (auto simp: same_file_def)

lemma io_tick_Ok: "io_tick r = Ok r' \<Longrightarrow> same_file r r' \<and> rd_pos r' = rd_pos r"
  by (auto simp: io_tick_def same_file_def split: list.splits option.splits)

lemma io_tick_healthy: "rd_faults r = [] \<Longrightarrow> io_tick r = Ok r"
  by (simp add: io_tick_def)

lemma seek_start_Ok: "seek_start pos r = Ok r' \<Longrightarrow> same_file r r' \<and> rd_pos r' = unat pos"
  by (auto simp: seek_start_def res_simps same_file_def dest!: io_tick_Ok)

lemma seek_start_healthy: "rd_faults r = [] \<Longrightarrow> seek_start pos r = Ok (r\<lparr>rd_pos := unat pos\<rparr>)"
  by (simp add: seek_start_def io_tick_healthy)

lemma read_exact_format_Ok:
  "read_exact_format n context r = Ok (bs, r') \<Longrightarrow> same_file r r' \<and> rd_pos r + n \<le> length (rd_bytes r)
     \<and> bs = take n (drop (rd_pos r) (rd_bytes r)) \<and> rd_pos r' = rd_pos r + n"
  by (auto simp: read_exact_format_def read_exact_def res_simps same_file_def dest!: io_tick_Ok split: if_splits)

lemma read_exact_format_healthy:
  "rd_faults r = [] \<Longrightarrow> read_exact_format n context r =
     (if rd_pos r + n \<le> length (rd_bytes r) then Ok (take n (drop (rd_pos r) (rd_bytes r)), r\<lparr>rd_pos := rd_pos r + n\<rparr>)
      else Err (Format (Truncated context)))"
  by (simp add: read_exact_format_def read_exact_def io_tick_healthy)

lemma take_add_drop: "take a (drop p xs) @ take b (drop (p + a) xs) = take (a + b) (drop p xs)"
  by (simp add: take_add add.commute)

lemma skip_loop_zero [simp]: "skip_loop hasher 0 h r = Ok (h, r)"
  by (subst skip_loop.simps) simp

lemma skip_loop_Ok:
  "skip_loop hasher remaining h r = Ok (h', r') \<Longrightarrow> rd_pos r \<le> length (rd_bytes r) \<Longrightarrow>
    \<exists>pieces. h' = fold (hasher_update hasher) pieces h \<and> concat pieces = take (unat remaining) (drop (rd_pos r) (rd_bytes r))
      \<and> rd_pos r + unat remaining \<le> length (rd_bytes r) \<and> same_file r r'"
proof (induction hasher remaining h r rule: skip_loop.induct)
  case (1 hasher remaining h r)
  show ?case
  proof (cases "remaining = 0")
    case True
    with "1.prems" show ?thesis by (intro exI [of _ "[]"]) (simp add: same_file_def)
  next
    case False
    define count where "count = unat (min remaining CHECKSUM_BUFFER_BYTES)"
    from "1.prems"(1) False obtain piece r1 where
      read: "read_exact_format count ''section payload'' r = Ok (piece, r1)" and
      rest: "skip_loop hasher (remaining - of_nat count) (hasher_update hasher piece h) r1 = Ok (h', r')"
      by (subst (asm) skip_loop.simps) (auto simp: res_simps Let_def count_def)
    note r1 = read_exact_format_Ok [OF read]
    note step = buffer_step [of remaining CHECKSUM_BUFFER_BYTES, folded count_def]
    have "rd_pos r1 \<le> length (rd_bytes r1)" using r1 by (simp add: same_file_def)
    from "1.IH" [OF False count_def read refl rest this] obtain pieces where pieces:
      "h' = fold (hasher_update hasher) pieces (hasher_update hasher piece h)"
      "concat pieces = take (unat (remaining - of_nat count)) (drop (rd_pos r1) (rd_bytes r1))"
      "rd_pos r1 + unat (remaining - of_nat count) \<le> length (rd_bytes r1)" "same_file r1 r'" by blast
    then show ?thesis
      using r1 step False take_add_drop [of count "rd_pos r" "rd_bytes r" "unat remaining - count"] same_file_trans [of r r1 r']
      by (intro exI [of _ "piece # pieces"]) (simp add: same_file_def)
  qed
qed

lemma skip_loop_healthy:
  "rd_faults r = [] \<Longrightarrow> rd_pos r + unat remaining \<le> length (rd_bytes r) \<Longrightarrow> \<exists>h' r'. skip_loop hasher remaining h r = Ok (h', r')"
proof (induction hasher remaining h r rule: skip_loop.induct)
  case (1 hasher remaining h r)
  show ?case
  proof (cases "remaining = 0")
    case True
    then show ?thesis by simp
  next
    case False
    define count where "count = unat (min remaining CHECKSUM_BUFFER_BYTES)"
    note step = buffer_step [of remaining CHECKSUM_BUFFER_BYTES, folded count_def]
    have read: "read_exact_format count ''section payload'' r
        = Ok (take count (drop (rd_pos r) (rd_bytes r)), r\<lparr>rd_pos := rd_pos r + count\<rparr>)"
      using "1.prems" step False by (simp add: read_exact_format_healthy)
    from "1.IH" [OF False count_def read refl] "1.prems" step False show ?thesis
      by (subst skip_loop.simps) (simp add: Let_def count_def [symmetric] read)
  qed
qed

lemma verify_skipped_payload_Ok:
  assumes "hasher_law crc hasher" and "rd_pos r \<le> length (rd_bytes r)"
    and "verify_skipped_payload hasher remaining expected r = Ok r'"
  shows "crc (take (unat remaining) (drop (rd_pos r) (rd_bytes r))) = expected \<and> same_file r r'"
proof -
  from assms(3) obtain h where "skip_loop hasher remaining (hasher_new hasher) r = Ok (h, r')" "hasher_finalize hasher h = expected"
    by (auto simp: verify_skipped_payload_def res_simps Let_def)
  with skip_loop_Ok [OF this(1) assms(2)] assms(1) show ?thesis by (auto simp: hasher_law_def)
qed

lemma verify_skipped_payload_healthy:
  assumes "hasher_law crc hasher" and "rd_faults r = []" and "rd_pos r + unat remaining \<le> length (rd_bytes r)"
    and "crc (take (unat remaining) (drop (rd_pos r) (rd_bytes r))) = expected"
  shows "\<exists>r'. verify_skipped_payload hasher remaining expected r = Ok r'"
proof -
  obtain h r' where loop: "skip_loop hasher remaining (hasher_new hasher) r = Ok (h, r')"
    using skip_loop_healthy [OF assms(2,3), of hasher "hasher_new hasher"] by blast
  with skip_loop_Ok [OF loop] assms have "hasher_finalize hasher h = expected" by (auto simp: hasher_law_def)
  with loop show ?thesis by (simp add: verify_skipped_payload_def)
qed

section \<open>Headers\<close>

lemma and_then_Ok_cong: "(\<And>x. f x = Ok y \<longleftrightarrow> g x = Ok y) \<Longrightarrow> and_then r f = Ok y \<longleftrightarrow> and_then r g = Ok y"
  by (cases r) auto

text \<open>The second copy of the header decoder accepts the same headers. It differs in the error it prefers
  when a header has unknown features and other invalid metadata.\<close>

lemma layout_decode_header_iff:
  assumes "length h = 72"
  shows "layout_decode_header crc h = Ok (md, count) \<longleftrightarrow> decode_header crc h = Ok (md, count)"
proof -
  have whole: "slice_get h 0 72 = Some h" using assms by (simp add: slice_get_def)
  have size: "unat (x :: u16) \<noteq> 72 \<longleftrightarrow> x \<noteq> 72" for x by (simp add: word_unat_eq_iff)
  have tail: "and_then (err_if (f AND NOT SUPPORTED_FEATURE_FLAGS \<noteq> 0) (UnsupportedFeatures (f AND NOT SUPPORTED_FEATURE_FLAGS)))
      (\<lambda>_. and_then (index_metadata_new a s c n seed t b r f) (\<lambda>metadata. Ok (metadata, m))) = Ok (md, count)
    \<longleftrightarrow> and_then (index_metadata_new a s c n seed t b r f) (\<lambda>metadata. Ok (metadata, m)) = Ok (md, count)"
    for a s c n seed t b r f m
    by (auto simp: res_simps index_metadata_new_Ok metadata_valid_def)
  show ?thesis
    unfolding layout_decode_header_def decode_header_def whole ok_or.simps and_then.simps size Let_def
    by (intro and_then_Ok_cong tail)
qed

section \<open>Stored frames\<close>

text \<open>The scan does not look at the payload of a known section, so what it accepts are frames with an
  arbitrary stored checksum; skipped frames are verified.\<close>

type_synonym stored_frame = "u16 \<times> bool \<times> bytes \<times> u32"

definition stored_bytes :: "stored_frame \<Rightarrow> bytes" where
  "stored_bytes sf = (case sf of (kind, required, payload, checksum) \<Rightarrow>
     le16 kind @ le16 (if required then 1 else 0) @ le64 (of_nat (length payload)) @ le32 checksum @ payload)"

definition stored_ok :: "(bytes \<Rightarrow> u32) \<Rightarrow> stored_frame \<Rightarrow> bool" where
  "stored_ok crc sf = (case sf of (kind, required, payload, checksum) \<Rightarrow>
     length payload \<le> 268435456 \<and> (section_kind_from_raw kind = None \<longrightarrow> \<not> required \<and> checksum = crc payload))"

definition stored_descriptor :: "nat \<Rightarrow> stored_frame \<Rightarrow> section_descriptor option" where
  "stored_descriptor offset sf = (case sf of (kind, required, payload, checksum) \<Rightarrow>
     map_option (\<lambda>k. \<lparr>sd_kind = k, sd_required = required, sd_payload_offset = of_nat (offset + 16),
       sd_payload_length = of_nat (length payload), sd_checksum = checksum\<rparr>) (section_kind_from_raw kind))"

lemma length_stored_bytes: "length (stored_bytes (k, q, p, c)) = 16 + length p"
  by (simp add: stored_bytes_def)

lemma drop_split: "drop c xs = take n (drop c xs) @ drop (c + n) xs"
  by (metis add.commute append_take_drop_id drop_drop)

lemma checked_add_nat:
  fixes a b :: u64
  shows "checked_add a b = Some c \<longleftrightarrow> unat a + unat b < usize_limit \<and> c = a + b"
  by (auto simp: checked_add_def)

lemma unat_plus_u64: "unat a + unat b < usize_limit \<Longrightarrow> unat (a + b :: u64) = unat a + unat b"
  by (simp add: unat_word_ariths)

lemma scan_section_stored:
  assumes law: "hasher_law crc hasher" and lim: "length (rd_bytes r) < usize_limit" and healthy: "rd_faults r = []"
    and ok: "stored_ok crc sf" and cur: "unat cursor \<le> length (rd_bytes r)"
    and d: "drop (unat cursor) (rd_bytes r) = stored_bytes sf @ rest"
  shows "\<exists>r'. scan_section hasher (of_nat (length (rd_bytes r))) cursor r
      = Ok (stored_descriptor (unat cursor) sf, cursor + of_nat (length (stored_bytes sf)), r')"
proof -
  obtain k q p c where sf: "sf = (k, q, p, c)" by (cases sf)
  define flags :: u16 where "flags = (if q then 1 else 0)"
  let ?bs = "rd_bytes r" and ?header = "le16 k @ le16 flags @ le64 (of_nat (length p)) @ le32 c"
  have drop: "drop (unat cursor) ?bs = ?header @ p @ rest" using d by (simp add: stored_bytes_def sf flags_def)
  have len: "length ?bs = unat cursor + 16 + length p + length rest" using arg_cong [OF drop, of length] cur by simp
  have p: "length p \<le> 268435456" "unat (of_nat (length p) :: u64) = length p"
    using ok by (simp_all add: stored_ok_def sf unat_of_nat_u64)
  have add: "checked_add cursor 16 = Some (cursor + 16)" "unat (cursor + 16) = unat cursor + 16"
    "checked_add (cursor + 16) (of_nat (length p)) = Some (cursor + 16 + of_nat (length p))"
    "unat (cursor + 16 + of_nat (length p)) = unat cursor + 16 + length p"
    using len lim p(2) by (simp_all add: checked_add_nat unat_plus_u64)
  have fits: "\<not> of_nat (length ?bs) < cursor + 16" "\<not> of_nat (length ?bs) < cursor + 16 + of_nat (length p)"
    unfolding word_less_nat_alt add unat_of_nat_u64 [OF lim] using len by simp_all
  let ?r1 = "r\<lparr>rd_pos := unat cursor\<rparr>" and ?r2 = "r\<lparr>rd_pos := unat cursor + 16\<rparr>"
  have read: "read_exact_format 16 ''section header'' ?r1 = Ok (?header, ?r2)"
    using healthy len drop by (simp add: read_exact_format_healthy)
  have reads: "read_u16 ?header 0 = Ok k" "read_u16 ?header 2 = Ok flags" "read_u64 ?header 4 = Ok (of_nat (length p))"
    "read_u32 ?header 12 = Ok c"
    by (simp_all add: read_u16_def read_u32_def read_u64_def read_array_small)
  have flags: "flags AND NOT 1 = 0" "flags AND 1 \<noteq> 0 \<longleftrightarrow> q" by (simp_all add: flags_def)
  have max: "\<not> MAX_SECTION_BYTES < of_nat (length p)" using p by (simp add: word_less_nat_alt)
  have tail: "\<exists>r'. (case section_kind_from_raw k of
       Some kind \<Rightarrow> Ok (Some \<lparr>sd_kind = kind, sd_required = q, sd_payload_offset = cursor + 16,
                              sd_payload_length = of_nat (length p), sd_checksum = c\<rparr>, cursor + 16 + of_nat (length p), ?r2)
     | None \<Rightarrow> if q then Err (Format (UnknownRequiredSection k))
               else and_then (verify_skipped_payload hasher (of_nat (length p)) c ?r2) (\<lambda>r.
                    Ok (None, cursor + 16 + of_nat (length p), r)))
     = Ok (stored_descriptor (unat cursor) sf, cursor + of_nat (length (stored_bytes sf)), r')"
  proof (cases "section_kind_from_raw k")
    case None
    have "drop (unat cursor + 16) ?bs = p @ rest" using arg_cong [OF drop, of "drop 16"] by (simp add: add.commute)
    then have "\<exists>r'. verify_skipped_payload hasher (of_nat (length p)) c ?r2 = Ok r'"
      using ok None healthy len p by (intro verify_skipped_payload_healthy [OF law]) (simp_all add: stored_ok_def sf)
    with None ok show ?thesis by (auto simp: stored_ok_def stored_descriptor_def sf length_stored_bytes add.assoc)
  next
    case (Some kind)
    then show ?thesis by (simp add: stored_descriptor_def sf length_stored_bytes add.assoc)
  qed
  show ?thesis
    unfolding scan_section_def add ok_or.simps and_then.simps seek_start_healthy [OF healthy] map_err.simps read reads prod.case
      flags Let_def
    using tail by (simp add: fits max cong: option.case_cong)
qed

lemma scan_section_Ok:
  assumes law: "hasher_law crc hasher" and lim: "length (rd_bytes r) < usize_limit"
    and scan: "scan_section hasher (of_nat (length (rd_bytes r))) cursor r = Ok (d, cursor', r')"
  shows "\<exists>sf. stored_ok crc sf \<and> d = stored_descriptor (unat cursor) sf \<and> same_file r r'
    \<and> unat cursor' = unat cursor + length (stored_bytes sf) \<and> unat cursor' \<le> length (rd_bytes r)
    \<and> drop (unat cursor) (rd_bytes r) = stored_bytes sf @ drop (unat cursor') (rd_bytes r)"
proof -
  let ?bs = "rd_bytes r"
  from scan obtain r1 header r2 k flags len c where
    h: "unat cursor + 16 < usize_limit" "\<not> of_nat (length ?bs) < cursor + 16"
    and seek: "seek_start cursor r = Ok r1" and read: "read_exact_format 16 ''section header'' r1 = Ok (header, r2)"
    and reads: "read_u16 header 0 = Ok k" "read_u16 header 2 = Ok flags" "read_u64 header 4 = Ok len" "read_u32 header 12 = Ok c"
    and fl: "flags AND NOT 1 = 0" and max: "\<not> MAX_SECTION_BYTES < len"
    and e: "unat (cursor + 16) + unat len < usize_limit" "\<not> of_nat (length ?bs) < cursor + 16 + len"
    and res: "(case section_kind_from_raw k of
       Some kind \<Rightarrow> Ok (Some \<lparr>sd_kind = kind, sd_required = flags AND 1 \<noteq> 0, sd_payload_offset = cursor + 16,
                              sd_payload_length = len, sd_checksum = c\<rparr>, cursor + 16 + len, r2)
     | None \<Rightarrow> if flags AND 1 \<noteq> 0 then Err (Format (UnknownRequiredSection k))
               else and_then (verify_skipped_payload hasher len c r2) (\<lambda>r. Ok (None, cursor + 16 + len, r))) = Ok (d, cursor', r')"
    unfolding scan_section_def Let_def by (auto simp: res_simps checked_add_nat)
  have add: "unat (cursor + 16) = unat cursor + 16" using h by (simp add: unat_plus_u64)
  then have addl: "unat (cursor + 16 + len) = unat cursor + 16 + unat len" using e(1) by (simp add: unat_plus_u64)
  have fit: "unat cursor + 16 + unat len \<le> length ?bs" using e(2) lim by (simp add: word_less_nat_alt addl unat_of_nat_u64)
  note r1 = seek_start_Ok [OF seek] and r2 = read_exact_format_Ok [OF read]
  have header: "header = take 16 (drop (unat cursor) ?bs)" and len16: "length header = 16" and pos: "rd_pos r2 = unat cursor + 16"
    and bytes2: "rd_bytes r2 = ?bs" and same: "same_file r r2"
    using r1 r2 fit same_file_trans by (auto simp: same_file_def)
  define p where "p = take (unat len) (drop (unat cursor + 16) ?bs)"
  define sf where "sf = (k, flags AND 1 \<noteq> 0, p, c)"
  have lp: "length p = unat len" using fit by (simp add: p_def)
  have "header = take 2 header @ take 2 (drop 2 header) @ take 8 (drop 4 header) @ take 4 (drop 12 header)"
    using concat_cut [of header "[2, 2, 8, 4]"] len16 by simp
  moreover have "take 2 header = le16 k" "take 2 (drop 2 header) = le16 flags" "take 8 (drop 4 header) = le64 len"
    "take 4 (drop 12 header) = le32 c"
    using reads len16 by (simp_all add: read_u16_def read_u32_def read_u64_def read_array_small from_le16_eq from_le32_eq from_le64_eq)
  moreover have "flags = (if flags AND 1 \<noteq> 0 then 1 else 0)" using fl unfolding flags_known by auto
  moreover have "len = of_nat (length p)" by (simp add: lp)
  ultimately have bytes: "stored_bytes sf = header @ p" by (simp add: stored_bytes_def sf_def)
  have off: "of_nat (unat cursor + 16) = cursor + 16" by simp
  have "stored_ok crc sf \<and> d = stored_descriptor (unat cursor) sf \<and> cursor' = cursor + 16 + len \<and> same_file r r'"
  proof (cases "section_kind_from_raw k")
    case None
    then have req: "flags AND 1 = 0" using res by (auto split: if_splits)
    with None res obtain v: "verify_skipped_payload hasher len c r2 = Ok r'" and "d = None" "cursor' = cursor + 16 + len"
      by (auto simp: res_simps)
    moreover have "crc p = c \<and> same_file r2 r'"
      using verify_skipped_payload_Ok [OF law _ v] fit by (simp add: pos bytes2 p_def)
    ultimately show ?thesis
      using None req max lp same same_file_trans by (auto simp: stored_ok_def stored_descriptor_def sf_def word_less_nat_alt)
  next
    case (Some kind)
    then show ?thesis
      using res max lp same by (auto simp: stored_ok_def stored_descriptor_def sf_def off word_less_nat_alt)
  qed
  moreover have "drop (unat cursor) ?bs = header @ p @ drop (unat cursor + 16 + unat len) ?bs"
    unfolding header p_def by (subst drop_split [of _ _ 16], subst drop_split [of _ _ "unat len"]) simp
  ultimately show ?thesis using fit lp len16 by (intro exI [of _ sf]) (simp add: bytes addl)
qed

section \<open>Layouts\<close>

text \<open>The frames of a file with their offsets.\<close>

fun located :: "nat \<Rightarrow> stored_frame list \<Rightarrow> (nat \<times> stored_frame) list" where
  "located offset [] = []"
| "located offset (sf # sfs) = (offset, sf) # located (offset + length (stored_bytes sf)) sfs"

definition descriptors :: "nat \<Rightarrow> stored_frame list \<Rightarrow> section_descriptor list" where
  "descriptors offset sfs = List.map_filter (\<lambda>(o', sf). stored_descriptor o' sf) (located offset sfs)"

lemma descriptors_simps [simp]:
  "descriptors offset [] = []"
  "descriptors offset (sf # sfs) = (case stored_descriptor offset sf of None \<Rightarrow> [] | Some d \<Rightarrow> [d])
     @ descriptors (offset + length (stored_bytes sf)) sfs"
  by (simp_all add: descriptors_def map_filter_simps split: option.split)

lemma scan_sections_stored:
  assumes law: "hasher_law crc hasher" and lim: "length (rd_bytes r) < usize_limit" and healthy: "rd_faults r = []"
    and ok: "\<forall>sf \<in> set sfs. stored_ok crc sf" and cur: "unat cursor \<le> length (rd_bytes r)"
    and d: "drop (unat cursor) (rd_bytes r) = concat (map stored_bytes sfs)"
  shows "\<exists>r'. scan_sections hasher (of_nat (length (rd_bytes r))) (length sfs) cursor sections r
    = Ok (sections @ descriptors (unat cursor) sfs, of_nat (length (rd_bytes r)), r')"
  using lim healthy ok cur d
proof (induction sfs arbitrary: cursor sections r)
  case Nil
  then have "unat cursor = length (rd_bytes r)" by simp
  then have "cursor = of_nat (length (rd_bytes r))" by (simp add: word_unat_eq_iff unat_of_nat_u64 [OF Nil.prems(1)])
  then show ?case by simp
next
  case (Cons sf sfs)
  let ?c = "cursor + of_nat (length (stored_bytes sf))" and ?L = "of_nat (length (rd_bytes r)) :: u64"
  have d: "drop (unat cursor) (rd_bytes r) = stored_bytes sf @ concat (map stored_bytes sfs)" using Cons.prems(5) by simp
  obtain r1 where step: "scan_section hasher ?L cursor r = Ok (stored_descriptor (unat cursor) sf, ?c, r1)"
    using scan_section_stored [OF law Cons.prems(1,2) _ Cons.prems(4) d] Cons.prems(3) by auto
  have same: "same_file r r1" using scan_section_Ok [OF law Cons.prems(1) step] by blast
  note next_cursor = drop_prefix [OF Cons.prems(4) d]
  have c: "unat ?c = unat cursor + length (stored_bytes sf)"
    using next_cursor(1) Cons.prems(1) by (simp add: unat_plus_u64 unat_of_nat_u64)
  from Cons.IH [of r1 ?c "case stored_descriptor (unat cursor) sf of None \<Rightarrow> sections | Some d \<Rightarrow> sections @ [d]"]
  obtain r2 where "scan_sections hasher ?L (length sfs) ?c (case stored_descriptor (unat cursor) sf of None \<Rightarrow> sections | Some d \<Rightarrow> sections @ [d]) r1
      = Ok ((case stored_descriptor (unat cursor) sf of None \<Rightarrow> sections | Some d \<Rightarrow> sections @ [d]) @ descriptors (unat ?c) sfs, ?L, r2)"
    using same Cons.prems next_cursor c by (auto simp: same_file_def)
  then show ?case by (auto simp: step c split: option.split)
qed

lemma scan_sections_Ok:
  assumes law: "hasher_law crc hasher" and lim: "length (rd_bytes r) < usize_limit"
    and scan: "scan_sections hasher (of_nat (length (rd_bytes r))) n cursor sections r = Ok (sections', cursor', r')"
    and cur: "unat cursor \<le> length (rd_bytes r)"
  shows "\<exists>sfs. length sfs = n \<and> (\<forall>sf \<in> set sfs. stored_ok crc sf) \<and> sections' = sections @ descriptors (unat cursor) sfs
    \<and> same_file r r' \<and> unat cursor' \<le> length (rd_bytes r)
    \<and> drop (unat cursor) (rd_bytes r) = concat (map stored_bytes sfs) @ drop (unat cursor') (rd_bytes r)"
  using lim scan cur
proof (induction n arbitrary: cursor sections r)
  case 0
  then show ?case by (simp add: same_file_def)
next
  case (Suc n)
  let ?L = "of_nat (length (rd_bytes r)) :: u64"
  from Suc.prems(2) obtain d c r1 where step: "scan_section hasher ?L cursor r = Ok (d, c, r1)"
    and rest: "scan_sections hasher ?L n c (case d of None \<Rightarrow> sections | Some d \<Rightarrow> sections @ [d]) r1 = Ok (sections', cursor', r')"
    by (auto simp: res_simps)
  from scan_section_Ok [OF law Suc.prems(1) step] obtain sf where sf: "stored_ok crc sf" "d = stored_descriptor (unat cursor) sf"
    "same_file r r1" "unat c = unat cursor + length (stored_bytes sf)" "unat c \<le> length (rd_bytes r)"
    "drop (unat cursor) (rd_bytes r) = stored_bytes sf @ drop (unat c) (rd_bytes r)" by blast
  have bytes: "rd_bytes r1 = rd_bytes r" using sf(3) by (simp add: same_file_def)
  from Suc.IH [of r1 c] rest Suc.prems(1) sf(5) obtain sfs where sfs: "length sfs = n" "\<forall>sf \<in> set sfs. stored_ok crc sf"
    "sections' = (case d of None \<Rightarrow> sections | Some d \<Rightarrow> sections @ [d]) @ descriptors (unat c) sfs"
    "same_file r1 r'" "unat cursor' \<le> length (rd_bytes r)"
    "drop (unat c) (rd_bytes r) = concat (map stored_bytes sfs) @ drop (unat cursor') (rd_bytes r)"
    unfolding bytes by blast
  show ?case
    using sf sfs same_file_trans [OF sf(3) sfs(4)] by (intro exI [of _ "sf # sfs"]) (auto split: option.split)
qed

definition stored_container :: "(bytes \<Rightarrow> u32) \<Rightarrow> bytes \<Rightarrow> index_metadata \<Rightarrow> stored_frame list \<Rightarrow> bool" where
  "stored_container crc bs md sfs \<longleftrightarrow>
     metadata_valid md \<and> length sfs \<le> MAX_SECTION_COUNT \<and> (\<forall>sf \<in> set sfs. stored_ok crc sf)
     \<and> bs = encode_header crc md (of_nat (length sfs)) @ concat (map stored_bytes sfs)"

definition layout_of :: "index_metadata \<Rightarrow> bytes \<Rightarrow> stored_frame list \<Rightarrow> file_layout" where
  "layout_of md bs sfs = \<lparr>fl_metadata = md, fl_sections = descriptors 72 sfs, fl_file_length = of_nat (length bs)\<rparr>"

lemma seek_end_Ok: "seek_end r = Ok (n, r') \<Longrightarrow> same_file r r' \<and> n = of_nat (length (rd_bytes r))"
  by (auto simp: seek_end_def res_simps same_file_def dest!: io_tick_Ok)

lemma layout_read_from_Ok:
  assumes law: "hasher_law crc hasher" and lim: "length (rd_bytes r) < usize_limit"
    and ok: "layout_read_from crc hasher r = Ok (layout, r')"
  shows "\<exists>md sfs. stored_container crc (rd_bytes r) md sfs \<and> layout = layout_of md (rd_bytes r) sfs \<and> same_file r r'"
proof -
  let ?bs = "rd_bytes r" and ?L = "of_nat (length (rd_bytes r)) :: u64"
  from ok obtain n r1 r2 header r3 md count sections cursor where
    e: "seek_end r = Ok (n, r1)" and s: "seek_start 0 r1 = Ok r2" and rd: "read_exact_format 72 ''file header'' r2 = Ok (header, r3)"
    and h: "layout_decode_header crc header = Ok (md, count)" and max: "unat count \<le> 1024"
    and scan: "scan_sections hasher n (unat count) 72 [] r3 = Ok (sections, cursor, r')" and cur: "cursor = n"
    and layout: "layout = \<lparr>fl_metadata = md, fl_sections = sections, fl_file_length = n\<rparr>"
    by (auto simp: layout_read_from_def res_simps Let_def split: if_splits)
  note e = seek_end_Ok [OF e] and s = seek_start_Ok [OF s] and rd = read_exact_format_Ok [OF rd]
  have n: "n = ?L" and bytes: "rd_bytes r3 = ?bs" "same_file r r3" and fits: "72 \<le> length ?bs" and header: "header = take 72 ?bs"
    using e s rd same_file_trans by (auto simp: same_file_def)
  have dec: "metadata_valid md" "take 72 ?bs = encode_header crc md count"
    using h layout_decode_header_iff [of header crc md count] fits by (simp_all add: header decode_header_iff)
  have "unat (72 :: u64) = 72" by simp
  with scan_sections_Ok [OF law, of r3 "unat count" 72 "[]" sections cursor r'] scan lim fits bytes(1) n
  obtain sfs where sfs: "length sfs = unat count" "\<forall>sf \<in> set sfs. stored_ok crc sf" "sections = descriptors 72 sfs" "same_file r3 r'"
    "drop 72 ?bs = concat (map stored_bytes sfs) @ drop (unat cursor) ?bs" by auto
  have "unat cursor = length ?bs" using lim by (simp add: cur n unat_of_nat_u64)
  then have "stored_container crc ?bs md sfs"
    using sfs dec max append_take_drop_id [of 72 ?bs] by (simp add: stored_container_def)
  then show ?thesis using sfs(3,4) bytes(2) same_file_trans by (auto simp: layout_of_def layout n)
qed

lemma layout_read_from_stored:
  assumes law: "hasher_law crc hasher" and lim: "length (rd_bytes r) < usize_limit" and healthy: "rd_faults r = []"
    and c: "stored_container crc (rd_bytes r) md sfs"
  shows "\<exists>r'. layout_read_from crc hasher r = Ok (layout_of md (rd_bytes r) sfs, r')"
proof -
  let ?bs = "rd_bytes r" and ?L = "of_nat (length (rd_bytes r)) :: u64" and ?r3 = "r\<lparr>rd_pos := 72\<rparr>"
  note cont = c [unfolded stored_container_def]
  have fits: "72 \<le> length ?bs" and dec: "take 72 ?bs = encode_header crc md (of_nat (length sfs))"
    and rest: "drop 72 ?bs = concat (map stored_bytes sfs)"
    using cont by (metis length_append length_encode_header le_add1, metis append_eq_conv_conj length_encode_header,
        metis append_eq_conv_conj length_encode_header)
  have count: "unat (of_nat (length sfs) :: u32) = length sfs" using cont by (intro unat_of_nat_u32) simp
  have header: "layout_decode_header crc (take 72 ?bs) = Ok (md, of_nat (length sfs))"
    using cont fits dec by (simp add: layout_decode_header_iff decode_header_iff)
  obtain r' where "scan_sections hasher ?L (length sfs) 72 [] ?r3 = Ok (descriptors 72 sfs, ?L, r')"
    using scan_sections_stored [OF law, of ?r3 sfs 72 "[]"] lim healthy cont fits rest by auto
  moreover have "seek_end r = Ok (?L, r\<lparr>rd_pos := length ?bs\<rparr>)" using healthy by (simp add: seek_end_def io_tick_healthy)
  ultimately show ?thesis
    using healthy fits header cont
    by (auto simp: layout_read_from_def seek_start_healthy read_exact_format_healthy count layout_of_def Let_def)
qed

section \<open>Section reads\<close>

lemma located_drop:
  "(o', sf) \<in> set (located offset sfs) \<Longrightarrow> offset \<le> length bs \<Longrightarrow> drop offset bs = concat (map stored_bytes sfs) @ rest \<Longrightarrow>
    o' \<le> length bs \<and> (\<exists>rest'. drop o' bs = stored_bytes sf @ rest')"
proof (induction sfs arbitrary: offset)
  case (Cons sf' sfs)
  have d: "drop offset bs = stored_bytes sf' @ concat (map stored_bytes sfs) @ rest" using Cons.prems(3) by simp
  show ?case
  proof (cases "(o', sf) = (offset, sf')")
    case False
    with Cons.prems(1) have "(o', sf) \<in> set (located (offset + length (stored_bytes sf')) sfs)" by auto
    from Cons.IH [OF this drop_prefix [OF Cons.prems(2) d]] show ?thesis .
  qed (use d Cons.prems(2) in auto)
qed simp

text \<open>A known section of a scanned file: where its payload lies.\<close>

lemma descriptor_payload:
  assumes c: "stored_container crc bs md sfs" and sf: "(offset, (k, q, p, s)) \<in> set (located 72 sfs)"
    and d: "stored_descriptor offset (k, q, p, s) = Some d" and lim: "length bs < usize_limit"
  shows "unat (sd_payload_offset d) + length p \<le> length bs" "unat (sd_payload_length d) = length p"
    "take (length p) (drop (unat (sd_payload_offset d)) bs) = p"
proof -
  have "72 \<le> length bs" "drop 72 bs = concat (map stored_bytes sfs) @ []" using c by (simp_all add: stored_container_def)
  from located_drop [OF sf this] obtain rest where o: "offset \<le> length bs" "drop offset bs = stored_bytes (k, q, p, s) @ rest" by blast
  define h where "h = le16 k @ le16 (if q then 1 else 0) @ le64 (of_nat (length p)) @ le32 s"
  have split: "drop offset bs = h @ p @ rest" using o(2) by (simp add: stored_bytes_def h_def)
  have h: "length h = 16" by (simp add: h_def)
  note pos = drop_prefix [OF o(1) split, unfolded h]
  have bound: "offset + 16 + length p \<le> length bs" using drop_prefix(1) [OF pos] .
  have "unat (of_nat (offset + 16) :: u64) = offset + 16" by (rule unat_of_nat_u64) (use bound lim in linarith)
  moreover have "unat (of_nat (length p) :: u64) = length p" by (rule unat_of_nat_u64) (use bound lim in linarith)
  ultimately show "unat (sd_payload_offset d) + length p \<le> length bs" "unat (sd_payload_length d) = length p"
    "take (length p) (drop (unat (sd_payload_offset d)) bs) = p"
    using d bound pos(2) by (auto simp: stored_descriptor_def)
qed

lemma read_section_range_Ok:
  assumes ok: "read_section_range layout d offset len r = Ok (xs, r')"
    and o: "unat (sd_payload_offset d) + length p \<le> length (rd_bytes r)" "unat (sd_payload_length d) = length p"
      "take (length p) (drop (unat (sd_payload_offset d)) (rd_bytes r)) = p"
  shows "unat offset + len \<le> length p \<and> xs = take len (drop (unat offset) p) \<and> same_file r r'"
proof -
  from ok obtain r1 where len: "len < usize_limit" and "unat offset + len < usize_limit"
    "\<not> sd_payload_length d < offset + of_nat len" "unat (sd_payload_offset d) + unat offset < usize_limit"
    and seek: "seek_start (sd_payload_offset d + offset) r = Ok r1" and read: "read_exact_format len ''section range'' r1 = Ok (xs, r')"
    by (auto simp: read_section_range_def res_simps u64_try_from_Some checked_add_nat unat_of_nat_u64)
  then have le: "unat offset + len \<le> length p" and pos: "unat (sd_payload_offset d + offset) = unat (sd_payload_offset d) + unat offset"
    using o(2) by (simp_all add: word_less_nat_alt unat_plus_u64 unat_of_nat_u64)
  have "take len (drop (unat offset) p) = take len (drop (unat (sd_payload_offset d) + unat offset) (rd_bytes r))"
    by (subst o(3) [symmetric]) (use le in \<open>simp add: drop_take take_take min_def add.commute\<close>)
  then show ?thesis
    using seek_start_Ok [OF seek] read_exact_format_Ok [OF read] le pos same_file_trans by (auto simp: same_file_def)
qed

lemma read_section_range_healthy:
  assumes "rd_faults r = []" and lim: "length (rd_bytes r) < usize_limit" and "fl_file_length layout = of_nat (length (rd_bytes r))"
    and o: "unat (sd_payload_offset d) + length p \<le> length (rd_bytes r)" "unat (sd_payload_length d) = length p"
    and len: "unat offset + len \<le> length p"
  shows "\<exists>xs r'. read_section_range layout d offset len r = Ok (xs, r')"
proof -
  have l: "len < usize_limit" and u: "unat (of_nat len :: u64) = len" using len o lim by (auto intro!: unat_of_nat_u64)
  have a: "checked_add offset (of_nat len) = Some (offset + of_nat len)" "unat (offset + of_nat len) = unat offset + len"
    using len o lim by (simp_all add: checked_add_nat u unat_plus_u64)
  have b: "checked_add (sd_payload_offset d) offset = Some (sd_payload_offset d + offset)"
    "unat (sd_payload_offset d + offset) = unat (sd_payload_offset d) + unat offset"
    using len o lim by (simp_all add: checked_add_nat unat_plus_u64)
  have e: "checked_add (sd_payload_offset d + offset) (of_nat len) = Some (sd_payload_offset d + offset + of_nat len)"
    "unat (sd_payload_offset d + offset + of_nat len) = unat (sd_payload_offset d) + unat offset + len"
    using len o lim b(2) by (simp_all add: checked_add_nat u unat_plus_u64)
  have "\<not> sd_payload_length d < offset + of_nat len" "\<not> of_nat (length (rd_bytes r)) < sd_payload_offset d + offset + of_nat len"
    unfolding word_less_nat_alt a(2) e(2) unat_of_nat_u64 [OF lim] using len o by simp_all
  then show ?thesis
    using assms(1) len o l
    by (simp add: read_section_range_def u64_try_from_def a(1) b e(1) assms(3) seek_start_healthy read_exact_format_healthy)
qed

lemma read_section_payload:
  assumes c: "stored_container crc (rd_bytes r) md sfs" and sf: "(offset, (k, q, p, s)) \<in> set (located 72 sfs)"
    and d: "stored_descriptor offset (k, q, p, s) = Some d" and lim: "length (rd_bytes r) < usize_limit" and healthy: "rd_faults r = []"
  shows "(\<exists>r'. read_section crc (layout_of md (rd_bytes r) sfs) d r = Ok (xs, r')) \<longleftrightarrow> xs = p \<and> s = crc p"
proof -
  note o = descriptor_payload [OF c sf d lim]
  let ?layout = "layout_of md (rd_bytes r) sfs"
  have sum: "sd_checksum d = s" using d by (auto simp: stored_descriptor_def)
  obtain ys r1 where read: "read_section_range ?layout d 0 (unat (sd_payload_length d)) r = Ok (ys, r1)"
    using read_section_range_healthy [OF healthy lim _ o(1,2), of ?layout 0 "unat (sd_payload_length d)"] o(2)
    by (auto simp: layout_of_def)
  from read_section_range_Ok [OF read o] o(2) have "ys = p" by simp
  then show ?thesis by (auto simp: read_section_def read sum res_simps Let_def)
qed

section \<open>Agreement with the whole-file decoder\<close>

definition with_checksum :: "(bytes \<Rightarrow> u32) \<Rightarrow> frame \<Rightarrow> stored_frame" where
  "with_checksum crc fr = (case fr of (k, q, p) \<Rightarrow> (k, q, p, crc p))"

lemma stored_bytes_with_checksum: "stored_bytes (with_checksum crc fr) = frame_bytes crc fr"
  by (cases fr) (simp add: with_checksum_def stored_bytes_def frame_bytes_def)

lemma stored_ok_with_checksum: "stored_ok crc (with_checksum crc fr) \<longleftrightarrow> frame_ok fr"
  by (cases fr) (auto simp: with_checksum_def stored_ok_def frame_ok_def)

lemma container_stored: "container crc bs md frames \<longleftrightarrow> stored_container crc bs md (map (with_checksum crc) frames)"
  by (auto simp: container_def stored_container_def stored_ok_with_checksum stored_bytes_with_checksum comp_def cong: map_cong)

text \<open>What a client that reads every section of a layout in order obtains.\<close>

definition materialises :: "(bytes \<Rightarrow> u32) \<Rightarrow> reader \<Rightarrow> file_layout \<Rightarrow> section_descriptor \<Rightarrow> index_section \<Rightarrow> bool" where
  "materialises crc r layout d s \<longleftrightarrow> sd_kind d = sec_kind s \<and> sd_required d = sec_required s
     \<and> (\<exists>r'. read_section crc layout d r = Ok (sec_payload s, r'))"

lemma map_with_checksum_Cons:
  "(\<exists>frames. (k, q, p, s) # sfs = map (with_checksum crc) frames \<and> ss = List.map_filter frame_section frames) \<longleftrightarrow>
    s = crc p \<and> (\<exists>frames. sfs = map (with_checksum crc) frames
      \<and> ss = (case frame_section (k, q, p) of None \<Rightarrow> [] | Some x \<Rightarrow> [x]) @ List.map_filter frame_section frames)"
  (is "?L \<longleftrightarrow> ?R")
proof
  assume ?L
  then obtain fr frames where "(k, q, p, s) = with_checksum crc fr" "sfs = map (with_checksum crc) frames"
    "ss = List.map_filter frame_section (fr # frames)" by (auto simp: Cons_eq_map_conv)
  then show ?R by (cases fr) (auto simp: with_checksum_def map_filter_simps split: option.split)
next
  assume ?R
  then obtain frames where "s = crc p" "sfs = map (with_checksum crc) frames"
    "ss = (case frame_section (k, q, p) of None \<Rightarrow> [] | Some x \<Rightarrow> [x]) @ List.map_filter frame_section frames" by blast
  then show ?L
    by (intro exI [of _ "(k, q, p) # frames"]) (auto simp: with_checksum_def map_filter_simps split: option.split)
qed

lemma materialises_descriptors:
  assumes c: "stored_container crc (rd_bytes r) md all" and lim: "length (rd_bytes r) < usize_limit" and healthy: "rd_faults r = []"
    and sub: "set (located offset sfs) \<subseteq> set (located 72 all)" and ok: "\<forall>sf \<in> set sfs. stored_ok crc sf"
  shows "list_all2 (materialises crc r (layout_of md (rd_bytes r) all)) (descriptors offset sfs) ss \<longleftrightarrow>
    (\<exists>frames. sfs = map (with_checksum crc) frames \<and> ss = List.map_filter frame_section frames)"
  using sub ok
proof (induction sfs arbitrary: offset ss)
  case Nil
  then show ?case by (auto simp: map_filter_simps)
next
  case (Cons sf sfs)
  obtain k q p s where sf: "sf = (k, q, p, s)" by (cases sf)
  have sub: "(offset, (k, q, p, s)) \<in> set (located 72 all)" using Cons.prems(1) by (simp add: sf)
  note IH = Cons.IH [of "offset + length (stored_bytes sf)"]
  show ?case
  proof (cases "section_kind_from_raw k")
    case None
    have "s = crc p" using Cons.prems(2) None by (simp add: sf stored_ok_def)
    moreover have "stored_descriptor offset sf = None" by (simp add: sf stored_descriptor_def None)
    moreover have "frame_section (k, q, p) = None" by (simp add: frame_section_def None)
    ultimately show ?thesis
      using IH [of ss] Cons.prems unfolding sf map_with_checksum_Cons by simp
  next
    case (Some kind)
    then obtain d where d: "stored_descriptor offset (k, q, p, s) = Some d" "sd_kind d = kind" "sd_required d = q"
      by (simp add: stored_descriptor_def)
    have mat: "materialises crc r (layout_of md (rd_bytes r) all) d s' \<longleftrightarrow>
        s' = \<lparr>sec_kind = kind, sec_required = q, sec_payload = p\<rparr> \<and> s = crc p" for s'
      using read_section_payload [OF c sub d(1) lim healthy] d(2,3) by (cases s') (auto simp: materialises_def)
    have "frame_section (k, q, p) = Some \<lparr>sec_kind = kind, sec_required = q, sec_payload = p\<rparr>" by (simp add: frame_section_def Some)
    then show ?thesis
      using IH Cons.prems unfolding sf map_with_checksum_Cons by (auto simp: d(1) list_all2_Cons1 mat)
  qed
qed

section \<open>Properties\<close>

text \<open>C13: The lazy reader and the whole-file decoder agree. For a source of fewer than 2 to the 64 bytes
  without I/O faults, decoding the whole file succeeds with a given container exactly when the
  scan succeeds, finds the same metadata, and reading every scanned section succeeds with the
  sections of the container in order. Checksums of sections of unknown kind are verified by the
  scan itself, those of known sections by the reads.\<close>

theorem lazy_reader_agrees:
  assumes "hasher_law crc hasher" and "length (rd_bytes r) < 2 ^ 64" and "rd_faults r = []"
  shows "index_file_decode crc (rd_bytes r) = Ok file \<longleftrightarrow>
    (\<exists>layout r'. layout_read_from crc hasher r = Ok (layout, r') \<and> fl_metadata layout = if_metadata file
       \<and> list_all2 (materialises crc r layout) (fl_sections layout) (if_sections file))"
proof -
  have lim: "length (rd_bytes r) < usize_limit" using assms(2) by simp
  let ?bs = "rd_bytes r"
  have mat: "list_all2 (materialises crc r (layout_of md ?bs sfs)) (descriptors 72 sfs) ss \<longleftrightarrow>
      (\<exists>frames. sfs = map (with_checksum crc) frames \<and> ss = List.map_filter frame_section frames)"
    if "stored_container crc ?bs md sfs" for md sfs ss
    using materialises_descriptors [OF that lim assms(3) subset_refl] that by (simp add: stored_container_def)
  have "(\<exists>frames. container crc ?bs (if_metadata file) frames \<and> if_sections file = List.map_filter frame_section frames) \<longleftrightarrow>
      (\<exists>sfs. stored_container crc ?bs (if_metadata file) sfs
         \<and> (\<exists>frames. sfs = map (with_checksum crc) frames \<and> if_sections file = List.map_filter frame_section frames))"
    by (auto simp: container_stored)
  also have "\<dots> \<longleftrightarrow> (\<exists>sfs. stored_container crc ?bs (if_metadata file) sfs
         \<and> list_all2 (materialises crc r (layout_of (if_metadata file) ?bs sfs)) (descriptors 72 sfs) (if_sections file))"
    using mat by (intro ex_cong1 conj_cong refl) simp
  also have "\<dots> \<longleftrightarrow> (\<exists>layout r'. layout_read_from crc hasher r = Ok (layout, r') \<and> fl_metadata layout = if_metadata file
       \<and> list_all2 (materialises crc r layout) (fl_sections layout) (if_sections file))"
  proof
    assume "\<exists>sfs. stored_container crc ?bs (if_metadata file) sfs
         \<and> list_all2 (materialises crc r (layout_of (if_metadata file) ?bs sfs)) (descriptors 72 sfs) (if_sections file)"
    then show "\<exists>layout r'. layout_read_from crc hasher r = Ok (layout, r') \<and> fl_metadata layout = if_metadata file
       \<and> list_all2 (materialises crc r layout) (fl_sections layout) (if_sections file)"
      using layout_read_from_stored [OF assms(1) lim assms(3)] by (fastforce simp: layout_of_def)
  next
    assume "\<exists>layout r'. layout_read_from crc hasher r = Ok (layout, r') \<and> fl_metadata layout = if_metadata file
       \<and> list_all2 (materialises crc r layout) (fl_sections layout) (if_sections file)"
    then show "\<exists>sfs. stored_container crc ?bs (if_metadata file) sfs
         \<and> list_all2 (materialises crc r (layout_of (if_metadata file) ?bs sfs)) (descriptors 72 sfs) (if_sections file)"
      using layout_read_from_Ok [OF assms(1) lim] by (fastforce simp: layout_of_def)
  qed
  finally show ?thesis by (simp add: index_file_decode_iff)
qed

text \<open>C36: Range reads never return wrong bytes, whatever I/O faults occur: if a file was scanned and a range
  of one of its sections is read, successfully, under any schedule of faults, then the range lies
  within the section and the result is exactly that range of the payload the frame holds.\<close>

theorem range_read_exact:
  assumes "hasher_law crc hasher" and "length (rd_bytes r) < 2 ^ 64"
    and "layout_read_from crc hasher r = Ok (layout, r1)" and "d \<in> set (fl_sections layout)"
    and "rd_bytes r2 = rd_bytes r" and "read_section_range layout d offset len r2 = Ok (xs, r3)"
  shows "unat offset + len \<le> unat (sd_payload_length d)
    \<and> unat (sd_payload_offset d) + unat (sd_payload_length d) \<le> length (rd_bytes r)
    \<and> xs = take len (drop (unat (sd_payload_offset d) + unat offset) (rd_bytes r))"
proof -
  have lim: "length (rd_bytes r) < usize_limit" using assms(2) by simp
  obtain md sfs where c: "stored_container crc (rd_bytes r) md sfs" "layout = layout_of md (rd_bytes r) sfs"
    using layout_read_from_Ok [OF assms(1) lim assms(3)] by blast
  with assms(4) obtain off k q p s where sf: "(off, (k, q, p, s)) \<in> set (located 72 sfs)" "stored_descriptor off (k, q, p, s) = Some d"
    by (auto simp: layout_of_def descriptors_def set_map_filter_iff)
  note o = descriptor_payload [OF c(1) sf lim]
  have *: "unat offset + len \<le> length p" "xs = take len (drop (unat offset) p)"
    using read_section_range_Ok [OF assms(6)] o by (simp_all add: assms(5))
  have "take len (drop (unat offset) p) = take len (drop (unat (sd_payload_offset d) + unat offset) (rd_bytes r))"
    by (subst o(3) [symmetric]) (use *(1) in \<open>simp add: drop_take take_take min_def add.commute\<close>)
  with * o show ?thesis by simp
qed

section \<open>Instances\<close>

definition example_crc :: "bytes \<Rightarrow> u32" where
  "example_crc bs = of_nat (length bs)"

definition example_hasher :: "bytes crc_hasher" where
  "example_hasher = \<lparr>hasher_new = [], hasher_update = (\<lambda>piece h. h @ piece), hasher_finalize = example_crc\<rparr>"

lemma example_hasher_law: "hasher_law example_crc example_hasher"
proof -
  have "fold (\<lambda>piece h. h @ piece) pieces h = h @ concat pieces" for pieces and h :: bytes
    by (induction pieces arbitrary: h) auto
  then show ?thesis by (simp add: hasher_law_def example_hasher_def)
qed

definition example_file :: index_file where
  "example_file =
     \<lparr>if_metadata = \<lparr>md_algorithm = MinHashLsh, md_signature_scheme = PariAffine32V1, md_key_codec = CodecU64,
        md_num_perm = 4, md_seed = 7, md_threshold = f64_one, md_bands = 2, md_rows = 2, md_feature_flags = 0\<rparr>,
      if_sections = [\<lparr>sec_kind = Keys, sec_required = True, sec_payload = [1, 2]\<rparr>]\<rparr>"

definition example_bytes :: bytes where
  "example_bytes = encode_header example_crc (if_metadata example_file) 1 @ stored_bytes (1, True, [1, 2], 2)"

definition example_reader :: reader where
  "example_reader = \<lparr>rd_bytes = example_bytes, rd_pos = 0, rd_faults = []\<rparr>"

lemma example_container: "container example_crc example_bytes (if_metadata example_file) [(1, True, [1, 2])]"
  by (simp add: container_def example_bytes_def example_file_def metadata_valid_def threshold_accepted_iff frame_ok_def
      section_kind_from_raw_def stored_bytes_def frame_bytes_def example_crc_def)

theorem lazy_reader_agrees_witness:
  "\<exists>layout r'. layout_read_from example_crc example_hasher example_reader = Ok (layout, r')
     \<and> list_all2 (materialises example_crc example_reader layout) (fl_sections layout) (if_sections example_file)"
proof -
  have "index_file_decode example_crc example_bytes = Ok example_file"
    using example_container unfolding index_file_decode_iff
    by (intro exI [of _ "[(1, True, [1, 2])]"])
      (simp add: example_file_def map_filter_simps frame_section_def section_kind_from_raw_def)
  moreover have "length (rd_bytes example_reader) < 2 ^ 64" "rd_faults example_reader = []" "rd_bytes example_reader = example_bytes"
    using container_length [OF example_container] by (simp_all add: example_reader_def)
  ultimately show ?thesis using lazy_reader_agrees [OF example_hasher_law, of example_reader example_file] by auto
qed

theorem range_read_exact_witness:
  "\<exists>layout r1 d xs r3. layout_read_from example_crc example_hasher example_reader = Ok (layout, r1)
     \<and> d \<in> set (fl_sections layout) \<and> read_section_range layout d 1 1 example_reader = Ok (xs, r3) \<and> length xs = 1"
proof -
  let ?sf = "(1, True, [1, 2], 2) :: stored_frame" and ?r = example_reader
  have r: "length (rd_bytes ?r) < usize_limit" "rd_faults ?r = []" "rd_bytes ?r = example_bytes"
    using container_length [OF example_container] by (simp_all add: example_reader_def)
  have c: "stored_container example_crc (rd_bytes ?r) (if_metadata example_file) [?sf]"
    using example_container by (simp add: container_stored with_checksum_def r(3) example_crc_def)
  obtain d where d: "stored_descriptor 72 ?sf = Some d" by (simp add: stored_descriptor_def section_kind_from_raw_def)
  obtain layout r1 where scan: "layout_read_from example_crc example_hasher ?r = Ok (layout, r1)"
    and layout: "layout = layout_of (if_metadata example_file) (rd_bytes ?r) [?sf]"
    using layout_read_from_stored [OF example_hasher_law r(1,2) c] by blast
  have mem: "d \<in> set (fl_sections layout)" by (simp add: layout layout_of_def d)
  note o = descriptor_payload [OF c _ d r(1)]
  obtain xs r3 where read: "read_section_range layout d 1 1 ?r = Ok (xs, r3)"
    using read_section_range_healthy [OF r(2,1), of layout d "[1, 2]" 1 1] o by (auto simp: layout layout_of_def)
  have "length (rd_bytes ?r) < 2 ^ 64" using r(1) by simp
  from range_read_exact [OF example_hasher_law this scan mem refl read] have "length xs = 1" by auto
  with scan mem read show ?thesis by blast
qed

end
