(* ===== verification/Pari_Buckets.thy ===== *)
theory Pari_Buckets
  imports Pari_Layout
begin

text \<open>
  Crate \<open>pari-format\<close>, bucket segments (\<open>crates/pari-format/src/buckets.rs\<close> and \<open>bucket_stream.rs\<close>): the
  checksummed directory of buckets and their member lists, its encoder, the decoder that reads the
  directory of a section without the members, the reads of single member lists, and the writer
  that streams members from a sequential source.

  The lemmas show that what is encoded is found again bucket by bucket, that every accepted
  directory is strictly sorted with contiguous member ranges inside the section, and that the
  streaming writer produces the bytes of the in-memory encoder.
\<close>

section \<open>Definitions\<close>

definition BUCKET_SEGMENT_MAGIC :: bytes where
  "BUCKET_SEGMENT_MAGIC = [80, 65, 82, 73, 66, 75, 84, 0]"

abbreviation BUCKET_SEGMENT_VERSION :: u16 where "BUCKET_SEGMENT_VERSION \<equiv> 1"
abbreviation BUCKET_SEGMENT_HEADER_BYTES :: usize where "BUCKET_SEGMENT_HEADER_BYTES \<equiv> 40"
abbreviation BUCKET_SEGMENT_HEADER_BYTES_U16 :: u16 where "BUCKET_SEGMENT_HEADER_BYTES_U16 \<equiv> 40"
abbreviation BUCKET_SEGMENT_HEADER_BYTES_U64 :: u64 where "BUCKET_SEGMENT_HEADER_BYTES_U64 \<equiv> 40"
abbreviation BUCKET_DIRECTORY_ENTRY_BYTES :: usize where "BUCKET_DIRECTORY_ENTRY_BYTES \<equiv> 32"
abbreviation U64_BYTES :: usize where "U64_BYTES \<equiv> 8"
abbreviation U64_BYTES_U64 :: u64 where "U64_BYTES_U64 \<equiv> 8"
abbreviation BUCKET_SEGMENT_TARGET_BYTES :: usize where "BUCKET_SEGMENT_TARGET_BYTES \<equiv> 33554432"

datatype bucket_key = BucketKey (bk_band: u32) (bk_hash: u64)

text \<open>The derived order compares the fields lexicographically.\<close>

instantiation bucket_key :: linorder
begin

definition less_eq_bucket_key :: "bucket_key \<Rightarrow> bucket_key \<Rightarrow> bool" where
  "less_eq_bucket_key k l \<longleftrightarrow> bk_band k < bk_band l \<or> bk_band k = bk_band l \<and> bk_hash k \<le> bk_hash l"

definition less_bucket_key :: "bucket_key \<Rightarrow> bucket_key \<Rightarrow> bool" where
  "less_bucket_key k l \<longleftrightarrow> bk_band k < bk_band l \<or> bk_band k = bk_band l \<and> bk_hash k < bk_hash l"

instance
  by standard (auto simp: less_eq_bucket_key_def less_bucket_key_def intro: bucket_key.expand)

end

record bucket_record =
  br_key :: bucket_key
  br_members :: "u64 list"

record bucket_location =
  bl_key :: bucket_key
  bl_section :: section_descriptor
  bl_member_offset :: u64
  bl_member_count :: u32
  bl_member_checksum :: u32

datatype bucket_error =
    BucketLayout layout_error
  | BucketInvalid string
  | DirectoryChecksumMismatch u32 u32
  | MemberChecksumMismatch u32 u32
  | BucketLengthOverflow

definition bucket_record_size :: "usize \<Rightarrow> (usize, bucket_error) result" where
  "bucket_record_size member_count =
     and_then (ok_or BucketLengthOverflow (checked_mul_usize member_count U64_BYTES)) (\<lambda>bytes.
     ok_or BucketLengthOverflow (checked_add_usize BUCKET_DIRECTORY_ENTRY_BYTES bytes))"

text \<open>The loop over \<open>windows(2)\<close> that rejects keys out of strict order.\<close>

fun strictly_ascending :: "bucket_key list \<Rightarrow> bool" where
  "strictly_ascending (k # l # ks) \<longleftrightarrow> \<not> l \<le> k \<and> strictly_ascending (l # ks)"
| "strictly_ascending ks \<longleftrightarrow> True"

definition validate_record_order :: "bucket_record list \<Rightarrow> (unit, bucket_error) result" where
  "validate_record_order records =
     err_if (\<not> strictly_ascending (map br_key records)) (BucketInvalid ''bucket records must be strictly sorted and unique'')"

definition validate_global_bucket_order :: "bucket_location list \<Rightarrow> (unit, bucket_error) result" where
  "validate_global_bucket_order locations =
     err_if (\<not> strictly_ascending (map bl_key locations))
       (BucketInvalid ''bucket directory contains duplicate or unsorted bucket keys'')"

definition directory_entry :: "bucket_key \<Rightarrow> u64 \<Rightarrow> u32 \<Rightarrow> u32 \<Rightarrow> bytes" where
  "directory_entry key member_offset member_count checksum =
     le32 (bk_band key) @ le32 0 @ le64 (bk_hash key) @ le64 member_offset @ le32 member_count @ le32 checksum"

definition advance_offset :: "u64 \<Rightarrow> u32 \<Rightarrow> (u64, bucket_error) result" where
  "advance_offset member_offset member_count =
     and_then (ok_or BucketLengthOverflow (checked_mul (ucast member_count) U64_BYTES_U64)) (\<lambda>bytes.
     ok_or BucketLengthOverflow (checked_add member_offset bytes))"

definition encode_record :: "(bytes \<Rightarrow> u32) \<Rightarrow> bucket_record \<Rightarrow> bytes \<times> bytes \<times> u64
     \<Rightarrow> (bytes \<times> bytes \<times> u64, bucket_error) result" where
  "encode_record crc record state =
     (let (directory, members_payload, member_offset) = state;
          members = concat (map le64 (br_members record))
      in and_then (ok_or BucketLengthOverflow (u32_try_from (length (br_members record)))) (\<lambda>member_count.
         and_then (advance_offset member_offset member_count) (\<lambda>next_offset.
         Ok (directory @ directory_entry (br_key record) member_offset member_count (crc members),
             members_payload @ members, next_offset))))"

definition segment_header :: "(bytes \<Rightarrow> u32) \<Rightarrow> u64 \<Rightarrow> u64 \<Rightarrow> bytes \<Rightarrow> bytes" where
  "segment_header crc count directory_bytes directory =
     (let fields = BUCKET_SEGMENT_MAGIC @ le16 BUCKET_SEGMENT_VERSION @ le16 BUCKET_SEGMENT_HEADER_BYTES_U16
            @ le64 count @ le64 directory_bytes @ le32 (crc directory)
      in fields @ le32 (crc fields) @ replicate 4 0)"

definition add_members :: "bucket_record \<Rightarrow> usize \<Rightarrow> (usize, bucket_error) result" where
  "add_members record acc =
     and_then (ok_or BucketLengthOverflow (checked_mul_usize (length (br_members record)) U64_BYTES)) (\<lambda>bytes.
     ok_or BucketLengthOverflow (checked_add_usize acc bytes))"

definition encode_bucket_segment :: "(bytes \<Rightarrow> u32) \<Rightarrow> bucket_record list \<Rightarrow> (bytes, bucket_error) result" where
  "encode_bucket_segment crc records =
     and_then (validate_record_order records) (\<lambda>_.
     and_then (ok_or BucketLengthOverflow (checked_mul_usize (length records) BUCKET_DIRECTORY_ENTRY_BYTES)) (\<lambda>directory_bytes.
     and_then (fold_result add_members records 0) (\<lambda>member_bytes.
     and_then (ok_or BucketLengthOverflow (Option.bind (checked_add_usize BUCKET_SEGMENT_HEADER_BYTES directory_bytes)
         (\<lambda>value. checked_add_usize value member_bytes))) (\<lambda>total.
     and_then (ok_or BucketLengthOverflow (checked_add_usize BUCKET_SEGMENT_HEADER_BYTES directory_bytes)) (\<lambda>member_start.
     and_then (ok_or BucketLengthOverflow (u64_try_from member_start)) (\<lambda>member_offset.
     and_then (fold_result (encode_record crc) records ([], [], member_offset)) (\<lambda>(directory, members_payload, _).
     and_then (ok_or BucketLengthOverflow (u64_try_from (length records))) (\<lambda>count.
     and_then (ok_or BucketLengthOverflow (u64_try_from directory_bytes)) (\<lambda>directory_bytes.
     Ok (segment_header crc count directory_bytes directory @ directory @ members_payload))))))))))"

definition read_field_at :: "usize \<Rightarrow> string \<Rightarrow> bytes \<Rightarrow> usize \<Rightarrow> (bytes, bucket_error) result" where
  "read_field_at n reason bs offset =
     and_then (ok_or BucketLengthOverflow (checked_add_usize offset n)) (\<lambda>end.
     ok_or (BucketInvalid reason) (slice_get bs offset end))"

definition read_u16_at :: "bytes \<Rightarrow> usize \<Rightarrow> (u16, bucket_error) result" where
  "read_u16_at bs offset =
     and_then (read_field_at 2 ''fixed-width u16 field is truncated'' bs offset) (\<lambda>raw. Ok (from_le_bytes raw))"

definition read_u32_at :: "bytes \<Rightarrow> usize \<Rightarrow> (u32, bucket_error) result" where
  "read_u32_at bs offset =
     and_then (read_field_at 4 ''fixed-width u32 field is truncated'' bs offset) (\<lambda>raw. Ok (from_le_bytes raw))"

definition bucket_read_u64 :: "bytes \<Rightarrow> (u64, bucket_error) result" where
  "bucket_read_u64 bs =
     (if length bs = U64_BYTES then Ok (from_le_bytes bs) else Err (BucketInvalid ''fixed-width u64 field is truncated''))"

definition read_u64_at :: "bytes \<Rightarrow> usize \<Rightarrow> (u64, bucket_error) result" where
  "read_u64_at bs offset =
     and_then (read_field_at U64_BYTES ''fixed-width u64 field is truncated'' bs offset) bucket_read_u64"

definition validate_header_fixed_fields :: "bytes \<Rightarrow> (unit, bucket_error) result" where
  "validate_header_fixed_fields header =
     and_then (err_if (slice_get header 0 8 \<noteq> Some BUCKET_SEGMENT_MAGIC) (BucketInvalid ''invalid bucket segment magic'')) (\<lambda>_.
     and_then (read_u16_at header 8) (\<lambda>version.
     and_then (err_if (version \<noteq> BUCKET_SEGMENT_VERSION) (BucketInvalid ''unsupported bucket segment version'')) (\<lambda>_.
     and_then (read_u16_at header 10) (\<lambda>size.
     and_then (err_if (size \<noteq> BUCKET_SEGMENT_HEADER_BYTES_U16) (BucketInvalid ''invalid bucket segment header size'')) (\<lambda>_.
     err_if (slice_get header 36 40 \<noteq> Some [0, 0, 0, 0]) (BucketInvalid ''bucket segment reserved bytes must be zero''))))))"

type_synonym directory_state = "bucket_location list \<times> u64 \<times> bucket_key option"

definition decode_entry :: "section_descriptor \<Rightarrow> u32 \<Rightarrow> bytes \<Rightarrow> directory_state \<Rightarrow> (directory_state, bucket_error) result" where
  "decode_entry descriptor bands_u32 entry state =
     (let (locations, expected_member_offset, previous_key) = state in
      and_then (read_u32_at entry 4) (\<lambda>reserved.
      and_then (err_if (reserved \<noteq> 0) (BucketInvalid ''bucket directory reserved bytes must be zero'')) (\<lambda>_.
      and_then (read_u32_at entry 0) (\<lambda>band.
      and_then (read_u64_at entry 8) (\<lambda>hash.
      let key = BucketKey band hash in
      and_then (err_if (bands_u32 \<le> band) (BucketInvalid ''bucket directory band exceeds index metadata'')) (\<lambda>_.
      and_then (err_if (case previous_key of None \<Rightarrow> False | Some previous \<Rightarrow> key \<le> previous)
        (BucketInvalid ''bucket segment keys are duplicated or unsorted'')) (\<lambda>_.
      and_then (read_u64_at entry 16) (\<lambda>member_offset.
      and_then (err_if (member_offset \<noteq> expected_member_offset)
        (BucketInvalid ''bucket member ranges contain a gap, overlap, or invalid offset'')) (\<lambda>_.
      and_then (read_u32_at entry 24) (\<lambda>member_count.
      and_then (advance_offset member_offset member_count) (\<lambda>member_end.
      and_then (err_if (sd_payload_length descriptor < member_end)
        (BucketInvalid ''bucket member range extends past the section payload'')) (\<lambda>_.
      and_then (read_u32_at entry 28) (\<lambda>member_checksum.
      Ok (locations @ [\<lparr>bl_key = key, bl_section = descriptor, bl_member_offset = member_offset,
            bl_member_count = member_count, bl_member_checksum = member_checksum\<rparr>],
          member_end, Some key))))))))))))))"

definition decode_directory_entries ::
  "section_descriptor \<Rightarrow> bytes \<Rightarrow> usize \<Rightarrow> u64 \<Rightarrow> usize \<Rightarrow> (bucket_location list, bucket_error) result" where
  "decode_directory_entries descriptor directory count member_start bands =
     and_then (ok_or BucketLengthOverflow (u32_try_from bands)) (\<lambda>bands_u32.
     and_then (fold_result (decode_entry descriptor bands_u32) (chunks_exact BUCKET_DIRECTORY_ENTRY_BYTES directory)
       ([], member_start, None)) (\<lambda>(locations, expected_member_offset, _).
     and_then (err_if (length locations \<noteq> count) (BucketInvalid ''bucket directory record count is inconsistent'')) (\<lambda>_.
     and_then (err_if (expected_member_offset \<noteq> sd_payload_length descriptor)
       (BucketInvalid ''bucket segment has trailing member bytes'')) (\<lambda>_.
     Ok locations))))"

definition decode_bucket_segment ::
  "(bytes \<Rightarrow> u32) \<Rightarrow> file_layout \<Rightarrow> section_descriptor \<Rightarrow> usize \<Rightarrow> reader \<Rightarrow> (bucket_location list \<times> reader, bucket_error) result" where
  "decode_bucket_segment crc layout descriptor bands r =
     and_then (err_if (sd_kind descriptor \<noteq> Buckets \<or> \<not> sd_required descriptor)
       (BucketInvalid ''bucket segment must be a required Buckets section'')) (\<lambda>_.
     and_then (err_if (sd_payload_length descriptor < BUCKET_SEGMENT_HEADER_BYTES_U64)
       (BucketInvalid ''bucket segment header is truncated'')) (\<lambda>_.
     and_then (map_err BucketLayout (read_section_range layout descriptor 0 BUCKET_SEGMENT_HEADER_BYTES r)) (\<lambda>(header, r).
     and_then (validate_header_fixed_fields header) (\<lambda>_.
     and_then (read_u32_at header 32) (\<lambda>expected_header_checksum.
     let actual_header_checksum = crc (take 32 header) in
     and_then (err_if (expected_header_checksum \<noteq> actual_header_checksum)
       (DirectoryChecksumMismatch expected_header_checksum actual_header_checksum)) (\<lambda>_.
     and_then (read_u64_at header 12) (\<lambda>count_raw.
     and_then (read_u64_at header 20) (\<lambda>directory_raw.
     let count = unat count_raw; directory_bytes = unat directory_raw in
     and_then (ok_or BucketLengthOverflow (checked_mul_usize count BUCKET_DIRECTORY_ENTRY_BYTES)) (\<lambda>expected_directory_bytes.
     and_then (err_if (directory_bytes \<noteq> expected_directory_bytes)
       (BucketInvalid ''bucket directory byte length does not match its record count'')) (\<lambda>_.
     and_then (ok_or BucketLengthOverflow (checked_add_usize BUCKET_SEGMENT_HEADER_BYTES directory_bytes)) (\<lambda>member_start.
     and_then (ok_or BucketLengthOverflow (u64_try_from member_start)) (\<lambda>member_start_u64.
     and_then (err_if (sd_payload_length descriptor < member_start_u64)
       (BucketInvalid ''bucket directory extends past the section payload'')) (\<lambda>_.
     and_then (map_err BucketLayout (read_section_range layout descriptor BUCKET_SEGMENT_HEADER_BYTES_U64 directory_bytes r)) (\<lambda>(directory, r).
     and_then (read_u32_at header 28) (\<lambda>expected_directory_checksum.
     let actual_directory_checksum = crc directory in
     and_then (err_if (expected_directory_checksum \<noteq> actual_directory_checksum)
       (DirectoryChecksumMismatch expected_directory_checksum actual_directory_checksum)) (\<lambda>_.
     and_then (decode_directory_entries descriptor directory count member_start_u64 bands) (\<lambda>locations.
     Ok (locations, r))))))))))))))))))"

definition read_bucket_members ::
  "(bytes \<Rightarrow> u32) \<Rightarrow> file_layout \<Rightarrow> bucket_location \<Rightarrow> reader \<Rightarrow> (u64 list \<times> reader, bucket_error) result" where
  "read_bucket_members crc layout location r =
     and_then (ok_or BucketLengthOverflow (checked_mul_usize (unat (bl_member_count location)) U64_BYTES)) (\<lambda>byte_length.
     and_then (map_err BucketLayout (read_section_range layout (bl_section location) (bl_member_offset location) byte_length r)) (\<lambda>(bytes, r).
     let actual = crc bytes in
     and_then (err_if (actual \<noteq> bl_member_checksum location) (MemberChecksumMismatch (bl_member_checksum location) actual)) (\<lambda>_.
     and_then (try_map bucket_read_u64 (chunks_exact U64_BYTES bytes)) (\<lambda>keys.
     Ok (keys, r)))))"

section \<open>Fields and offsets\<close>

lemma strictly_ascending_iff: "strictly_ascending ks \<longleftrightarrow> sorted_wrt (<) ks"
proof (induction ks rule: strictly_ascending.induct)
  case (1 k l ks)
  have "sorted_wrt (<) (k # l # ks) \<longleftrightarrow> k < l \<and> sorted_wrt (<) (l # ks)" by (auto dest: less_trans)
  with 1 show ?case by (simp add: not_le)
qed auto

lemma read_field_at_small:
  "offset + n < usize_limit \<Longrightarrow> read_field_at n reason bs offset
     = (if offset + n \<le> length bs then Ok (take n (drop offset bs)) else Err (BucketInvalid reason))"
  by (simp add: read_field_at_def checked_add_usize_def slice_get_def)

lemma bucket_read_le64 [simp]: "bucket_read_u64 (le64 v) = Ok v"
  by (simp add: bucket_read_u64_def)

lemma unat_ucast_count [simp]: "unat (ucast (c :: u32) :: u64) = unat c"
  unfolding unsigned_ucast_eq using unat_u32_less [of c] by (simp add: take_bit_nat_eq_self)

lemma advance_offset_Ok:
  "advance_offset off c = Ok e \<longleftrightarrow> unat off + 8 * unat c < usize_limit \<and> e = off + of_nat (8 * unat c)"
proof -
  have "unat (c :: u32) * 8 < usize_limit" using unat_u32_less [of c] by simp
  then have mul: "checked_mul (ucast c) (8 :: u64) = Some (ucast c * 8)" "unat (ucast c * 8 :: u64) = unat c * 8"
    by (simp_all add: checked_mul_def unat_word_ariths)
  have "ucast c * 8 = (of_nat (8 * unat c) :: u64)"
    unfolding word_unat_eq_iff mul(2) by (subst unat_of_nat_u64) (use unat_u32_less [of c] in simp_all)
  then show ?thesis using mul by (auto simp: advance_offset_def res_simps checked_add_nat mult.commute)
qed

lemma advance_offset_value: "advance_offset off c = Ok e \<Longrightarrow> unat e = unat off + 8 * unat c"
proof -
  assume "advance_offset off c = Ok e"
  then have e: "unat off + 8 * unat c < usize_limit" "e = off + of_nat (8 * unat c)" unfolding advance_offset_Ok by blast+
  then have "unat (of_nat (8 * unat c) :: u64) = 8 * unat c" by (intro unat_of_nat_u64) simp
  with e show ?thesis by (simp add: unat_plus_u64 del: of_nat_mult)
qed

lemma length_directory_entry [simp]: "length (directory_entry k off c s) = 32"
  by (simp add: directory_entry_def)

lemma directory_entry_fields:
  "read_u32_at (directory_entry k off c s) 4 = Ok 0" "read_u32_at (directory_entry k off c s) 0 = Ok (bk_band k)"
  "read_u64_at (directory_entry k off c s) 8 = Ok (bk_hash k)" "read_u64_at (directory_entry k off c s) 16 = Ok off"
  "read_u32_at (directory_entry k off c s) 24 = Ok c" "read_u32_at (directory_entry k off c s) 28 = Ok s"
  by (simp_all add: directory_entry_def read_u32_at_def read_u64_at_def read_field_at_small)

section \<open>Segments\<close>

definition member_bytes :: "bucket_record \<Rightarrow> bytes" where
  "member_bytes r = concat (map le64 (br_members r))"

lemma length_member_bytes [simp]: "length (member_bytes r) = 8 * length (br_members r)"
  by (simp add: member_bytes_def)

text \<open>The directory entries of a segment whose members start at an offset, and the locations of its
  buckets.\<close>

fun entries :: "(bytes \<Rightarrow> u32) \<Rightarrow> nat \<Rightarrow> bucket_record list \<Rightarrow> bytes list" where
  "entries crc off [] = []"
| "entries crc off (r # rs) =
     directory_entry (br_key r) (of_nat off) (of_nat (length (br_members r))) (crc (member_bytes r))
     # entries crc (off + 8 * length (br_members r)) rs"

fun locations :: "(bytes \<Rightarrow> u32) \<Rightarrow> section_descriptor \<Rightarrow> nat \<Rightarrow> bucket_record list \<Rightarrow> bucket_location list" where
  "locations crc d off [] = []"
| "locations crc d off (r # rs) =
     \<lparr>bl_key = br_key r, bl_section = d, bl_member_offset = of_nat off, bl_member_count = of_nat (length (br_members r)),
      bl_member_checksum = crc (member_bytes r)\<rparr> # locations crc d (off + 8 * length (br_members r)) rs"

definition total_members :: "bucket_record list \<Rightarrow> nat" where
  "total_members rs = (\<Sum>r\<leftarrow>rs. length (br_members r))"

definition segment_start :: "bucket_record list \<Rightarrow> nat" where
  "segment_start rs = 40 + 32 * length rs"

definition segment :: "(bytes \<Rightarrow> u32) \<Rightarrow> bucket_record list \<Rightarrow> bytes" where
  "segment crc rs =
     (let directory = concat (entries crc (segment_start rs) rs)
      in segment_header crc (of_nat (length rs)) (of_nat (32 * length rs)) directory @ directory @ concat (map member_bytes rs))"

definition segment_ok :: "bucket_record list \<Rightarrow> bool" where
  "segment_ok rs \<longleftrightarrow> sorted_wrt (<) (map br_key rs) \<and> (\<forall>r \<in> set rs. length (br_members r) < 4294967296)
     \<and> segment_start rs + 8 * total_members rs < usize_limit"

lemma length_entries [simp]: "length (entries crc off rs) = length rs"
  by (induction rs arbitrary: off) auto

lemma entry_length: "e \<in> set (entries crc off rs) \<Longrightarrow> length e = 32"
  by (induction rs arbitrary: off) auto

lemma length_concat_entries [simp]: "length (concat (entries crc off rs)) = 32 * length rs"
  by (induction rs arbitrary: off) auto

lemma chunks_entries: "chunks_exact 32 (concat (entries crc off rs)) = entries crc off rs"
  by (rule chunks_exact_concat) (simp_all add: entry_length)

lemma length_member_payload: "length (concat (map member_bytes rs)) = 8 * total_members rs"
  by (induction rs) (auto simp: total_members_def)

lemma length_segment_header [simp]: "length (segment_header crc c b d) = 40"
  by (simp add: segment_header_def BUCKET_SEGMENT_MAGIC_def)

lemma length_segment: "length (segment crc rs) = segment_start rs + 8 * total_members rs"
  by (simp add: segment_def Let_def length_member_payload segment_start_def)

lemma total_members_simps [simp]: "total_members [] = 0" "total_members (r # rs) = length (br_members r) + total_members rs"
  by (simp_all add: total_members_def)

lemma add_members_Ok:
  "add_members r n = Ok t \<longleftrightarrow> n + 8 * length (br_members r) < usize_limit \<and> t = n + 8 * length (br_members r)"
  by (auto simp: add_members_def res_simps checked_mul_usize_def checked_add_usize_def mult.commute)

lemma member_total_fold:
  "fold_result add_members rs n = Ok t
    \<longleftrightarrow> (rs \<noteq> [] \<longrightarrow> n + 8 * total_members rs < usize_limit) \<and> t = n + 8 * total_members rs"
proof (induction rs arbitrary: n)
  case (Cons r rs)
  have "fold_result add_members (r # rs) n = Ok t \<longleftrightarrow> n + 8 * length (br_members r) < usize_limit
      \<and> (rs \<noteq> [] \<longrightarrow> n + 8 * length (br_members r) + 8 * total_members rs < usize_limit)
      \<and> t = n + 8 * length (br_members r) + 8 * total_members rs"
    by (simp add: res_simps add_members_Ok Cons.IH)
  then show ?case by (cases "rs = []") (simp_all add: distrib_left add.assoc, linarith)
qed auto

lemma encode_records_fold:
  "(\<forall>r \<in> set rs. length (br_members r) < 4294967296) \<Longrightarrow> off + 8 * total_members rs < usize_limit \<Longrightarrow>
    fold_result (encode_record crc) rs (dir, pay, of_nat off)
    = Ok (dir @ concat (entries crc off rs), pay @ concat (map member_bytes rs), of_nat (off + 8 * total_members rs))"
proof (induction rs arbitrary: dir pay off)
  case (Cons r rs)
  have c: "unat (of_nat (length (br_members r)) :: u32) = length (br_members r)" using Cons.prems(1) by (intro unat_of_nat_u32) simp
  have o: "unat (of_nat off :: u64) = off" using Cons.prems(2) by (intro unat_of_nat_u64) simp
  have "advance_offset (of_nat off) (of_nat (length (br_members r))) = Ok (of_nat (off + 8 * length (br_members r)))"
    using Cons.prems(2) by (simp add: advance_offset_Ok c o)
  then have "encode_record crc r (dir, pay, of_nat off)
      = Ok (dir @ directory_entry (br_key r) (of_nat off) (of_nat (length (br_members r))) (crc (member_bytes r)),
            pay @ member_bytes r, of_nat (off + 8 * length (br_members r)))"
    using Cons.prems(1) by (simp add: encode_record_def u32_try_from_def member_bytes_def Let_def del: of_nat_add)
  then show ?case using Cons.IH [of "off + 8 * length (br_members r)"] Cons.prems
    by (simp add: algebra_simps del: of_nat_add)
qed simp

lemma encode_bucket_segment_ok:
  assumes "segment_ok rs"
  shows "encode_bucket_segment crc rs = Ok (segment crc rs)"
proof -
  note ok = assms [unfolded segment_ok_def segment_start_def]
  have order: "validate_record_order rs = Ok ()"
    using ok by (simp add: validate_record_order_def strictly_ascending_iff)
  have total: "fold_result add_members rs 0 = Ok (8 * total_members rs)"
    using ok by (simp add: member_total_fold)
  show ?thesis
    unfolding encode_bucket_segment_def order and_then.simps total
    using ok encode_records_fold [of rs "40 + 32 * length rs" crc "[]" "[]"]
    by (simp add: checked_mul_usize_def checked_add_usize_def u64_try_from_def mult.commute [of 32] segment_def Let_def
        segment_start_def del: of_nat_add of_nat_mult)
qed

lemma encode_records_bound:
  "fold_result (encode_record crc) rs st = Ok st' \<Longrightarrow> \<forall>r \<in> set rs. length (br_members r) < 4294967296"
  by (induction rs arbitrary: st) (auto simp: res_simps encode_record_def u32_try_from_Some Let_def split: prod.splits)

lemma encode_bucket_segment_Ok:
  "encode_bucket_segment crc rs = Ok bs \<longleftrightarrow> segment_ok rs \<and> bs = segment crc rs"
proof
  assume enc: "encode_bucket_segment crc rs = Ok bs"
  then have "segment_ok rs"
    by (auto simp: encode_bucket_segment_def res_simps validate_record_order_def strictly_ascending_iff segment_ok_def
        segment_start_def checked_mul_usize_def checked_add_usize_def member_total_fold mult.commute
        dest!: encode_records_bound split: if_splits)
  with enc show "segment_ok rs \<and> bs = segment crc rs" by (simp add: encode_bucket_segment_ok)
qed (simp add: encode_bucket_segment_ok)

section \<open>Sections that hold a payload\<close>

definition section_holds :: "file_layout \<Rightarrow> section_descriptor \<Rightarrow> bytes \<Rightarrow> bytes \<Rightarrow> bool" where
  "section_holds layout d file p \<longleftrightarrow>
     unat (sd_payload_offset d) + length p \<le> length file \<and> unat (sd_payload_length d) = length p
     \<and> take (length p) (drop (unat (sd_payload_offset d)) file) = p
     \<and> fl_file_length layout = of_nat (length file) \<and> length file < usize_limit"

lemma range_read:
  assumes "section_holds layout d (rd_bytes r) p" and "rd_faults r = []" and "unat offset + len \<le> length p"
  shows "\<exists>r'. read_section_range layout d offset len r = Ok (take len (drop (unat offset) p), r') \<and> same_file r r'"
proof -
  note h = assms(1) [unfolded section_holds_def]
  obtain xs r' where "read_section_range layout d offset len r = Ok (xs, r')"
    using read_section_range_healthy [OF assms(2) _ _ _ _ assms(3)] h by blast
  with read_section_range_Ok [OF this, of p] h show ?thesis by auto
qed

lemma section_holds_same: "same_file r r' \<Longrightarrow> section_holds layout d (rd_bytes r) p \<Longrightarrow> section_holds layout d (rd_bytes r') p"
  by (simp add: same_file_def)

section \<open>Decoding\<close>

lemma decode_entry_ok:
  assumes "bk_band k < bands" and "\<forall>p. prev = Some p \<longrightarrow> p < k" and "advance_offset off c = Ok e" and "e \<le> sd_payload_length d"
  shows "decode_entry d bands (directory_entry k off c s) (locs, off, prev)
    = Ok (locs @ [\<lparr>bl_key = k, bl_section = d, bl_member_offset = off, bl_member_count = c, bl_member_checksum = s\<rparr>], e, Some k)"
  using assms
  by (cases k) (auto simp: decode_entry_def Let_def directory_entry_fields err_if_def not_le not_less split: option.split)

lemma decode_entries_ok:
  "sorted_wrt (<) (map br_key rs) \<Longrightarrow> \<forall>r \<in> set rs. length (br_members r) < 4294967296 \<and> bk_band (br_key r) < bands \<Longrightarrow>
   \<forall>p. prev = Some p \<longrightarrow> (\<forall>r \<in> set rs. p < br_key r) \<Longrightarrow>
   off + 8 * total_members rs = unat (sd_payload_length d) \<Longrightarrow>
   \<exists>prev'. fold_result (decode_entry d bands) (entries crc off rs) (locs, of_nat off, prev)
     = Ok (locs @ locations crc d off rs, sd_payload_length d, prev')"
proof (induction rs arbitrary: off prev locs)
  case Nil
  then show ?case by (simp add: word_unat_eq_iff)
next
  case (Cons r rs)
  let ?n = "length (br_members r)" and ?o = "of_nat off :: u64"
  have lim: "off + 8 * ?n + 8 * total_members rs < usize_limit"
    using Cons.prems(4) unat_u64_less [of "sd_payload_length d"] by simp
  have c: "unat (of_nat ?n :: u32) = ?n" using Cons.prems(2) by (intro unat_of_nat_u32) simp
  have o: "unat ?o = off" using lim by (intro unat_of_nat_u64) simp
  have adv: "advance_offset ?o (of_nat ?n) = Ok (of_nat (off + 8 * ?n))"
    using lim by (simp add: advance_offset_Ok c o)
  have "unat (of_nat (off + 8 * ?n) :: u64) = off + 8 * ?n" using lim by (intro unat_of_nat_u64) simp
  then have le: "of_nat (off + 8 * ?n) \<le> sd_payload_length d" using Cons.prems(4) by (simp add: word_le_nat_alt del: of_nat_add)
  let ?l = "\<lparr>bl_key = br_key r, bl_section = d, bl_member_offset = ?o, bl_member_count = of_nat ?n,
      bl_member_checksum = crc (member_bytes r)\<rparr>"
  have step: "decode_entry d bands (directory_entry (br_key r) ?o (of_nat ?n) (crc (member_bytes r))) (locs, ?o, prev)
      = Ok (locs @ [?l], of_nat (off + 8 * ?n), Some (br_key r))"
    using Cons.prems(2,3) by (intro decode_entry_ok adv le) auto
  obtain prev' where "fold_result (decode_entry d bands) (entries crc (off + 8 * ?n) rs) (locs @ [?l], of_nat (off + 8 * ?n), Some (br_key r))
      = Ok ((locs @ [?l]) @ locations crc d (off + 8 * ?n) rs, sd_payload_length d, prev')"
    using Cons.IH [of "Some (br_key r)" "off + 8 * ?n" "locs @ [?l]"] Cons.prems by auto
  then show ?case unfolding entries.simps locations.simps fold_result.simps step and_then.simps by simp
qed

lemma length_locations [simp]: "length (locations crc d off rs) = length rs"
  by (induction rs arbitrary: off) auto

lemma map_bl_key_locations [simp]: "map bl_key (locations crc d off rs) = map br_key rs"
  by (induction rs arbitrary: off) auto

lemma length_BUCKET_SEGMENT_MAGIC [simp]: "length BUCKET_SEGMENT_MAGIC = 8"
  by (simp add: BUCKET_SEGMENT_MAGIC_def)

lemma replicate_four: "replicate 4 x = [x, x, x, x]"
  by (simp add: numeral_eq_Suc)

lemma header_fields_read:
  "validate_header_fixed_fields (segment_header crc n b dir) = Ok ()"
  "read_u32_at (segment_header crc n b dir) 32 = Ok (crc (take 32 (segment_header crc n b dir)))"
  "read_u64_at (segment_header crc n b dir) 12 = Ok n"
  "read_u64_at (segment_header crc n b dir) 20 = Ok b"
  "read_u32_at (segment_header crc n b dir) 28 = Ok (crc dir)"
  by (simp_all add: segment_header_def validate_header_fixed_fields_def read_u16_at_def read_u32_at_def read_u64_at_def
      read_field_at_small slice_get_def Let_def replicate_four)

lemma decode_segment:
  assumes ok: "segment_ok rs" and holds: "section_holds layout d (rd_bytes r) (segment crc rs)" and healthy: "rd_faults r = []"
    and d: "sd_kind d = Buckets" "sd_required d" and bands: "bands < 4294967296" "\<forall>x \<in> set rs. unat (bk_band (br_key x)) < bands"
  shows "\<exists>r'. decode_bucket_segment crc layout d bands r = Ok (locations crc d (segment_start rs) rs, r') \<and> same_file r r'"
proof -
  let ?dir = "concat (entries crc (segment_start rs) rs)"
  let ?h = "segment_header crc (of_nat (length rs)) (of_nat (32 * length rs)) ?dir"
  have p: "segment crc rs = ?h @ ?dir @ concat (map member_bytes rs)" by (simp add: segment_def Let_def)
  note ok' = ok [unfolded segment_ok_def segment_start_def]
  have plen: "unat (sd_payload_length d) = 40 + 32 * length rs + 8 * total_members rs"
    using holds by (simp add: section_holds_def length_segment segment_start_def)
  obtain r1 where r1: "read_section_range layout d 0 40 r = Ok (?h, r1)" "same_file r r1"
    using range_read [OF holds healthy, of 0 40] by (auto simp: length_segment segment_start_def p)
  then have healthy1: "rd_faults r1 = []" using healthy by (simp add: same_file_def)
  obtain r2 where r2: "read_section_range layout d 40 (32 * length rs) r1 = Ok (?dir, r2)" "same_file r1 r2"
    using range_read [OF section_holds_same [OF r1(2) holds] healthy1, of 40 "32 * length rs"]
    by (auto simp: length_segment segment_start_def p)
  have n: "unat (of_nat (length rs) :: u64) = length rs" "unat (of_nat (32 * length rs) :: u64) = 32 * length rs"
    "unat (of_nat (40 + 32 * length rs) :: u64) = 40 + 32 * length rs"
    by (rule unat_of_nat_u64, use ok' in linarith)+
  have bands': "u32_try_from bands = Some (of_nat bands)" "\<forall>x \<in> set rs. bk_band (br_key x) < of_nat bands"
    using bands by (auto simp: u32_try_from_def word_less_nat_alt unat_of_nat_u32)
  obtain prev where "fold_result (decode_entry d (of_nat bands)) (entries crc (segment_start rs) rs) ([], of_nat (segment_start rs), None)
      = Ok (locations crc d (segment_start rs) rs, sd_payload_length d, prev)"
    using decode_entries_ok [of rs "of_nat bands" None "segment_start rs" d crc "[]"] ok' bands' plen by (auto simp: segment_start_def)
  then have dirs: "decode_directory_entries d ?dir (length rs) (of_nat (segment_start rs)) bands = Ok (locations crc d (segment_start rs) rs)"
    by (simp add: decode_directory_entries_def bands' chunks_entries del: of_nat_add)
  have fits: "\<not> sd_payload_length d < 40" "\<not> sd_payload_length d < of_nat (40 + 32 * length rs)"
    using plen by (simp_all add: word_less_nat_alt n(3) del: of_nat_add of_nat_mult)
  have start: "checked_add_usize 40 (32 * length rs) = Some (segment_start rs)" "u64_try_from (segment_start rs) = Some (of_nat (segment_start rs))"
    "checked_mul_usize (length rs) 32 = Some (32 * length rs)"
    using ok' by (auto simp: checked_add_usize_def u64_try_from_def checked_mul_usize_def segment_start_def)
  have "decode_bucket_segment crc layout d bands r = Ok (locations crc d (segment_start rs) rs, r2)"
    unfolding decode_bucket_segment_def r1(1) map_err.simps and_then.simps prod.case header_fields_read Let_def n start ok_or.simps r2(1) dirs
    using d fits by (simp add: segment_start_def)
  with same_file_trans [OF r1(2) r2(2)] show ?thesis by blast
qed

lemma read_members:
  assumes holds: "section_holds layout d (rd_bytes r) p" and healthy: "rd_faults r = []" and n: "length ms < 4294967296"
    and off: "off \<le> length p" "drop off p = concat (map le64 ms) @ rest"
  shows "\<exists>r'. read_bucket_members crc layout \<lparr>bl_key = k, bl_section = d, bl_member_offset = of_nat off,
      bl_member_count = of_nat (length ms), bl_member_checksum = crc (concat (map le64 ms))\<rparr> r = Ok (ms, r')"
proof -
  have c: "unat (of_nat (length ms) :: u32) = length ms" using n by (rule unat_of_nat_u32)
  have len: "off + 8 * length ms \<le> length p" using drop_prefix(1) [OF off] by simp
  moreover have o: "unat (of_nat off :: u64) = off"
    using off(1) holds by (intro unat_of_nat_u64) (simp add: section_holds_def)
  ultimately obtain r' where "read_section_range layout d (of_nat off) (8 * length ms) r = Ok (concat (map le64 ms), r')"
    using range_read [OF holds healthy, of "of_nat off" "8 * length ms"] off(2) by auto
  moreover have "try_map bucket_read_u64 (map le64 ms) = Ok ms" by (induction ms) auto
  ultimately show ?thesis
    using n by (simp add: read_bucket_members_def c checked_mul_usize_def mult.commute chunks_exact_le64)
qed

lemma read_all_members:
  assumes holds: "section_holds layout d (rd_bytes r) p" and healthy: "rd_faults r = []"
  shows "\<forall>x \<in> set rs. length (br_members x) < 4294967296 \<Longrightarrow> off \<le> length p \<Longrightarrow> drop off p = concat (map member_bytes rs) \<Longrightarrow>
    list_all2 (\<lambda>l x. \<exists>r'. read_bucket_members crc layout l r = Ok (br_members x, r')) (locations crc d off rs) rs"
proof (induction rs arbitrary: off)
  case (Cons x rs)
  have d: "drop off p = member_bytes x @ concat (map member_bytes rs)" using Cons.prems(3) by simp
  have "\<exists>r'. read_bucket_members crc layout \<lparr>bl_key = br_key x, bl_section = d, bl_member_offset = of_nat off,
      bl_member_count = of_nat (length (br_members x)), bl_member_checksum = crc (member_bytes x)\<rparr> r = Ok (br_members x, r')"
    using read_members [OF holds healthy _ Cons.prems(2) d [unfolded member_bytes_def]] Cons.prems(1) by (simp add: member_bytes_def)
  moreover have "list_all2 (\<lambda>l x. \<exists>r'. read_bucket_members crc layout l r = Ok (br_members x, r'))
      (locations crc d (off + 8 * length (br_members x)) rs) rs"
    using Cons.IH drop_prefix [OF Cons.prems(2) d] Cons.prems(1) by simp
  ultimately show ?case by simp
qed simp

section \<open>Accepted directories\<close>

text \<open>The member ranges of a list of locations follow each other from one offset to another.\<close>

fun contiguous :: "nat \<Rightarrow> bucket_location list \<Rightarrow> nat \<Rightarrow> bool" where
  "contiguous off [] end \<longleftrightarrow> off = end"
| "contiguous off (l # ls) end \<longleftrightarrow> unat (bl_member_offset l) = off \<and> contiguous (off + 8 * unat (bl_member_count l)) ls end"

lemma contiguous_snoc:
  "contiguous off (ls @ [l]) e \<longleftrightarrow> (\<exists>m. contiguous off ls m \<and> unat (bl_member_offset l) = m \<and> e = m + 8 * unat (bl_member_count l))"
  by (induction ls arbitrary: off) auto

definition directory_inv :: "section_descriptor \<Rightarrow> u32 \<Rightarrow> nat \<Rightarrow> directory_state \<Rightarrow> bool" where
  "directory_inv d bands start st \<longleftrightarrow> (case st of (locs, off, prev) \<Rightarrow>
     sorted_wrt (<) (map bl_key locs) \<and> prev = (if locs = [] then None else Some (bl_key (last locs)))
     \<and> (\<forall>l \<in> set locs. bl_section l = d \<and> bk_band (bl_key l) < bands) \<and> contiguous start locs (unat off))"

lemma sorted_wrt_snoc_last:
  fixes ks :: "'a::linorder list"
  assumes "sorted_wrt (<) ks" and "ks \<noteq> [] \<longrightarrow> last ks < k"
  shows "sorted_wrt (<) (ks @ [k])"
proof -
  have "\<forall>x \<in> set ks. x < k"
  proof
    fix x assume x: "x \<in> set ks"
    then have "x \<le> last ks" using assms(1) by (induction ks) (auto simp: less_imp_le)
    with assms(2) x show "x < k" by fastforce
  qed
  with assms(1) show ?thesis by (simp add: sorted_wrt_append)
qed

lemma decode_entry_inv:
  assumes inv: "directory_inv d bands start st" and step: "decode_entry d bands entry st = Ok st'"
  shows "directory_inv d bands start st'"
proof -
  obtain locs off prev where st: "st = (locs, off, prev)" by (cases st)
  from step obtain band hash c e s where band: "\<not> bands \<le> band" and prev: "\<not> (case prev of None \<Rightarrow> False | Some p \<Rightarrow> BucketKey band hash \<le> p)"
    and adv: "advance_offset off c = Ok e"
    and st': "st' = (locs @ [\<lparr>bl_key = BucketKey band hash, bl_section = d, bl_member_offset = off, bl_member_count = c, bl_member_checksum = s\<rparr>],
      e, Some (BucketKey band hash))"
    by (auto simp: decode_entry_def st res_simps Let_def)
  have "locs \<noteq> [] \<longrightarrow> bl_key (last locs) < BucketKey band hash"
    using inv prev by (auto simp: directory_inv_def st split: if_splits)
  then have "sorted_wrt (<) (map bl_key locs @ [BucketKey band hash])"
    using inv by (intro sorted_wrt_snoc_last) (auto simp: directory_inv_def st last_map)
  then show ?thesis
    using inv band advance_offset_value [OF adv] by (auto simp: directory_inv_def st st' contiguous_snoc)
qed

lemma decode_directory_Ok:
  assumes "decode_directory_entries d directory n start bands = Ok locs"
  shows "length locs = n \<and> sorted_wrt (<) (map bl_key locs)
    \<and> (\<forall>l \<in> set locs. bl_section l = d \<and> unat (bk_band (bl_key l)) < bands)
    \<and> contiguous (unat start) locs (unat (sd_payload_length d))"
proof -
  from assms obtain b prev where b: "u32_try_from bands = Some b" and len: "length locs = n"
    and fold: "fold_result (decode_entry d b) (chunks_exact 32 directory) ([], start, None) = Ok (locs, sd_payload_length d, prev)"
    by (auto simp: decode_directory_entries_def res_simps)
  have "directory_inv d b (unat start) (locs, sd_payload_length d, prev)"
    by (rule fold_result_invariant [OF fold]) (auto simp: directory_inv_def [of _ _ _ "([], _, _)"] intro: decode_entry_inv)
  moreover have "unat b = bands" using b by (auto simp: u32_try_from_Some unat_of_nat_u32)
  ultimately show ?thesis using len by (auto simp: directory_inv_def word_less_nat_alt)
qed

section \<open>Streaming\<close>

abbreviation COPY_BUFFER_BYTES_U64 :: u64 where "COPY_BUFFER_BYTES_U64 \<equiv> 65536"

record bucket_write_record =
  bw_key :: bucket_key
  bw_member_count :: u32
  bw_member_checksum :: u32

record streamed_bucket_segment =
  sb_bytes :: u64
  sb_checksum :: u32

definition validate_records :: "bucket_write_record list \<Rightarrow> (unit, bucket_error) result" where
  "validate_records records =
     err_if (\<not> strictly_ascending (map bw_key records)) (BucketInvalid ''bucket records must be strictly sorted and unique'')"

text \<open>A sink is the bytes written so far and a schedule of I/O outcomes.\<close>

record writer =
  wr_bytes :: bytes
  wr_faults :: "io_error option list"

definition write_all :: "bytes \<Rightarrow> writer \<Rightarrow> (writer, io_error) result" where
  "write_all bs w = (case wr_faults w of
     [] \<Rightarrow> Ok (w\<lparr>wr_bytes := wr_bytes w @ bs\<rparr>)
   | None # fs \<Rightarrow> Ok (w\<lparr>wr_bytes := wr_bytes w @ bs, wr_faults := fs\<rparr>)
   | Some e # fs \<Rightarrow> Err e)"

definition bucket_io_error :: "io_error \<Rightarrow> bucket_error" where
  "bucket_io_error e = BucketLayout (Io e)"

definition write_hashed :: "'h crc_hasher \<Rightarrow> bytes \<Rightarrow> writer \<times> 'h \<Rightarrow> (writer \<times> 'h, bucket_error) result" where
  "write_hashed hasher bs state =
     (let (w, h) = state
      in and_then (map_err bucket_io_error (write_all bs w)) (\<lambda>w. Ok (w, hasher_update hasher bs h)))"

definition stream_entry :: "bucket_write_record \<Rightarrow> bytes \<times> u64 \<times> u64 \<Rightarrow> (bytes \<times> u64 \<times> u64, bucket_error) result" where
  "stream_entry record state =
     (let (directory, member_offset, total_member_bytes) = state
      in and_then (ok_or BucketLengthOverflow (checked_mul (ucast (bw_member_count record)) U64_BYTES_U64)) (\<lambda>member_bytes.
         and_then (ok_or BucketLengthOverflow (checked_add member_offset member_bytes)) (\<lambda>next_offset.
         and_then (ok_or BucketLengthOverflow (checked_add total_member_bytes member_bytes)) (\<lambda>total_member_bytes.
         Ok (directory @ directory_entry (bw_key record) member_offset (bw_member_count record) (bw_member_checksum record),
             next_offset, total_member_bytes)))))"

type_synonym 'h copy_state = "writer \<times> reader \<times> 'h \<times> 'h"

function copy_loop :: "'h crc_hasher \<Rightarrow> u64 \<Rightarrow> 'h copy_state \<Rightarrow> ('h copy_state, bucket_error) result" where
  "copy_loop hasher remaining (w, r, bucket, outer) =
     (if remaining = 0 then Ok (w, r, bucket, outer)
      else let count = unat (min remaining COPY_BUFFER_BYTES_U64) in
           and_then (map_err bucket_io_error (read_exact count r)) (\<lambda>(piece, r).
           and_then (map_err bucket_io_error (write_all piece w)) (\<lambda>w.
           copy_loop hasher (remaining - of_nat count) (w, r, hasher_update hasher piece bucket, hasher_update hasher piece outer))))"
  by pat_completeness auto

termination copy_loop
proof (relation "measure (\<lambda>(_, remaining, _). unat remaining)")
  fix hasher :: "'h crc_hasher" and remaining :: u64 and w r bucket outer count x piece r' w'
  assume "remaining \<noteq> 0" and "count = unat (min remaining COPY_BUFFER_BYTES_U64)"
  then show "((hasher, remaining - of_nat count, w', r', hasher_update hasher piece bucket, hasher_update hasher piece outer),
      hasher, remaining, w, r, bucket, outer) \<in> measure (\<lambda>(_, remaining, _). unat remaining)"
    using buffer_step [of remaining COPY_BUFFER_BYTES_U64] by simp
qed simp

declare copy_loop.simps [simp del]

definition copy_record :: "'h crc_hasher \<Rightarrow> bucket_write_record \<Rightarrow> writer \<times> reader \<times> 'h \<Rightarrow> (writer \<times> reader \<times> 'h, bucket_error) result" where
  "copy_record hasher record state =
     (let (w, r, outer) = state
      in and_then (ok_or BucketLengthOverflow (checked_mul (ucast (bw_member_count record)) U64_BYTES_U64)) (\<lambda>remaining.
         and_then (copy_loop hasher remaining (w, r, hasher_new hasher, outer)) (\<lambda>(w, r, bucket, outer).
         let actual = hasher_finalize hasher bucket in
         and_then (err_if (actual \<noteq> bw_member_checksum record) (MemberChecksumMismatch (bw_member_checksum record) actual)) (\<lambda>_.
         Ok (w, r, outer)))))"

definition write_bucket_segment ::
  "(bytes \<Rightarrow> u32) \<Rightarrow> 'h crc_hasher \<Rightarrow> bucket_write_record list \<Rightarrow> reader \<Rightarrow> writer
     \<Rightarrow> (streamed_bucket_segment \<times> reader \<times> writer, bucket_error) result" where
  "write_bucket_segment crc hasher records members w =
     and_then (validate_records records) (\<lambda>_.
     and_then (ok_or BucketLengthOverflow (checked_mul_usize (length records) BUCKET_DIRECTORY_ENTRY_BYTES)) (\<lambda>directory_bytes.
     and_then (ok_or BucketLengthOverflow (checked_add_usize BUCKET_SEGMENT_HEADER_BYTES directory_bytes)) (\<lambda>member_start.
     and_then (ok_or BucketLengthOverflow (u64_try_from member_start)) (\<lambda>member_offset.
     and_then (fold_result stream_entry records ([], member_offset, 0)) (\<lambda>(directory, _, total_member_bytes).
     and_then (ok_or BucketLengthOverflow (u64_try_from (length records))) (\<lambda>count.
     and_then (ok_or BucketLengthOverflow (u64_try_from directory_bytes)) (\<lambda>directory_bytes.
     let header = segment_header crc count directory_bytes directory in
     and_then (write_hashed hasher header (w, hasher_new hasher)) (\<lambda>state.
     and_then (write_hashed hasher directory state) (\<lambda>(w, outer).
     and_then (fold_result (copy_record hasher) records (w, members, outer)) (\<lambda>(w, members, outer).
     and_then (ok_or BucketLengthOverflow (checked_add member_offset total_member_bytes)) (\<lambda>bytes.
     Ok (\<lparr>sb_bytes = bytes, sb_checksum = hasher_finalize hasher outer\<rparr>, members, w))))))))))))"

lemma copy_loop_healthy:
  "rd_faults r = [] \<Longrightarrow> wr_faults w = [] \<Longrightarrow> rd_pos r + unat remaining \<le> length (rd_bytes r) \<Longrightarrow>
    \<exists>pieces. concat pieces = take (unat remaining) (drop (rd_pos r) (rd_bytes r))
      \<and> copy_loop hasher remaining (w, r, bucket, outer)
        = Ok (w\<lparr>wr_bytes := wr_bytes w @ concat pieces\<rparr>, r\<lparr>rd_pos := rd_pos r + unat remaining\<rparr>,
              fold (hasher_update hasher) pieces bucket, fold (hasher_update hasher) pieces outer)"
proof (induction hasher remaining "(w, r, bucket, outer)" arbitrary: w r bucket outer rule: copy_loop.induct)
  case (1 hasher remaining w r bucket outer)
  show ?case
  proof (cases "remaining = 0")
    case True
    then show ?thesis by (intro exI [of _ "[]"]) (simp add: copy_loop.simps [of hasher 0])
  next
    case False
    define count where "count = unat (min remaining COPY_BUFFER_BYTES_U64)"
    define piece where "piece = take count (drop (rd_pos r) (rd_bytes r))"
    note step = buffer_step [of remaining COPY_BUFFER_BYTES_U64, folded count_def]
    have read: "map_err bucket_io_error (read_exact count r) = Ok (piece, r\<lparr>rd_pos := rd_pos r + count\<rparr>)"
      using "1.prems" step False by (simp add: read_exact_def io_tick_healthy piece_def)
    have wr: "map_err bucket_io_error (write_all piece w) = Ok (w\<lparr>wr_bytes := wr_bytes w @ piece\<rparr>)"
      using "1.prems" by (simp add: write_all_def)
    have eq: "copy_loop hasher remaining (w, r, bucket, outer) = copy_loop hasher (remaining - of_nat count)
        (w\<lparr>wr_bytes := wr_bytes w @ piece\<rparr>, r\<lparr>rd_pos := rd_pos r + count\<rparr>, hasher_update hasher piece bucket, hasher_update hasher piece outer)"
      using False by (subst copy_loop.simps) (simp add: Let_def count_def [symmetric] read wr)
    have rem: "unat (remaining - of_nat count) = unat remaining - count" "count \<le> unat remaining" using step False by simp_all
    from "1.hyps" [OF False count_def read refl wr] "1.prems" rem
    obtain pieces where "concat pieces = take (unat remaining - count) (drop (rd_pos r + count) (rd_bytes r))"
      "copy_loop hasher (remaining - of_nat count)
        (w\<lparr>wr_bytes := wr_bytes w @ piece\<rparr>, r\<lparr>rd_pos := rd_pos r + count\<rparr>, hasher_update hasher piece bucket, hasher_update hasher piece outer)
       = Ok (w\<lparr>wr_bytes := (wr_bytes w @ piece) @ concat pieces\<rparr>, r\<lparr>rd_pos := rd_pos r + count + (unat remaining - count)\<rparr>,
              fold (hasher_update hasher) pieces (hasher_update hasher piece bucket), fold (hasher_update hasher) pieces (hasher_update hasher piece outer))"
      by auto
    then show ?thesis
      using rem(2) take_add_drop [of count "rd_pos r" "rd_bytes r" "unat remaining - count"]
      by (intro exI [of _ "piece # pieces"]) (simp add: eq piece_def)
  qed
qed

definition write_record :: "(bytes \<Rightarrow> u32) \<Rightarrow> bucket_record \<Rightarrow> bucket_write_record" where
  "write_record crc x = \<lparr>bw_key = br_key x, bw_member_count = of_nat (length (br_members x)), bw_member_checksum = crc (member_bytes x)\<rparr>"

lemma checked_mul_count:
  "length ms < 4294967296 \<Longrightarrow> \<exists>m. checked_mul (ucast (of_nat (length ms) :: u32)) (8 :: u64) = Some m \<and> unat m = 8 * length ms"
proof -
  assume "length ms < 4294967296"
  then have "unat (of_nat (length ms) :: u32) = length ms" by (rule unat_of_nat_u32)
  then show ?thesis
    using \<open>length ms < 4294967296\<close> by (simp add: checked_mul_def unat_word_ariths mult.commute)
qed

lemma stream_entries_fold:
  "\<forall>x \<in> set rs. length (br_members x) < 4294967296 \<Longrightarrow> off + 8 * total_members rs < usize_limit \<Longrightarrow> tot + 8 * total_members rs < usize_limit \<Longrightarrow>
    fold_result stream_entry (map (write_record crc) rs) (dir, of_nat off, of_nat tot)
      = Ok (dir @ concat (entries crc off rs), of_nat (off + 8 * total_members rs), of_nat (tot + 8 * total_members rs))"
proof (induction rs arbitrary: dir off tot)
  case (Cons x rs)
  let ?n = "length (br_members x)"
  obtain m where m: "checked_mul (ucast (of_nat ?n :: u32)) (8 :: u64) = Some m" "unat m = 8 * ?n"
    using checked_mul_count Cons.prems(1) by auto
  have o: "unat (of_nat off :: u64) = off" "unat (of_nat tot :: u64) = tot"
    using Cons.prems(2,3) by (auto intro!: unat_of_nat_u64)
  have "m = of_nat (8 * ?n)" using m(2) by (metis word_unat_eq_iff unat_of_nat_u64 unat_u64_less)
  then have add: "checked_add (of_nat off) m = Some (of_nat (off + 8 * ?n))" "checked_add (of_nat tot) m = Some (of_nat (tot + 8 * ?n))"
    using Cons.prems(2,3) m(2) o by (simp_all add: checked_add_nat)
  have "stream_entry (write_record crc x) (dir, of_nat off, of_nat tot)
      = Ok (dir @ directory_entry (br_key x) (of_nat off) (of_nat ?n) (crc (member_bytes x)), of_nat (off + 8 * ?n), of_nat (tot + 8 * ?n))"
    using m(1) add by (simp add: stream_entry_def write_record_def Let_def)
  then show ?case using Cons.IH [of "off + 8 * ?n" "tot + 8 * ?n"] Cons.prems by (simp add: algebra_simps del: of_nat_add)
qed simp

lemma copy_records_fold:
  assumes law: "hasher_law crc hasher"
  shows "\<forall>x \<in> set rs. length (br_members x) < 4294967296 \<Longrightarrow> rd_faults r = [] \<Longrightarrow> wr_faults w = [] \<Longrightarrow> rd_pos r \<le> length (rd_bytes r) \<Longrightarrow>
    drop (rd_pos r) (rd_bytes r) = concat (map member_bytes rs) @ rest \<Longrightarrow>
    \<exists>pieces r'. concat pieces = concat (map member_bytes rs) \<and> fold_result (copy_record hasher) (map (write_record crc) rs) (w, r, outer)
      = Ok (w\<lparr>wr_bytes := wr_bytes w @ concat pieces\<rparr>, r', fold (hasher_update hasher) pieces outer)"
proof (induction rs arbitrary: w r outer)
  case Nil
  then show ?case by (intro exI [of _ "[]"]) simp
next
  case (Cons x rs)
  let ?n = "length (br_members x)"
  obtain m where m: "checked_mul (ucast (of_nat ?n :: u32)) (8 :: u64) = Some m" "unat m = 8 * ?n"
    using checked_mul_count Cons.prems(1) by auto
  have d: "drop (rd_pos r) (rd_bytes r) = member_bytes x @ concat (map member_bytes rs) @ rest" using Cons.prems(5) by simp
  note nxt = drop_prefix [OF Cons.prems(4) d]
  obtain pieces where pieces: "concat pieces = member_bytes x"
    "copy_loop hasher m (w, r, hasher_new hasher, outer)
        = Ok (w\<lparr>wr_bytes := wr_bytes w @ member_bytes x\<rparr>, r\<lparr>rd_pos := rd_pos r + 8 * ?n\<rparr>,
              fold (hasher_update hasher) pieces (hasher_new hasher), fold (hasher_update hasher) pieces outer)"
    using copy_loop_healthy [OF Cons.prems(2,3), of m hasher "hasher_new hasher" outer] nxt(1) d by (auto simp: m(2))
  have "hasher_finalize hasher (fold (hasher_update hasher) pieces (hasher_new hasher)) = crc (member_bytes x)"
    using law pieces(1) by (simp add: hasher_law_def)
  then have step: "copy_record hasher (write_record crc x) (w, r, outer)
      = Ok (w\<lparr>wr_bytes := wr_bytes w @ member_bytes x\<rparr>, r\<lparr>rd_pos := rd_pos r + 8 * ?n\<rparr>, fold (hasher_update hasher) pieces outer)"
    using m(1) pieces(2) by (simp add: copy_record_def write_record_def Let_def)
  from Cons.IH [of "r\<lparr>rd_pos := rd_pos r + 8 * ?n\<rparr>" "w\<lparr>wr_bytes := wr_bytes w @ member_bytes x\<rparr>" "fold (hasher_update hasher) pieces outer"]
  obtain pieces' r' where "concat pieces' = concat (map member_bytes rs)"
    "fold_result (copy_record hasher) (map (write_record crc) rs)
        (w\<lparr>wr_bytes := wr_bytes w @ member_bytes x\<rparr>, r\<lparr>rd_pos := rd_pos r + 8 * ?n\<rparr>, fold (hasher_update hasher) pieces outer)
      = Ok (w\<lparr>wr_bytes := (wr_bytes w @ member_bytes x) @ concat pieces'\<rparr>, r', fold (hasher_update hasher) pieces' (fold (hasher_update hasher) pieces outer))"
    using Cons.prems nxt by auto
  then show ?case
    using pieces(1) by (intro exI [of _ "pieces @ pieces'"] exI [of _ r']) (simp add: step)
qed

lemma write_bucket_segment_ok:
  assumes law: "hasher_law crc hasher" and ok: "segment_ok rs" and r: "rd_faults r = []" "rd_pos r \<le> length (rd_bytes r)"
    "drop (rd_pos r) (rd_bytes r) = concat (map member_bytes rs) @ rest" and w: "wr_faults w = []"
  shows "\<exists>r'. write_bucket_segment crc hasher (map (write_record crc) rs) r w
    = Ok (\<lparr>sb_bytes = of_nat (length (segment crc rs)), sb_checksum = crc (segment crc rs)\<rparr>, r', w\<lparr>wr_bytes := wr_bytes w @ segment crc rs\<rparr>)"
proof -
  note ok' = ok [unfolded segment_ok_def]
  let ?ws = "map (write_record crc) rs" and ?s = "segment_start rs"
  let ?dir = "concat (entries crc ?s rs)"
  let ?h = "segment_header crc (of_nat (length rs)) (of_nat (32 * length rs)) ?dir"
  let ?w = "w\<lparr>wr_bytes := (wr_bytes w @ ?h) @ ?dir\<rparr>" and ?outer = "hasher_update hasher ?dir (hasher_update hasher ?h (hasher_new hasher))"
  have keys: "validate_records ?ws = Ok ()"
    using ok' by (simp add: validate_records_def strictly_ascending_iff write_record_def comp_def)
  have start: "checked_mul_usize (length ?ws) 32 = Some (32 * length rs)" "checked_add_usize 40 (32 * length rs) = Some ?s"
    "u64_try_from ?s = Some (of_nat ?s)" "u64_try_from (length ?ws) = Some (of_nat (length rs))"
    "u64_try_from (32 * length rs) = Some (of_nat (32 * length rs))"
    using ok' by (auto simp: checked_mul_usize_def checked_add_usize_def u64_try_from_def segment_start_def)
  have dir: "fold_result stream_entry ?ws ([], of_nat ?s, 0) = Ok (?dir, of_nat (?s + 8 * total_members rs), of_nat (8 * total_members rs))"
    using stream_entries_fold [of rs ?s 0 crc "[]"] ok' by (simp del: of_nat_add of_nat_mult)
  obtain pieces r' where pieces: "concat pieces = concat (map member_bytes rs)"
    "fold_result (copy_record hasher) ?ws (?w, r, ?outer)
      = Ok (?w\<lparr>wr_bytes := wr_bytes ?w @ concat pieces\<rparr>, r', fold (hasher_update hasher) pieces ?outer)"
    using copy_records_fold [OF law _ r(1) _ r(2,3), of ?w ?outer] ok' w by auto
  have sum: "hasher_finalize hasher (fold (hasher_update hasher) pieces ?outer) = crc (segment crc rs)"
    using law [unfolded hasher_law_def, rule_format, of "?h # ?dir # pieces"] pieces(1) by (simp add: segment_def Let_def)
  have n: "unat (of_nat ?s :: u64) = ?s" "unat (of_nat (8 * total_members rs) :: u64) = 8 * total_members rs"
    by (rule unat_of_nat_u64, use ok' in linarith)+
  have bytes: "checked_add (of_nat ?s) (of_nat (8 * total_members rs)) = Some (of_nat (length (segment crc rs)) :: u64)"
    unfolding checked_add_nat n length_segment using ok' by (simp only: of_nat_add simp_thms)
  show ?thesis
    unfolding write_bucket_segment_def keys and_then.simps start ok_or.simps dir prod.case Let_def
    using w pieces by (simp add: write_hashed_def write_all_def sum bytes segment_def Let_def del: of_nat_add of_nat_mult)
qed

section \<open>Properties\<close>

text \<open>C37: A bucket segment that was encoded and stored as a required Buckets section is decoded to one location
  per bucket, in order and with the bucket's key, and reading the members of a location, in any
  order and at any time, returns exactly the member keys that were encoded for that bucket.\<close>

theorem bucket_segment_roundtrip:
  assumes "encode_bucket_segment crc records = Ok payload" and "section_holds layout d (rd_bytes r) payload"
    and "rd_faults r = []" and "sd_kind d = Buckets" and "sd_required d" and "bands < 2 ^ 32"
    and "\<forall>x \<in> set records. unat (bk_band (br_key x)) < bands"
  shows "\<exists>locs r'. decode_bucket_segment crc layout d bands r = Ok (locs, r')
    \<and> map bl_key locs = map br_key records
    \<and> list_all2 (\<lambda>l x. \<exists>r''. read_bucket_members crc layout l r = Ok (br_members x, r'')) locs records"
proof -
  have ok: "segment_ok records" "payload = segment crc records" using assms(1) unfolding encode_bucket_segment_Ok by blast+
  let ?locs = "locations crc d (segment_start records) records"
  obtain r' where "decode_bucket_segment crc layout d bands r = Ok (?locs, r')"
    using decode_segment [OF ok(1) _ assms(3-5) _ assms(7)] assms(2,6) ok(2) by auto
  moreover have "drop (segment_start records) (segment crc records) = concat (map member_bytes records)"
    by (simp add: segment_def Let_def segment_start_def)
  then have "list_all2 (\<lambda>l x. \<exists>r''. read_bucket_members crc layout l r = Ok (br_members x, r'')) ?locs records"
    using ok assms(2,3) by (intro read_all_members) (auto simp: segment_ok_def length_segment)
  ultimately show ?thesis by fastforce
qed

text \<open>C38: Every accepted bucket directory is well formed, whatever the bytes of the file and whatever I/O faults
  occurred: the keys are strictly ascending and their bands are bands of the index, all locations
  point into the section that was decoded, and their member ranges follow each other without gap
  or overlap from the end of the directory exactly to the end of the section.\<close>

theorem accepted_directory_wf:
  assumes "decode_bucket_segment crc layout d bands r = Ok (locs, r')"
  shows "sorted_wrt (<) (map bl_key locs)
    \<and> (\<forall>l \<in> set locs. bl_section l = d \<and> unat (bk_band (bl_key l)) < bands)
    \<and> contiguous (40 + 32 * length locs) locs (unat (sd_payload_length d))"
proof -
  from assms obtain count bytes directory where n: "unat bytes < usize_limit - 40" "unat (count :: u64) * 32 = unat (bytes :: u64)"
    and dir: "decode_directory_entries d directory (unat count) (40 + bytes) bands = Ok locs"
    by (auto simp: decode_bucket_segment_def res_simps Let_def checked_mul_usize_def checked_add_usize_def u64_try_from_def
        split: if_splits)
  have "unat (40 + bytes) = 40 + unat bytes" using n(1) by (simp add: unat_plus_u64)
  with decode_directory_Ok [OF dir] n(2) show ?thesis by (auto simp: mult.commute)
qed

text \<open>C39: The streaming writer is the in-memory encoder: fed with the directory metadata and the concatenated
  member bytes of records that the encoder accepts, it appends to its sink exactly the bytes the
  encoder returns and reports their length and checksum, through a buffer of 64 KiB.\<close>

theorem streaming_writer_equivalent:
  assumes "hasher_law crc hasher" and "encode_bucket_segment crc records = Ok payload"
    and "rd_faults r = []" and "rd_pos r \<le> length (rd_bytes r)"
    and "drop (rd_pos r) (rd_bytes r) = concat (map member_bytes records) @ rest" and "wr_faults w = []"
  shows "\<exists>r'. write_bucket_segment crc hasher (map (write_record crc) records) r w
    = Ok (\<lparr>sb_bytes = of_nat (length payload), sb_checksum = crc payload\<rparr>, r', w\<lparr>wr_bytes := wr_bytes w @ payload\<rparr>)"
proof -
  have ok: "segment_ok records" "payload = segment crc records" using assms(2) unfolding encode_bucket_segment_Ok by blast+
  show ?thesis unfolding ok(2) by (rule write_bucket_segment_ok [OF assms(1) ok(1) assms(3-6)])
qed

section \<open>Instances\<close>

definition example_records :: "bucket_record list" where
  "example_records = [\<lparr>br_key = BucketKey 0 5, br_members = [7, 9]\<rparr>, \<lparr>br_key = BucketKey 1 3, br_members = [7]\<rparr>]"

definition example_section :: section_descriptor where
  "example_section = \<lparr>sd_kind = Buckets, sd_required = True, sd_payload_offset = 0, sd_payload_length = 128, sd_checksum = 0\<rparr>"

definition example_layout :: file_layout where
  "example_layout = \<lparr>fl_metadata = if_metadata example_file, fl_sections = [example_section], fl_file_length = 128\<rparr>"

lemma example_segment_ok: "segment_ok example_records"
  by (simp add: segment_ok_def example_records_def segment_start_def less_bucket_key_def)

lemma example_section_holds: "section_holds example_layout example_section (segment example_crc example_records) (segment example_crc example_records)"
  by (simp add: section_holds_def length_segment example_section_def example_layout_def)
    (simp add: segment_start_def example_records_def)

theorem bucket_segment_roundtrip_witness:
  "\<exists>payload locs r'. encode_bucket_segment example_crc example_records = Ok payload
     \<and> decode_bucket_segment example_crc example_layout example_section 2 \<lparr>rd_bytes = payload, rd_pos = 0, rd_faults = []\<rparr> = Ok (locs, r')
     \<and> map bl_key locs = [BucketKey 0 5, BucketKey 1 3]"
proof -
  have enc: "encode_bucket_segment example_crc example_records = Ok (segment example_crc example_records)"
    by (rule encode_bucket_segment_ok [OF example_segment_ok])
  show ?thesis
    using bucket_segment_roundtrip [OF enc, of example_layout example_section
        "\<lparr>rd_bytes = segment example_crc example_records, rd_pos = 0, rd_faults = []\<rparr>" 2] example_section_holds enc
    by (auto simp: example_section_def example_records_def)
qed

theorem accepted_directory_wf_witness:
  "\<exists>payload locs r'. decode_bucket_segment example_crc example_layout example_section 2 \<lparr>rd_bytes = payload, rd_pos = 0, rd_faults = []\<rparr> = Ok (locs, r')
     \<and> contiguous (40 + 32 * length locs) locs 128"
proof -
  obtain locs r' where "decode_bucket_segment example_crc example_layout example_section 2
      \<lparr>rd_bytes = segment example_crc example_records, rd_pos = 0, rd_faults = []\<rparr> = Ok (locs, r')"
    using decode_segment [OF example_segment_ok, of example_layout example_section
        "\<lparr>rd_bytes = segment example_crc example_records, rd_pos = 0, rd_faults = []\<rparr>" example_crc 2] example_section_holds
    by (auto simp: example_section_def example_records_def)
  with accepted_directory_wf [OF this] show ?thesis by (auto simp: example_section_def)
qed

theorem streaming_writer_equivalent_witness:
  "\<exists>r'. write_bucket_segment example_crc example_hasher (map (write_record example_crc) example_records)
      \<lparr>rd_bytes = concat (map member_bytes example_records), rd_pos = 0, rd_faults = []\<rparr> \<lparr>wr_bytes = [], wr_faults = []\<rparr>
    = Ok (\<lparr>sb_bytes = of_nat (length (segment example_crc example_records)), sb_checksum = example_crc (segment example_crc example_records)\<rparr>,
          r', \<lparr>wr_bytes = segment example_crc example_records, wr_faults = []\<rparr>)"
  using streaming_writer_equivalent [OF example_hasher_law encode_bucket_segment_ok [OF example_segment_ok],
      of "\<lparr>rd_bytes = concat (map member_bytes example_records), rd_pos = 0, rd_faults = []\<rparr>" "[]" "\<lparr>wr_bytes = [], wr_faults = []\<rparr>"]
  by simp

end
