(* ===== verification/Pari_Bands.thy ===== *)
theory Pari_Bands
  imports Pari_Lsh Pari_Buckets
begin

text \<open>
  Band hashes as bucket keys. \<open>IndexData\<close> keeps one table per band; backends and stored files key their
  buckets by the pair of band number and hash. The lemmas relate the two views: the keys that share
  a band with a query are the members of the buckets of the query.
\<close>

section \<open>Bucket keys\<close>

definition bucket_keys :: "u64 list \<Rightarrow> bucket_key list" where
  "bucket_keys hs = map (\<lambda>(band, hash). BucketKey (of_nat band) hash) (List.enumerate 0 hs)"

lemma enumerate_nth: "List.enumerate 0 hs = map (\<lambda>i. (i, hs ! i)) [0..<length hs]"
  by (rule nth_equalityI) (simp_all add: nth_enumerate_eq)

lemma enumerate_bands: "length hs < 4294967296 \<Longrightarrow> \<forall>(band, hash) \<in> set (List.enumerate 0 hs). band < 4294967296"
  by (auto simp: in_set_enumerate_eq)

text \<open>The members of one bucket of an abstract index.\<close>

definition bucket_of :: "(u64 \<rightharpoonup> u64 list) \<Rightarrow> bucket_key \<Rightarrow> u64 set" where
  "bucket_of m b = {k. \<exists>hs. m k = Some hs \<and> unat (bk_band b) < length hs \<and> hs ! unat (bk_band b) = bk_hash b}"

lemma band_matches_buckets:
  assumes "length hs < 4294967296"
  shows "(\<Union>b \<in> set (bucket_keys hs). bucket_of m b) = band_matches m hs"
proof -
  have bucket_keys_eq: "set (bucket_keys hs) = (\<lambda>i. BucketKey (of_nat i) (hs ! i)) ` {..<length hs}"
    by (auto simp: bucket_keys_def enumerate_nth)
  have "bucket_of m (BucketKey (of_nat i) h) = {k. \<exists>gs. m k = Some gs \<and> i < length gs \<and> gs ! i = h}" if "i < length hs" for i h
    using that assms unat_of_nat_u32 [of i] by (auto simp: bucket_of_def)
  then have "(\<Union>b \<in> set (bucket_keys hs). bucket_of m b)
      = (\<Union>i \<in> {..<length hs}. {k. \<exists>gs. m k = Some gs \<and> i < length gs \<and> gs ! i = hs ! i})"
    by (simp add: bucket_keys_eq)
  also have "\<dots> = band_matches m hs" unfolding band_matches_def shares_band_nth by fastforce
  finally show ?thesis .
qed

lemma dom_hm_get: "dom (hm_get m) = fst ` set m"
proof -
  have "hm_get m = map_of m" by (rule ext) (rule hm_get_def)
  then show ?thesis by (simp add: dom_map_of_conv_image_fst)
qed

lemma finite_bucket_of: "finite (dom f) \<Longrightarrow> finite (bucket_of f b)"
  by (rule finite_subset [of _ "dom f"]) (auto simp: bucket_of_def)

lemma bucket_keys_mem:
  assumes "length hs < 4294967296"
  shows "b \<in> set (bucket_keys hs) \<longleftrightarrow> unat (bk_band b) < length hs \<and> hs ! unat (bk_band b) = bk_hash b"
proof -
  have "unat (of_nat i :: u32) = i" if "i < length hs" for i using that assms by (simp add: unat_of_nat_u32)
  then show ?thesis
    by (cases b) (auto simp: bucket_keys_def enumerate_nth image_iff intro!: bexI [of _ "unat (bk_band b)"])
qed

lemma bucket_of_upd:
  "length hs < 4294967296 \<Longrightarrow> f k = None \<Longrightarrow>
    bucket_of (f(k \<mapsto> hs)) b = (if b \<in> set (bucket_keys hs) then insert k (bucket_of f b) else bucket_of f b)"
  by (auto simp: bucket_of_def bucket_keys_mem)

lemma bucket_of_del: "bucket_of (f(k := None)) b = bucket_of f b - {k}"
  by (auto simp: bucket_of_def)

lemma bucket_of_key:
  "length hs < 4294967296 \<Longrightarrow> f k = Some hs \<Longrightarrow> k \<in> bucket_of f b \<longleftrightarrow> b \<in> set (bucket_keys hs)"
  by (auto simp: bucket_of_def bucket_keys_mem)

lemma keys_of_enumerate: "(\<lambda>(band, hash). BucketKey (of_nat band) hash) ` set (List.enumerate 0 hs) = set (bucket_keys hs)"
  by (simp add: bucket_keys_def)

end
