(* ===== verification/Pari_Backend.thy ===== *)
theory Pari_Backend
  imports Pari_Bands Pari_Codec
begin

text \<open>
  Crate \<open>pari-backend\<close> (\<open>crates/pari-backend/src/lib.rs\<close>): capabilities, index descriptors and their byte
  encoding, the trait \<open>StorageBackend\<close>, the batch-first index \<open>BackendIndex32\<close> over any backend, and
  the in-process \<open>MemoryBackend\<close>. The trait is a record of operations over a state type; an
  operation with \<open>&mut self\<close> returns its result together with the state it leaves, also when it
  fails. A \<open>BTreeSet\<close> is a strictly ascending list. Error texts are constructors that carry the
  values the text shows.

  The locale \<open>backend_contract\<close> states what the trait documents: order-preserving membership tests,
  atomic batch insertion, bucket reads in request order, deletion that counts each key once. The
  lemmas on \<open>BackendIndex32\<close> are proved from it, and it is interpreted on \<open>MemoryBackend\<close>.
\<close>

unbundle bit_operations_syntax

section \<open>Capabilities\<close>

datatype backend_capability = BatchRead | BatchWrite | Delete | Flush | Ttl | Health | Remote

record backend_capabilities =
  mask :: u8

fun capability_flag :: "backend_capability \<Rightarrow> u8" where
  "capability_flag BatchRead = push_bit 0 1"
| "capability_flag BatchWrite = push_bit 1 1"
| "capability_flag Delete = push_bit 2 1"
| "capability_flag Flush = push_bit 3 1"
| "capability_flag Ttl = push_bit 4 1"
| "capability_flag Health = push_bit 5 1"
| "capability_flag Remote = push_bit 6 1"

definition capabilities_empty :: backend_capabilities where
  "capabilities_empty = \<lparr>mask = 0\<rparr>"

definition capabilities_with :: "backend_capability \<Rightarrow> backend_capabilities \<Rightarrow> backend_capabilities" where
  "capabilities_with c caps = \<lparr>mask = mask caps OR capability_flag c\<rparr>"

definition capabilities_supports :: "backend_capability \<Rightarrow> backend_capabilities \<Rightarrow> bool" where
  "capabilities_supports c caps \<longleftrightarrow> mask caps AND capability_flag c \<noteq> 0"

definition MEMORY_CAPABILITIES :: backend_capabilities where
  "MEMORY_CAPABILITIES = \<lparr>mask = capability_flag BatchRead OR capability_flag BatchWrite
     OR capability_flag Delete OR capability_flag Flush OR capability_flag Health\<rparr>"

section \<open>Descriptors and errors\<close>

abbreviation MAX_RETENTION_SECONDS :: u64 where
  "MAX_RETENTION_SECONDS \<equiv> 9007199254740991"

record duration =
  as_secs :: u64
  subsec_nanos :: u32

record index_descriptor =
  de_threshold :: f64
  de_num_perm :: usize
  de_seed :: u64
  de_params :: lsh_params
  de_retention :: "duration option"

datatype corrupt_reason =
    BandHashCount usize usize
  | BucketRows usize usize
  | NoContainsResult
  | ContainsResults usize usize
  | DescriptorLength usize
  | DescriptorMagic
  | DescriptorTruncated
  | DescriptorWidth
  | OtherReason string

datatype backend_error =
    AlreadyExists
  | NotFound
  | DuplicateKey u64
  | UnsupportedCapability backend_capability
  | InvalidRetention
  | InvalidDescriptor lsh_error
  | InvalidNamespace string
  | CorruptData corrupt_reason
  | LengthOverflow
  | Codec codec_error
  | Transport string string

datatype backend_index_error = IndexError lsh_error | BackendFailure backend_error

definition invalid_retention :: "duration \<Rightarrow> bool" where
  "invalid_retention value \<longleftrightarrow> as_secs value = 0 \<or> subsec_nanos value \<noteq> 0 \<or> MAX_RETENTION_SECONDS < as_secs value"

definition index_descriptor_new ::
  "f64 \<Rightarrow> usize \<Rightarrow> u64 \<Rightarrow> lsh_params \<Rightarrow> duration option \<Rightarrow> (index_descriptor, backend_error) result" where
  "index_descriptor_new threshold num_perm seed params retention =
     and_then (err_if (case retention of None \<Rightarrow> False | Some value \<Rightarrow> invalid_retention value) InvalidRetention) (\<lambda>_.
     and_then (map_err InvalidDescriptor (index_with_params threshold num_perm seed params)) (\<lambda>_.
     Ok \<lparr>de_threshold = threshold, de_num_perm = num_perm, de_seed = seed, de_params = params,
         de_retention = retention\<rparr>))"

record stored_item =
  si_key :: u64
  si_band_hashes :: "u64 list"

record backend_stats =
  bs_items :: u64
  bs_bucket_memberships :: u64
  bs_round_trips :: u64
  bs_ttl_seconds_remaining :: "u64 option"
  bs_bucket_distribution :: "bucket_distribution option"
  bs_queries :: "query_metrics option"

section \<open>The trait\<close>

record 's storage_backend =
  sb_capabilities :: "'s \<Rightarrow> backend_capabilities"
  sb_initialize :: "index_descriptor \<Rightarrow> 's \<Rightarrow> (unit, backend_error) result \<times> 's"
  sb_load_descriptor :: "'s \<Rightarrow> (index_descriptor, backend_error) result \<times> 's"
  sb_contains_many :: "u64 list \<Rightarrow> 's \<Rightarrow> (bool list, backend_error) result \<times> 's"
  sb_insert_many :: "stored_item list \<Rightarrow> 's \<Rightarrow> (unit, backend_error) result \<times> 's"
  sb_query_buckets :: "bucket_key list \<Rightarrow> 's \<Rightarrow> (u64 list list, backend_error) result \<times> 's"
  sb_delete_many :: "u64 list \<Rightarrow> 's \<Rightarrow> (usize, backend_error) result \<times> 's"
  sb_flush :: "'s \<Rightarrow> (unit, backend_error) result \<times> 's"
  sb_health :: "'s \<Rightarrow> (unit, backend_error) result \<times> 's"
  sb_stats :: "'s \<Rightarrow> (backend_stats, backend_error) result \<times> 's"
  sb_cleanup :: "'s \<Rightarrow> (unit, backend_error) result \<times> 's"

section \<open>Band hashes\<close>

definition backend_avalanche64 :: "u64 \<Rightarrow> u64" where
  "backend_avalanche64 value =
     (let value = value XOR drop_bit 33 value;
          value = value * 0xFF51AFD7ED558CCD;
          value = value XOR drop_bit 33 value;
          value = value * 0xC4CEB9FE1A85EC53
      in value XOR drop_bit 33 value)"

definition backend_hash_band :: "u32 list \<Rightarrow> (u64, 'e) result" where
  "backend_hash_band values =
     (let hash = fold (\<lambda>value hash. (hash XOR ucast value) * 0x00000100000001B3) values 0xCBF29CE484222325
      in and_then (expect (u64_try_from (length values))) (\<lambda>n. Ok (backend_avalanche64 (hash XOR n))))"

section \<open>BackendIndex32\<close>

record 's backend_index =
  bi_backend :: 's
  bi_descriptor :: index_descriptor
  bi_query_metrics :: "query_metrics option"
  bi_known_items :: "usize option"

text \<open>A call of a backend operation from the index.\<close>

definition call :: "('s \<Rightarrow> ('a, backend_error) result \<times> 's) \<Rightarrow> 's backend_index \<Rightarrow> ('a, backend_index_error) result \<times> 's backend_index" where
  "call operation index = (let (r, s) = operation (bi_backend index) in (map_err BackendFailure r, index\<lparr>bi_backend := s\<rparr>))"

definition validate_retention_capability :: "'s storage_backend \<Rightarrow> 's \<Rightarrow> index_descriptor \<Rightarrow> (unit, backend_error) result" where
  "validate_retention_capability B backend descriptor =
     err_if (de_retention descriptor \<noteq> None \<and> \<not> capabilities_supports Ttl (sb_capabilities B backend))
       (UnsupportedCapability Ttl)"

definition backend_create_with_params ::
  "'s storage_backend \<Rightarrow> 's \<Rightarrow> f64 \<Rightarrow> usize \<Rightarrow> u64 \<Rightarrow> lsh_params \<Rightarrow> duration option
     \<Rightarrow> ('s backend_index, backend_index_error) result" where
  "backend_create_with_params B backend threshold num_perm seed params retention =
     and_then (map_err BackendFailure (index_descriptor_new threshold num_perm seed params retention)) (\<lambda>descriptor.
     and_then (map_err BackendFailure (validate_retention_capability B backend descriptor)) (\<lambda>_.
     let (r, backend) = sb_initialize B descriptor backend
     in and_then (map_err BackendFailure r) (\<lambda>_.
        Ok \<lparr>bi_backend = backend, bi_descriptor = descriptor, bi_query_metrics = None, bi_known_items = Some 0\<rparr>)))"

definition backend_create ::
  "(f64 \<Rightarrow> f64 \<Rightarrow> f64) \<Rightarrow> 's storage_backend \<Rightarrow> 's \<Rightarrow> f64 \<Rightarrow> usize \<Rightarrow> u64 \<Rightarrow> duration option
     \<Rightarrow> ('s backend_index, backend_index_error) result" where
  "backend_create pow B backend threshold num_perm seed retention =
     and_then (map_err IndexError (index_new pow threshold num_perm seed)) (\<lambda>reference.
     backend_create_with_params B backend threshold num_perm seed (idx_params reference) retention)"

definition backend_open :: "'s storage_backend \<Rightarrow> 's \<Rightarrow> ('s backend_index, backend_index_error) result" where
  "backend_open B backend =
     (let (r, backend) = sb_load_descriptor B backend
      in and_then (map_err BackendFailure r) (\<lambda>descriptor.
         and_then (map_err IndexError (index_with_params (de_threshold descriptor) (de_num_perm descriptor)
           (de_seed descriptor) (de_params descriptor))) (\<lambda>_.
         and_then (map_err BackendFailure (validate_retention_capability B backend descriptor)) (\<lambda>_.
         Ok \<lparr>bi_backend = backend, bi_descriptor = descriptor, bi_query_metrics = None, bi_known_items = None\<rparr>))))"

definition backend_band_hashes :: "index_descriptor \<Rightarrow> minhash32 \<Rightarrow> (u64 list, lsh_error) result" where
  "backend_band_hashes descriptor sketch =
     (if mh_seed sketch \<noteq> de_seed descriptor
      then Err (lsh_error.IncompatibleSeed (de_seed descriptor) (mh_seed sketch))
      else if length (hashvalues sketch) \<noteq> de_num_perm descriptor
      then Err (lsh_error.IncompatiblePermutationCount (de_num_perm descriptor) (length (hashvalues sketch)))
      else and_then (expect (used_permutations (de_params descriptor))) (\<lambda>used.
           and_then (expect (slice_get (hashvalues sketch) 0 used)) (\<lambda>prefix.
           try_map backend_hash_band (chunks_exact (p_rows (de_params descriptor)) prefix))))"

text \<open>The loop of \<open>insert_many\<close> that prepares the records; \<open>seen\<close> and \<open>stored\<close> are its locals.\<close>

fun prepare_items :: "index_descriptor \<Rightarrow> (u64 \<times> minhash32) list \<Rightarrow> u64 list \<Rightarrow> stored_item list
    \<Rightarrow> (stored_item list, backend_index_error) result" where
  "prepare_items descriptor [] seen stored = Ok stored"
| "prepare_items descriptor ((key, sketch) # items) seen stored =
     (if key \<in> set seen then Err (BackendFailure (DuplicateKey key))
      else and_then (map_err IndexError (backend_band_hashes descriptor sketch)) (\<lambda>hashes.
           prepare_items descriptor items (List.insert key seen)
             (stored @ [\<lparr>si_key = key, si_band_hashes = hashes\<rparr>])))"

definition backend_insert_many ::
  "'s storage_backend \<Rightarrow> (u64 \<times> minhash32) list \<Rightarrow> 's backend_index
     \<Rightarrow> (unit, backend_index_error) result \<times> 's backend_index" where
  "backend_insert_many B items index =
     st_then (prepare_items (bi_descriptor index) items [] [], index) (\<lambda>stored index.
     st_then (call (sb_insert_many B stored) index) (\<lambda>_ index.
     (Ok (), index\<lparr>bi_known_items := map_option (\<lambda>n. saturating_add_usize n (length stored)) (bi_known_items index)\<rparr>)))"

definition backend_insert ::
  "'s storage_backend \<Rightarrow> u64 \<Rightarrow> minhash32 \<Rightarrow> 's backend_index \<Rightarrow> (unit, backend_index_error) result \<times> 's backend_index" where
  "backend_insert B key sketch index = backend_insert_many B [(key, sketch)] index"

text \<open>The first half of \<open>query_many\<close>: every bucket is requested once; a query is the list of
  the positions of its buckets in the request.\<close>

type_synonym request = "(bucket_key, usize) btreemap \<times> bucket_key list"

definition bucket_position :: "bucket_key \<Rightarrow> request \<Rightarrow> usize \<times> request" where
  "bucket_position bucket req =
     (let (unique_positions, unique_buckets) = req
      in case map_of unique_positions bucket of
           Some position \<Rightarrow> (position, req)
         | None \<Rightarrow> let position = length unique_buckets
                   in (position, bt_insert bucket position unique_positions, unique_buckets @ [bucket]))"

definition request_band :: "nat \<times> u64 \<Rightarrow> usize list \<times> request \<Rightarrow> (usize list \<times> request, backend_index_error) result" where
  "request_band entry st =
     (let (band, hash) = entry; (positions, req) = st
      in and_then (ok_or (BackendFailure LengthOverflow) (u32_try_from band)) (\<lambda>band.
         let (position, req) = bucket_position (BucketKey band hash) req
         in Ok (positions @ [position], req)))"

definition request_sketch :: "index_descriptor \<Rightarrow> minhash32 \<Rightarrow> usize list list \<times> request
    \<Rightarrow> (usize list list \<times> request, backend_index_error) result" where
  "request_sketch descriptor sketch st =
     (let (query_positions, req) = st
      in and_then (map_err IndexError (backend_band_hashes descriptor sketch)) (\<lambda>hashes.
         and_then (fold_result request_band (List.enumerate 0 hashes) ([], req)) (\<lambda>(positions, req).
         Ok (query_positions @ [positions], req))))"

text \<open>The second half: the members of the buckets of each query, ascending.\<close>

definition gather_query :: "u64 list list \<Rightarrow> usize list \<Rightarrow> u64 list list \<times> usize
    \<Rightarrow> (u64 list list \<times> usize, backend_index_error) result" where
  "gather_query bucket_members positions st =
     (let (output, candidate_count) = st
      in and_then (fold_result (\<lambda>position candidates.
             if position < length bucket_members then Ok (hs_extend (bucket_members ! position) candidates) else Panic)
           positions []) (\<lambda>candidates.
         let keys = sort candidates
         in Ok (output @ [keys], saturating_add_usize candidate_count (length keys))))"

definition backend_query_many ::
  "'s storage_backend \<Rightarrow> minhash32 list \<Rightarrow> nat \<Rightarrow> 's backend_index
     \<Rightarrow> (u64 list list, backend_index_error) result \<times> 's backend_index" where
  "backend_query_many B sketches elapsed index =
     st_then (fold_result (request_sketch (bi_descriptor index)) sketches ([], [], []), index)
       (\<lambda>(query_positions, unique_positions, unique_buckets) index.
     if query_positions = [] then (Ok [], index)
     else st_then (call (sb_query_buckets B unique_buckets) index) (\<lambda>bucket_members index.
       if length bucket_members \<noteq> length unique_buckets
       then (Err (BackendFailure (CorruptData (BucketRows (length bucket_members) (length unique_buckets)))), index)
       else st_then (fold_result (gather_query bucket_members) query_positions ([], 0), index)
         (\<lambda>(output, candidate_count) index.
         let possible = (case bi_known_items index of None \<Rightarrow> 0 | Some items \<Rightarrow> saturating_mul_usize items (length output))
         in (Ok output, index\<lparr>bi_query_metrics :=
               map_option (query_metrics_record (length output) candidate_count possible elapsed) (bi_query_metrics index)\<rparr>))))"

definition backend_query ::
  "'s storage_backend \<Rightarrow> minhash32 \<Rightarrow> nat \<Rightarrow> 's backend_index \<Rightarrow> (u64 list, backend_index_error) result \<times> 's backend_index" where
  "backend_query B sketch elapsed index =
     st_then (backend_query_many B [sketch] elapsed index) (\<lambda>results index.
     (Ok (if results = [] then [] else last results), index))"

definition backend_remove :: "'s storage_backend \<Rightarrow> u64 \<Rightarrow> 's backend_index \<Rightarrow> (bool, backend_index_error) result \<times> 's backend_index" where
  "backend_remove B key index =
     st_then (call (sb_delete_many B [key]) index) (\<lambda>n index.
     let removed = (n = 1)
     in (Ok removed, if removed then index\<lparr>bi_known_items := map_option (\<lambda>n. n - 1) (bi_known_items index)\<rparr> else index))"

definition backend_remove_many ::
  "'s storage_backend \<Rightarrow> u64 list \<Rightarrow> 's backend_index \<Rightarrow> (usize, backend_index_error) result \<times> 's backend_index" where
  "backend_remove_many B keys index =
     (let keys = fold insort_insert keys []
      in st_then (call (sb_delete_many B keys) index) (\<lambda>removed index.
         (Ok removed, index\<lparr>bi_known_items := map_option (\<lambda>n. n - removed) (bi_known_items index)\<rparr>)))"

definition backend_contains_many ::
  "'s storage_backend \<Rightarrow> u64 list \<Rightarrow> 's backend_index \<Rightarrow> (bool list, backend_index_error) result \<times> 's backend_index" where
  "backend_contains_many B keys index =
     st_then (call (sb_contains_many B keys) index) (\<lambda>values index.
     if length values \<noteq> length keys
     then (Err (BackendFailure (CorruptData (ContainsResults (length values) (length keys)))), index)
     else (Ok values, index))"

definition backend_contains :: "'s storage_backend \<Rightarrow> u64 \<Rightarrow> 's backend_index \<Rightarrow> (bool, backend_index_error) result \<times> 's backend_index" where
  "backend_contains B key index =
     st_then (backend_contains_many B [key] index) (\<lambda>values index.
     (case values of [] \<Rightarrow> Err (BackendFailure (CorruptData NoContainsResult)) | value # _ \<Rightarrow> Ok value, index))"

definition backend_flush :: "'s storage_backend \<Rightarrow> 's backend_index \<Rightarrow> (unit, backend_index_error) result \<times> 's backend_index" where
  "backend_flush B index = call (sb_flush B) index"

definition backend_health :: "'s storage_backend \<Rightarrow> 's backend_index \<Rightarrow> (unit, backend_index_error) result \<times> 's backend_index" where
  "backend_health B index = call (sb_health B) index"

definition backend_stats_of :: "'s storage_backend \<Rightarrow> 's backend_index \<Rightarrow> (backend_stats, backend_index_error) result \<times> 's backend_index" where
  "backend_stats_of B index =
     st_then (call (sb_stats B) index) (\<lambda>stats index.
     (Ok (stats\<lparr>bs_queries := bi_query_metrics index\<rparr>), index\<lparr>bi_known_items := Some (unat (bs_items stats))\<rparr>))"

definition backend_set_observability :: "bool \<Rightarrow> 's backend_index \<Rightarrow> 's backend_index" where
  "backend_set_observability enabled index =
     index\<lparr>bi_query_metrics := if enabled then Some query_metrics_default else None\<rparr>"

definition backend_cleanup :: "'s storage_backend \<Rightarrow> 's backend_index \<Rightarrow> (unit, backend_index_error) result" where
  "backend_cleanup B index = fst (call (sb_cleanup B) index)"

section \<open>MemoryBackend\<close>

record memory =
  mb_descriptor :: "index_descriptor option"
  mb_records :: "(u64, u64 list) hashmap"
  mb_buckets :: "(bucket_key, u64 list) btreemap"

definition memory_new :: memory where
  "memory_new = \<lparr>mb_descriptor = None, mb_records = [], mb_buckets = []\<rparr>"

definition memory_initialize :: "index_descriptor \<Rightarrow> memory \<Rightarrow> (unit, backend_error) result \<times> memory" where
  "memory_initialize descriptor m =
     (if mb_descriptor m \<noteq> None \<or> mb_records m \<noteq> [] \<or> mb_buckets m \<noteq> [] then (Err AlreadyExists, m)
      else if de_retention descriptor \<noteq> None then (Err (UnsupportedCapability Ttl), m)
      else (Ok (), m\<lparr>mb_descriptor := Some descriptor\<rparr>))"

definition memory_load_descriptor :: "memory \<Rightarrow> (index_descriptor, backend_error) result \<times> memory" where
  "memory_load_descriptor m = (ok_or NotFound (mb_descriptor m), m)"

definition memory_contains_many :: "u64 list \<Rightarrow> memory \<Rightarrow> (bool list, backend_error) result \<times> memory" where
  "memory_contains_many keys m = (Ok (map (hm_contains (mb_records m)) keys), m)"

fun memory_validate :: "usize \<Rightarrow> memory \<Rightarrow> stored_item list \<Rightarrow> u64 list \<Rightarrow> (unit, backend_error) result" where
  "memory_validate expected_bands m [] seen = Ok ()"
| "memory_validate expected_bands m (item # items) seen =
     (if length (si_band_hashes item) \<noteq> expected_bands
      then Err (CorruptData (BandHashCount (length (si_band_hashes item)) expected_bands))
      else if hm_contains (mb_records m) (si_key item) \<or> si_key item \<in> set seen
      then Err (DuplicateKey (si_key item))
      else memory_validate expected_bands m items (List.insert (si_key item) seen))"

definition bucket_add :: "u64 \<Rightarrow> nat \<times> u64 \<Rightarrow> memory \<Rightarrow> (unit, backend_error) result \<times> memory" where
  "bucket_add key entry m =
     (let (band, hash) = entry
      in st_then (ok_or LengthOverflow (u32_try_from band), m) (\<lambda>band m.
         let bucket = BucketKey band hash;
             members = (case map_of (mb_buckets m) bucket of None \<Rightarrow> [] | Some members \<Rightarrow> members)
         in (Ok (), m\<lparr>mb_buckets := bt_insert bucket (insort_insert key members) (mb_buckets m)\<rparr>)))"

definition memory_add :: "stored_item \<Rightarrow> memory \<Rightarrow> (unit, backend_error) result \<times> memory" where
  "memory_add item m =
     st_fold (bucket_add (si_key item)) (List.enumerate 0 (si_band_hashes item))
       (m\<lparr>mb_records := hm_insert (si_key item) (si_band_hashes item) (mb_records m)\<rparr>)"

definition memory_insert_many :: "stored_item list \<Rightarrow> memory \<Rightarrow> (unit, backend_error) result \<times> memory" where
  "memory_insert_many items m =
     st_then (ok_or NotFound (mb_descriptor m), m) (\<lambda>descriptor m.
     st_then (memory_validate (p_bands (de_params descriptor)) m items [], m) (\<lambda>_ m.
     st_fold memory_add items m))"

definition memory_query_buckets :: "bucket_key list \<Rightarrow> memory \<Rightarrow> (u64 list list, backend_error) result \<times> memory" where
  "memory_query_buckets bs m =
     (Ok (map (\<lambda>bucket. case map_of (mb_buckets m) bucket of None \<Rightarrow> [] | Some members \<Rightarrow> members) bs), m)"

definition bucket_drop :: "u64 \<Rightarrow> nat \<times> u64 \<Rightarrow> memory \<Rightarrow> (unit, backend_error) result \<times> memory" where
  "bucket_drop key entry m =
     (let (band, hash) = entry
      in st_then (ok_or LengthOverflow (u32_try_from band), m) (\<lambda>band m.
         let bucket = BucketKey band hash
         in case map_of (mb_buckets m) bucket of
              None \<Rightarrow> (Ok (), m)
            | Some members \<Rightarrow>
                let members = removeAll key members;
                    m = m\<lparr>mb_buckets := bt_insert bucket members (mb_buckets m)\<rparr>
                in (Ok (), if members = [] then m\<lparr>mb_buckets := bt_remove bucket (mb_buckets m)\<rparr> else m)))"

fun delete_loop :: "u64 list \<Rightarrow> usize \<Rightarrow> memory \<Rightarrow> (usize, backend_error) result \<times> memory" where
  "delete_loop [] removed m = (Ok removed, m)"
| "delete_loop (key # keys) removed m =
     (case hm_get (mb_records m) key of
        None \<Rightarrow> delete_loop keys removed m
      | Some hashes \<Rightarrow>
          st_then (st_fold (bucket_drop key) (List.enumerate 0 hashes)
                     (m\<lparr>mb_records := hm_remove key (mb_records m)\<rparr>))
            (\<lambda>_ m. delete_loop keys (removed + 1) m))"

definition memory_delete_many :: "u64 list \<Rightarrow> memory \<Rightarrow> (usize, backend_error) result \<times> memory" where
  "memory_delete_many keys m =
     (if mb_descriptor m = None then (Err NotFound, m) else delete_loop keys 0 m)"

definition memory_flush :: "memory \<Rightarrow> (unit, backend_error) result \<times> memory" where
  "memory_flush m = (err_if (mb_descriptor m = None) NotFound, m)"

definition memory_health :: "memory \<Rightarrow> (unit, backend_error) result \<times> memory" where
  "memory_health m = (Ok (), m)"

definition memory_stats :: "memory \<Rightarrow> (backend_stats, backend_error) result \<times> memory" where
  "memory_stats m =
     (and_then (err_if (mb_descriptor m = None) NotFound) (\<lambda>_.
      and_then (ok_or LengthOverflow (u64_try_from (length (mb_records m)))) (\<lambda>items.
      and_then (fold_result (\<lambda>members count.
          and_then (ok_or LengthOverflow (u64_try_from (length members))) (\<lambda>n.
          ok_or LengthOverflow (checked_add count n))) (map snd (mb_buckets m)) 0) (\<lambda>memberships.
      and_then (from_sizes (map (length \<circ> snd) (mb_buckets m))) (\<lambda>distribution.
      Ok \<lparr>bs_items = items, bs_bucket_memberships = memberships, bs_round_trips = 0,
          bs_ttl_seconds_remaining = None, bs_bucket_distribution = Some distribution, bs_queries = None\<rparr>)))), m)"

definition memory_cleanup :: "memory \<Rightarrow> (unit, backend_error) result \<times> memory" where
  "memory_cleanup m = (Ok (), m\<lparr>mb_descriptor := None, mb_records := [], mb_buckets := []\<rparr>)"

definition memory_backend :: "memory storage_backend" where
  "memory_backend = \<lparr>sb_capabilities = (\<lambda>_. MEMORY_CAPABILITIES), sb_initialize = memory_initialize,
     sb_load_descriptor = memory_load_descriptor, sb_contains_many = memory_contains_many,
     sb_insert_many = memory_insert_many, sb_query_buckets = memory_query_buckets,
     sb_delete_many = memory_delete_many, sb_flush = memory_flush, sb_health = memory_health,
     sb_stats = memory_stats, sb_cleanup = memory_cleanup\<rparr>"

section \<open>Descriptor bytes\<close>

text \<open>\<open>PARIBK01\<close>.\<close>

definition DESCRIPTOR_MAGIC :: bytes where
  "DESCRIPTOR_MAGIC = [80, 65, 82, 73, 66, 75, 48, 49]"

abbreviation DESCRIPTOR_BYTES :: usize where "DESCRIPTOR_BYTES \<equiv> 56"
abbreviation NO_RETENTION :: u64 where "NO_RETENTION \<equiv> - 1"

definition usize_to_u64 :: "usize \<Rightarrow> (u64, backend_error) result" where
  "usize_to_u64 value = ok_or LengthOverflow (u64_try_from value)"

definition encode_descriptor :: "index_descriptor \<Rightarrow> (bytes, backend_error) result" where
  "encode_descriptor d =
     and_then (usize_to_u64 (de_num_perm d)) (\<lambda>num_perm.
     and_then (usize_to_u64 (p_bands (de_params d))) (\<lambda>bands.
     and_then (usize_to_u64 (p_rows (de_params d))) (\<lambda>rows.
     Ok (DESCRIPTOR_MAGIC @ le64 (de_threshold d) @ le64 num_perm @ le64 (de_seed d) @ le64 bands @ le64 rows
         @ le64 (case de_retention d of None \<Rightarrow> NO_RETENTION | Some value \<Rightarrow> as_secs value)))))"

definition backend_read_u64 :: "bytes \<Rightarrow> usize \<Rightarrow> (u64, backend_error) result" where
  "backend_read_u64 bs offset =
     and_then (ok_or LengthOverflow (checked_add_usize offset 8)) (\<lambda>stop.
     and_then (ok_or (CorruptData DescriptorTruncated) (slice_get bs offset stop)) (\<lambda>raw.
     if length raw = 8 then Ok (from_le_bytes raw) else Err (CorruptData DescriptorWidth)))"

definition decode_descriptor :: "bytes \<Rightarrow> (index_descriptor, backend_error) result" where
  "decode_descriptor bs =
     and_then (err_if (length bs \<noteq> DESCRIPTOR_BYTES) (CorruptData (DescriptorLength (length bs)))) (\<lambda>_.
     and_then (err_if (take 8 bs \<noteq> DESCRIPTOR_MAGIC) (CorruptData DescriptorMagic)) (\<lambda>_.
     and_then (backend_read_u64 bs 8) (\<lambda>threshold.
     and_then (backend_read_u64 bs 16) (\<lambda>num_perm.
     and_then (backend_read_u64 bs 24) (\<lambda>seed.
     and_then (backend_read_u64 bs 32) (\<lambda>bands.
     and_then (backend_read_u64 bs 40) (\<lambda>rows.
     and_then (backend_read_u64 bs 48) (\<lambda>seconds.
     and_then (if seconds = NO_RETENTION then Ok None
               else if seconds = 0 then Err InvalidRetention
               else Ok (Some \<lparr>as_secs = seconds, subsec_nanos = 0\<rparr>)) (\<lambda>retention.
     index_descriptor_new threshold (unat num_perm) seed \<lparr>p_bands = unat bands, p_rows = unat rows\<rparr> retention)))))))))"

definition encode_user_key :: "u64 \<Rightarrow> (bytes, backend_error) result" where
  "encode_user_key key = map_err Codec (u64_encode key)"

definition decode_user_key :: "bytes \<Rightarrow> (u64, backend_error) result" where
  "decode_user_key bs = map_err Codec (u64_decode bs)"

section \<open>Descriptors\<close>

definition descriptor_valid :: "index_descriptor \<Rightarrow> bool" where
  "descriptor_valid d \<longleftrightarrow> 0 < de_threshold d \<and> de_threshold d \<le> f64_one
     \<and> 0 < de_num_perm d \<and> de_num_perm d < 4294967296 \<and> params_valid (de_params d) (de_num_perm d)
     \<and> (\<forall>value. de_retention d = Some value \<longrightarrow> \<not> invalid_retention value)"

lemma index_with_params_Ok:
  "(\<exists>index. index_with_params t n s p = Ok index) \<longleftrightarrow> 0 < t \<and> t \<le> f64_one \<and> 0 < n \<and> n < 4294967296 \<and> params_valid p n"
  by (auto simp: index_with_params_def res_simps validate_params_Ok)

lemma index_descriptor_new_Ok:
  "index_descriptor_new t n s p r = Ok d \<longleftrightarrow>
     d = \<lparr>de_threshold = t, de_num_perm = n, de_seed = s, de_params = p, de_retention = r\<rparr> \<and> descriptor_valid d"
  using index_with_params_Ok [of t n s p]
  by (cases "index_with_params t n s p"; cases r) (auto simp: index_descriptor_new_def res_simps descriptor_valid_def)

lemma descriptor_bands:
  "descriptor_valid d \<Longrightarrow> 0 < p_bands (de_params d) \<and> p_bands (de_params d) < 4294967296 \<and> p_rows (de_params d) < 4294967296"
  using valid_params_bounds [of "de_params d" "de_num_perm d"] by (auto simp: descriptor_valid_def params_valid_def)

lemma backend_read_le64:
  assumes "length pre = offset" and "offset < 1000"
  shows "backend_read_u64 (pre @ le64 w @ post) offset = Ok w"
proof -
  have "slice_get (pre @ le64 w @ post) offset (offset + 8) = Some (le64 w)"
    using assms(1) by (simp add: slice_get_def)
  then show ?thesis
    using assms(2) by (simp add: backend_read_u64_def checked_add_usize_def)
qed

lemma decode_descriptor_fields:
  "decode_descriptor (DESCRIPTOR_MAGIC @ le64 t @ le64 n @ le64 s @ le64 b @ le64 r @ le64 secs)
     = and_then (if secs = NO_RETENTION then Ok None else if secs = 0 then Err InvalidRetention
                 else Ok (Some \<lparr>as_secs = secs, subsec_nanos = 0\<rparr>)) (\<lambda>retention.
       index_descriptor_new t (unat n) s \<lparr>p_bands = unat b, p_rows = unat r\<rparr> retention)"
proof -
  let ?bs = "DESCRIPTOR_MAGIC @ le64 t @ le64 n @ le64 s @ le64 b @ le64 r @ le64 secs"
  have len: "length DESCRIPTOR_MAGIC = 8" by (simp add: DESCRIPTOR_MAGIC_def)
  have "backend_read_u64 ?bs 8 = Ok t"
    using backend_read_le64 [of DESCRIPTOR_MAGIC 8 t] len by simp
  moreover have "backend_read_u64 ?bs 16 = Ok n"
    using backend_read_le64 [of "DESCRIPTOR_MAGIC @ le64 t" 16 n] len by simp
  moreover have "backend_read_u64 ?bs 24 = Ok s"
    using backend_read_le64 [of "DESCRIPTOR_MAGIC @ le64 t @ le64 n" 24 s] len by simp
  moreover have "backend_read_u64 ?bs 32 = Ok b"
    using backend_read_le64 [of "DESCRIPTOR_MAGIC @ le64 t @ le64 n @ le64 s" 32 b] len by simp
  moreover have "backend_read_u64 ?bs 40 = Ok r"
    using backend_read_le64 [of "DESCRIPTOR_MAGIC @ le64 t @ le64 n @ le64 s @ le64 b" 40 r] len by simp
  moreover have "backend_read_u64 ?bs 48 = Ok secs"
    using backend_read_le64 [of "DESCRIPTOR_MAGIC @ le64 t @ le64 n @ le64 s @ le64 b @ le64 r" 48 secs "[]"] len by simp
  ultimately show ?thesis
    using len by (simp add: decode_descriptor_def)
qed

section \<open>Band hashes\<close>

lemma backend_hash_band_eq: "backend_hash_band = hash_band32"
  by (rule ext) (simp add: backend_hash_band_def hash_band32_def backend_avalanche64_def avalanche64_def
      FNV_PRIME_def FNV_OFFSET_BASIS_def)

abbreviation bands_of :: "index_descriptor \<Rightarrow> minhash32 \<Rightarrow> u64 list" where
  "bands_of d sketch \<equiv> sketch_bands (band_hash ucast) (de_params d) (hashvalues sketch)"

definition sketch_fits :: "index_descriptor \<Rightarrow> minhash32 \<Rightarrow> bool" where
  "sketch_fits d sketch \<longleftrightarrow> mh_seed sketch = de_seed d \<and> length (hashvalues sketch) = de_num_perm d"

lemma length_bands_of: "descriptor_valid d \<Longrightarrow> sketch_fits d sketch \<Longrightarrow> length (bands_of d sketch) = p_bands (de_params d)"
  by (rule length_sketch_bands [where n = "de_num_perm d"]) (simp_all add: descriptor_valid_def sketch_fits_def)

lemma backend_band_hashes_fits:
  assumes "descriptor_valid d" and "sketch_fits d sketch"
  shows "backend_band_hashes d sketch = Ok (bands_of d sketch)"
proof -
  let ?p = "de_params d"
  let ?prefix = "take (p_bands ?p * p_rows ?p) (hashvalues sketch)"
  have valid: "params_valid ?p (de_num_perm d)" "de_num_perm d < usize_limit" "de_num_perm d < 4294967296"
    using assms(1) by (simp_all add: descriptor_valid_def)
  have "length c < usize_limit" if "c \<in> set (chunks_exact (p_rows ?p) ?prefix)" for c
    using chunks_exact_length_mem [OF that] valid_params_bounds [OF valid(1,3)] by simp
  then have "(try_map backend_hash_band (chunks_exact (p_rows ?p) ?prefix) :: (u64 list, lsh_error) result) = Ok (bands_of d sketch)"
    unfolding sketch_bands_def backend_hash_band_eq
    using hash_band32_total [where ?'a = lsh_error] by (intro try_map_all_ok) (simp add: band_total_def)
  moreover have "p_bands ?p * p_rows ?p \<le> length (hashvalues sketch)"
    using assms(2) valid(1) by (simp add: sketch_fits_def params_valid_def)
  ultimately show ?thesis
    using assms(2) used_permutations_valid [OF valid(1,2)]
    by (simp add: backend_band_hashes_def sketch_fits_def slice_get_def)
qed

text \<open>The error of a sketch that does not fit.\<close>

definition misfit :: "index_descriptor \<Rightarrow> minhash32 \<Rightarrow> lsh_error" where
  "misfit d sketch =
     (if mh_seed sketch \<noteq> de_seed d then lsh_error.IncompatibleSeed (de_seed d) (mh_seed sketch)
      else lsh_error.IncompatiblePermutationCount (de_num_perm d) (length (hashvalues sketch)))"

lemma backend_band_hashes_misfit:
  "\<not> sketch_fits d sketch \<Longrightarrow> backend_band_hashes d sketch = Err (misfit d sketch)"
  by (auto simp: backend_band_hashes_def misfit_def sketch_fits_def)

section \<open>Preparing records\<close>

definition stored_of :: "index_descriptor \<Rightarrow> u64 \<times> minhash32 \<Rightarrow> stored_item" where
  "stored_of d item = \<lparr>si_key = fst item, si_band_hashes = bands_of d (snd item)\<rparr>"

definition batch_ok :: "index_descriptor \<Rightarrow> (u64 \<times> minhash32) list \<Rightarrow> bool" where
  "batch_ok d items \<longleftrightarrow> distinct (map fst items) \<and> (\<forall>(key, sketch) \<in> set items. sketch_fits d sketch)"

lemma prepare_items_ok:
  assumes "descriptor_valid d" and "batch_ok d items" and "set (map fst items) \<inter> set seen = {}"
  shows "prepare_items d items seen stored = Ok (stored @ map (stored_of d) items)"
  using assms(2,3)
proof (induction items arbitrary: seen stored)
  case (Cons item items)
  obtain key sketch where item: "item = (key, sketch)" by (cases item)
  have "batch_ok d items" "set (map fst items) \<inter> set (List.insert key seen) = {}" "sketch_fits d sketch" "key \<notin> set seen"
    using Cons.prems by (auto simp: batch_ok_def item)
  then show ?case
    using Cons.IH by (simp add: item backend_band_hashes_fits [OF assms(1)] stored_of_def)
qed simp

lemma prepare_items_fails:
  assumes "descriptor_valid d" and "\<not> (batch_ok d items \<and> set (map fst items) \<inter> set seen = {})"
  shows "\<exists>e. prepare_items d items seen stored = Err e
    \<and> ((\<exists>key \<in> fst ` set items. e = BackendFailure (DuplicateKey key))
       \<or> (\<exists>(key, sketch) \<in> set items. \<not> sketch_fits d sketch \<and> e = IndexError (misfit d sketch)))"
  using assms(2)
proof (induction items arbitrary: seen stored)
  case (Cons item items)
  obtain key sketch where item: "item = (key, sketch)" by (cases item)
  show ?case
  proof (cases "key \<in> set seen \<or> \<not> sketch_fits d sketch")
    case True
    then show ?thesis by (auto simp: item backend_band_hashes_misfit)
  next
    case False
    then have "\<not> (batch_ok d items \<and> set (map fst items) \<inter> set (List.insert key seen) = {})"
      using Cons.prems by (auto simp: batch_ok_def item)
    from Cons.IH [OF this] show ?thesis
      using False by (fastforce simp: item backend_band_hashes_fits [OF assms(1)])
  qed
qed (simp add: batch_ok_def)

section \<open>The request of a batch of queries\<close>

definition request_inv :: "request \<Rightarrow> bool" where
  "request_inv req \<longleftrightarrow> (\<forall>b p. map_of (fst req) b = Some p \<longleftrightarrow> p < length (snd req) \<and> snd req ! p = b)"

definition positions_match :: "bucket_key list \<Rightarrow> usize list \<Rightarrow> bucket_key list \<Rightarrow> bool" where
  "positions_match requested positions bs \<longleftrightarrow> list_all2 (\<lambda>p b. p < length requested \<and> requested ! p = b) positions bs"

lemma request_inv_empty: "request_inv ([], [])"
  by (simp add: request_inv_def)

lemma positions_match_append:
  "positions_match requested ps bs \<Longrightarrow> positions_match (requested @ extra) ps bs"
  unfolding positions_match_def by (erule list_all2_mono) (simp add: nth_append)

lemma positions_match_prefix:
  "positions_match requested ps bs \<Longrightarrow> \<exists>extra. requested' = requested @ extra \<Longrightarrow> positions_match requested' ps bs"
  by (auto simp: positions_match_append)

lemma positions_match_join:
  "positions_match requested ps bs \<Longrightarrow> positions_match requested qs cs \<Longrightarrow> positions_match requested (ps @ qs) (bs @ cs)"
  unfolding positions_match_def by (rule list_all2_appendI)

lemma bucket_position_law:
  assumes "request_inv req"
  shows "\<exists>p req'. bucket_position b req = (p, req') \<and> request_inv req'
    \<and> (\<exists>extra. snd req' = snd req @ extra) \<and> p < length (snd req') \<and> snd req' ! p = b"
proof (cases "map_of (fst req) b")
  case None
  then have new: "b \<notin> set (snd req)"
    using assms unfolding request_inv_def in_set_conv_nth by (metis option.distinct(1))
  let ?req = "(bt_insert b (length (snd req)) (fst req), snd req @ [b])"
  have "request_inv ?req"
    unfolding request_inv_def
  proof (intro allI)
    fix c p
    have "snd req ! p \<noteq> b" if "p < length (snd req)" using new nth_mem [OF that] by metis
    then show "map_of (fst ?req) c = Some p \<longleftrightarrow> p < length (snd ?req) \<and> snd ?req ! p = c"
      using assms by (auto simp: request_inv_def nth_append less_Suc_eq)
  qed
  with None show ?thesis by (simp add: bucket_position_def case_prod_beta Let_def)
next
  case (Some p)
  then have "p < length (snd req) \<and> snd req ! p = b" using assms unfolding request_inv_def by blast
  moreover have "bucket_position b req = (p, req)" using Some by (simp add: bucket_position_def case_prod_beta)
  ultimately show ?thesis using assms by auto
qed

lemma request_bands:
  assumes "request_inv req" and "\<forall>(band, hash) \<in> set bs. band < 4294967296"
  shows "\<exists>qs req'. fold_result request_band bs (ps, req) = Ok (ps @ qs, req') \<and> request_inv req'
    \<and> (\<exists>extra. snd req' = snd req @ extra)
    \<and> positions_match (snd req') qs (map (\<lambda>(band, hash). BucketKey (of_nat band) hash) bs)"
  using assms
proof (induction bs arbitrary: ps req)
  case (Cons entry bs)
  obtain band hash where entry: "entry = (band, hash)" by (cases entry)
  obtain p req' where p: "bucket_position (BucketKey (of_nat band) hash) req = (p, req')" "request_inv req'"
    "\<exists>extra. snd req' = snd req @ extra" "p < length (snd req')" "snd req' ! p = BucketKey (of_nat band) hash"
    using bucket_position_law [OF Cons.prems(1)] by metis
  have step: "request_band entry (ps, req) = Ok (ps @ [p], req')"
    using Cons.prems(2) p(1) by (simp add: request_band_def entry u32_try_from_def)
  obtain qs req'' where q: "fold_result request_band bs (ps @ [p], req') = Ok ((ps @ [p]) @ qs, req'')" "request_inv req''"
    "\<exists>extra. snd req'' = snd req' @ extra" "positions_match (snd req'') qs (map (\<lambda>(band, hash). BucketKey (of_nat band) hash) bs)"
    using Cons.IH [OF p(2), of "ps @ [p]"] Cons.prems(2) by auto
  have "positions_match (snd req'') [p] [BucketKey (of_nat band) hash]"
    by (rule positions_match_prefix [OF _ q(3)]) (simp add: positions_match_def p)
  from positions_match_join [OF this q(4)]
  have "positions_match (snd req'') (p # qs) (map (\<lambda>(band, hash). BucketKey (of_nat band) hash) (entry # bs))"
    by (simp add: entry)
  moreover have "\<exists>extra. snd req'' = snd req @ extra" using p(3) q(3) by auto
  ultimately show ?case using step q(1,2) by auto
qed (simp add: positions_match_def)

lemma request_sketch_ok:
  assumes "descriptor_valid d" and "sketch_fits d sketch" and "request_inv req"
  shows "\<exists>ps req'. request_sketch d sketch (out, req) = Ok (out @ [ps], req') \<and> request_inv req'
    \<and> (\<exists>extra. snd req' = snd req @ extra) \<and> positions_match (snd req') ps (bucket_keys (bands_of d sketch))"
proof -
  have "length (bands_of d sketch) < 4294967296"
    using length_bands_of [OF assms(1,2)] descriptor_bands [OF assms(1)] by simp
  from request_bands [OF assms(3) enumerate_bands [OF this], of "[]"]
  show ?thesis
    by (auto simp: request_sketch_def backend_band_hashes_fits [OF assms(1,2)] bucket_keys_def)
qed

lemma request_loop_ok:
  assumes "descriptor_valid d" and "\<forall>sketch \<in> set sketches. sketch_fits d sketch" and "request_inv req"
  shows "\<exists>pss req'. fold_result (request_sketch d) sketches (out, req) = Ok (out @ pss, req')
    \<and> (\<exists>extra. snd req' = snd req @ extra)
    \<and> list_all2 (\<lambda>ps sketch. positions_match (snd req') ps (bucket_keys (bands_of d sketch))) pss sketches"
  using assms(2,3)
proof (induction sketches arbitrary: out req)
  case (Cons sketch sketches)
  obtain ps req' where p: "request_sketch d sketch (out, req) = Ok (out @ [ps], req')" "request_inv req'"
    "\<exists>extra. snd req' = snd req @ extra" "positions_match (snd req') ps (bucket_keys (bands_of d sketch))"
    using request_sketch_ok [OF assms(1) _ Cons.prems(2), of sketch out] Cons.prems(1) by auto
  obtain pss req'' where q: "fold_result (request_sketch d) sketches (out @ [ps], req') = Ok ((out @ [ps]) @ pss, req'')"
    "\<exists>extra. snd req'' = snd req' @ extra"
    "list_all2 (\<lambda>ps sketch. positions_match (snd req'') ps (bucket_keys (bands_of d sketch))) pss sketches"
    using Cons.IH [OF _ p(2), of "out @ [ps]"] Cons.prems(1) by auto
  have "positions_match (snd req'') ps (bucket_keys (bands_of d sketch))"
    by (rule positions_match_prefix [OF p(4) q(2)])
  then have "list_all2 (\<lambda>ps sketch. positions_match (snd req'') ps (bucket_keys (bands_of d sketch))) (ps # pss) (sketch # sketches)"
    using q(3) by simp
  moreover have "\<exists>extra. snd req'' = snd req @ extra" using p(3) q(2) by auto
  ultimately show ?case using p(1) q(1) by auto
qed auto

lemma request_loop_misfit:
  assumes "descriptor_valid d" and "\<forall>sketch \<in> set good. sketch_fits d sketch" and "\<not> sketch_fits d bad"
  shows "fold_result (request_sketch d) (good @ bad # rest) ([], [], []) = Err (IndexError (misfit d bad))"
proof -
  obtain pss req' where "fold_result (request_sketch d) good ([], [], []) = Ok (pss, req')"
    using request_loop_ok [OF assms(1,2) request_inv_empty, of "[]"] by auto
  then show ?thesis
    by (simp add: fold_result_append request_sketch_def case_prod_beta backend_band_hashes_misfit [OF assms(3)])
qed

section \<open>Gathering\<close>

lemma gather_positions:
  fixes members :: "u64 list list"
  assumes "\<forall>p \<in> set ps. p < length members" and "distinct cands"
  shows "\<exists>out. fold_result (\<lambda>position cands. if position < length members then Ok (hs_extend (members ! position) cands) else Panic) ps cands
      = (Ok out :: (u64 list, backend_index_error) result)
    \<and> distinct out \<and> set out = set cands \<union> (\<Union>p \<in> set ps. set (members ! p))"
  using assms
proof (induction ps arbitrary: cands)
  case (Cons p ps)
  then show ?case using Cons.IH [of "hs_extend (members ! p) cands"] by (simp add: Un_assoc Un_left_commute)
qed simp

lemma gather_query_ok:
  assumes "\<forall>p \<in> set ps. p < length members"
  shows "gather_query members ps (out, n) = and_then (Ok (sorted_list_of_set (\<Union>p \<in> set ps. set (members ! p))))
     (\<lambda>keys. Ok (out @ [keys], saturating_add_usize n (length keys)))"
proof -
  obtain cands where "fold_result (\<lambda>position cands. if position < length members then Ok (hs_extend (members ! position) cands) else Panic) ps []
      = (Ok cands :: (u64 list, backend_index_error) result)" "distinct cands" "set cands = (\<Union>p \<in> set ps. set (members ! p))"
    using gather_positions [OF assms, of "[]"] by auto
  then show ?thesis by (simp add: gather_query_def sort_distinct_eq Let_def flip: distinct_card)
qed

lemma gather_loop:
  assumes "list_all2 (\<lambda>ps hs. positions_match requested ps (bucket_keys hs)) pss hss"
    and "\<forall>hs \<in> set hss. length hs < 4294967296"
    and "length members = length requested" and "\<forall>i < length requested. set (members ! i) = bucket_of m (requested ! i)"
  shows "\<exists>n'. fold_result (gather_query members) pss (out, n)
     = Ok (out @ map (\<lambda>hs. sorted_list_of_set (band_matches m hs)) hss, n')"
  using assms(1,2)
proof (induction arbitrary: out n rule: list_all2_induct)
  case (Cons ps pss hs hss)
  have pos: "\<forall>p \<in> set ps. p < length members" and "set (bucket_keys hs) = (!) requested ` set ps"
    using Cons.hyps(1) assms(3) by (force simp: positions_match_def list_all2_conv_all_nth in_set_conv_nth)+
  then have "(\<Union>p \<in> set ps. set (members ! p)) = (\<Union>b \<in> set (bucket_keys hs). bucket_of m b)"
    using assms(3,4) by auto
  also have "\<dots> = band_matches m hs" using Cons.prems by (intro band_matches_buckets) simp
  finally have "\<exists>n'. gather_query members ps (out, n) = Ok (out @ [sorted_list_of_set (band_matches m hs)], n')"
    by (simp add: gather_query_ok [OF pos])
  then obtain n' where "gather_query members ps (out, n) = Ok (out @ [sorted_list_of_set (band_matches m hs)], n')" ..
  then show ?case using Cons.IH [of "out @ [sorted_list_of_set (band_matches m hs)]" n'] Cons.prems by auto
qed simp

text \<open>Inserting a list into a \<open>BTreeSet\<close>.\<close>

lemma set_fold_insort_insert:
  fixes ks :: "'k::linorder list"
  shows "set (fold insort_insert ks xs) = set ks \<union> set xs"
  by (induction ks arbitrary: xs) (auto simp: set_insort_insert)

section \<open>The contract of a backend\<close>

text \<open>\<open>desc\<close> and \<open>lookup\<close> are the descriptor and the records a backend state stands for; an
  operation that only reads, or fails, keeps both.\<close>

definition keeps :: "('s \<Rightarrow> bool) \<Rightarrow> ('s \<Rightarrow> index_descriptor option) \<Rightarrow> ('s \<Rightarrow> u64 \<rightharpoonup> u64 list) \<Rightarrow> 's \<Rightarrow> 's \<Rightarrow> bool" where
  "keeps invar desc lookup s s' \<longleftrightarrow> invar s' \<and> desc s' = desc s \<and> lookup s' = lookup s"

definition items_map :: "stored_item list \<Rightarrow> u64 \<rightharpoonup> u64 list" where
  "items_map items = map_of (map (\<lambda>item. (si_key item, si_band_hashes item)) items)"

definition items_fit :: "index_descriptor \<Rightarrow> stored_item list \<Rightarrow> bool" where
  "items_fit d items \<longleftrightarrow> (\<forall>item \<in> set items. length (si_band_hashes item) = p_bands (de_params d))"

locale backend_contract =
  fixes B :: "'s storage_backend"
    and invar :: "'s \<Rightarrow> bool"
    and desc :: "'s \<Rightarrow> index_descriptor option"
    and lookup :: "'s \<Rightarrow> u64 \<rightharpoonup> u64 list"
  assumes initialize_law: "invar s \<Longrightarrow> descriptor_valid d \<Longrightarrow>
      (de_retention d \<noteq> None \<longrightarrow> capabilities_supports Ttl (sb_capabilities B s)) \<Longrightarrow>
      (if desc s = None
       then \<exists>s'. sb_initialize B d s = (Ok (), s') \<and> invar s' \<and> desc s' = Some d \<and> lookup s' = Map.empty
       else \<exists>s'. sb_initialize B d s = (Err AlreadyExists, s') \<and> keeps invar desc lookup s s')"
    and load_law: "invar s \<Longrightarrow>
      \<exists>s'. sb_load_descriptor B s = (ok_or NotFound (desc s), s') \<and> keeps invar desc lookup s s'
        \<and> sb_capabilities B s' = sb_capabilities B s"
    and contains_law: "invar s \<Longrightarrow> desc s = Some d \<Longrightarrow>
      \<exists>s'. sb_contains_many B ks s = (Ok (map (\<lambda>k. k \<in> dom (lookup s)) ks), s') \<and> keeps invar desc lookup s s'"
    and insert_law: "invar s \<Longrightarrow> desc s = Some d \<Longrightarrow> items_fit d items \<Longrightarrow> distinct (map si_key items) \<Longrightarrow>
      (if set (map si_key items) \<inter> dom (lookup s) = {}
       then \<exists>s'. sb_insert_many B items s = (Ok (), s') \<and> invar s' \<and> desc s' = desc s
          \<and> lookup s' = lookup s ++ items_map items
       else \<exists>k s'. sb_insert_many B items s = (Err (DuplicateKey k), s') \<and> k \<in> set (map si_key items) \<inter> dom (lookup s)
          \<and> keeps invar desc lookup s s')"
    and query_law: "invar s \<Longrightarrow> desc s = Some d \<Longrightarrow>
      \<exists>rows s'. sb_query_buckets B bs s = (Ok rows, s') \<and> length rows = length bs
        \<and> (\<forall>i < length bs. set (rows ! i) = bucket_of (lookup s) (bs ! i)) \<and> keeps invar desc lookup s s'"
    and delete_law: "invar s \<Longrightarrow> desc s = Some d \<Longrightarrow>
      \<exists>s'. sb_delete_many B ks s = (Ok (card (set ks \<inter> dom (lookup s))), s') \<and> invar s' \<and> desc s' = desc s
        \<and> lookup s' = lookup s |` (- set ks)"
    and shape_law: "invar s \<Longrightarrow> desc s = Some d \<Longrightarrow>
      descriptor_valid d \<and> finite (dom (lookup s)) \<and> (\<forall>hs \<in> ran (lookup s). length hs = p_bands (de_params d))"
begin

definition index_ok :: "'s backend_index \<Rightarrow> bool" where
  "index_ok index \<longleftrightarrow> invar (bi_backend index) \<and> desc (bi_backend index) = Some (bi_descriptor index)"

abbreviation contents :: "'s backend_index \<Rightarrow> u64 \<rightharpoonup> u64 list" where
  "contents index \<equiv> lookup (bi_backend index)"

lemma index_okD:
  assumes "index_ok index"
  shows "invar (bi_backend index)" and "desc (bi_backend index) = Some (bi_descriptor index)"
    and "descriptor_valid (bi_descriptor index)" and "finite (dom (contents index))"
  using assms shape_law by (auto simp: index_ok_def)

lemma create_law:
  assumes "invar s" and "desc s = None" and "descriptor_valid \<lparr>de_threshold = t, de_num_perm = n, de_seed = seed, de_params = p, de_retention = r\<rparr>"
    and "r \<noteq> None \<longrightarrow> capabilities_supports Ttl (sb_capabilities B s)"
  shows "\<exists>index. backend_create_with_params B s t n seed p r = Ok index \<and> index_ok index \<and> contents index = Map.empty
     \<and> bi_known_items index = Some 0
     \<and> bi_descriptor index = \<lparr>de_threshold = t, de_num_perm = n, de_seed = seed, de_params = p, de_retention = r\<rparr>"
proof -
  let ?d = "\<lparr>de_threshold = t, de_num_perm = n, de_seed = seed, de_params = p, de_retention = r\<rparr>"
  obtain s' where "sb_initialize B ?d s = (Ok (), s')" "invar s'" "desc s' = Some ?d" "lookup s' = Map.empty"
    using initialize_law [OF assms(1,3)] assms(2,4) by auto
  moreover have "index_descriptor_new t n seed p r = Ok ?d" using assms(3) by (simp add: index_descriptor_new_Ok)
  ultimately show ?thesis
    using assms(4) by (auto simp: backend_create_with_params_def validate_retention_capability_def err_if_def index_ok_def)
qed

text \<open>A second handle opened on the same namespace sees the same descriptor and contents.\<close>

lemma open_law:
  assumes "index_ok index" and "de_retention (bi_descriptor index) \<noteq> None \<longrightarrow> capabilities_supports Ttl (sb_capabilities B (bi_backend index))"
  shows "\<exists>index'. backend_open B (bi_backend index) = Ok index' \<and> index_ok index'
     \<and> bi_descriptor index' = bi_descriptor index \<and> contents index' = contents index \<and> bi_known_items index' = None"
proof -
  let ?d = "bi_descriptor index"
  note ok = index_okD [OF assms(1)]
  obtain s' where s': "sb_load_descriptor B (bi_backend index) = (Ok ?d, s')" "invar s'" "desc s' = Some ?d"
    "lookup s' = contents index" "sb_capabilities B s' = sb_capabilities B (bi_backend index)"
    using load_law [OF ok(1)] ok(2) by (auto simp: keeps_def)
  moreover obtain i where "index_with_params (de_threshold ?d) (de_num_perm ?d) (de_seed ?d) (de_params ?d) = Ok i"
    using ok(3) index_with_params_Ok [of "de_threshold ?d" "de_num_perm ?d" "de_seed ?d" "de_params ?d"]
    by (auto simp: descriptor_valid_def)
  ultimately show ?thesis
    using assms(2) by (auto simp: backend_open_def validate_retention_capability_def err_if_def index_ok_def)
qed

lemma insert_many_law:
  assumes "index_ok index"
  shows "case backend_insert_many B items index of
      (Ok _, index') \<Rightarrow> batch_ok (bi_descriptor index) items \<and> set (map fst items) \<inter> dom (contents index) = {}
        \<and> index_ok index' \<and> bi_descriptor index' = bi_descriptor index
        \<and> contents index' = contents index ++ map_of (map (\<lambda>(key, sketch). (key, bands_of (bi_descriptor index) sketch)) items)
    | (Err e, index') \<Rightarrow> index_ok index' \<and> bi_descriptor index' = bi_descriptor index \<and> contents index' = contents index
        \<and> bi_known_items index' = bi_known_items index
        \<and> ((\<exists>key \<in> fst ` set items. e = BackendFailure (DuplicateKey key)
              \<and> (key \<in> dom (contents index) \<or> \<not> batch_ok (bi_descriptor index) items))
           \<or> (\<exists>(key, sketch) \<in> set items. \<not> sketch_fits (bi_descriptor index) sketch \<and> e = IndexError (misfit (bi_descriptor index) sketch)))
    | (Panic, _) \<Rightarrow> False"
proof (cases "batch_ok (bi_descriptor index) items")
  case False
  then obtain e where "prepare_items (bi_descriptor index) items [] [] = Err e"
    "(\<exists>key \<in> fst ` set items. e = BackendFailure (DuplicateKey key))
       \<or> (\<exists>(key, sketch) \<in> set items. \<not> sketch_fits (bi_descriptor index) sketch \<and> e = IndexError (misfit (bi_descriptor index) sketch))"
    using prepare_items_fails [OF index_okD(3) [OF assms], of items "[]" "[]"] by auto
  then show ?thesis
    using assms False by (auto simp: backend_insert_many_def)
next
  case True
  let ?d = "bi_descriptor index" and ?stored = "map (stored_of (bi_descriptor index)) items"
  note ok = index_okD [OF assms]
  have prep: "prepare_items ?d items [] [] = Ok ?stored"
    using prepare_items_ok [OF ok(3) True] by simp
  have keys: "map si_key ?stored = map fst items" by (simp add: stored_of_def)
  have fit: "items_fit ?d ?stored"
    using True length_bands_of [OF ok(3)] by (auto simp: items_fit_def stored_of_def batch_ok_def)
  have dist: "distinct (map si_key ?stored)" unfolding keys using True by (simp add: batch_ok_def)
  have im: "items_map ?stored = map_of (map (\<lambda>(key, sketch). (key, bands_of ?d sketch)) items)"
    by (simp add: items_map_def stored_of_def comp_def split_beta')
  note law = insert_law [OF ok(1,2) fit dist, unfolded keys im]
  show ?thesis
  proof (cases "set (map fst items) \<inter> dom (contents index) = {}")
    case fresh: True
    with law obtain s' where "sb_insert_many B ?stored (bi_backend index) = (Ok (), s')" "invar s'"
      "desc s' = desc (bi_backend index)" "lookup s' = contents index ++ map_of (map (\<lambda>(key, sketch). (key, bands_of ?d sketch)) items)"
      by auto
    then show ?thesis
      using True fresh ok(2) by (simp add: backend_insert_many_def prep call_def index_ok_def)
  next
    case False
    with law obtain k s' where "sb_insert_many B ?stored (bi_backend index) = (Err (DuplicateKey k), s')"
      "k \<in> set (map fst items) \<inter> dom (contents index)" "keeps invar desc lookup (bi_backend index) s'"
      by (auto simp del: set_map)
    then show ?thesis
      using ok(2) by (auto simp: backend_insert_many_def prep call_def index_ok_def keeps_def)
  qed
qed

lemma query_many_law:
  assumes "index_ok index" and "\<forall>sketch \<in> set sketches. sketch_fits (bi_descriptor index) sketch"
  shows "\<exists>index'. backend_query_many B sketches elapsed index
      = (Ok (map (\<lambda>sketch. sorted_list_of_set (band_matches (contents index) (bands_of (bi_descriptor index) sketch))) sketches), index')
    \<and> index_ok index' \<and> bi_descriptor index' = bi_descriptor index \<and> contents index' = contents index"
proof -
  let ?d = "bi_descriptor index"
  note ok = index_okD [OF assms(1)]
  obtain pss up requested where req: "fold_result (request_sketch ?d) sketches ([], [], []) = Ok (pss, up, requested)"
    "list_all2 (\<lambda>ps sketch. positions_match requested ps (bucket_keys (bands_of ?d sketch))) pss sketches"
    using request_loop_ok [OF ok(3) assms(2) request_inv_empty, of "[]"] by auto
  show ?thesis
  proof (cases "sketches = []")
    case True
    then show ?thesis using assms(1) by (simp add: backend_query_many_def)
  next
    case False
    then have ne: "pss \<noteq> []" using req(2) by auto
    obtain rows s' where rows: "sb_query_buckets B requested (bi_backend index) = (Ok rows, s')" "length rows = length requested"
      "\<forall>i < length requested. set (rows ! i) = bucket_of (contents index) (requested ! i)"
      "keeps invar desc lookup (bi_backend index) s'"
      using query_law [OF ok(1,2)] by metis
    have short: "\<forall>hs \<in> set (map (bands_of ?d) sketches). length hs < 4294967296"
      using assms(2) length_bands_of [OF ok(3)] descriptor_bands [OF ok(3)] by auto
    have "list_all2 (\<lambda>ps hs. positions_match requested ps (bucket_keys hs)) pss (map (bands_of ?d) sketches)"
      using req(2) by (simp add: list_all2_map2)
    from gather_loop [OF this short rows(2,3), of "[]" 0]
    obtain n where "fold_result (gather_query rows) pss ([], 0)
        = Ok (map (\<lambda>sketch. sorted_list_of_set (band_matches (contents index) (bands_of ?d sketch))) sketches, n)"
      by (auto simp: comp_def)
    then show ?thesis
      using req(1) ne rows(1,2,4) ok(2) by (simp add: backend_query_many_def call_def Let_def index_ok_def keeps_def)
  qed
qed

lemma query_many_misfit:
  assumes "index_ok index" and "\<forall>sketch \<in> set good. sketch_fits (bi_descriptor index) sketch"
    and "\<not> sketch_fits (bi_descriptor index) bad"
  shows "backend_query_many B (good @ bad # rest) elapsed index = (Err (IndexError (misfit (bi_descriptor index) bad)), index)"
  using request_loop_misfit [OF index_okD(3) [OF assms(1)] assms(2,3)] by (simp add: backend_query_many_def)

lemma query_law_single:
  assumes "index_ok index" and "sketch_fits (bi_descriptor index) sketch"
  shows "\<exists>index'. backend_query B sketch elapsed index
      = (Ok (sorted_list_of_set (band_matches (contents index) (bands_of (bi_descriptor index) sketch))), index')
    \<and> index_ok index' \<and> bi_descriptor index' = bi_descriptor index \<and> contents index' = contents index"
  using query_many_law [OF assms(1), of "[sketch]" elapsed] assms(2) by (auto simp: backend_query_def)

lemma contains_many_law:
  assumes "index_ok index"
  shows "\<exists>index'. backend_contains_many B ks index = (Ok (map (\<lambda>k. k \<in> dom (contents index)) ks), index')
    \<and> index_ok index' \<and> bi_descriptor index' = bi_descriptor index \<and> contents index' = contents index"
  using contains_law [OF index_okD(1,2) [OF assms], of ks] index_okD(2) [OF assms]
  by (auto simp: backend_contains_many_def call_def index_ok_def keeps_def)

lemma remove_many_law:
  assumes "index_ok index"
  shows "\<exists>index'. backend_remove_many B ks index = (Ok (card (set ks \<inter> dom (contents index))), index')
    \<and> index_ok index' \<and> bi_descriptor index' = bi_descriptor index \<and> contents index' = contents index |` (- set ks)"
  using delete_law [OF index_okD(1,2) [OF assms], of "fold insort_insert ks []"] index_okD(2) [OF assms]
  by (auto simp: backend_remove_many_def call_def index_ok_def set_fold_insort_insert)

lemma remove_law:
  assumes "index_ok index"
  shows "\<exists>index'. backend_remove B k index = (Ok (k \<in> dom (contents index)), index')
    \<and> index_ok index' \<and> bi_descriptor index' = bi_descriptor index \<and> contents index' = (contents index)(k := None)"
proof -
  have "lookup s |` (- {k}) = (lookup s)(k := None)" for s by (auto simp: restrict_map_def)
  moreover have "card ({k} \<inter> dom (contents index)) = (if k \<in> dom (contents index) then 1 else 0)" by simp
  ultimately show ?thesis
    using delete_law [OF index_okD(1,2) [OF assms], of "[k]"] index_okD(2) [OF assms]
    by (auto simp: backend_remove_def call_def index_ok_def Let_def)
qed

end

section \<open>The memory backend keeps the contract\<close>

text \<open>Every bucket is the ascending list of the keys of its records, and no bucket is empty.\<close>

definition memory_inv :: "memory \<Rightarrow> bool" where
  "memory_inv m \<longleftrightarrow> hm_wf (mb_records m) \<and> bt_wf (mb_buckets m)
     \<and> (\<forall>b. map_of (mb_buckets m) b = non_empty (sorted_list_of_set (bucket_of (hm_get (mb_records m)) b)))
     \<and> (case mb_descriptor m of None \<Rightarrow> mb_records m = []
        | Some d \<Rightarrow> descriptor_valid d \<and> (\<forall>k hs. hm_get (mb_records m) k = Some hs \<longrightarrow> length hs = p_bands (de_params d)))"

abbreviation memory_lookup :: "memory \<Rightarrow> u64 \<rightharpoonup> u64 list" where
  "memory_lookup m \<equiv> hm_get (mb_records m)"

lemma memory_invD:
  assumes "memory_inv m"
  shows "hm_wf (mb_records m)" and "bt_wf (mb_buckets m)"
    and "map_of (mb_buckets m) b = non_empty (sorted_list_of_set (bucket_of (memory_lookup m) b))"
    and "mb_descriptor m = None \<Longrightarrow> mb_records m = []"
    and "mb_descriptor m = Some d \<Longrightarrow> descriptor_valid d"
    and "mb_descriptor m = Some d \<Longrightarrow> memory_lookup m k = Some hs \<Longrightarrow> length hs = p_bands (de_params d)"
  using assms by (auto simp: memory_inv_def)

abbreviation members_at :: "memory \<Rightarrow> bucket_key \<Rightarrow> u64 list" where
  "members_at m b \<equiv> (case map_of (mb_buckets m) b of None \<Rightarrow> [] | Some ms \<Rightarrow> ms)"

lemma bucket_add_loop:
  assumes "\<forall>(band, hash) \<in> set es. band < 4294967296" and "bt_wf (mb_buckets m)"
  shows "\<exists>bs. st_fold (bucket_add key) es m = (Ok (), m\<lparr>mb_buckets := bs\<rparr>) \<and> bt_wf bs
    \<and> (\<forall>b. map_of bs b = (if b \<in> (\<lambda>(band, hash). BucketKey (of_nat band) hash) ` set es
                          then Some (insort_insert key (members_at m b)) else map_of (mb_buckets m) b))"
  using assms
proof (induction es arbitrary: m)
  case (Cons e es)
  obtain band hash where e: "e = (band, hash)" by (cases e)
  let ?b = "BucketKey (of_nat band) hash"
  let ?m = "m\<lparr>mb_buckets := bt_insert ?b (insort_insert key (members_at m ?b)) (mb_buckets m)\<rparr>"
  have step: "bucket_add key e m = (Ok (), ?m)"
    using Cons.prems(1) by (simp add: bucket_add_def e u32_try_from_def Let_def)
  obtain bs where bs: "st_fold (bucket_add key) es ?m = (Ok (), ?m\<lparr>mb_buckets := bs\<rparr>)" "bt_wf bs"
    "\<forall>b. map_of bs b = (if b \<in> (\<lambda>(band, hash). BucketKey (of_nat band) hash) ` set es
                          then Some (insort_insert key (members_at ?m b)) else map_of (mb_buckets ?m) b)"
    using Cons.IH [of ?m] Cons.prems by auto
  have twice: "insort_insert key (insort_insert key ms) = insort_insert key ms" for ms
    by (simp add: insort_insert_key_def set_insort_key)
  have "map_of bs b = (if b \<in> (\<lambda>(band, hash). BucketKey (of_nat band) hash) ` set (e # es)
          then Some (insort_insert key (members_at m b)) else map_of (mb_buckets m) b)" for b
    using bs(3) by (auto simp: e twice)
  moreover have "st_fold (bucket_add key) (e # es) m = (Ok (), m\<lparr>mb_buckets := bs\<rparr>)" using bs(1) step by simp
  ultimately show ?case using bs(2) by blast
next
  case Nil
  then show ?case by (intro exI [of _ "mb_buckets m"]) simp
qed

lemma bucket_drop_loop:
  assumes "\<forall>(band, hash) \<in> set es. band < 4294967296" and "bt_wf (mb_buckets m)"
  shows "\<exists>bs. st_fold (bucket_drop key) es m = (Ok (), m\<lparr>mb_buckets := bs\<rparr>) \<and> bt_wf bs
    \<and> (\<forall>b. map_of bs b = (if b \<in> (\<lambda>(band, hash). BucketKey (of_nat band) hash) ` set es
          then Option.bind (map_of (mb_buckets m) b) (\<lambda>ms. non_empty (removeAll key ms)) else map_of (mb_buckets m) b))"
  using assms
proof (induction es arbitrary: m)
  case (Cons e es)
  obtain band hash where e: "e = (band, hash)" by (cases e)
  let ?b = "BucketKey (of_nat band) hash"
  obtain bs0 where bs0: "bucket_drop key e m = (Ok (), m\<lparr>mb_buckets := bs0\<rparr>)" "bt_wf bs0"
    "\<forall>b. map_of bs0 b = (if b = ?b then Option.bind (map_of (mb_buckets m) b) (\<lambda>ms. non_empty (removeAll key ms)) else map_of (mb_buckets m) b)"
  proof (cases "map_of (mb_buckets m) ?b")
    case None
    then show ?thesis
      using that [of "mb_buckets m"] Cons.prems by (simp add: bucket_drop_def e u32_try_from_def)
  next
    case (Some ms)
    let ?bs = "bt_insert ?b (removeAll key ms) (mb_buckets m)"
    show ?thesis
    proof (cases "removeAll key ms = []")
      case True
      then show ?thesis
        using that [of "bt_remove ?b ?bs"] Some Cons.prems by (simp add: bucket_drop_def e u32_try_from_def Let_def non_empty_def)
    next
      case False
      then show ?thesis
        using that [of ?bs] Some Cons.prems by (simp add: bucket_drop_def e u32_try_from_def Let_def non_empty_def)
    qed
  qed
  let ?m = "m\<lparr>mb_buckets := bs0\<rparr>"
  obtain bs where bs: "st_fold (bucket_drop key) es ?m = (Ok (), ?m\<lparr>mb_buckets := bs\<rparr>)" "bt_wf bs"
    "\<forall>b. map_of bs b = (if b \<in> (\<lambda>(band, hash). BucketKey (of_nat band) hash) ` set es
          then Option.bind (map_of (mb_buckets ?m) b) (\<lambda>ms. non_empty (removeAll key ms)) else map_of (mb_buckets ?m) b)"
    using Cons.IH [of ?m] Cons.prems bs0(2) by auto
  have twice: "Option.bind (non_empty (removeAll key ms)) (\<lambda>ms. non_empty (removeAll key ms)) = non_empty (removeAll key ms)" for ms
    by (auto simp: non_empty_def)
  have "map_of bs b = (if b \<in> (\<lambda>(band, hash). BucketKey (of_nat band) hash) ` set (e # es)
          then Option.bind (map_of (mb_buckets m) b) (\<lambda>ms. non_empty (removeAll key ms)) else map_of (mb_buckets m) b)" for b
    using bs(3) bs0(3) by (auto simp: e twice)
  moreover have "st_fold (bucket_drop key) (e # es) m = (Ok (), m\<lparr>mb_buckets := bs\<rparr>)" using bs(1) bs0(1) by simp
  ultimately show ?case using bs(2) by blast
next
  case Nil
  then show ?case by (intro exI [of _ "mb_buckets m"]) simp
qed

lemma memory_add_law:
  assumes inv: "memory_inv m" and d: "mb_descriptor m = Some d"
    and len: "length (si_band_hashes item) = p_bands (de_params d)" and fresh: "memory_lookup m (si_key item) = None"
  shows "\<exists>m'. memory_add item m = (Ok (), m') \<and> memory_inv m' \<and> mb_descriptor m' = Some d
    \<and> memory_lookup m' = (memory_lookup m)(si_key item \<mapsto> si_band_hashes item)"
proof -
  let ?k = "si_key item" and ?hs = "si_band_hashes item"
  let ?m = "m\<lparr>mb_records := hm_insert ?k ?hs (mb_records m)\<rparr>"
  have short: "length ?hs < 4294967296" using len descriptor_bands [OF memory_invD(5) [OF inv d]] by simp
  obtain bs where bs: "st_fold (bucket_add ?k) (List.enumerate 0 ?hs) ?m = (Ok (), ?m\<lparr>mb_buckets := bs\<rparr>)" "bt_wf bs"
    "\<And>b. map_of bs b = (if b \<in> set (bucket_keys ?hs) then Some (insort_insert ?k (members_at m b)) else map_of (mb_buckets m) b)"
    using bucket_add_loop [OF enumerate_bands [OF short], of ?m ?k] memory_invD(2) [OF inv]
    unfolding keys_of_enumerate by auto
  let ?m' = "?m\<lparr>mb_buckets := bs\<rparr>"
  have lookup: "memory_lookup ?m' = (memory_lookup m)(?k \<mapsto> ?hs)" by auto
  have fin: "finite (bucket_of (memory_lookup m) b)" for b by (rule finite_bucket_of) (simp add: dom_hm_get)
  have "map_of bs b = non_empty (sorted_list_of_set (bucket_of (memory_lookup ?m') b))" for b
  proof (cases "b \<in> set (bucket_keys ?hs)")
    case True
    have "members_at m b = sorted_list_of_set (bucket_of (memory_lookup m) b)"
      using memory_invD(3) [OF inv, of b] by (auto simp: non_empty_def split: if_splits)
    moreover have "?k \<notin> bucket_of (memory_lookup m) b" using fresh by (simp add: bucket_of_def)
    ultimately have "insort_insert ?k (members_at m b) = sorted_list_of_set (insert ?k (bucket_of (memory_lookup m) b))"
      using fin by (simp add: insort_insert_insort)
    then show ?thesis
      using True bucket_of_upd [OF short, of "memory_lookup m" ?k b, OF fresh] unfolding lookup bs(3)
      by (auto simp: non_empty_def fin)
  next
    case False
    then show ?thesis
      using bucket_of_upd [OF short, of "memory_lookup m" ?k b, OF fresh] memory_invD(3) [OF inv, of b] unfolding lookup bs(3) by simp
  qed
  then have "memory_inv ?m'"
    unfolding memory_inv_def using memory_invD [OF inv] d len bs(2) by auto
  then show ?thesis
    using bs(1) d lookup by (auto simp: memory_add_def)
qed

lemma memory_validate_Ok:
  "memory_validate n m items seen = Ok () \<longleftrightarrow>
     (\<forall>item \<in> set items. length (si_band_hashes item) = n \<and> memory_lookup m (si_key item) = None)
     \<and> distinct (map si_key items) \<and> set (map si_key items) \<inter> set seen = {}"
  by (induction items arbitrary: seen) (auto simp: hm_contains_def)

lemma memory_validate_fails:
  assumes "\<forall>item \<in> set items. length (si_band_hashes item) = n"
    and "distinct (map si_key items)" and "set (map si_key items) \<inter> set seen = {}"
    and "set (map si_key items) \<inter> dom (memory_lookup m) \<noteq> {}"
  shows "\<exists>k \<in> set (map si_key items) \<inter> dom (memory_lookup m). memory_validate n m items seen = Err (DuplicateKey k)"
  using assms
proof (induction items arbitrary: seen)
  case (Cons item items)
  show ?case
  proof (cases "si_key item \<in> dom (memory_lookup m)")
    case True
    then show ?thesis using Cons.prems by (auto simp: hm_contains_def)
  next
    case False
    then have "\<exists>k \<in> set (map si_key items) \<inter> dom (memory_lookup m).
        memory_validate n m items (List.insert (si_key item) seen) = Err (DuplicateKey k)"
      using Cons.prems by (intro Cons.IH) auto
    then show ?thesis using False Cons.prems by (auto simp: hm_contains_def domIff)
  qed
qed simp

lemma memory_add_loop:
  assumes "memory_inv m" and "mb_descriptor m = Some d" and "items_fit d items"
    and "distinct (map si_key items)" and "set (map si_key items) \<inter> dom (memory_lookup m) = {}"
  shows "\<exists>m'. st_fold memory_add items m = (Ok (), m') \<and> memory_inv m' \<and> mb_descriptor m' = Some d
    \<and> memory_lookup m' = memory_lookup m ++ items_map items"
  using assms
proof (induction items arbitrary: m)
  case (Cons item items)
  obtain m1 where m1: "memory_add item m = (Ok (), m1)" "memory_inv m1" "mb_descriptor m1 = Some d"
    "memory_lookup m1 = (memory_lookup m)(si_key item \<mapsto> si_band_hashes item)"
    using memory_add_law [OF Cons.prems(1,2), of item] Cons.prems(3,5) by (auto simp: items_fit_def domIff)
  have "set (map si_key items) \<inter> dom (memory_lookup m1) = {}"
    using Cons.prems(4,5) unfolding m1(4) by simp
  then have "\<exists>m'. st_fold memory_add items m1 = (Ok (), m') \<and> memory_inv m' \<and> mb_descriptor m' = Some d
    \<and> memory_lookup m' = memory_lookup m1 ++ items_map items"
    using Cons.prems m1(2,3) by (intro Cons.IH) (simp_all add: items_fit_def)
  moreover have "items_map items (si_key item) = None"
    using Cons.prems(4) by (auto simp: items_map_def map_of_eq_None_iff)
  then have "memory_lookup m1 ++ items_map items = memory_lookup m ++ items_map (item # items)"
    unfolding m1(4) by (auto simp: items_map_def map_add_def fun_eq_iff split: option.split)
  ultimately show ?case using m1(1) by simp
qed (simp add: items_map_def)

lemma memory_insert_law:
  assumes inv: "memory_inv m" and d: "mb_descriptor m = Some d" and fit: "items_fit d items" and dist: "distinct (map si_key items)"
  shows "if set (map si_key items) \<inter> dom (memory_lookup m) = {}
       then \<exists>m'. memory_insert_many items m = (Ok (), m') \<and> memory_inv m' \<and> mb_descriptor m' = mb_descriptor m
          \<and> memory_lookup m' = memory_lookup m ++ items_map items
       else \<exists>k m'. memory_insert_many items m = (Err (DuplicateKey k), m') \<and> k \<in> set (map si_key items) \<inter> dom (memory_lookup m)
          \<and> keeps memory_inv mb_descriptor memory_lookup m m'"
proof (cases "set (map si_key items) \<inter> dom (memory_lookup m) = {}")
  case True
  then have "memory_validate (p_bands (de_params d)) m items [] = Ok ()"
    using fit dist by (auto simp: memory_validate_Ok items_fit_def)
  then show ?thesis
    using memory_add_loop [OF inv d fit dist True] True d by (simp add: memory_insert_many_def)
next
  case False
  then obtain k where "k \<in> set (map si_key items) \<inter> dom (memory_lookup m)"
    "memory_validate (p_bands (de_params d)) m items [] = Err (DuplicateKey k)"
    using memory_validate_fails [of items "p_bands (de_params d)" "[]" m] fit dist by (auto simp: items_fit_def)
  with False show ?thesis
    using d inv by (simp add: memory_insert_many_def keeps_def)
qed

lemma memory_delete_step:
  assumes inv: "memory_inv m" and d: "mb_descriptor m = Some d" and hs: "memory_lookup m k = Some hs"
  shows "\<exists>m'. st_fold (bucket_drop k) (List.enumerate 0 hs) (m\<lparr>mb_records := hm_remove k (mb_records m)\<rparr>) = (Ok (), m')
    \<and> memory_inv m' \<and> mb_descriptor m' = Some d \<and> memory_lookup m' = (memory_lookup m)(k := None)"
proof -
  let ?m = "m\<lparr>mb_records := hm_remove k (mb_records m)\<rparr>"
  have short: "length hs < 4294967296"
    using memory_invD(6) [OF inv d hs] descriptor_bands [OF memory_invD(5) [OF inv d]] by simp
  obtain bs where bs: "st_fold (bucket_drop k) (List.enumerate 0 hs) ?m = (Ok (), ?m\<lparr>mb_buckets := bs\<rparr>)" "bt_wf bs"
    "\<And>b. map_of bs b = (if b \<in> set (bucket_keys hs)
        then Option.bind (map_of (mb_buckets m) b) (\<lambda>ms. non_empty (removeAll k ms)) else map_of (mb_buckets m) b)"
    using bucket_drop_loop [OF enumerate_bands [OF short], of ?m k] memory_invD(2) [OF inv]
    unfolding keys_of_enumerate by auto
  let ?m' = "?m\<lparr>mb_buckets := bs\<rparr>"
  have lookup: "memory_lookup ?m' = (memory_lookup m)(k := None)" by auto
  have "map_of bs b = non_empty (sorted_list_of_set (bucket_of (memory_lookup ?m') b))" for b
  proof -
    let ?A = "bucket_of (memory_lookup m) b"
    have fin: "finite ?A" by (rule finite_bucket_of) (simp add: dom_hm_get)
    then have "sorted_list_of_set (?A - {k}) = removeAll k (sorted_list_of_set ?A)"
      by (simp add: sorted_list_of_set.sorted_key_list_of_set_remove distinct_remove1_removeAll)
    moreover have "k \<in> ?A \<longleftrightarrow> b \<in> set (bucket_keys hs)" by (rule bucket_of_key [where f = "memory_lookup m", OF short hs])
    ultimately show ?thesis
      unfolding lookup bucket_of_del bs(3) memory_invD(3) [OF inv] by (auto simp: non_empty_def fin)
  qed
  then have "memory_inv ?m'"
    unfolding memory_inv_def using memory_invD [OF inv] d bs(2) by auto
  then show ?thesis using bs(1) d lookup by auto
qed

lemma memory_delete_loop:
  assumes "memory_inv m" and "mb_descriptor m = Some d"
  shows "\<exists>m'. delete_loop ks n m = (Ok (n + card (set ks \<inter> dom (memory_lookup m))), m') \<and> memory_inv m' \<and> mb_descriptor m' = Some d
    \<and> memory_lookup m' = memory_lookup m |` (- set ks)"
  using assms
proof (induction ks arbitrary: n m)
  case (Cons k ks)
  show ?case
  proof (cases "memory_lookup m k")
    case None
    then have "memory_lookup m |` (- set ks) = memory_lookup m |` (- set (k # ks))"
      by (auto simp: restrict_map_def fun_eq_iff)
    moreover have "set ks \<inter> dom (memory_lookup m) = set (k # ks) \<inter> dom (memory_lookup m)" using None by auto
    ultimately show ?thesis using Cons.IH [OF Cons.prems, of n] None by simp
  next
    case (Some hs)
    obtain m1 where m1: "st_fold (bucket_drop k) (List.enumerate 0 hs) (m\<lparr>mb_records := hm_remove k (mb_records m)\<rparr>) = (Ok (), m1)"
      "memory_inv m1" "mb_descriptor m1 = Some d" "memory_lookup m1 = (memory_lookup m)(k := None)"
      using memory_delete_step [OF Cons.prems Some] by auto
    have "set (k # ks) \<inter> dom (memory_lookup m) = insert k (set ks \<inter> dom (memory_lookup m1))"
      using Some by (auto simp: m1(4))
    moreover have "k \<notin> set ks \<inter> dom (memory_lookup m1)" by (simp add: m1(4))
    ultimately have "card (set (k # ks) \<inter> dom (memory_lookup m)) = Suc (card (set ks \<inter> dom (memory_lookup m1)))" by simp
    moreover have "memory_lookup m1 |` (- set ks) = memory_lookup m |` (- set (k # ks))"
      by (auto simp: m1(4) restrict_map_def fun_eq_iff)
    ultimately show ?thesis using Cons.IH [OF m1(2,3), of "n + 1"] Some m1(1) by simp
  qed
qed (simp add: restrict_map_def)

lemma memory_no_ttl: "\<not> capabilities_supports Ttl MEMORY_CAPABILITIES"
  by (simp add: capabilities_supports_def MEMORY_CAPABILITIES_def)

lemma memory_empty_buckets: "memory_inv m \<Longrightarrow> mb_records m = [] \<Longrightarrow> mb_buckets m = []"
proof -
  assume inv: "memory_inv m" and "mb_records m = []"
  then have "map_of (mb_buckets m) b = None" for b
    using memory_invD(3) [OF inv, of b] by (simp add: bucket_of_def non_empty_def)
  then show ?thesis by (cases "mb_buckets m") (auto split: if_splits, metis option.distinct(1))
qed

interpretation memory: backend_contract memory_backend memory_inv mb_descriptor memory_lookup
proof unfold_locales
  fix m d
  assume inv: "memory_inv m" and d: "descriptor_valid d"
    and ttl: "de_retention d \<noteq> None \<longrightarrow> capabilities_supports Ttl (sb_capabilities memory_backend m)"
  have "de_retention d = None" using ttl memory_no_ttl by (auto simp: memory_backend_def)
  moreover have "mb_records m = []" and "mb_buckets m = []" if "mb_descriptor m = None"
    using memory_invD(4) [OF inv that] memory_empty_buckets [OF inv] by simp_all
  moreover have "memory_inv (m\<lparr>mb_descriptor := Some d\<rparr>)" if "mb_descriptor m = None"
    using inv d memory_invD(4) [OF inv that] that by (simp add: memory_inv_def)
  ultimately show "if mb_descriptor m = None
       then \<exists>m'. sb_initialize memory_backend d m = (Ok (), m') \<and> memory_inv m' \<and> mb_descriptor m' = Some d \<and> memory_lookup m' = Map.empty
       else \<exists>m'. sb_initialize memory_backend d m = (Err AlreadyExists, m') \<and> keeps memory_inv mb_descriptor memory_lookup m m'"
    using inv by (auto simp: memory_backend_def memory_initialize_def keeps_def fun_eq_iff)
next
  fix m d items
  assume "memory_inv m" and "mb_descriptor m = Some d" and "items_fit d items" and "distinct (map si_key items)"
  from memory_insert_law [OF this]
  show "if set (map si_key items) \<inter> dom (memory_lookup m) = {}
       then \<exists>m'. sb_insert_many memory_backend items m = (Ok (), m') \<and> memory_inv m' \<and> mb_descriptor m' = mb_descriptor m
          \<and> memory_lookup m' = memory_lookup m ++ items_map items
       else \<exists>k m'. sb_insert_many memory_backend items m = (Err (DuplicateKey k), m') \<and> k \<in> set (map si_key items) \<inter> dom (memory_lookup m)
          \<and> keeps memory_inv mb_descriptor memory_lookup m m'"
    by (simp only: memory_backend_def storage_backend.select_convs)
next
  fix m d ks
  assume "memory_inv m" and "mb_descriptor m = Some d"
  from memory_delete_loop [OF this, of ks 0] \<open>mb_descriptor m = Some d\<close>
  show "\<exists>m'. sb_delete_many memory_backend ks m = (Ok (card (set ks \<inter> dom (memory_lookup m))), m') \<and> memory_inv m'
      \<and> mb_descriptor m' = mb_descriptor m \<and> memory_lookup m' = memory_lookup m |` (- set ks)"
    by (auto simp: memory_backend_def memory_delete_many_def)
next
  fix m d and bs :: "bucket_key list"
  assume inv: "memory_inv m" and "mb_descriptor m = Some d"
  have "set (members_at m b) = bucket_of (memory_lookup m) b" for b
    using memory_invD(3) [OF inv, of b] finite_bucket_of [of "memory_lookup m" b]
    by (auto simp: non_empty_def dom_hm_get split: if_splits)
  then show "\<exists>rows m'. sb_query_buckets memory_backend bs m = (Ok rows, m') \<and> length rows = length bs
        \<and> (\<forall>i < length bs. set (rows ! i) = bucket_of (memory_lookup m) (bs ! i)) \<and> keeps memory_inv mb_descriptor memory_lookup m m'"
    using inv by (simp add: memory_backend_def memory_query_buckets_def keeps_def)
next
  fix m d assume inv: "memory_inv m" and d: "mb_descriptor m = Some d"
  show "descriptor_valid d \<and> finite (dom (memory_lookup m)) \<and> (\<forall>hs \<in> ran (memory_lookup m). length hs = p_bands (de_params d))"
    using memory_invD(5,6) [OF inv d] by (auto simp: dom_hm_get ran_def)
qed (auto simp: memory_backend_def memory_load_descriptor_def memory_contains_many_def keeps_def hm_contains_def domIff)

lemma encode_decode_descriptor:
  assumes "descriptor_valid d"
  shows "\<exists>bs. encode_descriptor d = Ok bs \<and> length bs = 56 \<and> decode_descriptor bs = Ok d"
proof -
  let ?secs = "case de_retention d of None \<Rightarrow> NO_RETENTION | Some value \<Rightarrow> as_secs value"
  let ?p = "de_params d"
  let ?bs = "DESCRIPTOR_MAGIC @ le64 (de_threshold d) @ le64 (of_nat (de_num_perm d)) @ le64 (de_seed d)
    @ le64 (of_nat (p_bands ?p)) @ le64 (of_nat (p_rows ?p)) @ le64 ?secs"
  have bounds: "de_num_perm d < usize_limit" "p_bands ?p < usize_limit" "p_rows ?p < usize_limit"
    using assms descriptor_bands [OF assms] by (simp_all add: descriptor_valid_def)
  then have "encode_descriptor d = Ok ?bs"
    by (simp add: encode_descriptor_def usize_to_u64_def u64_try_from_def)
  moreover have "(if ?secs = NO_RETENTION then Ok None else if ?secs = 0 then Err InvalidRetention
                 else Ok (Some \<lparr>as_secs = ?secs, subsec_nanos = 0\<rparr>)) = (Ok (de_retention d) :: (duration option, backend_error) result)"
  proof (cases "de_retention d")
    case (Some v)
    then have "\<not> invalid_retention v" using assms by (simp add: descriptor_valid_def)
    moreover from this have "as_secs v \<noteq> NO_RETENTION" by (auto simp: invalid_retention_def)
    ultimately show ?thesis using Some by (cases v) (simp add: invalid_retention_def)
  qed simp
  moreover have "index_descriptor_new (de_threshold d) (de_num_perm d) (de_seed d)
      \<lparr>p_bands = p_bands ?p, p_rows = p_rows ?p\<rparr> (de_retention d) = Ok d"
    using assms by (simp add: index_descriptor_new_Ok)
  ultimately show ?thesis
    using bounds by (simp add: decode_descriptor_fields unat_of_nat_u64) (simp add: DESCRIPTOR_MAGIC_def)
qed

lemma split_le64: "8 \<le> length bs \<Longrightarrow> bs = le64 (from_le_bytes (take 8 bs)) @ drop 8 bs"
  by (simp add: le64_from_le_bytes)

lemma decode_encode_descriptor:
  assumes "decode_descriptor bs = Ok d"
  shows "descriptor_valid d \<and> encode_descriptor d = Ok bs"
proof -
  have len: "length bs = 56" and magic: "take 8 bs = DESCRIPTOR_MAGIC"
    using assms by (auto simp: decode_descriptor_def res_simps)
  have "\<exists>t n s b r secs. bs = take 8 bs @ le64 t @ le64 n @ le64 s @ le64 b @ le64 r @ le64 secs"
  proof (intro exI)
    show "bs = take 8 bs @ le64 (from_le_bytes (take 8 (drop 8 bs))) @ le64 (from_le_bytes (take 8 (drop 16 bs)))
        @ le64 (from_le_bytes (take 8 (drop 24 bs))) @ le64 (from_le_bytes (take 8 (drop 32 bs)))
        @ le64 (from_le_bytes (take 8 (drop 40 bs))) @ le64 (from_le_bytes (take 8 (drop 48 bs)))"
      using len split_le64 [of "drop 8 bs"] split_le64 [of "drop 16 bs"] split_le64 [of "drop 24 bs"]
        split_le64 [of "drop 32 bs"] split_le64 [of "drop 40 bs"] split_le64 [of "drop 48 bs"]
        append_take_drop_id [of 8 bs] by simp
  qed
  then obtain t n s b r secs where bs: "bs = DESCRIPTOR_MAGIC @ le64 t @ le64 n @ le64 s @ le64 b @ le64 r @ le64 secs"
    unfolding magic by blast
  define retention where "retention = (if secs = NO_RETENTION then None else Some \<lparr>as_secs = secs, subsec_nanos = 0\<rparr>)"
  have "index_descriptor_new t (unat n) s \<lparr>p_bands = unat b, p_rows = unat r\<rparr> retention = Ok d"
    using assms unfolding bs decode_descriptor_fields by (auto simp: retention_def split: if_splits)
  then have d: "d = \<lparr>de_threshold = t, de_num_perm = unat n, de_seed = s, de_params = \<lparr>p_bands = unat b, p_rows = unat r\<rparr>,
      de_retention = retention\<rparr>" and valid: "descriptor_valid d"
    by (auto simp: index_descriptor_new_Ok)
  have "encode_descriptor d = Ok bs"
    using unat_u64_less by (auto simp: d encode_descriptor_def usize_to_u64_def u64_try_from_def retention_def bs)
  with valid show ?thesis by blast
qed

section \<open>Properties\<close>

text \<open>C8: Over any backend that keeps the contract of the trait, a batch of queries returns for every
  sketch what the in-memory index with the same records, seed and parameters returns for it; an incompatible
  sketch fails with the error the in-memory index reports.\<close>

theorem backend_query_agrees:
  assumes contract: "backend_contract B invar desc lookup"
    and state: "invar (bi_backend index)" "desc (bi_backend index) = Some (bi_descriptor index)"
    and reference: "index_wf reference" "idx_seed reference = de_seed (bi_descriptor index)"
      "idx_num_perm reference = de_num_perm (bi_descriptor index)" "idx_params reference = de_params (bi_descriptor index)"
      "index_lookup reference = lookup (bi_backend index)"
  shows "fst (backend_query_many B sketches elapsed index)
     = map_err IndexError (try_map (\<lambda>sketch. and_then (LshIndex32_query sketch t reference) (\<lambda>r. Ok (fst r))) sketches)"
proof -
  let ?d = "bi_descriptor index"
  let ?q = "\<lambda>sketch. and_then (LshIndex32_query sketch t reference) (\<lambda>r. Ok (fst r))"
  let ?answer = "\<lambda>sketch. sorted_list_of_set (band_matches (lookup (bi_backend index)) (bands_of ?d sketch))"
  note index_ok = backend_contract.index_ok_def [OF contract, of index, THEN iffD2, OF conjI, OF state]
  have fits: "?q sketch = Ok (?answer sketch)" if "sketch_fits ?d sketch" for sketch
  proof -
    have "index_compatible sketch reference" using that reference by (simp add: sketch_fits_def index_compatible_def)
    from index_query_result [OF hash_band32_total reference(1) this, of t]
    show ?thesis using reference by (auto simp: LshIndex32_query_def)
  qed
  have misfits: "?q sketch = Err (misfit ?d sketch)" if "\<not> sketch_fits ?d sketch" for sketch
    using that reference
    by (auto simp: LshIndex32_query_def index_query_def index_ensure_compatible_def sketch_fits_def misfit_def)
  show ?thesis
  proof (cases "\<forall>sketch \<in> set sketches. sketch_fits ?d sketch")
    case True
    then have "try_map ?q sketches = Ok (map ?answer sketches)" by (intro try_map_all_ok) (simp add: fits)
    with backend_contract.query_many_law [OF contract index_ok True, of elapsed] show ?thesis by auto
  next
    case False
    then obtain good bad rest where split: "sketches = good @ bad # rest" "\<forall>sketch \<in> set good. sketch_fits ?d sketch"
      "\<not> sketch_fits ?d bad"
      using split_list_first_prop [of sketches "\<lambda>sketch. \<not> sketch_fits ?d sketch"] by blast
    have "try_map ?q (good @ bad # rest) = Err (misfit ?d bad)"
      using split(2) by (induction good) (simp_all add: fits misfits [OF split(3)])
    with backend_contract.query_many_misfit [OF contract index_ok split(2,3), of rest elapsed] show ?thesis
      by (simp add: split(1))
  qed
qed

text \<open>C40: \<open>MemoryBackend\<close> keeps the contract of the trait, so an index over it is a map from keys to
  band hashes: a batch is inserted completely or not at all, removal counts each stored key once
  and forgets exactly the given keys, membership is exact and in input order, and every operation
  keeps the bucket table equal to the inverted records without empty buckets.\<close>

theorem memory_index_exact:
  assumes inv: "memory_inv (bi_backend index)" and desc: "mb_descriptor (bi_backend index) = Some (bi_descriptor index)"
  shows "(case backend_insert_many memory_backend items index of
        (Ok _, index') \<Rightarrow> memory_inv (bi_backend index') \<and> distinct (map fst items)
          \<and> memory_lookup (bi_backend index') = memory_lookup (bi_backend index)
              ++ map_of (map (\<lambda>(key, sketch). (key, bands_of (bi_descriptor index) sketch)) items)
      | (Err e, index') \<Rightarrow> memory_inv (bi_backend index') \<and> memory_lookup (bi_backend index') = memory_lookup (bi_backend index)
      | (Panic, _) \<Rightarrow> False)
    \<and> (\<exists>index'. backend_remove_many memory_backend ks index = (Ok (card (set ks \<inter> dom (memory_lookup (bi_backend index)))), index')
        \<and> memory_inv (bi_backend index') \<and> memory_lookup (bi_backend index') = memory_lookup (bi_backend index) |` (- set ks))
    \<and> (\<exists>index'. backend_contains_many memory_backend ks index = (Ok (map (\<lambda>k. k \<in> dom (memory_lookup (bi_backend index))) ks), index')
        \<and> memory_inv (bi_backend index') \<and> memory_lookup (bi_backend index') = memory_lookup (bi_backend index))"
proof -
  have ok: "memory.index_ok index" using inv desc by (simp add: memory.index_ok_def)
  have "case backend_insert_many memory_backend items index of
        (Ok _, index') \<Rightarrow> memory_inv (bi_backend index') \<and> distinct (map fst items)
          \<and> memory_lookup (bi_backend index') = memory_lookup (bi_backend index)
              ++ map_of (map (\<lambda>(key, sketch). (key, bands_of (bi_descriptor index) sketch)) items)
      | (Err e, index') \<Rightarrow> memory_inv (bi_backend index') \<and> memory_lookup (bi_backend index') = memory_lookup (bi_backend index)
      | (Panic, _) \<Rightarrow> False"
    using memory.insert_many_law [OF ok, of items]
    by (auto simp: memory.index_ok_def batch_ok_def split: prod.splits result.splits)
  then show ?thesis
    using memory.remove_many_law [OF ok, of ks] memory.contains_many_law [OF ok, of ks]
    by (auto simp: memory.index_ok_def)
qed

text \<open>The 56-byte descriptor encoding is exact: a valid descriptor encodes without error and decodes
  to itself, with its retention, and every byte string that decodes at all decodes to a valid
  descriptor whose encoding is that byte string.\<close>

lemma descriptor_roundtrip:
  "(descriptor_valid d \<longrightarrow> (\<exists>bs. encode_descriptor d = Ok bs \<and> length bs = 56 \<and> decode_descriptor bs = Ok d))
   \<and> (decode_descriptor bs = Ok d \<longrightarrow> descriptor_valid d \<and> encode_descriptor d = Ok bs)"
  using encode_decode_descriptor [of d] decode_encode_descriptor [of bs d] by blast


section \<open>Instances\<close>

definition example_descriptor :: index_descriptor where
  "example_descriptor = \<lparr>de_threshold = f64_half, de_num_perm = 2, de_seed = 42,
     de_params = \<lparr>p_bands = 2, p_rows = 1\<rparr>, de_retention = None\<rparr>"

definition example_backend_index :: "memory backend_index" where
  "example_backend_index = \<lparr>bi_backend = memory_new\<lparr>mb_descriptor := Some example_descriptor\<rparr>,
     bi_descriptor = example_descriptor, bi_query_metrics = None, bi_known_items = Some 0\<rparr>"

lemma example_descriptor_valid: "descriptor_valid example_descriptor"
  by (simp add: descriptor_valid_def example_descriptor_def params_valid_def)

lemma example_backend_inv:
  "memory_inv (bi_backend example_backend_index)"
  "mb_descriptor (bi_backend example_backend_index) = Some (bi_descriptor example_backend_index)"
  "memory_lookup (bi_backend example_backend_index) = Map.empty"
  using example_descriptor_valid
  by (auto simp: memory_inv_def example_backend_index_def memory_new_def bucket_of_def non_empty_def)

theorem backend_query_agrees_witness:
  "fst (backend_query_many memory_backend [example_sketch [1, 2]] 0 example_backend_index) = Ok [[]]"
proof -
  have "\<exists>index'. LshIndex32_query (example_sketch [1, 2]) 0 example_index = Ok ([], index')"
    using index_query_result [OF hash_band32_total example_index_wf example_compatible [of "[1, 2]"], of 0]
    by (auto simp: LshIndex32_query_def example_index_empty band_matches_def)
  then show ?thesis
    using backend_query_agrees [OF memory.backend_contract_axioms example_backend_inv(1,2) example_index_wf,
        of "[example_sketch [1, 2]]" 0 0] example_backend_inv(3)
    by (auto simp: example_index_empty) (auto simp: example_backend_index_def example_descriptor_def example_index_def)
qed

theorem memory_index_exact_witness:
  "fst (backend_remove_many memory_backend [5, 5] example_backend_index) = Ok 0
   \<and> fst (backend_contains_many memory_backend [5] example_backend_index) = Ok [False]"
  using memory_index_exact [OF example_backend_inv(1,2), of "[]" "[5, 5]"]
    memory_index_exact [OF example_backend_inv(1,2), of "[]" "[5]"]
  by (auto simp: example_backend_inv(3))

end
