(* ===== verification/Pari_Snapshot.thy ===== *)
theory Pari_Snapshot
  imports Pari_Bands
begin

text \<open>
  Crate \<open>pari-store\<close>, snapshots (\<open>crates/pari-store/src/lib.rs\<close>): the state of a persistent index, the
  encoding of its keys, band hashes and buckets into a container, and the opening of a container,
  with the legacy form that has no bucket sections. An open file is a \<open>reader\<close> of \<open>Pari_Layout\<close> over the
  bytes it had when it was opened: published snapshots are never changed in place. CRC-32 and its
  hasher are parameters.

  The lemmas show which states have a snapshot, and that opening the snapshot of a state yields the
  same keys and band hashes with a bucket directory that lists exactly the keys of every bucket.
\<close>

section \<open>State and errors\<close>

type_synonym path = "string list"

datatype store_error =
    StoreIo io_error
  | StoreFormat format_error
  | StoreLayout layout_error
  | StoreBucket bucket_error
  | StoreIndex lsh_error
  | InvalidSnapshot string
  | StoreDuplicateKey u64
  | StoreIncompatibleSeed u64 u64
  | StoreIncompatiblePermutationCount usize usize
  | StoreLengthOverflow
  | InvalidPath
  | PoisonedFileLock

text \<open>The mutex around the file is the flag that a panicking holder leaves behind.\<close>

record lazy_base =
  lb_file :: reader
  lb_poisoned :: bool
  lb_layout :: file_layout
  lb_buckets :: "bucket_location list"

record store =
  so_path :: path
  so_threshold :: f64
  so_num_perm :: usize
  so_seed :: u64
  so_params :: lsh_params
  so_scheme :: signature_scheme
  so_base :: "lazy_base option"
  so_overlay_buckets :: "(u64, u64 list) hashmap list"
  so_overlay_keys :: "u64 list"
  so_suppressed_base_keys :: "u64 list"
  so_key_hashes :: "(u64, u64 list) btreemap"
  so_dirty :: bool
  so_query_metrics :: "query_metrics option"

definition empty_bucket_tables :: "usize \<Rightarrow> (u64, u64 list) hashmap list" where
  "empty_bucket_tables bands = replicate bands []"

definition store_empty :: "path \<Rightarrow> f64 \<Rightarrow> usize \<Rightarrow> u64 \<Rightarrow> lsh_params \<Rightarrow> signature_scheme \<Rightarrow> store" where
  "store_empty path threshold num_perm seed params scheme =
     \<lparr>so_path = path, so_threshold = threshold, so_num_perm = num_perm, so_seed = seed, so_params = params,
      so_scheme = scheme, so_base = None, so_overlay_buckets = empty_bucket_tables (p_bands params),
      so_overlay_keys = [], so_suppressed_base_keys = [], so_key_hashes = [], so_dirty = True, so_query_metrics = None\<rparr>"

section \<open>Keys and band hashes\<close>

abbreviation COUNT_BYTES :: usize where "COUNT_BYTES \<equiv> 8"

definition store_read_u64 :: "bytes \<Rightarrow> (u64, store_error) result" where
  "store_read_u64 bs = (if length bs = U64_BYTES then Ok (from_le_bytes bs)
     else Err (InvalidSnapshot ''fixed-width u64 field is truncated''))"

definition read_count :: "bytes \<Rightarrow> (usize, store_error) result" where
  "read_count payload =
     and_then (ok_or (InvalidSnapshot ''section is missing its record count'') (slice_get payload 0 COUNT_BYTES)) (\<lambda>raw.
     and_then (store_read_u64 raw) (\<lambda>count. Ok (unat count)))"

definition payload_bytes :: "usize \<Rightarrow> usize \<Rightarrow> (usize, store_error) result" where
  "payload_bytes count width =
     and_then (ok_or StoreLengthOverflow (checked_mul_usize count width)) (\<lambda>bytes.
     ok_or StoreLengthOverflow (checked_add_usize COUNT_BYTES bytes))"

definition encode_keys :: "u64 list \<Rightarrow> (bytes, store_error) result" where
  "encode_keys keys =
     and_then (ok_or StoreLengthOverflow (u64_try_from (length keys))) (\<lambda>count.
     and_then (payload_bytes (length keys) U64_BYTES) (\<lambda>capacity.
     Ok (le64 count @ concat (map le64 keys))))"

definition decode_keys :: "bytes \<Rightarrow> (u64 list, store_error) result" where
  "decode_keys payload =
     and_then (read_count payload) (\<lambda>count.
     and_then (payload_bytes count U64_BYTES) (\<lambda>expected.
     and_then (err_if (length payload \<noteq> expected) (InvalidSnapshot ''keys section length does not match its record count'')) (\<lambda>_.
     try_map store_read_u64 (chunks_exact U64_BYTES (drop COUNT_BYTES payload)))))"

definition encode_band_hashes :: "u64 list list \<Rightarrow> usize \<Rightarrow> (bytes, store_error) result" where
  "encode_band_hashes rows bands =
     and_then (ok_or StoreLengthOverflow (u64_try_from (length rows))) (\<lambda>count.
     and_then (ok_or StoreLengthOverflow (checked_mul_usize (length rows) bands)) (\<lambda>values.
     and_then (payload_bytes values U64_BYTES) (\<lambda>capacity.
     fold_result (\<lambda>hashes output.
         and_then (err_if (length hashes \<noteq> bands) (InvalidSnapshot ''in-memory band-hash row has the wrong width'')) (\<lambda>_.
         Ok (output @ concat (map le64 hashes))))
       rows (le64 count))))"

definition decode_band_hashes :: "bytes \<Rightarrow> usize \<Rightarrow> (u64 list list, store_error) result" where
  "decode_band_hashes payload bands =
     and_then (read_count payload) (\<lambda>count.
     and_then (ok_or StoreLengthOverflow (checked_mul_usize bands U64_BYTES)) (\<lambda>row_bytes.
     and_then (payload_bytes count row_bytes) (\<lambda>expected.
     and_then (err_if (length payload \<noteq> expected)
       (InvalidSnapshot ''band-hash section length does not match metadata and record count'')) (\<lambda>_.
     if row_bytes = 0 then Panic
     else try_map (\<lambda>row. try_map store_read_u64 (chunks_exact U64_BYTES row))
            (chunks_exact row_bytes (drop COUNT_BYTES payload))))))"

section \<open>Bucket sections\<close>

definition materialize_key :: "usize \<Rightarrow> u64 \<times> u64 list \<Rightarrow> (bucket_key, u64 list) btreemap
    \<Rightarrow> ((bucket_key, u64 list) btreemap, store_error) result" where
  "materialize_key bands entry bucket_map =
     (let (key, hashes) = entry
      in and_then (err_if (length hashes \<noteq> bands) (InvalidSnapshot ''in-memory band-hash row has the wrong width'')) (\<lambda>_.
         fold_result (\<lambda>(band, hash) buckets.
             and_then (ok_or StoreLengthOverflow (u32_try_from band)) (\<lambda>band.
             Ok (bt_push (BucketKey band hash) key buckets)))
           (List.enumerate 0 hashes) bucket_map))"

definition materialize_sorted_buckets ::
  "(u64, u64 list) btreemap \<Rightarrow> usize \<Rightarrow> ((bucket_key, u64 list) btreemap, store_error) result" where
  "materialize_sorted_buckets key_hashes bands = fold_result (materialize_key bands) key_hashes []"

definition push_bucket_section :: "(bytes \<Rightarrow> u32) \<Rightarrow> index_section list \<Rightarrow> (bucket_key \<times> u64 list) list
    \<Rightarrow> (index_section list, store_error) result" where
  "push_bucket_section crc sections records =
     and_then (map_err StoreBucket
       (encode_bucket_segment crc (map (\<lambda>(key, members). \<lparr>br_key = key, br_members = members\<rparr>) records))) (\<lambda>payload.
     and_then (map_err StoreFormat (section_new Buckets True payload)) (\<lambda>section.
     Ok (sections @ [section])))"

text \<open>The loop that starts a new segment when the next record would exceed the target size.\<close>

type_synonym segmenter = "index_section list \<times> (bucket_key \<times> u64 list) list \<times> usize"

definition segment_step :: "(bytes \<Rightarrow> u32) \<Rightarrow> bucket_key \<times> u64 list \<Rightarrow> segmenter \<Rightarrow> (segmenter, store_error) result" where
  "segment_step crc record state =
     (let (sections, current, estimated) = state
      in and_then (map_err StoreBucket (bucket_record_size (length (snd record)))) (\<lambda>contribution.
         and_then
           (if current \<noteq> []
            then and_then (ok_or StoreLengthOverflow (checked_add_usize estimated contribution)) (\<lambda>size.
                 if BUCKET_SEGMENT_TARGET_BYTES < size
                 then and_then (push_bucket_section crc sections current) (\<lambda>sections.
                      Ok (sections, [], BUCKET_SEGMENT_HEADER_BYTES))
                 else Ok (sections, current, estimated))
            else Ok (sections, current, estimated)) (\<lambda>(sections, current, estimated).
         and_then (ok_or StoreLengthOverflow (checked_add_usize estimated contribution)) (\<lambda>estimated.
         Ok (sections, current @ [record], estimated)))))"

definition append_bucket_sections :: "(bytes \<Rightarrow> u32) \<Rightarrow> (u64, u64 list) btreemap \<Rightarrow> usize \<Rightarrow> index_section list
    \<Rightarrow> (index_section list, store_error) result" where
  "append_bucket_sections crc key_hashes bands sections =
     and_then (materialize_sorted_buckets key_hashes bands) (\<lambda>buckets.
     if buckets = [] then push_bucket_section crc sections []
     else and_then (fold_result (segment_step crc) buckets (sections, [], BUCKET_SEGMENT_HEADER_BYTES)) (\<lambda>(sections, current, estimated).
          if current \<noteq> [] then push_bucket_section crc sections current else Ok sections))"

definition encode_snapshot :: "(bytes \<Rightarrow> u32) \<Rightarrow> store \<Rightarrow> (bytes, store_error) result" where
  "encode_snapshot crc s =
     and_then (ok_or StoreLengthOverflow (u32_try_from (so_num_perm s))) (\<lambda>num_perm.
     and_then (ok_or StoreLengthOverflow (u32_try_from (p_bands (so_params s)))) (\<lambda>bands.
     and_then (ok_or StoreLengthOverflow (u32_try_from (p_rows (so_params s)))) (\<lambda>rows.
     and_then (map_err StoreFormat (index_metadata_new MinHashLsh (so_scheme s) CodecU64 num_perm (so_seed s)
       (so_threshold s) bands rows 0)) (\<lambda>metadata.
     and_then (encode_keys (map fst (so_key_hashes s))) (\<lambda>keys.
     and_then (encode_band_hashes (map snd (so_key_hashes s)) (p_bands (so_params s))) (\<lambda>hashes.
     and_then (map_err StoreFormat (section_new Keys True keys)) (\<lambda>keys_section.
     and_then (map_err StoreFormat (section_new BandHashes True hashes)) (\<lambda>hashes_section.
     and_then (append_bucket_sections crc (so_key_hashes s) (p_bands (so_params s)) [keys_section, hashes_section]) (\<lambda>sections.
     and_then (map_err StoreFormat (index_file_new metadata sections)) (\<lambda>file.
     map_err StoreFormat (index_file_encode crc file)))))))))))"

section \<open>Opening\<close>

definition validate_store_metadata :: "index_metadata \<Rightarrow> signature_scheme \<Rightarrow> (unit, store_error) result" where
  "validate_store_metadata metadata expected_scheme =
     and_then (err_if (md_algorithm metadata \<noteq> MinHashLsh) (InvalidSnapshot ''snapshot algorithm is not MinHash LSH'')) (\<lambda>_.
     and_then (err_if (md_signature_scheme metadata \<noteq> expected_scheme)
       (InvalidSnapshot ''snapshot signature scheme does not match the persistent index type'')) (\<lambda>_.
     and_then (err_if (md_key_codec metadata \<noteq> CodecU64) (InvalidSnapshot ''local store requires u64 keys'')) (\<lambda>_.
     err_if (md_feature_flags metadata \<noteq> 0) (InvalidSnapshot ''local store does not support feature flags''))))"

text \<open>Both index types validate their configuration with the same code.\<close>

definition validate_lsh_configuration :: "signature_scheme \<Rightarrow> f64 \<Rightarrow> usize \<Rightarrow> u64 \<Rightarrow> lsh_params \<Rightarrow> (unit, store_error) result" where
  "validate_lsh_configuration scheme threshold num_perm seed params =
     (case scheme of
        PariAffine32V1 \<Rightarrow> and_then (map_err StoreIndex (index_with_params threshold num_perm seed params)) (\<lambda>_. Ok ())
      | PariAffine64V1 \<Rightarrow> and_then (map_err StoreIndex (index_with_params threshold num_perm seed params)) (\<lambda>_. Ok ()))"

fun missing_section_reason :: "section_kind \<Rightarrow> string" where
  "missing_section_reason Keys = ''missing required keys section''"
| "missing_section_reason BandHashes = ''missing required band-hash section''"
| "missing_section_reason Buckets = ''missing required bucket section''"
| "missing_section_reason Tombstones = ''missing required tombstone section''"

fun duplicate_section_reason :: "section_kind \<Rightarrow> string" where
  "duplicate_section_reason Keys = ''duplicate keys section''"
| "duplicate_section_reason BandHashes = ''duplicate band-hash section''"
| "duplicate_section_reason Buckets = ''duplicate singleton bucket section''"
| "duplicate_section_reason Tombstones = ''duplicate tombstone section''"

definition required_unique_section :: "file_layout \<Rightarrow> section_kind \<Rightarrow> (section_descriptor, store_error) result" where
  "required_unique_section layout kind =
     (case filter (\<lambda>descriptor. sd_kind descriptor = kind) (fl_sections layout) of
        [] \<Rightarrow> Err (InvalidSnapshot (missing_section_reason kind))
      | descriptor # matches \<Rightarrow>
          and_then (err_if (matches \<noteq> []) (InvalidSnapshot (duplicate_section_reason kind))) (\<lambda>_.
          and_then (err_if (\<not> sd_required descriptor) (InvalidSnapshot ''required metadata section is marked optional'')) (\<lambda>_.
          Ok descriptor)))"

definition collect_bucket_descriptor :: "section_descriptor \<Rightarrow> section_descriptor list \<Rightarrow> (section_descriptor list, store_error) result" where
  "collect_bucket_descriptor descriptor collected =
     (case sd_kind descriptor of
        Buckets \<Rightarrow> and_then (err_if (\<not> sd_required descriptor) (InvalidSnapshot ''lazy bucket sections must be required'')) (\<lambda>_.
                   Ok (collected @ [descriptor]))
      | Tombstones \<Rightarrow> and_then (err_if (sd_required descriptor)
                        (InvalidSnapshot ''required tombstone sections are not supported'')) (\<lambda>_. Ok collected)
      | _ \<Rightarrow> Ok collected)"

definition collect_bucket_descriptors :: "file_layout \<Rightarrow> (section_descriptor list, store_error) result" where
  "collect_bucket_descriptors layout = fold_result collect_bucket_descriptor (fl_sections layout) []"

definition insert_unique :: "u64 \<times> u64 list \<Rightarrow> (u64, u64 list) btreemap \<Rightarrow> ((u64, u64 list) btreemap, store_error) result" where
  "insert_unique entry key_hashes =
     (let (key, hashes) = entry
      in and_then (err_if (map_of key_hashes key \<noteq> None) (InvalidSnapshot ''duplicate key in persisted keys section'')) (\<lambda>_.
         Ok (bt_insert key hashes key_hashes)))"

definition read_key_metadata :: "(bytes \<Rightarrow> u32) \<Rightarrow> file_layout \<Rightarrow> usize \<Rightarrow> reader
    \<Rightarrow> ((u64, u64 list) btreemap \<times> reader, store_error) result" where
  "read_key_metadata crc layout bands file =
     and_then (required_unique_section layout Keys) (\<lambda>keys_descriptor.
     and_then (required_unique_section layout BandHashes) (\<lambda>hashes_descriptor.
     and_then (map_err StoreLayout (read_section crc layout keys_descriptor file)) (\<lambda>(keys_payload, file).
     and_then (map_err StoreLayout (read_section crc layout hashes_descriptor file)) (\<lambda>(hashes_payload, file).
     and_then (decode_keys keys_payload) (\<lambda>keys.
     and_then (decode_band_hashes hashes_payload bands) (\<lambda>rows_by_key.
     and_then (err_if (length keys \<noteq> length rows_by_key) (InvalidSnapshot ''key and band-hash record counts differ'')) (\<lambda>_.
     and_then (fold_result insert_unique (zip keys rows_by_key) []) (\<lambda>key_hashes.
     Ok (key_hashes, file)))))))))"

definition add_overlay_key :: "u64 \<Rightarrow> u64 list \<Rightarrow> (u64, u64 list) hashmap list \<Rightarrow> (u64, u64 list) hashmap list" where
  "add_overlay_key key hashes tables = zip_update (\<lambda>hash table. hm_push hash key table) hashes tables"

definition rebuild_overlay_all :: "store \<Rightarrow> (store, store_error) result" where
  "rebuild_overlay_all s =
     and_then (fold_result (\<lambda>(key, hashes) (overlay, overlay_keys).
         and_then (err_if (length hashes \<noteq> p_bands (so_params s))
           (InvalidSnapshot ''in-memory band-hash row has the wrong width'')) (\<lambda>_.
         Ok (add_overlay_key key hashes overlay, List.insert key overlay_keys)))
       (so_key_hashes s) (empty_bucket_tables (p_bands (so_params s)), [])) (\<lambda>(overlay, overlay_keys).
     Ok (s\<lparr>so_overlay_buckets := overlay, so_overlay_keys := overlay_keys, so_suppressed_base_keys := [], so_base := None\<rparr>))"

definition open_legacy :: "path \<Rightarrow> f64 \<Rightarrow> usize \<Rightarrow> u64 \<Rightarrow> lsh_params \<Rightarrow> signature_scheme \<Rightarrow> (u64, u64 list) btreemap
    \<Rightarrow> (store, store_error) result" where
  "open_legacy path threshold num_perm seed params scheme key_hashes =
     and_then (rebuild_overlay_all ((store_empty path threshold num_perm seed params scheme)\<lparr>so_key_hashes := key_hashes\<rparr>)) (\<lambda>s.
     Ok (s\<lparr>so_dirty := True\<rparr>))"

definition decode_all_segments :: "(bytes \<Rightarrow> u32) \<Rightarrow> file_layout \<Rightarrow> usize \<Rightarrow> section_descriptor list \<Rightarrow> reader
    \<Rightarrow> (bucket_location list \<times> reader, store_error) result" where
  "decode_all_segments crc layout bands bucket_descriptors file =
     fold_result (\<lambda>descriptor (buckets, file).
         and_then (map_err StoreBucket (decode_bucket_segment crc layout descriptor bands file)) (\<lambda>(locations, file).
         Ok (buckets @ locations, file)))
       bucket_descriptors ([], file)"

definition store_open_file :: "(bytes \<Rightarrow> u32) \<Rightarrow> 'h crc_hasher \<Rightarrow> path \<Rightarrow> signature_scheme \<Rightarrow> reader \<Rightarrow> (store, store_error) result" where
  "store_open_file crc hasher path scheme file =
     and_then (map_err StoreLayout (layout_read_from crc hasher file)) (\<lambda>(layout, file).
     and_then (validate_store_metadata (fl_metadata layout) scheme) (\<lambda>_.
     let num_perm = unat (md_num_perm (fl_metadata layout)); bands = unat (md_bands (fl_metadata layout));
         rows = unat (md_rows (fl_metadata layout)); threshold = md_threshold (fl_metadata layout);
         seed = md_seed (fl_metadata layout); params = \<lparr>p_bands = bands, p_rows = rows\<rparr> in
     and_then (validate_lsh_configuration scheme threshold num_perm seed params) (\<lambda>_.
     and_then (read_key_metadata crc layout bands file) (\<lambda>(key_hashes, file).
     and_then (collect_bucket_descriptors layout) (\<lambda>bucket_descriptors.
     if bucket_descriptors = [] then open_legacy path threshold num_perm seed params scheme key_hashes
     else
       and_then (decode_all_segments crc layout bands bucket_descriptors file) (\<lambda>(buckets, file).
       and_then (map_err StoreBucket (validate_global_bucket_order buckets)) (\<lambda>_.
       Ok \<lparr>so_path = path, so_threshold = threshold, so_num_perm = num_perm, so_seed = seed, so_params = params,
           so_scheme = scheme,
           so_base = Some \<lparr>lb_file = file, lb_poisoned = False, lb_layout = layout, lb_buckets = buckets\<rparr>,
           so_overlay_buckets = empty_bucket_tables bands, so_overlay_keys = [], so_suppressed_base_keys = [],
           so_key_hashes = key_hashes, so_dirty = False, so_query_metrics = None\<rparr>)))))))"

section \<open>Key and hash payloads\<close>

lemma payload_bytes_Ok: "payload_bytes count width = Ok n \<longleftrightarrow> 8 + count * width < usize_limit \<and> n = 8 + count * width"
  by (auto simp: payload_bytes_def res_simps checked_mul_usize_def checked_add_usize_def)

definition keys_payload :: "u64 list \<Rightarrow> bytes" where
  "keys_payload keys = le64 (of_nat (length keys)) @ concat (map le64 keys)"

definition hashes_payload :: "u64 list list \<Rightarrow> bytes" where
  "hashes_payload rows = le64 (of_nat (length rows)) @ concat (map le64 (concat rows))"

lemma length_keys_payload [simp]: "length (keys_payload keys) = 8 + 8 * length keys"
  by (simp add: keys_payload_def)

lemma length_concat_rows: "\<forall>row \<in> set rows. length row = bands \<Longrightarrow> length (concat rows) = length rows * bands"
  by (induction rows) auto

lemma length_hashes_payload:
  "\<forall>row \<in> set rows. length row = bands \<Longrightarrow> length (hashes_payload rows) = 8 + length rows * (bands * 8)"
  by (simp add: hashes_payload_def length_concat_rows)

lemma encode_keys_Ok: "encode_keys keys = Ok p \<longleftrightarrow> 8 + 8 * length keys < usize_limit \<and> p = keys_payload keys"
  by (auto simp: encode_keys_def res_simps payload_bytes_Ok u64_try_from_Some keys_payload_def mult.commute)

lemma encode_rows_fold:
  "fold_result (\<lambda>hashes output.
         and_then (err_if (length hashes \<noteq> bands) (InvalidSnapshot ''in-memory band-hash row has the wrong width'')) (\<lambda>_.
         Ok (output @ concat (map le64 hashes)))) rows out = Ok p
   \<longleftrightarrow> (\<forall>row \<in> set rows. length row = bands) \<and> p = out @ concat (map le64 (concat rows))"
  by (induction rows arbitrary: out) (auto simp: res_simps)

lemma encode_band_hashes_Ok:
  "encode_band_hashes rows bands = Ok p \<longleftrightarrow>
     length rows < usize_limit \<and> 8 + length rows * bands * 8 < usize_limit \<and> (\<forall>row \<in> set rows. length row = bands) \<and> p = hashes_payload rows"
proof -
  define v where "v = length rows * bands"
  have "checked_mul_usize (length rows) bands = (if v < usize_limit then Some v else None)"
    by (simp add: checked_mul_usize_def v_def)
  then show ?thesis
    unfolding encode_band_hashes_def res_simps encode_rows_fold hashes_payload_def u64_try_from_Some v_def [symmetric]
    by (auto simp: payload_bytes_Ok)
qed

lemma read_count_payload:
  "n < usize_limit \<Longrightarrow> read_count (le64 (of_nat n) @ rest) = Ok n"
  by (simp add: read_count_def slice_get_def store_read_u64_def unat_of_nat_u64)

lemma try_map_store_read: "try_map store_read_u64 (map le64 ws) = Ok ws"
  by (induction ws) (auto simp: store_read_u64_def)

lemma decode_keys_payload: "8 + 8 * length keys < usize_limit \<Longrightarrow> decode_keys (keys_payload keys) = Ok keys"
proof -
  assume lim: "8 + 8 * length keys < usize_limit"
  then have "payload_bytes (length keys) U64_BYTES = Ok (8 + length keys * 8)" by (simp add: payload_bytes_Ok)
  moreover have "read_count (keys_payload keys) = Ok (length keys)"
    using lim unfolding keys_payload_def by (intro read_count_payload) simp
  moreover have "chunks_exact 8 (drop 8 (keys_payload keys)) = map le64 keys"
    by (simp add: keys_payload_def chunks_exact_le64)
  ultimately show ?thesis by (simp add: decode_keys_def try_map_store_read)
qed

lemma decode_hashes_payload:
  assumes lim: "8 + length rows * bands * 8 < usize_limit" "bands < 4294967296"
    and width: "\<forall>row \<in> set rows. length row = bands" and pos: "0 < bands"
  shows "decode_band_hashes (hashes_payload rows) bands = Ok rows"
proof -
  have "length rows * 1 \<le> length rows * bands" using pos by (intro mult_le_mono) auto
  then have n: "length rows < usize_limit" using lim(1) by linarith
  have "read_count (hashes_payload rows) = Ok (length rows)"
    unfolding hashes_payload_def by (rule read_count_payload [OF n])
  moreover have "payload_bytes (length rows) (bands * 8) = Ok (8 + length rows * (bands * 8))"
    using lim(1) by (simp add: payload_bytes_Ok mult.assoc)
  moreover have "chunks_exact (bands * 8) (drop 8 (hashes_payload rows)) = map (\<lambda>row. concat (map le64 row)) rows"
  proof -
    have "concat (map le64 (concat rows)) = concat (map (\<lambda>row. concat (map le64 row)) rows)"
      by (induction rows) auto
    then have "drop 8 (hashes_payload rows) = concat (map (\<lambda>row. concat (map le64 row)) rows)"
      by (simp add: hashes_payload_def)
    then show ?thesis using pos width by (simp only:) (intro chunks_exact_concat, auto)
  qed
  moreover have "try_map (\<lambda>row. try_map store_read_u64 (chunks_exact U64_BYTES row)) (map (\<lambda>row. concat (map le64 row)) rows) = Ok rows"
    by (induction rows) (auto simp: chunks_exact_le64 try_map_store_read)
  moreover have "checked_mul_usize bands U64_BYTES = Some (bands * 8)" using lim(2) by (simp add: checked_mul_usize_def)
  ultimately show ?thesis
    using pos length_hashes_payload [OF width] by (simp add: decode_band_hashes_def)
qed

section \<open>Sorted buckets\<close>

lemma distinct_bucket_keys:
  assumes "length hs < 4294967296"
  shows "distinct (bucket_keys hs)"
proof -
  have "inj_on (\<lambda>i. BucketKey (of_nat i) (hs ! i)) {..<length hs}"
  proof (rule inj_on_inverseI [where g = "\<lambda>b. unat (bk_band b)"])
    fix i assume "i \<in> {..<length hs}"
    then show "unat (bk_band (BucketKey (of_nat i) (hs ! i))) = i" using assms by (simp add: unat_of_nat_u32)
  qed
  then show ?thesis by (simp add: bucket_keys_def enumerate_nth distinct_map comp_def atLeast0LessThan)
qed

lemma sorted_list_of_set_snoc:
  assumes "finite A" and "\<forall>a \<in> A. a < k"
  shows "sorted_list_of_set (insert (k :: 'k :: linorder) A) = sorted_list_of_set A @ [k]"
proof (rule sorted_distinct_set_unique)
  show "sorted (sorted_list_of_set (insert k A))" "distinct (sorted_list_of_set (insert k A))" by simp_all
  show "sorted (sorted_list_of_set A @ [k])" "distinct (sorted_list_of_set A @ [k])"
    using assms by (auto simp: sorted_append less_imp_le)
  show "set (sorted_list_of_set (insert k A)) = set (sorted_list_of_set A @ [k])" using assms(1) by (simp del: sorted_list_of_set.sorted_key_list_of_set_insert_remove)
qed

lemma push_bands:
  assumes "\<forall>(band, hash) \<in> set es. band < 4294967296" and "distinct (map (\<lambda>(band, hash). BucketKey (of_nat band) hash) es)" and "bt_wf m"
  shows "\<exists>m'. fold_result (\<lambda>(band, hash) m. and_then (ok_or StoreLengthOverflow (u32_try_from band)) (\<lambda>band.
             Ok (bt_push (BucketKey band hash) key m))) es m = Ok m' \<and> bt_wf m'
    \<and> (\<forall>b. map_of m' b = (if b \<in> (\<lambda>(band, hash). BucketKey (of_nat band) hash) ` set es
         then Some ((case map_of m b of None \<Rightarrow> [] | Some ks \<Rightarrow> ks) @ [key]) else map_of m b))"
  using assms
proof (induction es arbitrary: m)
  case (Cons e es)
  obtain band hash where e: "e = (band, hash)" by (cases e)
  let ?m = "bt_push (BucketKey (of_nat band) hash) key m"
  have new: "BucketKey (of_nat band) hash \<notin> (\<lambda>(band, hash). BucketKey (of_nat band) hash) ` set es"
    using Cons.prems(2) by (simp add: e)
  obtain m' where m': "fold_result (\<lambda>(band, hash) m. and_then (ok_or StoreLengthOverflow (u32_try_from band)) (\<lambda>band.
             Ok (bt_push (BucketKey band hash) key m))) es ?m = Ok m'" "bt_wf m'"
    "\<forall>b. map_of m' b = (if b \<in> (\<lambda>(band, hash). BucketKey (of_nat band) hash) ` set es
         then Some ((case map_of ?m b of None \<Rightarrow> [] | Some ks \<Rightarrow> ks) @ [key]) else map_of ?m b)"
    using Cons.IH [of ?m] Cons.prems by auto
  have "map_of m' b = (if b \<in> (\<lambda>(band, hash). BucketKey (of_nat band) hash) ` set (e # es)
         then Some ((case map_of m b of None \<Rightarrow> [] | Some ks \<Rightarrow> ks) @ [key]) else map_of m b)" for b
    using m'(3) new by (cases "b = BucketKey (of_nat band) hash") (auto simp: e split: option.split)
  moreover have "u32_try_from band = Some (of_nat band)" using Cons.prems(1) by (simp add: e u32_try_from_def)
  ultimately show ?case using m'(1,2) by (auto simp: e)
qed auto

text \<open>The bucket table of a map from keys to band hashes.\<close>

definition buckets_represent :: "(bucket_key, u64 list) btreemap \<Rightarrow> (u64 \<rightharpoonup> u64 list) \<Rightarrow> bool" where
  "buckets_represent bm m \<longleftrightarrow> bt_wf bm \<and> (\<forall>b. map_of bm b = non_empty (sorted_list_of_set (bucket_of m b)))"

lemma materialize_key_law:
  assumes rep: "buckets_represent bm m" and fin: "finite (dom m)" and new: "\<forall>k \<in> dom m. k < key"
    and width: "length hashes = bands" "bands < 4294967296"
  shows "\<exists>bm'. materialize_key bands (key, hashes) bm = Ok bm' \<and> buckets_represent bm' (m(key \<mapsto> hashes))"
proof -
  have short: "length hashes < 4294967296" using width by simp
  have fresh: "m key = None" using new by force
  obtain bm' where bm': "fold_result (\<lambda>(band, hash) m. and_then (ok_or StoreLengthOverflow (u32_try_from band)) (\<lambda>band.
             Ok (bt_push (BucketKey band hash) key m))) (List.enumerate 0 hashes) bm = Ok bm'" "bt_wf bm'"
    "\<And>b. map_of bm' b = (if b \<in> set (bucket_keys hashes)
         then Some ((case map_of bm b of None \<Rightarrow> [] | Some ks \<Rightarrow> ks) @ [key]) else map_of bm b)"
    using push_bands [OF enumerate_bands [OF short], of bm key] distinct_bucket_keys [OF short] rep
    unfolding keys_of_enumerate by (auto simp: bucket_keys_def buckets_represent_def)
  have old: "map_of bm b = non_empty (sorted_list_of_set (bucket_of m b))" for b using rep by (simp add: buckets_represent_def)
  have "map_of bm' b = non_empty (sorted_list_of_set (bucket_of (m(key \<mapsto> hashes)) b))" for b
  proof (cases "b \<in> set (bucket_keys hashes)")
    case True
    have "\<forall>k \<in> bucket_of m b. k < key" using new by (auto simp: bucket_of_def)
    then have "sorted_list_of_set (bucket_of (m(key \<mapsto> hashes)) b) = sorted_list_of_set (bucket_of m b) @ [key]"
      using True bucket_of_upd [of hashes m key b] short fresh sorted_list_of_set_snoc [OF finite_bucket_of [OF fin]] by simp
    then show ?thesis using True by (simp add: bm'(3) old) (simp add: non_empty_def)
  next
    case False
    then show ?thesis using bucket_of_upd [of hashes m key b] short fresh by (simp add: bm'(3) old)
  qed
  then show ?thesis using bm'(1,2) width(1) by (simp add: materialize_key_def buckets_represent_def)
qed

lemma materialize_Ok:
  assumes "bt_wf kh" and "\<forall>(key, hashes) \<in> set kh. length hashes = bands" and "bands < 4294967296"
  shows "\<exists>bm. materialize_sorted_buckets kh bands = Ok bm \<and> buckets_represent bm (map_of kh)"
proof -
  let ?Q = "\<lambda>seen bm. buckets_represent bm (map_of seen)"
  have "\<exists>bm. fold_result (materialize_key bands) kh [] = Ok bm \<and> ?Q kh bm"
  proof (rule fold_result_total)
    show "?Q [] []" by (simp add: buckets_represent_def bucket_of_def non_empty_def)
  next
    fix seen x rest bm
    assume split: "kh = seen @ x # rest" and Q: "?Q seen bm"
    obtain key hashes where x: "x = (key, hashes)" by (cases x)
    have before: "\<forall>k \<in> dom (map_of seen). k < key" and new: "key \<notin> fst ` set seen"
      using assms(1) by (auto simp: bt_wf_def split x sorted_wrt_append dom_map_of_conv_image_fst)
    obtain bm' where bm': "materialize_key bands (key, hashes) bm = Ok bm'" "buckets_represent bm' ((map_of seen)(key \<mapsto> hashes))"
      using materialize_key_law [OF Q _ before, of hashes bands] assms(2,3) by (auto simp: split x finite_dom_map_of)
    moreover have "map_of (seen @ [(key, hashes)]) = (map_of seen)(key \<mapsto> hashes)"
    proof -
      have "map_of seen key = None" using new by (simp add: map_of_eq_None_iff)
      then show ?thesis by (auto simp: fun_eq_iff map_add_def split: option.split)
    qed
    ultimately show "\<exists>bm'. materialize_key bands x bm = Ok bm' \<and> ?Q (seen @ [x]) bm'" by (auto simp: x)
  qed
  then show ?thesis by (simp add: materialize_sorted_buckets_def)
qed

section \<open>Segments of a snapshot\<close>

lemma fold_result_prefix:
  assumes "fold_result f xs s = Ok t" and "Q [] s"
    and "\<And>ys x zs s s'. xs = ys @ x # zs \<Longrightarrow> Q ys s \<Longrightarrow> f x s = Ok s' \<Longrightarrow> Q (ys @ [x]) s'"
  shows "Q xs t"
  using assms(1,3)
proof (induction xs arbitrary: t rule: rev_induct)
  case Nil
  with assms(2) show ?case by simp
next
  case (snoc x xs)
  from snoc.prems(1) obtain u where u: "fold_result f xs s = Ok u" "f x u = Ok t"
    by (auto simp: fold_result_append res_simps)
  have "Q xs u" using u(1) by (rule snoc.IH) (use snoc.prems(2) in fastforce)
  with snoc.prems(2) [of xs x "[]" u t] u(2) show ?case by simp
qed

definition records_of :: "(bucket_key \<times> u64 list) list \<Rightarrow> bucket_record list" where
  "records_of g = map (\<lambda>(key, members). \<lparr>br_key = key, br_members = members\<rparr>) g"

definition record_bytes :: "bucket_key \<times> u64 list \<Rightarrow> nat" where
  "record_bytes r = 32 + 8 * length (snd r)"

definition group_bytes :: "(bucket_key \<times> u64 list) list \<Rightarrow> nat" where
  "group_bytes g = 40 + (\<Sum>r\<leftarrow>g. record_bytes r)"

definition group_ok :: "(bucket_key \<times> u64 list) list \<Rightarrow> bool" where
  "group_ok g \<longleftrightarrow> segment_ok (records_of g) \<and> group_bytes g \<le> 268435456"

definition bucket_section :: "(bytes \<Rightarrow> u32) \<Rightarrow> (bucket_key \<times> u64 list) list \<Rightarrow> index_section" where
  "bucket_section crc g = \<lparr>sec_kind = Buckets, sec_required = True, sec_payload = segment crc (records_of g)\<rparr>"

lemma group_bytes_simps [simp]:
  "group_bytes [] = 40" "group_bytes (g @ [r]) = group_bytes g + record_bytes r"
  by (simp_all add: group_bytes_def)

lemma length_group_segment: "length (segment crc (records_of g)) = group_bytes g"
  unfolding length_segment segment_start_def
  by (induction g) (auto simp: records_of_def group_bytes_def record_bytes_def)

lemma push_bucket_section_Ok:
  "push_bucket_section crc ss g = Ok ss' \<longleftrightarrow> group_ok g \<and> ss' = ss @ [bucket_section crc g]"
  unfolding push_bucket_section_def records_of_def [symmetric]
  by (auto simp: res_simps encode_bucket_segment_Ok section_new_Ok group_ok_def bucket_section_def length_group_segment)

lemma bucket_record_size_Ok:
  "bucket_record_size n = Ok c \<longleftrightarrow> 32 + 8 * n < usize_limit \<and> c = 32 + 8 * n"
  by (auto simp: bucket_record_size_def res_simps checked_mul_usize_def checked_add_usize_def)

definition segmenting :: "(bytes \<Rightarrow> u32) \<Rightarrow> index_section list \<Rightarrow> (bucket_key \<times> u64 list) list \<Rightarrow> segmenter \<Rightarrow> bool" where
  "segmenting crc ss0 seen st \<longleftrightarrow> (\<exists>groups. fst st = ss0 @ map (bucket_section crc) groups
     \<and> concat groups @ fst (snd st) = seen \<and> (\<forall>g \<in> set groups. group_ok g) \<and> snd (snd st) = group_bytes (fst (snd st))
     \<and> (seen \<noteq> [] \<longrightarrow> fst (snd st) \<noteq> []))"

lemma segment_step_Ok:
  assumes "segmenting crc ss0 seen st" and "segment_step crc r st = Ok st'"
  shows "segmenting crc ss0 (seen @ [r]) st'"
proof -
  obtain ss cur est where st: "st = (ss, cur, est)" by (cases st)
  from assms(1) obtain groups where g: "ss = ss0 @ map (bucket_section crc) groups" "concat groups @ cur = seen"
    "\<forall>g \<in> set groups. group_ok g" "est = group_bytes cur"
    by (auto simp: segmenting_def st)
  from assms(2) consider
      (keep) "st' = (ss, cur @ [r], est + record_bytes r)"
    | (split) "group_ok cur" "st' = (ss @ [bucket_section crc cur], [r], 40 + record_bytes r)"
    by (auto simp: segment_step_def st Let_def res_simps bucket_record_size_Ok push_bucket_section_Ok checked_add_usize_def
        record_bytes_def split: if_splits)
  then show ?thesis
  proof cases
    case keep
    then show ?thesis using g by (auto simp: segmenting_def)
  next
    case split
    then show ?thesis
      using g group_bytes_simps(2) [of "[]" r] unfolding segmenting_def by (intro exI [of _ "groups @ [cur]"]) auto
  qed
qed

lemma append_bucket_sections_Ok:
  assumes "materialize_sorted_buckets kh bands = Ok bm" and "append_bucket_sections crc kh bands ss0 = Ok ss"
  shows "\<exists>groups. ss = ss0 @ map (bucket_section crc) groups \<and> concat groups = bm \<and> groups \<noteq> [] \<and> (\<forall>g \<in> set groups. group_ok g)"
proof (cases "bm = []")
  case True
  with assms show ?thesis by (intro exI [of _ "[[]]"]) (auto simp: append_bucket_sections_def push_bucket_section_Ok)
next
  case False
  with assms obtain ss' cur est where loop: "fold_result (segment_step crc) bm (ss0, [], 40) = Ok (ss', cur, est)"
    and last: "if cur \<noteq> [] then push_bucket_section crc ss' cur = Ok ss else ss' = ss"
    by (auto simp: append_bucket_sections_def res_simps split: if_splits)
  have "segmenting crc ss0 bm (ss', cur, est)"
    using loop
  proof (rule fold_result_prefix)
    show "segmenting crc ss0 [] (ss0, [], 40)" by (auto simp: segmenting_def)
  qed (rule segment_step_Ok)
  then obtain groups where "ss' = ss0 @ map (bucket_section crc) groups" "concat groups @ cur = bm" "\<forall>g \<in> set groups. group_ok g" "cur \<noteq> []"
    using False by (auto simp: segmenting_def)
  then show ?thesis using last by (intro exI [of _ "groups @ [cur]"]) (auto simp: push_bucket_section_Ok)
qed

section \<open>Capacity\<close>

text \<open>The loop never fails when every bucket fits a section by itself, and it starts a new segment only
  after enough bytes.\<close>

definition segmenting_room :: "(bucket_key \<times> u64 list) list \<Rightarrow> segmenter \<Rightarrow> bool" where
  "segmenting_room bm st \<longleftrightarrow> (\<exists>groups cur. concat groups @ cur = bm \<and> fst (snd st) = cur \<and> length (fst st) = 2 + length groups
     \<and> snd (snd st) = group_bytes cur
     \<and> (length cur \<le> 1 \<or> group_bytes cur \<le> BUCKET_SEGMENT_TARGET_BYTES)
     \<and> length groups * (BUCKET_SEGMENT_TARGET_BYTES - 40) \<le> 2 * (\<Sum>r\<leftarrow>concat groups. record_bytes r) + (\<Sum>r\<leftarrow>cur. record_bytes r))"

lemma map_br_key_records_of: "map br_key (records_of g) = map fst g"
  by (auto simp: records_of_def)

lemma group_ok_I:
  assumes "sorted_wrt (<) (map fst g)" and "group_bytes g \<le> 268435456"
  shows "group_ok g"
proof -
  have "length (snd r) < 4294967296" if "r \<in> set g" for r
  proof -
    have "record_bytes r \<le> (\<Sum>r\<leftarrow>g. record_bytes r)" using that by (simp add: member_le_sum_list)
    then show ?thesis using assms(2) by (simp add: group_bytes_def record_bytes_def)
  qed
  moreover have "segment_start (records_of g) + 8 * total_members (records_of g) = group_bytes g"
    using length_group_segment [of "\<lambda>_. 0" g] by (simp add: length_segment)
  ultimately have "segment_ok (records_of g)"
    using assms unfolding segment_ok_def map_br_key_records_of
    by (auto simp: records_of_def)
  then show ?thesis using assms(2) by (simp add: group_ok_def)
qed

lemma segment_step_room:
  assumes room: "segmenting_room seen st" and sorted: "sorted_wrt (<) (map fst (seen @ [r]))"
    and alone: "\<forall>r \<in> set (seen @ [r]). 40 + record_bytes r \<le> 268435456"
  shows "\<exists>st'. segment_step crc r st = Ok st' \<and> segmenting_room (seen @ [r]) st'"
proof -
  obtain ss cur est where st: "st = (ss, cur, est)" by (cases st)
  from room obtain groups where g: "concat groups @ cur = seen" "length ss = 2 + length groups" "est = group_bytes cur"
    "length cur \<le> 1 \<or> group_bytes cur \<le> BUCKET_SEGMENT_TARGET_BYTES"
    "length groups * (BUCKET_SEGMENT_TARGET_BYTES - 40) \<le> 2 * (\<Sum>r\<leftarrow>concat groups. record_bytes r) + (\<Sum>r\<leftarrow>cur. record_bytes r)"
    by (auto simp: segmenting_room_def st)
  have single: "group_bytes cur \<le> 268435456"
  proof (cases cur)
    case (Cons x xs)
    then show ?thesis using g(4) alone g(1) by (cases xs) (auto simp: group_bytes_def)
  qed simp
  have size: "bucket_record_size (length (snd r)) = Ok (record_bytes r)" "record_bytes r \<le> 268435456"
    using alone by (auto simp: bucket_record_size_Ok record_bytes_def)
  have add: "checked_add_usize est (record_bytes r) = Some (group_bytes cur + record_bytes r)"
    "checked_add_usize 40 (record_bytes r) = Some (40 + record_bytes r)"
    using single size(2) g(3) by (auto simp: checked_add_usize_def)
  show ?thesis
  proof (cases "cur \<noteq> [] \<and> BUCKET_SEGMENT_TARGET_BYTES < group_bytes cur + record_bytes r")
    case True
    have "group_ok cur" using sorted g(1) single by (intro group_ok_I) (auto simp: sorted_wrt_append)
    then have "segment_step crc r st = Ok (ss @ [bucket_section crc cur], [r], 40 + record_bytes r)"
      using True size add by (simp add: segment_step_def st push_bucket_section_Ok [THEN iffD2])
    moreover have "segmenting_room (seen @ [r]) (ss @ [bucket_section crc cur], [r], 40 + record_bytes r)"
      unfolding segmenting_room_def
      using g True by (intro exI [of _ "groups @ [cur]"] exI [of _ "[r]"]) (auto simp: group_bytes_def)
    ultimately show ?thesis by blast
  next
    case False
    then have "segment_step crc r st = Ok (ss, cur @ [r], group_bytes cur + record_bytes r)"
      using size add by (auto simp: segment_step_def st g(3))
    moreover have "segmenting_room (seen @ [r]) (ss, cur @ [r], group_bytes cur + record_bytes r)"
      unfolding segmenting_room_def
      using g False by (intro exI [of _ groups] exI [of _ "cur @ [r]"]) (auto simp: group_bytes_def)
    ultimately show ?thesis by blast
  qed
qed

lemma append_bucket_sections_room:
  assumes bm: "materialize_sorted_buckets kh bands = Ok bm" and wf: "bt_wf bm"
    and alone: "\<forall>r \<in> set bm. 40 + record_bytes r \<le> 268435456" and total: "(\<Sum>r\<leftarrow>bm. record_bytes r) \<le> 1400000000"
    and two: "length ss0 = 2"
  shows "\<exists>ss. append_bucket_sections crc kh bands ss0 = Ok ss \<and> length ss \<le> 1024"
proof (cases "bm = []")
  case True
  have "group_ok []" by (rule group_ok_I) simp_all
  then have "push_bucket_section crc ss0 [] = Ok (ss0 @ [bucket_section crc []])" by (simp add: push_bucket_section_Ok)
  then show ?thesis using bm True two by (simp add: append_bucket_sections_def)
next
  case False
  have "\<exists>st. fold_result (segment_step crc) bm (ss0, [], 40) = Ok st \<and> segmenting_room bm st"
  proof (rule fold_result_total)
    show "segmenting_room [] (ss0, [], 40)" unfolding segmenting_room_def by (intro exI [of _ "[]"]) (simp add: two)
  next
    fix ys x zs st
    assume "bm = ys @ x # zs" and "segmenting_room ys st"
    then show "\<exists>st'. segment_step crc x st = Ok st' \<and> segmenting_room (ys @ [x]) st'"
      using wf alone by (intro segment_step_room) (auto simp: bt_wf_def sorted_wrt_append)
  qed
  then obtain ss cur est where loop: "fold_result (segment_step crc) bm (ss0, [], 40) = Ok (ss, cur, est)"
    and room: "segmenting_room bm (ss, cur, est)" by (metis prod_cases3)
  from room obtain groups where g: "concat groups @ cur = bm" "length ss = 2 + length groups"
    "length cur \<le> 1 \<or> group_bytes cur \<le> BUCKET_SEGMENT_TARGET_BYTES"
    "length groups * (BUCKET_SEGMENT_TARGET_BYTES - 40) \<le> 2 * (\<Sum>r\<leftarrow>concat groups. record_bytes r) + (\<Sum>r\<leftarrow>cur. record_bytes r)"
    by (auto simp: segmenting_room_def)
  have "(\<Sum>r\<leftarrow>concat groups. record_bytes r) + (\<Sum>r\<leftarrow>cur. record_bytes r) \<le> 1400000000"
    using total unfolding g(1) [symmetric] by simp
  then have small: "length ss \<le> 1023" using g(2,4) by simp
  have "group_bytes cur \<le> 268435456"
  proof (cases cur)
    case (Cons x xs)
    then show ?thesis using g(3) alone g(1) by (cases xs) (auto simp: group_bytes_def)
  qed simp
  then have "group_ok cur" using wf g(1) by (intro group_ok_I) (auto simp: bt_wf_def sorted_wrt_append)
  then have "push_bucket_section crc ss cur = Ok (ss @ [bucket_section crc cur])" by (simp add: push_bucket_section_Ok)
  then show ?thesis
    using bm False loop small by (cases "cur = []") (auto simp: append_bucket_sections_def)
qed

text \<open>Every key is a member of one bucket per band.\<close>

lemma sum_bt_insert:
  fixes f :: "'v \<Rightarrow> nat"
  assumes "bt_wf m"
  shows "(\<Sum>p\<leftarrow>bt_insert k v m. f (snd p)) + (case map_of m k of None \<Rightarrow> 0 | Some w \<Rightarrow> f w) = (\<Sum>p\<leftarrow>m. f (snd p)) + f v"
  using assms
proof (induction m)
  case (Cons p m)
  have wf: "bt_wf m" and above: "\<forall>q \<in> set m. fst p < fst q" using Cons.prems by (auto simp: bt_wf_def)
  show ?case
  proof (cases "k = fst p \<or> fst p < k")
    case True
    then show ?thesis using Cons.IH [OF wf] by (cases p) auto
  next
    case False
    then have "k \<notin> fst ` set m" using above by auto
    then have "map_of m k = None" by (simp add: map_of_eq_None_iff)
    then show ?thesis using False by (cases p) auto
  qed
qed simp

lemma sum_bt_push: "bt_wf m \<Longrightarrow> (\<Sum>p\<leftarrow>bt_push k x m. length (snd p)) = (\<Sum>p\<leftarrow>m. length (snd p)) + 1"
  using sum_bt_insert [of m length k "case map_of m k of None \<Rightarrow> [x] | Some xs \<Rightarrow> xs @ [x]"]
  by (auto simp: bt_push_def split: option.splits)

lemma materialize_total:
  assumes "materialize_sorted_buckets kh bands = Ok bm"
  shows "bt_wf bm \<and> (\<Sum>p\<leftarrow>bm. length (snd p)) = length kh * bands"
proof -
  have inner: "bt_wf m' \<and> (\<Sum>p\<leftarrow>m'. length (snd p)) = (\<Sum>p\<leftarrow>m. length (snd p)) + length es"
    if "fold_result (\<lambda>(band, hash) m. and_then (ok_or StoreLengthOverflow (u32_try_from band)) (\<lambda>band.
             Ok (bt_push (BucketKey band hash) key m))) es m = Ok m'" "bt_wf m" for es m m' key
    using that by (induction es arbitrary: m) (auto simp: res_simps sum_bt_push)
  have step: "bt_wf m' \<and> (\<Sum>p\<leftarrow>m'. length (snd p)) = (\<Sum>p\<leftarrow>m. length (snd p)) + bands"
    if "materialize_key bands e m = Ok m'" "bt_wf m" for e m m'
    using that inner by (fastforce simp: materialize_key_def res_simps split: prod.splits)
  have "fold_result (materialize_key bands) kh [] = Ok bm" using assms by (simp add: materialize_sorted_buckets_def)
  then show ?thesis
  proof (rule fold_result_prefix [where Q = "\<lambda>(seen :: (u64 \<times> u64 list) list) m. bt_wf m \<and> (\<Sum>p\<leftarrow>m. length (snd p)) = length seen * bands"])
    fix ys zs :: "(u64 \<times> u64 list) list" and x m m'
    assume "bt_wf m \<and> (\<Sum>p\<leftarrow>m. length (snd p)) = length ys * bands" and "materialize_key bands x m = Ok m'"
    with step [of x m m'] show "bt_wf m' \<and> (\<Sum>p\<leftarrow>m'. length (snd p)) = length (ys @ [x]) * bands" by simp
  qed simp
qed

section \<open>Snapshots\<close>

text \<open>The configuration and the keys of a store.\<close>

definition config_valid :: "store \<Rightarrow> bool" where
  "config_valid s \<longleftrightarrow> 0 < so_threshold s \<and> so_threshold s \<le> f64_one \<and> 0 < so_num_perm s \<and> so_num_perm s < 4294967296
     \<and> params_valid (so_params s) (so_num_perm s)"

definition keys_valid :: "store \<Rightarrow> bool" where
  "keys_valid s \<longleftrightarrow> bt_wf (so_key_hashes s) \<and> (\<forall>(key, hashes) \<in> set (so_key_hashes s). length hashes = p_bands (so_params s))"

abbreviation contents :: "store \<Rightarrow> u64 \<rightharpoonup> u64 list" where
  "contents s \<equiv> map_of (so_key_hashes s)"

definition snapshot_metadata :: "store \<Rightarrow> index_metadata" where
  "snapshot_metadata s = \<lparr>md_algorithm = MinHashLsh, md_signature_scheme = so_scheme s, md_key_codec = CodecU64,
     md_num_perm = of_nat (so_num_perm s), md_seed = so_seed s, md_threshold = so_threshold s,
     md_bands = of_nat (p_bands (so_params s)), md_rows = of_nat (p_rows (so_params s)), md_feature_flags = 0\<rparr>"

definition snapshot_sections :: "(bytes \<Rightarrow> u32) \<Rightarrow> store \<Rightarrow> (bucket_key \<times> u64 list) list list \<Rightarrow> index_section list" where
  "snapshot_sections crc s groups =
     [\<lparr>sec_kind = Keys, sec_required = True, sec_payload = keys_payload (map fst (so_key_hashes s))\<rparr>,
      \<lparr>sec_kind = BandHashes, sec_required = True, sec_payload = hashes_payload (map snd (so_key_hashes s))\<rparr>]
     @ map (bucket_section crc) groups"

lemma config_bounds:
  assumes "config_valid s"
  shows "unat (of_nat (so_num_perm s) :: u32) = so_num_perm s" "unat (of_nat (p_bands (so_params s)) :: u32) = p_bands (so_params s)"
    "unat (of_nat (p_rows (so_params s)) :: u32) = p_rows (so_params s)"
    "0 < p_bands (so_params s)" "p_bands (so_params s) < 4294967296" "p_rows (so_params s) < 4294967296" "so_num_perm s < 4294967296"
proof -
  have "p_bands (so_params s) < 4294967296 \<and> p_rows (so_params s) < 4294967296"
    using assms by (intro valid_params_bounds [where n = "so_num_perm s"]) (simp_all add: config_valid_def)
  then show "unat (of_nat (so_num_perm s) :: u32) = so_num_perm s" "unat (of_nat (p_bands (so_params s)) :: u32) = p_bands (so_params s)"
    "unat (of_nat (p_rows (so_params s)) :: u32) = p_rows (so_params s)"
    "0 < p_bands (so_params s)" "p_bands (so_params s) < 4294967296" "p_rows (so_params s) < 4294967296" "so_num_perm s < 4294967296"
    using assms by (simp_all add: config_valid_def params_valid_def unat_of_nat_u32)
qed

lemma metadata_valid_snapshot:
  assumes "config_valid s"
  shows "metadata_valid (snapshot_metadata s)"
proof -
  have "0 < (of_nat n :: u32)" if "0 < n" "n < 4294967296" for n
    using that unat_of_nat_u32 [of n] by (simp add: word_less_nat_alt)
  then show ?thesis
    using assms config_bounds [OF assms] threshold_accepted_iff [of "so_threshold s"]
    by (auto simp: metadata_valid_def snapshot_metadata_def config_valid_def params_valid_def)
qed

lemma keys_valid_rows: "keys_valid s \<Longrightarrow> \<forall>row \<in> set (map snd (so_key_hashes s)). length row = p_bands (so_params s)"
  by (auto simp: keys_valid_def)

text \<open>What a successful encoding wrote.\<close>

lemma encode_snapshot_Ok:
  assumes valid: "config_valid s" "keys_valid s" and enc: "encode_snapshot crc s = Ok bs"
  shows "\<exists>bm groups. buckets_represent bm (contents s) \<and> concat groups = bm \<and> groups \<noteq> [] \<and> (\<forall>g \<in> set groups. group_ok g)
    \<and> container crc bs (snapshot_metadata s) (map section_frame (snapshot_sections crc s groups))
    \<and> 8 + length (so_key_hashes s) * p_bands (so_params s) * 8 \<le> 268435456"
proof -
  obtain bm where bm: "materialize_sorted_buckets (so_key_hashes s) (p_bands (so_params s)) = Ok bm" "buckets_represent bm (contents s)"
    using materialize_Ok [of "so_key_hashes s" "p_bands (so_params s)"] valid(2) config_bounds [OF valid(1)] by (auto simp: keys_valid_def)
  let ?keys = "\<lparr>sec_kind = Keys, sec_required = True, sec_payload = keys_payload (map fst (so_key_hashes s))\<rparr>"
  let ?hashes = "\<lparr>sec_kind = BandHashes, sec_required = True, sec_payload = hashes_payload (map snd (so_key_hashes s))\<rparr>"
  from enc obtain ss where ss: "append_bucket_sections crc (so_key_hashes s) (p_bands (so_params s)) [?keys, ?hashes] = Ok ss"
    and enc_file: "length ss \<le> 1024" "index_file_encode crc \<lparr>if_metadata = snapshot_metadata s, if_sections = ss\<rparr> = Ok bs"
    and size: "length (keys_payload (map fst (so_key_hashes s))) \<le> 268435456" "length (hashes_payload (map snd (so_key_hashes s))) \<le> 268435456"
    by (auto simp: encode_snapshot_def res_simps u32_try_from_Some index_metadata_new_Ok encode_keys_Ok encode_band_hashes_Ok
        section_new_Ok index_file_new_def snapshot_metadata_def)
  obtain groups where groups: "ss = [?keys, ?hashes] @ map (bucket_section crc) groups" "concat groups = bm" "groups \<noteq> []" "\<forall>g \<in> set groups. group_ok g"
    using append_bucket_sections_Ok [OF bm(1) ss] by blast
  have "file_valid \<lparr>if_metadata = snapshot_metadata s, if_sections = ss\<rparr>"
    using metadata_valid_snapshot [OF valid(1)] enc_file(1) size groups(1,4)
    by (auto simp: file_valid_def bucket_section_def length_group_segment group_ok_def)
  then have "container crc bs (snapshot_metadata s) (map section_frame ss)"
    using index_file_encode_valid [of "\<lparr>if_metadata = snapshot_metadata s, if_sections = ss\<rparr>" crc] enc_file(2) by auto
  moreover have "8 + length (so_key_hashes s) * p_bands (so_params s) * 8 \<le> 268435456"
    using size(2) length_hashes_payload [OF keys_valid_rows [OF valid(2)]] by (simp add: mult.assoc)
  ultimately show ?thesis using bm(2) groups by (auto simp: snapshot_sections_def)
qed

text \<open>Up to \<open>2 ^ 25 - 9\<close> stored band hashes a snapshot never fails.\<close>

lemma encode_snapshot_room:
  assumes valid: "config_valid s" "keys_valid s" and small: "length (so_key_hashes s) * p_bands (so_params s) + 9 \<le> 33554432"
  shows "\<exists>bs. encode_snapshot crc s = Ok bs"
proof -
  let ?kh = "so_key_hashes s" and ?bands = "p_bands (so_params s)"
  note bounds = config_bounds [OF valid(1)]
  have "length ?kh * 1 \<le> length ?kh * ?bands" using bounds(4) by (intro mult_le_mono) auto
  then have n: "length ?kh \<le> 33554423" using small by linarith
  obtain bm where bm: "materialize_sorted_buckets ?kh ?bands = Ok bm" "buckets_represent bm (contents s)"
    using materialize_Ok [of ?kh ?bands] valid(2) bounds by (auto simp: keys_valid_def)
  have total: "bt_wf bm" "(\<Sum>p\<leftarrow>bm. length (snd p)) = length ?kh * ?bands" using materialize_total [OF bm(1)] by simp_all
  have one: "1 \<le> length (snd r) \<and> length (snd r) \<le> length ?kh * ?bands" if "r \<in> set bm" for r
  proof -
    obtain b ms where r: "r = (b, ms)" by (cases r)
    have "map_of bm b = Some ms" using that total(1) by (simp add: bt_wf_mem r)
    then have "ms \<noteq> []" using bm(2) by (auto simp: buckets_represent_def non_empty_def split: if_splits)
    moreover have "length ms \<le> (\<Sum>p\<leftarrow>bm. length (snd p))"
      using member_le_sum_list [of "length ms" "map (\<lambda>p. length (snd p)) bm"] that by (force simp: r)
    ultimately show ?thesis by (simp add: r total(2) Suc_le_eq)
  qed
  have "(\<Sum>r\<leftarrow>bm. record_bytes r) \<le> (\<Sum>r\<leftarrow>bm. 40 * length (snd r))"
    using one by (intro sum_list_mono) (fastforce simp: record_bytes_def)
  then have "(\<Sum>r\<leftarrow>bm. record_bytes r) \<le> 40 * (length ?kh * ?bands)" by (simp add: sum_list_const_mult total(2))
  then have "(\<Sum>r\<leftarrow>bm. record_bytes r) \<le> 1400000000" using small by linarith
  moreover have "\<forall>r \<in> set bm. 40 + record_bytes r \<le> 268435456"
  proof
    fix r assume "r \<in> set bm"
    with one [of r] small show "40 + record_bytes r \<le> 268435456" unfolding record_bytes_def by linarith
  qed
  ultimately obtain ss where ss: "append_bucket_sections crc ?kh ?bands
      [\<lparr>sec_kind = Keys, sec_required = True, sec_payload = keys_payload (map fst ?kh)\<rparr>,
       \<lparr>sec_kind = BandHashes, sec_required = True, sec_payload = hashes_payload (map snd ?kh)\<rparr>] = Ok ss" "length ss \<le> 1024"
    using append_bucket_sections_room [OF bm(1) total(1), of "[\<lparr>sec_kind = Keys, sec_required = True, sec_payload = keys_payload (map fst ?kh)\<rparr>,
       \<lparr>sec_kind = BandHashes, sec_required = True, sec_payload = hashes_payload (map snd ?kh)\<rparr>]" crc] by auto
  obtain groups where groups: "ss = snapshot_sections crc s groups" "\<forall>g \<in> set groups. group_ok g"
    using append_bucket_sections_Ok [OF bm(1) ss(1)] by (auto simp: snapshot_sections_def)
  have width: "length (hashes_payload (map snd ?kh)) = 8 + length ?kh * ?bands * 8"
    using length_hashes_payload [OF keys_valid_rows [OF valid(2)]] by (simp add: mult.assoc)
  have "file_valid \<lparr>if_metadata = snapshot_metadata s, if_sections = ss\<rparr>"
    using metadata_valid_snapshot [OF valid(1)] ss(2) groups n small width
    by (auto simp: file_valid_def snapshot_sections_def bucket_section_def length_group_segment group_ok_def)
  then obtain bs where enc_file: "index_file_encode crc \<lparr>if_metadata = snapshot_metadata s, if_sections = ss\<rparr> = Ok bs"
    using index_file_encode_valid by blast
  have keys: "encode_keys (map fst ?kh) = Ok (keys_payload (map fst ?kh))" using n small by (simp add: encode_keys_Ok)
  have hashes: "encode_band_hashes (map snd ?kh) ?bands = Ok (hashes_payload (map snd ?kh))"
    using n small keys_valid_rows [OF valid(2)] by (simp add: encode_band_hashes_Ok)
  have meta: "index_metadata_new MinHashLsh (so_scheme s) CodecU64 (of_nat (so_num_perm s)) (so_seed s) (so_threshold s)
      (of_nat ?bands) (of_nat (p_rows (so_params s))) 0 = Ok (snapshot_metadata s)"
    using metadata_valid_snapshot [OF valid(1)] by (simp add: index_metadata_new_Ok snapshot_metadata_def)
  have sections: "section_new Keys True (keys_payload (map fst ?kh)) = Ok \<lparr>sec_kind = Keys, sec_required = True, sec_payload = keys_payload (map fst ?kh)\<rparr>"
    "section_new BandHashes True (hashes_payload (map snd ?kh))
       = Ok \<lparr>sec_kind = BandHashes, sec_required = True, sec_payload = hashes_payload (map snd ?kh)\<rparr>"
    using n small width by (simp_all add: section_new_Ok)
  show ?thesis
    unfolding encode_snapshot_def
    using bounds ss enc_file by (simp add: u32_try_from_def meta keys hashes sections index_file_new_def)
qed

section \<open>Reading a container back\<close>

text \<open>A descriptor of a scanned file and the section it stands for.\<close>

definition describes :: "(bytes \<Rightarrow> u32) \<Rightarrow> file_layout \<Rightarrow> bytes \<Rightarrow> section_descriptor \<Rightarrow> index_section \<Rightarrow> bool" where
  "describes crc layout file d s \<longleftrightarrow> sd_kind d = sec_kind s \<and> sd_required d = sec_required s
     \<and> section_holds layout d file (sec_payload s) \<and> sd_checksum d = crc (sec_payload s)"

lemma descriptors_describe:
  assumes c: "stored_container crc bs md all" and lim: "length bs < usize_limit"
    and sub: "set (located offset (map (\<lambda>s. with_checksum crc (section_frame s)) ss)) \<subseteq> set (located 72 all)"
  shows "list_all2 (describes crc (layout_of md bs all) bs) (descriptors offset (map (\<lambda>s. with_checksum crc (section_frame s)) ss)) ss"
  using sub
proof (induction ss arbitrary: offset)
  case (Cons s ss)
  let ?sf = "with_checksum crc (section_frame s)"
  have sf: "?sf = (section_kind_as_raw (sec_kind s), sec_required s, sec_payload s, crc (sec_payload s))"
    by (simp add: with_checksum_def section_frame_def)
  let ?d = "\<lparr>sd_kind = sec_kind s, sd_required = sec_required s, sd_payload_offset = of_nat (offset + 16),
       sd_payload_length = of_nat (length (sec_payload s)), sd_checksum = crc (sec_payload s)\<rparr>"
  have d: "stored_descriptor offset ?sf = Some ?d" by (simp add: stored_descriptor_def sf)
  have "(offset, ?sf) \<in> set (located 72 all)" using Cons.prems by simp
  note loc = descriptor_payload [OF c this [unfolded sf] d [unfolded sf] lim]
  have "describes crc (layout_of md bs all) bs ?d s"
    using loc lim by (simp add: describes_def section_holds_def layout_of_def)
  moreover have "list_all2 (describes crc (layout_of md bs all) bs)
      (descriptors (offset + length (stored_bytes ?sf)) (map (\<lambda>s. with_checksum crc (section_frame s)) ss)) ss"
    using Cons.prems by (intro Cons.IH) auto
  ultimately show ?case by (simp add: d)
qed simp

lemma layout_of_container:
  assumes law: "hasher_law crc hasher" and c: "container crc (rd_bytes r) md (map section_frame ss)" and healthy: "rd_faults r = []"
  shows "\<exists>layout r'. layout_read_from crc hasher r = Ok (layout, r') \<and> same_file r r' \<and> fl_metadata layout = md
    \<and> list_all2 (describes crc layout (rd_bytes r)) (fl_sections layout) ss"
proof -
  let ?sfs = "map (\<lambda>s. with_checksum crc (section_frame s)) ss"
  have lim: "length (rd_bytes r) < usize_limit" by (rule container_length [OF c])
  have stored: "stored_container crc (rd_bytes r) md ?sfs" using c by (simp add: container_stored comp_def)
  obtain r' where read: "layout_read_from crc hasher r = Ok (layout_of md (rd_bytes r) ?sfs, r')"
    using layout_read_from_stored [OF law lim healthy stored] by blast
  moreover have "same_file r r'" using layout_read_from_Ok [OF law lim read] by blast
  moreover have "list_all2 (describes crc (layout_of md (rd_bytes r) ?sfs) (rd_bytes r)) (descriptors 72 ?sfs) ss"
    by (rule descriptors_describe [OF stored lim]) simp
  ultimately show ?thesis by (auto simp: layout_of_def)
qed

lemma read_section_describes:
  assumes "describes crc layout (rd_bytes r) d s" and "rd_faults r = []"
  shows "\<exists>r'. read_section crc layout d r = Ok (sec_payload s, r') \<and> same_file r r'"
proof -
  have holds: "section_holds layout d (rd_bytes r) (sec_payload s)" and sum: "sd_checksum d = crc (sec_payload s)"
    using assms(1) by (simp_all add: describes_def)
  then have len: "unat (sd_payload_length d) = length (sec_payload s)" by (simp add: section_holds_def)
  obtain r' where "read_section_range layout d 0 (length (sec_payload s)) r = Ok (sec_payload s, r')" "same_file r r'"
    using range_read [OF holds assms(2), of 0 "length (sec_payload s)"] by auto
  then show ?thesis using len sum by (simp add: read_section_def)
qed

lemma read_section_range_same: "read_section_range layout d offset len r = Ok (xs, r') \<Longrightarrow> same_file r r'"
  by (auto simp: read_section_range_def res_simps dest!: seek_start_Ok read_exact_format_Ok intro: same_file_trans)

lemma read_bucket_members_same: "read_bucket_members crc layout l r = Ok (ms, r') \<Longrightarrow> same_file r r'"
  by (auto simp: read_bucket_members_def res_simps Let_def dest!: read_section_range_same)

section \<open>Opening a snapshot\<close>

text \<open>A committed base stands for a map: its directory lists exactly the non-empty buckets, and reading
  one returns its keys.\<close>

definition base_represents :: "(bytes \<Rightarrow> u32) \<Rightarrow> lazy_base \<Rightarrow> (u64 \<rightharpoonup> u64 list) \<Rightarrow> bool" where
  "base_represents crc base m \<longleftrightarrow> finite (dom m) \<and> sorted_wrt (<) (map bl_key (lb_buckets base))
     \<and> (\<forall>b. b \<notin> bl_key ` set (lb_buckets base) \<longrightarrow> bucket_of m b = {})
     \<and> (\<forall>l \<in> set (lb_buckets base). \<forall>r. rd_bytes r = rd_bytes (lb_file base) \<longrightarrow> rd_faults r = [] \<longrightarrow>
          (\<exists>ms r'. read_bucket_members crc (lb_layout base) l r = Ok (ms, r') \<and> set ms = bucket_of m (bl_key l)))"

lemma decode_all_segments_ok:
  assumes "list_all2 (describes crc layout (rd_bytes r)) ds (map (bucket_section crc) groups)" and "rd_faults r = []"
    and "\<forall>g \<in> set groups. group_ok g" and "bands < 4294967296"
    and "\<forall>p \<in> set (concat groups). unat (bk_band (fst p)) < bands"
  shows "\<exists>r'. fold_result (\<lambda>d (bks, r). and_then (map_err StoreBucket (decode_bucket_segment crc layout d bands r))
             (\<lambda>(ls, r). Ok (bks @ ls, r))) ds (out, r)
      = Ok (out @ concat (map (\<lambda>(d, g). locations crc d (segment_start (records_of g)) (records_of g)) (zip ds groups)), r') \<and> same_file r r'"
  using assms
proof (induction ds arbitrary: groups r out)
  case Nil
  then show ?case by (simp add: same_file_def)
next
  case (Cons d ds)
  then obtain g gs where groups: "groups = g # gs" and d: "describes crc layout (rd_bytes r) d (bucket_section crc g)"
    and rest: "list_all2 (describes crc layout (rd_bytes r)) ds (map (bucket_section crc) gs)"
    by (cases groups) auto
  have ok: "segment_ok (records_of g)" using Cons.prems(3) by (simp add: groups group_ok_def)
  have bands: "\<forall>x \<in> set (records_of g). unat (bk_band (br_key x)) < bands"
    using Cons.prems(5) by (force simp: groups records_of_def)
  obtain r1 where r1: "decode_bucket_segment crc layout d bands r = Ok (locations crc d (segment_start (records_of g)) (records_of g), r1)"
    "same_file r r1"
    using decode_segment [OF ok _ Cons.prems(2) _ _ Cons.prems(4) bands, of layout d crc] d
    by (auto simp: describes_def bucket_section_def)
  have "rd_bytes r1 = rd_bytes r" "rd_faults r1 = []" using r1(2) Cons.prems(2) by (simp_all add: same_file_def)
  then obtain r' where "fold_result (\<lambda>d (bks, r). and_then (map_err StoreBucket (decode_bucket_segment crc layout d bands r))
             (\<lambda>(ls, r). Ok (bks @ ls, r))) ds (out @ locations crc d (segment_start (records_of g)) (records_of g), r1)
      = Ok ((out @ locations crc d (segment_start (records_of g)) (records_of g))
          @ concat (map (\<lambda>(d, g). locations crc d (segment_start (records_of g)) (records_of g)) (zip ds gs)), r')" "same_file r1 r'"
    using Cons.IH [of r1 gs "out @ locations crc d (segment_start (records_of g)) (records_of g)"] rest Cons.prems groups by auto
  then show ?case using r1 same_file_trans [OF r1(2)] by (auto simp: groups)
qed

lemma group_locations:
  assumes d: "describes crc layout file d (bucket_section crc g)" and ok: "group_ok g" and r: "rd_bytes r = file" "rd_faults r = []"
  shows "list_all2 (\<lambda>l p. bl_key l = fst p \<and> (\<exists>r'. read_bucket_members crc layout l r = Ok (snd p, r')))
    (locations crc d (segment_start (records_of g)) (records_of g)) g"
proof -
  let ?rs = "records_of g"
  have holds: "section_holds layout d (rd_bytes r) (segment crc ?rs)" using d r(1) by (simp add: describes_def bucket_section_def)
  have seg: "segment_ok ?rs" using ok by (simp add: group_ok_def)
  have "drop (segment_start ?rs) (segment crc ?rs) = concat (map member_bytes ?rs)"
    by (simp add: segment_def Let_def segment_start_def)
  then have "list_all2 (\<lambda>l x. \<exists>r'. read_bucket_members crc layout l r = Ok (br_members x, r')) (locations crc d (segment_start ?rs) ?rs) ?rs"
    using seg by (intro read_all_members [OF holds r(2)]) (auto simp: segment_ok_def length_segment)
  moreover have "list_all2 (\<lambda>l x. bl_key l = br_key x) (locations crc d off rs) rs" for off rs
    by (induction rs arbitrary: off) auto
  ultimately have "list_all2 (\<lambda>l x. bl_key l = br_key x \<and> (\<exists>r'. read_bucket_members crc layout l r = Ok (br_members x, r')))
      (locations crc d (segment_start ?rs) ?rs) ?rs"
    by (simp add: list_all2_conv_all_nth)
  then show ?thesis
    unfolding records_of_def list_all2_map2 by (rule list_all2_mono) (auto split: prod.splits)
qed

lemma fold_insert_unique:
  assumes "sorted_wrt (<) (map fst (acc @ xs))"
  shows "fold_result insert_unique xs acc = Ok (acc @ xs)"
  using assms
proof (induction xs arbitrary: acc)
  case (Cons x xs)
  obtain k hs where x: "x = (k, hs)" by (cases x)
  have "k \<notin> fst ` set acc" and above: "\<forall>p \<in> set acc. fst p < k" using Cons.prems by (auto simp: x sorted_wrt_append)
  then have "map_of acc k = None" by (simp add: map_of_eq_None_iff)
  moreover have "bt_insert k hs acc = acc @ [(k, hs)]" using above by (induction acc) auto
  ultimately show ?case using Cons.IH [of "acc @ [x]"] Cons.prems by (simp add: insert_unique_def x)
qed simp

lemma collect_bucket:
  "sd_kind d = Buckets \<Longrightarrow> sd_required d \<Longrightarrow> collect_bucket_descriptor d out = Ok (out @ [d])"
  unfolding collect_bucket_descriptor_def by simp

lemma collect_all_buckets:
  assumes "list_all (\<lambda>d. sd_kind d = Buckets \<and> sd_required d) ds"
  shows "fold_result collect_bucket_descriptor ds out = Ok (out @ ds)"
  using assms
proof (induction ds arbitrary: out)
  case (Cons d ds)
  have step: "collect_bucket_descriptor d out = Ok (out @ [d])" using Cons.prems by (intro collect_bucket) simp_all
  have rest: "fold_result collect_bucket_descriptor ds (out @ [d]) = Ok ((out @ [d]) @ ds)"
    by (rule Cons.IH) (use Cons.prems in simp)
  show ?case by (simp add: step rest)
qed simp

lemma required_unique_keys:
  assumes "list_all2 (describes crc layout file) (fl_sections layout) (snapshot_sections crc s groups)"
  shows "\<exists>dk dh ds. fl_sections layout = dk # dh # ds \<and> required_unique_section layout Keys = Ok dk
    \<and> required_unique_section layout BandHashes = Ok dh \<and> collect_bucket_descriptors layout = Ok ds
    \<and> describes crc layout file dk \<lparr>sec_kind = Keys, sec_required = True, sec_payload = keys_payload (map fst (so_key_hashes s))\<rparr>
    \<and> describes crc layout file dh \<lparr>sec_kind = BandHashes, sec_required = True, sec_payload = hashes_payload (map snd (so_key_hashes s))\<rparr>
    \<and> list_all2 (describes crc layout file) ds (map (bucket_section crc) groups)"
proof -
  obtain dk dh ds where secs: "fl_sections layout = dk # dh # ds"
    and dk: "describes crc layout file dk \<lparr>sec_kind = Keys, sec_required = True, sec_payload = keys_payload (map fst (so_key_hashes s))\<rparr>"
    and dh: "describes crc layout file dh \<lparr>sec_kind = BandHashes, sec_required = True, sec_payload = hashes_payload (map snd (so_key_hashes s))\<rparr>"
    and ds: "list_all2 (describes crc layout file) ds (map (bucket_section crc) groups)"
    using assms by (auto simp: snapshot_sections_def list_all2_Cons2)
  have kinds: "list_all (\<lambda>d. sd_kind d = Buckets \<and> sd_required d) ds"
    using ds by (auto simp: list_all2_conv_all_nth list_all_length describes_def bucket_section_def)
  have none: "filter (\<lambda>d. sd_kind d = Keys) ds = []" "filter (\<lambda>d. sd_kind d = BandHashes) ds = []"
    using kinds by (auto simp: filter_empty_conv list_all_iff)
  have dk': "sd_kind dk = Keys" "sd_required dk" and dh': "sd_kind dh = BandHashes" "sd_required dh"
    using dk dh by (simp_all add: describes_def)
  have "required_unique_section layout Keys = Ok dk" "required_unique_section layout BandHashes = Ok dh"
    using none dk' dh' by (simp_all add: required_unique_section_def secs)
  moreover have "collect_bucket_descriptors layout = Ok ds"
    using collect_all_buckets [OF kinds, of "[]"] dk' dh' by (simp add: collect_bucket_descriptors_def collect_bucket_descriptor_def secs)
  ultimately show ?thesis using secs dk dh ds by blast
qed

lemma read_key_metadata_ok:
  assumes dk: "required_unique_section layout Keys = Ok dk"
      "describes crc layout (rd_bytes r) dk \<lparr>sec_kind = Keys, sec_required = True, sec_payload = keys_payload (map fst kh)\<rparr>"
    and dh: "required_unique_section layout BandHashes = Ok dh"
      "describes crc layout (rd_bytes r) dh \<lparr>sec_kind = BandHashes, sec_required = True, sec_payload = hashes_payload (map snd kh)\<rparr>"
    and healthy: "rd_faults r = []" and wf: "bt_wf kh" and width: "\<forall>row \<in> set (map snd kh). length row = bands"
    and small: "8 + length kh * bands * 8 \<le> 268435456" "0 < bands" "bands < 4294967296"
  shows "\<exists>r'. read_key_metadata crc layout bands r = Ok (kh, r') \<and> same_file r r'"
proof -
  obtain r1 where r1: "read_section crc layout dk r = Ok (keys_payload (map fst kh), r1)" "same_file r r1"
    using read_section_describes [OF dk(2) healthy] by auto
  then have bytes1: "rd_bytes r1 = rd_bytes r" and healthy1: "rd_faults r1 = []" using healthy by (simp_all add: same_file_def)
  obtain r2 where r2: "read_section crc layout dh r1 = Ok (hashes_payload (map snd kh), r2)" "same_file r1 r2"
    using read_section_describes [of crc layout r1 dh, OF _ healthy1] dh(2) bytes1 by fastforce
  have "length kh * 1 \<le> length kh * bands" using small(2) by (intro mult_le_mono) auto
  then have "length kh \<le> 33554431" using small(1) by linarith
  then have "decode_keys (keys_payload (map fst kh)) = Ok (map fst kh)"
    by (intro decode_keys_payload) simp
  moreover have "decode_band_hashes (hashes_payload (map snd kh)) bands = Ok (map snd kh)"
    using small width by (intro decode_hashes_payload) simp_all
  moreover have "fold_result insert_unique (zip (map fst kh) (map snd kh)) [] = Ok kh"
    using fold_insert_unique [of "[]" kh] wf by (simp add: bt_wf_def zip_map_fst_snd)
  ultimately show ?thesis
    using r1(1) r2(1) dk(1) dh(1) same_file_trans [OF r1(2) r2(2)] by (simp add: read_key_metadata_def)
qed

lemma list_all2_concat_zip:
  assumes "list_all2 P ds groups" and "\<And>d g. P d g \<Longrightarrow> list_all2 Q (f d g) g"
  shows "list_all2 Q (concat (map (\<lambda>(d, g). f d g) (zip ds groups))) (concat groups)"
  using assms(1) by (induction rule: list_all2_induct) (auto intro: list_all2_appendI assms(2))

text \<open>The bucket locations of a snapshot represent its contents, however the file is read again.\<close>

lemma snapshot_locations:
  fixes r :: reader and crc :: "bytes \<Rightarrow> u32"
  assumes represent: "buckets_represent bm m" "concat groups = bm" "\<forall>g \<in> set groups. group_ok g" and fin: "finite (dom m)"
    and ds: "list_all2 (describes crc layout (rd_bytes r)) ds (map (bucket_section crc) groups)"
  defines "locs \<equiv> concat (map (\<lambda>(d, g). locations crc d (segment_start (records_of g)) (records_of g)) (zip ds groups))"
  assumes again: "rd_bytes r' = rd_bytes r"
  shows "validate_global_bucket_order locs = Ok ()"
    "base_represents crc \<lparr>lb_file = r', lb_poisoned = False, lb_layout = layout, lb_buckets = locs\<rparr> m"
proof -
  have wfm: "bt_wf bm" and look: "\<And>b. map_of bm b = non_empty (sorted_list_of_set (bucket_of m b))"
    using represent(1) by (simp_all add: buckets_represent_def)
  have finb: "finite (bucket_of m b)" for b by (rule finite_bucket_of [OF fin])
  have member: "map_of bm b = Some ms \<longleftrightarrow> ms = sorted_list_of_set (bucket_of m b) \<and> bucket_of m b \<noteq> {}" for b ms
    using look [of b] finb [of b] by (auto simp: non_empty_def)
  have both: "list_all2 (\<lambda>d g. describes crc layout (rd_bytes r) d (bucket_section crc g) \<and> group_ok g) ds groups"
    using ds represent(3) by (auto simp: list_all2_map2 list_all2_conv_all_nth)
  have all: "list_all2 (\<lambda>l p. bl_key l = fst p \<and> (\<exists>r''. read_bucket_members crc layout l q = Ok (snd p, r''))) locs bm"
    if "rd_bytes q = rd_bytes r" "rd_faults q = []" for q :: reader
    unfolding represent(2) [symmetric] locs_def by (rule list_all2_concat_zip [OF both]) (use that group_locations in blast)
  have keys: "map bl_key locs = map fst bm"
    using all [of "\<lparr>rd_bytes = rd_bytes r, rd_pos = 0, rd_faults = []\<rparr>"] by (auto simp: list_all2_conv_all_nth intro: nth_equalityI)
  show "validate_global_bucket_order locs = Ok ()"
    using wfm by (simp add: validate_global_bucket_order_def strictly_ascending_iff keys bt_wf_def)
  show "base_represents crc \<lparr>lb_file = r', lb_poisoned = False, lb_layout = layout, lb_buckets = locs\<rparr> m"
    unfolding base_represents_def lazy_base.simps keys
  proof (intro conjI allI ballI impI fin)
    show "sorted_wrt (<) (map fst bm)" using wfm by (simp add: bt_wf_def)
  next
    fix b assume "b \<notin> bl_key ` set locs"
    then have "b \<notin> fst ` set bm" by (metis keys list.set_map)
    then have "map_of bm b = None" by (simp add: map_of_eq_None_iff)
    then show "bucket_of m b = {}" using look [of b] finb [of b] by (auto simp: non_empty_def split: if_splits)
  next
    fix l and q :: reader assume l: "l \<in> set locs" and q: "rd_bytes q = rd_bytes r'" "rd_faults q = []"
    obtain i where i: "i < length locs" "l = locs ! i" using l unfolding in_set_conv_nth by blast
    have at: "length bm = length locs" "bl_key l = fst (bm ! i)" "\<exists>r''. read_bucket_members crc layout l q = Ok (snd (bm ! i), r'')"
      using all [of q] q again i by (auto simp: list_all2_conv_all_nth)
    have "map_of bm (bl_key l) = Some (snd (bm ! i))" using wfm at(1,2) i(1) by (simp add: bt_wf_mem [symmetric])
    then have "set (snd (bm ! i)) = bucket_of m (bl_key l)" unfolding member using finb by simp
    with at(3) show "\<exists>ms r''. read_bucket_members crc layout l q = Ok (ms, r'') \<and> set ms = bucket_of m (bl_key l)" by blast
  qed
qed

text \<open>What a reader of a snapshot finds: the sections, their payloads and the bucket directory.\<close>

lemma snapshot_opening:
  fixes r :: reader and crc :: "bytes \<Rightarrow> u32"
  assumes valid: "config_valid s" "keys_valid s" and enc: "encode_snapshot crc s = Ok (rd_bytes r)"
    and law: "hasher_law crc hasher" and healthy: "rd_faults r = []"
  obtains layout q dk dh ds locs where "layout_read_from crc hasher r = Ok (layout, q)" "same_file r q" "fl_metadata layout = snapshot_metadata s"
    "required_unique_section layout Keys = Ok dk" "required_unique_section layout BandHashes = Ok dh" "collect_bucket_descriptors layout = Ok ds" "ds \<noteq> []"
    "describes crc layout (rd_bytes r) dk \<lparr>sec_kind = Keys, sec_required = True, sec_payload = keys_payload (map fst (so_key_hashes s))\<rparr>"
    "describes crc layout (rd_bytes r) dh \<lparr>sec_kind = BandHashes, sec_required = True, sec_payload = hashes_payload (map snd (so_key_hashes s))\<rparr>"
    "\<forall>d \<in> set ds. \<exists>sec. describes crc layout (rd_bytes r) d sec"
    "\<And>q. same_file r q \<Longrightarrow> \<exists>q'. decode_all_segments crc layout (p_bands (so_params s)) ds q = Ok (locs, q') \<and> same_file q q'"
    "validate_global_bucket_order locs = Ok ()"
    "\<And>q. rd_bytes q = rd_bytes r \<Longrightarrow> base_represents crc \<lparr>lb_file = q, lb_poisoned = False, lb_layout = layout, lb_buckets = locs\<rparr> (contents s)"
    "8 + length (so_key_hashes s) * p_bands (so_params s) * 8 \<le> 268435456"
proof -
  let ?bands = "p_bands (so_params s)" and ?kh = "so_key_hashes s"
  note bounds = config_bounds [OF valid(1)]
  obtain bm groups where bm: "buckets_represent bm (contents s)" "concat groups = bm" "groups \<noteq> []" "\<forall>g \<in> set groups. group_ok g"
    and cont: "container crc (rd_bytes r) (snapshot_metadata s) (map section_frame (snapshot_sections crc s groups))"
    and size: "8 + length ?kh * ?bands * 8 \<le> 268435456"
    using encode_snapshot_Ok [OF valid enc] by blast
  obtain layout q where lay: "layout_read_from crc hasher r = Ok (layout, q)" "same_file r q" "fl_metadata layout = snapshot_metadata s"
    "list_all2 (describes crc layout (rd_bytes r)) (fl_sections layout) (snapshot_sections crc s groups)"
    using layout_of_container [OF law cont healthy] by blast
  obtain dk dh ds where dd: "required_unique_section layout Keys = Ok dk" "required_unique_section layout BandHashes = Ok dh"
    "collect_bucket_descriptors layout = Ok ds"
    "describes crc layout (rd_bytes r) dk \<lparr>sec_kind = Keys, sec_required = True, sec_payload = keys_payload (map fst ?kh)\<rparr>"
    "describes crc layout (rd_bytes r) dh \<lparr>sec_kind = BandHashes, sec_required = True, sec_payload = hashes_payload (map snd ?kh)\<rparr>"
    "list_all2 (describes crc layout (rd_bytes r)) ds (map (bucket_section crc) groups)"
    using required_unique_keys [OF lay(4)] by auto
  have bandlim: "unat (bk_band (fst p)) < ?bands" if p: "p \<in> set bm" for p
  proof -
    have "bt_wf bm" using bm(1) by (simp add: buckets_represent_def)
    with p have "map_of bm (fst p) = Some (snd p)" by (simp add: bt_wf_mem [symmetric])
    then have "bucket_of (contents s) (fst p) \<noteq> {}" using bm(1) by (auto simp: buckets_represent_def non_empty_def split: if_splits)
    then obtain k hs where "map_of ?kh k = Some hs" "unat (bk_band (fst p)) < length hs" by (auto simp: bucket_of_def)
    then show ?thesis using valid(2) by (auto simp: keys_valid_def dest!: map_of_SomeD)
  qed
  let ?locs = "concat (map (\<lambda>(d, g). locations crc d (segment_start (records_of g)) (records_of g)) (zip ds groups))"
  have "\<exists>q'. decode_all_segments crc layout ?bands ds q = Ok (?locs, q') \<and> same_file q q'" if "same_file r q" for q
    using decode_all_segments_ok [of crc layout q ds groups ?bands "[]"] dd(6) bm(4) that healthy bounds bandlim bm(2)
    unfolding decode_all_segments_def by (auto simp: same_file_def)
  moreover note snapshot_locations [OF bm(1,2,4) finite_dom_map_of dd(6)]
  moreover have "ds \<noteq> []" using dd(6) bm(3) by auto
  moreover have "\<forall>d \<in> set ds. \<exists>sec. describes crc layout (rd_bytes r) d sec"
    using dd(6) unfolding list_all2_conv_all_nth in_set_conv_nth Ball_def by blast
  ultimately show ?thesis using that [OF lay(1,2,3) dd(1,2,3) _ dd(4,5)] size by blast
qed

lemma snapshot_fields:
  assumes "config_valid s"
  shows "unat (md_num_perm (snapshot_metadata s)) = so_num_perm s" "unat (md_bands (snapshot_metadata s)) = p_bands (so_params s)"
    "unat (md_rows (snapshot_metadata s)) = p_rows (so_params s)" "md_threshold (snapshot_metadata s) = so_threshold s"
    "md_seed (snapshot_metadata s) = so_seed s" "\<lparr>p_bands = p_bands (so_params s), p_rows = p_rows (so_params s)\<rparr> = so_params s"
  using config_bounds [OF assms] by (simp_all add: snapshot_metadata_def)

lemma config_accepted: "config_valid s \<Longrightarrow> index_with_params (so_threshold s) (so_num_perm s) (so_seed s) (so_params s)
    = Ok \<lparr>idx_threshold = so_threshold s, idx_num_perm = so_num_perm s, idx_seed = so_seed s, idx_params = so_params s,
         idx_data = index_data_new (p_bands (so_params s))\<rparr>"
  by (simp add: index_with_params_def config_valid_def validate_cases)

lemma open_snapshot:
  fixes r :: reader and crc :: "bytes \<Rightarrow> u32"
  assumes valid: "config_valid s" "keys_valid s" and enc: "encode_snapshot crc s = Ok (rd_bytes r)"
    and law: "hasher_law crc hasher" and healthy: "rd_faults r = []"
  shows "\<exists>base. store_open_file crc hasher path (so_scheme s) r =
      Ok ((store_empty path (so_threshold s) (so_num_perm s) (so_seed s) (so_params s) (so_scheme s))
        \<lparr>so_base := Some base, so_key_hashes := so_key_hashes s, so_dirty := False\<rparr>)
    \<and> base_represents crc base (contents s) \<and> lb_poisoned base = False \<and> rd_faults (lb_file base) = [] \<and> rd_bytes (lb_file base) = rd_bytes r"
proof (rule snapshot_opening [OF assms])
  let ?bands = "p_bands (so_params s)" and ?kh = "so_key_hashes s"
  note bounds = config_bounds [OF valid(1)]
  fix layout q dk dh ds locs
  assume lay: "layout_read_from crc hasher r = Ok (layout, q)" "same_file r q" "fl_metadata layout = snapshot_metadata s"
    and secs: "required_unique_section layout Keys = Ok dk" "required_unique_section layout BandHashes = Ok dh" "collect_bucket_descriptors layout = Ok ds" "ds \<noteq> []"
    and payloads: "describes crc layout (rd_bytes r) dk \<lparr>sec_kind = Keys, sec_required = True, sec_payload = keys_payload (map fst ?kh)\<rparr>"
      "describes crc layout (rd_bytes r) dh \<lparr>sec_kind = BandHashes, sec_required = True, sec_payload = hashes_payload (map snd ?kh)\<rparr>"
    and decode: "\<And>q. same_file r q \<Longrightarrow> \<exists>q'. decode_all_segments crc layout ?bands ds q = Ok (locs, q') \<and> same_file q q'"
    and order: "validate_global_bucket_order locs = Ok ()"
    and base: "\<And>q. rd_bytes q = rd_bytes r \<Longrightarrow> base_represents crc \<lparr>lb_file = q, lb_poisoned = False, lb_layout = layout, lb_buckets = locs\<rparr> (contents s)"
    and size: "8 + length ?kh * ?bands * 8 \<le> 268435456"
  have q: "rd_bytes q = rd_bytes r" "rd_faults q = []" using lay(2) healthy by (simp_all add: same_file_def)
  obtain q1 where q1: "read_key_metadata crc layout ?bands q = Ok (?kh, q1)" "same_file q q1"
    using read_key_metadata_ok [of layout dk crc q ?kh dh ?bands] secs(1,2) payloads q keys_valid_rows [OF valid(2)] size bounds(4,5) valid(2)
    by (auto simp: keys_valid_def)
  note q1' = same_file_trans [OF lay(2) q1(2)]
  obtain q2 where q2: "decode_all_segments crc layout ?bands ds q1 = Ok (locs, q2)" "same_file r q2"
    using decode [OF q1'] q1' same_file_trans by blast
  have meta: "validate_store_metadata (snapshot_metadata s) (so_scheme s) = Ok ()"
    by (simp add: validate_store_metadata_def snapshot_metadata_def)
  have config: "validate_lsh_configuration (so_scheme s) (so_threshold s) (so_num_perm s) (so_seed s) (so_params s) = Ok ()"
    using config_accepted [OF valid(1)] by (cases "so_scheme s") (auto simp: validate_lsh_configuration_def)
  note fields = snapshot_fields [OF valid(1)]
  have "store_open_file crc hasher path (so_scheme s) r =
      Ok ((store_empty path (so_threshold s) (so_num_perm s) (so_seed s) (so_params s) (so_scheme s))
        \<lparr>so_base := Some \<lparr>lb_file = q2, lb_poisoned = False, lb_layout = layout, lb_buckets = locs\<rparr>, so_key_hashes := ?kh, so_dirty := False\<rparr>)"
    unfolding store_open_file_def lay(1) map_err.simps and_then.simps prod.case lay(3) meta Let_def fields config q1(1) secs(3)
    using q2(1) order secs(4) by (simp add: store_empty_def)
  then show ?thesis using base [of q2] q2(2) healthy by (intro exI [of _ "\<lparr>lb_file = q2, lb_poisoned = False, lb_layout = layout, lb_buckets = locs\<rparr>"])
      (simp add: same_file_def)
qed

section \<open>Properties\<close>

text \<open>C4: A store with a valid configuration and sorted keys whose band-hash rows have the configured width
  has a snapshot whenever it holds fewer than \<open>2 ^ 25 - 8\<close> band hashes. Opening the snapshot with the store's
  scheme, under any CRC-32 and hasher that agree, yields a clean store with the same configuration and
  the same keys and band hashes, whose lazily read bucket directory lists, in ascending order, exactly
  the buckets that hold a key and reads each one as the keys in it.\<close>

theorem snapshot_roundtrip:
  assumes "config_valid s" and "keys_valid s" and "length (so_key_hashes s) * p_bands (so_params s) + 9 \<le> 2 ^ 25"
    and "hasher_law crc hasher"
  shows "\<exists>bs. encode_snapshot crc s = Ok bs
    \<and> (\<exists>base. store_open_file crc hasher path (so_scheme s) \<lparr>rd_bytes = bs, rd_pos = 0, rd_faults = []\<rparr> =
         Ok ((store_empty path (so_threshold s) (so_num_perm s) (so_seed s) (so_params s) (so_scheme s))
           \<lparr>so_base := Some base, so_key_hashes := so_key_hashes s, so_dirty := False\<rparr>)
       \<and> base_represents crc base (contents s))"
proof -
  obtain bs where enc: "encode_snapshot crc s = Ok bs" using encode_snapshot_room [OF assms(1,2)] assms(3) by auto
  then show ?thesis
    using open_snapshot [OF assms(1,2) _ assms(4), of "\<lparr>rd_bytes = bs, rd_pos = 0, rd_faults = []\<rparr>" path] by auto
qed

section \<open>Witnesses\<close>

definition example_store :: store where
  "example_store = (store_empty [''index''] f64_one 4 7 \<lparr>p_bands = 2, p_rows = 2\<rparr> PariAffine32V1)
     \<lparr>so_key_hashes := [(3, [10, 20]), (7, [10, 21])]\<rparr>"

lemma example_store_valid: "config_valid example_store" "keys_valid example_store"
  by (simp_all add: config_valid_def keys_valid_def example_store_def store_empty_def params_valid_def bt_wf_def)

theorem snapshot_roundtrip_witness:
  "\<exists>bs s'. encode_snapshot example_crc example_store = Ok bs
     \<and> store_open_file example_crc example_hasher [''index''] PariAffine32V1 \<lparr>rd_bytes = bs, rd_pos = 0, rd_faults = []\<rparr> = Ok s'
     \<and> so_key_hashes s' = [(3, [10, 20]), (7, [10, 21])] \<and> \<not> so_dirty s'"
  using snapshot_roundtrip [OF example_store_valid _ example_hasher_law, of "[''index'']"]
  by (auto simp: example_store_def store_empty_def)

end
