(* ===== verification/Pari_Faults.thy ===== *)
theory Pari_Faults
  imports Pari_Snapshot
begin

text \<open>
  Reads under faults. A reader carries a schedule of I/O faults; \<open>heal\<close> is the same reader without
  them. A reading operation is \<^emph>\<open>tolerant\<close> when a successful run under any schedule is also the run of
  the healthy reader: a fault can make it fail, but never return something else. The operations of
  the lazy reader, of the bucket directory and of the stores are tolerant, so that facts about
  healthy files carry over to every successful read.
\<close>

named_theorems tolerant_intros \<open>operations that faults can only make fail\<close>

definition heal :: "reader \<Rightarrow> reader" where
  "heal r = r\<lparr>rd_faults := []\<rparr>"

lemma heal_simps [simp]:
  "rd_bytes (heal r) = rd_bytes r" "rd_faults (heal r) = []" "rd_pos (heal r) = rd_pos r" "heal (r\<lparr>rd_pos := p\<rparr>) = (heal r)\<lparr>rd_pos := p\<rparr>"
  by (simp_all add: heal_def)

text \<open>\<open>H\<close> heals the reader inside the result of an operation.\<close>

definition tolerant_by :: "('b \<Rightarrow> 'b) \<Rightarrow> (reader \<Rightarrow> ('b, 'e) result) \<Rightarrow> bool" where
  "tolerant_by H f \<longleftrightarrow> (\<forall>r y. f r = Ok y \<longrightarrow> f (heal r) = Ok (H y))"

abbreviation tolerant :: "(reader \<Rightarrow> ('a \<times> reader, 'e) result) \<Rightarrow> bool" where
  "tolerant \<equiv> tolerant_by (apsnd heal)"

lemma tolerantD: "tolerant f \<Longrightarrow> f r = Ok (x, r') \<Longrightarrow> f (heal r) = Ok (x, heal r')"
  by (auto simp: tolerant_by_def)

section \<open>Composition\<close>

lemma tolerant_Ok [tolerant_intros]:
  "tolerant_by heal Ok" "tolerant (\<lambda>r. Ok (x, r))" "tolerant_by (apsnd (apsnd heal)) (\<lambda>r. Ok (x, y, r))"
  "tolerant_by H (\<lambda>r. Err e)" "tolerant_by H (\<lambda>r. Panic)"
  by (simp_all add: tolerant_by_def)

lemma tolerant_pure [tolerant_intros]: "(\<And>x. tolerant_by H (g x)) \<Longrightarrow> tolerant_by H (\<lambda>r. and_then p (\<lambda>x. g x r))"
  by (cases p) (simp_all add: tolerant_by_def)

lemma tolerant_map_err [tolerant_intros]: "tolerant_by H f \<Longrightarrow> tolerant_by H (\<lambda>r. map_err h (f r))"
  by (auto simp: tolerant_by_def res_simps)

lemma tolerant_if [tolerant_intros]: "tolerant_by H f \<Longrightarrow> tolerant_by H g \<Longrightarrow> tolerant_by H (\<lambda>r. if c then f r else g r)"
  by (simp add: tolerant_by_def)

lemma tolerant_case_option [tolerant_intros]:
  "tolerant_by H f \<Longrightarrow> (\<And>x. tolerant_by H (g x)) \<Longrightarrow> tolerant_by H (\<lambda>r. case opt of None \<Rightarrow> f r | Some x \<Rightarrow> g x r)"
  by (cases opt) simp_all

lemma tolerant_bind1: "tolerant_by heal f \<Longrightarrow> tolerant_by H g \<Longrightarrow> tolerant_by H (\<lambda>r. and_then (f r) g)"
  by (auto simp: tolerant_by_def res_simps)

lemma tolerant_bind2: "tolerant f \<Longrightarrow> (\<And>x. tolerant_by H (g x)) \<Longrightarrow> tolerant_by H (\<lambda>r. and_then (f r) (\<lambda>(x, r). g x r))"
  by (fastforce simp: tolerant_by_def res_simps)

lemma tolerant_bind3:
  "tolerant_by (apsnd (apsnd heal)) f \<Longrightarrow> (\<And>x y. tolerant_by H (g x y)) \<Longrightarrow> tolerant_by H (\<lambda>r. and_then (f r) (\<lambda>(x, y, r). g x y r))"
  by (fastforce simp: tolerant_by_def res_simps)

lemma tolerant_fold:
  assumes "\<And>x s. tolerant (\<lambda>r. f x (s, r))"
  shows "tolerant (\<lambda>r. fold_result f xs (s, r))"
proof (induction xs arbitrary: s)
  case Nil
  show ?case unfolding fold_result.simps by (intro tolerant_intros)
next
  case (Cons x xs)
  have "tolerant (\<lambda>r. and_then (f x (s, r)) (\<lambda>(s, r). fold_result f xs (s, r)))" by (intro tolerant_bind2 assms Cons.IH)
  then show ?case by simp
qed

section \<open>Reads\<close>

lemma io_tick_heal [simp]: "io_tick (heal r) = Ok (heal r)"
  by (simp add: io_tick_def)

lemma io_tick_same: "io_tick r = Ok r' \<Longrightarrow> heal r' = heal r \<and> rd_bytes r' = rd_bytes r \<and> rd_pos r' = rd_pos r"
  by (auto simp: io_tick_def heal_def split: list.splits option.splits)

lemma seek_start_tolerant: "tolerant_by heal (seek_start p)"
  unfolding tolerant_by_def seek_start_def by (auto simp: res_simps dest: io_tick_same)

lemma seek_end_tolerant: "tolerant seek_end"
  unfolding tolerant_by_def seek_end_def by (auto simp: res_simps dest: io_tick_same)

lemma read_exact_format_tolerant: "tolerant (read_exact_format n context)"
  unfolding tolerant_by_def read_exact_format_def read_exact_def
  by (auto simp: res_simps dest: io_tick_same split: if_splits)

section \<open>Layouts and buckets\<close>

lemma skip_loop_tolerant: "tolerant (skip_loop hasher remaining h)"
proof -
  have "skip_loop hasher remaining h r = Ok (x, r') \<Longrightarrow> skip_loop hasher remaining h (heal r) = Ok (x, heal r')" for r x r'
  proof (induction hasher remaining h r rule: skip_loop.induct)
    case (1 hasher remaining h r)
    show ?case
    proof (cases "remaining = 0")
      case True
      then show ?thesis using 1(2) by simp
    next
      case False
      let ?count = "unat (min remaining CHECKSUM_BUFFER_BYTES)"
      obtain piece r1 where step: "read_exact_format ?count ''section payload'' r = Ok (piece, r1)"
        "skip_loop hasher (remaining - of_nat ?count) (hasher_update hasher piece h) r1 = Ok (x, r')"
        using 1(2) False by (subst (asm) skip_loop.simps) (auto simp: res_simps Let_def)
      from 1(1) [OF False refl step(1) refl step(2)] tolerantD [OF read_exact_format_tolerant step(1)] False
      show ?thesis by (subst skip_loop.simps) (simp add: Let_def)
    qed
  qed
  then show ?thesis by (auto simp: tolerant_by_def)
qed

lemma verify_skipped_tolerant: "tolerant_by heal (verify_skipped_payload hasher n c)"
  unfolding verify_skipped_payload_def [abs_def] Let_def
  by (intro tolerant_bind2 skip_loop_tolerant tolerant_intros)

lemma scan_section_tolerant: "tolerant_by (apsnd (apsnd heal)) (scan_section hasher file_length cursor)"
  unfolding scan_section_def [abs_def] Let_def
  by (intro tolerant_intros tolerant_bind1 [OF tolerant_map_err, OF seek_start_tolerant] tolerant_bind2 [OF read_exact_format_tolerant]
      tolerant_bind1 [OF verify_skipped_tolerant])

lemma scan_sections_tolerant: "tolerant_by (apsnd (apsnd heal)) (scan_sections hasher file_length n cursor sections)"
proof (induction n arbitrary: cursor sections)
  case 0
  show ?case unfolding scan_sections.simps by (intro tolerant_intros)
next
  case (Suc n)
  show ?case unfolding scan_sections.simps by (intro tolerant_bind3 [OF scan_section_tolerant] Suc.IH)
qed

lemma tolerant_pure_pair [tolerant_intros]:
  "(\<And>x y. tolerant_by H (g x y)) \<Longrightarrow> tolerant_by H (\<lambda>r. and_then p (\<lambda>(x, y). g x y r))"
  by (cases p) (auto simp: tolerant_by_def)

lemma layout_read_from_tolerant: "tolerant (layout_read_from crc hasher)"
  unfolding layout_read_from_def [abs_def] Let_def
  by (intro tolerant_intros tolerant_bind1 [OF tolerant_map_err, OF seek_start_tolerant] tolerant_bind2 [OF tolerant_map_err, OF seek_end_tolerant]
      tolerant_bind2 [OF read_exact_format_tolerant] tolerant_bind3 [OF scan_sections_tolerant])

lemma read_section_range_tolerant: "tolerant (read_section_range layout d offset len)"
  unfolding read_section_range_def [abs_def]
  by (intro tolerant_intros tolerant_bind1 [OF tolerant_map_err, OF seek_start_tolerant] read_exact_format_tolerant)

lemma read_section_tolerant: "tolerant (read_section crc layout d)"
  unfolding read_section_def [abs_def] Let_def by (intro tolerant_intros tolerant_bind2 [OF read_section_range_tolerant])

lemma read_bucket_members_tolerant: "tolerant (read_bucket_members crc layout l)"
  unfolding read_bucket_members_def [abs_def] Let_def
  by (intro tolerant_intros tolerant_bind2 [OF tolerant_map_err, OF read_section_range_tolerant])

lemma decode_bucket_segment_tolerant: "tolerant (decode_bucket_segment crc layout d bands)"
  unfolding decode_bucket_segment_def [abs_def] Let_def
  by (intro tolerant_intros tolerant_bind2 [OF tolerant_map_err, OF read_section_range_tolerant])

section \<open>Opening a store\<close>

lemma read_key_metadata_tolerant: "tolerant (read_key_metadata crc layout bands)"
  unfolding read_key_metadata_def [abs_def]
  by (intro tolerant_intros tolerant_bind2 [OF tolerant_map_err, OF read_section_tolerant])

lemma decode_all_segments_tolerant: "tolerant (decode_all_segments crc layout bands ds)"
  unfolding decode_all_segments_def [abs_def] prod.case
  by (intro tolerant_fold) (simp, intro tolerant_intros tolerant_bind2 [OF tolerant_map_err, OF decode_bucket_segment_tolerant])

definition heal_store :: "store \<Rightarrow> store" where
  "heal_store s = s\<lparr>so_base := map_option (\<lambda>base. base\<lparr>lb_file := heal (lb_file base)\<rparr>) (so_base s)\<rparr>"

lemma store_open_file_tolerant: "tolerant_by heal_store (store_open_file crc hasher path scheme)"
proof -
  have legacy: "tolerant_by heal_store (\<lambda>r. open_legacy path threshold num_perm seed params scheme kh)" for threshold num_perm seed params kh
    by (auto simp: tolerant_by_def open_legacy_def rebuild_overlay_all_def res_simps heal_store_def)
  have based: "tolerant_by heal_store (\<lambda>r. Ok \<lparr>so_path = path, so_threshold = threshold, so_num_perm = num_perm, so_seed = seed, so_params = params,
           so_scheme = scheme, so_base = Some \<lparr>lb_file = r, lb_poisoned = False, lb_layout = layout, lb_buckets = bks\<rparr>,
           so_overlay_buckets = overlay, so_overlay_keys = [], so_suppressed_base_keys = [],
           so_key_hashes = kh, so_dirty = False, so_query_metrics = None\<rparr>)" for threshold num_perm seed params layout bks overlay kh
    by (simp add: tolerant_by_def heal_store_def)
  show ?thesis
    unfolding store_open_file_def [abs_def] Let_def
    by (intro tolerant_bind2 [OF tolerant_map_err, OF layout_read_from_tolerant] tolerant_bind2 [OF read_key_metadata_tolerant]
        tolerant_bind2 [OF decode_all_segments_tolerant] tolerant_intros legacy based)
qed

section \<open>No panics\<close>

named_theorems panic_free \<open>operations that never panic\<close>

definition safe :: "('a, 'e) result \<Rightarrow> bool" where
  "safe r \<longleftrightarrow> r \<noteq> Panic"

lemma safe_basic [panic_free]: "safe (Ok x)" "safe (Err e)" "safe (ok_or e opt)" "safe (err_if c e)"
  by (cases opt; auto simp: safe_def err_if_def)+

lemma safe_and_then [panic_free]: "safe r \<Longrightarrow> (\<And>x. safe (f x)) \<Longrightarrow> safe (and_then r f)"
  by (cases r) (simp_all add: safe_def)

lemma safe_map_err [panic_free]: "safe r \<Longrightarrow> safe (map_err f r)"
  by (cases r) (simp_all add: safe_def)

lemma safe_if [panic_free]: "safe a \<Longrightarrow> safe b \<Longrightarrow> safe (if c then a else b)"
  by simp

lemma safe_case_option [panic_free]: "safe a \<Longrightarrow> (\<And>x. safe (f x)) \<Longrightarrow> safe (case opt of None \<Rightarrow> a | Some x \<Rightarrow> f x)"
  by (cases opt) simp_all

lemma safe_case_prod [panic_free]: "(\<And>x y. safe (f x y)) \<Longrightarrow> safe (case p of (x, y) \<Rightarrow> f x y)"
  by (cases p) simp

lemma safe_fold_result [panic_free]: "(\<And>x s. safe (f x s)) \<Longrightarrow> safe (fold_result f xs s)"
  by (induction xs arbitrary: s) (auto intro: panic_free)

lemma safe_try_map [panic_free]: "(\<And>x. safe (f x)) \<Longrightarrow> safe (try_map f xs)"
  by (induction xs) (auto intro: panic_free)

lemma io_tick_safe [panic_free]: "safe (io_tick r)"
  by (auto simp: io_tick_def safe_def split: list.splits option.splits)

lemma reads_safe [panic_free]: "safe (seek_start p r)" "safe (seek_end r)" "safe (read_exact_format n context r)"
  unfolding seek_start_def seek_end_def read_exact_format_def read_exact_def by (intro panic_free)+

lemma skip_loop_safe [panic_free]: "safe (skip_loop hasher remaining h r)"
proof (induction hasher remaining h r rule: skip_loop.induct)
  case (1 hasher remaining h r)
  show ?case
  proof (cases "read_exact_format (unat (min remaining CHECKSUM_BUFFER_BYTES)) ''section payload'' r")
    case (Ok x)
    then show ?thesis using 1 by (subst skip_loop.simps) (auto simp: Let_def split: prod.splits intro: panic_free)
  next
    case (Err e)
    then show ?thesis by (subst skip_loop.simps) (auto intro: panic_free)
  qed (use reads_safe(3) in \<open>simp add: safe_def\<close>)
qed

lemma fields_safe [panic_free]: "safe (read_u16 h n)" "safe (read_u32 h n)" "safe (read_u64 h n)"
  unfolding read_u16_def read_u32_def read_u64_def read_array_def by (intro panic_free)+

lemma metadata_safe [panic_free]: "safe (index_metadata_new a s c n seed t b r f)"
  unfolding index_metadata_new_def validate_metadata_def Let_def by (intro panic_free)

lemma layout_decode_header_safe [panic_free]: "safe (layout_decode_header crc header)"
  unfolding layout_decode_header_def Let_def by (intro panic_free)

lemma scan_section_safe [panic_free]: "safe (scan_section hasher len cursor r)"
  unfolding scan_section_def verify_skipped_payload_def Let_def by (intro panic_free)

lemma scan_sections_safe [panic_free]: "safe (scan_sections hasher len n cursor sections r)"
  by (induction n arbitrary: cursor sections r) (simp_all, (intro panic_free)+, assumption)

lemma layout_read_from_safe [panic_free]: "safe (layout_read_from crc hasher r)"
  unfolding layout_read_from_def Let_def by (intro panic_free)

lemma section_reads_safe [panic_free]: "safe (read_section_range layout d offset len r)" "safe (read_section crc layout d r)"
  unfolding read_section_def read_section_range_def Let_def by (intro panic_free)+

lemma bucket_fields_safe [panic_free]: "safe (read_u16_at h n)" "safe (read_u32_at h n)" "safe (read_u64_at h n)" "safe (bucket_read_u64 bs)"
  unfolding read_u16_at_def read_u32_at_def read_u64_at_def read_field_at_def bucket_read_u64_def by (intro panic_free)+

lemma decode_directory_entries_safe [panic_free]: "safe (decode_directory_entries d directory count start bands)"
  unfolding decode_directory_entries_def decode_entry_def advance_offset_def Let_def by (intro panic_free)

lemma decode_bucket_segment_safe [panic_free]: "safe (decode_bucket_segment crc layout d bands r)"
  unfolding decode_bucket_segment_def validate_header_fixed_fields_def Let_def by (intro panic_free)

lemma read_bucket_members_safe [panic_free]: "safe (read_bucket_members crc layout l r)"
  unfolding read_bucket_members_def Let_def by (intro panic_free)

lemma global_order_safe [panic_free]: "safe (validate_global_bucket_order ls)"
  unfolding validate_global_bucket_order_def by (intro panic_free)

lemma store_fields_safe [panic_free]: "safe (store_read_u64 bs)" "safe (read_count payload)" "safe (payload_bytes n w)"
  unfolding store_read_u64_def read_count_def payload_bytes_def by (intro panic_free)+

lemma decode_keys_safe [panic_free]: "safe (decode_keys payload)"
  unfolding decode_keys_def by (intro panic_free)

lemma decode_band_hashes_safe:
  assumes "0 < bands"
  shows "safe (decode_band_hashes payload bands)"
proof (cases "checked_mul_usize bands U64_BYTES")
  case None
  then show ?thesis unfolding decode_band_hashes_def by (simp, intro panic_free)
next
  case (Some row_bytes)
  then have "row_bytes \<noteq> 0" using assms by (auto simp: checked_mul_usize_def split: if_splits)
  then show ?thesis unfolding decode_band_hashes_def Some ok_or.simps and_then.simps if_not_P [OF \<open>row_bytes \<noteq> 0\<close>] by (intro panic_free)
qed

lemma collect_safe [panic_free]: "safe (collect_bucket_descriptors layout)"
  unfolding collect_bucket_descriptors_def
  by (intro panic_free) (auto simp: collect_bucket_descriptor_def split: section_kind.split intro!: panic_free)

lemma required_unique_section_safe [panic_free]: "safe (required_unique_section layout kind)"
  unfolding required_unique_section_def by (auto split: list.split intro!: panic_free)

lemma read_key_metadata_safe: "0 < bands \<Longrightarrow> safe (read_key_metadata crc layout bands r)"
  unfolding read_key_metadata_def insert_unique_def Let_def
  by (intro panic_free decode_band_hashes_safe)

lemma rebuild_safe [panic_free]: "safe (rebuild_overlay_all s)"
  unfolding rebuild_overlay_all_def by (intro panic_free) (auto split: prod.split intro!: panic_free)

lemma decode_all_segments_safe [panic_free]: "safe (decode_all_segments crc layout bands ds r)"
  unfolding decode_all_segments_def by (intro panic_free)

lemma validate_store_metadata_safe [panic_free]: "safe (validate_store_metadata md scheme)"
  unfolding validate_store_metadata_def by (intro panic_free)

lemma index_with_params_safe [panic_free]: "safe (index_with_params t n seed params)"
  unfolding index_with_params_def validate_threshold_def Pari_Params.validate_num_perm_def validate_params_def by (intro panic_free)

lemma validate_configuration_safe [panic_free]: "safe (validate_lsh_configuration scheme t n seed params)"
  unfolding validate_lsh_configuration_def by (cases scheme; simp only: signature_scheme.case; intro panic_free)

lemma index_with_params_valid: "index_with_params t n seed params = Ok index \<Longrightarrow> params_valid params n \<and> n < 4294967296 \<and> 0 < n"
proof -
  assume *: "index_with_params t n seed params = Ok index"
  then have n: "0 < n \<and> n < 4294967296" by (auto simp: index_with_params_def validate_cases(1,2) res_simps split: if_splits)
  then have "n < usize_limit" by simp
  then show ?thesis using * n by (auto simp: index_with_params_def validate_cases res_simps split: if_splits)
qed

lemma validate_configuration_Ok: "validate_lsh_configuration scheme t n seed params = Ok () \<Longrightarrow> params_valid params n \<and> n < 4294967296 \<and> 0 < n"
  by (cases scheme) (auto simp: validate_lsh_configuration_def res_simps dest: index_with_params_valid)

lemma store_open_file_safe: "safe (store_open_file crc hasher path scheme r)"
proof -
  have rest: "safe (and_then (read_key_metadata crc layout bands r) k)"
    if "validate_lsh_configuration scheme t n seed \<lparr>p_bands = bands, p_rows = rows\<rparr> = Ok ()" "\<And>x. safe (k x)"
    for layout t n seed bands rows r and k :: "_ \<Rightarrow> (store, store_error) result"
    using validate_configuration_Ok [OF that(1)] by (intro safe_and_then read_key_metadata_safe that(2)) (simp add: params_valid_def)
  have guard: "safe (and_then (validate_lsh_configuration scheme t n seed p) k)"
    if "validate_lsh_configuration scheme t n seed p = Ok () \<Longrightarrow> safe (k ())"
    for t n seed p and k :: "unit \<Rightarrow> (store, store_error) result"
    using that validate_configuration_safe [of scheme t n seed p] by (cases "validate_lsh_configuration scheme t n seed p") (auto simp: safe_def)
  have reading: "safe (and_then (map_err StoreLayout (layout_read_from crc hasher r)) k)" if "\<And>x. safe (k x)"
    for k :: "_ \<Rightarrow> (store, store_error) result"
    by (intro panic_free that)
  have accepted: "safe (and_then (validate_store_metadata md scheme) k)" if "\<And>x. safe (k x)" for md and k :: "_ \<Rightarrow> (store, store_error) result"
    by (intro panic_free that)
  show ?thesis
    unfolding store_open_file_def open_legacy_def Let_def
    by (intro reading safe_case_prod accepted guard rest, assumption) (intro panic_free)
qed

section \<open>Encoding a snapshot never panics\<close>

lemma encode_payloads_safe [panic_free]: "safe (encode_keys keys)" "safe (encode_band_hashes rows bands)" "safe (section_new kind required payload)"
  unfolding encode_keys_def encode_band_hashes_def section_new_def by (intro panic_free)+

lemma encode_bucket_segment_safe [panic_free]: "safe (encode_bucket_segment crc records)"
proof -
  have "safe (encode_record crc x state)" for x state
    unfolding encode_record_def advance_offset_def Let_def by (cases state) (simp, intro panic_free)
  moreover have "safe (add_members x total)" for x total unfolding add_members_def by (intro panic_free)
  ultimately show ?thesis unfolding encode_bucket_segment_def validate_record_order_def by (intro panic_free)
qed

lemma push_bucket_section_safe [panic_free]: "safe (push_bucket_section crc sections records)"
  unfolding push_bucket_section_def by (intro panic_free)

lemma append_bucket_sections_safe [panic_free]: "safe (append_bucket_sections crc key_hashes bands sections)"
proof -
  have "safe (materialize_key bands entry m)" for entry and m :: "(bucket_key, u64 list) btreemap"
    unfolding materialize_key_def by (cases entry) (simp, intro panic_free, auto split: prod.split intro!: panic_free)
  moreover have "safe (segment_step crc x state)" for x state
    unfolding segment_step_def bucket_record_size_def by (cases state) (simp, intro panic_free)
  ultimately show ?thesis unfolding append_bucket_sections_def materialize_sorted_buckets_def by (intro panic_free)
qed

lemma index_file_encode_safe [panic_free]: "safe (index_file_encode crc index)" "safe (index_file_new md sections)"
  unfolding index_file_encode_def encode_section_def index_file_new_def Let_def by (intro panic_free)+

lemma encode_snapshot_safe: "safe (encode_snapshot crc s)"
  unfolding encode_snapshot_def by (intro panic_free)

end
