(* ===== verification/Pari_Spill.thy ===== *)
theory Pari_Spill
  imports Pari_Faults "HOL-Library.Multiset"
begin

text \<open>
  Crate \<open>pari-store-build\<close>, the data of the external builder (\<open>crates/pari-store-build/src/lib.rs\<close>): its options,
  statistics and errors, the checks of the source snapshot, the records that are spilled to sorted runs
  with their encoding, and the merge of the runs into bucket descriptors and memberships. A buffered
  reader serves at most the rest of its buffer of 8 KiB per call, so that records are assembled from
  short reads; a buffered writer is a \<open>writer\<close> of \<open>Pari_Buckets\<close>.

  The lemmas show that records and descriptors survive their encoding, that the merge of sorted runs
  visits all their records in ascending order, and that it terminates.
\<close>

section \<open>Options, statistics and errors\<close>

abbreviation SPILL_RECORD_BYTES :: usize where "SPILL_RECORD_BYTES \<equiv> 20"
abbreviation DESCRIPTOR_BYTES :: usize where "DESCRIPTOR_BYTES \<equiv> 28"
abbreviation IO_BUFFER_BYTES :: usize where "IO_BUFFER_BYTES \<equiv> 8192"

record build_options =
  bo_max_buffer_records :: usize

definition build_options_default :: build_options where
  "build_options_default = \<lparr>bo_max_buffer_records = 262144\<rparr>"

record build_stats =
  bs_records :: u64
  bs_spill_runs :: usize
  bs_peak_buffered_records :: usize
  bs_buckets :: u64
  bs_output_bytes :: u64

datatype build_error =
    BuildIo io_error
  | BuildLayout layout_error
  | BuildFormat format_error
  | BuildBucket bucket_error
  | InvalidSource string
  | InvalidOptions string
  | BuildAlreadyExists path
  | BuildLengthOverflow

datatype spill_record = SpillRecord (sr_band: u32) (sr_hash: u64) (sr_key: u64)

datatype heap_entry = HeapEntry (he_record: spill_record) (he_run: usize)

text \<open>The derived orders compare the fields lexicographically.\<close>

instantiation spill_record :: linorder
begin

definition less_eq_spill_record :: "spill_record \<Rightarrow> spill_record \<Rightarrow> bool" where
  "less_eq_spill_record x y \<longleftrightarrow> sr_band x < sr_band y \<or> sr_band x = sr_band y
     \<and> (sr_hash x < sr_hash y \<or> sr_hash x = sr_hash y \<and> sr_key x \<le> sr_key y)"

definition less_spill_record :: "spill_record \<Rightarrow> spill_record \<Rightarrow> bool" where
  "less_spill_record x y \<longleftrightarrow> sr_band x < sr_band y \<or> sr_band x = sr_band y
     \<and> (sr_hash x < sr_hash y \<or> sr_hash x = sr_hash y \<and> sr_key x < sr_key y)"

instance
  by standard (auto simp: less_eq_spill_record_def less_spill_record_def intro: spill_record.expand)

end

instantiation heap_entry :: linorder
begin

definition less_eq_heap_entry :: "heap_entry \<Rightarrow> heap_entry \<Rightarrow> bool" where
  "less_eq_heap_entry x y \<longleftrightarrow> he_record x < he_record y \<or> he_record x = he_record y \<and> he_run x \<le> he_run y"

definition less_heap_entry :: "heap_entry \<Rightarrow> heap_entry \<Rightarrow> bool" where
  "less_heap_entry x y \<longleftrightarrow> he_record x < he_record y \<or> he_record x = he_record y \<and> he_run x < he_run y"

instance
  by standard (auto simp: less_eq_heap_entry_def less_heap_entry_def intro: heap_entry.expand)

end

record descriptor_draft =
  dd_key :: bucket_key
  dd_member_count :: u32
  dd_relative_offset :: u64
  dd_checksum :: u32

section \<open>Checks of the source\<close>

definition validate_source_metadata :: "index_metadata \<Rightarrow> (unit, build_error) result" where
  "validate_source_metadata metadata =
     and_then (err_if (md_algorithm metadata \<noteq> MinHashLsh) (InvalidSource ''algorithm is not MinHash LSH'')) (\<lambda>_.
     and_then (case md_signature_scheme metadata of PariAffine32V1 \<Rightarrow> Ok () | PariAffine64V1 \<Rightarrow> Ok ()) (\<lambda>_.
     and_then (err_if (md_key_codec metadata \<noteq> CodecU64) (InvalidSource ''bounded builder currently requires u64 keys'')) (\<lambda>_.
     err_if (md_feature_flags metadata \<noteq> 0) (InvalidSource ''bounded builder does not support feature flags''))))"

definition source_section :: "file_layout \<Rightarrow> section_kind \<Rightarrow> string \<Rightarrow> (section_descriptor, build_error) result" where
  "source_section layout kind missing_reason =
     (case filter (\<lambda>descriptor. sd_kind descriptor = kind) (fl_sections layout) of
        [] \<Rightarrow> Err (InvalidSource missing_reason)
      | descriptor # matches \<Rightarrow>
          and_then (err_if (matches \<noteq> []) (InvalidSource ''duplicate source metadata section'')) (\<lambda>_.
          and_then (err_if (\<not> sd_required descriptor) (InvalidSource ''source metadata section is marked optional'')) (\<lambda>_.
          Ok descriptor)))"

definition validate_source_lengths :: "section_descriptor \<Rightarrow> section_descriptor \<Rightarrow> usize \<Rightarrow> usize \<Rightarrow> (unit, build_error) result" where
  "validate_source_lengths keys hashes item_count bands =
     and_then (ok_or BuildLengthOverflow (checked_mul_usize item_count U64_BYTES)) (\<lambda>key_bytes.
     and_then (ok_or BuildLengthOverflow (checked_add_usize U64_BYTES key_bytes)) (\<lambda>keys_expected.
     and_then (ok_or BuildLengthOverflow (checked_mul_usize bands U64_BYTES)) (\<lambda>row_bytes.
     and_then (ok_or BuildLengthOverflow (checked_mul_usize item_count row_bytes)) (\<lambda>hash_bytes.
     and_then (ok_or BuildLengthOverflow (checked_add_usize U64_BYTES hash_bytes)) (\<lambda>hashes_expected.
     and_then (ok_or BuildLengthOverflow (u64_try_from keys_expected)) (\<lambda>keys_expected.
     and_then (err_if (sd_payload_length keys \<noteq> keys_expected) (InvalidSource ''keys section length disagrees with its record count'')) (\<lambda>_.
     and_then (ok_or BuildLengthOverflow (u64_try_from hashes_expected)) (\<lambda>hashes_expected.
     err_if (sd_payload_length hashes \<noteq> hashes_expected)
       (InvalidSource ''band-hash section length disagrees with its record count'')))))))))"

function verify_loop :: "'c crc_hasher \<Rightarrow> u64 \<Rightarrow> 'c \<Rightarrow> reader \<Rightarrow> ('c \<times> reader, build_error) result" where
  "verify_loop hasher remaining h source =
     (if remaining = 0 then Ok (h, source)
      else let chunk = unat (min remaining COPY_BUFFER_BYTES_U64) in
           and_then (map_err BuildIo (read_exact chunk source)) (\<lambda>(piece, source).
           verify_loop hasher (remaining - of_nat chunk) (hasher_update hasher piece h) source))"
  by pat_completeness auto

termination verify_loop
proof (relation "measure (\<lambda>(_, remaining, _, _). unat remaining)")
  fix hasher :: "'c crc_hasher" and remaining :: u64 and h source chunk x piece source'
  assume "remaining \<noteq> 0" and "chunk = unat (min remaining COPY_BUFFER_BYTES_U64)"
  then show "((hasher, remaining - of_nat chunk, hasher_update hasher piece h, source'), hasher, remaining, h, source)
      \<in> measure (\<lambda>(_, remaining, _, _). unat remaining)"
    using buffer_step [of remaining COPY_BUFFER_BYTES_U64] by simp
qed simp

declare verify_loop.simps [simp del]

definition verify_section_streaming :: "'c crc_hasher \<Rightarrow> section_descriptor \<Rightarrow> reader \<Rightarrow> (reader, build_error) result" where
  "verify_section_streaming hasher descriptor source =
     and_then (map_err BuildIo (seek_start (sd_payload_offset descriptor) source)) (\<lambda>source.
     and_then (verify_loop hasher (sd_payload_length descriptor) (hasher_new hasher) source) (\<lambda>(h, source).
     let actual = hasher_finalize hasher h in
     and_then (err_if (actual \<noteq> sd_checksum descriptor) (BuildFormat (SectionChecksumMismatch (sd_checksum descriptor) actual))) (\<lambda>_.
     Ok source)))"

definition read_record_count :: "section_descriptor \<Rightarrow> reader \<Rightarrow> (usize \<times> reader, build_error) result" where
  "read_record_count descriptor source =
     and_then (map_err BuildIo (seek_start (sd_payload_offset descriptor) source)) (\<lambda>source.
     and_then (map_err BuildIo (read_exact U64_BYTES source)) (\<lambda>(raw, source).
     Ok (unat (from_le_bytes raw :: u64), source)))"

section \<open>Reading an item\<close>

text \<open>The position of the field at \<open>index\<close> after the count, and the read at an absolute position.\<close>

definition field_position :: "section_descriptor \<Rightarrow> usize \<Rightarrow> usize \<Rightarrow> (u64, build_error) result" where
  "field_position descriptor width index =
     and_then (ok_or BuildLengthOverflow (Option.bind (checked_mul_usize index width) (\<lambda>value. checked_add_usize value U64_BYTES))) (\<lambda>offset.
     and_then (ok_or BuildLengthOverflow (u64_try_from offset)) (\<lambda>offset.
     ok_or BuildLengthOverflow (checked_add (sd_payload_offset descriptor) offset)))"

definition read_field :: "u64 \<Rightarrow> usize \<Rightarrow> reader \<Rightarrow> (bytes \<times> reader, build_error) result" where
  "read_field position width source =
     and_then (map_err BuildIo (seek_start position source)) (\<lambda>source. map_err BuildIo (read_exact width source))"

text \<open>The key of an item and the chunks of its row of band hashes.\<close>

definition read_item :: "section_descriptor \<Rightarrow> section_descriptor \<Rightarrow> usize \<Rightarrow> usize \<Rightarrow> reader \<Rightarrow> ((u64 \<times> bytes list) \<times> reader, build_error) result" where
  "read_item keys hashes row_bytes item source =
     and_then (field_position keys U64_BYTES item) (\<lambda>position.
     and_then (read_field position U64_BYTES source) (\<lambda>(key_raw, source).
     and_then (field_position hashes row_bytes item) (\<lambda>position.
     and_then (read_field position row_bytes source) (\<lambda>(hash_row, source).
     Ok ((from_le_bytes key_raw, chunks_exact U64_BYTES hash_row), source)))))"

definition spill_record_of :: "u64 \<Rightarrow> usize \<times> bytes \<Rightarrow> (spill_record, build_error) result" where
  "spill_record_of key entry =
     (let (band, chunk) = entry
      in and_then (if length chunk = U64_BYTES then Ok (from_le_bytes chunk) else Err (InvalidSource ''truncated fixed-width band hash'')) (\<lambda>hash.
         and_then (ok_or BuildLengthOverflow (u32_try_from band)) (\<lambda>band.
         Ok (SpillRecord band hash key))))"

section \<open>Buffered streams\<close>

text \<open>\<open>BufReader::read\<close> on a file that is read from its start: what is left in the buffer, at most \<open>n\<close> bytes.\<close>

definition buf_read :: "usize \<Rightarrow> reader \<Rightarrow> (bytes \<times> reader, io_error) result" where
  "buf_read n r = and_then (io_tick r) (\<lambda>r.
     let piece = take (min n (IO_BUFFER_BYTES - rd_pos r mod IO_BUFFER_BYTES)) (drop (rd_pos r) (rd_bytes r))
     in Ok (piece, r\<lparr>rd_pos := rd_pos r + length piece\<rparr>))"

text \<open>The loop that both record readers use: nothing at the end of the file, an error inside a record.\<close>

function read_record :: "usize \<Rightarrow> string \<Rightarrow> bytes \<Rightarrow> reader \<Rightarrow> (bytes option \<times> reader, build_error) result" where
  "read_record width truncated raw r =
     (if length raw < width
      then and_then (map_err BuildIo (buf_read (width - length raw) r)) (\<lambda>(piece, r).
           if piece = [] then if raw = [] then Ok (None, r) else Err (InvalidSource truncated)
           else read_record width truncated (raw @ piece) r)
      else Ok (Some raw, r))"
  by pat_completeness auto

termination read_record
  by (relation "measure (\<lambda>(width, _, raw, _). width - length raw)") (auto simp: diff_less_mono2)

declare read_record.simps [simp del]

definition write_spill_record :: "spill_record \<Rightarrow> writer \<Rightarrow> (writer, build_error) result" where
  "write_spill_record record w =
     and_then (map_err BuildIo (write_all (le32 (sr_band record)) w)) (\<lambda>w.
     and_then (map_err BuildIo (write_all (le64 (sr_hash record)) w)) (\<lambda>w.
     map_err BuildIo (write_all (le64 (sr_key record)) w)))"

definition read_spill_record :: "reader \<Rightarrow> (spill_record option \<times> reader, build_error) result" where
  "read_spill_record r =
     and_then (read_record SPILL_RECORD_BYTES ''truncated spill record'' [] r) (\<lambda>(raw, r).
     Ok (map_option (\<lambda>raw. SpillRecord (from_le_bytes (take 4 raw)) (from_le_bytes (take 8 (drop 4 raw)))
          (from_le_bytes (take 8 (drop 12 raw)))) raw, r))"

definition finish_descriptor :: "descriptor_draft \<Rightarrow> writer \<Rightarrow> (writer, build_error) result" where
  "finish_descriptor draft w =
     and_then (map_err BuildIo (write_all (le32 (bk_band (dd_key draft))) w)) (\<lambda>w.
     and_then (map_err BuildIo (write_all (le32 (dd_member_count draft)) w)) (\<lambda>w.
     and_then (map_err BuildIo (write_all (le64 (bk_hash (dd_key draft))) w)) (\<lambda>w.
     and_then (map_err BuildIo (write_all (le64 (dd_relative_offset draft)) w)) (\<lambda>w.
     map_err BuildIo (write_all (le32 (dd_checksum draft)) w)))))"

definition read_descriptor_optional :: "reader \<Rightarrow> (descriptor_draft option \<times> reader, build_error) result" where
  "read_descriptor_optional r =
     and_then (read_record DESCRIPTOR_BYTES ''truncated temporary descriptor'' [] r) (\<lambda>(raw, r).
     Ok (map_option (\<lambda>raw. \<lparr>dd_key = BucketKey (from_le_bytes (take 4 raw)) (from_le_bytes (take 8 (drop 8 raw))),
          dd_member_count = from_le_bytes (take 4 (drop 4 raw)), dd_relative_offset = from_le_bytes (take 8 (drop 16 raw)),
          dd_checksum = from_le_bytes (take 4 (drop 24 raw))\<rparr>) raw, r))"

section \<open>Records survive their encoding\<close>

definition rest_of :: "reader \<Rightarrow> bytes" where
  "rest_of r = drop (rd_pos r) (rd_bytes r)"

lemma rest_of_same: "rest_of (r\<lparr>rd_pos := rd_pos r + n\<rparr>) = drop n (rest_of r)"
  by (simp add: rest_of_def add.commute)

lemma buf_read_Ok:
  assumes "buf_read n r = Ok (piece, r')"
  shows "rest_of r = piece @ rest_of r'" "length piece \<le> n" "piece = [] \<Longrightarrow> 0 < n \<Longrightarrow> rest_of r = []"
    "rd_faults r = [] \<Longrightarrow> rd_faults r' = []"
proof -
  let ?k = "min n (IO_BUFFER_BYTES - rd_pos r mod IO_BUFFER_BYTES)"
  obtain r1 where r1: "io_tick r = Ok r1" "piece = take (min n (IO_BUFFER_BYTES - rd_pos r1 mod IO_BUFFER_BYTES)) (drop (rd_pos r1) (rd_bytes r1))"
    "r' = r1\<lparr>rd_pos := rd_pos r1 + length piece\<rparr>"
    using assms by (auto simp: buf_read_def res_simps Let_def)
  have same: "rd_bytes r1 = rd_bytes r" "rd_pos r1 = rd_pos r" "rd_faults r = [] \<Longrightarrow> rd_faults r1 = []"
    using io_tick_Ok [OF r1(1)] by (auto simp: same_file_def)
  then have piece: "piece = take ?k (rest_of r)" using r1(2) by (simp add: rest_of_def)
  moreover have "rest_of r' = drop (length piece) (rest_of r)" using r1(3) same by (simp add: rest_of_def add.commute)
  ultimately show "rest_of r = piece @ rest_of r'" by (simp add: min_def)
  show "length piece \<le> n" by (simp add: piece)
  show "rest_of r = []" if "piece = []" "0 < n"
  proof -
    have "0 < ?k" using that(2) by simp
    then show ?thesis using that(1) piece by (metis less_nat_zero_code take_eq_Nil)
  qed
  show "rd_faults r = [] \<Longrightarrow> rd_faults r' = []" using r1(3) same(3) by simp
qed

lemma buf_read_healthy:
  assumes "rd_faults r = []" shows "\<exists>piece r'. buf_read n r = Ok (piece, r')"
  using assms by (simp add: buf_read_def io_tick_healthy)

lemma read_record_Ok:
  assumes "read_record width truncated raw r = Ok (res, r')" and "length raw \<le> width"
  shows "(case res of None \<Rightarrow> raw = [] \<and> rest_of r = [] \<and> rest_of r' = []
          | Some bs \<Rightarrow> length bs = width \<and> raw @ rest_of r = bs @ rest_of r')
    \<and> (rd_faults r = [] \<longrightarrow> rd_faults r' = [])"
  using assms
proof (induction width truncated raw r rule: read_record.induct)
  case (1 width truncated raw r)
  show ?case
  proof (cases "length raw < width")
    case True
    then obtain piece r1 where step: "buf_read (width - length raw) r = Ok (piece, r1)"
      and res: "(if piece = [] then if raw = [] then Ok (None, r1) else Err (InvalidSource truncated)
           else read_record width truncated (raw @ piece) r1) = Ok (res, r')"
      using "1.prems"(1) by (subst (asm) read_record.simps) (auto simp: res_simps)
    note b = buf_read_Ok [OF step]
    show ?thesis
    proof (cases "piece = []")
      case True
      then show ?thesis using res b \<open>length raw < width\<close> by (auto split: if_splits)
    next
      case False
      have "map_err BuildIo (buf_read (width - length raw) r) = Ok (piece, r1)" using step by simp
      from "1.IH" [OF True this refl False] show ?thesis using res False b True by (fastforce split: option.splits)
    qed
  next
    case False
    then show ?thesis using "1.prems" by (subst (asm) read_record.simps) (auto simp: res_simps)
  qed
qed

lemma read_record_healthy:
  assumes "rd_faults r = []" and "width \<le> length raw + length (rest_of r) \<or> raw = [] \<and> rest_of r = []" and "length raw \<le> width" and "0 < width"
  shows "\<exists>res r'. read_record width truncated raw r = Ok (res, r')"
  using assms
proof (induction width truncated raw r rule: read_record.induct)
  case (1 width truncated raw r)
  show ?case
  proof (cases "length raw < width")
    case True
    obtain piece r1 where step: "buf_read (width - length raw) r = Ok (piece, r1)" using buf_read_healthy [OF "1.prems"(1)] by blast
    note b = buf_read_Ok [OF step]
    show ?thesis
    proof (cases "piece = []")
      case True
      then have "raw = []" using b(3) "1.prems"(2) \<open>length raw < width\<close> by auto
      then show ?thesis using True step "1.prems"(4) by (subst read_record.simps) simp
    next
      case False
      have m: "map_err BuildIo (buf_read (width - length raw) r) = Ok (piece, r1)" using step by simp
      have "\<exists>res r'. read_record width truncated (raw @ piece) r1 = Ok (res, r')"
        using "1.IH" [OF True m refl False] b "1.prems" False True by auto
      then show ?thesis using False True step by (subst read_record.simps) simp
    qed
  next
    case False
    then show ?thesis by (subst read_record.simps) simp
  qed
qed

definition spill_bytes :: "spill_record \<Rightarrow> bytes" where
  "spill_bytes x = le32 (sr_band x) @ le64 (sr_hash x) @ le64 (sr_key x)"

definition draft_bytes :: "descriptor_draft \<Rightarrow> bytes" where
  "draft_bytes x = le32 (bk_band (dd_key x)) @ le32 (dd_member_count x) @ le64 (bk_hash (dd_key x)) @ le64 (dd_relative_offset x) @ le32 (dd_checksum x)"

lemma length_record_bytes [simp]: "length (spill_bytes x) = 20" "length (draft_bytes y) = 28"
  by (simp_all add: spill_bytes_def draft_bytes_def)

lemma write_all_Ok: "write_all bs w = Ok w' \<Longrightarrow> wr_bytes w' = wr_bytes w @ bs \<and> (wr_faults w = [] \<longrightarrow> wr_faults w' = [])"
  by (auto simp: write_all_def split: list.splits option.splits)

lemma write_all_healthy: "wr_faults w = [] \<Longrightarrow> write_all bs w = Ok (w\<lparr>wr_bytes := wr_bytes w @ bs\<rparr>)"
  by (simp add: write_all_def)

lemma write_spill_record_Ok:
  "write_spill_record x w = Ok w' \<Longrightarrow> wr_bytes w' = wr_bytes w @ spill_bytes x"
  by (auto simp: write_spill_record_def res_simps spill_bytes_def dest!: write_all_Ok)

lemma finish_descriptor_Ok:
  "finish_descriptor x w = Ok w' \<Longrightarrow> wr_bytes w' = wr_bytes w @ draft_bytes x"
  by (auto simp: finish_descriptor_def res_simps draft_bytes_def dest!: write_all_Ok)

lemma write_spill_records_Ok:
  "fold_result write_spill_record xs w = Ok w' \<Longrightarrow> wr_bytes w' = wr_bytes w @ concat (map spill_bytes xs)"
  by (induction xs arbitrary: w) (auto simp: res_simps dest!: write_spill_record_Ok)

text \<open>A reader over a sequence of encoded records, and what it returns.\<close>

definition streams :: "('a \<Rightarrow> bytes) \<Rightarrow> reader \<Rightarrow> 'a list \<Rightarrow> bool" where
  "streams enc r xs \<longleftrightarrow> rest_of r = concat (map enc xs)"

lemma streams_Nil: "streams enc r [] \<longleftrightarrow> rest_of r = []"
  by (simp add: streams_def)

lemma read_stream:
  assumes read: "read_record width truncated [] r = Ok (res, r')" and s: "streams enc r xs" and width: "\<And>x. length (enc x) = width" "0 < width"
  shows "(case xs of [] \<Rightarrow> res = None \<and> streams enc r' [] | x # ys \<Rightarrow> res = Some (enc x) \<and> streams enc r' ys)"
proof -
  note r = read_record_Ok [OF read, simplified]
  show ?thesis
  proof (cases xs)
    case Nil
    then show ?thesis using r s width(2) by (auto simp: streams_def split: option.splits)
  next
    case (Cons x ys)
    then have s: "rest_of r = enc x @ concat (map enc ys)" using s by (simp add: streams_def)
    then have "rest_of r \<noteq> []" using width(1) [of x] width(2) by auto
    then obtain bs where bs: "res = Some bs" "length bs = width" "rest_of r = bs @ rest_of r'" using r by (auto split: option.splits)
    then show ?thesis using s width(1) [of x] Cons by (simp add: streams_def)
  qed
qed

lemma read_spill_record_Ok:
  assumes "read_spill_record r = Ok (res, r')" and "streams spill_bytes r xs"
  shows "(case xs of [] \<Rightarrow> res = None \<and> streams spill_bytes r' [] | x # ys \<Rightarrow> res = Some x \<and> streams spill_bytes r' ys)"
proof -
  obtain raw where raw: "read_record 20 ''truncated spill record'' [] r = Ok (raw, r')"
    "res = map_option (\<lambda>raw. SpillRecord (from_le_bytes (take 4 raw)) (from_le_bytes (take 8 (drop 4 raw)))
          (from_le_bytes (take 8 (drop 12 raw)))) raw"
    using assms(1) by (auto simp: read_spill_record_def res_simps)
  show ?thesis using read_stream [OF raw(1) assms(2)] raw(2) by (auto simp: spill_bytes_def split: list.splits)
qed

lemma read_descriptor_Ok:
  assumes "read_descriptor_optional r = Ok (res, r')" and "streams draft_bytes r xs"
  shows "(case xs of [] \<Rightarrow> res = None \<and> streams draft_bytes r' [] | x # ys \<Rightarrow> res = Some x \<and> streams draft_bytes r' ys)"
proof -
  obtain raw where raw: "read_record 28 ''truncated temporary descriptor'' [] r = Ok (raw, r')"
    "res = map_option (\<lambda>raw. \<lparr>dd_key = BucketKey (from_le_bytes (take 4 raw)) (from_le_bytes (take 8 (drop 8 raw))),
          dd_member_count = from_le_bytes (take 4 (drop 4 raw)), dd_relative_offset = from_le_bytes (take 8 (drop 16 raw)),
          dd_checksum = from_le_bytes (take 4 (drop 24 raw))\<rparr>) raw"
    using assms(1) by (auto simp: read_descriptor_optional_def res_simps)
  show ?thesis using read_stream [OF raw(1) assms(2)] raw(2) by (auto simp: draft_bytes_def split: list.splits)
qed

section \<open>Merging runs\<close>

record 'c merge_state =
  mg_descriptors :: writer
  mg_memberships :: writer
  mg_key :: "bucket_key option"
  mg_count :: u32
  mg_offset :: u64
  mg_hasher :: 'c
  mg_buckets :: u64

text \<open>The descriptor of the current bucket is written when the next bucket starts and at the end.\<close>

definition emit_descriptor :: "'c crc_hasher \<Rightarrow> bucket_key \<Rightarrow> 'c merge_state \<Rightarrow> ('c merge_state, build_error) result" where
  "emit_descriptor hasher key ms =
     and_then (finish_descriptor \<lparr>dd_key = key, dd_member_count = mg_count ms, dd_relative_offset = mg_offset ms,
       dd_checksum = hasher_finalize hasher (mg_hasher ms)\<rparr> (mg_descriptors ms)) (\<lambda>w.
     and_then (ok_or BuildLengthOverflow (checked_add (mg_buckets ms) 1)) (\<lambda>bucket_count.
     Ok (ms\<lparr>mg_descriptors := w, mg_buckets := bucket_count\<rparr>)))"

definition enter_group :: "'c crc_hasher \<Rightarrow> bucket_key \<Rightarrow> 'c merge_state \<Rightarrow> ('c merge_state, build_error) result" where
  "enter_group hasher bucket ms =
     (if mg_key ms \<noteq> Some bucket
      then and_then
        (case mg_key ms of
           None \<Rightarrow> Ok ms
         | Some key \<Rightarrow>
             and_then (emit_descriptor hasher key ms) (\<lambda>ms.
             and_then (ok_or BuildLengthOverflow (checked_mul (ucast (mg_count ms)) U64_BYTES_U64)) (\<lambda>bytes.
             and_then (ok_or BuildLengthOverflow (checked_add (mg_offset ms) bytes)) (\<lambda>offset.
             Ok (ms\<lparr>mg_offset := offset\<rparr>))))) (\<lambda>ms.
        Ok (ms\<lparr>mg_key := Some bucket, mg_count := 0, mg_hasher := hasher_new hasher\<rparr>))
      else Ok ms)"

definition merge_member :: "'c crc_hasher \<Rightarrow> spill_record \<Rightarrow> 'c merge_state \<Rightarrow> ('c merge_state, build_error) result" where
  "merge_member hasher record ms =
     and_then (enter_group hasher (BucketKey (sr_band record) (sr_hash record)) ms) (\<lambda>ms.
     let key_bytes = le64 (sr_key record) in
     and_then (map_err BuildIo (write_all key_bytes (mg_memberships ms))) (\<lambda>w.
     and_then (ok_or BuildLengthOverflow (checked_add (mg_count ms) 1)) (\<lambda>count.
     Ok (ms\<lparr>mg_memberships := w, mg_hasher := hasher_update hasher key_bytes (mg_hasher ms), mg_count := count\<rparr>))))"

text \<open>The heap of reversed entries is a priority queue with the least entry first.\<close>

definition heap_push :: "spill_record option \<Rightarrow> usize \<Rightarrow> heap_entry list \<Rightarrow> heap_entry list" where
  "heap_push next_record run heap = (case next_record of None \<Rightarrow> heap | Some x \<Rightarrow> insort (HeapEntry x run) heap)"

definition prime_heap :: "reader list \<Rightarrow> (reader list \<times> heap_entry list, build_error) result" where
  "prime_heap readers =
     fold_result (\<lambda>reader (primed, heap).
         and_then (read_spill_record reader) (\<lambda>(next_record, reader).
         Ok (primed @ [reader], heap_push next_record (length primed) heap)))
       readers ([], [])"

function merge_loop :: "'c crc_hasher \<Rightarrow> reader list \<Rightarrow> heap_entry list \<Rightarrow> 'c merge_state \<Rightarrow> ('c merge_state, build_error) result" where
  "merge_loop hasher readers [] ms = Ok ms"
| "merge_loop hasher readers (entry # heap) ms =
     and_then (merge_member hasher (he_record entry) ms) (\<lambda>ms.
     if length readers \<le> he_run entry then Panic
     else and_then (read_spill_record (readers ! he_run entry)) (\<lambda>(next_record, reader).
          merge_loop hasher (readers[he_run entry := reader]) (heap_push next_record (he_run entry) heap) ms))"
  by pat_completeness auto

lemma read_spill_record_consumes:
  "read_spill_record r = Ok (res, r') \<Longrightarrow> length (rest_of r') + (case res of None \<Rightarrow> 0 | Some x \<Rightarrow> 20) \<le> length (rest_of r)"
proof -
  assume "read_spill_record r = Ok (res, r')"
  then obtain raw where raw: "read_record 20 ''truncated spill record'' [] r = Ok (raw, r')" "res = None \<longleftrightarrow> raw = None"
    by (auto simp: read_spill_record_def res_simps)
  from read_record_Ok [OF raw(1)] raw(2) show ?thesis by (auto split: option.splits)
qed

lemma sum_list_update_le:
  fixes f :: "'a \<Rightarrow> nat"
  shows "i < length xs \<Longrightarrow> f y + c \<le> f (xs ! i) \<Longrightarrow> sum_list (map f (xs[i := y])) + c \<le> sum_list (map f xs)"
proof (induction xs arbitrary: i)
  case (Cons x xs)
  show ?case
  proof (cases i)
    case (Suc j)
    with Cons.prems have "sum_list (map f (xs[j := y])) + c \<le> sum_list (map f xs)" by (intro Cons.IH) simp_all
    then show ?thesis by (simp add: Suc)
  qed (use Cons.prems in simp)
qed simp

termination merge_loop
proof (relation "measure (\<lambda>(_, readers, heap, _). sum_list (map (length \<circ> rest_of) readers) + length heap)")
  fix hasher :: "'c crc_hasher" and readers entry heap ms ms' x next_record reader
  assume "\<not> length readers \<le> he_run entry" and "read_spill_record (readers ! he_run entry) = Ok x" and "(next_record, reader) = x"
  then have "sum_list (map (length \<circ> rest_of) (readers[he_run entry := reader])) + (case next_record of None \<Rightarrow> 0 | Some x \<Rightarrow> 20)
      \<le> sum_list (map (length \<circ> rest_of) readers)"
    using read_spill_record_consumes [of "readers ! he_run entry" next_record reader] by (intro sum_list_update_le) auto
  then show "((hasher, readers[he_run entry := reader], heap_push next_record (he_run entry) heap, ms'), hasher, readers, entry # heap, ms)
      \<in> measure (\<lambda>(_, readers, heap, _). sum_list (map (length \<circ> rest_of) readers) + length heap)"
    by (auto simp: heap_push_def split: option.splits)
qed simp

declare merge_loop.simps(2) [simp del]

text \<open>The end of \<open>merge_runs\<close>.\<close>

definition finish_merge :: "'c crc_hasher \<Rightarrow> 'c merge_state \<Rightarrow> ('c merge_state, build_error) result" where
  "finish_merge hasher ms = (case mg_key ms of None \<Rightarrow> Ok ms | Some key \<Rightarrow> emit_descriptor hasher key ms)"

definition merge_start :: "'c crc_hasher \<Rightarrow> writer \<Rightarrow> writer \<Rightarrow> 'c merge_state" where
  "merge_start hasher descriptor_writer membership_writer =
     \<lparr>mg_descriptors = descriptor_writer, mg_memberships = membership_writer, mg_key = None, mg_count = 0, mg_offset = 0,
      mg_hasher = hasher_new hasher, mg_buckets = 0\<rparr>"

section \<open>The merge visits all records in order\<close>

text \<open>Every run that is not exhausted is represented in the heap by a record before its rest.\<close>

definition heap_covers :: "heap_entry list \<Rightarrow> spill_record list list \<Rightarrow> bool" where
  "heap_covers heap runs \<longleftrightarrow> sorted heap \<and> (\<forall>run < length runs. sorted (runs ! run) \<and> (runs ! run \<noteq> [] \<longrightarrow> (\<exists>x. HeapEntry x run \<in> set heap)))
     \<and> (\<forall>entry \<in> set heap. he_run entry < length runs \<and> (\<forall>y \<in> set (runs ! he_run entry). he_record entry \<le> y))"

definition remaining_records :: "heap_entry list \<Rightarrow> spill_record list list \<Rightarrow> spill_record multiset" where
  "remaining_records heap runs = mset (map he_record heap) + mset (concat runs)"

lemma he_record_mono: "(x :: heap_entry) \<le> y \<Longrightarrow> he_record x \<le> he_record y"
  by (auto simp: less_eq_heap_entry_def)

lemma heap_covers_run:
  assumes "heap_covers heap runs" and "run < length runs" and "runs ! run \<noteq> []"
  shows "\<exists>x. HeapEntry x run \<in> set heap"
  using assms unfolding heap_covers_def by blast

lemma heap_covers_entry:
  assumes "heap_covers heap runs" and "HeapEntry x run \<in> set heap"
  shows "run < length runs" "y \<in> set (runs ! run) \<Longrightarrow> x \<le> y"
  using assms unfolding heap_covers_def by fastforce+

lemma heap_least:
  assumes "heap_covers (entry # heap) runs" and "y \<in># remaining_records heap runs"
  shows "he_record entry \<le> y"
proof -
  have head: "he_record entry \<le> he_record e" if "e \<in> set (entry # heap)" for e
    using assms(1) that by (auto simp: heap_covers_def intro: he_record_mono)
  consider (heap) e where "e \<in> set heap" "y = he_record e" | (run) run where "run < length runs" "y \<in> set (runs ! run)"
    using assms(2) by (auto simp: remaining_records_def) (metis in_set_conv_nth)
  then show ?thesis
  proof cases
    case heap
    then show ?thesis using head by simp
  next
    case run
    then have "runs ! run \<noteq> []" by auto
    then obtain x where x: "HeapEntry x run \<in> set (entry # heap)" using heap_covers_run [OF assms(1) run(1)] by blast
    then have "x \<le> y" using heap_covers_entry(2) [OF assms(1)] run by blast
    then show ?thesis using head [OF x] by simp
  qed
qed

lemma mset_insort [simp]: "mset (insort x xs) = add_mset x (mset xs)"
  by (induction xs) auto

lemma mset_concat_update:
  "i < length xss \<Longrightarrow> mset (concat (xss[i := ys])) + mset (xss ! i) = mset (concat xss) + mset ys"
  by (induction xss arbitrary: i) (auto simp: ac_simps split: nat.splits)

lemma heap_advance:
  assumes cover: "heap_covers (entry # heap) runs" and run: "he_run entry < length runs"
    and read: "case runs ! he_run entry of [] \<Rightarrow> next_record = None \<and> rest = [] | x # ys \<Rightarrow> next_record = Some x \<and> rest = ys"
  shows "heap_covers (heap_push next_record (he_run entry) heap) (runs[he_run entry := rest])"
    "remaining_records (heap_push next_record (he_run entry) heap) (runs[he_run entry := rest]) = remaining_records heap runs"
proof -
  let ?i = "he_run entry"
  have runs: "runs ! ?i = (case next_record of None \<Rightarrow> [] | Some x \<Rightarrow> x # rest)" "next_record = None \<Longrightarrow> rest = []"
    using read by (auto split: list.splits)
  have srt: "sorted (runs ! ?i)" "sorted heap" using cover run by (auto simp: heap_covers_def)
  have set: "set (heap_push next_record ?i heap) = (case next_record of None \<Rightarrow> set heap | Some x \<Rightarrow> insert (HeapEntry x ?i) (set heap))"
    by (auto simp: heap_push_def set_insort_key split: option.splits)
  have sub: "set rest \<subseteq> set (runs ! ?i)" using runs by (auto split: option.splits)
  have old: "he_run e < length runs \<and> (\<forall>y \<in> set (runs[?i := rest] ! he_run e). he_record e \<le> y)" if "e \<in> set heap" for e
    using cover that sub run by (cases "he_run e = ?i") (auto simp: heap_covers_def)
  have new: "\<forall>y \<in> set rest. x \<le> y" if "next_record = Some x" for x using srt(1) runs(1) that by simp
  have rest: "sorted rest" using srt(1) runs by (cases next_record) auto
  have present: "\<exists>x. HeapEntry x j \<in> set (heap_push next_record ?i heap)" if "j < length runs" "runs[?i := rest] ! j \<noteq> []" for j
  proof (cases "j = ?i")
    case True
    then have "next_record \<noteq> None" using that runs(2) run by auto
    then show ?thesis using True by (auto simp: set)
  next
    case False
    then have "runs ! j \<noteq> []" using that(2) by simp
    then obtain x where "HeapEntry x j \<in> set (entry # heap)" using heap_covers_run [OF cover \<open>j < length runs\<close>] by blast
    then have "HeapEntry x j \<in> set heap" using False by auto
    then show ?thesis by (auto simp: set split: option.splits)
  qed
  have "sorted (runs[?i := rest] ! j)" if "j < length runs" for j
    using cover rest that by (cases "j = ?i") (auto simp: heap_covers_def)
  moreover have "sorted (heap_push next_record ?i heap)" using srt(2) by (auto simp: heap_push_def sorted_insort split: option.splits)
  ultimately show "heap_covers (heap_push next_record ?i heap) (runs[?i := rest])"
    unfolding heap_covers_def
  proof (intro conjI allI impI ballI)
    fix e
    assume "e \<in> set (heap_push next_record ?i heap)"
    then consider "e \<in> set heap" | x where "next_record = Some x" "e = HeapEntry x ?i" by (auto simp: set split: option.splits)
    then have "he_run e < length runs \<and> (\<forall>y \<in> set (runs[?i := rest] ! he_run e). he_record e \<le> y)"
      by cases (use old new run in auto)
    then show "he_run e < length (runs[?i := rest])" "\<And>y. y \<in> set (runs[?i := rest] ! he_run e) \<Longrightarrow> he_record e \<le> y" by auto
  qed (use present in simp_all)
  have "mset (concat (runs[?i := rest])) + mset (runs ! ?i) = mset (concat runs) + mset rest" by (rule mset_concat_update [OF run])
  then show "remaining_records (heap_push next_record ?i heap) (runs[?i := rest]) = remaining_records heap runs"
    using runs by (cases next_record) (auto simp: remaining_records_def heap_push_def)
qed

lemma merge_loop_Ok:
  assumes "merge_loop hasher readers heap ms = Ok ms'" and "list_all2 (streams spill_bytes) readers runs" and "heap_covers heap runs"
  shows "\<exists>out. sorted out \<and> mset out = remaining_records heap runs \<and> fold_result (merge_member hasher) out ms = Ok ms'"
  using assms
proof (induction hasher readers heap ms arbitrary: runs rule: merge_loop.induct)
  case (1 hasher readers ms)
  have "runs ! run = []" if "run < length runs" for run using "1.prems"(3) that by (auto simp: heap_covers_def)
  then have "concat runs = []" by (auto simp: in_set_conv_nth)
  then show ?case using "1.prems"(1) by (intro exI [of _ "[]"]) (simp add: remaining_records_def)
next
  case (2 hasher readers entry heap ms)
  let ?i = "he_run entry"
  have len: "length readers = length runs" using "2.prems"(2) by (rule list_all2_lengthD)
  have run: "?i < length runs" using "2.prems"(3) by (simp add: heap_covers_def)
  from "2.prems"(1) len run obtain ms1 next_record reader where step: "merge_member hasher (he_record entry) ms = Ok ms1"
    "read_spill_record (readers ! ?i) = Ok (next_record, reader)"
    and loop: "merge_loop hasher (readers[?i := reader]) (heap_push next_record ?i heap) ms1 = Ok ms'"
    by (auto simp: merge_loop.simps(2) res_simps split: if_splits)
  have "streams spill_bytes (readers ! ?i) (runs ! ?i)" using "2.prems"(2) run len by (simp add: list_all2_conv_all_nth)
  note read = read_spill_record_Ok [OF step(2) this]
  obtain rest where rest: "streams spill_bytes reader rest"
    "case runs ! ?i of [] \<Rightarrow> next_record = None \<and> rest = [] | x # ys \<Rightarrow> next_record = Some x \<and> rest = ys"
    using read by (cases "runs ! ?i") auto
  note adv = heap_advance [OF "2.prems"(3) run rest(2)]
  have "list_all2 (streams spill_bytes) (readers[?i := reader]) (runs[?i := rest])" using "2.prems"(2) rest(1) by (rule list_all2_update_cong)
  from "2.IH" [OF step(1) _ step(2) refl loop this adv(1)] len run
  obtain out where out: "sorted out" "mset out = remaining_records heap runs" "fold_result (merge_member hasher) out ms1 = Ok ms'"
    by (auto simp: adv(2))
  have "\<forall>y \<in> set out. he_record entry \<le> y"
    using heap_least [OF "2.prems"(3)] out(2) by (metis set_mset_mset)
  then show ?case using out step(1) by (intro exI [of _ "he_record entry # out"]) (auto simp: remaining_records_def)
qed

lemma prime_heap_Ok:
  assumes "prime_heap readers = Ok (readers', heap)" and "list_all2 (streams spill_bytes) readers runs" and "\<forall>run \<in> set runs. sorted run"
  shows "\<exists>rests. list_all2 (streams spill_bytes) readers' rests \<and> heap_covers heap rests \<and> remaining_records heap rests = mset (concat runs)"
proof -
  let ?f = "\<lambda>reader (primed, heap). and_then (read_spill_record reader) (\<lambda>(next_record, reader).
         Ok (primed @ [reader], heap_push next_record (length primed) heap))"
  have "\<exists>rests. list_all2 (streams spill_bytes) readers' rests \<and> heap_covers heap rests \<and> remaining_records heap rests = mset (concat seen) + mset (concat runs)"
    if "fold_result ?f readers (primed, h) = Ok (readers', heap)" "list_all2 (streams spill_bytes) readers runs" "\<forall>run \<in> set runs. sorted run"
      "list_all2 (streams spill_bytes) primed rests" "heap_covers h rests" "remaining_records h rests = mset (concat seen)"
    for primed h rests seen
    using that
  proof (induction readers arbitrary: runs primed h rests seen)
    case (Cons r rs)
    obtain run runs' where runs: "runs = run # runs'" "streams spill_bytes r run" "list_all2 (streams spill_bytes) rs runs'"
      using Cons.prems(2) by (auto simp: list_all2_Cons1)
    obtain next_record r' where read: "read_spill_record r = Ok (next_record, r')"
      and loop: "fold_result ?f rs (primed @ [r'], heap_push next_record (length primed) h) = Ok (readers', heap)"
      using Cons.prems(1) by (auto simp: res_simps)
    have len: "length primed = length rests" using Cons.prems(4) by (rule list_all2_lengthD)
    obtain rest where rest: "streams spill_bytes r' rest" "run = (case next_record of None \<Rightarrow> [] | Some x \<Rightarrow> x # rest)" "next_record = None \<Longrightarrow> rest = []"
      using read_spill_record_Ok [OF read runs(2)] by (cases run) auto
    have srt: "sorted run" using Cons.prems(3) runs(1) by simp
    have cover: "heap_covers (heap_push next_record (length primed) h) (rests @ [rest])"
    proof (cases next_record)
      case None
      then show ?thesis using Cons.prems(5) rest(3) by (auto simp: heap_covers_def heap_push_def nth_append less_Suc_eq)
    next
      case (Some x)
      then show ?thesis
        using Cons.prems(5) rest(2) srt len
        by (auto simp: heap_covers_def heap_push_def nth_append less_Suc_eq set_insort_key sorted_insort)
    qed
    have "remaining_records (heap_push next_record (length primed) h) (rests @ [rest]) = mset (concat (seen @ [run]))"
      using Cons.prems(6) rest(2,3) by (cases next_record) (auto simp: remaining_records_def heap_push_def)
    moreover have "list_all2 (streams spill_bytes) (primed @ [r']) (rests @ [rest])" using Cons.prems(4) rest(1) by (simp add: list_all2_appendI)
    ultimately obtain rests' where "list_all2 (streams spill_bytes) readers' rests'" "heap_covers heap rests'"
      "remaining_records heap rests' = mset (concat (seen @ [run])) + mset (concat runs')"
      using Cons.IH [OF loop runs(3) _ _ cover, where seen = "seen @ [run]"] Cons.prems(3) runs(1) by auto
    then show ?case by (auto simp: runs(1))
  qed auto
  from this [of "[]" "[]" "[]" "[]"] show ?thesis
    using assms by (auto simp: prime_heap_def heap_covers_def remaining_records_def)
qed

lemma merge_sorted:
  assumes "prime_heap readers = Ok (readers', heap)" and "merge_loop hasher readers' heap ms = Ok ms'"
    and "list_all2 (streams spill_bytes) readers runs" and "\<forall>run \<in> set runs. sorted run"
  shows "fold_result (merge_member hasher) (sort (concat runs)) ms = Ok ms'"
proof -
  obtain rests where rests: "list_all2 (streams spill_bytes) readers' rests" "heap_covers heap rests" "remaining_records heap rests = mset (concat runs)"
    using prime_heap_Ok [OF assms(1,3,4)] by blast
  obtain out where "sorted out" "mset out = mset (concat runs)" "fold_result (merge_member hasher) out ms = Ok ms'"
    using merge_loop_Ok [OF assms(2) rests(1,2)] rests(3) by auto
  then show ?thesis using properties_for_sort by metis
qed

section \<open>The records of a source\<close>

definition item_records :: "u64 \<times> u64 list \<Rightarrow> spill_record list" where
  "item_records item = map (\<lambda>(band, hash). SpillRecord (of_nat band) hash (fst item)) (List.enumerate 0 (snd item))"

definition bucket_records :: "bucket_key \<times> u64 list \<Rightarrow> spill_record list" where
  "bucket_records b = map (SpillRecord (bk_band (fst b)) (bk_hash (fst b))) (snd b)"

lemma bucket_records_Cons: "bucket_records (b, k # ks) = SpillRecord (bk_band b) (bk_hash b) k # bucket_records (b, ks)"
  by (simp add: bucket_records_def)

lemma sorted_concat:
  assumes "\<And>x. x \<in> set xs \<Longrightarrow> sorted_wrt P (f x)" and "sorted_wrt (\<lambda>x y. \<forall>a \<in> set (f x). \<forall>b \<in> set (f y). P a b) xs"
  shows "sorted_wrt P (concat (map f xs))"
  using assms by (induction xs) (auto simp: sorted_wrt_append)

lemma sorted_bucket_records:
  assumes "buckets_represent bm m" and "finite (dom m)"
  shows "sorted_wrt (<) (concat (map bucket_records bm))"
proof (rule sorted_concat)
  fix b assume b: "b \<in> set bm"
  have "map_of bm (fst b) = Some (snd b)" using assms(1) bt_wf_mem [of bm "fst b" "snd b"] b by (simp add: buckets_represent_def)
  then have "snd b = sorted_list_of_set (bucket_of m (fst b))" using assms(1) by (auto simp: buckets_represent_def non_empty_def split: if_splits)
  then have "sorted_wrt (<) (snd b)" by (simp add: strict_sorted_list_of_set)
  then show "sorted_wrt (<) (bucket_records b)" by (simp add: bucket_records_def sorted_wrt_map less_spill_record_def)
next
  have "sorted_wrt (\<lambda>x y. fst x < fst y) bm" using assms(1) by (simp add: buckets_represent_def bt_wf_def sorted_wrt_map)
  then show "sorted_wrt (\<lambda>x y. \<forall>a \<in> set (bucket_records x). \<forall>b \<in> set (bucket_records y). a < b) bm"
    by (rule sorted_wrt_mono_rel [rotated]) (auto simp: bucket_records_def less_spill_record_def less_bucket_key_def)
qed

lemma set_bucket_records:
  assumes "buckets_represent bm m" and "finite (dom m)"
  shows "x \<in> set (concat (map bucket_records bm)) \<longleftrightarrow> sr_key x \<in> bucket_of m (BucketKey (sr_band x) (sr_hash x))"
proof -
  have wf: "bt_wf bm" and lookup: "\<And>b. map_of bm b = non_empty (sorted_list_of_set (bucket_of m b))" using assms(1) by (auto simp: buckets_represent_def)
  have "x \<in> set (concat (map bucket_records bm)) \<longleftrightarrow> (\<exists>ms. (BucketKey (sr_band x) (sr_hash x), ms) \<in> set bm \<and> sr_key x \<in> set ms)"
    by (cases x) (force simp: bucket_records_def)
  also have "\<dots> \<longleftrightarrow> sr_key x \<in> bucket_of m (BucketKey (sr_band x) (sr_hash x))"
    unfolding bt_wf_mem [OF wf] lookup using finite_bucket_of [OF assms(2)] by (auto simp: non_empty_def)
  finally show ?thesis .
qed

lemma item_records_mem:
  assumes "length (snd item) < 4294967296"
  shows "x \<in> set (item_records item) \<longleftrightarrow> sr_key x = fst item \<and> unat (sr_band x) < length (snd item) \<and> snd item ! unat (sr_band x) = sr_hash x"
proof -
  have "unat (of_nat i :: u32) = i" if "i < length (snd item)" for i using that assms by (simp add: unat_of_nat_u32)
  then show ?thesis by (cases x) (auto simp: item_records_def enumerate_nth image_iff intro!: bexI [of _ "unat (sr_band x)"])
qed

lemma distinct_item_records:
  assumes "length (snd item) < 4294967296" shows "distinct (item_records item)"
proof -
  have "inj_on (\<lambda>i. SpillRecord (of_nat i) (snd item ! i) (fst item)) {..<length (snd item)}"
    by (rule inj_on_inverseI [where g = "\<lambda>x. unat (sr_band x)"]) (use assms in \<open>simp add: unat_of_nat_u32\<close>)
  then show ?thesis by (simp add: item_records_def enumerate_nth distinct_map comp_def atLeast0LessThan)
qed

lemma distinct_source_records:
  assumes "distinct (map fst kh)" and "\<forall>item \<in> set kh. length (snd item) < 4294967296"
  shows "distinct (concat (map item_records kh))"
  using assms
proof (induction kh)
  case (Cons item kh)
  have "sr_key x \<noteq> fst item" if "x \<in> set (concat (map item_records kh))" for x
    using that Cons.prems by (auto simp: item_records_mem) (metis fst_conv image_eqI)
  moreover have "sr_key x = fst item" if "x \<in> set (item_records item)" for x using that Cons.prems(2) by (simp add: item_records_mem)
  ultimately have "set (item_records item) \<inter> set (concat (map item_records kh)) = {}" by blast
  then show ?case using Cons distinct_item_records [of item] by simp
qed simp

text \<open>Sorting the records of a source lists its buckets in order, each with its keys in order.\<close>

lemma sort_source_records:
  assumes rep: "buckets_represent bm (map_of kh)" and wf: "bt_wf kh" and short: "\<forall>item \<in> set kh. length (snd item) < 4294967296"
  shows "sort (concat (map item_records kh)) = concat (map bucket_records bm)"
proof (rule sorted_distinct_set_unique)
  have fin: "finite (dom (map_of kh))" by (rule finite_dom_map_of)
  note strict = sorted_bucket_records [OF rep fin]
  show "sorted (concat (map bucket_records bm))" "distinct (concat (map bucket_records bm))"
    using strict strict_sorted_iff by blast+
  show "distinct (sort (concat (map item_records kh)))" using distinct_source_records [OF bt_wf_distinct [OF wf] short] by simp
  have mem: "x \<in> set (concat (map item_records kh)) \<longleftrightarrow> sr_key x \<in> bucket_of (map_of kh) (BucketKey (sr_band x) (sr_hash x))" for x
  proof -
    have "x \<in> set (concat (map item_records kh)) \<longleftrightarrow> (\<exists>hashes. (sr_key x, hashes) \<in> set kh \<and> unat (sr_band x) < length hashes \<and> hashes ! unat (sr_band x) = sr_hash x)"
      using short by (force simp: item_records_mem)
    then show ?thesis unfolding bt_wf_mem [OF wf] bucket_of_def by simp
  qed
  show "set (sort (concat (map item_records kh))) = set (concat (map bucket_records bm))"
    unfolding set_sort set_eq_iff mem set_bucket_records [OF rep fin] by simp
qed simp

section \<open>Descriptors and memberships\<close>

fun drafts :: "(bytes \<Rightarrow> u32) \<Rightarrow> nat \<Rightarrow> (bucket_key \<times> u64 list) list \<Rightarrow> descriptor_draft list" where
  "drafts crc off [] = []"
| "drafts crc off (b # bm) =
     \<lparr>dd_key = fst b, dd_member_count = of_nat (length (snd b)), dd_relative_offset = of_nat off,
      dd_checksum = crc (concat (map le64 (snd b)))\<rparr> # drafts crc (off + 8 * length (snd b)) bm"

definition member_total :: "(bucket_key \<times> u64 list) list \<Rightarrow> nat" where
  "member_total bm = (\<Sum>b\<leftarrow>bm. length (snd b))"

lemma member_total_simps [simp]: "member_total [] = 0" "member_total (b # bm) = length (snd b) + member_total bm"
  "member_total (xs @ ys) = member_total xs + member_total ys"
  by (simp_all add: member_total_def)

lemma drafts_append: "drafts crc off (xs @ ys) = drafts crc off xs @ drafts crc (off + 8 * member_total xs) ys"
  by (induction xs arbitrary: off) (simp_all add: algebra_simps)

lemma length_drafts [simp]: "length (drafts crc off bm) = length bm"
  by (induction bm arbitrary: off) auto

definition membership_bytes :: "(bucket_key \<times> u64 list) list \<Rightarrow> bytes" where
  "membership_bytes bm = concat (map le64 (concat (map snd bm)))"

text \<open>The state after the buckets of \<open>closed\<close> and some members of one more.\<close>

definition merging :: "(bytes \<Rightarrow> u32) \<Rightarrow> 'c crc_hasher \<Rightarrow> (bucket_key \<times> u64 list) list \<Rightarrow> bucket_key \<times> u64 list \<Rightarrow> 'c merge_state \<Rightarrow> bool" where
  "merging crc hasher closed b ms \<longleftrightarrow> mg_key ms = Some (fst b) \<and> unat (mg_count ms) = length (snd b)
     \<and> unat (mg_offset ms) = 8 * member_total closed \<and> mg_hasher ms = fold (hasher_update hasher) (map le64 (snd b)) (hasher_new hasher)
     \<and> unat (mg_buckets ms) = length closed \<and> wr_bytes (mg_descriptors ms) = concat (map draft_bytes (drafts crc 0 closed))
     \<and> wr_bytes (mg_memberships ms) = membership_bytes (closed @ [b])"

lemma of_unat_eq: "unat w = n \<Longrightarrow> w = of_nat n"
  by auto

lemma emit_descriptor_Ok:
  assumes law: "hasher_law crc hasher" and m: "merging crc hasher closed b ms" and e: "emit_descriptor hasher (fst b) ms = Ok ms'"
  shows "wr_bytes (mg_descriptors ms') = concat (map draft_bytes (drafts crc 0 (closed @ [b])))" "unat (mg_buckets ms') = length (closed @ [b])"
    "mg_count ms' = mg_count ms" "mg_offset ms' = mg_offset ms" "mg_memberships ms' = mg_memberships ms"
proof -
  let ?d = "\<lparr>dd_key = fst b, dd_member_count = mg_count ms, dd_relative_offset = mg_offset ms, dd_checksum = hasher_finalize hasher (mg_hasher ms)\<rparr>"
  obtain w n where w: "finish_descriptor ?d (mg_descriptors ms) = Ok w" and n: "checked_add (mg_buckets ms) 1 = Some n"
    and ms': "ms' = ms\<lparr>mg_descriptors := w, mg_buckets := n\<rparr>"
    using e by (auto simp: emit_descriptor_def res_simps)
  have "mg_count ms = of_nat (length (snd b))" "mg_offset ms = of_nat (8 * member_total closed)"
    using m unfolding merging_def by (metis of_unat_eq)+
  moreover have "hasher_finalize hasher (mg_hasher ms) = crc (concat (map le64 (snd b)))" using law m by (simp add: hasher_law_def merging_def)
  ultimately have "drafts crc 0 (closed @ [b]) = drafts crc 0 closed @ [?d]" by (simp add: drafts_append)
  then show "wr_bytes (mg_descriptors ms') = concat (map draft_bytes (drafts crc 0 (closed @ [b])))"
    using finish_descriptor_Ok [OF w] m by (simp add: ms' merging_def)
  show "unat (mg_buckets ms') = length (closed @ [b])" using checked_add_Some [OF n] m by (simp add: ms' merging_def)
qed (use e in \<open>auto simp: emit_descriptor_def res_simps\<close>)

lemma merge_member_same:
  assumes m: "merging crc hasher closed (b, xs) ms" and r: "merge_member hasher (SpillRecord (bk_band b) (bk_hash b) k) ms = Ok ms'"
  shows "merging crc hasher closed (b, xs @ [k]) ms'"
proof -
  have "enter_group hasher b ms = Ok ms" using m by (simp add: enter_group_def merging_def)
  then obtain w n where w: "write_all (le64 k) (mg_memberships ms) = Ok w" and n: "checked_add (mg_count ms) 1 = Some n"
    and ms': "ms' = ms\<lparr>mg_memberships := w, mg_hasher := hasher_update hasher (le64 k) (mg_hasher ms), mg_count := n\<rparr>"
    using r by (auto simp: merge_member_def res_simps Let_def)
  show ?thesis using m write_all_Ok [OF w] checked_add_Some [OF n] by (simp add: merging_def ms' membership_bytes_def)
qed

lemma merge_member_new:
  assumes law: "hasher_law crc hasher" and m: "merging crc hasher closed c ms" and other: "fst c \<noteq> b"
    and r: "merge_member hasher (SpillRecord (bk_band b) (bk_hash b) k) ms = Ok ms'"
  shows "merging crc hasher (closed @ [c]) (b, [k]) ms'"
proof -
  have key: "mg_key ms = Some (fst c)" using m by (simp add: merging_def)
  then obtain ms1 bytes off where e: "emit_descriptor hasher (fst c) ms = Ok ms1"
    and bytes: "checked_mul (ucast (mg_count ms1)) (8 :: u64) = Some bytes" and off: "checked_add (mg_offset ms1) bytes = Some off"
    and enter: "enter_group hasher b ms = Ok (ms1\<lparr>mg_offset := off, mg_key := Some b, mg_count := 0, mg_hasher := hasher_new hasher\<rparr>)"
    using r other by (auto simp: merge_member_def enter_group_def res_simps Let_def)
  then obtain w n where w: "write_all (le64 k) (mg_memberships ms1) = Ok w" and n: "checked_add (0 :: u32) 1 = Some n"
    and ms': "ms' = ms1\<lparr>mg_offset := off, mg_key := Some b, mg_count := n, mg_hasher := hasher_update hasher (le64 k) (hasher_new hasher), mg_memberships := w\<rparr>"
    using r by (auto simp: merge_member_def res_simps Let_def)
  note e = emit_descriptor_Ok [OF law m e]
  have "unat bytes = unat (ucast (mg_count ms1) :: u64) * 8" using bytes by (auto simp: checked_mul_def unat_word_ariths split: if_splits)
  moreover have "unat (ucast (mg_count ms1) :: u64) = unat (mg_count ms1)" by (simp add: unsigned_ucast_eq take_bit_nat_eq_self unat_u32_less)
  ultimately have "unat off = 8 * member_total (closed @ [c])" using checked_add_Some [OF off] e(3,4) m by (simp add: merging_def)
  then show ?thesis using e m write_all_Ok [OF w] checked_add_Some [OF n] by (simp add: merging_def ms' membership_bytes_def)
qed

lemma merge_bucket:
  assumes "merging crc hasher closed (b, xs) ms" and "fold_result (merge_member hasher) (bucket_records (b, ys)) ms = Ok ms'"
  shows "merging crc hasher closed (b, xs @ ys) ms'"
  using assms
proof (induction ys arbitrary: xs ms)
  case (Cons y ys)
  then obtain ms1 where "merge_member hasher (SpillRecord (bk_band b) (bk_hash b) y) ms = Ok ms1"
    and "fold_result (merge_member hasher) (bucket_records (b, ys)) ms1 = Ok ms'" by (auto simp: bucket_records_Cons res_simps)
  with Cons.IH [OF merge_member_same [OF Cons.prems(1)]] show ?case by auto
qed (simp add: bucket_records_def)

lemma merge_buckets:
  assumes law: "hasher_law crc hasher"
  shows "merging crc hasher closed c ms \<Longrightarrow> fold_result (merge_member hasher) (concat (map bucket_records bm)) ms = Ok ms' \<Longrightarrow>
    distinct (map fst (c # bm)) \<Longrightarrow> \<forall>b \<in> set bm. snd b \<noteq> [] \<Longrightarrow>
    \<exists>closed' c'. closed' @ [c'] = closed @ [c] @ bm \<and> merging crc hasher closed' c' ms'"
proof (induction bm arbitrary: closed c ms)
  case (Cons b bm)
  obtain k y ys where b: "b = (k, y # ys)" using Cons.prems(4) by (cases b; cases "snd b") auto
  obtain ms1 ms2 where one: "merge_member hasher (SpillRecord (bk_band k) (bk_hash k) y) ms = Ok ms1"
    and two: "fold_result (merge_member hasher) (bucket_records (k, ys)) ms1 = Ok ms2"
    and rest: "fold_result (merge_member hasher) (concat (map bucket_records bm)) ms2 = Ok ms'"
    using Cons.prems(2) by (auto simp: b bucket_records_Cons fold_result_append res_simps)
  have "merging crc hasher (closed @ [c]) (k, [y]) ms1" using merge_member_new [OF law Cons.prems(1) _ one] Cons.prems(3) b by auto
  from merge_bucket [OF this two] have "merging crc hasher (closed @ [c]) b ms2" by (simp add: b)
  from Cons.IH [OF this rest] Cons.prems(3,4) show ?case by auto
qed auto

lemma merge_start_first:
  assumes r: "merge_member hasher (SpillRecord (bk_band b) (bk_hash b) k) (merge_start hasher w v) = Ok ms'" and w: "wr_bytes w = []" "wr_bytes v = []"
  shows "merging crc hasher [] (b, [k]) ms'"
proof -
  obtain u n where u: "write_all (le64 k) v = Ok u" and n: "checked_add (0 :: u32) 1 = Some n"
    and ms': "ms' = (merge_start hasher w v)\<lparr>mg_key := Some b, mg_count := n, mg_hasher := hasher_update hasher (le64 k) (hasher_new hasher), mg_memberships := u\<rparr>"
    using r by (auto simp: merge_member_def enter_group_def merge_start_def res_simps Let_def)
  show ?thesis using write_all_Ok [OF u] checked_add_Some [OF n] w by (simp add: merging_def ms' merge_start_def membership_bytes_def)
qed

text \<open>Merging the records of a source in order writes one descriptor per bucket, and the members of all buckets.\<close>

lemma merge_output:
  assumes law: "hasher_law crc hasher" and w: "wr_bytes w = []" "wr_bytes v = []"
    and loop: "fold_result (merge_member hasher) (concat (map bucket_records bm)) (merge_start hasher w v) = Ok ms" and fin: "finish_merge hasher ms = Ok ms'"
    and wf: "distinct (map fst bm)" "\<forall>b \<in> set bm. snd b \<noteq> []"
  shows "wr_bytes (mg_descriptors ms') = concat (map draft_bytes (drafts crc 0 bm))" "wr_bytes (mg_memberships ms') = membership_bytes bm"
    "unat (mg_buckets ms') = length bm"
proof -
  have "wr_bytes (mg_descriptors ms') = concat (map draft_bytes (drafts crc 0 bm)) \<and> wr_bytes (mg_memberships ms') = membership_bytes bm
    \<and> unat (mg_buckets ms') = length bm"
  proof (cases bm)
    case Nil
    then show ?thesis using loop fin w by (auto simp: finish_merge_def merge_start_def membership_bytes_def)
  next
    case (Cons b bm')
    obtain k y ys where b: "b = (k, y # ys)" using wf(2) by (cases b; cases "snd b") (auto simp: Cons)
    obtain ms1 ms2 where one: "merge_member hasher (SpillRecord (bk_band k) (bk_hash k) y) (merge_start hasher w v) = Ok ms1"
      and two: "fold_result (merge_member hasher) (bucket_records (k, ys)) ms1 = Ok ms2"
      and rest: "fold_result (merge_member hasher) (concat (map bucket_records bm')) ms2 = Ok ms"
      using loop by (auto simp: Cons b bucket_records_Cons fold_result_append res_simps)
    have "merging crc hasher [] b ms2" using merge_bucket [OF merge_start_first [OF one w] two] by (simp add: b)
    from merge_buckets [OF law this rest] obtain closed c where c: "closed @ [c] = bm" "merging crc hasher closed c ms"
      using wf by (auto simp: Cons)
    then have "emit_descriptor hasher (fst c) ms = Ok ms'" using fin by (simp add: finish_merge_def merging_def)
    from emit_descriptor_Ok [OF law c(2) this] c show ?thesis by (simp add: merging_def)
  qed
  then show "wr_bytes (mg_descriptors ms') = concat (map draft_bytes (drafts crc 0 bm))" "wr_bytes (mg_memberships ms') = membership_bytes bm"
    "unat (mg_buckets ms') = length bm" by auto
qed

section \<open>Grouping descriptors into segments\<close>

text \<open>The inner loop of \<open>assemble_segments\<close>: the descriptors of the next segment, the pending one and the reader.\<close>

function take_group :: "descriptor_draft list \<Rightarrow> usize \<Rightarrow> descriptor_draft option \<Rightarrow> reader
    \<Rightarrow> (descriptor_draft list \<times> descriptor_draft option \<times> reader, build_error) result" where
  "take_group taken estimated None r = Ok (taken, None, r)"
| "take_group taken estimated (Some draft) r =
     and_then (map_err BuildBucket (bucket_record_size (unat (dd_member_count draft)))) (\<lambda>contribution.
     and_then
       (if taken \<noteq> []
        then and_then (ok_or BuildLengthOverflow (checked_add_usize estimated contribution)) (\<lambda>size. Ok (BUCKET_SEGMENT_TARGET_BYTES < size))
        else Ok False) (\<lambda>full.
     if full then Ok (taken, Some draft, r)
     else and_then (ok_or BuildLengthOverflow (checked_add_usize estimated contribution)) (\<lambda>estimated.
          and_then (read_descriptor_optional r) (\<lambda>(pending, r).
          take_group (taken @ [draft]) estimated pending r))))"
  by pat_completeness auto

definition pending_size :: "descriptor_draft option \<Rightarrow> reader \<Rightarrow> nat" where
  "pending_size pending r = (case pending of None \<Rightarrow> 0 | Some x \<Rightarrow> 1) + length (rest_of r)"

lemma read_descriptor_consumes:
  "read_descriptor_optional r = Ok (pending, r') \<Longrightarrow> pending_size pending r' < pending_size (Some draft) r"
proof -
  assume "read_descriptor_optional r = Ok (pending, r')"
  then obtain raw where raw: "read_record 28 ''truncated temporary descriptor'' [] r = Ok (raw, r')" "pending = None \<longleftrightarrow> raw = None"
    by (auto simp: read_descriptor_optional_def res_simps)
  from read_record_Ok [OF raw(1)] raw(2) show ?thesis by (auto simp: pending_size_def split: option.splits)
qed

termination take_group
proof (relation "measure (\<lambda>(_, _, pending, r). pending_size pending r)")
  fix taken :: "descriptor_draft list" and estimated :: usize and draft r c full e x pending r'
  assume "read_descriptor_optional r = Ok x" and "(pending, r') = x"
  then show "((taken @ [draft], e, pending, r'), taken, estimated, Some draft, r) \<in> measure (\<lambda>(_, _, pending, r). pending_size pending r)"
    using read_descriptor_consumes [of r pending r' draft] by auto
qed simp

declare take_group.simps(2) [simp del]

lemma take_group_consumes:
  "take_group taken estimated pending r = Ok (taken', pending', r') \<Longrightarrow>
    pending_size pending' r' \<le> pending_size pending r \<and> (taken = [] \<longrightarrow> pending \<noteq> None \<longrightarrow> pending_size pending' r' < pending_size pending r)"
proof (induction taken estimated pending r rule: take_group.induct)
  case (2 taken estimated draft r)
  from "2.prems" obtain contribution full where c: "map_err BuildBucket (bucket_record_size (unat (dd_member_count draft))) = Ok contribution"
    and f: "(if taken \<noteq> [] then and_then (ok_or BuildLengthOverflow (checked_add_usize estimated contribution)) (\<lambda>size. Ok (BUCKET_SEGMENT_TARGET_BYTES < size))
        else Ok False) = Ok full"
    and rest: "(if full then Ok (taken, Some draft, r)
     else and_then (ok_or BuildLengthOverflow (checked_add_usize estimated contribution)) (\<lambda>estimated.
          and_then (read_descriptor_optional r) (\<lambda>(pending, r).
          take_group (taken @ [draft]) estimated pending r))) = Ok (taken', pending', r')"
    unfolding take_group.simps(2) and_then_eq_Ok by blast
  show ?case
  proof (cases full)
    case True
    then have "taken \<noteq> []" using f by (auto split: if_splits)
    then show ?thesis using rest True by simp
  next
    case False
    then obtain estimated' pending1 r1 where e: "ok_or BuildLengthOverflow (checked_add_usize estimated contribution) = Ok estimated'"
      and d: "read_descriptor_optional r = Ok (pending1, r1)" and loop: "take_group (taken @ [draft]) estimated' pending1 r1 = Ok (taken', pending', r')"
      using rest by (auto simp: and_then_eq_Ok)
    from "2.IH" [OF c f False e d refl loop] read_descriptor_consumes [OF d, of draft] show ?thesis by simp
  qed
qed auto

section \<open>The groups of the canonical snapshot\<close>

fun next_group :: "(bucket_key \<times> u64 list) list \<Rightarrow> (bucket_key \<times> u64 list) list \<Rightarrow> (bucket_key \<times> u64 list) list \<times> (bucket_key \<times> u64 list) list" where
  "next_group cur [] = (cur, [])"
| "next_group cur (b # bm) =
     (if cur \<noteq> [] \<and> BUCKET_SEGMENT_TARGET_BYTES < group_bytes cur + record_bytes b then (cur, b # bm) else next_group (cur @ [b]) bm)"

lemma next_group_shorter: "length (snd (next_group cur bm)) \<le> length bm"
  by (induction cur bm rule: next_group.induct) auto

lemma next_group_append: "fst (next_group cur bm) @ snd (next_group cur bm) = cur @ bm"
  by (induction cur bm rule: next_group.induct) auto

fun groups_from :: "(bucket_key \<times> u64 list) list \<Rightarrow> (bucket_key \<times> u64 list) list \<Rightarrow> (bucket_key \<times> u64 list) list list" where
  "groups_from cur [] = [cur]"
| "groups_from cur (b # bm) =
     (if cur \<noteq> [] \<and> BUCKET_SEGMENT_TARGET_BYTES < group_bytes cur + record_bytes b then cur # groups_from [b] bm else groups_from (cur @ [b]) bm)"

lemma groups_from_next:
  "groups_from cur bm = (case next_group cur bm of (g, []) \<Rightarrow> [g] | (g, rest) \<Rightarrow> g # groups_from [] rest)"
  by (induction cur bm rule: next_group.induct) auto

lemma concat_groups_from: "concat (groups_from cur bm) = cur @ bm"
  by (induction cur bm rule: groups_from.induct) auto

lemma groups_from_non_empty: "groups_from cur bm \<noteq> []"
  by (induction cur bm rule: groups_from.induct) auto

lemma segment_fold_groups:
  assumes "fold_result (segment_step crc) bm (ss, cur, group_bytes cur) = Ok (ss', cur', est)" and "cur \<noteq> [] \<or> bm \<noteq> []"
  shows "\<exists>gs. groups_from cur bm = gs @ [cur'] \<and> ss' = ss @ map (bucket_section crc) gs \<and> (\<forall>g \<in> set gs. group_ok g) \<and> cur' \<noteq> []"
  using assms
proof (induction bm arbitrary: ss cur)
  case (Cons b bm)
  then obtain st where st: "segment_step crc b (ss, cur, group_bytes cur) = Ok st" "fold_result (segment_step crc) bm st = Ok (ss', cur', est)"
    by (auto simp: res_simps)
  from st(1) consider
      (keep) "\<not> (cur \<noteq> [] \<and> BUCKET_SEGMENT_TARGET_BYTES < group_bytes cur + record_bytes b)" "st = (ss, cur @ [b], group_bytes (cur @ [b]))"
    | (split) "cur \<noteq> [] \<and> BUCKET_SEGMENT_TARGET_BYTES < group_bytes cur + record_bytes b" "group_ok cur" "st = (ss @ [bucket_section crc cur], [b], group_bytes [b])"
    using group_bytes_simps(2) [of "[]" b]
    by (auto simp: segment_step_def Let_def res_simps bucket_record_size_Ok push_bucket_section_Ok checked_add_usize_def record_bytes_def split: if_splits)
  then show ?case
  proof cases
    case keep
    then show ?thesis using Cons.IH [of ss "cur @ [b]"] st(2) by auto
  next
    case split
    then obtain gs where "groups_from [b] bm = gs @ [cur']" "ss' = ss @ [bucket_section crc cur] @ map (bucket_section crc) gs" "\<forall>g \<in> set gs. group_ok g" "cur' \<noteq> []"
      using Cons.IH [of "ss @ [bucket_section crc cur]" "[b]"] st(2) by auto
    then show ?thesis using split by (intro exI [of _ "cur # gs"]) simp
  qed
qed auto

lemma append_sections_groups:
  assumes "materialize_sorted_buckets kh bands = Ok bm" and "append_bucket_sections crc kh bands ss0 = Ok ss"
  shows "ss = ss0 @ map (bucket_section crc) (groups_from [] bm) \<and> (\<forall>g \<in> set (groups_from [] bm). group_ok g)"
proof (cases "bm = []")
  case True
  with assms show ?thesis by (auto simp: append_bucket_sections_def push_bucket_section_Ok)
next
  case False
  with assms obtain ss' cur est where loop: "fold_result (segment_step crc) bm (ss0, [], 40) = Ok (ss', cur, est)"
    and last: "if cur \<noteq> [] then push_bucket_section crc ss' cur = Ok ss else ss' = ss"
    by (auto simp: append_bucket_sections_def res_simps split: if_splits)
  obtain gs where "groups_from [] bm = gs @ [cur]" "ss' = ss0 @ map (bucket_section crc) gs" "\<forall>g \<in> set gs. group_ok g" "cur \<noteq> []"
    using segment_fold_groups [of crc bm ss0 "[]" ss' cur est] loop False by auto
  then show ?thesis using last by (auto simp: push_bucket_section_Ok)
qed

text \<open>A pending descriptor followed by the rest of the reader.\<close>

definition pending_streams :: "descriptor_draft option \<Rightarrow> reader \<Rightarrow> descriptor_draft list \<Rightarrow> bool" where
  "pending_streams pending r xs = (case xs of [] \<Rightarrow> pending = None \<and> streams draft_bytes r [] | x # ys \<Rightarrow> pending = Some x \<and> streams draft_bytes r ys)"

lemma read_pending: "read_descriptor_optional r = Ok (pending, r') \<Longrightarrow> streams draft_bytes r xs \<Longrightarrow> pending_streams pending r' xs"
  using read_descriptor_Ok [of r pending r' xs] by (simp add: pending_streams_def)

lemma take_group_Ok:
  assumes "take_group (drafts crc off cur) (group_bytes cur) pending r = Ok (ds, pending', r')"
    and "pending_streams pending r (drafts crc (off + 8 * member_total cur) bm)" and "\<forall>b \<in> set bm. length (snd b) < 4294967296"
  shows "ds = drafts crc off (fst (next_group cur bm))
    \<and> pending_streams pending' r' (drafts crc (off + 8 * member_total (fst (next_group cur bm))) (snd (next_group cur bm)))"
  using assms
proof (induction cur bm arbitrary: pending r rule: next_group.induct)
  case (1 cur)
  then show ?case by (auto simp: pending_streams_def)
next
  case (2 cur b bm)
  let ?o = "off + 8 * member_total cur"
  let ?d = "\<lparr>dd_key = fst b, dd_member_count = of_nat (length (snd b)), dd_relative_offset = of_nat ?o, dd_checksum = crc (concat (map le64 (snd b)))\<rparr>"
  have pending: "pending = Some ?d" "streams draft_bytes r (drafts crc (?o + 8 * length (snd b)) bm)"
    using "2.prems"(2) by (simp_all add: pending_streams_def)
  have n: "unat (dd_member_count ?d) = length (snd b)" using "2.prems"(3) by (simp add: unat_of_nat_u32)
  have ne: "drafts crc off cur \<noteq> [] \<longleftrightarrow> cur \<noteq> []" by (cases cur) auto
  show ?case
  proof (cases "cur \<noteq> [] \<and> BUCKET_SEGMENT_TARGET_BYTES < group_bytes cur + record_bytes b")
    case True
    then have "ds = drafts crc off cur" "pending' = Some ?d" "r' = r"
      using "2.prems"(1) n ne unfolding pending(1)
      by (auto simp: take_group.simps(2) res_simps bucket_record_size_Ok checked_add_usize_def record_bytes_def split: if_splits)
    then show ?thesis using True "2.prems"(2) pending(1) by simp
  next
    case False
    then obtain pending1 r1 where read: "read_descriptor_optional r = Ok (pending1, r1)"
      and loop: "take_group (drafts crc off cur @ [?d]) (group_bytes cur + record_bytes b) pending1 r1 = Ok (ds, pending', r')"
      using "2.prems"(1) n ne unfolding pending(1)
      by (auto simp: take_group.simps(2) res_simps bucket_record_size_Ok checked_add_usize_def record_bytes_def split: if_splits)
    have "drafts crc off cur @ [?d] = drafts crc off (cur @ [b])" by (simp add: drafts_append)
    then have loop: "take_group (drafts crc off (cur @ [b])) (group_bytes (cur @ [b])) pending1 r1 = Ok (ds, pending', r')" using loop by simp
    have "pending_streams pending1 r1 (drafts crc (off + 8 * member_total (cur @ [b])) bm)"
      using read_pending [OF read pending(2)] by (simp add: algebra_simps)
    from "2.IH" [OF False loop this] "2.prems"(3) show ?thesis using False by auto
  qed
qed

section \<open>Streaming a segment under faults\<close>

definition heal_writer :: "writer \<Rightarrow> writer" where
  "heal_writer w = w\<lparr>wr_faults := []\<rparr>"

lemma write_all_heal: "write_all bs w = Ok w' \<Longrightarrow> write_all bs (heal_writer w) = Ok (heal_writer w')"
  by (auto simp: write_all_def heal_writer_def split: list.splits option.splits)

lemma read_exact_heal: "read_exact n r = Ok (bs, r') \<Longrightarrow> read_exact n (heal r) = Ok (bs, heal r')"
  by (auto simp: read_exact_def res_simps dest: io_tick_same split: if_splits)

lemma copy_loop_heal:
  "copy_loop hasher remaining (w, r, bucket, outer) = Ok (w', r', bucket', outer') \<Longrightarrow>
    copy_loop hasher remaining (heal_writer w, heal r, bucket, outer) = Ok (heal_writer w', heal r', bucket', outer')"
proof (induction hasher remaining "(w, r, bucket, outer)" arbitrary: w r bucket outer rule: copy_loop.induct)
  case (1 hasher remaining w r bucket outer)
  show ?case
  proof (cases "remaining = 0")
    case True
    then show ?thesis using "1.prems" by (subst copy_loop.simps, subst (asm) copy_loop.simps) simp
  next
    case False
    define count where "count = unat (min remaining COPY_BUFFER_BYTES_U64)"
    obtain piece r1 w1 where read: "read_exact count r = Ok (piece, r1)" and wr: "write_all piece w = Ok w1"
      and loop: "copy_loop hasher (remaining - of_nat count) (w1, r1, hasher_update hasher piece bucket, hasher_update hasher piece outer) = Ok (w', r', bucket', outer')"
      using "1.prems" False by (subst (asm) copy_loop.simps) (auto simp: res_simps Let_def count_def)
    have "map_err bucket_io_error (read_exact count r) = Ok (piece, r1)" "map_err bucket_io_error (write_all piece w) = Ok w1" using read wr by simp_all
    from "1.hyps" [OF False count_def this(1) refl this(2) loop] show ?thesis
      using False read_exact_heal [OF read] write_all_heal [OF wr] by (subst copy_loop.simps) (simp add: Let_def count_def [symmetric])
  qed
qed

lemma copy_record_heal:
  "copy_record hasher x (w, r, outer) = Ok (w', r', outer') \<Longrightarrow> copy_record hasher x (heal_writer w, heal r, outer) = Ok (heal_writer w', heal r', outer')"
proof -
  assume "copy_record hasher x (w, r, outer) = Ok (w', r', outer')"
  then obtain n bucket where "checked_mul (ucast (bw_member_count x)) U64_BYTES_U64 = Some n"
    "copy_loop hasher n (w, r, hasher_new hasher, outer) = Ok (w', r', bucket, outer')" "hasher_finalize hasher bucket = bw_member_checksum x"
    by (auto simp: copy_record_def res_simps Let_def)
  then show ?thesis by (simp add: copy_record_def copy_loop_heal)
qed

lemma copy_records_heal:
  "fold_result (copy_record hasher) records (w, r, outer) = Ok (w', r', outer') \<Longrightarrow>
    fold_result (copy_record hasher) records (heal_writer w, heal r, outer) = Ok (heal_writer w', heal r', outer')"
proof (induction records arbitrary: w r outer)
  case (Cons x records)
  then obtain w1 r1 outer1 where "copy_record hasher x (w, r, outer) = Ok (w1, r1, outer1)"
    "fold_result (copy_record hasher) records (w1, r1, outer1) = Ok (w', r', outer')" by (auto simp: res_simps)
  then show ?case using Cons.IH by (simp add: copy_record_heal)
qed simp

lemma write_hashed_heal:
  "write_hashed hasher bs (w, h) = Ok (w', h') \<Longrightarrow> write_hashed hasher bs (heal_writer w, h) = Ok (heal_writer w', h')"
  by (auto simp: write_hashed_def res_simps write_all_heal)

lemma write_bucket_segment_heal:
  assumes "write_bucket_segment crc hasher records r w = Ok (res, r', w')"
  shows "write_bucket_segment crc hasher records (heal r) (heal_writer w) = Ok (res, heal r', heal_writer w')"
proof -
  from assms obtain directory_bytes member_start member_offset directory next_offset total count directory_bytes' w1 h1 w2 h2 h3 bytes where
    pure: "validate_records records = Ok ()" "checked_mul_usize (length records) BUCKET_DIRECTORY_ENTRY_BYTES = Some directory_bytes"
      "checked_add_usize BUCKET_SEGMENT_HEADER_BYTES directory_bytes = Some member_start" "u64_try_from member_start = Some member_offset"
      "fold_result stream_entry records ([], member_offset, 0) = Ok (directory, next_offset, total)" "u64_try_from (length records) = Some count"
      "u64_try_from directory_bytes = Some directory_bytes'" "checked_add member_offset total = Some bytes"
    and io: "write_hashed hasher (segment_header crc count directory_bytes' directory) (w, hasher_new hasher) = Ok (w1, h1)"
      "write_hashed hasher directory (w1, h1) = Ok (w2, h2)" "fold_result (copy_record hasher) records (w2, r, h2) = Ok (w', r', h3)"
    and res: "res = \<lparr>sb_bytes = bytes, sb_checksum = hasher_finalize hasher h3\<rparr>"
    unfolding write_bucket_segment_def Let_def by (auto simp: res_simps)
  show ?thesis
    unfolding write_bucket_segment_def pure ok_or.simps and_then.simps prod.case Let_def write_hashed_heal [OF io(1)] write_hashed_heal [OF io(2)]
      copy_records_heal [OF io(3)] res ..
qed

lemma write_bucket_segment_Ok:
  assumes law: "hasher_law crc hasher" and ok: "segment_ok rs" and r: "rest_of r = concat (map member_bytes rs) @ rest" "rd_pos r \<le> length (rd_bytes r)"
    and run: "write_bucket_segment crc hasher (map (write_record crc) rs) r w = Ok (res, r', w')"
  shows "res = \<lparr>sb_bytes = of_nat (length (segment crc rs)), sb_checksum = crc (segment crc rs)\<rparr>" "wr_bytes w' = wr_bytes w @ segment crc rs"
proof -
  obtain r'' where "write_bucket_segment crc hasher (map (write_record crc) rs) (heal r) (heal_writer w)
    = Ok (\<lparr>sb_bytes = of_nat (length (segment crc rs)), sb_checksum = crc (segment crc rs)\<rparr>, r'', (heal_writer w)\<lparr>wr_bytes := wr_bytes (heal_writer w) @ segment crc rs\<rparr>)"
    using write_bucket_segment_ok [OF law ok, of "heal r" rest "heal_writer w"] r by (auto simp: heal_writer_def rest_of_def)
  with write_bucket_segment_heal [OF run] show "res = \<lparr>sb_bytes = of_nat (length (segment crc rs)), sb_checksum = crc (segment crc rs)\<rparr>"
    "wr_bytes w' = wr_bytes w @ segment crc rs"
    by (auto simp: heal_writer_def dest: arg_cong [where f = wr_bytes])
qed

end
