(* ===== verification/Pari_FS.thy ===== *)
theory Pari_FS
  imports Pari_Snapshot
begin

text \<open>
  The file system as the sources use it through \<open>std::fs\<close>. A disk maps paths to nodes and files to
  bytes, and remembers which files have been synced since their last write. Every system call
  consumes one entry of a schedule of faults and appends the disk it leaves to a trace, so that a
  claim about every moment of an operation, such as a crash in the middle of it, is a claim about
  the disks of the trace. A failing write may leave any prefix of its bytes behind. A path is its
  list of components; a leading current-directory component is ignored when it is looked up, and
  symbolic links hold the path they lead to. An opened file is read through a \<open>reader\<close>, with its own
  schedule of faults.

  \<open>evolves P\<close> relates two states when every disk in between satisfies \<open>P\<close>; \<open>keeps\<close> is the usual choice of
  \<open>P\<close>: what existed before is still there, unchanged.
\<close>

section \<open>Paths\<close>

definition resolve :: "path \<Rightarrow> path" where
  "resolve p = filter (\<lambda>c. c \<noteq> ''.'') p"

definition file_name :: "path \<Rightarrow> string option" where
  "file_name p = (if p = [] \<or> last p = ''.'' \<or> last p = ''..'' then None else Some (last p))"

text \<open>\<open>path.parent()\<close> without the empty path, or the current directory.\<close>

definition parent_dir :: "path \<Rightarrow> path" where
  "parent_dir p = (if butlast p = [] then [''.''] else butlast p)"

definition digit :: "nat \<Rightarrow> char" where
  "digit d = ''0123456789abcdef'' ! d"

fun decimal :: "nat \<Rightarrow> string" where
  "decimal n = (if n < 10 then [digit n] else decimal (n div 10) @ [digit (n mod 10)])"

declare decimal.simps [simp del]

definition hex_digits :: "nat \<Rightarrow> nat \<Rightarrow> string" where
  "hex_digits width n = map (\<lambda>i. digit ((n div 16 ^ i) mod 16)) (rev [0..<width])"

section \<open>Disks and system calls\<close>

type_synonym inode = nat

datatype node = FileNode inode | DirNode inode | LinkNode path

record disk =
  dk_entries :: "path \<Rightarrow> node option"
  dk_data :: "inode \<Rightarrow> bytes"
  dk_synced :: "inode \<Rightarrow> bool"
  dk_next :: inode

record fs =
  fs_disk :: disk
  fs_faults :: "(io_error \<times> nat) option list"
  fs_reads :: "io_error option list list"
  fs_trace :: "disk list"
  fs_sequence :: u64
  fs_process_id :: u32

definition fs_step :: "disk \<Rightarrow> fs \<Rightarrow> fs" where
  "fs_step d fs = fs\<lparr>fs_disk := d, fs_trace := fs_trace fs @ [d]\<rparr>"

definition fs_call :: "(disk \<Rightarrow> io_error + 'a \<times> disk) \<Rightarrow> fs \<Rightarrow> (io_error + 'a) \<times> fs" where
  "fs_call f fs =
     (case fs_faults fs of
        Some (e, n) # faults \<Rightarrow> (Inl e, fs\<lparr>fs_faults := faults\<rparr>)
      | faults \<Rightarrow>
          let fs = fs\<lparr>fs_faults := tl faults\<rparr>
          in case f (fs_disk fs) of
               Inl e \<Rightarrow> (Inl e, fs)
             | Inr (x, d) \<Rightarrow> (Inr x, fs_step d fs))"

definition io_then :: "(io_error + 'a) \<times> 's \<Rightarrow> ('a \<Rightarrow> 's \<Rightarrow> (io_error + 'b) \<times> 's) \<Rightarrow> (io_error + 'b) \<times> 's" where
  "io_then m f = (case m of (Inr x, s) \<Rightarrow> f x s | (Inl e, s) \<Rightarrow> (Inl e, s))"

definition is_dir :: "path \<Rightarrow> disk \<Rightarrow> bool" where
  "is_dir p d \<longleftrightarrow> p = [] \<or> (case dk_entries d p of Some (DirNode i) \<Rightarrow> True | _ \<Rightarrow> False)"

definition sys_create_new :: "path \<Rightarrow> disk \<Rightarrow> io_error + inode \<times> disk" where
  "sys_create_new p d =
     (let q = resolve p; i = dk_next d
      in if \<not> is_dir (butlast q) d then Inl IoNotFound
         else if dk_entries d q \<noteq> None then Inl IoAlreadyExists
         else Inr (i, d\<lparr>dk_entries := (dk_entries d)(q \<mapsto> FileNode i), dk_data := (dk_data d)(i := []),
                        dk_synced := (dk_synced d)(i := False), dk_next := i + 1\<rparr>))"

definition append_data :: "inode \<Rightarrow> bytes \<Rightarrow> disk \<Rightarrow> disk" where
  "append_data i bs d = d\<lparr>dk_data := (dk_data d)(i := dk_data d i @ bs), dk_synced := (dk_synced d)(i := False)\<rparr>"

definition sys_sync :: "inode \<Rightarrow> disk \<Rightarrow> io_error + unit \<times> disk" where
  "sys_sync i d = Inr ((), d\<lparr>dk_synced := (dk_synced d)(i := True)\<rparr>)"

definition sys_rename :: "path \<Rightarrow> path \<Rightarrow> disk \<Rightarrow> io_error + unit \<times> disk" where
  "sys_rename source target d =
     (let p = resolve source; q = resolve target
      in case dk_entries d p of
           None \<Rightarrow> Inl IoNotFound
         | Some n \<Rightarrow>
             if \<not> is_dir (butlast q) d then Inl IoNotFound
             else if is_dir p d \<or> is_dir q d then Inl (OtherIo ''Is a directory'')
             else if dk_entries d q = Some n then Inr ((), d)
             else Inr ((), d\<lparr>dk_entries := (dk_entries d)(q \<mapsto> n, p := None)\<rparr>))"

definition sys_hard_link :: "path \<Rightarrow> path \<Rightarrow> disk \<Rightarrow> io_error + unit \<times> disk" where
  "sys_hard_link source target d =
     (let p = resolve source; q = resolve target
      in case dk_entries d p of
           None \<Rightarrow> Inl IoNotFound
         | Some n \<Rightarrow>
             if is_dir p d then Inl (OtherIo ''Operation not permitted'')
             else if \<not> is_dir (butlast q) d then Inl IoNotFound
             else if q = [] \<or> dk_entries d q \<noteq> None then Inl IoAlreadyExists
             else Inr ((), d\<lparr>dk_entries := (dk_entries d)(q \<mapsto> n)\<rparr>))"

definition sys_remove_file :: "path \<Rightarrow> disk \<Rightarrow> io_error + unit \<times> disk" where
  "sys_remove_file p d =
     (let q = resolve p
      in if is_dir q d then Inl (OtherIo ''Is a directory'')
         else if dk_entries d q = None then Inl IoNotFound
         else Inr ((), d\<lparr>dk_entries := (dk_entries d)(q := None)\<rparr>))"

definition sys_symlink_metadata :: "path \<Rightarrow> disk \<Rightarrow> io_error + node \<times> disk" where
  "sys_symlink_metadata p d =
     (case dk_entries d (resolve p) of
        None \<Rightarrow> if resolve p = [] then Inr (DirNode 0, d) else Inl IoNotFound
      | Some n \<Rightarrow> Inr (n, d))"

text \<open>Links are followed up to a limit.\<close>

fun follow :: "nat \<Rightarrow> path \<Rightarrow> disk \<Rightarrow> io_error + node" where
  "follow n p d =
     (case dk_entries d (resolve p) of
        None \<Rightarrow> if resolve p = [] then Inr (DirNode 0) else Inl IoNotFound
      | Some (LinkNode q) \<Rightarrow>
          (case n of 0 \<Rightarrow> Inl (OtherIo ''Too many levels of symbolic links'') | Suc m \<Rightarrow> follow m q d)
      | Some x \<Rightarrow> Inr x)"

declare follow.simps [simp del]

definition sys_follow :: "path \<Rightarrow> disk \<Rightarrow> io_error + node \<times> disk" where
  "sys_follow p d = (case follow 40 p d of Inl e \<Rightarrow> Inl e | Inr n \<Rightarrow> Inr (n, d))"

fun node_inode :: "node \<Rightarrow> inode" where
  "node_inode (FileNode i) = i"
| "node_inode (DirNode i) = i"
| "node_inode (LinkNode p) = 0"

fun make_dirs :: "path list \<Rightarrow> disk \<Rightarrow> io_error + unit \<times> disk" where
  "make_dirs [] d = Inr ((), d)"
| "make_dirs (p # ps) d =
     (case dk_entries d p of
        Some (DirNode i) \<Rightarrow> make_dirs ps d
      | Some n \<Rightarrow> Inl IoAlreadyExists
      | None \<Rightarrow> make_dirs ps (d\<lparr>dk_entries := (dk_entries d)(p \<mapsto> DirNode (dk_next d)), dk_next := dk_next d + 1\<rparr>))"

definition sys_create_dir_all :: "path \<Rightarrow> disk \<Rightarrow> io_error + unit \<times> disk" where
  "sys_create_dir_all p d = make_dirs (map (\<lambda>n. take n (resolve p)) [1..<length (resolve p) + 1]) d"

section \<open>Library calls\<close>

definition fs_create_new :: "path \<Rightarrow> fs \<Rightarrow> (io_error + inode) \<times> fs" where
  "fs_create_new p = fs_call (sys_create_new p)"

definition fs_write_all :: "inode \<Rightarrow> bytes \<Rightarrow> fs \<Rightarrow> (io_error + unit) \<times> fs" where
  "fs_write_all i bs fs =
     (case fs_faults fs of
        Some (e, n) # faults \<Rightarrow> (Inl e, fs_step (append_data i (take n bs) (fs_disk fs)) (fs\<lparr>fs_faults := faults\<rparr>))
      | faults \<Rightarrow> (Inr (), fs_step (append_data i bs (fs_disk fs)) (fs\<lparr>fs_faults := tl faults\<rparr>)))"

text \<open>Files are written through a handle, which holds nothing back: \<open>flush\<close> has nothing to do.\<close>

definition fs_sync_all :: "inode \<Rightarrow> fs \<Rightarrow> (io_error + unit) \<times> fs" where
  "fs_sync_all i = fs_call (sys_sync i)"

definition fs_rename :: "path \<Rightarrow> path \<Rightarrow> fs \<Rightarrow> (io_error + unit) \<times> fs" where
  "fs_rename p q = fs_call (sys_rename p q)"

definition fs_hard_link :: "path \<Rightarrow> path \<Rightarrow> fs \<Rightarrow> (io_error + unit) \<times> fs" where
  "fs_hard_link p q = fs_call (sys_hard_link p q)"

definition fs_remove_file :: "path \<Rightarrow> fs \<Rightarrow> (io_error + unit) \<times> fs" where
  "fs_remove_file p = fs_call (sys_remove_file p)"

definition fs_symlink_metadata :: "path \<Rightarrow> fs \<Rightarrow> (io_error + node) \<times> fs" where
  "fs_symlink_metadata p = fs_call (sys_symlink_metadata p)"

definition fs_create_dir_all :: "path \<Rightarrow> fs \<Rightarrow> (io_error + unit) \<times> fs" where
  "fs_create_dir_all p = fs_call (sys_create_dir_all p)"

text \<open>\<open>fs::metadata\<close> and \<open>Path::exists\<close>.\<close>

definition fs_metadata_len :: "path \<Rightarrow> fs \<Rightarrow> (io_error + u64) \<times> fs" where
  "fs_metadata_len p fs = io_then (fs_call (sys_follow p) fs) (\<lambda>n fs. (Inr (of_nat (length (dk_data (fs_disk fs) (node_inode n)))), fs))"

definition fs_exists :: "path \<Rightarrow> fs \<Rightarrow> bool \<times> fs" where
  "fs_exists p fs = (case fs_call (sys_follow p) fs of (Inr n, fs) \<Rightarrow> (True, fs) | (Inl e, fs) \<Rightarrow> (False, fs))"

text \<open>\<open>File::open\<close>: the reader takes the next schedule of read faults; a directory can be opened and
  positioned but not read.\<close>

definition fs_open :: "path \<Rightarrow> fs \<Rightarrow> (io_error + reader) \<times> fs" where
  "fs_open p fs = io_then (fs_call (sys_follow p) fs) (\<lambda>n fs.
     case n of
       FileNode i \<Rightarrow>
         (Inr \<lparr>rd_bytes = dk_data (fs_disk fs) i, rd_pos = 0, rd_faults = (case fs_reads fs of [] \<Rightarrow> [] | r # rs \<Rightarrow> r)\<rparr>,
          fs\<lparr>fs_reads := tl (fs_reads fs)\<rparr>)
     | _ \<Rightarrow> (Inr \<lparr>rd_bytes = [], rd_pos = 0, rd_faults = [None, None, Some (OtherIo ''Is a directory'')]\<rparr>, fs))"

text \<open>The identity of a file, from an open file or from a path. \<open>handle\<close> stands for the handles of the crate
  \<open>same-file\<close>.\<close>

definition fs_handle_from_file :: "(inode \<Rightarrow> 'h) \<Rightarrow> inode \<Rightarrow> fs \<Rightarrow> (io_error + 'h) \<times> fs" where
  "fs_handle_from_file handle i = fs_call (\<lambda>d. Inr (handle i, d))"

definition fs_handle_from_path :: "(inode \<Rightarrow> 'h) \<Rightarrow> path \<Rightarrow> fs \<Rightarrow> (io_error + 'h) \<times> fs" where
  "fs_handle_from_path handle p fs = io_then (fs_call (sys_follow p) fs) (\<lambda>n fs. (Inr (handle (node_inode n)), fs))"

text \<open>Syncing a directory makes its entries durable; it changes no entry.\<close>

definition fs_sync_directory :: "path \<Rightarrow> fs \<Rightarrow> (io_error + unit) \<times> fs" where
  "fs_sync_directory p fs = io_then (fs_call (sys_follow p) fs) (\<lambda>n fs. fs_call (\<lambda>d. Inr ((), d)) fs)"

section \<open>Moments between calls\<close>

definition evolves :: "(disk \<Rightarrow> bool) \<Rightarrow> fs \<Rightarrow> fs \<Rightarrow> bool" where
  "evolves P fs fs' \<longleftrightarrow> (\<exists>ds. fs_trace fs' = fs_trace fs @ ds \<and> fs_disk fs' = last (fs_disk fs # ds) \<and> (\<forall>d \<in> set ds. P d))"

text \<open>An operation that starts in \<open>P\<close> stays in \<open>P\<close> and opens no file.\<close>

definition moves :: "(disk \<Rightarrow> bool) \<Rightarrow> fs \<Rightarrow> fs \<Rightarrow> bool" where
  "moves P fs fs' \<longleftrightarrow> (P (fs_disk fs) \<longrightarrow> evolves P fs fs') \<and> fs_reads fs' = fs_reads fs \<and> fs_process_id fs' = fs_process_id fs"

lemma evolves_refl [simp]: "evolves P fs fs"
  by (simp add: evolves_def)

lemma evolves_trans:
  assumes "evolves P fs fs'" and "evolves P fs' fs''" shows "evolves P fs fs''"
proof -
  obtain ds ds' where "fs_trace fs' = fs_trace fs @ ds" "fs_disk fs' = last (fs_disk fs # ds)" "\<forall>d \<in> set ds. P d"
    "fs_trace fs'' = fs_trace fs' @ ds'" "fs_disk fs'' = last (fs_disk fs' # ds')" "\<forall>d \<in> set ds'. P d"
    using assms by (auto simp: evolves_def)
  then show ?thesis unfolding evolves_def by (intro exI [of _ "ds @ ds'"]) (auto simp: last_append)
qed

lemma evolves_mono: "evolves P fs fs' \<Longrightarrow> (\<And>d. P d \<Longrightarrow> Q d) \<Longrightarrow> evolves Q fs fs'"
  by (auto simp: evolves_def)

lemma evolves_last: "evolves P fs fs' \<Longrightarrow> P (fs_disk fs) \<Longrightarrow> P (fs_disk fs')"
  by (auto simp: evolves_def split: if_splits)

lemma moves_refl [simp]: "moves P fs fs"
  by (simp add: moves_def)

lemma moves_trans: "moves P fs fs' \<Longrightarrow> moves P fs' fs'' \<Longrightarrow> moves P fs fs''"
  unfolding moves_def by (metis evolves_last evolves_trans)

lemma moves_last: "moves P fs fs' \<Longrightarrow> P (fs_disk fs) \<Longrightarrow> P (fs_disk fs')"
  using evolves_last by (auto simp: moves_def)

lemma moves_evolves: "moves P fs fs' \<Longrightarrow> P (fs_disk fs) \<Longrightarrow> evolves P fs fs'"
  by (simp add: moves_def)

text \<open>Fields that are not part of the disk do not matter.\<close>

lemma moves_sequence: "moves P (fs\<lparr>fs_sequence := n\<rparr>) fs' \<longleftrightarrow> moves P fs fs'"
  by (simp add: moves_def evolves_def)

lemma fs_call_cases:
  obtains (fault) e faults where "fs_call f fs = (Inl e, fs\<lparr>fs_faults := faults\<rparr>)" "fs_faults fs \<noteq> []"
  | (refused) e faults where "fs_call f fs = (Inl e, fs\<lparr>fs_faults := faults\<rparr>)" "f (fs_disk fs) = Inl e"
  | (success) x d faults where "fs_call f fs = (Inr x, fs_step d (fs\<lparr>fs_faults := faults\<rparr>))" "f (fs_disk fs) = Inr (x, d)"
proof (cases "\<exists>e n faults. fs_faults fs = Some (e, n) # faults")
  case True
  then show ?thesis using fault by (auto simp: fs_call_def)
next
  case False
  then have *: "fs_call f fs = (case f (fs_disk fs) of Inl e \<Rightarrow> (Inl e, fs\<lparr>fs_faults := tl (fs_faults fs)\<rparr>)
      | Inr (x, d) \<Rightarrow> (Inr x, fs_step d (fs\<lparr>fs_faults := tl (fs_faults fs)\<rparr>)))"
    by (auto simp: fs_call_def Let_def split: list.splits option.splits sum.splits)
  show ?thesis
  proof (cases "f (fs_disk fs)")
    case (Inl e) then show ?thesis using * refused by simp
  next
    case (Inr y) then show ?thesis using * success by (cases y) simp
  qed
qed

lemma fs_step_simps [simp]:
  "fs_disk (fs_step d fs) = d" "fs_trace (fs_step d fs) = fs_trace fs @ [d]" "fs_reads (fs_step d fs) = fs_reads fs"
  "fs_process_id (fs_step d fs) = fs_process_id fs" "fs_faults (fs_step d fs) = fs_faults fs" "fs_sequence (fs_step d fs) = fs_sequence fs"
  by (simp_all add: fs_step_def)

lemma moves_step: "(P (fs_disk fs) \<Longrightarrow> P d) \<Longrightarrow> moves P fs (fs_step d (fs\<lparr>fs_faults := faults\<rparr>))"
  by (auto simp: moves_def evolves_def)

lemma moves_faults [simp]: "moves P fs (fs\<lparr>fs_faults := faults\<rparr>)"
  by (simp add: moves_def evolves_def)

lemma fs_call_moves:
  assumes "fs_call f fs = (r, fs')" and "\<And>x d. P (fs_disk fs) \<Longrightarrow> f (fs_disk fs) = Inr (x, d) \<Longrightarrow> P d"
  shows "moves P fs fs'"
  using assms by (cases rule: fs_call_cases [of f fs]) (auto intro: moves_step)

lemma fs_call_Inr: "fs_call f fs = (Inr x, fs') \<Longrightarrow> f (fs_disk fs) = Inr (x, fs_disk fs')"
  by (cases rule: fs_call_cases [of f fs]) auto

text \<open>Calls that only look.\<close>

lemma fs_call_read:
  assumes "fs_call f fs = (r, fs')" and "\<And>x d. f (fs_disk fs) = Inr (x, d) \<Longrightarrow> d = fs_disk fs"
  shows "moves P fs fs' \<and> fs_disk fs' = fs_disk fs"
proof -
  have same: "moves Q fs fs'" for Q using fs_call_moves [OF assms(1), of Q] assms(2) by blast
  show ?thesis using same [of P] moves_last [OF same [of "\<lambda>d. d = fs_disk fs"]] by simp
qed

lemma sys_follow_same: "sys_follow p d = Inr (n, d') \<Longrightarrow> d' = d"
  by (auto simp: sys_follow_def split: sum.splits)

lemma fs_symlink_metadata_reads: "fs_symlink_metadata p fs = (r, fs') \<Longrightarrow> moves P fs fs' \<and> fs_disk fs' = fs_disk fs"
  unfolding fs_symlink_metadata_def
  by (erule fs_call_read) (auto simp: sys_symlink_metadata_def split: option.splits if_splits)

lemma fs_handle_from_path_reads: "fs_handle_from_path handle p fs = (r, fs') \<Longrightarrow> moves P fs fs' \<and> fs_disk fs' = fs_disk fs"
  unfolding fs_handle_from_path_def io_then_def
  by (auto split: prod.splits sum.splits dest!: fs_call_read [where P = P] dest: sys_follow_same)

lemma fs_handle_from_file_reads: "fs_handle_from_file handle i fs = (r, fs') \<Longrightarrow> moves P fs fs' \<and> fs_disk fs' = fs_disk fs"
  unfolding fs_handle_from_file_def by (erule fs_call_read) simp

lemma fs_sync_directory_reads: "fs_sync_directory p fs = (r, fs') \<Longrightarrow> moves P fs fs' \<and> fs_disk fs' = fs_disk fs"
proof -
  assume *: "fs_sync_directory p fs = (r, fs')"
  obtain r1 fs1 where one: "fs_call (sys_follow p) fs = (r1, fs1)" by fastforce
  have first: "moves P fs fs1 \<and> fs_disk fs1 = fs_disk fs" using fs_call_read [OF one] sys_follow_same by blast
  show ?thesis
  proof (cases r1)
    case (Inl e) then show ?thesis using * one first by (simp add: fs_sync_directory_def io_then_def)
  next
    case (Inr n)
    then have "fs_call (\<lambda>d. Inr ((), d)) fs1 = (r, fs')" using * one by (simp add: fs_sync_directory_def io_then_def)
    then have "moves P fs1 fs' \<and> fs_disk fs' = fs_disk fs1" by (rule fs_call_read) simp
    then show ?thesis using first moves_trans by metis
  qed
qed

section \<open>What existed before is unchanged\<close>

definition node_ok :: "inode \<Rightarrow> node \<Rightarrow> bool" where
  "node_ok n x = (case x of FileNode i \<Rightarrow> 0 < i \<and> i < n | DirNode i \<Rightarrow> 0 < i \<and> i < n | LinkNode p \<Rightarrow> True)"

definition disk_wf :: "disk \<Rightarrow> bool" where
  "disk_wf d \<longleftrightarrow> 0 < dk_next d \<and> dk_entries d [] = None \<and> (\<forall>p x. dk_entries d p = Some x \<longrightarrow> node_ok (dk_next d) x)"

text \<open>The entry of \<open>t\<close> and everything else that exists on \<open>d0\<close> is the same on \<open>d\<close>.\<close>

definition keeps :: "path \<Rightarrow> disk \<Rightarrow> disk \<Rightarrow> bool" where
  "keeps t d0 d \<longleftrightarrow> disk_wf d \<and> dk_next d0 \<le> dk_next d \<and> dk_entries d t = dk_entries d0 t
     \<and> (\<forall>p x. dk_entries d0 p = Some x \<longrightarrow> dk_entries d p = Some x)
     \<and> (\<forall>i < dk_next d0. dk_data d i = dk_data d0 i \<and> dk_synced d i = dk_synced d0 i)"

lemma keeps_refl: "disk_wf d \<Longrightarrow> keeps t d d"
  by (simp add: keeps_def)

lemma keeps_wf: "keeps t d0 d \<Longrightarrow> disk_wf d"
  by (simp add: keeps_def)

lemma node_ok_mono: "node_ok n x \<Longrightarrow> n \<le> m \<Longrightarrow> node_ok m x"
  by (auto simp: node_ok_def split: node.splits)

lemma disk_wf_insert:
  assumes "disk_wf d" and "p \<noteq> []" and "dk_entries d' = (dk_entries d)(p \<mapsto> x)" and "node_ok (dk_next d') x" and "dk_next d \<le> dk_next d'"
  shows "disk_wf d'"
  using assms node_ok_mono [OF _ assms(5)] by (auto simp: disk_wf_def)

lemma keeps_create_new:
  assumes "keeps t d0 d" and "sys_create_new p d = Inr (i, d')" and "resolve p \<noteq> t" and "resolve p \<noteq> []"
  shows "keeps t d0 d'" "i = dk_next d" "dk_entries d' (resolve p) = Some (FileNode i)" "dk_entries d (resolve p) = None"
    "dk_next d0 \<le> i" "i < dk_next d'" "dk_data d' i = []"
proof -
  have d': "i = dk_next d" "dk_entries d (resolve p) = None"
    "d' = d\<lparr>dk_entries := (dk_entries d)(resolve p \<mapsto> FileNode i), dk_data := (dk_data d)(i := []),
                        dk_synced := (dk_synced d)(i := False), dk_next := i + 1\<rparr>"
    using assms(2) by (auto simp: sys_create_new_def Let_def split: if_splits)
  have "0 < dk_next d" using keeps_wf [OF assms(1)] by (simp add: disk_wf_def)
  then have "disk_wf d'" by (intro disk_wf_insert [OF keeps_wf [OF assms(1)] assms(4), of d' "FileNode i"]) (simp_all add: d' node_ok_def)
  then show "keeps t d0 d'" using assms(1,3) d'(2) by (auto simp: keeps_def d'(1,3))
  show "i = dk_next d" "dk_entries d' (resolve p) = Some (FileNode i)" "dk_entries d (resolve p) = None"
    "dk_next d0 \<le> i" "i < dk_next d'" "dk_data d' i = []"
    using assms(1) d' by (simp_all add: keeps_def)
qed

lemma keeps_append: "keeps t d0 d \<Longrightarrow> dk_next d0 \<le> i \<Longrightarrow> keeps t d0 (append_data i bs d)"
  by (auto simp: keeps_def append_data_def disk_wf_def)

lemma keeps_sync: "keeps t d0 d \<Longrightarrow> dk_next d0 \<le> i \<Longrightarrow> sys_sync i d = Inr (x, d') \<Longrightarrow> keeps t d0 d'"
  by (auto simp: keeps_def sys_sync_def disk_wf_def)

lemma keeps_remove:
  "keeps t d0 d \<Longrightarrow> dk_entries d0 (resolve p) = None \<Longrightarrow> resolve p \<noteq> t \<Longrightarrow> sys_remove_file p d = Inr (x, d') \<Longrightarrow> keeps t d0 d'"
  by (auto simp: keeps_def sys_remove_file_def Let_def disk_wf_def split: if_splits)

lemma keeps_make_dirs:
  "make_dirs ps d = Inr (x, d') \<Longrightarrow> keeps t d0 d \<Longrightarrow> t \<notin> set ps \<Longrightarrow> [] \<notin> set ps \<Longrightarrow> keeps t d0 d'"
proof (induction ps arbitrary: d)
  case (Cons p ps)
  have "keeps t d0 (d\<lparr>dk_entries := (dk_entries d)(p \<mapsto> DirNode (dk_next d)), dk_next := dk_next d + 1\<rparr>)" if "dk_entries d p = None"
  proof -
    have wf: "disk_wf d" "p \<noteq> []" "0 < dk_next d" using keeps_wf [OF Cons.prems(2)] Cons.prems(4) by (auto simp: disk_wf_def)
    have "disk_wf (d\<lparr>dk_entries := (dk_entries d)(p \<mapsto> DirNode (dk_next d)), dk_next := dk_next d + 1\<rparr>)"
      by (rule disk_wf_insert [OF wf(1,2), of _ "DirNode (dk_next d)"]) (use wf(3) in \<open>simp_all add: node_ok_def\<close>)
    then show ?thesis using Cons.prems(2,3) that by (auto simp: keeps_def)
  qed
  then show ?case using Cons by (auto split: option.splits node.splits)
qed simp

lemma keeps_create_dir_all:
  assumes "sys_create_dir_all p d = Inr (x, d')" and "keeps t d0 d" and "length (resolve p) < length t"
  shows "keeps t d0 d'"
  using assms(1) unfolding sys_create_dir_all_def
  by (rule keeps_make_dirs [OF _ assms(2)]) (use assms(3) in \<open>auto dest: arg_cong [where f = length]\<close>)

section \<open>Calls that keep\<close>

lemma fs_remove_file_keeps:
  assumes "fs_remove_file p fs = (r, fs')" and "dk_entries d0 (resolve p) = None" and "resolve p \<noteq> t"
  shows "moves (keeps t d0) fs fs'"
  using assms(1) unfolding fs_remove_file_def by (rule fs_call_moves) (use keeps_remove assms(2,3) in blast)

lemma fs_create_dir_all_keeps:
  assumes "fs_create_dir_all p fs = (r, fs')" and "length (resolve p) < length t"
  shows "moves (keeps t d0) fs fs'"
  using assms(1) unfolding fs_create_dir_all_def by (rule fs_call_moves) (use keeps_create_dir_all assms(2) in blast)

lemma fs_write_all_cases:
  obtains e n faults where "fs_write_all i bs fs = (Inl e, fs_step (append_data i (take n bs) (fs_disk fs)) (fs\<lparr>fs_faults := faults\<rparr>))" "fs_faults fs \<noteq> []"
  | faults where "fs_write_all i bs fs = (Inr (), fs_step (append_data i bs (fs_disk fs)) (fs\<lparr>fs_faults := faults\<rparr>))"
proof (cases "\<exists>e n faults. fs_faults fs = Some (e, n) # faults")
  case True
  then show ?thesis using that(1) by (auto simp: fs_write_all_def)
next
  case False
  then have "fs_write_all i bs fs = (Inr (), fs_step (append_data i bs (fs_disk fs)) (fs\<lparr>fs_faults := tl (fs_faults fs)\<rparr>))"
    by (auto simp: fs_write_all_def split: list.splits option.splits)
  then show ?thesis by (rule that(2))
qed

lemma fs_write_all_keeps:
  assumes "fs_write_all i bs fs = (r, fs')" and "dk_next d0 \<le> i"
  shows "moves (keeps t d0) fs fs'"
proof (cases rule: fs_write_all_cases [of i bs fs])
  case (1 e n faults)
  with assms show ?thesis by (auto intro!: moves_step keeps_append)
next
  case (2 faults)
  with assms show ?thesis by (auto intro!: moves_step keeps_append)
qed

lemma fs_sync_all_keeps:
  assumes "fs_sync_all i fs = (r, fs')" and "dk_next d0 \<le> i"
  shows "moves (keeps t d0) fs fs'"
  using assms(1) unfolding fs_sync_all_def by (rule fs_call_moves) (use keeps_sync assms(2) in blast)

lemma fs_create_new_keeps:
  assumes "fs_create_new p fs = (r, fs')" and "resolve p \<noteq> t" and "resolve p \<noteq> []"
  shows "moves (keeps t d0) fs fs'"
  using assms(1) unfolding fs_create_new_def by (rule fs_call_moves) (use keeps_create_new assms(2,3) in blast)

section \<open>Durable bytes\<close>

text \<open>The bytes of a file that survive a crash: those of a synced file.\<close>

definition durable :: "path \<Rightarrow> disk \<Rightarrow> bytes option" where
  "durable p d = (case dk_entries d (resolve p) of
     Some (FileNode i) \<Rightarrow> if dk_synced d i then Some (dk_data d i) else None
   | _ \<Rightarrow> None)"

lemma durable_keeps:
  assumes "keeps (resolve p) d0 d" and "disk_wf d0"
  shows "durable p d = durable p d0"
proof (cases "dk_entries d0 (resolve p)")
  case (Some x)
  then have "node_ok (dk_next d0) x" using assms(2) by (auto simp: disk_wf_def)
  with Some assms(1) show ?thesis by (auto simp: durable_def keeps_def node_ok_def split: node.splits)
qed (use assms in \<open>simp add: durable_def keeps_def\<close>)

lemma resolve_append [simp]: "resolve (p @ q) = resolve p @ resolve q"
  by (simp add: resolve_def)

lemma resolve_target:
  assumes "file_name p = Some name"
  shows "resolve p = resolve (butlast p) @ [name]"
proof -
  have "p \<noteq> []" "last p = name" "name \<noteq> ''.''" using assms by (auto simp: file_name_def split: if_splits)
  then have "resolve p = resolve (butlast p @ [name])" by (metis append_butlast_last_id)
  then show ?thesis using \<open>name \<noteq> ''.''\<close> by (simp add: resolve_def)
qed

lemma resolve_parent_dir: "resolve (parent_dir p) = resolve (butlast p)"
  by (simp add: parent_dir_def resolve_def)

lemma resolve_beside:
  assumes "file_name p = Some name" and "other \<noteq> name" and "other \<noteq> ''.''"
  shows "resolve (parent_dir p @ [other]) \<noteq> resolve p" "resolve (parent_dir p @ [other]) \<noteq> []"
    "resolve (parent_dir p @ [other]) = resolve (butlast p) @ [other]"
  using assms resolve_target [OF assms(1)] by (simp_all add: resolve_parent_dir) (simp_all add: resolve_def)

end
