(* ===== verification/Pari_Store.thy ===== *)
theory Pari_Store
  imports Pari_Faults Pari_Planner
begin

text \<open>
  Crate \<open>pari-store\<close>, the open index (\<open>crates/pari-store/src/lib.rs\<close>): insertions and removals collect in
  an overlay of bucket tables over the committed base, whose replaced keys are suppressed, and
  queries read the buckets of the base from the file and merge them with the overlay. The
  operations of the macro \<open>impl_persistent_index\<close> take the band hash as an argument, as the macro does.
  A query returns the handle with the file position it leaves; when a read fails the position is not
  tracked, because every read seeks first. Elapsed times are arguments.

  The handle refines a map from keys to band hashes: it has the contract \<open>candidate_index\<close> of the
  in-memory index, so that both answer every query alike.
\<close>

unbundle bit_operations_syntax

section \<open>Overlay\<close>

definition remove_overlay_table :: "u64 \<Rightarrow> u64 \<Rightarrow> (u64, u64 list) hashmap \<Rightarrow> (u64, u64 list) hashmap" where
  "remove_overlay_table key hash table =
     (case hm_get table hash of
        Some keys \<Rightarrow> (let keys = filter (\<lambda>candidate. candidate \<noteq> key) keys
                     in if keys = [] then hm_remove hash table else hm_insert hash keys table)
      | None \<Rightarrow> table)"

definition remove_overlay_key :: "u64 \<Rightarrow> u64 list \<Rightarrow> (u64, u64 list) hashmap list \<Rightarrow> (u64, u64 list) hashmap list" where
  "remove_overlay_key key hashes tables = zip_update (remove_overlay_table key) hashes tables"

definition collect_overlay_candidates :: "(u64, u64 list) hashmap list \<Rightarrow> u64 list \<Rightarrow> u64 list \<Rightarrow> u64 list" where
  "collect_overlay_candidates tables hashes output =
     fold (\<lambda>(table, hash) output. case hm_get table hash of None \<Rightarrow> output | Some keys \<Rightarrow> hs_extend keys output)
       (zip tables hashes) output"

definition insert_overlay :: "u64 \<Rightarrow> u64 list \<Rightarrow> store \<Rightarrow> store" where
  "insert_overlay key hashes s =
     s\<lparr>so_overlay_buckets := add_overlay_key key hashes (so_overlay_buckets s),
       so_overlay_keys := List.insert key (so_overlay_keys s),
       so_key_hashes := bt_insert key hashes (so_key_hashes s)\<rparr>"

fun check_prepared :: "(u64, u64 list) btreemap \<Rightarrow> (u64 \<times> u64 list) list \<Rightarrow> u64 list \<Rightarrow> (u64 list, store_error) result" where
  "check_prepared key_hashes [] batch_keys = Ok batch_keys"
| "check_prepared key_hashes ((key, hashes) # prepared) batch_keys =
     (if map_of key_hashes key \<noteq> None \<or> key \<in> set batch_keys then Err (StoreDuplicateKey key)
      else check_prepared key_hashes prepared (List.insert key batch_keys))"

definition insert_hashes_many :: "(u64 \<times> u64 list) list \<Rightarrow> store \<Rightarrow> (store, store_error) result" where
  "insert_hashes_many prepared s =
     and_then (check_prepared (so_key_hashes s) prepared []) (\<lambda>batch_keys.
     let s = fold (\<lambda>(key, hashes). insert_overlay key hashes) prepared s
     in Ok (if batch_keys \<noteq> [] then s\<lparr>so_dirty := True\<rparr> else s))"

definition store_remove :: "u64 \<Rightarrow> store \<Rightarrow> bool \<times> store" where
  "store_remove key s =
     (case map_of (so_key_hashes s) key of
        None \<Rightarrow> (False, s)
      | Some hashes \<Rightarrow>
          let was_overlay = key \<in> set (so_overlay_keys s);
              s = s\<lparr>so_key_hashes := bt_remove key (so_key_hashes s),
                    so_overlay_keys := removeAll key (so_overlay_keys s),
                    so_overlay_buckets := remove_overlay_key key hashes (so_overlay_buckets s)\<rparr>;
              s = (if so_base s \<noteq> None \<and> \<not> was_overlay
                   then s\<lparr>so_suppressed_base_keys := List.insert key (so_suppressed_base_keys s)\<rparr> else s)
          in (True, s\<lparr>so_dirty := True\<rparr>))"

section \<open>Queries\<close>

text \<open>\<open>slice::binary_search_by_key\<close>.\<close>

function bisect :: "('a \<Rightarrow> 'k::linorder) \<Rightarrow> 'k \<Rightarrow> 'a list \<Rightarrow> nat \<Rightarrow> nat \<Rightarrow> nat option" where
  "bisect f key xs low high =
     (if low < high
      then let mid = low + (high - low) div 2
           in if f (xs ! mid) = key then Some mid
              else if f (xs ! mid) < key then bisect f key xs (mid + 1) high
              else bisect f key xs low mid
      else None)"
  by auto
termination by (relation "measure (\<lambda>(f, key, xs, low, high). high - low)") auto

declare bisect.simps [simp del]

definition binary_search_by_key :: "('a \<Rightarrow> 'k::linorder) \<Rightarrow> 'k \<Rightarrow> 'a list \<Rightarrow> nat option" where
  "binary_search_by_key f key xs = bisect f key xs 0 (length xs)"

definition probe_band :: "(bytes \<Rightarrow> u32) \<Rightarrow> lazy_base \<Rightarrow> (u64, u64 list) btreemap \<Rightarrow> u64 list \<Rightarrow> nat \<times> u64
    \<Rightarrow> u64 list \<times> reader \<Rightarrow> (u64 list \<times> reader, store_error) result" where
  "probe_band crc base live_keys suppressed probe state =
     (let (band, hash) = probe; (output, file) = state
      in and_then (ok_or StoreLengthOverflow (u32_try_from band)) (\<lambda>band.
         case binary_search_by_key bl_key (BucketKey band hash) (lb_buckets base) of
           None \<Rightarrow> Ok (output, file)
         | Some index \<Rightarrow>
             and_then (map_err StoreBucket (read_bucket_members crc (lb_layout base) (lb_buckets base ! index) file)) (\<lambda>(members, file).
             Ok (hs_extend (filter (\<lambda>member. map_of live_keys member \<noteq> None \<and> member \<notin> set suppressed) members) output, file))))"

definition base_collect_candidates :: "(bytes \<Rightarrow> u32) \<Rightarrow> u64 list \<Rightarrow> (u64, u64 list) btreemap \<Rightarrow> u64 list \<Rightarrow> u64 list \<Rightarrow> lazy_base
    \<Rightarrow> (u64 list \<times> lazy_base, store_error) result" where
  "base_collect_candidates crc hashes live_keys suppressed output base =
     (if lb_poisoned base then Err PoisonedFileLock
      else and_then (fold_result (probe_band crc base live_keys suppressed) (List.enumerate 0 hashes) (output, lb_file base))
             (\<lambda>(output, file). Ok (output, base\<lparr>lb_file := file\<rparr>)))"

definition store_collect_candidates :: "(bytes \<Rightarrow> u32) \<Rightarrow> u64 list \<Rightarrow> u64 list \<Rightarrow> store \<Rightarrow> (u64 list \<times> store, store_error) result" where
  "store_collect_candidates crc hashes output s =
     and_then
       (case so_base s of
          Some base \<Rightarrow>
            and_then (base_collect_candidates crc hashes (so_key_hashes s) (so_suppressed_base_keys s) output base) (\<lambda>(output, base).
            Ok (output, s\<lparr>so_base := Some base\<rparr>))
        | None \<Rightarrow> Ok (output, s)) (\<lambda>(output, s).
     let output = collect_overlay_candidates (so_overlay_buckets s) hashes output
     in Ok (filter (\<lambda>key. map_of (so_key_hashes s) key \<noteq> None) output, s))"

text \<open>The time of an observed query is present when observation was on at its start.\<close>

definition store_len :: "store \<Rightarrow> usize" where
  "store_len s = length (so_key_hashes s)"

definition record_query_metrics :: "usize \<Rightarrow> usize \<Rightarrow> usize \<Rightarrow> nat option \<Rightarrow> store \<Rightarrow> store" where
  "record_query_metrics qs cands possible started s =
     (case (so_query_metrics s, started) of
        (Some metrics, Some elapsed) \<Rightarrow> s\<lparr>so_query_metrics := Some (query_metrics_record qs cands possible elapsed metrics)\<rparr>
      | _ \<Rightarrow> s)"

definition query_hashes :: "(bytes \<Rightarrow> u32) \<Rightarrow> u64 list \<Rightarrow> nat option \<Rightarrow> store \<Rightarrow> (u64 list \<times> store, store_error) result" where
  "query_hashes crc hashes started s =
     and_then (store_collect_candidates crc hashes [] s) (\<lambda>(candidates, s).
     let keys = sort candidates
     in Ok (keys, record_query_metrics 1 (length keys) (store_len s) started s))"

definition query_hashes_step :: "(bytes \<Rightarrow> u32) \<Rightarrow> u64 list \<Rightarrow> u64 list list \<times> usize \<times> store
    \<Rightarrow> (u64 list list \<times> usize \<times> store, store_error) result" where
  "query_hashes_step crc hashes state =
     (let (output, candidate_count, s) = state
      in and_then (store_collect_candidates crc hashes [] s) (\<lambda>(candidates, s).
         let keys = sort candidates
         in Ok (output @ [keys], saturating_add_usize candidate_count (length keys), s)))"

definition query_hashes_many :: "(bytes \<Rightarrow> u32) \<Rightarrow> u64 list list \<Rightarrow> nat option \<Rightarrow> store \<Rightarrow> (u64 list list \<times> store, store_error) result" where
  "query_hashes_many crc hashes_by_query started s =
     and_then (fold_result (query_hashes_step crc) hashes_by_query ([], 0, s)) (\<lambda>(output, candidate_count, s).
     Ok (output, record_query_metrics (length output) candidate_count
                   (saturating_mul_usize (length output) (store_len s)) started s))"

section \<open>Statistics\<close>

record store_stats =
  ss_items :: usize
  ss_file_bytes :: u64
  ss_dirty :: bool
  ss_bands :: usize
  ss_rows :: usize
  ss_committed_buckets :: usize
  ss_overlay_buckets :: usize
  ss_suppressed_base_keys :: usize
  ss_committed_distribution :: bucket_distribution
  ss_overlay_distribution :: bucket_distribution
  ss_queries :: "query_metrics option"

text \<open>\<open>metadata\<close> is the outcome of \<open>fs::metadata\<close> on the path of the index.\<close>

definition persistent_stats :: "(u64, io_error) result \<Rightarrow> store \<Rightarrow> (store_stats, store_error) result" where
  "persistent_stats metadata s =
     and_then (case metadata of Err IoNotFound \<Rightarrow> Ok 0 | _ \<Rightarrow> map_err StoreIo metadata) (\<lambda>file_bytes.
     and_then (from_sizes (case so_base s of None \<Rightarrow> [] | Some base \<Rightarrow> map (\<lambda>bucket. unat (bl_member_count bucket)) (lb_buckets base))) (\<lambda>committed.
     and_then (from_sizes (concat (map (map (length \<circ> snd)) (so_overlay_buckets s)))) (\<lambda>overlay.
     Ok \<lparr>ss_items = store_len s, ss_file_bytes = file_bytes, ss_dirty = so_dirty s, ss_bands = p_bands (so_params s),
         ss_rows = p_rows (so_params s),
         ss_committed_buckets = (case so_base s of None \<Rightarrow> 0 | Some base \<Rightarrow> length (lb_buckets base)),
         ss_overlay_buckets = sum_list (map length (so_overlay_buckets s)),
         ss_suppressed_base_keys = length (so_suppressed_base_keys s),
         ss_committed_distribution = committed, ss_overlay_distribution = overlay, ss_queries = so_query_metrics s\<rparr>)))"

definition store_explain :: "(f64 \<Rightarrow> f64 \<Rightarrow> f64) \<Rightarrow> store \<Rightarrow> (lsh_plan, lsh_plan_error) result" where
  "store_explain pow s =
     (let options = (lsh_plan_options_new (u64_or_max (store_len s)) (so_threshold s) (so_num_perm s))\<lparr>o_storage_mode := ModePersistent\<rparr>
      in case so_scheme s of
           PariAffine32V1 \<Rightarrow> explain_lsh pow options (so_params s)
         | PariAffine64V1 \<Rightarrow> explain_lsh64 pow options (so_params s))"

definition store_set_observability :: "bool \<Rightarrow> store \<Rightarrow> store" where
  "store_set_observability enabled s = s\<lparr>so_query_metrics := if enabled then Some query_metrics_default else None\<rparr>"

section \<open>PersistentIndex32 and PersistentIndex64\<close>

definition store_avalanche64 :: "u64 \<Rightarrow> u64" where
  "store_avalanche64 value =
     (let value = value XOR drop_bit 33 value;
          value = value * 0xFF51AFD7ED558CCD;
          value = value XOR drop_bit 33 value;
          value = value * 0xC4CEB9FE1A85EC53
      in value XOR drop_bit 33 value)"

definition store_hash_band32 :: "u32 list \<Rightarrow> u64" where
  "store_hash_band32 values =
     (let hash = fold (\<lambda>value hash. (hash XOR ucast value) * 0x00000100000001B3) values 0xCBF29CE484222325
      in store_avalanche64 (hash XOR u64_or_max (length values)))"

definition store_hash_band64 :: "u64 list \<Rightarrow> u64" where
  "store_hash_band64 values =
     (let hash = fold (\<lambda>value hash. (hash XOR value) * 0x00000100000001B3) values 0xCBF29CE484222325
      in store_avalanche64 (hash XOR u64_or_max (length values)))"

definition store_band_hashes :: "('v list \<Rightarrow> u64) \<Rightarrow> 'v minhash \<Rightarrow> store \<Rightarrow> (u64 list, store_error) result" where
  "store_band_hashes hash_band sketch s =
     (if mh_seed sketch \<noteq> so_seed s then Err (StoreIncompatibleSeed (so_seed s) (mh_seed sketch))
      else if length (hashvalues sketch) \<noteq> so_num_perm s
      then Err (StoreIncompatiblePermutationCount (so_num_perm s) (length (hashvalues sketch)))
      else and_then (ok_or StoreLengthOverflow (used_permutations (so_params s))) (\<lambda>used.
           and_then (expect (slice_get (hashvalues sketch) 0 used)) (\<lambda>prefix.
           Ok (map hash_band (chunks_exact (p_rows (so_params s)) prefix)))))"

definition store_insert_many :: "('v list \<Rightarrow> u64) \<Rightarrow> (u64 \<times> 'v minhash) list \<Rightarrow> store \<Rightarrow> (store, store_error) result" where
  "store_insert_many hash_band items s =
     and_then (try_map (\<lambda>(key, sketch). and_then (store_band_hashes hash_band sketch s) (\<lambda>hashes. Ok (key, hashes))) items) (\<lambda>prepared.
     insert_hashes_many prepared s)"

definition store_insert :: "('v list \<Rightarrow> u64) \<Rightarrow> u64 \<Rightarrow> 'v minhash \<Rightarrow> store \<Rightarrow> (store, store_error) result" where
  "store_insert hash_band key sketch s = store_insert_many hash_band [(key, sketch)] s"

definition store_query :: "(bytes \<Rightarrow> u32) \<Rightarrow> ('v list \<Rightarrow> u64) \<Rightarrow> 'v minhash \<Rightarrow> nat \<Rightarrow> store \<Rightarrow> (u64 list \<times> store, store_error) result" where
  "store_query crc hash_band sketch elapsed s =
     (let started = map_option (\<lambda>_. elapsed) (so_query_metrics s)
      in and_then (store_band_hashes hash_band sketch s) (\<lambda>hashes. query_hashes crc hashes started s))"

definition store_query_many :: "(bytes \<Rightarrow> u32) \<Rightarrow> ('v list \<Rightarrow> u64) \<Rightarrow> 'v minhash list \<Rightarrow> nat \<Rightarrow> store
    \<Rightarrow> (u64 list list \<times> store, store_error) result" where
  "store_query_many crc hash_band sketches elapsed s =
     (let started = map_option (\<lambda>_. elapsed) (so_query_metrics s)
      in and_then (try_map (\<lambda>sketch. store_band_hashes hash_band sketch s) sketches) (\<lambda>hashes.
         query_hashes_many crc hashes started s))"

definition store_contains :: "u64 \<Rightarrow> store \<Rightarrow> bool" where
  "store_contains key s \<longleftrightarrow> map_of (so_key_hashes s) key \<noteq> None"

definition store_is_empty :: "store \<Rightarrow> bool" where
  "store_is_empty s \<longleftrightarrow> so_key_hashes s = []"

text \<open>The two instances of the macro.\<close>

definition PersistentIndex32_insert_many :: "(u64 \<times> minhash32) list \<Rightarrow> store \<Rightarrow> (store, store_error) result" where
  "PersistentIndex32_insert_many = store_insert_many store_hash_band32"

definition PersistentIndex64_insert_many :: "(u64 \<times> minhash64) list \<Rightarrow> store \<Rightarrow> (store, store_error) result" where
  "PersistentIndex64_insert_many = store_insert_many store_hash_band64"

definition PersistentIndex32_query :: "(bytes \<Rightarrow> u32) \<Rightarrow> minhash32 \<Rightarrow> nat \<Rightarrow> store \<Rightarrow> (u64 list \<times> store, store_error) result" where
  "PersistentIndex32_query crc = store_query crc store_hash_band32"

definition PersistentIndex64_query :: "(bytes \<Rightarrow> u32) \<Rightarrow> minhash64 \<Rightarrow> nat \<Rightarrow> store \<Rightarrow> (u64 list \<times> store, store_error) result" where
  "PersistentIndex64_query crc = store_query crc store_hash_band64"

section \<open>Binary search\<close>

lemma bisect_Some: "bisect f key xs low high = Some i \<Longrightarrow> low \<le> i \<and> i < high \<and> f (xs ! i) = key"
proof (induction f key xs low high rule: bisect.induct)
  case (1 f key xs low high)
  from 1(3) show ?case
    by (subst (asm) bisect.simps) (use 1(1,2) in \<open>fastforce simp: Let_def split: if_splits\<close>)
qed

lemma bisect_None:
  assumes "bisect f key xs low high = None" and "sorted_wrt (<) (map f xs)" and "high \<le> length xs" and "low \<le> i" "i < high"
  shows "f (xs ! i) \<noteq> key"
  using assms
proof (induction f key xs low high rule: bisect.induct)
  case (1 f key xs low high)
  define mid where "mid = low + (high - low) div 2"
  have mid: "low \<le> mid" "mid < high" using 1(6,7) by (auto simp: mid_def)
  have less: "f (xs ! a) < f (xs ! b)" if "a < b" "b < length xs" for a b
    using 1(4) that by (simp add: sorted_wrt_iff_nth_less)
  from 1(3) mid have neq: "f (xs ! mid) \<noteq> key"
    by (subst (asm) bisect.simps) (auto simp: Let_def mid_def [symmetric] split: if_splits)
  consider "i = mid" | "i < mid" | "mid < i" by linarith
  then show ?case
  proof cases
    case 2
    show ?thesis
    proof (cases "f (xs ! mid) < key")
      case True then show ?thesis using less [OF 2] mid 1(5) by auto
    next
      case False
      have "bisect f key xs low mid = None"
        using 1(3) mid neq False by (subst (asm) bisect.simps) (simp add: Let_def mid_def [symmetric])
      with 1(2) [OF _ mid_def] mid neq False 1(4,5,6) 2 show ?thesis by auto
    qed
  next
    case 3
    show ?thesis
    proof (cases "f (xs ! mid) < key")
      case False then show ?thesis using less [OF 3] neq 1(5,7) by auto
    next
      case True
      have "bisect f key xs (mid + 1) high = None"
        using 1(3) mid neq True by (subst (asm) bisect.simps) (simp add: Let_def mid_def [symmetric])
      with 1(1) [OF _ mid_def] mid neq True 1(4,5,7) 3 show ?thesis by auto
    qed
  qed (use neq in simp)
qed

lemma binary_search_cases:
  assumes "sorted_wrt (<) (map f xs)"
  obtains i where "binary_search_by_key f key xs = Some i" "i < length xs" "f (xs ! i) = key"
  | "binary_search_by_key f key xs = None" "key \<notin> f ` set xs"
proof (cases "binary_search_by_key f key xs")
  case None
  then have "key \<notin> f ` set xs"
    using bisect_None [OF _ assms order_refl le0, of key] by (auto simp: binary_search_by_key_def in_set_conv_nth simp del: not_None_eq) metis
  with None show ?thesis by (rule that(2))
next
  case (Some i)
  then show ?thesis using bisect_Some that(1) by (fastforce simp: binary_search_by_key_def)
qed

section \<open>Reading the base\<close>

definition healthy_base :: "lazy_base \<Rightarrow> bool" where
  "healthy_base base \<longleftrightarrow> \<not> lb_poisoned base \<and> rd_faults (lb_file base) = []"

lemma base_read:
  assumes "base_represents crc base m" and "l \<in> set (lb_buckets base)" and "rd_bytes r = rd_bytes (lb_file base)" "rd_faults r = []"
  shows "\<exists>ms r'. read_bucket_members crc (lb_layout base) l r = Ok (ms, r') \<and> set ms = bucket_of m (bl_key l)"
  using assms unfolding base_represents_def by blast

lemma probe_band_law:
  assumes base: "base_represents crc base m" and rdr: "rd_bytes r = rd_bytes (lb_file base)" "rd_faults r = []" and band: "band < 4294967296"
  shows "\<exists>out' r'. probe_band crc base live hidden (band, hash) (out, r) = Ok (out', r')
    \<and> rd_bytes r' = rd_bytes (lb_file base) \<and> rd_faults r' = []
    \<and> set out' = set out \<union> {k \<in> bucket_of m (BucketKey (of_nat band) hash). map_of live k \<noteq> None \<and> k \<notin> set hidden}
    \<and> (distinct out \<longrightarrow> distinct out')"
proof -
  let ?b = "BucketKey (of_nat band) hash"
  have sorted: "sorted_wrt (<) (map bl_key (lb_buckets base))" using base by (simp add: base_represents_def)
  have band': "u32_try_from band = Some (of_nat band)" using band by (simp add: u32_try_from_def)
  show ?thesis
  proof (cases rule: binary_search_cases [OF sorted, of ?b])
    case (1 i)
    let ?l = "lb_buckets base ! i"
    have "?l \<in> set (lb_buckets base)" using 1(2) by simp
    then obtain ms r' where read: "read_bucket_members crc (lb_layout base) ?l r = Ok (ms, r')" "set ms = bucket_of m ?b"
      using base_read [OF base _ rdr] 1(3) by metis
    then show ?thesis using 1(1) band' rdr read_bucket_members_same [OF read(1)] by (auto simp: probe_band_def same_file_def)
  next
    case 2
    have "bucket_of m ?b = {}" using 2(2) base by (simp add: base_represents_def)
    then show ?thesis using 2(1) band' rdr by (simp add: probe_band_def)
  qed
qed

lemma probe_bands:
  assumes base: "base_represents crc base m" and rdr: "rd_bytes r = rd_bytes (lb_file base)" "rd_faults r = []"
    and bands: "\<forall>(band, hash) \<in> set probes. band < 4294967296"
  shows "\<exists>out' r'. fold_result (probe_band crc base live hidden) probes (out, r) = Ok (out', r')
    \<and> rd_bytes r' = rd_bytes (lb_file base) \<and> rd_faults r' = []
    \<and> set out' = set out \<union> {k. \<exists>b \<in> (\<lambda>(band, hash). BucketKey (of_nat band) hash) ` set probes.
         k \<in> bucket_of m b \<and> map_of live k \<noteq> None \<and> k \<notin> set hidden}
    \<and> (distinct out \<longrightarrow> distinct out')"
  using rdr bands
proof (induction probes arbitrary: r out)
  case (Cons p probes)
  obtain band hash where p: "p = (band, hash)" by (cases p)
  have "band < 4294967296" using Cons.prems(3) by (simp add: p)
  from probe_band_law [OF base Cons.prems(1,2) this, of live hidden hash out] obtain out1 r1 where
    step: "probe_band crc base live hidden p (out, r) = Ok (out1, r1)"
    and r1: "rd_bytes r1 = rd_bytes (lb_file base)" "rd_faults r1 = []" and out1: "distinct out \<longrightarrow> distinct out1"
    "set out1 = set out \<union> {k \<in> bucket_of m (BucketKey (of_nat band) hash). map_of live k \<noteq> None \<and> k \<notin> set hidden}"
    unfolding p by blast
  from Cons.IH [OF r1, of out1] Cons.prems(3) obtain out2 r2 where
    rest: "fold_result (probe_band crc base live hidden) probes (out1, r1) = Ok (out2, r2)"
    and r2: "rd_bytes r2 = rd_bytes (lb_file base)" "rd_faults r2 = []" and out2: "distinct out1 \<longrightarrow> distinct out2"
    "set out2 = set out1 \<union> {k. \<exists>b \<in> (\<lambda>(band, hash). BucketKey (of_nat band) hash) ` set probes.
         k \<in> bucket_of m b \<and> map_of live k \<noteq> None \<and> k \<notin> set hidden}"
    by auto
  show ?case using step rest r2 out1 out2 by (intro exI [of _ out2] exI [of _ r2]) (auto simp: p)
qed simp

lemma probe_band_file: "probe_band crc (base\<lparr>lb_file := r\<rparr>) = probe_band crc base"
  by (simp add: probe_band_def fun_eq_iff cong: option.case_cong)

lemma base_collect_tolerant:
  assumes "base_collect_candidates crc hashes live hidden out base = Ok (out', base')"
  shows "base_collect_candidates crc hashes live hidden out (base\<lparr>lb_file := heal (lb_file base)\<rparr>)
    = Ok (out', base'\<lparr>lb_file := heal (lb_file base')\<rparr>)"
proof -
  have "tolerant (\<lambda>r. fold_result (probe_band crc base live hidden) probes (out, r))" for probes
  proof (rule tolerant_fold)
    fix p s show "tolerant (\<lambda>r. probe_band crc base live hidden p (s, r))"
      unfolding probe_band_def Let_def prod.case by (cases p; simp only: prod.case)
        (intro tolerant_intros tolerant_bind2 [OF tolerant_map_err, OF read_bucket_members_tolerant])
  qed
  from tolerantD [OF this] show ?thesis
    using assms by (auto simp: base_collect_candidates_def res_simps probe_band_file split: if_splits)
qed

lemma base_represents_file:
  "rd_bytes r = rd_bytes (lb_file base) \<Longrightarrow> base_represents crc (base\<lparr>lb_file := r\<rparr>) m \<longleftrightarrow> base_represents crc base m"
  by (simp add: base_represents_def)

lemma base_collect_law:
  assumes base: "base_represents crc base m" "healthy_base base" and bands: "length hashes < 4294967296" and new: "distinct out"
  shows "\<exists>out' base'. base_collect_candidates crc hashes live hidden out base = Ok (out', base')
    \<and> base_represents crc base' m \<and> healthy_base base' \<and> lb_buckets base' = lb_buckets base \<and> distinct out'
    \<and> set out' = set out \<union> {k \<in> band_matches m hashes. map_of live k \<noteq> None \<and> k \<notin> set hidden}"
proof -
  have h: "rd_faults (lb_file base) = []" "\<not> lb_poisoned base" using base(2) by (simp_all add: healthy_base_def)
  obtain out' r' where fold: "fold_result (probe_band crc base live hidden) (List.enumerate 0 hashes) (out, lb_file base) = Ok (out', r')"
    "rd_bytes r' = rd_bytes (lb_file base)" "rd_faults r' = []" "distinct out'"
    "set out' = set out \<union> {k. \<exists>b \<in> set (bucket_keys hashes). k \<in> bucket_of m b \<and> map_of live k \<noteq> None \<and> k \<notin> set hidden}"
    using probe_bands [OF base(1) refl h(1) enumerate_bands [OF bands], of live hidden out] new unfolding keys_of_enumerate by blast
  have "set out' = set out \<union> {k \<in> band_matches m hashes. map_of live k \<noteq> None \<and> k \<notin> set hidden}"
    using fold(5) unfolding band_matches_buckets [OF bands, symmetric] by auto
  then show ?thesis
    using fold(1-4) h base(1) base_represents_file [OF fold(2)]
    by (simp add: base_collect_candidates_def healthy_base_def)
qed

section \<open>Overlay tables\<close>

definition slot_members :: "(u64, u64 list) hashmap \<Rightarrow> u64 \<Rightarrow> u64 set" where
  "slot_members table h = (case hm_get table h of None \<Rightarrow> {} | Some ks \<Rightarrow> set ks)"

text \<open>The tables hold, per band, the given keys under their hash of that band, without empty buckets.\<close>

definition overlay_represents :: "(u64, u64 list) hashmap list \<Rightarrow> (u64 \<rightharpoonup> u64 list) \<Rightarrow> bool" where
  "overlay_represents tables m \<longleftrightarrow> (\<forall>i < length tables.
     hm_wf (tables ! i) \<and> (\<forall>h. hm_get (tables ! i) h \<noteq> Some [])
     \<and> (\<forall>h. slot_members (tables ! i) h = {k. \<exists>hs. m k = Some hs \<and> i < length hs \<and> hs ! i = h}))"

lemma slot_members_push:
  "slot_members (hm_push h' k table) h = (if h = h' then insert k (slot_members table h) else slot_members table h)"
  by (auto simp: slot_members_def split: option.splits)

lemma remove_overlay_table_get:
  assumes "hm_get table h \<noteq> Some []" and "hm_wf table"
  shows "hm_wf (remove_overlay_table k h' table)" "hm_get (remove_overlay_table k h' table) h \<noteq> Some []"
    "slot_members (remove_overlay_table k h' table) h = (if h = h' then slot_members table h - {k} else slot_members table h)"
  using assms by (auto simp: remove_overlay_table_def slot_members_def Let_def filter_empty_conv split: option.splits)

lemma overlay_represents_add:
  assumes "overlay_represents tables m" and "m key = None" and "length hashes = length tables"
  shows "overlay_represents (add_overlay_key key hashes tables) (m(key \<mapsto> hashes))"
  using assms unfolding overlay_represents_def add_overlay_key_def
  by (auto simp: nth_zip_update slot_members_push split: option.splits if_splits)

lemma overlay_represents_remove:
  assumes "overlay_represents tables m" and "m key = Some hashes \<or> m key = None" and "length hashes = length tables"
  shows "overlay_represents (remove_overlay_key key hashes tables) (m(key := None))"
  unfolding overlay_represents_def
proof (intro allI impI conjI)
  fix i assume i: "i < length (remove_overlay_key key hashes tables)"
  then have lim: "i < length tables" "i < length hashes" using assms(3) by (simp_all add: remove_overlay_key_def)
  have t: "remove_overlay_key key hashes tables ! i = remove_overlay_table key (hashes ! i) (tables ! i)"
    using lim by (simp add: remove_overlay_key_def nth_zip_update)
  have old: "hm_wf (tables ! i)" "hm_get (tables ! i) h \<noteq> Some []"
    "slot_members (tables ! i) h = {k. \<exists>hs. m k = Some hs \<and> i < length hs \<and> hs ! i = h}" for h
    using assms(1) lim(1) by (simp_all add: overlay_represents_def)
  show "hm_wf (remove_overlay_key key hashes tables ! i)"
    unfolding t using old by (intro remove_overlay_table_get)
  fix h
  show "hm_get (remove_overlay_key key hashes tables ! i) h \<noteq> Some []"
    unfolding t using old by (intro remove_overlay_table_get)
  show "slot_members (remove_overlay_key key hashes tables ! i) h
      = {k. \<exists>hs. (m(key := None)) k = Some hs \<and> i < length hs \<and> hs ! i = h}"
    unfolding t remove_overlay_table_get(3) [OF old(2,1)] old(3) using assms(2) by auto
qed

lemma overlay_represents_empty: "overlay_represents (empty_bucket_tables bands) Map.empty"
  by (simp add: overlay_represents_def empty_bucket_tables_def slot_members_def)

lemma collect_overlay_set:
  "set (collect_overlay_candidates tables hashes out) = set out \<union> (\<Union>(table, hash) \<in> set (zip tables hashes). slot_members table hash)
   \<and> (distinct out \<longrightarrow> distinct (collect_overlay_candidates tables hashes out))"
proof -
  have "set (fold (\<lambda>(table, hash) out. case hm_get table hash of None \<Rightarrow> out | Some keys \<Rightarrow> hs_extend keys out) ps out)
      = set out \<union> (\<Union>(table, hash) \<in> set ps. slot_members table hash)
    \<and> (distinct out \<longrightarrow> distinct (fold (\<lambda>(table, hash) out. case hm_get table hash of None \<Rightarrow> out | Some keys \<Rightarrow> hs_extend keys out) ps out))"
    for ps :: "((u64, u64 list) hashmap \<times> u64) list"
    by (induction ps arbitrary: out) (auto simp: slot_members_def split: option.splits)
  then show ?thesis by (simp add: collect_overlay_candidates_def)
qed

lemma overlay_matches:
  assumes "overlay_represents tables m" and "length hashes = length tables"
  shows "set (collect_overlay_candidates tables hashes out) = set out \<union> band_matches m hashes"
proof -
  have "(\<Union>(table, hash) \<in> set (zip tables hashes). slot_members table hash) = (\<Union>i \<in> {..<length tables}. slot_members (tables ! i) (hashes ! i))"
    using assms(2) by (force simp: set_zip)
  also have "\<dots> = (\<Union>i \<in> {..<length tables}. {k. \<exists>hs. m k = Some hs \<and> i < length hs \<and> hs ! i = hashes ! i})"
    using assms(1) by (simp add: overlay_represents_def)
  also have "\<dots> = band_matches m hashes"
    unfolding band_matches_def shares_band_nth using assms(2) by fastforce
  finally show ?thesis using collect_overlay_set by simp
qed

section \<open>Invariant\<close>

definition overlay_part :: "store \<Rightarrow> u64 \<rightharpoonup> u64 list" where
  "overlay_part s = contents s |` set (so_overlay_keys s)"

text \<open>What a committed base contributes: every key it holds is hidden or still live with the same
  hashes, and the live keys outside the overlay are found there.\<close>

definition base_agrees :: "store \<Rightarrow> (u64 \<rightharpoonup> u64 list) \<Rightarrow> bool" where
  "base_agrees s m0 \<longleftrightarrow>
     (\<forall>k \<in> dom m0. k \<in> set (so_suppressed_base_keys s) \<or> (k \<notin> set (so_overlay_keys s) \<and> contents s k = m0 k))
     \<and> (\<forall>k \<in> dom (contents s) - set (so_overlay_keys s). k \<notin> set (so_suppressed_base_keys s) \<and> contents s k = m0 k)"

definition store_inv :: "(bytes \<Rightarrow> u32) \<Rightarrow> store \<Rightarrow> bool" where
  "store_inv crc s \<longleftrightarrow> config_valid s \<and> keys_valid s \<and> length (so_overlay_buckets s) = p_bands (so_params s)
     \<and> set (so_overlay_keys s) \<subseteq> dom (contents s) \<and> overlay_represents (so_overlay_buckets s) (overlay_part s)
     \<and> (case so_base s of
          None \<Rightarrow> set (so_overlay_keys s) = dom (contents s)
        | Some base \<Rightarrow> \<not> lb_poisoned base \<and> (\<exists>m0. base_represents crc base m0 \<and> base_agrees s m0))"

text \<open>A handle whose file has no faults ahead.\<close>

definition store_healthy :: "store \<Rightarrow> bool" where
  "store_healthy s \<longleftrightarrow> (case so_base s of None \<Rightarrow> True | Some base \<Rightarrow> rd_faults (lb_file base) = [])"

lemma base_part:
  assumes "base_agrees s m0"
  shows "{k \<in> band_matches m0 hs. contents s k \<noteq> None \<and> k \<notin> set (so_suppressed_base_keys s)} \<union> band_matches (overlay_part s) hs
    = band_matches (contents s) hs"
proof (intro equalityI subsetI)
  fix k assume "k \<in> {k \<in> band_matches m0 hs. contents s k \<noteq> None \<and> k \<notin> set (so_suppressed_base_keys s)} \<union> band_matches (overlay_part s) hs"
  then show "k \<in> band_matches (contents s) hs"
  proof
    assume k: "k \<in> {k \<in> band_matches m0 hs. contents s k \<noteq> None \<and> k \<notin> set (so_suppressed_base_keys s)}"
    then have "k \<in> dom m0" by (auto simp: band_matches_def)
    with k assms have "contents s k = m0 k" by (auto simp: base_agrees_def)
    with k show ?thesis by (simp add: band_matches_def)
  qed (auto simp: band_matches_def overlay_part_def restrict_map_def split: if_splits)
next
  fix k assume k: "k \<in> band_matches (contents s) hs"
  then have live: "k \<in> dom (contents s)" by (auto simp: band_matches_def)
  show "k \<in> {k \<in> band_matches m0 hs. contents s k \<noteq> None \<and> k \<notin> set (so_suppressed_base_keys s)} \<union> band_matches (overlay_part s) hs"
  proof (cases "k \<in> set (so_overlay_keys s)")
    case True
    with k show ?thesis by (auto simp: band_matches_def overlay_part_def)
  next
    case False
    with live assms have "k \<notin> set (so_suppressed_base_keys s)" "contents s k = m0 k" by (auto simp: base_agrees_def)
    with k live show ?thesis by (auto simp: band_matches_def)
  qed
qed

section \<open>Every operation keeps the invariant\<close>

lemma store_inv_parts:
  assumes "store_inv crc s"
  shows "config_valid s" "keys_valid s" "length (so_overlay_buckets s) = p_bands (so_params s)"
    "set (so_overlay_keys s) \<subseteq> dom (contents s)" "overlay_represents (so_overlay_buckets s) (overlay_part s)"
  using assms by (simp_all add: store_inv_def)

lemma keys_valid_iff:
  "keys_valid s \<longleftrightarrow> bt_wf (so_key_hashes s) \<and> (\<forall>k hs. contents s k = Some hs \<longrightarrow> length hs = p_bands (so_params s))"
  by (auto simp: keys_valid_def bt_wf_mem)

text \<open>A query changes only the position of the file and the counters.\<close>

definition same_index :: "store \<Rightarrow> store \<Rightarrow> bool" where
  "same_index s s' \<longleftrightarrow> s'\<lparr>so_base := so_base s, so_query_metrics := so_query_metrics s\<rparr> = s"

lemma same_index_fields:
  assumes "same_index s s'"
  shows "so_key_hashes s' = so_key_hashes s" "so_params s' = so_params s" "so_overlay_keys s' = so_overlay_keys s"
    "so_suppressed_base_keys s' = so_suppressed_base_keys s" "so_overlay_buckets s' = so_overlay_buckets s"
    "so_threshold s' = so_threshold s" "so_num_perm s' = so_num_perm s" "so_seed s' = so_seed s" "so_dirty s' = so_dirty s"
    "so_path s' = so_path s" "so_scheme s' = so_scheme s"
  using assms by (cases s; cases s'; simp add: same_index_def)+

lemma same_index_trans: "same_index s t \<Longrightarrow> same_index t u \<Longrightarrow> same_index s u"
  by (cases s; cases t; cases u) (simp add: same_index_def)

lemma same_index_record: "same_index s t \<Longrightarrow> same_index s (record_query_metrics q c p e t)"
  by (auto simp: same_index_def record_query_metrics_def split: option.splits)

lemma store_inv_metrics: "store_inv crc (s\<lparr>so_query_metrics := x\<rparr>) = store_inv crc s"
  by (simp add: store_inv_def config_valid_def keys_valid_def overlay_part_def base_agrees_def cong: option.case_cong)

lemma store_inv_record: "store_inv crc (record_query_metrics q c p e s) = store_inv crc s"
  by (auto simp: record_query_metrics_def store_inv_metrics split: option.splits)

lemma store_healthy_record: "store_healthy (record_query_metrics q c p e s) = store_healthy s"
  by (auto simp: record_query_metrics_def store_healthy_def split: option.splits)

lemma store_collect_law:
  assumes inv: "store_inv crc s" "store_healthy s" and width: "length hashes = p_bands (so_params s)"
  shows "\<exists>out s'. store_collect_candidates crc hashes [] s = Ok (out, s') \<and> sort out = sorted_list_of_set (band_matches (contents s) hashes)
    \<and> store_inv crc s' \<and> store_healthy s' \<and> same_index s s' \<and> so_query_metrics s' = so_query_metrics s"
proof -
  note parts = store_inv_parts [OF inv(1)]
  have short: "length hashes < 4294967296" using config_bounds [OF parts(1)] width by simp
  let ?collect = "collect_overlay_candidates (so_overlay_buckets s) hashes" and ?live = "\<lambda>k. contents s k \<noteq> None"
  have overlay: "set (?collect out) = set out \<union> band_matches (overlay_part s) hashes" for out
    using overlay_matches [OF parts(5)] width parts(3) by simp
  have result: "sort (filter ?live (?collect out)) = sorted_list_of_set (band_matches (contents s) hashes)"
    if "distinct out" "set out \<union> band_matches (overlay_part s) hashes = band_matches (contents s) hashes" for out
  proof -
    have "band_matches (contents s) hashes \<subseteq> {k. ?live k}" by (auto simp: band_matches_def)
    then have "set (filter ?live (?collect out)) = band_matches (contents s) hashes" using that(2) overlay [of out] by auto
    then show ?thesis using that(1) collect_overlay_set [of "so_overlay_buckets s" hashes out] sort_distinct_eq [of "filter ?live (?collect out)"] by simp
  qed
  show ?thesis
  proof (cases "so_base s")
    case None
    then have "overlay_part s = contents s" using inv(1) by (auto simp: store_inv_def overlay_part_def restrict_map_def fun_eq_iff domIff)
    with None inv result [of "[]"] show ?thesis by (simp add: store_collect_candidates_def same_index_def)
  next
    case (Some base)
    then obtain m0 where m0: "healthy_base base" "base_represents crc base m0" "base_agrees s m0" using inv by (auto simp: store_inv_def store_healthy_def healthy_base_def)
    obtain out' base' where b: "base_collect_candidates crc hashes (so_key_hashes s) (so_suppressed_base_keys s) [] base = Ok (out', base')"
      "base_represents crc base' m0" "healthy_base base'" "distinct out'"
      "set out' = {k \<in> band_matches m0 hashes. ?live k \<and> k \<notin> set (so_suppressed_base_keys s)}"
      using base_collect_law [OF m0(2,1) short, of "[]" "so_key_hashes s" "so_suppressed_base_keys s"] by auto
    have "store_inv crc (s\<lparr>so_base := Some base'\<rparr>)" "store_healthy (s\<lparr>so_base := Some base'\<rparr>)"
      using parts b(2,3) m0(3) by (auto simp: healthy_base_def store_healthy_def store_inv_def config_valid_def keys_valid_def overlay_part_def base_agrees_def)
    then show ?thesis
      using b result [of out'] base_part [OF m0(3), of hashes] by (simp add: store_collect_candidates_def Some same_index_def)
  qed
qed

lemma query_hashes_law:
  assumes inv: "store_inv crc s" "store_healthy s" and width: "length hashes = p_bands (so_params s)"
  shows "\<exists>s'. query_hashes crc hashes started s = Ok (sorted_list_of_set (band_matches (contents s) hashes), s')
    \<and> store_inv crc s' \<and> store_healthy s' \<and> same_index s s'"
  using store_collect_law [OF assms] by (auto simp: query_hashes_def store_inv_record store_healthy_record same_index_record)

text \<open>Under faults a query fails or returns the same.\<close>

lemma heal_store_fields [simp]:
  "so_key_hashes (heal_store s) = so_key_hashes s" "so_params (heal_store s) = so_params s" "so_overlay_keys (heal_store s) = so_overlay_keys s"
  "so_suppressed_base_keys (heal_store s) = so_suppressed_base_keys s" "so_overlay_buckets (heal_store s) = so_overlay_buckets s"
  "so_threshold (heal_store s) = so_threshold s" "so_num_perm (heal_store s) = so_num_perm s" "so_seed (heal_store s) = so_seed s"
  "so_query_metrics (heal_store s) = so_query_metrics s" "so_scheme (heal_store s) = so_scheme s" "so_path (heal_store s) = so_path s"
  "so_dirty (heal_store s) = so_dirty s"
  by (simp_all add: heal_store_def)

lemma heal_store_base: "so_base (heal_store s) = map_option (\<lambda>base. base\<lparr>lb_file := heal (lb_file base)\<rparr>) (so_base s)"
  by (simp add: heal_store_def)

lemma heal_store_inv [simp]: "store_inv crc (heal_store s) = store_inv crc s" "store_healthy (heal_store s)"
proof -
  have "config_valid (heal_store s) = config_valid s" "keys_valid (heal_store s) = keys_valid s" "overlay_part (heal_store s) = overlay_part s"
    "base_agrees (heal_store s) m0 = base_agrees s m0" for m0
    by (simp_all add: config_valid_def keys_valid_def overlay_part_def base_agrees_def)
  then show "store_inv crc (heal_store s) = store_inv crc s"
    unfolding store_inv_def by (cases "so_base s") (simp_all add: heal_store_base base_represents_file)
  show "store_healthy (heal_store s)" by (simp add: store_healthy_def heal_store_base split: option.split)
qed

lemma query_hashes_tolerant:
  assumes "query_hashes crc hashes started s = Ok (ks, s')"
  shows "query_hashes crc hashes started (heal_store s) = Ok (ks, heal_store s')"
proof -
  obtain out t where collect: "store_collect_candidates crc hashes [] s = Ok (out, t)" "ks = sort out"
    "s' = record_query_metrics 1 (length ks) (store_len t) started t"
    using assms by (auto simp: query_hashes_def res_simps Let_def)
  have "store_collect_candidates crc hashes [] (heal_store s) = Ok (out, heal_store t)"
  proof (cases "so_base s")
    case None
    then show ?thesis using collect(1) by (auto simp: store_collect_candidates_def heal_store_base)
  next
    case (Some base)
    obtain out0 base' where base': "base_collect_candidates crc hashes (so_key_hashes s) (so_suppressed_base_keys s) [] base = Ok (out0, base')"
      "t = s\<lparr>so_base := Some base'\<rparr>"
      "out = filter (\<lambda>key. contents s key \<noteq> None) (collect_overlay_candidates (so_overlay_buckets s) hashes out0)"
      using collect(1) by (auto simp: store_collect_candidates_def res_simps Let_def Some)
    have "heal_store t = (heal_store s)\<lparr>so_base := Some (base'\<lparr>lb_file := heal (lb_file base')\<rparr>)\<rparr>" by (simp add: base'(2) heal_store_def)
    with base_collect_tolerant [OF base'(1)] show ?thesis
      by (simp add: store_collect_candidates_def heal_store_base Some base'(3))
  qed
  then show ?thesis
    using collect(2,3) by (auto simp: query_hashes_def record_query_metrics_def store_len_def heal_store_def split: option.splits)
qed

lemma same_index_heal: "same_index (heal_store s) (heal_store s') \<longleftrightarrow> same_index s s'"
  by (cases s; cases s') (auto simp: same_index_def heal_store_def)

lemma query_hashes_safe:
  assumes inv: "store_inv crc s" and width: "length hashes = p_bands (so_params s)"
    and ok: "query_hashes crc hashes started s = Ok (ks, s')"
  shows "ks = sorted_list_of_set (band_matches (contents s) hashes) \<and> store_inv crc s' \<and> same_index s s'"
  using query_hashes_law [of crc "heal_store s" hashes started] query_hashes_tolerant [OF ok] inv width by (auto simp: same_index_heal)

lemma insert_overlay_inv:
  assumes inv: "store_inv crc s" and new: "contents s k = None" and width: "length hs = p_bands (so_params s)"
  shows "store_inv crc (insert_overlay k hs s)" "contents (insert_overlay k hs s) = (contents s)(k \<mapsto> hs)"
proof -
  let ?s = "insert_overlay k hs s"
  note parts = store_inv_parts [OF inv]
  show cont: "contents ?s = (contents s)(k \<mapsto> hs)" by (rule ext) (simp add: insert_overlay_def)
  have over: "overlay_part ?s = (overlay_part s)(k \<mapsto> hs)"
    unfolding overlay_part_def cont by (rule ext) (auto simp: insert_overlay_def restrict_map_def)
  have "config_valid ?s" using parts(1) by (simp add: config_valid_def insert_overlay_def)
  moreover have "keys_valid ?s"
    using parts(2) width by (simp add: keys_valid_iff insert_overlay_def)
  moreover have "overlay_represents (so_overlay_buckets ?s) (overlay_part ?s)"
    unfolding over using overlay_represents_add [OF parts(5), of k hs] new width parts(3)
    by (simp add: insert_overlay_def overlay_part_def restrict_map_def)
  moreover have "base_agrees ?s m0" if "base_agrees s m0" for m0
    using that new unfolding base_agrees_def cont by (auto simp: insert_overlay_def)
  ultimately show "store_inv crc ?s"
    using inv parts(3,4) unfolding store_inv_def cont by (auto simp: insert_overlay_def add_overlay_key_def split: option.splits if_splits)
qed

lemma store_remove_inv:
  assumes inv: "store_inv crc s"
  shows "store_inv crc (snd (store_remove k s))" "contents (snd (store_remove k s)) = (contents s)(k := None)"
    "fst (store_remove k s) \<longleftrightarrow> k \<in> dom (contents s)" "so_params (snd (store_remove k s)) = so_params s"
proof -
  let ?s = "snd (store_remove k s)"
  note parts = store_inv_parts [OF inv]
  show cont: "contents ?s = (contents s)(k := None)" by (rule ext) (simp add: store_remove_def Let_def split: option.split)
  show "fst (store_remove k s) \<longleftrightarrow> k \<in> dom (contents s)" "so_params ?s = so_params s"
    by (auto simp: store_remove_def Let_def split: option.splits)
  show "store_inv crc ?s"
  proof (cases "contents s k")
    case None
    then show ?thesis using inv by (simp add: store_remove_def)
  next
    case (Some hs)
    have width: "length hs = p_bands (so_params s)" using parts(2) Some by (auto simp: keys_valid_def dest!: map_of_SomeD)
    have fields: "so_overlay_keys ?s = removeAll k (so_overlay_keys s)" "so_key_hashes ?s = bt_remove k (so_key_hashes s)"
      "so_overlay_buckets ?s = remove_overlay_key k hs (so_overlay_buckets s)" "so_base ?s = so_base s"
      "so_suppressed_base_keys ?s = (if so_base s \<noteq> None \<and> k \<notin> set (so_overlay_keys s)
         then List.insert k (so_suppressed_base_keys s) else so_suppressed_base_keys s)"
      "so_params ?s = so_params s" "so_threshold ?s = so_threshold s" "so_num_perm ?s = so_num_perm s"
      by (auto simp: store_remove_def Let_def Some)
    have over: "overlay_part ?s = (overlay_part s)(k := None)"
      unfolding overlay_part_def cont by (rule ext) (auto simp: fields restrict_map_def)
    have "config_valid ?s" using parts(1) by (simp add: config_valid_def fields)
    moreover have "keys_valid ?s" using parts(2) by (simp add: keys_valid_iff fields)
    moreover have "overlay_represents (so_overlay_buckets ?s) (overlay_part ?s)"
      unfolding over fields using overlay_represents_remove [OF parts(5), of k hs] Some width parts(3)
      by (simp add: overlay_part_def restrict_map_def)
    moreover have "base_agrees ?s m0" if "base_agrees s m0" "so_base s \<noteq> None" for m0
      using that unfolding base_agrees_def cont by (auto simp: fields)
    ultimately show ?thesis
      using inv parts(3,4) unfolding store_inv_def cont fields
      by (auto simp: remove_overlay_key_def domIff split: option.splits if_splits)
  qed
qed

section \<open>Batches\<close>

lemma check_prepared_Ok:
  "check_prepared kh prepared batch = Ok b \<longleftrightarrow>
     distinct (map fst prepared) \<and> (\<forall>k \<in> fst ` set prepared. map_of kh k = None \<and> k \<notin> set batch)
     \<and> b = fold List.insert (map fst prepared) batch"
  by (induction kh prepared batch rule: check_prepared.induct) auto

lemma insert_overlay_batch:
  assumes "store_inv crc s" and "distinct (map fst prepared)" and "\<forall>(k, hs) \<in> set prepared. contents s k = None \<and> length hs = p_bands (so_params s)"
  shows "store_inv crc (fold (\<lambda>(key, hashes). insert_overlay key hashes) prepared s)
    \<and> contents (fold (\<lambda>(key, hashes). insert_overlay key hashes) prepared s) = contents s ++ map_of prepared
    \<and> so_params (fold (\<lambda>(key, hashes). insert_overlay key hashes) prepared s) = so_params s
    \<and> so_base (fold (\<lambda>(key, hashes). insert_overlay key hashes) prepared s) = so_base s"
  using assms
proof (induction prepared arbitrary: s)
  case (Cons p prepared)
  obtain k hs where p: "p = (k, hs)" by (cases p)
  let ?s = "insert_overlay k hs s"
  have one: "store_inv crc ?s" "contents ?s = (contents s)(k \<mapsto> hs)"
    using insert_overlay_inv [OF Cons.prems(1), of k hs] Cons.prems(3) by (simp_all add: p)
  have params: "so_params ?s = so_params s" "so_base ?s = so_base s" by (simp_all add: insert_overlay_def)
  have fresh: "\<forall>(k, hs) \<in> set prepared. contents ?s k = None \<and> length hs = p_bands (so_params ?s)"
    using Cons.prems(2,3) unfolding one(2) params(1) by (force simp: p)
  have eq: "(contents s)(k \<mapsto> hs) ++ map_of prepared = contents s ++ map_of (p # prepared)"
  proof -
    have "map_of prepared k = None" using Cons.prems(2) by (simp add: p map_of_eq_None_iff)
    then show ?thesis by (auto simp: p fun_eq_iff map_add_def split: option.split)
  qed
  have "distinct (map fst prepared)" using Cons.prems(2) by simp
  from Cons.IH [OF one(1) this fresh] show ?case unfolding one(2) eq params by (simp only: p fold.simps comp_apply prod.case)
qed simp

lemma store_inv_dirty: "store_inv crc (s\<lparr>so_dirty := d\<rparr>) = store_inv crc s"
  by (simp add: store_inv_def config_valid_def keys_valid_def overlay_part_def base_agrees_def cong: option.case_cong)

lemma insert_hashes_many_law:
  assumes inv: "store_inv crc s" and width: "\<forall>(k, hs) \<in> set prepared. length hs = p_bands (so_params s)"
    and keys: "distinct (map fst prepared)" "fst ` set prepared \<inter> dom (contents s) = {}"
  shows "\<exists>s'. insert_hashes_many prepared s = Ok s' \<and> store_inv crc s' \<and> contents s' = contents s ++ map_of prepared
    \<and> so_params s' = so_params s \<and> so_base s' = so_base s"
proof -
  have new: "\<forall>(k, hs) \<in> set prepared. contents s k = None \<and> length hs = p_bands (so_params s)"
    using width keys(2) by (auto simp: domIff disjoint_iff)
  have "check_prepared (so_key_hashes s) prepared [] = Ok (fold List.insert (map fst prepared) [])"
    using keys(1) new by (auto simp: check_prepared_Ok)
  then show ?thesis
    using insert_overlay_batch [OF inv keys(1) new] by (simp add: insert_hashes_many_def Let_def store_inv_dirty)
qed

section \<open>Fresh, reopened and rebuilt stores\<close>

lemma store_empty_inv:
  assumes "config_valid (store_empty path threshold num_perm seed params scheme)"
  shows "store_inv crc (store_empty path threshold num_perm seed params scheme)"
  using assms by (simp add: store_inv_def keys_valid_def overlay_part_def overlay_represents_empty) (simp add: store_empty_def empty_bucket_tables_def overlay_represents_empty [unfolded empty_bucket_tables_def])

lemma rebuild_overlay_all_law:
  assumes "config_valid s" and "keys_valid s"
  shows "\<exists>overlay keys. rebuild_overlay_all s
      = Ok (s\<lparr>so_overlay_buckets := overlay, so_overlay_keys := keys, so_suppressed_base_keys := [], so_base := None\<rparr>)
    \<and> store_inv crc (s\<lparr>so_overlay_buckets := overlay, so_overlay_keys := keys, so_suppressed_base_keys := [], so_base := None\<rparr>)"
proof -
  let ?kh = "so_key_hashes s" and ?bands = "p_bands (so_params s)"
  let ?step = "\<lambda>(key, hashes) (overlay, overlay_keys).
         and_then (err_if (length hashes \<noteq> ?bands) (InvalidSnapshot ''in-memory band-hash row has the wrong width'')) (\<lambda>_.
         Ok (add_overlay_key key hashes overlay, List.insert key overlay_keys))"
  let ?Q = "\<lambda>seen (overlay, keys). length overlay = ?bands \<and> overlay_represents overlay (map_of seen) \<and> set keys = fst ` set seen"
  have wf: "distinct (map fst ?kh)" using assms(2) by (simp add: keys_valid_def bt_wf_distinct)
  have "\<exists>t. fold_result ?step ?kh (empty_bucket_tables ?bands, []) = Ok t \<and> ?Q ?kh t"
  proof (rule fold_result_total)
    show "?Q [] (empty_bucket_tables ?bands, [])" by (simp add: overlay_represents_empty) (simp add: empty_bucket_tables_def)
  next
    fix seen x rest st
    assume split: "?kh = seen @ x # rest" and Q: "?Q seen st"
    obtain k hs where x: "x = (k, hs)" by (cases x)
    obtain overlay keys where st: "st = (overlay, keys)" by (cases st)
    have new: "map_of seen k = None" using wf by (auto simp: split x map_of_eq_None_iff)
    have width: "length hs = ?bands" using assms(2) by (simp add: keys_valid_def split x)
    have "map_of (seen @ [(k, hs)]) = (map_of seen)(k \<mapsto> hs)" using new by (auto simp: fun_eq_iff map_add_def split: option.split)
    then show "\<exists>t'. ?step x st = Ok t' \<and> ?Q (seen @ [x]) t'"
      using Q overlay_represents_add [of overlay "map_of seen" k hs] new width by (auto simp: x st) (simp add: add_overlay_key_def)
  qed
  then obtain overlay keys where t: "fold_result ?step ?kh (empty_bucket_tables ?bands, []) = Ok (overlay, keys)"
    "length overlay = ?bands" "overlay_represents overlay (contents s)" "set keys = dom (contents s)"
    by (auto simp: dom_map_of_conv_image_fst)
  moreover have "contents s |` dom (contents s) = contents s" by (auto simp: restrict_map_def fun_eq_iff domIff)
  ultimately show ?thesis
    using assms by (intro exI [of _ overlay] exI [of _ keys])
      (simp add: rebuild_overlay_all_def store_inv_def config_valid_def keys_valid_def overlay_part_def)
qed

lemma opened_store_inv:
  assumes "config_valid s" and "keys_valid s" and "base_represents crc base (contents s)" and "healthy_base base"
  shows "store_inv crc ((store_empty path (so_threshold s) (so_num_perm s) (so_seed s) (so_params s) (so_scheme s))
        \<lparr>so_base := Some base, so_key_hashes := so_key_hashes s, so_dirty := False\<rparr>)"
  using assms overlay_represents_empty [of "p_bands (so_params s)"]
  by (auto simp: store_inv_def store_empty_def config_valid_def keys_valid_def overlay_part_def base_agrees_def empty_bucket_tables_def healthy_base_def)

lemma reopen_law:
  assumes valid: "config_valid s" "keys_valid s" and enc: "encode_snapshot crc s = Ok bs" and law: "hasher_law crc hasher"
  shows "\<exists>s'. store_open_file crc hasher path (so_scheme s) \<lparr>rd_bytes = bs, rd_pos = 0, rd_faults = []\<rparr> = Ok s'
    \<and> store_inv crc s' \<and> store_healthy s' \<and> so_key_hashes s' = so_key_hashes s \<and> so_params s' = so_params s \<and> so_num_perm s' = so_num_perm s
    \<and> so_seed s' = so_seed s \<and> so_threshold s' = so_threshold s \<and> so_scheme s' = so_scheme s \<and> so_path s' = path \<and> \<not> so_dirty s'
    \<and> so_query_metrics s' = None"
proof -
  obtain base where base: "store_open_file crc hasher path (so_scheme s) \<lparr>rd_bytes = bs, rd_pos = 0, rd_faults = []\<rparr> =
      Ok ((store_empty path (so_threshold s) (so_num_perm s) (so_seed s) (so_params s) (so_scheme s))
        \<lparr>so_base := Some base, so_key_hashes := so_key_hashes s, so_dirty := False\<rparr>)"
    "base_represents crc base (contents s)" "healthy_base base"
    using open_snapshot [OF valid _ law, of "\<lparr>rd_bytes = bs, rd_pos = 0, rd_faults = []\<rparr>" path] enc by (auto simp: healthy_base_def)
  then show ?thesis using opened_store_inv [OF valid base(2,3), of path] by (simp add: store_empty_def store_healthy_def healthy_base_def)
qed

section \<open>The contract of an index\<close>

definition store_room :: "store \<Rightarrow> nat" where
  "store_room s = usize_limit - card (dom (contents s))"

definition store_cands :: "(bytes \<Rightarrow> u32) \<Rightarrow> u64 list \<Rightarrow> store \<Rightarrow> u64 list" where
  "store_cands crc hs s = (case query_hashes crc hs None s of Ok (ks, s') \<Rightarrow> ks | _ \<Rightarrow> [])"

lemma store_cands_eq:
  "store_inv crc s \<Longrightarrow> store_healthy s \<Longrightarrow> length hs = p_bands (so_params s) \<Longrightarrow> store_cands crc hs s = sorted_list_of_set (band_matches (contents s) hs)"
  using query_hashes_law [of crc s hs None] by (auto simp: store_cands_def)

lemma card_keys: "card (A :: u64 set) \<le> usize_limit"
proof -
  have "card A \<le> card (UNIV :: u64 set)" by (rule card_mono) auto
  then show ?thesis by (simp add: card_word)
qed

interpretation stored: candidate_index "\<lambda>s. store_inv crc s \<and> store_healthy s" "\<lambda>s. p_bands (so_params s)" store_room "\<lambda>s. contents s"
  "\<lambda>k hs s. insert_hashes_many [(k, hs)] s" store_remove "store_cands crc" for crc
proof unfold_locales
  fix s :: store and hs :: "u64 list" and k :: u64
  assume "store_inv crc s \<and> store_healthy s"
  then have inv: "store_inv crc s" and healthy: "store_healthy s" by simp_all
  have fin: "finite (dom (contents s))" by (simp add: finite_dom_map_of)
  show "(store_inv crc (snd (store_remove k s)) \<and> store_healthy (snd (store_remove k s))) \<and> p_bands (so_params (snd (store_remove k s))) = p_bands (so_params s)
      \<and> store_room s \<le> store_room (snd (store_remove k s)) \<and> contents (snd (store_remove k s)) = (contents s)(k := None)
      \<and> (fst (store_remove k s) \<longleftrightarrow> k \<in> dom (contents s))"
  proof -
    have same_base: "so_base (snd (store_remove k s)) = so_base s" by (simp add: store_remove_def Let_def split: option.split)
    have "card (dom (contents s) - {k}) \<le> card (dom (contents s))" using fin by (intro card_mono) auto
    then show ?thesis using store_remove_inv [OF inv, of k] healthy same_base by (simp add: store_room_def store_healthy_def)
  qed
  show "finite (dom (contents s)) \<and> (\<forall>k hs. contents s k = Some hs \<longrightarrow> length hs = p_bands (so_params s))"
    using fin store_inv_parts(2) [OF inv] by (simp add: keys_valid_iff)
  assume width: "length hs = p_bands (so_params s)"
  show "set (store_cands crc hs s) = band_matches (contents s) hs \<and> sorted_wrt (<) (store_cands crc hs s)"
    using store_cands_eq [OF inv healthy width] finite_band_matches [OF fin, of hs] by simp
  assume new: "contents s k = None"
  obtain s' where s': "insert_hashes_many [(k, hs)] s = Ok s'" "store_inv crc s'" "contents s' = (contents s)(k \<mapsto> hs)" "so_params s' = so_params s"
    "so_base s' = so_base s"
    using insert_hashes_many_law [OF inv, of "[(k, hs)]"] width new by (auto simp: domIff)
  have "card (dom (contents s')) = Suc (card (dom (contents s)))" unfolding s'(3) using new fin by (simp add: domIff)
  then show "\<exists>s'. insert_hashes_many [(k, hs)] s = Ok s' \<and> (store_inv crc s' \<and> store_healthy s') \<and> p_bands (so_params s') = p_bands (so_params s)
      \<and> store_room s' = store_room s - 1 \<and> contents s' = (contents s)(k \<mapsto> hs)"
    using s' healthy by (auto simp: store_room_def store_healthy_def)
qed

section \<open>Band hashes of a sketch\<close>

lemma u64_or_max_small: "n < usize_limit \<Longrightarrow> u64_or_max n = of_nat n"
  by (simp add: u64_or_max_def u64_try_from_def)

lemma store_avalanche64_eq: "store_avalanche64 = avalanche64"
  by (rule ext) (simp only: store_avalanche64_def avalanche64_def)

lemma store_hash_band_eq:
  "length xs < usize_limit \<Longrightarrow> store_hash_band32 xs = band_hash ucast xs"
  "length ys < usize_limit \<Longrightarrow> store_hash_band64 ys = band_hash (\<lambda>v. v) ys"
  by (simp_all add: store_hash_band32_def store_hash_band64_def store_avalanche64_eq band_hash_def
      FNV_PRIME_def FNV_OFFSET_BASIS_def u64_or_max_small Let_def)

lemma store_band_hashes_law:
  assumes valid: "config_valid s" and hash: "\<And>xs. length xs < usize_limit \<Longrightarrow> hash_band xs = h xs"
  shows "store_band_hashes hash_band sketch s =
    (if mh_seed sketch \<noteq> so_seed s then Err (StoreIncompatibleSeed (so_seed s) (mh_seed sketch))
     else if length (hashvalues sketch) \<noteq> so_num_perm s then Err (StoreIncompatiblePermutationCount (so_num_perm s) (length (hashvalues sketch)))
     else Ok (sketch_bands h (so_params s) (hashvalues sketch)))"
proof -
  have v: "params_valid (so_params s) (so_num_perm s)" "so_num_perm s < 4294967296" using valid by (simp_all add: config_valid_def)
  then have "used_permutations (so_params s) = Some (p_bands (so_params s) * p_rows (so_params s))"
    by (intro used_permutations_valid) auto
  moreover have "p_bands (so_params s) * p_rows (so_params s) \<le> so_num_perm s" using v(1) by (simp add: params_valid_def)
  moreover have "hash_band c = h c" if "c \<in> set (chunks_exact (p_rows (so_params s)) xs)" for c xs
    using chunks_exact_length_mem [OF that] valid_params_bounds [OF v] by (intro hash) simp
  ultimately show ?thesis
    by (auto simp: store_band_hashes_def slice_get_def sketch_bands_def)
qed

lemma store_query_law:
  assumes inv: "store_inv crc s" "store_healthy s" and hash: "\<And>xs. length xs < usize_limit \<Longrightarrow> hash_band xs = h xs"
    and fits: "mh_seed sketch = so_seed s" "length (hashvalues sketch) = so_num_perm s"
  shows "\<exists>s'. store_query crc hash_band sketch elapsed s
      = Ok (sorted_list_of_set (band_matches (contents s) (sketch_bands h (so_params s) (hashvalues sketch))), s')
    \<and> store_inv crc s' \<and> store_healthy s' \<and> same_index s s'"
proof -
  note valid = store_inv_parts(1) [OF inv(1)]
  have "length (sketch_bands h (so_params s) (hashvalues sketch)) = p_bands (so_params s)"
    using valid fits(2) by (intro length_sketch_bands) (simp_all add: config_valid_def)
  from query_hashes_law [OF inv this] show ?thesis
    using store_band_hashes_law [where hash_band = hash_band and h = h, OF valid hash] fits by (simp add: store_query_def)
qed

lemma store_query_safe:
  assumes inv: "store_inv crc s" and hash: "\<And>xs. length xs < usize_limit \<Longrightarrow> hash_band xs = h xs"
    and ok: "store_query crc hash_band sketch elapsed s = Ok (ks, s')"
  shows "mh_seed sketch = so_seed s \<and> length (hashvalues sketch) = so_num_perm s
    \<and> ks = sorted_list_of_set (band_matches (contents s) (sketch_bands h (so_params s) (hashvalues sketch)))
    \<and> store_inv crc s' \<and> same_index s s'"
proof -
  note valid = store_inv_parts(1) [OF inv]
  note hashes = store_band_hashes_law [where hash_band = hash_band and h = h, OF valid hash, of sketch]
  have fits: "mh_seed sketch = so_seed s" "length (hashvalues sketch) = so_num_perm s"
    and q: "query_hashes crc (sketch_bands h (so_params s) (hashvalues sketch)) (map_option (\<lambda>_. elapsed) (so_query_metrics s)) s = Ok (ks, s')"
    using ok by (auto simp: store_query_def hashes res_simps split: if_splits)
  have "length (sketch_bands h (so_params s) (hashvalues sketch)) = p_bands (so_params s)"
    using valid fits(2) by (intro length_sketch_bands) (simp_all add: config_valid_def)
  from query_hashes_safe [OF inv this q] fits show ?thesis by blast
qed

section \<open>Properties\<close>

text \<open>How an answer of the persistent index corresponds to an answer of the in-memory index: on a healthy
  file it is the same, and under faults of the file it is the same whenever it is a success.\<close>

definition answers_alike :: "(bytes \<Rightarrow> u32) \<Rightarrow> store \<Rightarrow> (u64 list \<times> store, store_error) result \<Rightarrow> (u64 list \<times> lsh_index, lsh_error) result \<Rightarrow> bool" where
  "answers_alike crc s stored memory \<longleftrightarrow>
     (store_healthy s \<longrightarrow>
       (case memory of
          Ok (keys, _) \<Rightarrow> (\<exists>s'. stored = Ok (keys, s') \<and> store_inv crc s' \<and> store_healthy s' \<and> same_index s s')
        | Err (IncompatibleSeed expected actual) \<Rightarrow> stored = Err (StoreIncompatibleSeed expected actual)
        | Err (IncompatiblePermutationCount expected actual) \<Rightarrow> stored = Err (StoreIncompatiblePermutationCount expected actual)
        | _ \<Rightarrow> False))
     \<and> (\<forall>keys s'. stored = Ok (keys, s') \<longrightarrow> (\<exists>index'. memory = Ok (keys, index')) \<and> store_inv crc s' \<and> same_index s s')"

lemma query_alike:
  fixes hash_band :: "'v list \<Rightarrow> u64"
  assumes inv: "store_inv crc s" and hash: "\<And>xs. length xs < usize_limit \<Longrightarrow> hash_band xs = h xs"
    and total: "band_total hash_result h"
    and reference: "index_wf reference" "idx_seed reference = so_seed s" "idx_num_perm reference = so_num_perm s"
      "idx_params reference = so_params s" "index_lookup reference = contents s"
  shows "answers_alike crc s (store_query crc hash_band sketch elapsed s) (index_query hash_result sketch t reference)"
proof -
  have result: "\<exists>index'. index_query hash_result sketch t reference
      = Ok (sorted_list_of_set (band_matches (contents s) (sketch_bands h (so_params s) (hashvalues sketch))), index')"
    if "mh_seed sketch = so_seed s" "length (hashvalues sketch) = so_num_perm s"
    using index_query_result [OF total reference(1), of sketch t] reference that by (auto simp: index_compatible_def)
  have "\<exists>index'. index_query hash_result sketch t reference = Ok (keys, index') \<and> store_inv crc s' \<and> same_index s s'"
    if "store_query crc hash_band sketch elapsed s = Ok (keys, s')" for keys s'
    using store_query_safe [where hash_band = hash_band and h = h, OF inv hash that] result by auto
  moreover have "case index_query hash_result sketch t reference of
          Ok (keys, _) \<Rightarrow> (\<exists>s'. store_query crc hash_band sketch elapsed s = Ok (keys, s') \<and> store_inv crc s' \<and> store_healthy s' \<and> same_index s s')
        | Err (IncompatibleSeed expected actual) \<Rightarrow> store_query crc hash_band sketch elapsed s = Err (StoreIncompatibleSeed expected actual)
        | Err (IncompatiblePermutationCount expected actual) \<Rightarrow>
            store_query crc hash_band sketch elapsed s = Err (StoreIncompatiblePermutationCount expected actual)
        | _ \<Rightarrow> False" if healthy: "store_healthy s"
  proof (cases "mh_seed sketch = so_seed s \<and> length (hashvalues sketch) = so_num_perm s")
    case True
    then show ?thesis
      using result store_query_law [where hash_band = hash_band and h = h, OF inv healthy hash, of sketch elapsed] by auto
  next
    case False
    then show ?thesis
      using store_band_hashes_law [where hash_band = hash_band and h = h, OF store_inv_parts(1) [OF inv] hash, of sketch] reference
      by (auto simp: store_query_def index_query_def index_ensure_compatible_def)
  qed
  ultimately show ?thesis by (auto simp: answers_alike_def)
qed

text \<open>C17: A persistent index answers every sketch as the in-memory index with the same configuration and
  the same keys and band hashes, for both sketch widths: the same keys in the same order whatever
  the split between committed buckets, overlay and suppressed keys, and the corresponding error for an
  incompatible seed or signature length. A query leaves the index unchanged but for its file
  position and counters. Under any schedule of I/O faults it fails or returns the same keys.\<close>

theorem persistent_query_agrees:
  assumes "store_inv crc s"
    and "index_wf reference" "idx_seed reference = so_seed s" "idx_num_perm reference = so_num_perm s"
      "idx_params reference = so_params s" "index_lookup reference = contents s"
  shows "answers_alike crc s (PersistentIndex32_query crc narrow elapsed s) (LshIndex32_query narrow t reference)
    \<and> answers_alike crc s (PersistentIndex64_query crc wide elapsed s) (LshIndex64_query wide t reference)"
  unfolding PersistentIndex32_query_def PersistentIndex64_query_def LshIndex32_query_def LshIndex64_query_def
  using query_alike [OF assms(1) store_hash_band_eq(1) hash_band32_total assms(2-6)]
    query_alike [OF assms(1) store_hash_band_eq(2) hash_band64_total assms(2-6)] by blast

text \<open>C2: Any history of insertions of new keys and of removals, on a healthy handle at hand and equally on the
  handle that opens its snapshot, succeeds, keeps the invariant of overlay, base and suppressed keys,
  and leaves an index that answers every query exactly as the map the history describes: no
  committed, replaced or removed generation of a key shows through.\<close>

theorem persistent_history:
  assumes inv: "store_inv crc s" "store_healthy s" and law: "hasher_law crc hasher"
    and small: "length (so_key_hashes s) * p_bands (so_params s) + 9 \<le> 2 ^ 25" and ops: "ops_ok (p_bands (so_params s)) ops (contents s)"
    and room: "length ops + length (so_key_hashes s) \<le> 2 ^ 64" and width: "length hs = p_bands (so_params s)"
  shows "\<exists>bs reopened. encode_snapshot crc s = Ok bs
    \<and> store_open_file crc hasher path (so_scheme s) \<lparr>rd_bytes = bs, rd_pos = 0, rd_faults = []\<rparr> = Ok reopened
    \<and> (\<forall>start \<in> {s, reopened}. \<exists>s' s''. run_ops (\<lambda>k hs. insert_hashes_many [(k, hs)]) store_remove ops start = Ok s'
        \<and> store_inv crc s' \<and> contents s' = fold spec_op ops (contents s)
        \<and> query_hashes crc hs None s' = Ok (sorted_list_of_set (band_matches (fold spec_op ops (contents s)) hs), s''))"
proof -
  note valid = store_inv_parts(1,2) [OF inv(1)]
  obtain bs where enc: "encode_snapshot crc s = Ok bs" using encode_snapshot_room [OF valid] small by auto
  obtain t where t: "store_open_file crc hasher path (so_scheme s) \<lparr>rd_bytes = bs, rd_pos = 0, rd_faults = []\<rparr> = Ok t" "store_inv crc t" "store_healthy t"
    "so_key_hashes t = so_key_hashes s" "so_params t = so_params s"
    using reopen_law [OF valid enc law, of path] by blast
  have "card (dom (contents s)) \<le> length (so_key_hashes s)"
    unfolding dom_map_of_conv_image_fst by (metis card_length length_map list.set_map)
  then have run: "\<exists>s' s''. run_ops (\<lambda>k hs. insert_hashes_many [(k, hs)]) store_remove ops u = Ok s'
        \<and> store_inv crc s' \<and> contents s' = fold spec_op ops (contents s)
        \<and> query_hashes crc hs None s' = Ok (sorted_list_of_set (band_matches (fold spec_op ops (contents s)) hs), s'')"
    if u: "store_inv crc u" "store_healthy u" "so_key_hashes u = so_key_hashes s" "so_params u = so_params s" for u
    using stored.run_ops_law [of crc u ops] query_hashes_law [of crc _ hs None] ops room width u
    by (fastforce simp: store_room_def)
  show ?thesis using enc t run inv by auto
qed

section \<open>Witnesses\<close>

definition example_empty_store :: store where
  "example_empty_store = store_empty [''index''] f64_one (idx_num_perm example_index) (idx_seed example_index) (idx_params example_index) PariAffine32V1"

lemma example_empty_store_inv: "store_inv crc example_empty_store" "store_healthy example_empty_store"
proof -
  show "store_inv crc example_empty_store"
    unfolding example_empty_store_def
    by (rule store_empty_inv) (simp add: config_valid_def store_empty_def example_index_def params_valid_def)
  show "store_healthy example_empty_store" by (simp add: store_healthy_def example_empty_store_def store_empty_def)
qed

theorem persistent_query_agrees_witness:
  "\<exists>s'. PersistentIndex32_query example_crc (example_sketch [1, 2]) 0 example_empty_store = Ok ([], s')"
proof -
  obtain index' where q: "LshIndex32_query (example_sketch [1, 2]) 0 example_index = Ok ([], index')"
    using index_query_result [OF hash_band32_total example_index_wf example_compatible [of "[1, 2]"], of 0]
    by (auto simp: LshIndex32_query_def example_index_empty band_matches_def)
  have fields: "so_seed example_empty_store = idx_seed example_index" "so_num_perm example_empty_store = idx_num_perm example_index"
    "so_params example_empty_store = idx_params example_index" "contents example_empty_store = Map.empty"
    by (simp_all add: example_empty_store_def store_empty_def)
  have "answers_alike example_crc example_empty_store (PersistentIndex32_query example_crc (example_sketch [1, 2]) 0 example_empty_store)
      (LshIndex32_query (example_sketch [1, 2]) 0 example_index)"
    by (rule persistent_query_agrees [THEN conjunct1, OF example_empty_store_inv(1) example_index_wf]) (simp_all only: fields example_index_empty)
  then show ?thesis unfolding q using example_empty_store_inv(2) by (auto simp: answers_alike_def)
qed

theorem persistent_history_witness:
  "\<exists>bs s s' s''. encode_snapshot example_crc example_empty_store = Ok bs
     \<and> store_open_file example_crc example_hasher [''index''] PariAffine32V1 \<lparr>rd_bytes = bs, rd_pos = 0, rd_faults = []\<rparr> = Ok s
     \<and> run_ops (\<lambda>k hs. insert_hashes_many [(k, hs)]) store_remove [OpInsert 3 [10, 20], OpInsert 7 [10, 21], OpRemove 3] s = Ok s'
     \<and> query_hashes example_crc [10, 99] None s' = Ok ([7], s'')"
proof -
  have "band_matches ((Map.empty(3 \<mapsto> [10, 20], 7 \<mapsto> [10, 21]))(3 := None)) [10, 99] = {7 :: u64}"
    by (simp add: band_matches_upd band_matches_del shares_band_def) (auto simp: band_matches_def)
  then show ?thesis
    using persistent_history [OF example_empty_store_inv example_hasher_law,
        of "[OpInsert 3 [10, 20], OpInsert 7 [10, 21], OpRemove 3]" "[10, 99]" "[''index'']"]
    by (auto simp: example_empty_store_def store_empty_def example_index_def)
qed

end
