(* ===== verification/Pari_Files.thy ===== *)
theory Pari_Files
  imports Pari_FS Pari_Store
begin

text \<open>
  Crate \<open>pari-store\<close>, publication of snapshots (\<open>crates/pari-store/src/lib.rs\<close>): the temporary file a
  transaction owns, its publication by renaming or by linking, rollback and cleanup, and the
  creation, opening and commit of a store over the file system of \<open>Pari_FS\<close>. Functions of the code that
  return \<open>io::Result\<close> return a sum here, the others a \<open>result\<close>. The handles of the crate \<open>same-file\<close> are a
  parameter, which distinguishes files.

  The theorems show that a commit is atomic under every schedule of faults and at every moment in
  between, that no contents of the handle are lost whatever fails, and that creating a store never
  replaces a file.
\<close>

section \<open>Temporary files\<close>

abbreviation TEMPORARY_ALLOCATION_ATTEMPTS :: nat where "TEMPORARY_ALLOCATION_ATTEMPTS \<equiv> 1024"

record 'h temporary =
  tf_path :: path
  tf_file :: "inode option"
  tf_identity :: 'h
  tf_owns_path :: bool

fun io_kind :: "io_error \<Rightarrow> io_error" where
  "io_kind (IoRecovery original rollback cleanup) = io_kind original"
| "io_kind e = e"

definition temporary_name :: "u32 \<Rightarrow> u64 \<Rightarrow> string" where
  "temporary_name process_id sequence = ''.pari-tmp-'' @ decimal (unat process_id) @ ''-'' @ hex_digits 16 (unat sequence)"

definition cleanup_failed_allocation :: "path \<Rightarrow> io_error \<Rightarrow> fs \<Rightarrow> store_error \<times> fs" where
  "cleanup_failed_allocation p original fs =
     (case fs_remove_file p fs of
        (Inr _, fs) \<Rightarrow> (StoreIo original, fs)
      | (Inl e, fs) \<Rightarrow>
          if io_kind e = IoNotFound then (StoreIo original, fs)
          else (StoreIo (IoRecovery original None (Some e)), fs))"

fun allocate_loop :: "(inode \<Rightarrow> 'h) \<Rightarrow> nat \<Rightarrow> path \<Rightarrow> fs \<Rightarrow> ('h temporary, store_error) result \<times> fs" where
  "allocate_loop handle 0 parent fs = (Err (StoreIo IoAlreadyExists), fs)"
| "allocate_loop handle (Suc n) parent fs =
     (let sequence = fs_sequence fs; fs = fs\<lparr>fs_sequence := sequence + 1\<rparr>;
          p = parent @ [temporary_name (fs_process_id fs) sequence]
      in case fs_create_new p fs of
           (Inr i, fs) \<Rightarrow>
             (case fs_handle_from_file handle i fs of
                (Inr identity, fs) \<Rightarrow> (Ok \<lparr>tf_path = p, tf_file = Some i, tf_identity = identity, tf_owns_path = True\<rparr>, fs)
              | (Inl e, fs) \<Rightarrow> (case cleanup_failed_allocation p e fs of (error, fs) \<Rightarrow> (Err error, fs)))
         | (Inl e, fs) \<Rightarrow> if io_kind e = IoAlreadyExists then allocate_loop handle n parent fs else (Err (StoreIo e), fs))"

definition allocate :: "(inode \<Rightarrow> 'h) \<Rightarrow> path \<Rightarrow> fs \<Rightarrow> ('h temporary, store_error) result \<times> fs" where
  "allocate handle target fs =
     (if file_name target = None then (Err InvalidPath, fs)
      else allocate_loop handle TEMPORARY_ALLOCATION_ATTEMPTS (parent_dir target) fs)"

definition write_synced :: "bytes \<Rightarrow> 'h temporary \<Rightarrow> fs \<Rightarrow> (io_error + unit) \<times> fs" where
  "write_synced bs tf fs =
     (case tf_file tf of
        None \<Rightarrow> (Inl (OtherIo ''persistent-index temporary file is already closed''), fs)
      | Some i \<Rightarrow> io_then (fs_write_all i bs fs) (\<lambda>_ fs. fs_sync_all i fs))"

definition verify_owned_path :: "(inode \<Rightarrow> 'h) \<Rightarrow> 'h temporary \<Rightarrow> fs \<Rightarrow> (io_error + unit) \<times> 'h temporary \<times> fs" where
  "verify_owned_path handle tf fs =
     (case fs_symlink_metadata (tf_path tf) fs of
        (Inl e, fs) \<Rightarrow> (Inl e, tf, fs)
      | (Inr (LinkNode _), fs) \<Rightarrow> (Inl IoNotFound, tf\<lparr>tf_owns_path := False\<rparr>, fs)
      | (Inr _, fs) \<Rightarrow>
          (case fs_handle_from_path handle (tf_path tf) fs of
             (Inl e, fs) \<Rightarrow> (Inl e, tf, fs)
           | (Inr current, fs) \<Rightarrow>
               if current \<noteq> tf_identity tf then (Inl IoNotFound, tf\<lparr>tf_owns_path := False\<rparr>, fs) else (Inr (), tf, fs)))"

definition remove_owned_path :: "(inode \<Rightarrow> 'h) \<Rightarrow> 'h temporary \<Rightarrow> fs \<Rightarrow> (io_error + unit) \<times> 'h temporary \<times> fs" where
  "remove_owned_path handle tf fs =
     (let tf = tf\<lparr>tf_file := None\<rparr>
      in if \<not> tf_owns_path tf then (Inr (), tf, fs)
         else case verify_owned_path handle tf fs of
                (Inl e, tf, fs) \<Rightarrow> if io_kind e = IoNotFound then (Inr (), tf\<lparr>tf_owns_path := False\<rparr>, fs) else (Inl e, tf, fs)
              | (Inr _, tf, fs) \<Rightarrow>
                  (case fs_remove_file (tf_path tf) fs of
                     (Inr _, fs) \<Rightarrow> (Inr (), tf\<lparr>tf_owns_path := False\<rparr>, fs)
                   | (Inl e, fs) \<Rightarrow> if io_kind e = IoNotFound then (Inr (), tf\<lparr>tf_owns_path := False\<rparr>, fs) else (Inl e, tf, fs)))"

text \<open>\<open>Drop\<close> runs whenever a temporary file goes out of scope.\<close>

definition drop_temporary :: "(inode \<Rightarrow> 'h) \<Rightarrow> 'h temporary \<Rightarrow> fs \<Rightarrow> fs" where
  "drop_temporary handle tf fs = snd (snd (remove_owned_path handle tf fs))"

definition cleanup_after :: "(inode \<Rightarrow> 'h) \<Rightarrow> io_error \<Rightarrow> 'h temporary \<Rightarrow> fs \<Rightarrow> store_error \<times> fs" where
  "cleanup_after handle operation_error tf fs =
     (case remove_owned_path handle tf fs of
        (Inr _, tf, fs) \<Rightarrow> (StoreIo operation_error, drop_temporary handle tf fs)
      | (Inl cleanup_error, tf, fs) \<Rightarrow> (StoreIo (IoRecovery operation_error None (Some cleanup_error)), drop_temporary handle tf fs))"

section \<open>Publication\<close>

definition sync_parent_directory :: "path \<Rightarrow> fs \<Rightarrow> (io_error + unit) \<times> fs" where
  "sync_parent_directory p = fs_sync_directory (parent_dir p)"

definition publish_replace :: "(inode \<Rightarrow> 'h) \<Rightarrow> path \<Rightarrow> 'h temporary \<Rightarrow> fs \<Rightarrow> (unit, store_error) result \<times> fs" where
  "publish_replace handle target tf fs =
     (case verify_owned_path handle tf fs of
        (Inl e, tf, fs) \<Rightarrow> (case cleanup_after handle e tf fs of (error, fs) \<Rightarrow> (Err error, fs))
      | (Inr _, tf, fs) \<Rightarrow>
          let tf = tf\<lparr>tf_file := None\<rparr>
          in case fs_rename (tf_path tf) target fs of
               (Inr _, fs) \<Rightarrow> (Ok (), drop_temporary handle (tf\<lparr>tf_owns_path := False\<rparr>) fs)
             | (Inl e, fs) \<Rightarrow> (case cleanup_after handle e tf fs of (error, fs) \<Rightarrow> (Err error, fs)))"

definition rollback_owned_destination :: "(inode \<Rightarrow> 'h) \<Rightarrow> path \<Rightarrow> 'h \<Rightarrow> fs \<Rightarrow> (io_error + unit) \<times> fs" where
  "rollback_owned_destination handle destination identity fs =
     (case fs_symlink_metadata destination fs of
        (Inl e, fs) \<Rightarrow> if io_kind e = IoNotFound then (Inr (), fs) else (Inl e, fs)
      | (Inr (LinkNode _), fs) \<Rightarrow> (Inr (), fs)
      | (Inr _, fs) \<Rightarrow>
          (case fs_handle_from_path handle destination fs of
             (Inl e, fs) \<Rightarrow> if io_kind e = IoNotFound then (Inr (), fs) else (Inl e, fs)
           | (Inr current, fs) \<Rightarrow>
               if current \<noteq> identity then (Inr (), fs)
               else io_then (fs_remove_file destination fs) (\<lambda>_ fs. sync_parent_directory destination fs)))"

fun io_failure :: "io_error + unit \<Rightarrow> io_error option" where
  "io_failure (Inl e) = Some e"
| "io_failure (Inr _) = None"

definition recover_after_initial_publication :: "(inode \<Rightarrow> 'h) \<Rightarrow> path \<Rightarrow> io_error \<Rightarrow> 'h temporary \<Rightarrow> fs \<Rightarrow> store_error \<times> fs" where
  "recover_after_initial_publication handle destination original tf fs =
     (case rollback_owned_destination handle destination (tf_identity tf) fs of (rollback, fs) \<Rightarrow>
      case remove_owned_path handle tf fs of (cleanup, tf, fs) \<Rightarrow>
        ((if io_failure rollback = None \<and> io_failure cleanup = None then StoreIo original
          else StoreIo (IoRecovery original (io_failure rollback) (io_failure cleanup))),
         drop_temporary handle tf fs))"

definition publish_no_replace_with :: "(path \<Rightarrow> fs \<Rightarrow> (io_error + unit) \<times> fs) \<Rightarrow> (path \<Rightarrow> fs \<Rightarrow> (io_error + unit) \<times> fs)
    \<Rightarrow> (inode \<Rightarrow> 'h) \<Rightarrow> path \<Rightarrow> 'h temporary \<Rightarrow> fs \<Rightarrow> (unit, store_error) result \<times> fs" where
  "publish_no_replace_with remove_temporary sync_directory handle target tf fs =
     (if tf_file tf = None
      then (Err (StoreIo (OtherIo ''persistent-index temporary file is already closed'')), drop_temporary handle tf fs)
      else
        case verify_owned_path handle (tf\<lparr>tf_file := None\<rparr>) fs of
          (Inl e, tf, fs) \<Rightarrow> (case cleanup_after handle e tf fs of (error, fs) \<Rightarrow> (Err error, fs))
        | (Inr _, tf, fs) \<Rightarrow>
            (case fs_hard_link (tf_path tf) target fs of
               (Inl e, fs) \<Rightarrow> (case cleanup_after handle e tf fs of (error, fs) \<Rightarrow> (Err error, fs))
             | (Inr _, fs) \<Rightarrow>
                 (case remove_temporary (tf_path tf) fs of
                    (Inl e, fs) \<Rightarrow> (case recover_after_initial_publication handle target e tf fs of (error, fs) \<Rightarrow> (Err error, fs))
                  | (Inr _, fs) \<Rightarrow>
                      let tf = tf\<lparr>tf_owns_path := False\<rparr>
                      in case sync_directory target fs of
                           (Inl e, fs) \<Rightarrow> (case recover_after_initial_publication handle target e tf fs of (error, fs) \<Rightarrow> (Err error, fs))
                         | (Inr _, fs) \<Rightarrow> (Ok (), drop_temporary handle tf fs))))"

definition publish_no_replace :: "(inode \<Rightarrow> 'h) \<Rightarrow> path \<Rightarrow> 'h temporary \<Rightarrow> fs \<Rightarrow> (unit, store_error) result \<times> fs" where
  "publish_no_replace = publish_no_replace_with fs_remove_file sync_parent_directory"

section \<open>Creating, opening and committing a store\<close>

definition create_parent_if_needed :: "path \<Rightarrow> fs \<Rightarrow> (io_error + unit) \<times> fs" where
  "create_parent_if_needed p fs = (if butlast p = [] then (Inr (), fs) else fs_create_dir_all (butlast p) fs)"

definition ensure_destination_absent :: "path \<Rightarrow> fs \<Rightarrow> (unit, store_error) result \<times> fs" where
  "ensure_destination_absent p fs =
     (case fs_symlink_metadata p fs of
        (Inr _, fs) \<Rightarrow> (Err (StoreIo IoAlreadyExists), fs)
      | (Inl e, fs) \<Rightarrow> if io_kind e = IoNotFound then (Ok (), fs) else (Err (StoreIo e), fs))"

definition store_open :: "(bytes \<Rightarrow> u32) \<Rightarrow> 'c crc_hasher \<Rightarrow> path \<Rightarrow> signature_scheme \<Rightarrow> fs \<Rightarrow> (store, store_error) result \<times> fs" where
  "store_open crc hasher p scheme fs =
     (case fs_open p fs of
        (Inl e, fs) \<Rightarrow> (Err (StoreIo e), fs)
      | (Inr r, fs) \<Rightarrow> (store_open_file crc hasher p scheme r, fs))"

definition stage_snapshot :: "(bytes \<Rightarrow> u32) \<Rightarrow> (inode \<Rightarrow> 'h) \<Rightarrow> store \<Rightarrow> fs \<Rightarrow> ('h temporary, store_error) result \<times> fs" where
  "stage_snapshot crc handle s fs =
     st_then (encode_snapshot crc s, fs) (\<lambda>snapshot fs.
     case create_parent_if_needed (so_path s) fs of
       (Inl e, fs) \<Rightarrow> (Err (StoreIo e), fs)
     | (Inr _, fs) \<Rightarrow>
         st_then (allocate handle (so_path s) fs) (\<lambda>tf fs.
         case write_synced snapshot tf fs of
           (Inl e, fs) \<Rightarrow> (case cleanup_after handle e tf fs of (error, fs) \<Rightarrow> (Err error, fs))
         | (Inr _, fs) \<Rightarrow> (Ok tf, fs)))"

text \<open>An operation on the store returns the store beside its outcome; \<open>recovering\<close> is \<open>rebuild_overlay_all\<close> followed by
  the return of an error.\<close>

definition recovering :: "store_error \<Rightarrow> bool \<Rightarrow> store \<Rightarrow> (unit, store_error) result \<times> store" where
  "recovering e mark s =
     (case rebuild_overlay_all s of
        Ok s \<Rightarrow> (Err e, if mark then s\<lparr>so_dirty := True\<rparr> else s)
      | Err e' \<Rightarrow> (Err e', s)
      | Panic \<Rightarrow> (Panic, s))"

definition refresh_after_commit :: "(bytes \<Rightarrow> u32) \<Rightarrow> 'c crc_hasher \<Rightarrow> store_error option \<Rightarrow> store \<Rightarrow> fs
    \<Rightarrow> (unit, store_error) result \<times> store \<times> fs" where
  "refresh_after_commit crc hasher parent_error s fs =
     (case store_open crc hasher (so_path s) (so_scheme s) fs of
        (Ok refreshed, fs) \<Rightarrow>
          let refreshed = (if parent_error \<noteq> None then refreshed\<lparr>so_dirty := True\<rparr> else refreshed);
              s = refreshed\<lparr>so_query_metrics := so_query_metrics s\<rparr>
          in ((case parent_error of None \<Rightarrow> Ok () | Some e \<Rightarrow> Err e), s, fs)
      | (Err e, fs) \<Rightarrow> (case recovering e True s of (r, s) \<Rightarrow> (r, s, fs))
      | (Panic, fs) \<Rightarrow> (Panic, s, fs))"

definition store_commit :: "(bytes \<Rightarrow> u32) \<Rightarrow> 'c crc_hasher \<Rightarrow> (inode \<Rightarrow> 'h) \<Rightarrow> bool \<Rightarrow> store \<Rightarrow> fs
    \<Rightarrow> (unit, store_error) result \<times> store \<times> fs" where
  "store_commit crc hasher handle sync_parent s fs =
     (if \<not> so_dirty s
      then if sync_parent
           then case sync_parent_directory (so_path s) fs of
                  (Inl e, fs) \<Rightarrow> (Err (StoreIo e), s, fs)
                | (Inr _, fs) \<Rightarrow> (Ok (), s, fs)
           else (Ok (), s, fs)
      else
        case stage_snapshot crc handle s fs of
          (Err e, fs) \<Rightarrow> (Err e, s, fs)
        | (Panic, fs) \<Rightarrow> (Panic, s, fs)
        | (Ok temporary, fs) \<Rightarrow>
            let s = s\<lparr>so_base := None\<rparr>
            in case publish_replace handle (so_path s) temporary fs of
                 (Err e, fs) \<Rightarrow> (case recovering e False s of (r, s) \<Rightarrow> (r, s, fs))
               | (Panic, fs) \<Rightarrow> (Panic, s, fs)
               | (Ok _, fs) \<Rightarrow>
                   (case (if sync_parent then (case sync_parent_directory (so_path s) fs of (r, fs) \<Rightarrow> (io_failure r, fs)) else (None, fs)) of
                      (parent_error, fs) \<Rightarrow> refresh_after_commit crc hasher (map_option StoreIo parent_error) s fs))"

definition store_flush :: "(bytes \<Rightarrow> u32) \<Rightarrow> 'c crc_hasher \<Rightarrow> (inode \<Rightarrow> 'h) \<Rightarrow> store \<Rightarrow> fs \<Rightarrow> (unit, store_error) result \<times> store \<times> fs" where
  "store_flush crc hasher handle = store_commit crc hasher handle False"

definition store_sync :: "(bytes \<Rightarrow> u32) \<Rightarrow> 'c crc_hasher \<Rightarrow> (inode \<Rightarrow> 'h) \<Rightarrow> store \<Rightarrow> fs \<Rightarrow> (unit, store_error) result \<times> store \<times> fs" where
  "store_sync crc hasher handle = store_commit crc hasher handle True"

definition store_close :: "(bytes \<Rightarrow> u32) \<Rightarrow> 'c crc_hasher \<Rightarrow> (inode \<Rightarrow> 'h) \<Rightarrow> store \<Rightarrow> fs \<Rightarrow> (unit, store_error) result \<times> fs" where
  "store_close crc hasher handle s fs = (case store_sync crc hasher handle s fs of (r, s, fs) \<Rightarrow> (r, fs))"

text \<open>The hook runs between staging and publication; the public constructors pass the one that does
  nothing.\<close>

definition commit_initial :: "(bytes \<Rightarrow> u32) \<Rightarrow> 'c crc_hasher \<Rightarrow> (inode \<Rightarrow> 'h) \<Rightarrow> (fs \<Rightarrow> (unit, store_error) result \<times> fs) \<Rightarrow> store \<Rightarrow> fs
    \<Rightarrow> (unit, store_error) result \<times> store \<times> fs" where
  "commit_initial crc hasher handle before_publish s fs =
     (case stage_snapshot crc handle s fs of
        (Err e, fs) \<Rightarrow> (Err e, s, fs)
      | (Panic, fs) \<Rightarrow> (Panic, s, fs)
      | (Ok temporary, fs) \<Rightarrow>
          (case before_publish fs of
             (Err e, fs) \<Rightarrow> (Err e, s, drop_temporary handle temporary fs)
           | (Panic, fs) \<Rightarrow> (Panic, s, drop_temporary handle temporary fs)
           | (Ok _, fs) \<Rightarrow>
               let s = s\<lparr>so_base := None\<rparr>
               in case publish_no_replace handle (so_path s) temporary fs of
                    (Err e, fs) \<Rightarrow> (case recovering e False s of (r, s) \<Rightarrow> (r, s, fs))
                  | (Panic, fs) \<Rightarrow> (Panic, s, fs)
                  | (Ok _, fs) \<Rightarrow> refresh_after_commit crc hasher None s fs))"

definition create_with_params_and_hook :: "(bytes \<Rightarrow> u32) \<Rightarrow> 'c crc_hasher \<Rightarrow> (inode \<Rightarrow> 'h) \<Rightarrow> path \<Rightarrow> f64 \<Rightarrow> usize \<Rightarrow> u64 \<Rightarrow> lsh_params
    \<Rightarrow> signature_scheme \<Rightarrow> (fs \<Rightarrow> (unit, store_error) result \<times> fs) \<Rightarrow> fs \<Rightarrow> (store, store_error) result \<times> fs" where
  "create_with_params_and_hook crc hasher handle p threshold num_perm seed params scheme before_publish fs =
     st_then (ensure_destination_absent p fs) (\<lambda>_ fs.
     st_then (validate_lsh_configuration scheme threshold num_perm seed params, fs) (\<lambda>_ fs.
     case commit_initial crc hasher handle before_publish (store_empty p threshold num_perm seed params scheme) fs of
       (Ok _, s, fs) \<Rightarrow> (Ok s, fs)
     | (Err e, s, fs) \<Rightarrow> (Err e, fs)
     | (Panic, s, fs) \<Rightarrow> (Panic, fs)))"

definition create_with_params :: "(bytes \<Rightarrow> u32) \<Rightarrow> 'c crc_hasher \<Rightarrow> (inode \<Rightarrow> 'h) \<Rightarrow> path \<Rightarrow> f64 \<Rightarrow> usize \<Rightarrow> u64 \<Rightarrow> lsh_params
    \<Rightarrow> signature_scheme \<Rightarrow> fs \<Rightarrow> (store, store_error) result \<times> fs" where
  "create_with_params crc hasher handle p threshold num_perm seed params scheme fs =
     create_with_params_and_hook crc hasher handle p threshold num_perm seed params scheme (\<lambda>fs. (Ok (), fs)) fs"

text \<open>The constructors of both index types: parameters are tuned first.\<close>

definition store_create :: "(f64 \<Rightarrow> f64 \<Rightarrow> f64) \<Rightarrow> (bytes \<Rightarrow> u32) \<Rightarrow> 'c crc_hasher \<Rightarrow> (inode \<Rightarrow> 'h) \<Rightarrow> path \<Rightarrow> f64 \<Rightarrow> usize \<Rightarrow> u64
    \<Rightarrow> signature_scheme \<Rightarrow> fs \<Rightarrow> (store, store_error) result \<times> fs" where
  "store_create pow crc hasher handle p threshold num_perm seed scheme fs =
     st_then (map_err StoreIndex (index_new pow threshold num_perm seed), fs) (\<lambda>reference fs.
     create_with_params crc hasher handle p threshold num_perm seed (idx_params reference) scheme fs)"

definition store_file_stats :: "store \<Rightarrow> fs \<Rightarrow> (store_stats, store_error) result \<times> fs" where
  "store_file_stats s fs =
     (case fs_metadata_len (so_path s) fs of
        (Inr n, fs) \<Rightarrow> (persistent_stats (Ok n) s, fs)
      | (Inl e, fs) \<Rightarrow> (persistent_stats (Err e) s, fs))"

section \<open>Temporary files leave everything else alone\<close>

definition owned :: "path \<Rightarrow> disk \<Rightarrow> 'h temporary \<Rightarrow> bool" where
  "owned t d0 tf \<longleftrightarrow> dk_entries d0 (resolve (tf_path tf)) = None \<and> resolve (tf_path tf) \<noteq> t"

lemma owned_upd [simp]: "owned t d0 (tf\<lparr>tf_file := x\<rparr>) = owned t d0 tf" "owned t d0 (tf\<lparr>tf_owns_path := b\<rparr>) = owned t d0 tf"
  by (simp_all add: owned_def)

lemma verify_owned_path_reads:
  assumes "verify_owned_path handle tf fs = (r, tf', fs')"
  shows "moves P fs fs' \<and> fs_disk fs' = fs_disk fs \<and> tf_path tf' = tf_path tf \<and> tf_identity tf' = tf_identity tf \<and> tf_file tf' = tf_file tf
    \<and> (\<forall>u. r = Inr u \<longrightarrow> tf' = tf)"
proof -
  obtain r1 fs1 where one: "fs_symlink_metadata (tf_path tf) fs = (r1, fs1)" by fastforce
  obtain r2 fs2 where two: "fs_handle_from_path handle (tf_path tf) fs1 = (r2, fs2)" by fastforce
  note first = fs_symlink_metadata_reads [OF one, of P]
  note second = fs_handle_from_path_reads [OF two, of P]
  have "(fs' = fs1 \<or> fs' = fs2) \<and> tf_path tf' = tf_path tf \<and> tf_identity tf' = tf_identity tf \<and> tf_file tf' = tf_file tf \<and> (\<forall>u. r = Inr u \<longrightarrow> tf' = tf)"
    using assms one two by (auto simp: verify_owned_path_def split: sum.splits node.splits if_splits)
  then show ?thesis using first second moves_trans by metis
qed

text \<open>What removing the temporary file keeps, every way of giving it up keeps.\<close>

definition removal_keeps :: "(disk \<Rightarrow> bool) \<Rightarrow> 'h temporary \<Rightarrow> bool" where
  "removal_keeps P tf \<longleftrightarrow> (\<forall>d d'. P d \<longrightarrow> sys_remove_file (tf_path tf) d = Inr ((), d') \<longrightarrow> P d')"

lemma removal_keeps_upd [simp]: "removal_keeps P (tf\<lparr>tf_file := x\<rparr>) = removal_keeps P tf" "removal_keeps P (tf\<lparr>tf_owns_path := b\<rparr>) = removal_keeps P tf"
  by (simp_all add: removal_keeps_def)

lemma owned_removal: "owned t d0 tf \<Longrightarrow> removal_keeps (keeps t d0) tf"
  by (auto simp: removal_keeps_def owned_def intro: keeps_remove)

lemma fs_remove_file_moves: "fs_remove_file p fs = (r, fs') \<Longrightarrow> (\<And>d d'. P d \<Longrightarrow> sys_remove_file p d = Inr ((), d') \<Longrightarrow> P d') \<Longrightarrow> moves P fs fs'"
  unfolding fs_remove_file_def by (erule fs_call_moves) simp

lemma remove_owned_path_moves:
  assumes "remove_owned_path handle tf fs = (r, tf', fs')" and "removal_keeps P tf"
  shows "moves P fs fs' \<and> tf_path tf' = tf_path tf"
proof -
  let ?tf = "tf\<lparr>tf_file := None\<rparr>"
  obtain r1 tf1 fs1 where one: "verify_owned_path handle ?tf fs = (r1, tf1, fs1)" by (cases "verify_owned_path handle ?tf fs") auto
  obtain r2 fs2 where two: "fs_remove_file (tf_path tf1) fs1 = (r2, fs2)" by fastforce
  note first = verify_owned_path_reads [OF one, of P]
  have "moves P fs1 fs2" using fs_remove_file_moves [OF two] assms(2) first by (simp add: removal_keeps_def)
  moreover have "(fs' = fs \<or> fs' = fs1 \<or> fs' = fs2) \<and> tf_path tf' = tf_path tf"
    using assms(1) one two first by (auto simp: remove_owned_path_def Let_def split: sum.splits if_splits)
  ultimately show ?thesis using first moves_trans moves_refl by metis
qed

lemma drop_temporary_moves: "removal_keeps P tf \<Longrightarrow> moves P fs (drop_temporary handle tf fs)"
  using remove_owned_path_moves [of handle tf fs] unfolding drop_temporary_def by (metis prod.collapse)

lemma drop_temporary_released [simp]: "\<not> tf_owns_path tf \<Longrightarrow> drop_temporary handle tf fs = fs"
  by (simp add: drop_temporary_def remove_owned_path_def)

lemma cleanup_after_moves:
  assumes "cleanup_after handle e tf fs = (e', fs')" and "removal_keeps P tf"
  shows "moves P fs fs'"
proof -
  obtain r tf1 fs1 where one: "remove_owned_path handle tf fs = (r, tf1, fs1)" by (cases "remove_owned_path handle tf fs") auto
  note first = remove_owned_path_moves [OF one assms(2)]
  then have "removal_keeps P tf1" using assms(2) by (simp add: removal_keeps_def)
  from drop_temporary_moves [OF this] have "moves P fs1 fs'"
    using assms(1) one by (auto simp: cleanup_after_def split: sum.splits)
  with first show ?thesis by (metis moves_trans)
qed

lemmas cleanup_after_keeps = cleanup_after_moves [OF _ owned_removal]

section \<open>Staging\<close>

text \<open>A staged snapshot: a fresh synced file with the given bytes, under a name that was free.\<close>

definition staged :: "(inode \<Rightarrow> 'h) \<Rightarrow> path \<Rightarrow> disk \<Rightarrow> bytes \<Rightarrow> 'h temporary \<Rightarrow> disk \<Rightarrow> bool" where
  "staged handle t d0 bs tf d \<longleftrightarrow> keeps t d0 d \<and> owned t d0 tf \<and> tf_owns_path tf \<and> (\<exists>i \<ge> dk_next d0. tf_file tf = Some i \<and> tf_identity tf = handle i
     \<and> i < dk_next d \<and> dk_entries d (resolve (tf_path tf)) = Some (FileNode i) \<and> dk_data d i = bs \<and> dk_synced d i)"

definition allocated :: "(inode \<Rightarrow> 'h) \<Rightarrow> path \<Rightarrow> disk \<Rightarrow> 'h temporary \<Rightarrow> disk \<Rightarrow> bool" where
  "allocated handle t d0 tf d \<longleftrightarrow> owned t d0 tf \<and> tf_owns_path tf \<and> (\<exists>i \<ge> dk_next d0. tf_file tf = Some i \<and> tf_identity tf = handle i
     \<and> i < dk_next d \<and> dk_entries d (resolve (tf_path tf)) = Some (FileNode i) \<and> dk_data d i = [])"

text \<open>No name of the sequence is the name of the target.\<close>

definition not_temporary :: "u32 \<Rightarrow> path \<Rightarrow> bool" where
  "not_temporary pid p \<longleftrightarrow> file_name p \<noteq> None \<and> (\<forall>sequence. file_name p \<noteq> Some (temporary_name pid sequence))"

lemma temporary_name_plain: "temporary_name pid sequence \<noteq> ''.''"
  by (simp add: temporary_name_def)

lemma cleanup_failed_allocation_keeps:
  assumes "cleanup_failed_allocation p e fs = (e', fs')" and "dk_entries d0 (resolve p) = None" and "resolve p \<noteq> t"
  shows "moves (keeps t d0) fs fs'"
proof -
  obtain r fs1 where one: "fs_remove_file p fs = (r, fs1)" by fastforce
  have "fs' = fs1" using assms(1) one by (auto simp: cleanup_failed_allocation_def split: sum.splits if_splits)
  then show ?thesis using fs_remove_file_keeps [OF one assms(2,3)] by simp
qed

lemma fresh_name:
  assumes "keeps t d0 d" and "dk_entries d p = None" shows "dk_entries d0 p = None"
proof (rule ccontr)
  assume "dk_entries d0 p \<noteq> None"
  with assms show False by (auto simp: keeps_def)
qed

lemma allocate_loop_keeps:
  assumes "allocate_loop handle n (parent_dir p) fs = (r, fs')" and "not_temporary (fs_process_id fs) p" and "keeps (resolve p) d0 (fs_disk fs)"
  shows "moves (keeps (resolve p) d0) fs fs' \<and> (\<forall>tf. r = Ok tf \<longrightarrow> allocated handle (resolve p) d0 tf (fs_disk fs')) \<and> r \<noteq> Panic"
  using assms
proof (induction n arbitrary: fs)
  case 0
  then show ?case by auto
next
  case (Suc n)
  obtain name where name: "file_name p = Some name" using Suc.prems(2) by (auto simp: not_temporary_def)
  define fs0 where "fs0 = fs\<lparr>fs_sequence := fs_sequence fs + 1\<rparr>"
  define q where "q = parent_dir p @ [temporary_name (fs_process_id fs) (fs_sequence fs)]"
  have "temporary_name (fs_process_id fs) (fs_sequence fs) \<noteq> name" using Suc.prems(2) name by (auto simp: not_temporary_def)
  note q = resolve_beside(1,2) [OF name this temporary_name_plain, folded q_def]
  obtain r1 fs1 where one: "fs_create_new q fs0 = (r1, fs1)" by fastforce
  have m1: "moves (keeps (resolve p) d0) fs fs1"
    using fs_create_new_keeps [OF one q] by (simp add: fs0_def moves_sequence)
  have k1: "keeps (resolve p) d0 (fs_disk fs1)" by (rule moves_last [OF m1 Suc.prems(3)])
  show ?case
  proof (cases r1)
    case (Inl e)
    show ?thesis
    proof (cases "io_kind e = IoAlreadyExists")
      case True
      then have "allocate_loop handle n (parent_dir p) fs1 = (r, fs')"
        using Suc.prems(1) one Inl by (simp add: Let_def fs0_def [symmetric] q_def [symmetric])
      moreover have "fs_process_id fs1 = fs_process_id fs" using m1 by (simp add: moves_def)
      ultimately show ?thesis using Suc.IH [of fs1] Suc.prems(2) k1 m1 moves_trans by metis
    next
      case False
      then have "r = Err (StoreIo e)" "fs' = fs1"
        using Suc.prems(1) one Inl by (simp_all add: Let_def fs0_def q_def)
      then show ?thesis using m1 by simp
    qed
  next
    case (Inr i)
    have new: "sys_create_new q (fs_disk fs0) = Inr (i, fs_disk fs1)" using fs_call_Inr one Inr by (simp add: fs_create_new_def)
    have "keeps (resolve p) d0 (fs_disk fs0)" using Suc.prems(3) by (simp add: fs0_def)
    note c = keeps_create_new [OF this new q]
    have free: "dk_entries d0 (resolve q) = None" by (rule fresh_name [OF _ c(4)]) (use Suc.prems(3) in \<open>simp add: fs0_def\<close>)
    obtain r2 fs2 where two: "fs_handle_from_file handle i fs1 = (r2, fs2)" by fastforce
    note second = fs_handle_from_file_reads [OF two, of "keeps (resolve p) d0"]
    have m2: "moves (keeps (resolve p) d0) fs fs2" using m1 second moves_trans by metis
    show ?thesis
    proof (cases r2)
      case Inl2: (Inl e)
      obtain e' fs3 where three: "cleanup_failed_allocation q e fs2 = (e', fs3)" by fastforce
      then have "r = Err e'" "fs' = fs3"
        using Suc.prems(1) one two Inr Inl2 by (simp_all add: Let_def fs0_def q_def)
      then show ?thesis using cleanup_failed_allocation_keeps [OF three free q(1)] m2 moves_trans by blast
    next
      case Inr2: (Inr h)
      have "r = Ok \<lparr>tf_path = q, tf_file = Some i, tf_identity = h, tf_owns_path = True\<rparr>" "fs' = fs2"
        using Suc.prems(1) one two Inr Inr2 by (simp_all add: Let_def fs0_def q_def)
      moreover have "h = handle i" using fs_call_Inr [of "\<lambda>d. Inr (handle i, d)" fs1] two Inr2 by (simp add: fs_handle_from_file_def)
      ultimately show ?thesis using m2 second c free q(1) by (auto simp: allocated_def owned_def)
    qed
  qed
qed

lemma write_synced_keeps:
  assumes w: "write_synced bs tf fs = (r, fs')" and tf: "allocated handle t d0 tf (fs_disk fs)" and k: "keeps t d0 (fs_disk fs)"
  shows "moves (keeps t d0) fs fs' \<and> (\<forall>u. r = Inr u \<longrightarrow> staged handle t d0 bs tf (fs_disk fs'))"
proof -
  obtain i where i: "tf_file tf = Some i" "dk_next d0 \<le> i" "tf_identity tf = handle i" "i < dk_next (fs_disk fs)"
    "dk_entries (fs_disk fs) (resolve (tf_path tf)) = Some (FileNode i)" "dk_data (fs_disk fs) i = []" and own: "owned t d0 tf" "tf_owns_path tf"
    using tf by (auto simp: allocated_def)
  obtain r1 fs1 where one: "fs_write_all i bs fs = (r1, fs1)" by fastforce
  obtain r2 fs2 where two: "fs_sync_all i fs1 = (r2, fs2)" by fastforce
  note m1 = fs_write_all_keeps [OF one i(2), of t]
  note m2 = fs_sync_all_keeps [OF two i(2), of t]
  have cases: "(r1 \<noteq> Inr () \<and> (\<forall>u. r \<noteq> Inr u) \<and> fs' = fs1) \<or> (r1 = Inr () \<and> r = r2 \<and> fs' = fs2)"
    using w one two i(1) by (auto simp: write_synced_def io_then_def split: sum.splits)
  have "staged handle t d0 bs tf (fs_disk fs2)" if "r1 = Inr ()" "r2 = Inr u" for u
  proof -
    have d1: "fs_disk fs1 = append_data i bs (fs_disk fs)"
      using that(1) one by (cases rule: fs_write_all_cases [of i bs fs]) auto
    have "sys_sync i (fs_disk fs1) = Inr (u, fs_disk fs2)" using that(2) two fs_call_Inr by (simp add: fs_sync_all_def)
    then have d2: "fs_disk fs2 = (fs_disk fs1)\<lparr>dk_synced := (dk_synced (fs_disk fs1))(i := True)\<rparr>" by (simp add: sys_sync_def)
    have "keeps t d0 (fs_disk fs2)" using moves_last [OF m2] moves_last [OF m1 k] by blast
    moreover have "i < dk_next (fs_disk fs2)" "dk_entries (fs_disk fs2) (resolve (tf_path tf)) = Some (FileNode i)" "dk_data (fs_disk fs2) i = bs"
      "dk_synced (fs_disk fs2) i"
      using i(4-6) unfolding d2 d1 append_data_def by simp_all
    ultimately show ?thesis using i(1-3) own unfolding staged_def by blast
  qed
  then show ?thesis using cases m1 m2 moves_trans by (metis (full_types))
qed

lemma create_parent_keeps:
  assumes "create_parent_if_needed p fs = (r, fs')" and "file_name p = Some name"
  shows "moves (keeps (resolve p) d0) fs fs'"
  using assms fs_create_dir_all_keeps [of "butlast p" fs r fs' "resolve p"] resolve_target [OF assms(2)]
  by (auto simp: create_parent_if_needed_def split: if_splits)

lemma stage_snapshot_keeps:
  assumes st: "stage_snapshot crc handle s fs = (r, fs')" and name: "not_temporary (fs_process_id fs) (so_path s)"
    and k: "keeps (resolve (so_path s)) d0 (fs_disk fs)" and enc: "encode_snapshot crc s \<noteq> Panic"
  shows "moves (keeps (resolve (so_path s)) d0) fs fs' \<and> r \<noteq> Panic
    \<and> (\<forall>tf. r = Ok tf \<longrightarrow> (\<exists>bs. encode_snapshot crc s = Ok bs \<and> staged handle (resolve (so_path s)) d0 bs tf (fs_disk fs')))"
proof (cases "encode_snapshot crc s")
  case (Err e)
  then show ?thesis using st by (auto simp: stage_snapshot_def)
next
  case (Ok bs)
  let ?t = "resolve (so_path s)"
  obtain base where base: "file_name (so_path s) = Some base" using name by (auto simp: not_temporary_def)
  obtain r1 fs1 where one: "create_parent_if_needed (so_path s) fs = (r1, fs1)" by fastforce
  note m1 = create_parent_keeps [OF one base, of d0]
  note k1 = moves_last [OF m1 k]
  show ?thesis
  proof (cases r1)
    case (Inl e)
    then show ?thesis using st Ok one m1 by (auto simp: stage_snapshot_def)
  next
    case (Inr u)
    obtain r2 fs2 where two: "allocate handle (so_path s) fs1 = (r2, fs2)" by fastforce
    have pid: "fs_process_id fs1 = fs_process_id fs" using m1 by (simp add: moves_def)
    have "allocate_loop handle TEMPORARY_ALLOCATION_ATTEMPTS (parent_dir (so_path s)) fs1 = (r2, fs2)" using two base by (simp add: allocate_def)
    note alloc = allocate_loop_keeps [OF this _ k1] name pid
    then have m2: "moves (keeps ?t d0) fs1 fs2" "r2 \<noteq> Panic" and tf: "\<And>tf. r2 = Ok tf \<Longrightarrow> allocated handle ?t d0 tf (fs_disk fs2)" by auto
    show ?thesis
    proof (cases r2)
      case (Err e)
      then show ?thesis using st Ok one Inr two m1 m2 moves_trans by (auto simp: stage_snapshot_def)
    next
      case Ok2: (Ok tf)
      obtain r3 fs3 where three: "write_synced bs tf fs2 = (r3, fs3)" by fastforce
      note m3 = write_synced_keeps [OF three tf [OF Ok2] moves_last [OF m2(1) k1]]
      have m: "moves (keeps ?t d0) fs fs3" using m1 m2(1) m3 moves_trans by metis
      show ?thesis
      proof (cases r3)
        case Inl3: (Inl e)
        obtain e' fs4 where four: "cleanup_after handle e tf fs3 = (e', fs4)" by fastforce
        have "owned ?t d0 tf" using tf [OF Ok2] by (simp add: allocated_def)
        from cleanup_after_keeps [OF four this] have "moves (keeps ?t d0) fs fs4" using m moves_trans by metis
        then show ?thesis using st Ok one Inr two Ok2 three Inl3 four by (auto simp: stage_snapshot_def)
      next
        case Inr3: (Inr u)
        then show ?thesis using st Ok one Inr two Ok2 three m m3 by (auto simp: stage_snapshot_def)
      qed
    qed (use m2 in simp)
  qed
qed (use enc in simp)

section \<open>Replacing the published file\<close>

definition published :: "path \<Rightarrow> bytes \<Rightarrow> disk \<Rightarrow> bool" where
  "published t bs d \<longleftrightarrow> disk_wf d \<and> (\<exists>i. dk_entries d t = Some (FileNode i) \<and> dk_data d i = bs \<and> dk_synced d i)"

lemma durable_published: "published (resolve p) bs d \<Longrightarrow> durable p d = Some bs"
  by (auto simp: published_def durable_def)

lemma rename_publishes:
  assumes s: "staged handle t d0 bs tf d" and wf: "disk_wf d0" and r: "sys_rename (tf_path tf) p d = Inr (u, d')" and t: "resolve p = t"
  shows "published t bs d'"
proof -
  let ?q = "resolve (tf_path tf)"
  obtain i where i: "dk_next d0 \<le> i" "dk_entries d ?q = Some (FileNode i)" "dk_data d i = bs" "dk_synced d i" and k: "keeps t d0 d" and "?q \<noteq> t"
    using s by (auto simp: staged_def owned_def)
  have "dk_entries d t \<noteq> Some (FileNode i)"
  proof
    assume "dk_entries d t = Some (FileNode i)"
    then have "dk_entries d0 t = Some (FileNode i)" using k by (simp add: keeps_def)
    then have "node_ok (dk_next d0) (FileNode i)" using wf by (simp add: disk_wf_def)
    then show False using i(1) by (simp add: node_ok_def)
  qed
  then have d': "d' = d\<lparr>dk_entries := (dk_entries d)(t \<mapsto> FileNode i, ?q := None)\<rparr>" and "t \<noteq> []"
    using r i(2) t by (auto simp: sys_rename_def Let_def is_dir_def split: if_splits)
  have "node_ok (dk_next d) (FileNode i)" using keeps_wf [OF k] i(2) by (simp add: disk_wf_def)
  then have "disk_wf d'" using keeps_wf [OF k] \<open>t \<noteq> []\<close> by (auto simp: d' disk_wf_def)
  then show ?thesis using i \<open>?q \<noteq> t\<close> by (auto simp: published_def d')
qed

lemma publish_replace_atomic:
  assumes p: "publish_replace handle p tf fs = (r, fs')" and s: "staged handle (resolve p) d0 bs tf (fs_disk fs)" and wf: "disk_wf d0"
  shows "evolves (\<lambda>d. keeps (resolve p) d0 d \<or> published (resolve p) bs d) fs fs' \<and> fs_reads fs' = fs_reads fs \<and> r \<noteq> Panic
    \<and> (if r = Ok () then published (resolve p) bs (fs_disk fs') else keeps (resolve p) d0 (fs_disk fs'))"
proof -
  let ?t = "resolve p" and ?P = "\<lambda>d. keeps (resolve p) d0 d \<or> published (resolve p) bs d"
  have k: "keeps ?t d0 (fs_disk fs)" and own: "owned ?t d0 tf" using s by (simp_all add: staged_def)
  obtain r1 tf1 fs1 where one: "verify_owned_path handle tf fs = (r1, tf1, fs1)" by (cases "verify_owned_path handle tf fs") auto
  note m1 = verify_owned_path_reads [OF one, of "keeps ?t d0"]
  have keeping: ?thesis if "moves (keeps ?t d0) fs fs'" "r = Err e" for e
    using that moves_evolves [OF that(1) k] moves_last [OF that(1) k] by (auto simp: moves_def elim: evolves_mono)
  show ?thesis
  proof (cases r1)
    case (Inl e)
    obtain e' fs2 where two: "cleanup_after handle e tf1 fs1 = (e', fs2)" by fastforce
    have "owned ?t d0 tf1" using own m1 by (simp add: owned_def)
    from cleanup_after_keeps [OF two this] have "moves (keeps ?t d0) fs fs2" using m1 moves_trans by metis
    moreover have "r = Err e'" "fs' = fs2" using p one Inl two by (simp_all add: publish_replace_def)
    ultimately show ?thesis using keeping by blast
  next
    case (Inr u)
    have tf1: "tf1 = tf" using m1 Inr by simp
    obtain r2 fs2 where two: "fs_rename (tf_path tf) p fs1 = (r2, fs2)" by fastforce
    show ?thesis
    proof (cases r2)
      case Inl2: (Inl e)
      then have same: "fs_disk fs2 = fs_disk fs1" "moves (keeps ?t d0) fs1 fs2"
        using two by (cases rule: fs_call_cases [of "sys_rename (tf_path tf) p" fs1]; auto simp: fs_rename_def)+
      obtain e' fs3 where three: "cleanup_after handle e (tf\<lparr>tf_file := None\<rparr>) fs2 = (e', fs3)" by fastforce
      have "owned ?t d0 (tf\<lparr>tf_file := None\<rparr>)" using own by simp
      from cleanup_after_keeps [OF three this] have "moves (keeps ?t d0) fs fs3" using m1 same(2) moves_trans by metis
      moreover have "r = Err e'" "fs' = fs3" using p one Inr two Inl2 three by (simp_all add: publish_replace_def Let_def tf1)
      ultimately show ?thesis using keeping by blast
    next
      case Inr2: (Inr v)
      then have "sys_rename (tf_path tf) p (fs_disk fs1) = Inr (v, fs_disk fs2)" using two fs_call_Inr by (simp add: fs_rename_def)
      then have pub: "published ?t bs (fs_disk fs2)" using rename_publishes [OF s wf] m1 by simp
      have "moves ?P fs1 fs2"
        using two unfolding fs_rename_def by (rule fs_call_moves) (use pub fs_call_Inr two Inr2 fs_rename_def in fastforce)
      moreover have "moves ?P fs fs1" using verify_owned_path_reads [OF one] by blast
      ultimately have "moves ?P fs fs2" using moves_trans by metis
      then have "evolves ?P fs fs2" "fs_reads fs2 = fs_reads fs" using k by (auto simp: moves_def)
      then show ?thesis using pub p one Inr two Inr2 by (auto simp: publish_replace_def Let_def tf1)
    qed
  qed
qed

section \<open>Refreshing the handle\<close>

text \<open>Two handles on the same index: the same file, configuration and contents.\<close>

definition same_handle :: "store \<Rightarrow> store \<Rightarrow> bool" where
  "same_handle s s' \<longleftrightarrow> so_path s' = so_path s \<and> so_key_hashes s' = so_key_hashes s \<and> so_params s' = so_params s \<and> so_num_perm s' = so_num_perm s
     \<and> so_seed s' = so_seed s \<and> so_threshold s' = so_threshold s \<and> so_scheme s' = so_scheme s"

lemma same_handle_valid: "same_handle s s' \<Longrightarrow> config_valid s' = config_valid s \<and> keys_valid s' = keys_valid s \<and> encode_snapshot crc s' = encode_snapshot crc s
    \<and> contents s' = contents s"
  by (auto simp: same_handle_def config_valid_def keys_valid_def encode_snapshot_def)

lemma store_inv_ignores [simp]: "store_inv crc (s\<lparr>so_dirty := b\<rparr>) = store_inv crc s" "store_inv crc (s\<lparr>so_query_metrics := m\<rparr>) = store_inv crc s"
  unfolding store_inv_def config_valid_def keys_valid_def overlay_part_def base_agrees_def by (cases "so_base s"; simp)+

lemma recovering_law:
  assumes "config_valid s" and "keys_valid s"
  shows "\<exists>s'. recovering e mark s = (Err e, s') \<and> store_inv crc s' \<and> same_handle s s' \<and> (so_dirty s' \<longleftrightarrow> so_dirty s \<or> mark)"
  using rebuild_overlay_all_law [OF assms, of crc] by (auto simp: recovering_def same_handle_def)

lemma fs_open_published:
  assumes "fs_open p fs = (r, fs')" and "published (resolve p) bs (fs_disk fs)"
  shows "evolves P fs fs' \<or> \<not> P (fs_disk fs)" "fs_disk fs' = fs_disk fs"
    "r = Inr rd \<Longrightarrow> rd_bytes rd = bs \<and> rd_pos rd = 0 \<and> (fs_reads fs = [] \<longrightarrow> rd_faults rd = [])"
proof -
  obtain i where i: "dk_entries (fs_disk fs) (resolve p) = Some (FileNode i)" "dk_data (fs_disk fs) i = bs" using assms(2) by (auto simp: published_def)
  have f: "sys_follow p (fs_disk fs) = Inr (FileNode i, fs_disk fs)" using i by (simp add: sys_follow_def follow.simps)
  obtain r1 fs1 where one: "fs_call (sys_follow p) fs = (r1, fs1)" by fastforce
  have m: "moves P fs fs1 \<and> fs_disk fs1 = fs_disk fs" using fs_call_read [OF one] sys_follow_same by blast
  have "r1 = Inr n \<Longrightarrow> n = FileNode i" for n using fs_call_Inr [of "sys_follow p" fs n fs1] one f by simp
  then have c: "(\<exists>e. r1 = Inl e \<and> r = Inl e \<and> fs' = fs1) \<or> (r = Inr \<lparr>rd_bytes = bs, rd_pos = 0, rd_faults = (case fs_reads fs1 of [] \<Rightarrow> [] | r # rs \<Rightarrow> r)\<rparr>
       \<and> fs' = fs1\<lparr>fs_reads := tl (fs_reads fs1)\<rparr>)"
    using assms(1) one i m by (cases r1) (auto simp: fs_open_def io_then_def)
  then show "fs_disk fs' = fs_disk fs" using m by auto
  show "r = Inr rd \<Longrightarrow> rd_bytes rd = bs \<and> rd_pos rd = 0 \<and> (fs_reads fs = [] \<longrightarrow> rd_faults rd = [])" using c m by (auto simp: moves_def)
  show "evolves P fs fs' \<or> \<not> P (fs_disk fs)" using c m by (auto simp: moves_def evolves_def)
qed

lemma store_open_published:
  assumes o: "store_open crc hasher (so_path s) (so_scheme s) fs = (r, fs')" and pub: "published (resolve (so_path s)) bs (fs_disk fs)"
    and valid: "config_valid s" "keys_valid s" and enc: "encode_snapshot crc s = Ok bs" and law: "hasher_law crc hasher"
  shows "(P (fs_disk fs) \<longrightarrow> evolves P fs fs') \<and> fs_disk fs' = fs_disk fs \<and> r \<noteq> Panic
    \<and> (\<forall>s'. r = Ok s' \<longrightarrow> store_inv crc s' \<and> same_handle s s' \<and> \<not> so_dirty s')"
proof -
  obtain r1 fs1 where one: "fs_open (so_path s) fs = (r1, fs1)" by fastforce
  note m = fs_open_published [OF one pub]
  have fs1: "fs' = fs1" and r: "r = (case r1 of Inl e \<Rightarrow> Err (StoreIo e) | Inr rd \<Rightarrow> store_open_file crc hasher (so_path s) (so_scheme s) rd)"
    using o one by (auto simp: store_open_def split: sum.splits)
  have "store_inv crc s' \<and> same_handle s s' \<and> \<not> so_dirty s'" if ok: "r = Ok s'" for s'
  proof -
    obtain rd where rd: "r1 = Inr rd" "store_open_file crc hasher (so_path s) (so_scheme s) rd = Ok s'" using ok r by (cases r1) simp_all
    then have "store_open_file crc hasher (so_path s) (so_scheme s) (heal rd) = Ok (heal_store s')"
      using store_open_file_tolerant [of crc hasher "so_path s" "so_scheme s"] by (simp add: tolerant_by_def)
    moreover have "heal rd = \<lparr>rd_bytes = bs, rd_pos = 0, rd_faults = []\<rparr>" using m(3) [OF rd(1)] by (cases rd) (simp add: heal_def)
    ultimately have "store_inv crc (heal_store s') \<and> same_handle s (heal_store s') \<and> \<not> so_dirty (heal_store s')"
      using reopen_law [OF valid enc law, of "so_path s"] by (auto simp: same_handle_def)
    then show ?thesis by (auto simp: same_handle_def)
  qed
  moreover have "r \<noteq> Panic" using store_open_file_safe [of crc hasher "so_path s" "so_scheme s"] r by (auto simp: safe_def split: sum.splits)
  ultimately show ?thesis using m(1) [of P] m(2) fs1 by blast
qed

lemma refresh_law:
  assumes re: "refresh_after_commit crc hasher perr s fs = (r, s', fs')" and pub: "published (resolve (so_path s)) bs (fs_disk fs)"
    and valid: "config_valid s" "keys_valid s" and enc: "encode_snapshot crc s = Ok bs" and law: "hasher_law crc hasher"
  shows "(P (fs_disk fs) \<longrightarrow> evolves P fs fs') \<and> fs_disk fs' = fs_disk fs \<and> r \<noteq> Panic \<and> store_inv crc s' \<and> same_handle s s'
    \<and> (if r = Ok () then \<not> so_dirty s' \<and> perr = None else so_dirty s')"
proof -
  obtain r1 fs1 where one: "store_open crc hasher (so_path s) (so_scheme s) fs = (r1, fs1)" by fastforce
  note o = store_open_published [OF one pub valid enc law, of P]
  show ?thesis
  proof (cases r1)
    case (Ok s1)
    then have s1: "store_inv crc s1" "same_handle s s1" "\<not> so_dirty s1" using o by auto
    then show ?thesis using re one Ok o by (cases perr) (auto simp: refresh_after_commit_def Let_def same_handle_def)
  next
    case (Err e)
    obtain s1 where s1: "recovering e True s = (Err e, s1)" "store_inv crc s1" "same_handle s s1" "so_dirty s1"
      using recovering_law [OF valid, of e True crc] by auto
    then have "r = Err e" "s' = s1" "fs' = fs1" using re one Err by (simp_all add: refresh_after_commit_def)
    then show ?thesis using s1 o by simp
  qed (use o in simp)
qed

section \<open>Commits\<close>

text \<open>The disks a commit of \<open>s\<close> passes through: the file is the old one or the new snapshot.\<close>

definition old_or_new :: "(bytes \<Rightarrow> u32) \<Rightarrow> store \<Rightarrow> disk \<Rightarrow> disk \<Rightarrow> bool" where
  "old_or_new crc s d0 d \<longleftrightarrow> keeps (resolve (so_path s)) d0 d
     \<or> (\<exists>bs. encode_snapshot crc s = Ok bs \<and> published (resolve (so_path s)) bs d)"

lemma sync_parent_directory_reads: "sync_parent_directory p fs = (r, fs') \<Longrightarrow> moves P fs fs' \<and> fs_disk fs' = fs_disk fs"
  unfolding sync_parent_directory_def by (rule fs_sync_directory_reads)

lemma commit_clean:
  assumes "\<not> so_dirty s" and "store_commit crc hasher handle sync_parent s fs = (r, s', fs')"
  shows "moves P fs fs' \<and> fs_disk fs' = fs_disk fs \<and> r \<noteq> Panic \<and> s' = s"
proof -
  obtain r1 fs1 where one: "sync_parent_directory (so_path s) fs = (r1, fs1)" by fastforce
  show ?thesis using assms one sync_parent_directory_reads [OF one, of P]
    by (auto simp: store_commit_def split: if_splits sum.splits)
qed

lemma commit_refresh:
  assumes "(case (if sync_parent then (case sync_parent_directory (so_path s) fs of (r, fs) \<Rightarrow> (io_failure r, fs)) else (None, fs)) of
      (parent_error, fs) \<Rightarrow> refresh_after_commit crc hasher (map_option StoreIo parent_error) s fs) = (r, s', fs')"
    and pub: "published (resolve (so_path s)) bs (fs_disk fs)"
    and valid: "config_valid s" "keys_valid s" and enc: "encode_snapshot crc s = Ok bs" and law: "hasher_law crc hasher"
    and P: "P (fs_disk fs)"
  shows "evolves P fs fs' \<and> fs_disk fs' = fs_disk fs \<and> r \<noteq> Panic \<and> store_inv crc s' \<and> same_handle s s'
    \<and> (if r = Ok () then \<not> so_dirty s' else so_dirty s')"
proof -
  obtain r1 fs1 where one: "sync_parent_directory (so_path s) fs = (r1, fs1)" by fastforce
  note m = sync_parent_directory_reads [OF one, of P]
  show ?thesis
  proof (cases sync_parent)
    case True
    then have re: "refresh_after_commit crc hasher (map_option StoreIo (io_failure r1)) s fs1 = (r, s', fs')" using assms(1) one by simp
    have pub1: "published (resolve (so_path s)) bs (fs_disk fs1)" using pub m by simp
    show ?thesis using refresh_law [OF re pub1 valid enc law, of P] m P moves_evolves evolves_trans by (metis (full_types))
  next
    case False
    then have re: "refresh_after_commit crc hasher None s fs = (r, s', fs')" using assms(1) by simp
    then show ?thesis using refresh_law [OF re pub valid enc law, of P] P by simp
  qed
qed

lemma commit_dirty:
  assumes run: "store_commit crc hasher handle sync_parent s fs = (r, s', fs')" and dirty: "so_dirty s"
    and inv: "store_inv crc s" and law: "hasher_law crc hasher" and wf: "disk_wf (fs_disk fs)" and name: "not_temporary (fs_process_id fs) (so_path s)"
  shows "evolves (old_or_new crc s (fs_disk fs)) fs fs' \<and> r \<noteq> Panic \<and> store_inv crc s' \<and> same_handle s s'
    \<and> (if r = Ok () then \<not> so_dirty s' \<and> (\<exists>bs. encode_snapshot crc s = Ok bs \<and> published (resolve (so_path s)) bs (fs_disk fs')) else so_dirty s')"
proof -
  let ?t = "resolve (so_path s)" and ?d = "fs_disk fs" and ?s = "s\<lparr>so_base := None\<rparr>"
  let ?P = "old_or_new crc s ?d"
  have valid: "config_valid s" "keys_valid s" using inv by (simp_all add: store_inv_def)
  have enc: "encode_snapshot crc s \<noteq> Panic" using encode_snapshot_safe by (auto simp: safe_def)
  have same: "same_handle s ?s" by (simp add: same_handle_def)
  note valid' = same_handle_valid [OF same, of crc]
  have k: "keeps ?t ?d ?d" by (rule keeps_refl [OF wf])
  obtain r1 fs1 where one: "stage_snapshot crc handle s fs = (r1, fs1)" by fastforce
  note st = stage_snapshot_keeps [OF one name k enc]
  have e1: "evolves ?P fs fs1" using moves_evolves [OF conjunct1 [OF st] k] by (rule evolves_mono) (simp add: old_or_new_def)
  show ?thesis
  proof (cases r1)
    case (Err e)
    then show ?thesis using run dirty one e1 inv by (auto simp: store_commit_def same_handle_def)
  next
    case (Ok tf)
    obtain bs where bs: "encode_snapshot crc s = Ok bs" "staged handle ?t ?d bs tf (fs_disk fs1)" using st Ok by auto
    obtain r2 fs2 where two: "publish_replace handle (so_path s) tf fs1 = (r2, fs2)" by fastforce
    note pub = publish_replace_atomic [OF two bs(2) wf]
    have "evolves ?P fs1 fs2" using conjunct1 [OF pub] by (rule evolves_mono) (use bs(1) in \<open>auto simp: old_or_new_def\<close>)
    with e1 have e2: "evolves ?P fs fs2" by (rule evolves_trans)
    show ?thesis
    proof (cases r2)
      case Err2: (Err e)
      obtain s1 where s1: "recovering e False ?s = (Err e, s1)" "store_inv crc s1" "same_handle ?s s1" "so_dirty s1"
        using recovering_law [of ?s e False crc] valid valid' dirty by auto
      then have "r = Err e" "s' = s1" "fs' = fs2" using run dirty one Ok two Err2 by (simp_all add: store_commit_def)
      then show ?thesis using s1 e2 by (simp add: same_handle_def)
    next
      case Ok2: (Ok u)
      have replaced: "published (resolve (so_path ?s)) bs (fs_disk fs2)" using pub Ok2 by simp
      then have P: "?P (fs_disk fs2)" using bs(1) by (auto simp: old_or_new_def)
      have re: "(case (if sync_parent then (case sync_parent_directory (so_path ?s) fs2 of (r, fs) \<Rightarrow> (io_failure r, fs)) else (None, fs2)) of
          (parent_error, fs) \<Rightarrow> refresh_after_commit crc hasher (map_option StoreIo parent_error) ?s fs) = (r, s', fs')"
        using run dirty one Ok two Ok2 by (simp add: store_commit_def Let_def)
      note refreshed = commit_refresh [where P = ?P, OF re replaced _ _ _ law P]
      show ?thesis using refreshed valid valid' bs(1) e2 replaced evolves_trans by (auto simp: same_handle_def)
    qed (use pub in simp)
  qed (use st in simp)
qed


text \<open>C1: a commit is atomic. Whatever calls fail, and at every moment of it, the bytes of the file that survive a
  crash are those of the file before, or the complete new snapshot. It never panics and loses nothing of the
  handle: the invariant and the contents are the same after a failure as after a success. Success leaves a clean
  handle and the new snapshot in place; after a failure a dirty handle is still dirty, so that the commit can be
  retried.\<close>

theorem commit_atomic:
  assumes run: "store_commit crc hasher handle sync_parent s fs = (r, s', fs')"
    and inv: "store_inv crc s" and law: "hasher_law crc hasher" and wf: "disk_wf (fs_disk fs)" and name: "not_temporary (fs_process_id fs) (so_path s)"
  shows "(\<exists>ds. fs_trace fs' = fs_trace fs @ ds \<and> fs_disk fs' = last (fs_disk fs # ds)
      \<and> (\<forall>d \<in> set ds. durable (so_path s) d = durable (so_path s) (fs_disk fs)
           \<or> (\<exists>bs. encode_snapshot crc s = Ok bs \<and> durable (so_path s) d = Some bs)))
    \<and> r \<noteq> Panic \<and> store_inv crc s' \<and> contents s' = contents s
    \<and> (if r = Ok () then \<not> so_dirty s' \<and> (so_dirty s \<longrightarrow> (\<exists>bs. encode_snapshot crc s = Ok bs \<and> durable (so_path s) (fs_disk fs') = Some bs))
       else so_dirty s' = so_dirty s)"
proof -
  let ?P = "\<lambda>d. durable (so_path s) d = durable (so_path s) (fs_disk fs) \<or> (\<exists>bs. encode_snapshot crc s = Ok bs \<and> durable (so_path s) d = Some bs)"
  have "evolves ?P fs fs' \<and> r \<noteq> Panic \<and> store_inv crc s' \<and> contents s' = contents s
    \<and> (if r = Ok () then \<not> so_dirty s' \<and> (so_dirty s \<longrightarrow> (\<exists>bs. encode_snapshot crc s = Ok bs \<and> durable (so_path s) (fs_disk fs') = Some bs))
       else so_dirty s' = so_dirty s)"
  proof (cases "so_dirty s")
    case True
    note c = commit_dirty [OF run True inv law wf name]
    have "evolves ?P fs fs'" using conjunct1 [OF c]
      by (rule evolves_mono) (auto simp: old_or_new_def durable_keeps [OF _ wf] dest: durable_published)
    moreover have "contents s' = contents s" using c by (simp add: same_handle_def)
    ultimately show ?thesis using c True by (auto dest: durable_published split: if_splits)
  next
    case False
    note c = commit_clean [OF False run, of ?P]
    then show ?thesis using False inv moves_evolves [of ?P fs fs'] by auto
  qed
  then show ?thesis unfolding evolves_def by blast
qed

section \<open>Creation\<close>

text \<open>With the root as its target, \<open>keeps\<close> says that everything that existed is still there. During a creation
  the destination is as before or complete.\<close>

definition created :: "path \<Rightarrow> bytes \<Rightarrow> disk \<Rightarrow> disk \<Rightarrow> bool" where
  "created t bs d0 d \<longleftrightarrow> keeps t d0 d \<or> (keeps [] d0 d \<and> dk_entries d0 t = None \<and> published t bs d)"

lemma keeps_root: "keeps t d0 d \<Longrightarrow> disk_wf d0 \<Longrightarrow> keeps [] d0 d"
  by (simp add: keeps_def disk_wf_def)

lemma created_root: "created t bs d0 d \<Longrightarrow> disk_wf d0 \<Longrightarrow> keeps [] d0 d"
  by (auto simp: created_def intro: keeps_root)

lemma created_durable: "created (resolve p) bs d0 d \<Longrightarrow> disk_wf d0 \<Longrightarrow> durable p d = durable p d0 \<or> durable p d = Some bs"
  by (auto simp: created_def dest: durable_keeps durable_published)

lemma published_remove:
  "published t bs d \<Longrightarrow> resolve p \<noteq> t \<Longrightarrow> sys_remove_file p d = Inr (x, d') \<Longrightarrow> published t bs d'"
  by (auto simp: published_def sys_remove_file_def Let_def disk_wf_def split: if_splits)

lemma created_removal:
  assumes "owned t d0 tf" and "disk_wf d0" and "t \<noteq> []" and "resolve (tf_path tf) \<noteq> []"
  shows "removal_keeps (created t bs d0) tf"
  using assms keeps_remove [of t d0] keeps_remove [of "[]" d0] published_remove
  by (auto simp: removal_keeps_def created_def owned_def)

lemma created_remove_target:
  assumes "created (resolve p) bs d0 d" and "dk_entries d0 (resolve p) = None" and "sys_remove_file p d = Inr (x, d')"
  shows "created (resolve p) bs d0 d'"
proof -
  let ?t = "resolve p"
  have d': "d' = d\<lparr>dk_entries := (dk_entries d)(?t := None)\<rparr>" "dk_entries d ?t \<noteq> None"
    using assms(3) by (auto simp: sys_remove_file_def Let_def split: if_splits)
  then have "\<not> keeps ?t d0 d" using assms(2) by (auto simp: keeps_def)
  then have "keeps [] d0 d" using assms(1) by (simp add: created_def)
  then have "keeps ?t d0 d'" using assms(2) by (auto simp: keeps_def d' disk_wf_def)
  then show ?thesis by (simp add: created_def)
qed

lemma hard_link_creates:
  assumes s: "staged handle (resolve p) d0 bs tf d" and wf: "disk_wf d0" and l: "sys_hard_link (tf_path tf) p d = Inr (u, d')"
  shows "keeps [] d0 d'" "dk_entries d0 (resolve p) = None" "published (resolve p) bs d'"
proof -
  let ?t = "resolve p" and ?q = "resolve (tf_path tf)"
  obtain i where i: "dk_next d0 \<le> i" "i < dk_next d" "dk_entries d ?q = Some (FileNode i)" "dk_data d i = bs" "dk_synced d i"
    and k: "keeps ?t d0 d" and "?q \<noteq> ?t"
    using s by (auto simp: staged_def owned_def)
  have d': "d' = d\<lparr>dk_entries := (dk_entries d)(?t \<mapsto> FileNode i)\<rparr>" and t: "?t \<noteq> []" "dk_entries d ?t = None"
    using l i(3) by (auto simp: sys_hard_link_def Let_def split: if_splits)
  show free: "dk_entries d0 ?t = None" by (rule fresh_name [OF k t(2)])
  have wf': "disk_wf d'"
    by (rule disk_wf_insert [OF keeps_wf [OF k] t(1), of d' "FileNode i"])
       (use keeps_wf [OF k] i(3) in \<open>auto simp: d' disk_wf_def\<close>)
  then show "keeps [] d0 d'" using k free t(1) wf by (auto simp: keeps_def d' disk_wf_def)
  show "published ?t bs d'" using wf' i by (auto simp: published_def d')
qed

lemma rollback_moves:
  assumes "rollback_owned_destination handle p identity fs = (r, fs')" and free: "dk_entries d0 (resolve p) = None"
  shows "moves (created (resolve p) bs d0) fs fs'"
proof -
  let ?P = "created (resolve p) bs d0"
  obtain r1 fs1 where one: "fs_symlink_metadata p fs = (r1, fs1)" by fastforce
  obtain r2 fs2 where two: "fs_handle_from_path handle p fs1 = (r2, fs2)" by fastforce
  obtain r3 fs3 where three: "fs_remove_file p fs2 = (r3, fs3)" by fastforce
  obtain r4 fs4 where four: "sync_parent_directory p fs3 = (r4, fs4)" by fastforce
  have m: "moves ?P fs fs1" "moves ?P fs1 fs2" "moves ?P fs3 fs4"
    using fs_symlink_metadata_reads [OF one] fs_handle_from_path_reads [OF two] sync_parent_directory_reads [OF four] by blast+
  have "moves ?P fs2 fs3" using three by (rule fs_remove_file_moves) (use created_remove_target free in blast)
  moreover have "fs' = fs1 \<or> fs' = fs2 \<or> fs' = fs3 \<or> fs' = fs4"
    using assms(1) one two three four by (auto simp: rollback_owned_destination_def io_then_def split: sum.splits node.splits if_splits)
  ultimately show ?thesis using m moves_trans by metis
qed

lemma recover_moves:
  assumes "recover_after_initial_publication handle p e tf fs = (e', fs')" and "dk_entries d0 (resolve p) = None"
    and "removal_keeps (created (resolve p) bs d0) tf"
  shows "moves (created (resolve p) bs d0) fs fs'"
proof -
  let ?P = "created (resolve p) bs d0"
  obtain r1 fs1 where one: "rollback_owned_destination handle p (tf_identity tf) fs = (r1, fs1)" by fastforce
  obtain r2 tf2 fs2 where two: "remove_owned_path handle tf fs1 = (r2, tf2, fs2)" by (cases "remove_owned_path handle tf fs1") auto
  note m2 = remove_owned_path_moves [OF two assms(3)]
  then have "removal_keeps ?P tf2" using assms(3) by (simp add: removal_keeps_def)
  from drop_temporary_moves [OF this] have "moves ?P fs2 (drop_temporary handle tf2 fs2)" .
  moreover have "fs' = drop_temporary handle tf2 fs2" using assms(1) one two by (auto simp: recover_after_initial_publication_def)
  ultimately show ?thesis using rollback_moves [OF one assms(2)] m2 moves_trans by metis
qed

lemma staged_created:
  assumes "staged handle t d0 bs tf d" and "disk_wf d0"
  shows "created t bs d0 d" "t \<noteq> [] \<Longrightarrow> removal_keeps (created t bs d0) tf"
proof -
  show "created t bs d0 d" using assms(1) by (simp add: staged_def created_def)
  have "resolve (tf_path tf) \<noteq> []" using assms(1) keeps_wf by (force simp: staged_def disk_wf_def)
  then show "t \<noteq> [] \<Longrightarrow> removal_keeps (created t bs d0) tf" using assms by (intro created_removal) (auto simp: staged_def)
qed

lemma finish_publication:
  assumes p: "(case fs_remove_file (tf_path tf) fs of
                 (Inl e, fs) \<Rightarrow> (case recover_after_initial_publication handle p e tf fs of (error, fs) \<Rightarrow> (Err error, fs))
               | (Inr _, fs) \<Rightarrow>
                   let tf = tf\<lparr>tf_owns_path := False\<rparr>
                   in case sync_parent_directory p fs of
                        (Inl e, fs) \<Rightarrow> (case recover_after_initial_publication handle p e tf fs of (error, fs) \<Rightarrow> (Err error, fs))
                      | (Inr _, fs) \<Rightarrow> (Ok (), drop_temporary handle tf fs)) = (r, fs')"
    and rem: "removal_keeps (created (resolve p) bs d0) tf" and free: "dk_entries d0 (resolve p) = None"
    and pub: "published (resolve p) bs (fs_disk fs)" and other: "resolve (tf_path tf) \<noteq> resolve p"
  shows "moves (created (resolve p) bs d0) fs fs' \<and> r \<noteq> Panic \<and> (r = Ok () \<longrightarrow> published (resolve p) bs (fs_disk fs'))"
proof -
  let ?t = "resolve p" and ?P = "created (resolve p) bs d0"
  obtain r1 fs1 where one: "fs_remove_file (tf_path tf) fs = (r1, fs1)" by fastforce
  have m1: "moves ?P fs fs1" using one by (rule fs_remove_file_moves) (use rem in \<open>auto simp: removal_keeps_def\<close>)
  have "moves (published ?t bs) fs fs1" using one by (rule fs_remove_file_moves) (use published_remove other in blast)
  then have pub1: "published ?t bs (fs_disk fs1)" using pub by (rule moves_last)
  show ?thesis
  proof (cases r1)
    case (Inl e)
    obtain e' fs2 where two: "recover_after_initial_publication handle p e tf fs1 = (e', fs2)" by fastforce
    have "r = Err e'" "fs' = fs2" using p one Inl two by simp_all
    then show ?thesis using m1 recover_moves [OF two free rem] moves_trans by auto
  next
    case (Inr u)
    obtain r2 fs2 where two: "sync_parent_directory p fs1 = (r2, fs2)" by fastforce
    note m2 = sync_parent_directory_reads [OF two, of ?P]
    show ?thesis
    proof (cases r2)
      case Inl2: (Inl e)
      obtain e' fs3 where three: "recover_after_initial_publication handle p e (tf\<lparr>tf_owns_path := False\<rparr>) fs2 = (e', fs3)" by fastforce
      have "r = Err e'" "fs' = fs3" using p one Inr two Inl2 three by (simp_all add: Let_def)
      then show ?thesis using m1 m2 recover_moves [OF three free] rem moves_trans by (metis removal_keeps_upd(2) result.distinct)
    next
      case Inr2: (Inr v)
      then have "r = Ok ()" "fs' = fs2" using p one Inr two by (simp_all add: Let_def)
      then show ?thesis using pub1 m1 m2 moves_trans by (metis result.distinct)
    qed
  qed
qed

lemma publish_no_replace_creates:
  assumes p: "publish_no_replace handle p tf fs = (r, fs')" and s: "staged handle (resolve p) d0 bs tf (fs_disk fs)" and wf: "disk_wf d0"
    and t: "resolve p \<noteq> []"
  shows "moves (created (resolve p) bs d0) fs fs' \<and> r \<noteq> Panic \<and> (r = Ok () \<longrightarrow> published (resolve p) bs (fs_disk fs'))"
proof -
  let ?t = "resolve p" and ?P = "created (resolve p) bs d0" and ?tf = "tf\<lparr>tf_file := None\<rparr>"
  note P = staged_created [OF s wf]
  have rem: "removal_keeps ?P ?tf" using P(2) t by simp
  have some: "tf_file tf \<noteq> None" and other: "resolve (tf_path tf) \<noteq> ?t" using s by (auto simp: staged_def owned_def)
  obtain r1 tf1 fs1 where one: "verify_owned_path handle ?tf fs = (r1, tf1, fs1)" by (cases "verify_owned_path handle ?tf fs") auto
  note m1 = verify_owned_path_reads [OF one, of ?P]
  show ?thesis
  proof (cases r1)
    case (Inl e)
    obtain e' fs2 where two: "cleanup_after handle e tf1 fs1 = (e', fs2)" by fastforce
    have "removal_keeps ?P tf1" using rem m1 by (simp add: removal_keeps_def)
    from cleanup_after_moves [OF two this] have "moves ?P fs fs2" using m1 moves_trans by metis
    then show ?thesis using p one Inl two some by (auto simp: publish_no_replace_def publish_no_replace_with_def)
  next
    case (Inr u)
    have tf1: "tf1 = ?tf" using m1 Inr by simp
    obtain r2 fs2 where two: "fs_hard_link (tf_path tf) p fs1 = (r2, fs2)" by fastforce
    have linked: "keeps [] d0 (fs_disk fs2)" "dk_entries d0 ?t = None" "published ?t bs (fs_disk fs2)" if "r2 = Inr v" for v
      using hard_link_creates [OF s wf, of v "fs_disk fs2"] fs_call_Inr [of "sys_hard_link (tf_path tf) p" fs1 v fs2] that two m1
      by (simp_all add: fs_hard_link_def)
    have m2: "moves ?P fs1 fs2"
      using two unfolding fs_hard_link_def
      by (rule fs_call_moves) (use hard_link_creates [OF s wf] m1 in \<open>auto simp: created_def\<close>)
    show ?thesis
    proof (cases r2)
      case Inl2: (Inl e)
      obtain e' fs3 where three: "cleanup_after handle e ?tf fs2 = (e', fs3)" by fastforce
      from cleanup_after_moves [OF three rem] have "moves ?P fs fs3" using m1 m2 moves_trans by metis
      then show ?thesis using p one Inr two Inl2 three some tf1 by (auto simp: publish_no_replace_def publish_no_replace_with_def)
    next
      case Inr2: (Inr v)
      note linked = linked [OF Inr2]
      have "(case fs_remove_file (tf_path ?tf) fs2 of
                 (Inl e, fs) \<Rightarrow> (case recover_after_initial_publication handle p e ?tf fs of (error, fs) \<Rightarrow> (Err error, fs))
               | (Inr _, fs) \<Rightarrow>
                   let tf = ?tf\<lparr>tf_owns_path := False\<rparr>
                   in case sync_parent_directory p fs of
                        (Inl e, fs) \<Rightarrow> (case recover_after_initial_publication handle p e tf fs of (error, fs) \<Rightarrow> (Err error, fs))
                      | (Inr _, fs) \<Rightarrow> (Ok (), drop_temporary handle tf fs)) = (r, fs')"
        using p one Inr two Inr2 some tf1 by (simp add: publish_no_replace_def publish_no_replace_with_def)
      from finish_publication [OF this rem linked(2,3)] other show ?thesis using m1 m2 moves_trans by (metis temporary.select_convs(1) temporary.surjective temporary.update_convs(2))
    qed
  qed
qed

lemma validated_empty:
  assumes "validate_lsh_configuration scheme t n seed params = Ok ()"
  shows "config_valid (store_empty p t n seed params scheme)" "keys_valid (store_empty p t n seed params scheme)"
proof -
  obtain index where "index_with_params t n seed params = Ok index"
    using assms by (cases scheme) (auto simp: validate_lsh_configuration_def res_simps)
  then have "0 < t \<and> t \<le> f64_one" by (auto simp: index_with_params_def validate_cases(1) res_simps split: if_splits)
  then show "config_valid (store_empty p t n seed params scheme)" "keys_valid (store_empty p t n seed params scheme)"
    using validate_configuration_Ok [OF assms] by (simp_all add: config_valid_def keys_valid_def store_empty_def)
qed

definition creating :: "(bytes \<Rightarrow> u32) \<Rightarrow> store \<Rightarrow> disk \<Rightarrow> disk \<Rightarrow> bool" where
  "creating crc s d0 d \<longleftrightarrow> keeps (resolve (so_path s)) d0 d
     \<or> (\<exists>bs. encode_snapshot crc s = Ok bs \<and> created (resolve (so_path s)) bs d0 d)"

lemma commit_initial_creates:
  assumes run: "commit_initial crc hasher handle (\<lambda>fs. (Ok (), fs)) s fs = (r, s', fs')" and valid: "config_valid s" "keys_valid s"
    and law: "hasher_law crc hasher" and name: "not_temporary (fs_process_id fs) (so_path s)" and wf: "disk_wf d0" and same: "fs_disk fs = d0"
  shows "evolves (creating crc s d0) fs fs' \<and> r \<noteq> Panic
    \<and> (r = Ok () \<longrightarrow> store_inv crc s' \<and> same_handle s s' \<and> \<not> so_dirty s'
         \<and> (\<exists>bs. encode_snapshot crc s = Ok bs \<and> published (resolve (so_path s)) bs (fs_disk fs')))"
proof -
  let ?t = "resolve (so_path s)" and ?s = "s\<lparr>so_base := None\<rparr>" and ?P = "creating crc s d0"
  have enc: "encode_snapshot crc s \<noteq> Panic" using encode_snapshot_safe by (auto simp: safe_def)
  have handle: "same_handle s ?s" by (simp add: same_handle_def)
  note valid' = same_handle_valid [OF handle, of crc]
  have k: "keeps ?t d0 (fs_disk fs)" using keeps_refl [OF wf] same by simp
  obtain r1 fs1 where one: "stage_snapshot crc handle s fs = (r1, fs1)" by fastforce
  note st = stage_snapshot_keeps [OF one name k enc]
  have e1: "evolves ?P fs fs1" using moves_evolves [OF conjunct1 [OF st] k] by (rule evolves_mono) (simp add: creating_def)
  show ?thesis
  proof (cases r1)
    case (Err e)
    then show ?thesis using run one e1 by (auto simp: commit_initial_def)
  next
    case (Ok tf)
    obtain bs where bs: "encode_snapshot crc s = Ok bs" "staged handle ?t d0 bs tf (fs_disk fs1)" using st Ok by auto
    obtain r2 fs2 where two: "publish_no_replace handle (so_path s) tf fs1 = (r2, fs2)" by fastforce
    have "?t \<noteq> []" using name resolve_target by (auto simp: not_temporary_def)
    note pub = publish_no_replace_creates [OF two bs(2) wf this]
    have "evolves ?P fs1 fs2" using moves_evolves [OF conjunct1 [OF pub] staged_created(1) [OF bs(2) wf]]
      by (rule evolves_mono) (use bs(1) in \<open>auto simp: creating_def\<close>)
    with e1 have e2: "evolves ?P fs fs2" by (rule evolves_trans)
    show ?thesis
    proof (cases r2)
      case Err2: (Err e)
      obtain s1 where "recovering e False ?s = (Err e, s1)"
        using recovering_law [of ?s e False crc] valid valid' by auto
      then have "r = Err e" "fs' = fs2" using run one Ok two Err2 by (simp_all add: commit_initial_def Let_def)
      then show ?thesis using e2 by simp
    next
      case Ok2: (Ok u)
      have placed: "published (resolve (so_path ?s)) bs (fs_disk fs2)" using pub Ok2 by simp
      have re: "refresh_after_commit crc hasher None ?s fs2 = (r, s', fs')" using run one Ok two Ok2 by (simp add: commit_initial_def Let_def)
      have "?P (fs_disk fs2)" using moves_last [OF conjunct1 [OF pub] staged_created(1) [OF bs(2) wf]] bs(1) by (auto simp: creating_def)
      then show ?thesis using refresh_law [OF re placed _ _ _ law, of ?P] valid valid' bs(1) e2 placed evolves_trans
        by (auto simp: same_handle_def)
    qed (use pub in simp)
  qed (use st in simp)
qed

lemma create_outcome:
  fixes p threshold num_perm seed params scheme crc
  defines "s0 \<equiv> store_empty p threshold num_perm seed params scheme"
  assumes run: "create_with_params crc hasher handle p threshold num_perm seed params scheme fs = (r, fs')"
    and law: "hasher_law crc hasher" and wf: "disk_wf (fs_disk fs)" and name: "not_temporary (fs_process_id fs) p"
  shows "evolves (creating crc s0 (fs_disk fs)) fs fs' \<and> r \<noteq> Panic \<and> (\<forall>s. r = Ok s \<longrightarrow> store_inv crc s \<and> same_handle s0 s \<and> \<not> so_dirty s
         \<and> (\<exists>bs. encode_snapshot crc s0 = Ok bs \<and> published (resolve p) bs (fs_disk fs')))"
proof -
  let ?s = s0 and ?d = "fs_disk fs"
  let ?P = "creating crc ?s ?d"
  have path: "so_path ?s = p" "contents ?s = Map.empty" by (simp_all add: s0_def store_empty_def)
  obtain r1 fs1 where one: "fs_symlink_metadata p fs = (r1, fs1)" by fastforce
  have m1: "moves ?P fs fs1" "fs_disk fs1 = ?d" using fs_symlink_metadata_reads [OF one] by blast+
  have P0: "?P ?d" using keeps_refl [OF wf] by (simp add: creating_def)
  show ?thesis
  proof (cases "fst (ensure_destination_absent p fs) = Ok () \<and> validate_lsh_configuration scheme threshold num_perm seed params = Ok ()")
    case False
    then have "fs' = fs1 \<and> (\<exists>e. r = Err e)"
      using run one validate_configuration_safe [of scheme threshold num_perm seed params]
      by (auto simp: create_with_params_def create_with_params_and_hook_def ensure_destination_absent_def safe_def st_then_def
          split: sum.splits if_splits result.splits)
    then show ?thesis using m1(1) P0 moves_evolves by auto
  next
    case True
    obtain r2 s2 fs2 where two: "commit_initial crc hasher handle (\<lambda>fs. (Ok (), fs)) ?s fs1 = (r2, s2, fs2)"
      by (cases "commit_initial crc hasher handle (\<lambda>fs. (Ok (), fs)) ?s fs1") auto
    have "ensure_destination_absent p fs = (Ok (), fs1)"
      using True one by (auto simp: ensure_destination_absent_def split: sum.splits if_splits)
    then have res: "fs' = fs2" "r = (case r2 of Ok _ \<Rightarrow> Ok s2 | Err e \<Rightarrow> Err e | Panic \<Rightarrow> Panic)"
      using run True two unfolding s0_def by (auto simp: create_with_params_def create_with_params_and_hook_def split: result.splits)
    have "not_temporary (fs_process_id fs1) (so_path ?s)" using name m1(1) path by (simp add: moves_def)
    moreover have "config_valid s0" "keys_valid s0" using validated_empty True by (simp_all add: s0_def)
    ultimately have c0: "evolves ?P fs1 fs2 \<and> r2 \<noteq> Panic \<and> (r2 = Ok () \<longrightarrow> store_inv crc s2 \<and> same_handle ?s s2 \<and> \<not> so_dirty s2
         \<and> (\<exists>bs. encode_snapshot crc ?s = Ok bs \<and> published (resolve (so_path s0)) bs (fs_disk fs2)))"
      using commit_initial_creates [OF two _ _ law _ wf m1(2)] by blast
    have c: "evolves ?P fs1 fs2 \<and> r2 \<noteq> Panic \<and> (r2 = Ok () \<longrightarrow> store_inv crc s2 \<and> same_handle ?s s2 \<and> \<not> so_dirty s2
         \<and> (\<exists>bs. encode_snapshot crc ?s = Ok bs \<and> published (resolve p) bs (fs_disk fs2)))" using c0 by (simp add: path)
    have "evolves ?P fs fs2" using moves_evolves [OF m1(1) P0] conjunct1 [OF c] by (rule evolves_trans)
    then show ?thesis using c by (cases r2) (auto simp: res)
  qed
qed

lemma creating_moment:
  assumes "creating crc s d0 d" and wf: "disk_wf d0"
  shows "(\<forall>q n. dk_entries d0 q = Some n \<longrightarrow> dk_entries d q = Some n) \<and> (\<forall>i < dk_next d0. dk_data d i = dk_data d0 i)
    \<and> (durable (so_path s) d = durable (so_path s) d0 \<or> (\<exists>bs. encode_snapshot crc s = Ok bs \<and> durable (so_path s) d = Some bs))"
proof -
  have "keeps [] d0 d" using assms(1) keeps_root [OF _ wf] created_root [OF _ wf] by (auto simp: creating_def)
  moreover have "durable (so_path s) d = durable (so_path s) d0 \<or> (\<exists>bs. encode_snapshot crc s = Ok bs \<and> durable (so_path s) d = Some bs)"
    using assms(1) durable_keeps [OF _ wf] created_durable [OF _ wf] unfolding creating_def by blast
  ultimately show ?thesis by (auto simp: keeps_def)
qed

text \<open>C10: creating a store never replaces or changes anything. Whatever calls fail, even when the test for the
  destination is wrong, at every moment each path that existed leads to what it led to before, with the same bytes, and the
  destination is as before or holds the complete empty snapshot. Creation never panics, and on success the
  snapshot is in place and the handle is a clean, empty store that satisfies the invariant.\<close>

theorem create_replaces_nothing:
  assumes run: "create_with_params crc hasher handle p threshold num_perm seed params scheme fs = (r, fs')"
    and law: "hasher_law crc hasher" and wf: "disk_wf (fs_disk fs)" and name: "not_temporary (fs_process_id fs) p"
  shows "(\<exists>ds. fs_trace fs' = fs_trace fs @ ds \<and> fs_disk fs' = last (fs_disk fs # ds)
      \<and> (\<forall>d \<in> set ds. (\<forall>q n. dk_entries (fs_disk fs) q = Some n \<longrightarrow> dk_entries d q = Some n)
           \<and> (\<forall>i < dk_next (fs_disk fs). dk_data d i = dk_data (fs_disk fs) i)
           \<and> (durable p d = durable p (fs_disk fs)
              \<or> (\<exists>bs. encode_snapshot crc (store_empty p threshold num_perm seed params scheme) = Ok bs \<and> durable p d = Some bs))))
    \<and> r \<noteq> Panic
    \<and> (\<forall>s. r = Ok s \<longrightarrow> store_inv crc s \<and> contents s = Map.empty \<and> \<not> so_dirty s
         \<and> (\<exists>bs. encode_snapshot crc s = Ok bs \<and> durable p (fs_disk fs') = Some bs))"
proof -
  let ?s = "store_empty p threshold num_perm seed params scheme"
  have path: "so_path ?s = p" "contents ?s = Map.empty" by (simp_all add: store_empty_def)
  note c = create_outcome [OF run law wf name]
  have "store_inv crc s \<and> contents s = Map.empty \<and> \<not> so_dirty s \<and> (\<exists>bs. encode_snapshot crc s = Ok bs \<and> durable p (fs_disk fs') = Some bs)"
    if "r = Ok s" for s
    using c that path same_handle_valid [of ?s s crc] durable_published by auto
  moreover obtain ds where "fs_trace fs' = fs_trace fs @ ds" "fs_disk fs' = last (fs_disk fs # ds)" "\<forall>d \<in> set ds. creating crc ?s (fs_disk fs) d"
    using c unfolding evolves_def by blast
  ultimately show ?thesis using c creating_moment [of crc ?s, OF _ wf] unfolding path by (intro conjI exI [of _ ds]) simp_all
qed

section \<open>Commits succeed\<close>

text \<open>A file system with no faults ahead, and a target that can be written: its directories exist, it is not a
  directory itself, and a temporary name is left.\<close>

definition calm :: "fs \<Rightarrow> bool" where
  "calm fs \<longleftrightarrow> fs_faults fs = [] \<and> fs_reads fs = []"

definition dirs_exist :: "path \<Rightarrow> disk \<Rightarrow> bool" where
  "dirs_exist p d \<longleftrightarrow> (\<forall>n < length (resolve p). is_dir (take n (resolve p)) d)"

definition writable :: "path \<Rightarrow> fs \<Rightarrow> bool" where
  "writable p fs \<longleftrightarrow> dirs_exist p (fs_disk fs) \<and> \<not> is_dir (resolve p) (fs_disk fs)
     \<and> (\<exists>j < TEMPORARY_ALLOCATION_ATTEMPTS.
          dk_entries (fs_disk fs) (resolve (parent_dir p @ [temporary_name (fs_process_id fs) (fs_sequence fs + of_nat j)])) = None)"

lemma calm_call:
  assumes "calm fs"
  shows "fs_call f fs = (case f (fs_disk fs) of Inl e \<Rightarrow> (Inl e, fs) | Inr (x, d) \<Rightarrow> (Inr x, fs_step d fs))"
  using assms by (cases fs) (auto simp: calm_def fs_call_def Let_def split: sum.splits)

lemma calm_step [simp]: "calm (fs_step d fs) = calm fs"
  by (simp add: calm_def)

lemma calm_write: "calm fs \<Longrightarrow> fs_write_all i bs fs = (Inr (), fs_step (append_data i bs (fs_disk fs)) fs)"
  by (cases fs) (auto simp: calm_def fs_write_all_def)

lemma make_dirs_present: "\<forall>p \<in> set ps. is_dir p d \<and> p \<noteq> [] \<Longrightarrow> make_dirs ps d = Inr ((), d)"
proof (induction ps)
  case (Cons p ps)
  then obtain i where "dk_entries d p = Some (DirNode i)" by (auto simp: is_dir_def split: option.splits node.splits)
  then show ?case using Cons by simp
qed simp

lemma dirs_parent:
  assumes "dirs_exist p d" and "file_name p = Some name"
  shows "is_dir (resolve (butlast p)) d"
  using assms(1) [unfolded dirs_exist_def, rule_format, of "length (resolve (butlast p))"] resolve_target [OF assms(2)] by simp

lemma keeps_is_dir: "keeps t d0 d \<Longrightarrow> is_dir p d0 \<Longrightarrow> is_dir p d" "keeps t d0 d \<Longrightarrow> is_dir t d = is_dir t d0"
  by (auto simp: keeps_def is_dir_def split: option.splits node.splits)

lemma calm_create_parent:
  assumes "calm fs" and "dirs_exist p (fs_disk fs)" and "file_name p = Some name"
  shows "\<exists>fs'. create_parent_if_needed p fs = (Inr (), fs') \<and> calm fs' \<and> fs_disk fs' = fs_disk fs \<and> fs_sequence fs' = fs_sequence fs
    \<and> fs_process_id fs' = fs_process_id fs"
proof -
  have "sys_create_dir_all (butlast p) (fs_disk fs) = Inr ((), fs_disk fs)"
    unfolding sys_create_dir_all_def
    by (rule make_dirs_present) (use assms(2) resolve_target [OF assms(3)] in \<open>auto simp: dirs_exist_def\<close>)
  then show ?thesis using assms(1) by (auto simp: create_parent_if_needed_def fs_create_dir_all_def calm_call)
qed

lemma calm_allocate:
  assumes "calm fs" and "dirs_exist p (fs_disk fs)" and "file_name p = Some name"
    and "\<exists>j < n. dk_entries (fs_disk fs) (resolve (parent_dir p @ [temporary_name (fs_process_id fs) (fs_sequence fs + of_nat j)])) = None"
  shows "\<exists>tf fs'. allocate_loop handle n (parent_dir p) fs = (Ok tf, fs') \<and> calm fs'"
  using assms
proof (induction n arbitrary: fs)
  case (Suc n)
  let ?q = "parent_dir p @ [temporary_name (fs_process_id fs) (fs_sequence fs)]"
  let ?fs = "fs\<lparr>fs_sequence := fs_sequence fs + 1\<rparr>"
  have calm: "calm ?fs" using Suc.prems(1) by (simp add: calm_def)
  have q: "butlast (resolve ?q) = resolve (butlast p)" using temporary_name_plain by (simp add: resolve_parent_dir) (simp add: resolve_def)
  have dir: "is_dir (butlast (resolve ?q)) (fs_disk fs)" using dirs_parent [OF Suc.prems(2,3)] q by simp
  show ?case
  proof (cases "dk_entries (fs_disk fs) (resolve ?q) = None")
    case True
    then show ?thesis using dir calm by (auto simp: Let_def fs_create_new_def calm_call sys_create_new_def fs_handle_from_file_def)
  next
    case False
    obtain j where j: "j < Suc n" "dk_entries (fs_disk fs) (resolve (parent_dir p @ [temporary_name (fs_process_id fs) (fs_sequence fs + of_nat j)])) = None"
      using Suc.prems(4) by blast
    with False obtain i where i: "j = Suc i" by (cases j) auto
    have "\<exists>tf fs'. allocate_loop handle n (parent_dir p) ?fs = (Ok tf, fs') \<and> calm fs'"
      by (rule Suc.IH [OF calm]) (use Suc.prems(2,3) j i in \<open>auto simp: add.assoc intro!: exI [of _ i]\<close>)
    then show ?thesis using False dir calm by (auto simp: Let_def fs_create_new_def calm_call sys_create_new_def)
  qed
qed simp

lemma calm_write_synced: "calm fs \<Longrightarrow> tf_file tf = Some i \<Longrightarrow> \<exists>fs'. write_synced bs tf fs = (Inr (), fs') \<and> calm fs'"
  by (auto simp: write_synced_def calm_write io_then_def fs_sync_all_def calm_call sys_sync_def)

lemma calm_publish:
  assumes "calm fs" and s: "staged handle (resolve p) d0 bs tf (fs_disk fs)" and d: "dirs_exist p (fs_disk fs)" "\<not> is_dir (resolve p) (fs_disk fs)"
    and name: "file_name p = Some name"
  shows "\<exists>fs'. publish_replace handle p tf fs = (Ok (), fs') \<and> calm fs' \<and> dirs_exist p (fs_disk fs')"
proof -
  let ?q = "resolve (tf_path tf)"
  obtain i where i: "dk_entries (fs_disk fs) ?q = Some (FileNode i)" "tf_identity tf = handle i" and "?q \<noteq> []"
    using s keeps_wf by (force simp: staged_def disk_wf_def)
  have up: "is_dir (butlast (resolve p)) (fs_disk fs)"
    using dirs_parent [OF d(1) name] resolve_target [OF name] by simp
  have "\<not> is_dir ?q (fs_disk fs)" using i \<open>?q \<noteq> []\<close> by (simp add: is_dir_def)
  then have r: "\<exists>d'. sys_rename (tf_path tf) p (fs_disk fs) = Inr ((), d') \<and> (\<forall>q. is_dir q (fs_disk fs) \<longrightarrow> is_dir q d')"
    using i(1) up d(2) by (auto simp: sys_rename_def Let_def is_dir_def)
  show ?thesis using assms(1) i r d(1)
    by (auto simp: publish_replace_def verify_owned_path_def fs_symlink_metadata_def calm_call sys_symlink_metadata_def fs_handle_from_path_def
        sys_follow_def follow.simps io_then_def fs_rename_def Let_def dirs_exist_def)
qed


lemma calm_refresh:
  assumes calm: "calm fs" and pub: "published (resolve (so_path s)) bs (fs_disk fs)"
    and valid: "config_valid s" "keys_valid s" and enc: "encode_snapshot crc s = Ok bs" and law: "hasher_law crc hasher"
  shows "\<exists>s' fs'. refresh_after_commit crc hasher None s fs = (Ok (), s', fs')"
proof -
  obtain i where i: "dk_entries (fs_disk fs) (resolve (so_path s)) = Some (FileNode i)" "dk_data (fs_disk fs) i = bs" using pub by (auto simp: published_def)
  have "\<exists>fs'. fs_open (so_path s) fs = (Inr \<lparr>rd_bytes = bs, rd_pos = 0, rd_faults = []\<rparr>, fs')"
    using calm i by (auto simp: fs_open_def calm_call sys_follow_def follow.simps io_then_def calm_def [of fs])
  moreover obtain s1 where "store_open_file crc hasher (so_path s) (so_scheme s) \<lparr>rd_bytes = bs, rd_pos = 0, rd_faults = []\<rparr> = Ok s1"
    using reopen_law [OF valid enc law, of "so_path s"] by blast
  ultimately show ?thesis by (auto simp: refresh_after_commit_def store_open_def Let_def)
qed

lemma calm_sync_parent:
  assumes "calm fs" and "dirs_exist p (fs_disk fs)" and "file_name p = Some name" and "dk_entries (fs_disk fs) [] = None"
  shows "sync_parent_directory p fs = (Inr (), fs_step (fs_disk fs) (fs_step (fs_disk fs) fs))"
proof -
  have "\<exists>n. follow 40 (parent_dir p) (fs_disk fs) = Inr n"
    using dirs_parent [OF assms(2,3)] resolve_parent_dir [of p] assms(4) by (subst follow.simps) (auto simp: is_dir_def split: option.splits node.splits)
  then show ?thesis using assms(1) by (auto simp: sync_parent_directory_def fs_sync_directory_def io_then_def calm_call sys_follow_def)
qed

lemma calm_stage:
  assumes calm: "calm fs" and w: "writable (so_path s) fs" and wf: "disk_wf (fs_disk fs)" and name: "not_temporary (fs_process_id fs) (so_path s)"
    and enc: "encode_snapshot crc s = Ok bs"
  shows "\<exists>tf fs'. stage_snapshot crc handle s fs = (Ok tf, fs') \<and> calm fs' \<and> staged handle (resolve (so_path s)) (fs_disk fs) bs tf (fs_disk fs')"
proof -
  let ?p = "so_path s" and ?t = "resolve (so_path s)"
  obtain base where base: "file_name ?p = Some base" using name by (auto simp: not_temporary_def)
  have w: "dirs_exist ?p (fs_disk fs)"
    "\<exists>j < TEMPORARY_ALLOCATION_ATTEMPTS. dk_entries (fs_disk fs) (resolve (parent_dir ?p @ [temporary_name (fs_process_id fs) (fs_sequence fs + of_nat j)])) = None"
    using w by (simp_all add: writable_def)
  obtain fs1 where one: "create_parent_if_needed ?p fs = (Inr (), fs1)" "calm fs1" "fs_disk fs1 = fs_disk fs" "fs_sequence fs1 = fs_sequence fs"
    "fs_process_id fs1 = fs_process_id fs"
    using calm_create_parent [OF calm w(1) base] by blast
  obtain tf fs2 where two: "allocate_loop handle TEMPORARY_ALLOCATION_ATTEMPTS (parent_dir ?p) fs1 = (Ok tf, fs2)" "calm fs2"
    using calm_allocate [OF one(2) _ base] w one(3-5) by metis
  have "keeps ?t (fs_disk fs) (fs_disk fs1)" using keeps_refl [OF wf] one(3) by simp
  then have "allocated handle ?t (fs_disk fs) tf (fs_disk fs2)" using allocate_loop_keeps [OF two(1)] name one(5) by simp
  then obtain i where "tf_file tf = Some i" by (auto simp: allocated_def)
  from calm_write_synced [OF two(2) this] obtain fs3 where "write_synced bs tf fs2 = (Inr (), fs3)" "calm fs3" by blast
  then have st: "stage_snapshot crc handle s fs = (Ok tf, fs3)" using enc one(1) two(1) base by (simp add: stage_snapshot_def allocate_def)
  then show ?thesis using stage_snapshot_keeps [OF st name keeps_refl [OF wf]] enc \<open>calm fs3\<close> by auto
qed

text \<open>C14: a commit succeeds when nothing fails: with a target that can be written, no faults ahead and a snapshot
  that can be encoded, \<open>flush\<close> and \<open>sync\<close> return success, and the handle is clean.\<close>

theorem commit_succeeds:
  assumes inv: "store_inv crc s" and law: "hasher_law crc hasher" and enc: "encode_snapshot crc s = Ok bs" and dirty: "so_dirty s"
    and wf: "disk_wf (fs_disk fs)" and name: "not_temporary (fs_process_id fs) (so_path s)" and calm: "calm fs" and w: "writable (so_path s) fs"
  shows "\<exists>s' fs'. store_commit crc hasher handle sync_parent s fs = (Ok (), s', fs') \<and> \<not> so_dirty s' \<and> durable (so_path s) (fs_disk fs') = Some bs"
proof -
  let ?s = "s\<lparr>so_base := None\<rparr>" and ?t = "resolve (so_path s)"
  have valid: "config_valid s" "keys_valid s" using inv by (simp_all add: store_inv_def)
  have same: "same_handle s ?s" by (simp add: same_handle_def)
  note valid' = same_handle_valid [OF same, of crc]
  obtain base where base: "file_name (so_path s) = Some base" using name by (auto simp: not_temporary_def)
  obtain tf fs1 where st: "stage_snapshot crc handle s fs = (Ok tf, fs1)" "calm fs1" "staged handle ?t (fs_disk fs) bs tf (fs_disk fs1)"
    using calm_stage [OF calm w wf name enc] by blast
  have k: "keeps ?t (fs_disk fs) (fs_disk fs1)" using st(3) by (simp add: staged_def)
  have "dirs_exist (so_path s) (fs_disk fs1)" "\<not> is_dir ?t (fs_disk fs1)"
    using w keeps_is_dir [OF k] unfolding writable_def dirs_exist_def by blast+
  from calm_publish [OF st(2,3) this base] obtain fs2 where pub: "publish_replace handle (so_path s) tf fs1 = (Ok (), fs2)" "calm fs2" "dirs_exist (so_path s) (fs_disk fs2)"
    by blast
  have placed: "published (resolve (so_path ?s)) bs (fs_disk fs2)" using publish_replace_atomic [OF pub(1) st(3) wf] by simp
  define fs3 where "fs3 = (if sync_parent then fs_step (fs_disk fs2) (fs_step (fs_disk fs2) fs2) else fs2)"
  have "calm fs3" "published (resolve (so_path ?s)) bs (fs_disk fs3)" using pub(2) placed by (simp_all add: fs3_def)
  from calm_refresh [OF this _ _ _ law] obtain s' fs' where re: "refresh_after_commit crc hasher None ?s fs3 = (Ok (), s', fs')"
    using valid valid' enc by auto
  then have run: "store_commit crc hasher handle sync_parent s fs = (Ok (), s', fs')"
    using dirty st(1) pub(1) calm_sync_parent [OF pub(2,3) base] placed by (simp add: store_commit_def Let_def fs3_def published_def disk_wf_def split: if_splits)
  show ?thesis using commit_dirty [OF run dirty inv law wf name] run enc durable_published by auto
qed

section \<open>Witnesses\<close>

text \<open>An empty disk, a disk that is full after three bytes, and a disk on which the destination exists but
  the test for it fails.\<close>

definition example_disk :: disk where
  "example_disk = \<lparr>dk_entries = (\<lambda>_. None), dk_data = (\<lambda>_. []), dk_synced = (\<lambda>_. False), dk_next = 1\<rparr>"

definition example_fs :: "(io_error \<times> nat) option list \<Rightarrow> fs" where
  "example_fs faults = \<lparr>fs_disk = example_disk, fs_faults = faults, fs_reads = [], fs_trace = [], fs_sequence = 0, fs_process_id = 7\<rparr>"

definition occupied_fs :: fs where
  "occupied_fs = (example_fs [Some (IoNotFound, 0)])\<lparr>fs_disk := example_disk\<lparr>dk_entries := [[''index''] \<mapsto> FileNode 1],
     dk_data := (\<lambda>_. [42]), dk_synced := (\<lambda>_. True), dk_next := 2\<rparr>\<rparr>"

lemma example_fs_ok: "disk_wf (fs_disk (example_fs faults))" "calm (example_fs [])" "writable [''index''] (example_fs [])"
  "not_temporary (fs_process_id (example_fs faults)) [''index'']"
  by (auto simp: example_fs_def example_disk_def disk_wf_def calm_def writable_def dirs_exist_def is_dir_def resolve_def not_temporary_def
      file_name_def temporary_name_def intro!: exI [of _ 0])

lemma example_store_fields: "so_path example_empty_store = [''index'']" "so_dirty example_empty_store" "contents example_empty_store = Map.empty"
  by (simp_all add: example_empty_store_def store_empty_def)

lemma example_encodes: "\<exists>bs. encode_snapshot example_crc example_empty_store = Ok bs"
  using encode_snapshot_room [of example_empty_store example_crc] example_empty_store_inv(1) [of example_crc]
  by (auto simp: store_inv_def example_empty_store_def store_empty_def example_index_def)

theorem commit_succeeds_witness:
  "\<exists>s' fs'. store_commit example_crc example_hasher id True example_empty_store (example_fs []) = (Ok (), s', fs') \<and> \<not> so_dirty s'"
proof -
  obtain bs where "encode_snapshot example_crc example_empty_store = Ok bs" using example_encodes by blast
  from commit_succeeds [OF example_empty_store_inv(1) example_hasher_law this example_store_fields(2) example_fs_ok(1) _ example_fs_ok(2), of id True]
  show ?thesis using example_fs_ok(3) example_fs_ok(4) [of "[]"] by (auto simp: example_store_fields)
qed

lemma example_full_run:
  "fst (store_commit example_crc example_hasher id True example_empty_store (example_fs [None, None, Some (OtherIo ''No space left on device'', 3)]))
     = Err (StoreIo (OtherIo ''No space left on device''))"
proof -
  obtain bs where "encode_snapshot example_crc example_empty_store = Ok bs" using example_encodes by blast
  moreover note attempt = allocate_loop.simps(2) [where n = 1023, unfolded Suc_numeral semiring_norm]
  ultimately show ?thesis
    by (simp add: attempt store_commit_def example_store_fields stage_snapshot_def create_parent_if_needed_def allocate_def file_name_def
        example_fs_def example_disk_def Let_def fs_create_new_def fs_call_def sys_create_new_def parent_dir_def resolve_def is_dir_def
        temporary_name_def fs_handle_from_file_def fs_step_def write_synced_def fs_write_all_def io_then_def cleanup_after_def
        remove_owned_path_def verify_owned_path_def fs_symlink_metadata_def sys_symlink_metadata_def append_data_def
        fs_handle_from_path_def sys_follow_def follow.simps fs_remove_file_def sys_remove_file_def)
qed

theorem commit_atomic_witness:
  "\<exists>s' fs'. store_commit example_crc example_hasher id True example_empty_store (example_fs [None, None, Some (OtherIo ''No space left on device'', 3)])
       = (Err (StoreIo (OtherIo ''No space left on device'')), s', fs')
     \<and> so_dirty s' \<and> store_inv example_crc s'
     \<and> (\<forall>d \<in> set (fs_trace fs'). durable [''index''] d = None \<or> (\<exists>bs. encode_snapshot example_crc example_empty_store = Ok bs \<and> durable [''index''] d = Some bs))"
proof -
  let ?fs = "example_fs [None, None, Some (OtherIo ''No space left on device'', 3)]"
  obtain s' fs' where run: "store_commit example_crc example_hasher id True example_empty_store ?fs = (Err (StoreIo (OtherIo ''No space left on device'')), s', fs')"
    using example_full_run by (cases "store_commit example_crc example_hasher id True example_empty_store ?fs") auto
  have "fs_trace ?fs = []" "durable [''index''] (fs_disk ?fs) = None" by (simp_all add: example_fs_def example_disk_def durable_def)
  then show ?thesis
    using commit_atomic [OF run example_empty_store_inv(1) example_hasher_law example_fs_ok(1)] example_fs_ok(4) run
    by (auto simp: example_store_fields)
qed

theorem create_replaces_nothing_witness:
  "case create_with_params example_crc example_hasher id [''index''] f64_one 4 1 \<lparr>p_bands = 2, p_rows = 2\<rparr> PariAffine32V1 occupied_fs of (r, fs') \<Rightarrow>
     r \<noteq> Panic \<and> (\<forall>d \<in> set (fs_trace fs'). dk_entries d [''index''] = Some (FileNode 1) \<and> dk_data d 1 = [42])"
proof -
  obtain r fs' where run: "create_with_params example_crc example_hasher id [''index''] f64_one 4 1 \<lparr>p_bands = 2, p_rows = 2\<rparr> PariAffine32V1 occupied_fs = (r, fs')"
    by fastforce
  have "disk_wf (fs_disk occupied_fs)" "not_temporary (fs_process_id occupied_fs) [''index'']" "fs_trace occupied_fs = []"
    "dk_entries (fs_disk occupied_fs) [''index''] = Some (FileNode 1)" "dk_data (fs_disk occupied_fs) 1 = [42]" "1 < dk_next (fs_disk occupied_fs)"
    using example_fs_ok(4) by (auto simp: occupied_fs_def example_fs_def disk_wf_def node_ok_def)
  with create_replaces_nothing [OF run example_hasher_law] show ?thesis unfolding run by auto
qed

end
