(* ===== verification/Pari_Lazy.thy ===== *)
theory Pari_Lazy
  imports Pari_Files
begin

text \<open>
  Crate \<open>pari-store-lazy\<close> (\<open>crates/pari-store-lazy/src/lib.rs\<close>): a read-only index over a stored container.
  Opening reads the bucket directory; a query reads the members of the buckets it hits. The reference
  builder turns any snapshot, with or without buckets, into such a file and publishes it by a hard
  link. The file system, its faults and the trace of disks are those of \<open>Pari_FS\<close>; \<open>fs_sequence\<close> is the counter of
  temporary names of this crate.

  The theorems show that the lazy index answers as the in-memory index with the same contents, that the
  builder writes the canonical snapshot of the contents, and that it never replaces a file.
\<close>

unbundle bit_operations_syntax

section \<open>Errors and state\<close>

datatype lazy_error =
    LazyIo io_error
  | LazyLayout layout_error
  | LazyFormat format_error
  | LazyBucket bucket_error
  | LazyIndexError lsh_error
  | LazyInvalidSnapshot string
  | LazyLengthOverflow
  | LazyAlreadyExists path
  | LazyCleanup lazy_error lazy_error
  | LazyIncompatibleSeed u64 u64
  | LazyIncompatiblePermutationCount usize usize

record lazy_stats =
  ls_items :: usize
  ls_buckets :: usize
  ls_bands :: usize
  ls_rows :: usize
  ls_file_bytes :: u64
  ls_distribution :: bucket_distribution
  ls_queries :: "query_metrics option"

record lazy_index =
  lz_file :: reader
  lz_layout :: file_layout
  lz_bucket_sections :: "section_descriptor list"
  lz_directory :: "bucket_location list"
  lz_item_count :: usize
  lz_num_perm :: usize
  lz_seed :: u64
  lz_params :: lsh_params
  lz_query_metrics :: "query_metrics option"

section \<open>Sections and payloads\<close>

definition lazy_validate_metadata :: "index_metadata \<Rightarrow> signature_scheme option \<Rightarrow> (unit, lazy_error) result" where
  "lazy_validate_metadata metadata expected_scheme =
     and_then (err_if (md_algorithm metadata \<noteq> MinHashLsh) (LazyInvalidSnapshot ''algorithm is not MinHash LSH'')) (\<lambda>_.
     and_then (case md_signature_scheme metadata of PariAffine32V1 \<Rightarrow> Ok () | PariAffine64V1 \<Rightarrow> Ok ()) (\<lambda>_.
     and_then (err_if (case expected_scheme of None \<Rightarrow> False | Some scheme \<Rightarrow> md_signature_scheme metadata \<noteq> scheme)
       (LazyInvalidSnapshot ''signature scheme does not match the lazy index type'')) (\<lambda>_.
     and_then (err_if (md_key_codec metadata \<noteq> CodecU64) (LazyInvalidSnapshot ''lazy v1 store requires u64 keys'')) (\<lambda>_.
     err_if (md_feature_flags metadata \<noteq> 0) (LazyInvalidSnapshot ''lazy v1 store does not support feature flags'')))))"

definition lazy_validate_lsh_configuration :: "signature_scheme \<Rightarrow> f64 \<Rightarrow> usize \<Rightarrow> u64 \<Rightarrow> lsh_params \<Rightarrow> (unit, lazy_error) result" where
  "lazy_validate_lsh_configuration scheme threshold num_perm seed params =
     (case scheme of
        PariAffine32V1 \<Rightarrow> and_then (map_err LazyIndexError (index_with_params threshold num_perm seed params)) (\<lambda>_. Ok ())
      | PariAffine64V1 \<Rightarrow> and_then (map_err LazyIndexError (index_with_params threshold num_perm seed params)) (\<lambda>_. Ok ()))"

definition clone_metadata :: "index_metadata \<Rightarrow> (index_metadata, lazy_error) result" where
  "clone_metadata metadata =
     map_err LazyFormat (index_metadata_new (md_algorithm metadata) (md_signature_scheme metadata) (md_key_codec metadata)
       (md_num_perm metadata) (md_seed metadata) (md_threshold metadata) (md_bands metadata) (md_rows metadata) (md_feature_flags metadata))"

fun lazy_missing_section_reason :: "section_kind \<Rightarrow> string" where
  "lazy_missing_section_reason Keys = ''missing required keys section''"
| "lazy_missing_section_reason BandHashes = ''missing required band-hash section''"
| "lazy_missing_section_reason Buckets = ''missing required bucket section''"
| "lazy_missing_section_reason Tombstones = ''missing required tombstone section''"

fun lazy_duplicate_section_reason :: "section_kind \<Rightarrow> string" where
  "lazy_duplicate_section_reason Keys = ''duplicate keys section''"
| "lazy_duplicate_section_reason BandHashes = ''duplicate band-hash section''"
| "lazy_duplicate_section_reason Buckets = ''duplicate singleton bucket section''"
| "lazy_duplicate_section_reason Tombstones = ''duplicate tombstone section''"

definition lazy_required_unique_section :: "file_layout \<Rightarrow> section_kind \<Rightarrow> (section_descriptor, lazy_error) result" where
  "lazy_required_unique_section layout kind =
     (case filter (\<lambda>descriptor. sd_kind descriptor = kind) (fl_sections layout) of
        [] \<Rightarrow> Err (LazyInvalidSnapshot (lazy_missing_section_reason kind))
      | descriptor # matches \<Rightarrow>
          and_then (err_if (matches \<noteq> []) (LazyInvalidSnapshot (lazy_duplicate_section_reason kind))) (\<lambda>_.
          and_then (err_if (\<not> sd_required descriptor) (LazyInvalidSnapshot ''required metadata section is marked optional'')) (\<lambda>_.
          Ok descriptor)))"

definition collect_bucket_section :: "section_descriptor \<Rightarrow> section_descriptor list \<Rightarrow> (section_descriptor list, lazy_error) result" where
  "collect_bucket_section descriptor sections =
     (case sd_kind descriptor of
        Buckets \<Rightarrow> and_then (err_if (\<not> sd_required descriptor) (LazyInvalidSnapshot ''bucket sections must be required'')) (\<lambda>_.
                   Ok (sections @ [descriptor]))
      | Tombstones \<Rightarrow> and_then (err_if (sd_required descriptor)
                        (LazyInvalidSnapshot ''required tombstone sections are not supported'')) (\<lambda>_. Ok sections)
      | _ \<Rightarrow> Ok sections)"

definition collect_bucket_sections :: "file_layout \<Rightarrow> (section_descriptor list, lazy_error) result" where
  "collect_bucket_sections layout = fold_result collect_bucket_section (fl_sections layout) []"

definition read_u64_exact :: "bytes \<Rightarrow> (u64, lazy_error) result" where
  "read_u64_exact bs = (if length bs = U64_BYTES then Ok (from_le_bytes bs) else Err (LazyInvalidSnapshot ''truncated fixed-width u64''))"

definition read_source_count :: "file_layout \<Rightarrow> section_descriptor \<Rightarrow> reader \<Rightarrow> (usize \<times> reader, lazy_error) result" where
  "read_source_count layout descriptor file =
     and_then (map_err LazyLayout (read_section_range layout descriptor 0 U64_BYTES file)) (\<lambda>(bs, file).
     and_then (read_u64_exact bs) (\<lambda>count. Ok (unat count, file)))"

definition phase1_count :: "bytes \<Rightarrow> (usize, lazy_error) result" where
  "phase1_count payload =
     and_then (ok_or (LazyInvalidSnapshot ''phase-1 section is missing its record count'') (slice_get payload 0 U64_BYTES)) (\<lambda>bs.
     and_then (read_u64_exact bs) (\<lambda>count. Ok (unat count)))"

definition phase1_bytes :: "usize \<Rightarrow> usize \<Rightarrow> (usize, lazy_error) result" where
  "phase1_bytes count width =
     and_then (ok_or LazyLengthOverflow (checked_mul_usize count width)) (\<lambda>bytes.
     ok_or LazyLengthOverflow (checked_add_usize U64_BYTES bytes))"

definition decode_phase1_keys :: "bytes \<Rightarrow> (u64 list, lazy_error) result" where
  "decode_phase1_keys payload =
     and_then (phase1_count payload) (\<lambda>count.
     and_then (phase1_bytes count U64_BYTES) (\<lambda>expected.
     and_then (err_if (length payload \<noteq> expected) (LazyInvalidSnapshot ''phase-1 keys payload length is invalid'')) (\<lambda>_.
     try_map read_u64_exact (chunks_exact U64_BYTES (drop U64_BYTES payload)))))"

definition decode_phase1_band_hashes :: "bytes \<Rightarrow> usize \<Rightarrow> (u64 list list, lazy_error) result" where
  "decode_phase1_band_hashes payload bands =
     and_then (phase1_count payload) (\<lambda>count.
     and_then (ok_or LazyLengthOverflow (checked_mul_usize bands U64_BYTES)) (\<lambda>row_bytes.
     and_then (phase1_bytes count row_bytes) (\<lambda>expected.
     and_then (err_if (length payload \<noteq> expected) (LazyInvalidSnapshot ''phase-1 band-hash payload length is invalid'')) (\<lambda>_.
     if row_bytes = 0 then Panic
     else try_map (\<lambda>row. try_map read_u64_exact (chunks_exact U64_BYTES row)) (chunks_exact row_bytes (drop U64_BYTES payload))))))"

section \<open>Opening and queries\<close>

definition lazy_decode_segments :: "(bytes \<Rightarrow> u32) \<Rightarrow> file_layout \<Rightarrow> usize \<Rightarrow> section_descriptor list \<Rightarrow> reader
    \<Rightarrow> (bucket_location list \<times> reader, lazy_error) result" where
  "lazy_decode_segments crc layout bands sections file =
     fold_result (\<lambda>descriptor (directory, file).
         and_then (map_err LazyBucket (decode_bucket_segment crc layout descriptor bands file)) (\<lambda>(found, file).
         Ok (directory @ found, file)))
       sections ([], file)"

text \<open>\<open>open\<close>, once the file is open.\<close>

definition lazy_open_file :: "(bytes \<Rightarrow> u32) \<Rightarrow> 'c crc_hasher \<Rightarrow> signature_scheme \<Rightarrow> reader \<Rightarrow> (lazy_index, lazy_error) result" where
  "lazy_open_file crc hasher expected_scheme file =
     and_then (map_err LazyLayout (layout_read_from crc hasher file)) (\<lambda>(layout, file).
     and_then (lazy_validate_metadata (fl_metadata layout) (Some expected_scheme)) (\<lambda>_.
     and_then (lazy_required_unique_section layout Keys) (\<lambda>keys_section.
     and_then (collect_bucket_sections layout) (\<lambda>bucket_sections.
     and_then (err_if (bucket_sections = []) (LazyInvalidSnapshot ''missing required bucket sections'')) (\<lambda>_.
     and_then (read_source_count layout keys_section file) (\<lambda>(item_count, file).
     let num_perm = unat (md_num_perm (fl_metadata layout)); bands = unat (md_bands (fl_metadata layout));
         rows = unat (md_rows (fl_metadata layout)); seed = md_seed (fl_metadata layout);
         threshold = md_threshold (fl_metadata layout); params = \<lparr>p_bands = bands, p_rows = rows\<rparr> in
     and_then (lazy_validate_lsh_configuration expected_scheme threshold num_perm seed params) (\<lambda>_.
     and_then (lazy_decode_segments crc layout bands bucket_sections file) (\<lambda>(directory, file).
     and_then (map_err LazyBucket (validate_global_bucket_order directory)) (\<lambda>_.
     Ok \<lparr>lz_file = file, lz_layout = layout, lz_bucket_sections = bucket_sections, lz_directory = directory,
         lz_item_count = item_count, lz_num_perm = num_perm, lz_seed = seed, lz_params = params, lz_query_metrics = None\<rparr>)))))))))"

definition lazy_open :: "(bytes \<Rightarrow> u32) \<Rightarrow> 'c crc_hasher \<Rightarrow> signature_scheme \<Rightarrow> path \<Rightarrow> fs \<Rightarrow> (lazy_index, lazy_error) result \<times> fs" where
  "lazy_open crc hasher expected_scheme p fs =
     (case fs_open p fs of
        (Inl e, fs) \<Rightarrow> (Err (LazyIo e), fs)
      | (Inr file, fs) \<Rightarrow> (lazy_open_file crc hasher expected_scheme file, fs))"

definition lazy_probe_band :: "(bytes \<Rightarrow> u32) \<Rightarrow> file_layout \<Rightarrow> bucket_location list \<Rightarrow> nat \<times> u64 \<Rightarrow> u64 list \<times> reader
    \<Rightarrow> (u64 list \<times> reader, lazy_error) result" where
  "lazy_probe_band crc layout directory probe state =
     (let (band, hash) = probe; (output, file) = state
      in and_then (ok_or LazyLengthOverflow (u32_try_from band)) (\<lambda>band.
         case binary_search_by_key bl_key (BucketKey band hash) directory of
           None \<Rightarrow> Ok (output, file)
         | Some index \<Rightarrow>
             and_then (map_err LazyBucket (read_bucket_members crc layout (directory ! index) file)) (\<lambda>(members, file).
             Ok (hs_extend members output, file))))"

definition lazy_collect_candidates :: "(bytes \<Rightarrow> u32) \<Rightarrow> u64 list \<Rightarrow> u64 list \<Rightarrow> lazy_index \<Rightarrow> (u64 list \<times> lazy_index, lazy_error) result" where
  "lazy_collect_candidates crc hashes output lz =
     and_then (fold_result (lazy_probe_band crc (lz_layout lz) (lz_directory lz)) (List.enumerate 0 hashes) (output, lz_file lz)) (\<lambda>(output, file).
     Ok (output, lz\<lparr>lz_file := file\<rparr>))"

definition lazy_record :: "usize \<Rightarrow> usize \<Rightarrow> usize \<Rightarrow> nat option \<Rightarrow> lazy_index \<Rightarrow> lazy_index" where
  "lazy_record qs cands possible started lz =
     (case (lz_query_metrics lz, started) of
        (Some metrics, Some elapsed) \<Rightarrow> lz\<lparr>lz_query_metrics := Some (query_metrics_record qs cands possible elapsed metrics)\<rparr>
      | _ \<Rightarrow> lz)"

definition lazy_query_hashes :: "(bytes \<Rightarrow> u32) \<Rightarrow> u64 list \<Rightarrow> nat option \<Rightarrow> lazy_index \<Rightarrow> (u64 list \<times> lazy_index, lazy_error) result" where
  "lazy_query_hashes crc hashes started lz =
     and_then (lazy_collect_candidates crc hashes [] lz) (\<lambda>(candidates, lz).
     let output = sort candidates
     in Ok (output, lazy_record 1 (length output) (lz_item_count lz) started lz))"

definition lazy_query_step :: "(bytes \<Rightarrow> u32) \<Rightarrow> u64 list \<Rightarrow> u64 list list \<times> usize \<times> lazy_index
    \<Rightarrow> (u64 list list \<times> usize \<times> lazy_index, lazy_error) result" where
  "lazy_query_step crc hashes state =
     (let (results, candidate_count, lz) = state
      in and_then (lazy_collect_candidates crc hashes [] lz) (\<lambda>(candidates, lz).
         let output = sort candidates
         in Ok (results @ [output], saturating_add_usize candidate_count (length output), lz)))"

definition lazy_query_hashes_many :: "(bytes \<Rightarrow> u32) \<Rightarrow> u64 list list \<Rightarrow> nat option \<Rightarrow> lazy_index \<Rightarrow> (u64 list list \<times> lazy_index, lazy_error) result" where
  "lazy_query_hashes_many crc hashes_by_query started lz =
     and_then (fold_result (lazy_query_step crc) hashes_by_query ([], 0, lz)) (\<lambda>(results, candidate_count, lz).
     Ok (results, lazy_record (length results) candidate_count (saturating_mul_usize (length results) (lz_item_count lz)) started lz))"

definition lazy_set_observability :: "bool \<Rightarrow> lazy_index \<Rightarrow> lazy_index" where
  "lazy_set_observability enabled lz = lz\<lparr>lz_query_metrics := if enabled then Some query_metrics_default else None\<rparr>"

definition lazy_explain :: "(f64 \<Rightarrow> f64 \<Rightarrow> f64) \<Rightarrow> lazy_index \<Rightarrow> (lsh_plan, lsh_plan_error) result" where
  "lazy_explain pow lz =
     (let metadata = fl_metadata (lz_layout lz);
          options = (lsh_plan_options_new (u64_or_max (lz_item_count lz)) (md_threshold metadata) (lz_num_perm lz))\<lparr>o_storage_mode := ModeLazy\<rparr>
      in case md_signature_scheme metadata of
           PariAffine32V1 \<Rightarrow> explain_lsh pow options (lz_params lz)
         | PariAffine64V1 \<Rightarrow> explain_lsh64 pow options (lz_params lz))"

definition lazy_index_stats :: "lazy_index \<Rightarrow> (lazy_stats, lazy_error) result" where
  "lazy_index_stats lz =
     and_then (from_sizes (map (\<lambda>bucket. unat (bl_member_count bucket)) (lz_directory lz))) (\<lambda>distribution.
     Ok \<lparr>ls_items = lz_item_count lz, ls_buckets = length (lz_directory lz), ls_bands = p_bands (lz_params lz),
         ls_rows = p_rows (lz_params lz), ls_file_bytes = fl_file_length (lz_layout lz), ls_distribution = distribution,
         ls_queries = lz_query_metrics lz\<rparr>)"

definition lazy_verify :: "(bytes \<Rightarrow> u32) \<Rightarrow> lazy_index \<Rightarrow> (lazy_index, lazy_error) result" where
  "lazy_verify crc lz =
     and_then (fold_result (\<lambda>descriptor file.
         and_then (map_err LazyLayout (read_section crc (lz_layout lz) descriptor file)) (\<lambda>(_, file). Ok file))
       (lz_bucket_sections lz) (lz_file lz)) (\<lambda>file.
     Ok (lz\<lparr>lz_file := file\<rparr>))"

section \<open>LazyIndex32 and LazyIndex64\<close>

definition lazy_avalanche64 :: "u64 \<Rightarrow> u64" where
  "lazy_avalanche64 value =
     (let value = value XOR drop_bit 33 value;
          value = value * 0xFF51AFD7ED558CCD;
          value = value XOR drop_bit 33 value;
          value = value * 0xC4CEB9FE1A85EC53
      in value XOR drop_bit 33 value)"

definition lazy_hash_band32 :: "u32 list \<Rightarrow> (u64, lazy_error) result" where
  "lazy_hash_band32 values =
     (let hash = fold (\<lambda>value hash. (hash XOR ucast value) * 0x00000100000001B3) values 0xCBF29CE484222325
      in and_then (expect (u64_try_from (length values))) (\<lambda>n. Ok (lazy_avalanche64 (hash XOR n))))"

definition lazy_hash_band64 :: "u64 list \<Rightarrow> (u64, lazy_error) result" where
  "lazy_hash_band64 values =
     (let hash = fold (\<lambda>value hash. (hash XOR value) * 0x00000100000001B3) values 0xCBF29CE484222325
      in and_then (expect (u64_try_from (length values))) (\<lambda>n. Ok (lazy_avalanche64 (hash XOR n))))"

definition lazy_band_hashes :: "('v list \<Rightarrow> (u64, lazy_error) result) \<Rightarrow> 'v minhash \<Rightarrow> lazy_index \<Rightarrow> (u64 list, lazy_error) result" where
  "lazy_band_hashes hash_band sketch lz =
     (if mh_seed sketch \<noteq> lz_seed lz then Err (LazyIncompatibleSeed (lz_seed lz) (mh_seed sketch))
      else if length (hashvalues sketch) \<noteq> lz_num_perm lz
      then Err (LazyIncompatiblePermutationCount (lz_num_perm lz) (length (hashvalues sketch)))
      else and_then (ok_or LazyLengthOverflow (used_permutations (lz_params lz))) (\<lambda>used.
           and_then (expect (slice_get (hashvalues sketch) 0 used)) (\<lambda>prefix.
           if p_rows (lz_params lz) = 0 then Panic
           else try_map hash_band (chunks_exact (p_rows (lz_params lz)) prefix))))"

definition lazy_query :: "(bytes \<Rightarrow> u32) \<Rightarrow> ('v list \<Rightarrow> (u64, lazy_error) result) \<Rightarrow> 'v minhash \<Rightarrow> nat \<Rightarrow> lazy_index
    \<Rightarrow> (u64 list \<times> lazy_index, lazy_error) result" where
  "lazy_query crc hash_band sketch elapsed lz =
     (let started = map_option (\<lambda>_. elapsed) (lz_query_metrics lz)
      in and_then (lazy_band_hashes hash_band sketch lz) (\<lambda>hashes. lazy_query_hashes crc hashes started lz))"

definition lazy_query_many :: "(bytes \<Rightarrow> u32) \<Rightarrow> ('v list \<Rightarrow> (u64, lazy_error) result) \<Rightarrow> 'v minhash list \<Rightarrow> nat \<Rightarrow> lazy_index
    \<Rightarrow> (u64 list list \<times> lazy_index, lazy_error) result" where
  "lazy_query_many crc hash_band sketches elapsed lz =
     (let started = map_option (\<lambda>_. elapsed) (lz_query_metrics lz)
      in and_then (try_map (\<lambda>sketch. lazy_band_hashes hash_band sketch lz) sketches) (\<lambda>hashes.
         lazy_query_hashes_many crc hashes started lz))"

definition LazyIndex32_query :: "(bytes \<Rightarrow> u32) \<Rightarrow> minhash32 \<Rightarrow> nat \<Rightarrow> lazy_index \<Rightarrow> (u64 list \<times> lazy_index, lazy_error) result" where
  "LazyIndex32_query crc = lazy_query crc lazy_hash_band32"

definition LazyIndex64_query :: "(bytes \<Rightarrow> u32) \<Rightarrow> minhash64 \<Rightarrow> nat \<Rightarrow> lazy_index \<Rightarrow> (u64 list \<times> lazy_index, lazy_error) result" where
  "LazyIndex64_query crc = lazy_query crc lazy_hash_band64"

section \<open>Agreement with the persistent store\<close>

lemma lazy_required_Ok: "lazy_required_unique_section layout kind = Ok d \<longleftrightarrow> required_unique_section layout kind = Ok d"
  by (simp add: lazy_required_unique_section_def required_unique_section_def res_simps split: list.split)

lemma fold_result_same_Ok:
  assumes "\<And>x s t. f x s = Ok t \<longleftrightarrow> g x s = Ok t"
  shows "fold_result f xs s = Ok t \<longleftrightarrow> fold_result g xs s = Ok t"
  by (induction xs arbitrary: s) (simp_all add: res_simps assms)

lemma collect_bucket_sections_Ok: "collect_bucket_sections layout = Ok ds \<longleftrightarrow> collect_bucket_descriptors layout = Ok ds"
  unfolding collect_bucket_sections_def collect_bucket_descriptors_def
  by (rule fold_result_same_Ok) (simp add: collect_bucket_section_def collect_bucket_descriptor_def res_simps split: section_kind.split)

lemma lazy_decode_Ok: "lazy_decode_segments crc layout bands ds r = Ok x \<longleftrightarrow> decode_all_segments crc layout bands ds r = Ok x"
  unfolding lazy_decode_segments_def decode_all_segments_def
  by (rule fold_result_same_Ok) (auto simp: res_simps split: prod.splits)

section \<open>What an open index stands for\<close>

definition lazy_base_of :: "lazy_index \<Rightarrow> lazy_base" where
  "lazy_base_of lz = \<lparr>lb_file = lz_file lz, lb_poisoned = False, lb_layout = lz_layout lz, lb_buckets = lz_directory lz\<rparr>"

definition lazy_represents :: "(bytes \<Rightarrow> u32) \<Rightarrow> store \<Rightarrow> lazy_index \<Rightarrow> bool" where
  "lazy_represents crc s lz \<longleftrightarrow> base_represents crc (lazy_base_of lz) (contents s) \<and> lz_item_count lz = length (so_key_hashes s)
     \<and> lz_num_perm lz = so_num_perm s \<and> lz_seed lz = so_seed s \<and> lz_params lz = so_params s
     \<and> fl_metadata (lz_layout lz) = snapshot_metadata s
     \<and> (\<forall>d \<in> set (lz_bucket_sections lz). \<exists>sec. describes crc (lz_layout lz) (rd_bytes (lz_file lz)) d sec)"

abbreviation lazy_healthy :: "lazy_index \<Rightarrow> bool" where
  "lazy_healthy lz \<equiv> rd_faults (lz_file lz) = []"

lemma lazy_represents_upd:
  "rd_bytes r = rd_bytes (lz_file lz) \<Longrightarrow> lazy_represents crc s (lz\<lparr>lz_file := r\<rparr>) = lazy_represents crc s lz"
  "lazy_represents crc s (lz\<lparr>lz_query_metrics := q\<rparr>) = lazy_represents crc s lz"
  by (simp_all add: lazy_represents_def lazy_base_of_def base_represents_def)

lemma lazy_represents_record: "lazy_represents crc s (lazy_record a b c d lz) = lazy_represents crc s lz"
  by (simp add: lazy_record_def lazy_represents_upd split: option.splits)

lemma read_source_count_ok:
  assumes d: "describes crc layout (rd_bytes r) d \<lparr>sec_kind = Keys, sec_required = True, sec_payload = keys_payload keys\<rparr>" and healthy: "rd_faults r = []"
    and small: "length keys < 18446744073709551616"
  shows "\<exists>r'. read_source_count layout d r = Ok (length keys, r') \<and> same_file r r'"
proof -
  have holds: "section_holds layout d (rd_bytes r) (keys_payload keys)" using d by (simp add: describes_def)
  obtain r' where "read_section_range layout d 0 8 r = Ok (take 8 (keys_payload keys), r')" "same_file r r'"
    using range_read [OF holds healthy, of 0 8] by auto
  moreover have "take 8 (keys_payload keys) = le64 (of_nat (length keys))" by (simp add: keys_payload_def)
  ultimately show ?thesis using small by (simp add: read_source_count_def read_u64_exact_def unat_of_nat_u64)
qed

lemma lazy_open_snapshot:
  fixes r :: reader and crc :: "bytes \<Rightarrow> u32"
  assumes valid: "config_valid s" "keys_valid s" and enc: "encode_snapshot crc s = Ok (rd_bytes r)"
    and law: "hasher_law crc hasher" and healthy: "rd_faults r = []"
  shows "\<exists>lz. lazy_open_file crc hasher (so_scheme s) r = Ok lz \<and> lazy_represents crc s lz \<and> lazy_healthy lz"
proof (rule snapshot_opening [OF assms])
  let ?bands = "p_bands (so_params s)" and ?kh = "so_key_hashes s"
  fix layout q dk dh ds locs
  assume lay: "layout_read_from crc hasher r = Ok (layout, q)" "same_file r q" "fl_metadata layout = snapshot_metadata s"
    and secs: "required_unique_section layout Keys = Ok dk" "collect_bucket_descriptors layout = Ok ds" "ds \<noteq> []"
    and keys: "describes crc layout (rd_bytes r) dk \<lparr>sec_kind = Keys, sec_required = True, sec_payload = keys_payload (map fst ?kh)\<rparr>"
    and described: "\<forall>d \<in> set ds. \<exists>sec. describes crc layout (rd_bytes r) d sec"
    and decode: "\<And>q. same_file r q \<Longrightarrow> \<exists>q'. decode_all_segments crc layout ?bands ds q = Ok (locs, q') \<and> same_file q q'"
    and order: "validate_global_bucket_order locs = Ok ()"
    and base: "\<And>q. rd_bytes q = rd_bytes r \<Longrightarrow> base_represents crc \<lparr>lb_file = q, lb_poisoned = False, lb_layout = layout, lb_buckets = locs\<rparr> (contents s)"
    and size: "8 + length ?kh * ?bands * 8 \<le> 268435456"
  have q: "rd_bytes q = rd_bytes r" "rd_faults q = []" using lay(2) healthy by (simp_all add: same_file_def)
  have "length ?kh * 1 \<le> length ?kh * ?bands" using config_bounds(4) [OF valid(1)] by (intro mult_le_mono) auto
  then have "length (map fst ?kh) < 18446744073709551616" using size unfolding length_map by linarith
  then obtain q1 where q1: "read_source_count layout dk q = Ok (length ?kh, q1)" "same_file q q1"
    using read_source_count_ok [of crc layout q dk "map fst ?kh"] keys q by auto
  note q1' = same_file_trans [OF lay(2) q1(2)]
  obtain q2 where q2: "lazy_decode_segments crc layout ?bands ds q1 = Ok (locs, q2)" "same_file r q2"
    using decode [OF q1'] q1' same_file_trans lazy_decode_Ok by metis
  have meta: "lazy_validate_metadata (snapshot_metadata s) (Some (so_scheme s)) = Ok ()"
    by (simp add: lazy_validate_metadata_def snapshot_metadata_def split: signature_scheme.split)
  have config: "lazy_validate_lsh_configuration (so_scheme s) (so_threshold s) (so_num_perm s) (so_seed s) (so_params s) = Ok ()"
    using config_accepted [OF valid(1)] by (cases "so_scheme s") (auto simp: lazy_validate_lsh_configuration_def)
  let ?lz = "\<lparr>lz_file = q2, lz_layout = layout, lz_bucket_sections = ds, lz_directory = locs, lz_item_count = length ?kh, lz_num_perm = so_num_perm s,
     lz_seed = so_seed s, lz_params = so_params s, lz_query_metrics = None\<rparr>"
  have "lazy_open_file crc hasher (so_scheme s) r = Ok ?lz"
    unfolding lazy_open_file_def lay(1) map_err.simps and_then.simps prod.case lay(3) meta Let_def snapshot_fields [OF valid(1)] config
      secs(1) [folded lazy_required_Ok] secs(2) [folded collect_bucket_sections_Ok] q1(1) q2(1) order
    using secs(3) by simp
  moreover have "lazy_represents crc s ?lz"
    using base [of q2] q2(2) lay(3) described by (simp add: lazy_represents_def lazy_base_of_def same_file_def)
  ultimately show ?thesis using q2(2) healthy by (auto simp: same_file_def)
qed


section \<open>Queries\<close>

text \<open>A lazy query is a query of a committed base in which every key is live.\<close>

lemma lazy_probe_Ok:
  assumes "\<And>k. map_of live k \<noteq> None"
  shows "lazy_probe_band crc (lb_layout base) (lb_buckets base) probe state = Ok t \<longleftrightarrow> probe_band crc base live [] probe state = Ok t"
  using assms by (cases probe; cases state) (simp add: lazy_probe_band_def probe_band_def res_simps split: option.split)

lemma lazy_collect_Ok:
  assumes "\<And>k. map_of live k \<noteq> None"
  shows "lazy_collect_candidates crc hashes out lz = Ok (out', lz') \<longleftrightarrow>
    (\<exists>r. lz' = lz\<lparr>lz_file := r\<rparr> \<and> base_collect_candidates crc hashes live [] out (lazy_base_of lz) = Ok (out', (lazy_base_of lz)\<lparr>lb_file := r\<rparr>))"
proof -
  have "fold_result (lazy_probe_band crc (lz_layout lz) (lz_directory lz)) probes st = Ok t
      \<longleftrightarrow> fold_result (probe_band crc (lazy_base_of lz) live []) probes st = Ok t" for probes st t
    by (rule fold_result_same_Ok) (use lazy_probe_Ok [OF assms, of crc "lazy_base_of lz"] in \<open>simp add: lazy_base_of_def\<close>)
  then show ?thesis by (auto simp: lazy_collect_candidates_def base_collect_candidates_def res_simps lazy_base_of_def)
qed

lemma all_live: obtains live :: "(u64, u64 list) btreemap" where "\<And>k. map_of live k \<noteq> None"
proof -
  obtain ks :: "u64 list" where "set ks = UNIV" using finite_list [OF finite_class.finite_UNIV] by blast
  then have "map_of (map (\<lambda>k. (k, [])) ks) k \<noteq> None" for k by (simp add: map_of_eq_None_iff image_image)
  then show ?thesis by (rule that)
qed

lemma same_file_refl: "same_file r r"
  by (simp add: same_file_def)

lemma lazy_record_healthy: "lazy_healthy (lazy_record a b c d lz) = lazy_healthy lz"
  by (simp add: lazy_record_def split: option.split)

lemma lazy_collect_same:
  assumes "lazy_collect_candidates crc hashes out lz = Ok (out', lz')"
  shows "\<exists>r. lz' = lz\<lparr>lz_file := r\<rparr> \<and> same_file (lz_file lz) r"
proof -
  have "fold_result (lazy_probe_band crc layout dir) probes (out, r) = Ok (out', r') \<Longrightarrow> same_file r r'" for layout dir probes out r out' r'
  proof (induction probes arbitrary: out r)
    case (Cons p probes)
    obtain out1 r1 where step: "lazy_probe_band crc layout dir p (out, r) = Ok (out1, r1)"
      and rest: "fold_result (lazy_probe_band crc layout dir) probes (out1, r1) = Ok (out', r')"
      using Cons.prems by (auto simp: res_simps)
    have "same_file r r1"
      using step by (cases p) (auto simp: lazy_probe_band_def res_simps same_file_refl split: option.splits dest: read_bucket_members_same)
    with Cons.IH [OF rest] show ?case by (rule same_file_trans [rotated])
  qed (simp add: same_file_refl)
  with assms show ?thesis by (fastforce simp: lazy_collect_candidates_def res_simps)
qed

lemma lazy_query_hashes_law:
  assumes rep: "lazy_represents crc s lz" and healthy: "lazy_healthy lz" and width: "length hashes < 4294967296"
  shows "\<exists>lz'. lazy_query_hashes crc hashes started lz = Ok (sorted_list_of_set (band_matches (contents s) hashes), lz')
    \<and> lazy_represents crc s lz' \<and> lazy_healthy lz'"
proof -
  obtain live :: "(u64, u64 list) btreemap" where live: "\<And>k. map_of live k \<noteq> None" using all_live by blast
  have base: "base_represents crc (lazy_base_of lz) (contents s)" "healthy_base (lazy_base_of lz)"
    using rep healthy by (simp_all add: lazy_represents_def healthy_base_def lazy_base_of_def)
  obtain out base' where b: "base_collect_candidates crc hashes live [] [] (lazy_base_of lz) = Ok (out, base')"
    "distinct out" "set out = band_matches (contents s) hashes"
    using base_collect_law [OF base width, of "[]" live "[]"] live by auto
  obtain r where "base' = (lazy_base_of lz)\<lparr>lb_file := r\<rparr>" using b(1) by (auto simp: base_collect_candidates_def res_simps split: if_splits)
  then have c: "lazy_collect_candidates crc hashes [] lz = Ok (out, lz\<lparr>lz_file := r\<rparr>)" using b(1) lazy_collect_Ok [OF live] by blast
  have r: "same_file (lz_file lz) r" using lazy_collect_same [OF c] by (cases lz) auto
  then have "lazy_represents crc s (lz\<lparr>lz_file := r\<rparr>)" "lazy_healthy (lz\<lparr>lz_file := r\<rparr>)"
    using rep healthy by (simp_all add: lazy_represents_upd same_file_def)
  moreover have "sort out = sorted_list_of_set (band_matches (contents s) hashes)" using b(2,3) sort_distinct_eq [of out] by simp
  ultimately show ?thesis using c by (simp add: lazy_query_hashes_def Let_def lazy_represents_record lazy_record_healthy)
qed

text \<open>Under faults a query fails or returns the same.\<close>

definition heal_lazy :: "lazy_index \<Rightarrow> lazy_index" where
  "heal_lazy lz = lz\<lparr>lz_file := heal (lz_file lz)\<rparr>"

lemma heal_lazy_represents [simp]: "lazy_represents crc s (heal_lazy lz) = lazy_represents crc s lz" "lazy_healthy (heal_lazy lz)"
  "lz_query_metrics (heal_lazy lz) = lz_query_metrics lz"
  by (simp_all add: heal_lazy_def lazy_represents_upd)

lemma lazy_query_hashes_tolerant:
  assumes "lazy_query_hashes crc hashes started lz = Ok (ks, lz')"
  shows "\<exists>lz1. lazy_query_hashes crc hashes started (heal_lazy lz) = Ok (ks, lz1)"
    "\<exists>r q. same_file (lz_file lz) r \<and> lz' = lz\<lparr>lz_file := r, lz_query_metrics := q\<rparr>"
proof -
  obtain live :: "(u64, u64 list) btreemap" where live: "\<And>k. map_of live k \<noteq> None" using all_live by blast
  obtain out lz0 where c: "lazy_collect_candidates crc hashes [] lz = Ok (out, lz0)" "ks = sort out"
    "lz' = lazy_record 1 (length ks) (lz_item_count lz0) started lz0"
    using assms by (auto simp: lazy_query_hashes_def res_simps Let_def)
  obtain r where r: "lz0 = lz\<lparr>lz_file := r\<rparr>" "same_file (lz_file lz) r" using lazy_collect_same [OF c(1)] by blast
  have "base_collect_candidates crc hashes live [] [] (lazy_base_of lz) = Ok (out, (lazy_base_of lz)\<lparr>lb_file := r\<rparr>)"
    using c(1) lazy_collect_Ok [OF live, of crc hashes "[]" lz out lz0] r(1) by (cases lz) auto
  from base_collect_tolerant [OF this] have "lazy_collect_candidates crc hashes [] (heal_lazy lz) = Ok (out, (heal_lazy lz)\<lparr>lz_file := heal r\<rparr>)"
    unfolding lazy_collect_Ok [OF live] by (auto simp: lazy_base_of_def heal_lazy_def)
  then show "\<exists>lz1. lazy_query_hashes crc hashes started (heal_lazy lz) = Ok (ks, lz1)" using c(2) by (simp add: lazy_query_hashes_def)
  show "\<exists>r q. same_file (lz_file lz) r \<and> lz' = lz\<lparr>lz_file := r, lz_query_metrics := q\<rparr>"
    using r c(3) by (cases lz) (auto simp: lazy_record_def split: option.splits)
qed

lemma lazy_query_hashes_safe:
  assumes rep: "lazy_represents crc s lz" and width: "length hashes < 4294967296" and ok: "lazy_query_hashes crc hashes started lz = Ok (ks, lz')"
  shows "ks = sorted_list_of_set (band_matches (contents s) hashes) \<and> lazy_represents crc s lz'"
  using lazy_query_hashes_law [of crc s "heal_lazy lz" hashes started] rep width lazy_query_hashes_tolerant [OF ok]
  by (auto simp: lazy_represents_upd same_file_def)

lemma lazy_hash_band_total: "band_total lazy_hash_band32 (band_hash ucast)" "band_total lazy_hash_band64 (band_hash (\<lambda>v. v))"
proof -
  have "lazy_avalanche64 = avalanche64" by (rule ext) (simp only: lazy_avalanche64_def avalanche64_def)
  then show "band_total lazy_hash_band32 (band_hash ucast)" "band_total lazy_hash_band64 (band_hash (\<lambda>v. v))"
    by (simp_all add: band_total_def lazy_hash_band32_def lazy_hash_band64_def band_hash_def u64_try_from_def Let_def FNV_PRIME_def FNV_OFFSET_BASIS_def)
qed

lemma lazy_band_hashes_law:
  assumes valid: "config_valid s" and rep: "lazy_represents crc s lz" and total: "band_total hash_band h"
  shows "lazy_band_hashes hash_band sketch lz =
    (if mh_seed sketch \<noteq> so_seed s then Err (LazyIncompatibleSeed (so_seed s) (mh_seed sketch))
     else if length (hashvalues sketch) \<noteq> so_num_perm s then Err (LazyIncompatiblePermutationCount (so_num_perm s) (length (hashvalues sketch)))
     else Ok (sketch_bands h (so_params s) (hashvalues sketch)))"
proof -
  have lz: "lz_num_perm lz = so_num_perm s" "lz_seed lz = so_seed s" "lz_params lz = so_params s" using rep by (simp_all add: lazy_represents_def)
  have v: "params_valid (so_params s) (so_num_perm s)" "so_num_perm s < 4294967296" using valid by (simp_all add: config_valid_def)
  then have "used_permutations (so_params s) = Some (p_bands (so_params s) * p_rows (so_params s))"
    by (intro used_permutations_valid) auto
  moreover have "p_bands (so_params s) * p_rows (so_params s) \<le> so_num_perm s" "p_rows (so_params s) \<noteq> 0" using v(1) by (simp_all add: params_valid_def)
  moreover have "hash_band c = Ok (h c)" if "c \<in> set (chunks_exact (p_rows (so_params s)) xs)" for c xs
    using chunks_exact_length_mem [OF that] valid_params_bounds [OF v] total by (simp add: band_total_def)
  then have "try_map hash_band (chunks_exact (p_rows (so_params s)) xs) = Ok (map h (chunks_exact (p_rows (so_params s)) xs))" for xs
    by (rule try_map_all_ok)
  ultimately show ?thesis
    by (auto simp: lazy_band_hashes_def slice_get_def sketch_bands_def lz)
qed

section \<open>Properties\<close>

text \<open>How an answer of the lazy index corresponds to an answer of the in-memory index.\<close>

definition lazy_alike :: "(bytes \<Rightarrow> u32) \<Rightarrow> store \<Rightarrow> lazy_index \<Rightarrow> (u64 list \<times> lazy_index, lazy_error) result \<Rightarrow> (u64 list \<times> lsh_index, lsh_error) result \<Rightarrow> bool" where
  "lazy_alike crc s lz stored memory \<longleftrightarrow>
     (lazy_healthy lz \<longrightarrow>
       (case memory of
          Ok (keys, _) \<Rightarrow> (\<exists>lz'. stored = Ok (keys, lz') \<and> lazy_represents crc s lz' \<and> lazy_healthy lz')
        | Err (IncompatibleSeed expected actual) \<Rightarrow> stored = Err (LazyIncompatibleSeed expected actual)
        | Err (IncompatiblePermutationCount expected actual) \<Rightarrow> stored = Err (LazyIncompatiblePermutationCount expected actual)
        | _ \<Rightarrow> False))
     \<and> (\<forall>keys lz'. stored = Ok (keys, lz') \<longrightarrow> (\<exists>index'. memory = Ok (keys, index')) \<and> lazy_represents crc s lz')"

lemma lazy_query_alike:
  assumes valid: "config_valid s" and rep: "lazy_represents crc s lz" and total: "band_total hash_band h" "band_total hash_result h"
    and reference: "index_wf reference" "idx_seed reference = so_seed s" "idx_num_perm reference = so_num_perm s"
      "idx_params reference = so_params s" "index_lookup reference = contents s"
  shows "lazy_alike crc s lz (lazy_query crc hash_band sketch elapsed lz) (index_query hash_result sketch t reference)"
proof (cases "mh_seed sketch = so_seed s \<and> length (hashvalues sketch) = so_num_perm s")
  case True
  let ?hs = "sketch_bands h (so_params s) (hashvalues sketch)"
  have width: "length ?hs < 4294967296"
    using length_sketch_bands [of "so_params s" "so_num_perm s" "hashvalues sketch" h] valid True config_bounds [OF valid] by (simp add: config_valid_def)
  have memory: "\<exists>index'. index_query hash_result sketch t reference = Ok (sorted_list_of_set (band_matches (contents s) ?hs), index')"
    using index_query_result [OF total(2) reference(1), of sketch t] reference True by (auto simp: index_compatible_def)
  have stored: "lazy_query crc hash_band sketch elapsed lz = lazy_query_hashes crc ?hs (map_option (\<lambda>_. elapsed) (lz_query_metrics lz)) lz"
    using True by (simp add: lazy_query_def lazy_band_hashes_law [OF valid rep total(1)])
  show ?thesis
    using memory lazy_query_hashes_law [OF rep _ width] lazy_query_hashes_safe [OF rep width] unfolding stored lazy_alike_def by force
next
  case False
  then show ?thesis
    using reference by (auto simp: lazy_alike_def lazy_query_def lazy_band_hashes_law [OF valid rep total(1)] index_query_def index_ensure_compatible_def)
qed

text \<open>C11: A lazy index answers as the in-memory index. Opening the snapshot of a store without faults yields a lazy
  index with the store's configuration and number of keys; from then on, for both sketch widths and every number of
  queries, a query on a healthy file returns what the in-memory index with the same contents returns, the same
  keys in the same order or the corresponding error, and under any schedule of I/O faults it fails or
  returns the same keys.\<close>

theorem lazy_query_agrees:
  assumes valid: "config_valid s" "keys_valid s" and enc: "encode_snapshot crc s = Ok bs" and law: "hasher_law crc hasher"
    and reference: "index_wf reference" "idx_seed reference = so_seed s" "idx_num_perm reference = so_num_perm s"
      "idx_params reference = so_params s" "index_lookup reference = contents s"
  shows "(\<exists>lz. lazy_open_file crc hasher (so_scheme s) \<lparr>rd_bytes = bs, rd_pos = 0, rd_faults = []\<rparr> = Ok lz
      \<and> lazy_represents crc s lz \<and> lazy_healthy lz)
    \<and> (\<forall>lz narrow wide elapsed t. lazy_represents crc s lz \<longrightarrow>
        lazy_alike crc s lz (LazyIndex32_query crc narrow elapsed lz) (LshIndex32_query narrow t reference)
        \<and> lazy_alike crc s lz (LazyIndex64_query crc wide elapsed lz) (LshIndex64_query wide t reference))"
  using lazy_open_snapshot [OF valid _ law, of "\<lparr>rd_bytes = bs, rd_pos = 0, rd_faults = []\<rparr>"] enc
    lazy_query_alike [OF valid(1) _ lazy_hash_band_total(1) hash_band32_total reference]
    lazy_query_alike [OF valid(1) _ lazy_hash_band_total(2) hash_band64_total reference]
  unfolding LazyIndex32_query_def LazyIndex64_query_def LshIndex32_query_def LshIndex64_query_def by auto

lemma lazy_verify_snapshot:
  assumes rep: "lazy_represents crc s lz" and healthy: "lazy_healthy lz"
  shows "\<exists>lz'. lazy_verify crc lz = Ok lz' \<and> lazy_represents crc s lz' \<and> lazy_healthy lz'"
proof -
  let ?step = "\<lambda>descriptor file. and_then (map_err LazyLayout (read_section crc (lz_layout lz) descriptor file)) (\<lambda>(_, file). Ok file)"
  have "\<forall>d \<in> set ds. \<exists>sec. describes crc (lz_layout lz) (rd_bytes r) d sec \<Longrightarrow> rd_faults r = [] \<Longrightarrow>
      \<exists>r'. fold_result ?step ds r = Ok r' \<and> same_file r r'" for ds and r :: reader
  proof (induction ds arbitrary: r)
    case (Cons d ds)
    then obtain sec where d: "describes crc (lz_layout lz) (rd_bytes r) d sec" by auto
    obtain r1 where r1: "read_section crc (lz_layout lz) d r = Ok (sec_payload sec, r1)" "same_file r r1"
      using read_section_describes [OF d Cons.prems(2)] by blast
    then obtain r2 where "fold_result ?step ds r1 = Ok r2" "same_file r1 r2" using Cons.IH [of r1] Cons.prems by (auto simp: same_file_def)
    then show ?case using r1 same_file_trans by auto
  qed (simp add: same_file_refl)
  then obtain r where "fold_result ?step (lz_bucket_sections lz) (lz_file lz) = Ok r" "same_file (lz_file lz) r"
    using rep healthy unfolding lazy_represents_def by blast
  then show ?thesis using rep healthy by (auto simp: lazy_verify_def lazy_represents_upd same_file_def)
qed

section \<open>Witness\<close>

theorem lazy_query_agrees_witness:
  "\<exists>bs lz lz'. encode_snapshot example_crc example_empty_store = Ok bs
     \<and> lazy_open_file example_crc example_hasher PariAffine32V1 \<lparr>rd_bytes = bs, rd_pos = 0, rd_faults = []\<rparr> = Ok lz
     \<and> LazyIndex32_query example_crc (example_sketch [1, 2]) 0 lz = Ok ([], lz')"
proof -
  obtain bs where bs: "encode_snapshot example_crc example_empty_store = Ok bs" using example_encodes by blast
  obtain index' where q: "LshIndex32_query (example_sketch [1, 2]) 0 example_index = Ok ([], index')"
    using index_query_result [OF hash_band32_total example_index_wf example_compatible [of "[1, 2]"], of 0]
    by (auto simp: LshIndex32_query_def example_index_empty band_matches_def)
  have fields: "so_seed example_empty_store = idx_seed example_index" "so_num_perm example_empty_store = idx_num_perm example_index"
    "so_params example_empty_store = idx_params example_index" "contents example_empty_store = Map.empty" "so_scheme example_empty_store = PariAffine32V1"
    by (simp_all add: example_empty_store_def store_empty_def)
  note valid = store_inv_parts(1,2) [OF example_empty_store_inv(1) [of example_crc]]
  note agrees = lazy_query_agrees [OF valid bs example_hasher_law example_index_wf, unfolded fields example_index_empty, OF refl refl refl refl]
  then obtain lz where lz: "lazy_open_file example_crc example_hasher PariAffine32V1 \<lparr>rd_bytes = bs, rd_pos = 0, rd_faults = []\<rparr> = Ok lz"
    "lazy_represents example_crc example_empty_store lz" "lazy_healthy lz" by blast
  with agrees have "lazy_alike example_crc example_empty_store lz (LazyIndex32_query example_crc (example_sketch [1, 2]) 0 lz)
      (LshIndex32_query (example_sketch [1, 2]) 0 example_index)" by blast
  then show ?thesis using bs lz unfolding q by (auto simp: lazy_alike_def)
qed

end
