(* ===== verification/Pari_LazyBuild.thy ===== *)
theory Pari_LazyBuild
  imports Pari_Lazy
begin

text \<open>
  Crate \<open>pari-store-lazy\<close>, the reference builder (\<open>build_from_snapshot\<close> in \<open>crates/pari-store-lazy/src/lib.rs\<close>): it
  reads the keys and band hashes of a snapshot, collects the buckets in memory, encodes a new container and
  publishes it beside nothing else: through a temporary file, a hard link and a rollback that checks the
  identity of the file it removes.
\<close>

section \<open>Building the container\<close>

definition lazy_bucket_key :: "u64 \<Rightarrow> nat \<times> u64 \<Rightarrow> (bucket_key, u64 list) btreemap \<Rightarrow> ((bucket_key, u64 list) btreemap, lazy_error) result" where
  "lazy_bucket_key key probe bucket_map =
     (let (band, hash) = probe
      in and_then (ok_or LazyLengthOverflow (u32_try_from band)) (\<lambda>band.
         Ok (bt_push (BucketKey band hash) key bucket_map)))"

definition lazy_push_bucket_section :: "(bytes \<Rightarrow> u32) \<Rightarrow> index_section list \<Rightarrow> (bucket_key \<times> u64 list) list
    \<Rightarrow> (index_section list, lazy_error) result" where
  "lazy_push_bucket_section crc sections records =
     and_then (map_err LazyBucket
       (encode_bucket_segment crc (map (\<lambda>(key, members). \<lparr>br_key = key, br_members = members\<rparr>) records))) (\<lambda>payload.
     and_then (map_err LazyFormat (section_new Buckets True payload)) (\<lambda>section.
     Ok (sections @ [section])))"

definition lazy_segment_step :: "(bytes \<Rightarrow> u32) \<Rightarrow> bucket_key \<times> u64 list \<Rightarrow> segmenter \<Rightarrow> (segmenter, lazy_error) result" where
  "lazy_segment_step crc entry state =
     (let (sections, current, estimated) = state
      in and_then (map_err LazyBucket (bucket_record_size (length (snd entry)))) (\<lambda>contribution.
         and_then
           (if current \<noteq> []
            then and_then (ok_or LazyLengthOverflow (checked_add_usize estimated contribution)) (\<lambda>size.
                 if BUCKET_SEGMENT_TARGET_BYTES < size
                 then and_then (lazy_push_bucket_section crc sections current) (\<lambda>sections.
                      Ok (sections, [], BUCKET_SEGMENT_HEADER_BYTES))
                 else Ok (sections, current, estimated))
            else Ok (sections, current, estimated)) (\<lambda>(sections, current, estimated).
         and_then (ok_or LazyLengthOverflow (checked_add_usize estimated contribution)) (\<lambda>estimated.
         Ok (sections, current @ [entry], estimated)))))"

definition lazy_append_bucket_sections :: "(bytes \<Rightarrow> u32) \<Rightarrow> index_section list \<Rightarrow> (bucket_key, u64 list) btreemap
    \<Rightarrow> (index_section list, lazy_error) result" where
  "lazy_append_bucket_sections crc sections bucket_map =
     (if bucket_map = []
      then and_then (map_err LazyBucket (encode_bucket_segment crc [])) (\<lambda>payload.
           and_then (map_err LazyFormat (section_new Buckets True payload)) (\<lambda>section.
           Ok (sections @ [section])))
      else and_then (fold_result (lazy_segment_step crc) bucket_map (sections, [], BUCKET_SEGMENT_HEADER_BYTES)) (\<lambda>(sections, current, estimated).
           if current \<noteq> [] then lazy_push_bucket_section crc sections current else Ok sections))"

text \<open>The body of \<open>build_from_snapshot\<close> between the opening of the source and the creation of the destination.\<close>

definition lazy_build_output :: "(bytes \<Rightarrow> u32) \<Rightarrow> 'c crc_hasher \<Rightarrow> reader \<Rightarrow> (bytes, lazy_error) result" where
  "lazy_build_output crc hasher source_file =
     and_then (map_err LazyLayout (layout_read_from crc hasher source_file)) (\<lambda>(source_layout, source_file).
     and_then (lazy_validate_metadata (fl_metadata source_layout) None) (\<lambda>_.
     and_then (lazy_required_unique_section source_layout Keys) (\<lambda>keys_descriptor.
     and_then (lazy_required_unique_section source_layout BandHashes) (\<lambda>hashes_descriptor.
     and_then (map_err LazyLayout (read_section crc source_layout keys_descriptor source_file)) (\<lambda>(keys_payload, source_file).
     and_then (map_err LazyLayout (read_section crc source_layout hashes_descriptor source_file)) (\<lambda>(hashes_payload, source_file).
     and_then (decode_phase1_keys keys_payload) (\<lambda>keys.
     and_then (decode_phase1_band_hashes hashes_payload (unat (md_bands (fl_metadata source_layout)))) (\<lambda>rows.
     and_then (err_if (length keys \<noteq> length rows) (LazyInvalidSnapshot ''phase-1 key and band-hash counts differ'')) (\<lambda>_.
     and_then (fold_result (\<lambda>(key, hashes). fold_result (lazy_bucket_key key) (List.enumerate 0 hashes)) (zip keys rows) []) (\<lambda>bucket_map.
     and_then (clone_metadata (fl_metadata source_layout)) (\<lambda>metadata.
     and_then (map_err LazyFormat (section_new Keys True keys_payload)) (\<lambda>keys_section.
     and_then (map_err LazyFormat (section_new BandHashes True hashes_payload)) (\<lambda>hashes_section.
     and_then (lazy_append_bucket_sections crc [keys_section, hashes_section] bucket_map) (\<lambda>sections.
     and_then (map_err LazyFormat (index_file_new metadata sections)) (\<lambda>index.
     map_err LazyFormat (index_file_encode crc index))))))))))))))))"

section \<open>Publishing the file\<close>

abbreviation TEMPORARY_CREATE_ATTEMPTS :: nat where "TEMPORARY_CREATE_ATTEMPTS \<equiv> 128"

fun lift_io :: "(io_error + 'a) \<times> fs \<Rightarrow> ('a, lazy_error) result \<times> fs" where
  "lift_io (Inl e, fs) = (Err (LazyIo e), fs)"
| "lift_io (Inr x, fs) = (Ok x, fs)"

definition cleanup_error :: "lazy_error \<Rightarrow> lazy_error \<Rightarrow> lazy_error" where
  "cleanup_error original cleanup = LazyCleanup original cleanup"

definition sync_parent :: "path \<Rightarrow> fs \<Rightarrow> (unit, lazy_error) result \<times> fs" where
  "sync_parent p fs = lift_io (fs_sync_directory (parent_dir p) fs)"

definition lazy_temporary_path :: "path \<Rightarrow> u32 \<Rightarrow> u64 \<Rightarrow> (path, lazy_error) result" where
  "lazy_temporary_path p process_id ident =
     and_then (ok_or (LazyInvalidSnapshot ''destination path must identify a file'') (file_name p)) (\<lambda>name.
     Ok (butlast p @ [''.'' @ name @ ''.pari-lazy-'' @ decimal (unat process_id) @ ''-'' @ decimal (unat ident) @ ''.tmp'']))"

fun create_temporary_loop :: "nat \<Rightarrow> path \<Rightarrow> fs \<Rightarrow> (path \<times> inode, lazy_error) result \<times> fs" where
  "create_temporary_loop 0 p fs = (Err (LazyIo IoAlreadyExists), fs)"
| "create_temporary_loop (Suc n) p fs =
     (let ident = fs_sequence fs; fs = fs\<lparr>fs_sequence := ident + 1\<rparr>
      in st_then (lazy_temporary_path p (fs_process_id fs) ident, fs) (\<lambda>temporary fs.
         case fs_create_new temporary fs of
           (Inr i, fs) \<Rightarrow> (Ok (temporary, i), fs)
         | (Inl e, fs) \<Rightarrow> if io_kind e = IoAlreadyExists then create_temporary_loop n p fs else (Err (LazyIo e), fs)))"

definition create_temporary :: "path \<Rightarrow> fs \<Rightarrow> (path \<times> inode, lazy_error) result \<times> fs" where
  "create_temporary = create_temporary_loop TEMPORARY_CREATE_ATTEMPTS"

definition rollback_published :: "(inode \<Rightarrow> 'h) \<Rightarrow> path \<Rightarrow> 'h \<Rightarrow> lazy_error \<Rightarrow> fs \<Rightarrow> lazy_error \<times> fs" where
  "rollback_published handle destination identity original fs =
     (case fs_handle_from_path handle destination fs of
        (Inl e, fs) \<Rightarrow> if io_kind e = IoNotFound then (original, fs) else (cleanup_error original (LazyIo e), fs)
      | (Inr current, fs) \<Rightarrow>
          if current \<noteq> identity then (original, fs)
          else case fs_remove_file destination fs of
                 (Inl e, fs) \<Rightarrow> (cleanup_error original (LazyIo e), fs)
               | (Inr _, fs) \<Rightarrow>
                   (case sync_parent destination fs of
                      (Err cleanup, fs) \<Rightarrow> (cleanup_error original cleanup, fs)
                    | (_, fs) \<Rightarrow> (original, fs)))"

definition publish_temporary :: "(inode \<Rightarrow> 'h) \<Rightarrow> path \<Rightarrow> path \<Rightarrow> 'h \<Rightarrow> fs \<Rightarrow> (unit, lazy_error) result \<times> fs" where
  "publish_temporary handle temporary destination identity fs =
     (case fs_hard_link temporary destination fs of
        (Inl e, fs) \<Rightarrow> (if io_kind e = IoAlreadyExists then (Err (LazyAlreadyExists destination), fs) else (Err (LazyIo e), fs))
      | (Inr _, fs) \<Rightarrow>
          (case fs_remove_file temporary fs of
             (Inl e, fs) \<Rightarrow> (case rollback_published handle destination identity (LazyIo e) fs of (error, fs) \<Rightarrow> (Err error, fs))
           | (Inr _, fs) \<Rightarrow>
               (case sync_parent destination fs of
                  (Err e, fs) \<Rightarrow> (case rollback_published handle destination identity e fs of (error, fs) \<Rightarrow> (Err error, fs))
                | (Panic, fs) \<Rightarrow> (Panic, fs)
                | (Ok _, fs) \<Rightarrow> (Ok (), fs))))"

definition cleanup_owned_path :: "path \<Rightarrow> lazy_error \<Rightarrow> fs \<Rightarrow> lazy_error \<times> fs" where
  "cleanup_owned_path p original fs =
     (case fs_remove_file p fs of
        (Inr _, fs) \<Rightarrow>
          (case sync_parent p fs of
             (Err cleanup, fs) \<Rightarrow> (cleanup_error original cleanup, fs)
           | (_, fs) \<Rightarrow> (original, fs))
      | (Inl e, fs) \<Rightarrow> if io_kind e = IoNotFound then (original, fs) else (cleanup_error original (LazyIo e), fs))"

definition atomic_create :: "(inode \<Rightarrow> 'h) \<Rightarrow> path \<Rightarrow> bytes \<Rightarrow> fs \<Rightarrow> (unit, lazy_error) result \<times> fs" where
  "atomic_create handle p bs fs =
     st_then (lift_io (if butlast p = [] then (Inr (), fs) else fs_create_dir_all (butlast p) fs)) (\<lambda>_ fs.
     st_then (create_temporary p fs) (\<lambda>(temporary, i) fs.
     case st_then (lift_io (fs_write_all i bs fs)) (\<lambda>_ fs.
          st_then (lift_io (fs_sync_all i fs)) (\<lambda>_ fs.
          st_then (lift_io (fs_handle_from_file handle i fs)) (\<lambda>identity fs.
          publish_temporary handle temporary p identity fs))) of
       (Ok _, fs) \<Rightarrow> (Ok (), fs)
     | (Panic, fs) \<Rightarrow> (Panic, fs)
     | (Err original, fs) \<Rightarrow> (case cleanup_owned_path temporary original fs of (error, fs) \<Rightarrow> (Err error, fs))))"

definition build_from_snapshot :: "(bytes \<Rightarrow> u32) \<Rightarrow> 'c crc_hasher \<Rightarrow> (inode \<Rightarrow> 'h) \<Rightarrow> path \<Rightarrow> path \<Rightarrow> fs \<Rightarrow> (unit, lazy_error) result \<times> fs" where
  "build_from_snapshot crc hasher handle source destination fs =
     (case fs_exists destination fs of (present, fs) \<Rightarrow>
        if present then (Err (LazyAlreadyExists destination), fs)
        else st_then (lift_io (fs_open source fs)) (\<lambda>source_file fs.
             st_then (lazy_build_output crc hasher source_file, fs) (\<lambda>out fs.
             atomic_create handle destination out fs)))"

section \<open>The output is the canonical snapshot\<close>

lemma read_u64_exact_Ok: "read_u64_exact bs = Ok w \<longleftrightarrow> store_read_u64 bs = Ok w"
  by (simp add: read_u64_exact_def store_read_u64_def)

lemma phase1_count_Ok: "phase1_count payload = Ok n \<longleftrightarrow> read_count payload = Ok n"
  by (auto simp: phase1_count_def read_count_def res_simps read_u64_exact_Ok)

lemma phase1_bytes_Ok: "phase1_bytes n w = Ok m \<longleftrightarrow> payload_bytes n w = Ok m"
  by (auto simp: phase1_bytes_def payload_bytes_def res_simps)

lemma decode_phase1_Ok:
  "decode_phase1_keys payload = Ok ks \<longleftrightarrow> decode_keys payload = Ok ks"
  "decode_phase1_band_hashes payload bands = Ok rows \<longleftrightarrow> decode_band_hashes payload bands = Ok rows"
  by (auto simp: decode_phase1_keys_def decode_keys_def decode_phase1_band_hashes_def decode_band_hashes_def res_simps phase1_count_Ok phase1_bytes_Ok
      try_map_eq_Ok read_u64_exact_Ok)

lemma lazy_push_Ok: "lazy_push_bucket_section crc sections records = Ok ss \<longleftrightarrow> push_bucket_section crc sections records = Ok ss"
  by (simp add: lazy_push_bucket_section_def push_bucket_section_def res_simps)

lemma lazy_segment_step_Ok: "lazy_segment_step crc x st = Ok t \<longleftrightarrow> segment_step crc x st = Ok t"
  by (cases st) (auto simp: lazy_segment_step_def segment_step_def res_simps lazy_push_Ok)

lemma lazy_append_Ok:
  assumes "materialize_sorted_buckets kh bands = Ok bm"
  shows "lazy_append_bucket_sections crc sections bm = Ok ss \<longleftrightarrow> append_bucket_sections crc kh bands sections = Ok ss"
  using assms fold_result_same_Ok [of "lazy_segment_step crc" "segment_step crc", OF lazy_segment_step_Ok]
  by (simp add: lazy_append_bucket_sections_def append_bucket_sections_def res_simps lazy_push_Ok push_bucket_section_def)

lemma lazy_buckets_Ok:
  assumes "\<forall>(key, hashes) \<in> set kh. length hashes = bands"
  shows "fold_result (\<lambda>(key, hashes). fold_result (lazy_bucket_key key) (List.enumerate 0 hashes)) kh m = Ok bm
    \<longleftrightarrow> fold_result (materialize_key bands) kh m = Ok bm"
  using assms
proof (induction kh arbitrary: m)
  case (Cons x kh)
  obtain key hashes where x: "x = (key, hashes)" by (cases x)
  have "fold_result (lazy_bucket_key key) (List.enumerate 0 hashes) m = Ok t \<longleftrightarrow> materialize_key bands x m = Ok t" for t
    using Cons.prems fold_result_same_Ok [of "lazy_bucket_key key" "\<lambda>(band, hash) buckets.
             and_then (ok_or StoreLengthOverflow (u32_try_from band)) (\<lambda>band. Ok (bt_push (BucketKey band hash) key buckets))"]
    by (auto simp: materialize_key_def x lazy_bucket_key_def res_simps split: prod.splits)
  then show ?case using Cons by (simp add: x res_simps)
qed simp

text \<open>A source: a container with the metadata of \<open>s\<close> and its keys and band hashes, each in one required section; other
  sections do not matter.\<close>

definition source_of :: "(bytes \<Rightarrow> u32) \<Rightarrow> store \<Rightarrow> bytes \<Rightarrow> bool" where
  "source_of crc s bs \<longleftrightarrow> (\<exists>ss. container crc bs (snapshot_metadata s) (map section_frame ss)
     \<and> filter (\<lambda>sec. sec_kind sec = Keys) ss = [\<lparr>sec_kind = Keys, sec_required = True, sec_payload = keys_payload (map fst (so_key_hashes s))\<rparr>]
     \<and> filter (\<lambda>sec. sec_kind sec = BandHashes) ss
         = [\<lparr>sec_kind = BandHashes, sec_required = True, sec_payload = hashes_payload (map snd (so_key_hashes s))\<rparr>])"

lemma unique_section:
  assumes "list_all2 (describes crc layout bs) (fl_sections layout) ss" and "filter (\<lambda>sec. sec_kind sec = kind) ss = [sec]" and "sec_required sec"
  shows "\<exists>d. required_unique_section layout kind = Ok d \<and> describes crc layout bs d sec"
proof -
  have "list_all2 (describes crc layout bs) (filter (\<lambda>d. sd_kind d = kind) ds) (filter (\<lambda>sec. sec_kind sec = kind) ss)"
    if "list_all2 (describes crc layout bs) ds ss" for ds
    using that by (induction rule: list_all2_induct) (auto simp: describes_def)
  from this [OF assms(1)] obtain d where "filter (\<lambda>d. sd_kind d = kind) (fl_sections layout) = [d]" "describes crc layout bs d sec"
    using assms(2) by (auto simp: list_all2_Cons2)
  then show ?thesis using assms(3) by (auto simp: required_unique_section_def describes_def)
qed

lemma snapshot_is_source:
  assumes "config_valid s" "keys_valid s" "encode_snapshot crc s = Ok bs" shows "source_of crc s bs"
proof -
  obtain groups where c: "container crc bs (snapshot_metadata s) (map section_frame (snapshot_sections crc s groups))"
    using encode_snapshot_Ok [OF assms] by blast
  have "filter (\<lambda>sec. sec_kind sec = kind) (map (bucket_section crc) groups) = []" if "kind \<noteq> Buckets" for kind
    using that by (auto simp: filter_empty_conv bucket_section_def)
  then show ?thesis unfolding source_of_def by (intro exI [of _ "snapshot_sections crc s groups"]) (use c in \<open>simp add: snapshot_sections_def\<close>)
qed

lemma encode_snapshot_iff:
  assumes valid: "config_valid s" "keys_valid s" and room: "length (hashes_payload (map snd (so_key_hashes s))) \<le> 268435456"
    "length (keys_payload (map fst (so_key_hashes s))) \<le> 268435456"
  shows "encode_snapshot crc s = Ok out \<longleftrightarrow> (\<exists>ss. append_bucket_sections crc (so_key_hashes s) (p_bands (so_params s))
      [\<lparr>sec_kind = Keys, sec_required = True, sec_payload = keys_payload (map fst (so_key_hashes s))\<rparr>,
       \<lparr>sec_kind = BandHashes, sec_required = True, sec_payload = hashes_payload (map snd (so_key_hashes s))\<rparr>] = Ok ss
      \<and> length ss \<le> 1024 \<and> index_file_encode crc \<lparr>if_metadata = snapshot_metadata s, if_sections = ss\<rparr> = Ok out)"
proof -
  have "8 + length (so_key_hashes s) * p_bands (so_params s) * 8 \<le> 268435456"
    using room(1) length_hashes_payload [OF keys_valid_rows [OF valid(2)]] by (simp add: mult.assoc)
  then show ?thesis
    using config_bounds [OF valid(1)] metadata_valid_snapshot [OF valid(1)] room keys_valid_rows [OF valid(2)]
    by (simp add: encode_snapshot_def res_simps u32_try_from_Some index_metadata_new_Ok encode_keys_Ok encode_band_hashes_Ok
        section_new_Ok index_file_new_def snapshot_metadata_def not_less)
qed

lemma lazy_build_output_Ok:
  fixes r :: reader
  assumes valid: "config_valid s" "keys_valid s" and src: "source_of crc s (rd_bytes r)" and law: "hasher_law crc hasher" and healthy: "rd_faults r = []"
  shows "lazy_build_output crc hasher r = Ok out \<longleftrightarrow> encode_snapshot crc s = Ok out"
proof -
  let ?kh = "so_key_hashes s" and ?bands = "p_bands (so_params s)"
  let ?keys = "keys_payload (map fst ?kh)" and ?hashes = "hashes_payload (map snd ?kh)"
  note bounds = config_bounds [OF valid(1)]
  obtain ss where cont: "container crc (rd_bytes r) (snapshot_metadata s) (map section_frame ss)"
    and filters: "filter (\<lambda>sec. sec_kind sec = Keys) ss = [\<lparr>sec_kind = Keys, sec_required = True, sec_payload = ?keys\<rparr>]"
      "filter (\<lambda>sec. sec_kind sec = BandHashes) ss = [\<lparr>sec_kind = BandHashes, sec_required = True, sec_payload = ?hashes\<rparr>]"
    using src by (auto simp: source_of_def)
  have "\<lparr>sec_kind = BandHashes, sec_required = True, sec_payload = ?hashes\<rparr> \<in> set ss" "\<lparr>sec_kind = Keys, sec_required = True, sec_payload = ?keys\<rparr> \<in> set ss"
    using arg_cong [OF filters(1), of set] arg_cong [OF filters(2), of set] by auto
  then have room: "length ?hashes \<le> 268435456" "length ?keys \<le> 268435456" using cont by (auto simp: container_def frame_ok_def section_frame_def)
  have rows: "8 + length ?kh * ?bands * 8 \<le> 268435456" using room(1) length_hashes_payload [OF keys_valid_rows [OF valid(2)]] by (simp add: mult.assoc)
  obtain layout q where lay: "layout_read_from crc hasher r = Ok (layout, q)" "same_file r q" "fl_metadata layout = snapshot_metadata s"
    "list_all2 (describes crc layout (rd_bytes r)) (fl_sections layout) ss"
    using layout_of_container [OF law cont healthy] by blast
  obtain dk dh where dk: "required_unique_section layout Keys = Ok dk"
      "describes crc layout (rd_bytes q) dk \<lparr>sec_kind = Keys, sec_required = True, sec_payload = ?keys\<rparr>"
    and dh: "required_unique_section layout BandHashes = Ok dh"
      "describes crc layout (rd_bytes q) dh \<lparr>sec_kind = BandHashes, sec_required = True, sec_payload = ?hashes\<rparr>"
    using unique_section [OF lay(4) filters(1)] unique_section [OF lay(4) filters(2)] lay(2) by (auto simp: same_file_def)
  obtain q1 where q1: "read_section crc layout dk q = Ok (?keys, q1)" "same_file q q1"
    using read_section_describes [OF dk(2)] lay(2) healthy by (auto simp: same_file_def)
  obtain q2 where q2: "read_section crc layout dh q1 = Ok (?hashes, q2)"
    using read_section_describes [of crc layout q1 dh] dh(2) lay(2) q1(2) healthy by (fastforce simp: same_file_def)
  have keys: "decode_phase1_keys ?keys = Ok (map fst ?kh)" unfolding decode_phase1_Ok using room(2) by (intro decode_keys_payload) simp
  have hashes: "decode_phase1_band_hashes ?hashes ?bands = Ok (map snd ?kh)"
    unfolding decode_phase1_Ok using rows bounds keys_valid_rows [OF valid(2)] by (intro decode_hashes_payload) simp_all
  obtain bm where bm: "materialize_sorted_buckets ?kh ?bands = Ok bm"
    using materialize_Ok [of ?kh ?bands] valid(2) bounds by (auto simp: keys_valid_def)
  have bucket_map: "fold_result (\<lambda>(key, hashes). fold_result (lazy_bucket_key key) (List.enumerate 0 hashes)) ?kh [] = Ok bm"
    using bm lazy_buckets_Ok [of ?kh ?bands "[]" bm] valid(2) by (simp add: keys_valid_def materialize_sorted_buckets_def)
  have meta: "lazy_validate_metadata (snapshot_metadata s) None = Ok ()" "clone_metadata (snapshot_metadata s) = Ok (snapshot_metadata s)"
    using metadata_valid_snapshot [OF valid(1)]
    by (simp_all add: lazy_validate_metadata_def clone_metadata_def snapshot_metadata_def index_metadata_new_Ok res_simps split: signature_scheme.split)
  have "lazy_build_output crc hasher r = Ok out \<longleftrightarrow> (\<exists>ss. append_bucket_sections crc ?kh ?bands
      [\<lparr>sec_kind = Keys, sec_required = True, sec_payload = ?keys\<rparr>, \<lparr>sec_kind = BandHashes, sec_required = True, sec_payload = ?hashes\<rparr>] = Ok ss
      \<and> length ss \<le> 1024 \<and> index_file_encode crc \<lparr>if_metadata = snapshot_metadata s, if_sections = ss\<rparr> = Ok out)"
    unfolding lazy_build_output_def lay(1) lay(3) map_err.simps and_then.simps prod.case meta dk(1) [folded lazy_required_Ok] dh(1) [folded lazy_required_Ok]
      q1(1) q2 keys snapshot_fields(2) [OF valid(1)] hashes zip_map_fst_snd bucket_map
    using room by (simp add: res_simps section_new_Ok lazy_append_Ok [OF bm] index_file_new_def not_less)
  also have "\<dots> \<longleftrightarrow> encode_snapshot crc s = Ok out" using encode_snapshot_iff [OF valid room] by simp
  finally show ?thesis .
qed

lemma lazy_build_output_tolerant: "lazy_build_output crc hasher r = Ok out \<Longrightarrow> lazy_build_output crc hasher (heal r) = Ok out"
proof -
  assume "lazy_build_output crc hasher r = Ok out"
  moreover have "tolerant_by (\<lambda>out. out) (lazy_build_output crc hasher)"
    unfolding lazy_build_output_def
    by (intro tolerant_bind2 [OF tolerant_map_err] layout_read_from_tolerant tolerant_intros read_section_tolerant) (simp_all add: tolerant_by_def)
  ultimately show ?thesis by (simp add: tolerant_by_def)
qed

section \<open>Building never panics\<close>

lemma layout_read_from_bands: "layout_read_from crc hasher r = Ok (layout, r') \<Longrightarrow> 0 < unat (md_bands (fl_metadata layout))"
  by (auto simp: layout_read_from_def layout_decode_header_def res_simps Let_def index_metadata_new_Ok metadata_valid_def word_less_nat_alt split: if_splits)

lemma phase1_safe [panic_free]: "safe (read_u64_exact bs)" "safe (phase1_count payload)" "safe (phase1_bytes n w)" "safe (decode_phase1_keys payload)"
  unfolding phase1_count_def phase1_bytes_def decode_phase1_keys_def read_u64_exact_def by (intro panic_free)+

lemma decode_phase1_band_hashes_safe:
  assumes "0 < bands"
  shows "safe (decode_phase1_band_hashes payload bands)"
proof (cases "checked_mul_usize bands U64_BYTES")
  case None
  then show ?thesis unfolding decode_phase1_band_hashes_def by (simp, intro panic_free)
next
  case (Some row_bytes)
  then have "row_bytes \<noteq> 0" using assms by (auto simp: checked_mul_usize_def split: if_splits)
  then show ?thesis
    unfolding decode_phase1_band_hashes_def Some ok_or.simps and_then.simps if_not_P [OF \<open>row_bytes \<noteq> 0\<close>] by (intro panic_free)
qed

lemma lazy_sections_safe [panic_free]: "safe (lazy_required_unique_section layout kind)" "safe (lazy_validate_metadata md scheme)"
  "safe (clone_metadata md)" "safe (lazy_push_bucket_section crc sections records)"
proof -
  show "safe (lazy_required_unique_section layout kind)"
    unfolding lazy_required_unique_section_def by (auto split: list.split intro!: panic_free)
  show "safe (lazy_validate_metadata md scheme)"
    unfolding lazy_validate_metadata_def by (cases "md_signature_scheme md"; simp; intro panic_free)
  show "safe (clone_metadata md)" "safe (lazy_push_bucket_section crc sections records)"
    unfolding clone_metadata_def lazy_push_bucket_section_def by (intro panic_free)+
qed

lemma lazy_append_safe [panic_free]: "safe (lazy_append_bucket_sections crc sections bucket_map)"
proof -
  have "safe (lazy_segment_step crc x state)" for x state
    unfolding lazy_segment_step_def bucket_record_size_def by (cases state) (simp, intro panic_free)
  then show ?thesis unfolding lazy_append_bucket_sections_def by (intro panic_free)
qed

lemma lazy_build_output_safe: "safe (lazy_build_output crc hasher r)"
proof -
  have hashes: "safe (and_then (decode_phase1_band_hashes payload (unat (md_bands (fl_metadata layout)))) k)"
    if "0 < unat (md_bands (fl_metadata layout))" "\<And>x. safe (k x)" for payload layout and k :: "_ \<Rightarrow> (bytes, lazy_error) result"
    by (intro safe_and_then decode_phase1_band_hashes_safe that)
  have "safe (fold_result (\<lambda>(key, hashes). fold_result (lazy_bucket_key key) (List.enumerate 0 hashes)) kh m)" for kh and m :: "(bucket_key, u64 list) btreemap"
  proof (rule safe_fold_result)
    fix x :: "u64 \<times> u64 list" and m :: "(bucket_key, u64 list) btreemap"
    have "safe (lazy_bucket_key key p m)" for key p and m :: "(bucket_key, u64 list) btreemap"
      unfolding lazy_bucket_key_def by (cases p) (simp, intro panic_free)
    then show "safe ((\<lambda>(key, hashes). fold_result (lazy_bucket_key key) (List.enumerate 0 hashes)) x m)" by (cases x) (simp add: safe_fold_result)
  qed
  note rest = hashes this
  show ?thesis
  proof (cases "layout_read_from crc hasher r")
    case (Ok x)
    obtain layout q where x: "x = (layout, q)" by (cases x)
    note bands = layout_read_from_bands [OF Ok [unfolded x]]
    show ?thesis unfolding lazy_build_output_def Ok x map_err.simps and_then.simps prod.case
      by (rule safe_and_then, rule panic_free, rule safe_and_then, rule panic_free, rule safe_and_then, rule panic_free,
          rule safe_and_then, intro panic_free, rule safe_case_prod, rule safe_and_then, intro panic_free, rule safe_case_prod,
          rule safe_and_then, rule panic_free, rule rest(1) [OF bands], intro panic_free rest(2))
  next
    case (Err e)
    then show ?thesis unfolding lazy_build_output_def by (simp add: safe_def)
  qed (use layout_read_from_safe [of crc hasher r] in \<open>simp add: safe_def\<close>)
qed

section \<open>Temporary files of the builder\<close>

definition lazy_tf :: "(inode \<Rightarrow> 'h) \<Rightarrow> path \<Rightarrow> inode \<Rightarrow> 'h temporary" where
  "lazy_tf handle p i = \<lparr>tf_path = p, tf_file = Some i, tf_identity = handle i, tf_owns_path = True\<rparr>"

lemma lazy_temporary_beside:
  assumes "lazy_temporary_path p pid n = Ok q"
  shows "resolve q \<noteq> resolve p" "resolve q \<noteq> []"
proof -
  obtain name where name: "file_name p = Some name" and q: "q = butlast p @ [''.'' @ name @ ''.pari-lazy-'' @ decimal (unat pid) @ ''-'' @ decimal (unat n) @ ''.tmp'']"
    using assms by (auto simp: lazy_temporary_path_def res_simps)
  have "''.'' @ name @ ''.pari-lazy-'' @ decimal (unat pid) @ ''-'' @ decimal (unat n) @ ''.tmp'' \<noteq> ''.''" by simp
  then have "resolve q = resolve (butlast p) @ [''.'' @ name @ ''.pari-lazy-'' @ decimal (unat pid) @ ''-'' @ decimal (unat n) @ ''.tmp'']"
    unfolding q resolve_append by (simp add: resolve_def)
  moreover have "''.'' @ name @ ''.pari-lazy-'' @ decimal (unat pid) @ ''-'' @ decimal (unat n) @ ''.tmp'' \<noteq> name"
    by (auto dest: arg_cong [where f = length])
  ultimately show "resolve q \<noteq> resolve p" "resolve q \<noteq> []" using resolve_target [OF name] by simp_all
qed

lemma create_temporary_keeps:
  assumes "create_temporary_loop n p fs = (r, fs')" and "keeps (resolve p) d0 (fs_disk fs)"
  shows "moves (keeps (resolve p) d0) fs fs' \<and> r \<noteq> Panic
    \<and> (\<forall>q i. r = Ok (q, i) \<longrightarrow> allocated handle (resolve p) d0 (lazy_tf handle q i) (fs_disk fs') \<and> resolve q \<noteq> [])"
  using assms
proof (induction n arbitrary: fs)
  case (Suc n)
  define fs0 where "fs0 = fs\<lparr>fs_sequence := fs_sequence fs + 1\<rparr>"
  have m0: "moves P fs fs1" if "moves P fs0 fs1" for P fs1 using that by (simp add: fs0_def moves_sequence)
  show ?case
  proof (cases "lazy_temporary_path p (fs_process_id fs) (fs_sequence fs)")
    case (Ok q)
    note q = lazy_temporary_beside [OF Ok]
    obtain r1 fs1 where one: "fs_create_new q fs0 = (r1, fs1)" by fastforce
    have m1: "moves (keeps (resolve p) d0) fs fs1" by (rule m0 [OF fs_create_new_keeps [OF one q]])
    show ?thesis
    proof (cases r1)
      case (Inl e)
      show ?thesis
      proof (cases "io_kind e = IoAlreadyExists")
        case True
        then have "create_temporary_loop n p fs1 = (r, fs')" using Suc.prems(1) one Inl Ok by (simp add: Let_def fs0_def)
        from Suc.IH [OF this moves_last [OF m1 Suc.prems(2)]] show ?thesis using m1 moves_trans by blast
      next
        case False
        then show ?thesis using Suc.prems(1) one Inl Ok m1 by (auto simp: Let_def fs0_def)
      qed
    next
      case (Inr i)
      have new: "sys_create_new q (fs_disk fs0) = Inr (i, fs_disk fs1)" using fs_call_Inr one Inr by (simp add: fs_create_new_def)
      have "keeps (resolve p) d0 (fs_disk fs0)" using Suc.prems(2) by (simp add: fs0_def)
      note c = keeps_create_new [OF this new q] fresh_name [OF this]
      have "r = Ok (q, i)" "fs' = fs1" using Suc.prems(1) one Inr Ok by (simp_all add: Let_def fs0_def)
      then show ?thesis using m1 c q by (auto simp: allocated_def owned_def lazy_tf_def)
    qed
  next
    case (Err e)
    then show ?thesis using Suc.prems(1) m0 [OF moves_refl] by (auto simp: Let_def fs0_def)
  qed (cases "file_name p"; simp add: lazy_temporary_path_def)
qed auto

section \<open>Publication replaces nothing\<close>

lemma lift_io_cases: "lift_io m = (case m of (Inl e, fs) \<Rightarrow> (Err (LazyIo e), fs) | (Inr x, fs) \<Rightarrow> (Ok x, fs))"
  by (cases m rule: lift_io.cases) simp_all

lemma sync_parent_reads: "sync_parent p fs = (r, fs') \<Longrightarrow> moves P fs fs' \<and> fs_disk fs' = fs_disk fs \<and> r \<noteq> Panic"
  using fs_sync_directory_reads [of "parent_dir p" fs] by (auto simp: sync_parent_def lift_io_cases split: prod.splits sum.splits)

lemma rollback_published_moves:
  assumes "rollback_published handle p identity e fs = (e', fs')" and free: "dk_entries d0 (resolve p) = None"
  shows "moves (created (resolve p) bs d0) fs fs'"
proof -
  let ?P = "created (resolve p) bs d0"
  obtain r1 fs1 where one: "fs_handle_from_path handle p fs = (r1, fs1)" by fastforce
  obtain r2 fs2 where two: "fs_remove_file p fs1 = (r2, fs2)" by fastforce
  obtain r3 fs3 where three: "sync_parent p fs2 = (r3, fs3)" by fastforce
  have m: "moves ?P fs fs1" "moves ?P fs2 fs3" using fs_handle_from_path_reads [OF one] sync_parent_reads [OF three] by blast+
  have "moves ?P fs1 fs2" using two by (rule fs_remove_file_moves) (use created_remove_target free in blast)
  moreover have "fs' = fs1 \<or> fs' = fs2 \<or> fs' = fs3"
    using assms(1) one two three by (auto simp: rollback_published_def split: sum.splits if_splits result.splits)
  ultimately show ?thesis using m moves_trans by metis
qed

lemma cleanup_owned_path_moves:
  assumes "cleanup_owned_path p e fs = (e', fs')" and "\<And>d d'. P d \<Longrightarrow> sys_remove_file p d = Inr ((), d') \<Longrightarrow> P d'"
  shows "moves P fs fs'"
proof -
  obtain r1 fs1 where one: "fs_remove_file p fs = (r1, fs1)" by fastforce
  obtain r2 fs2 where two: "sync_parent p fs1 = (r2, fs2)" by fastforce
  have "moves P fs fs1" using one by (rule fs_remove_file_moves) (rule assms(2))
  moreover have "moves P fs1 fs2" using sync_parent_reads [OF two] by blast
  moreover have "fs' = fs1 \<or> fs' = fs2"
    using assms(1) one two by (auto simp: cleanup_owned_path_def split: sum.splits if_splits result.splits)
  ultimately show ?thesis using moves_trans by metis
qed

lemma finish_temporary:
  assumes p: "(case fs_remove_file q fs of
             (Inl e, fs) \<Rightarrow> (case rollback_published handle p identity (LazyIo e) fs of (error, fs) \<Rightarrow> (Err error, fs))
           | (Inr _, fs) \<Rightarrow>
               (case sync_parent p fs of
                  (Err e, fs) \<Rightarrow> (case rollback_published handle p identity e fs of (error, fs) \<Rightarrow> (Err error, fs))
                | (Panic, fs) \<Rightarrow> (Panic, fs)
                | (Ok _, fs) \<Rightarrow> (Ok (), fs))) = (r, fs')"
    and rem: "\<And>d d'. created (resolve p) bs d0 d \<Longrightarrow> sys_remove_file q d = Inr ((), d') \<Longrightarrow> created (resolve p) bs d0 d'"
    and free: "dk_entries d0 (resolve p) = None" and pub: "published (resolve p) bs (fs_disk fs)" and other: "resolve q \<noteq> resolve p"
  shows "moves (created (resolve p) bs d0) fs fs' \<and> r \<noteq> Panic \<and> (r = Ok () \<longrightarrow> published (resolve p) bs (fs_disk fs'))"
proof -
  let ?t = "resolve p" and ?P = "created (resolve p) bs d0"
  obtain r1 fs1 where one: "fs_remove_file q fs = (r1, fs1)" by fastforce
  have m1: "moves ?P fs fs1" using one by (rule fs_remove_file_moves) (rule rem)
  have "moves (published ?t bs) fs fs1" using one by (rule fs_remove_file_moves) (use published_remove other in blast)
  then have pub1: "published ?t bs (fs_disk fs1)" using pub by (rule moves_last)
  obtain r2 fs2 where two: "sync_parent p fs1 = (r2, fs2)" by fastforce
  note m2 = sync_parent_reads [OF two, of ?P]
  have fail: "moves ?P fs fs4 \<and> r = Err e'" if "rollback_published handle p identity e fs3 = (e', fs4)" "moves ?P fs fs3" "r = Err e'" for e e' fs3 fs4
    using rollback_published_moves [OF that(1) free, of bs] that(2,3) moves_trans by blast
  show ?thesis
  proof (cases r1)
    case (Inl e)
    obtain e' fs3 where three: "rollback_published handle p identity (LazyIo e) fs1 = (e', fs3)" by fastforce
    then have "r = Err e'" "fs' = fs3" using p one Inl by simp_all
    then show ?thesis using fail [OF three m1] by simp
  next
    case (Inr u)
    have m: "moves ?P fs fs2" using m1 m2 moves_trans by blast
    show ?thesis
    proof (cases r2)
      case (Ok v)
      then show ?thesis using p one Inr two m m2 pub1 by auto
    next
      case (Err e)
      obtain e' fs3 where three: "rollback_published handle p identity e fs2 = (e', fs3)" by fastforce
      then have "r = Err e'" "fs' = fs3" using p one Inr two Err by simp_all
      then show ?thesis using fail [OF three m] by simp
    qed (use m2 in simp)
  qed
qed

lemma publish_temporary_creates:
  assumes p: "publish_temporary handle (tf_path tf) p identity fs = (r, fs')" and s: "staged handle (resolve p) d0 bs tf (fs_disk fs)" and wf: "disk_wf d0"
    and t: "resolve p \<noteq> []"
  shows "moves (created (resolve p) bs d0) fs fs' \<and> r \<noteq> Panic \<and> (r = Ok () \<longrightarrow> published (resolve p) bs (fs_disk fs'))"
proof -
  let ?t = "resolve p" and ?P = "created (resolve p) bs d0"
  have rem: "\<And>d d'. ?P d \<Longrightarrow> sys_remove_file (tf_path tf) d = Inr ((), d') \<Longrightarrow> ?P d'"
    using staged_created(2) [OF s wf t] by (auto simp: removal_keeps_def)
  have other: "resolve (tf_path tf) \<noteq> ?t" using s by (simp add: staged_def owned_def)
  obtain r1 fs1 where one: "fs_hard_link (tf_path tf) p fs = (r1, fs1)" by fastforce
  have m1: "moves ?P fs fs1"
    using one unfolding fs_hard_link_def by (rule fs_call_moves) (use hard_link_creates [OF s wf] in \<open>auto simp: created_def\<close>)
  show ?thesis
  proof (cases r1)
    case (Inl e)
    then show ?thesis using p one m1 by (auto simp: publish_temporary_def split: if_splits)
  next
    case (Inr v)
    then have "sys_hard_link (tf_path tf) p (fs_disk fs) = Inr (v, fs_disk fs1)" using fs_call_Inr one by (simp add: fs_hard_link_def)
    note linked = hard_link_creates [OF s wf this]
    show ?thesis
      using finish_temporary [OF _ rem linked(2,3) other, of handle identity r fs'] p one Inr m1 moves_trans unfolding publish_temporary_def by fastforce
  qed
qed

text \<open>The closure of \<open>atomic_create\<close>: write, sync, identify, publish.\<close>

lemma write_and_publish:
  assumes run: "st_then (lift_io (fs_write_all i bs fs)) (\<lambda>_ fs.
          st_then (lift_io (fs_sync_all i fs)) (\<lambda>_ fs.
          st_then (lift_io (fs_handle_from_file handle i fs)) (\<lambda>identity fs.
          publish_temporary handle q p identity fs))) = (r, fs')"
    and tf: "allocated handle (resolve p) d0 (lazy_tf handle q i) (fs_disk fs)" and k: "keeps (resolve p) d0 (fs_disk fs)" and wf: "disk_wf d0"
    and t: "resolve p \<noteq> []"
  shows "moves (created (resolve p) bs d0) fs fs' \<and> r \<noteq> Panic \<and> (r = Ok () \<longrightarrow> published (resolve p) bs (fs_disk fs'))"
proof -
  let ?t = "resolve p" and ?P = "created (resolve p) bs d0" and ?tf = "lazy_tf handle q i"
  have weaken: "moves ?P fs fs1" if "moves (keeps ?t d0) fs fs1" for fs1
    using that k by (auto simp: moves_def created_def elim: evolves_mono)
  obtain r1 fs1 where one: "write_synced bs ?tf fs = (r1, fs1)" by fastforce
  note w = write_synced_keeps [OF one tf k]
  have step: "lift_io (write_synced bs ?tf fs) = st_then (lift_io (fs_write_all i bs fs)) (\<lambda>_ fs. lift_io (fs_sync_all i fs))"
    by (auto simp: write_synced_def lazy_tf_def lift_io_cases io_then_def st_then_def split: prod.splits sum.splits)
  have run1: "st_then (lift_io (r1, fs1)) (\<lambda>_ fs. st_then (lift_io (fs_handle_from_file handle i fs)) (\<lambda>identity fs. publish_temporary handle q p identity fs)) = (r, fs')"
    using run unfolding one [symmetric] step by (auto simp: st_then_def split: prod.splits result.splits)
  show ?thesis
  proof (cases r1)
    case (Inl e)
    then show ?thesis using run1 w weaken by auto
  next
    case (Inr u)
    obtain r2 fs2 where two: "fs_handle_from_file handle i fs1 = (r2, fs2)" by fastforce
    have m2: "moves (keeps ?t d0) fs fs2" "fs_disk fs2 = fs_disk fs1" using fs_handle_from_file_reads [OF two, of "keeps ?t d0"] w moves_trans by blast+
    show ?thesis
    proof (cases r2)
      case Inl2: (Inl e)
      then show ?thesis using run1 Inr two weaken [OF m2(1)] by auto
    next
      case Inr2: (Inr identity)
      have "staged handle ?t d0 bs ?tf (fs_disk fs2)" using w Inr m2(2) by simp
      moreover have "publish_temporary handle (tf_path ?tf) p identity fs2 = (r, fs')" using run1 Inr two Inr2 by (simp add: lazy_tf_def)
      ultimately show ?thesis using publish_temporary_creates [of handle ?tf p identity fs2 r fs' d0 bs] wf t weaken [OF m2(1)] moves_trans by blast
    qed
  qed
qed

lemma atomic_create_creates:
  assumes run: "atomic_create handle p bs fs = (r, fs')" and name: "file_name p = Some name" and k: "keeps (resolve p) d0 (fs_disk fs)" and wf: "disk_wf d0"
  shows "moves (created (resolve p) bs d0) fs fs' \<and> r \<noteq> Panic \<and> (r = Ok () \<longrightarrow> published (resolve p) bs (fs_disk fs'))"
proof -
  let ?t = "resolve p" and ?P = "created (resolve p) bs d0"
  have t: "?t \<noteq> []" using resolve_target [OF name] by simp
  have weaken: "moves ?P fs fs1" if "moves (keeps ?t d0) fs fs1" for fs1
    using that k by (auto simp: moves_def created_def elim: evolves_mono)
  obtain r1 fs1 where one: "create_parent_if_needed p fs = (r1, fs1)" by fastforce
  note m1 = create_parent_keeps [OF one name, of d0]
  note k1 = moves_last [OF m1 k]
  have run: "st_then (lift_io (r1, fs1)) (\<lambda>_ fs.
     st_then (create_temporary p fs) (\<lambda>(temporary, i) fs.
     case st_then (lift_io (fs_write_all i bs fs)) (\<lambda>_ fs.
          st_then (lift_io (fs_sync_all i fs)) (\<lambda>_ fs.
          st_then (lift_io (fs_handle_from_file handle i fs)) (\<lambda>identity fs.
          publish_temporary handle temporary p identity fs))) of
       (Ok _, fs) \<Rightarrow> (Ok (), fs)
     | (Panic, fs) \<Rightarrow> (Panic, fs)
     | (Err original, fs) \<Rightarrow> (case cleanup_owned_path temporary original fs of (error, fs) \<Rightarrow> (Err error, fs)))) = (r, fs')"
    using run unfolding atomic_create_def create_parent_if_needed_def [symmetric] one .
  show ?thesis
  proof (cases r1)
    case (Inl e)
    then show ?thesis using run weaken [OF m1] by auto
  next
    case (Inr u)
    obtain r2 fs2 where two: "create_temporary p fs1 = (r2, fs2)" by fastforce
    note alloc = create_temporary_keeps [where handle = handle, OF two [unfolded create_temporary_def] k1]
    have m2: "moves (keeps ?t d0) fs fs2" using m1 alloc moves_trans by blast
    note k2 = moves_last [OF m2 k]
    show ?thesis
    proof (cases r2)
      case (Ok x)
      obtain q i where x: "x = (q, i)" by (cases x)
      have tf: "allocated handle ?t d0 (lazy_tf handle q i) (fs_disk fs2)" "resolve q \<noteq> []" using alloc Ok x by auto
      then have own: "owned ?t d0 (lazy_tf handle q i)" by (simp add: allocated_def)
      obtain r3 fs3 where three: "st_then (lift_io (fs_write_all i bs fs2)) (\<lambda>_ fs.
          st_then (lift_io (fs_sync_all i fs)) (\<lambda>_ fs.
          st_then (lift_io (fs_handle_from_file handle i fs)) (\<lambda>identity fs.
          publish_temporary handle q p identity fs))) = (r3, fs3)" by fastforce
      note w = write_and_publish [OF three tf(1) k2 wf t]
      have m3: "moves ?P fs fs3" using weaken [OF m2] w moves_trans by blast
      have out: "(r, fs') = (case (r3, fs3) of (Ok _, fs) \<Rightarrow> (Ok (), fs) | (Panic, fs) \<Rightarrow> (Panic, fs)
         | (Err original, fs) \<Rightarrow> (case cleanup_owned_path q original fs of (error, fs) \<Rightarrow> (Err error, fs)))"
        using run Inr two Ok x three by simp
      show ?thesis
      proof (cases r3)
        case Err3: (Err e)
        obtain e' fs4 where four: "cleanup_owned_path q e fs3 = (e', fs4)" by fastforce
        have "removal_keeps ?P (lazy_tf handle q i)" by (rule created_removal [OF own wf t]) (simp add: tf(2) lazy_tf_def)
        then have "moves ?P fs3 fs4" using cleanup_owned_path_moves [OF four, of ?P] by (simp add: removal_keeps_def lazy_tf_def)
        then show ?thesis using out Err3 four m3 moves_trans by auto
      qed (use w out m3 in auto)
    next
      case (Err e)
      then show ?thesis using run Inr two weaken [OF m2] by auto
    qed (use alloc in simp)
  qed
qed

section \<open>Properties\<close>

lemma fs_exists_reads: "fs_exists p fs = (b, fs') \<Longrightarrow> moves P fs fs' \<and> fs_disk fs' = fs_disk fs"
  by (auto simp: fs_exists_def split: prod.splits sum.splits dest!: fs_call_read [where P = P] dest: sys_follow_same)

lemma fs_open_reads:
  assumes "fs_open p fs = (r, fs')"
  shows "(P (fs_disk fs) \<longrightarrow> evolves P fs fs') \<and> fs_disk fs' = fs_disk fs
    \<and> (\<forall>i rd. follow 40 p (fs_disk fs) = Inr (FileNode i) \<longrightarrow> r = Inr rd \<longrightarrow> rd_bytes rd = dk_data (fs_disk fs) i \<and> rd_pos rd = 0)"
proof -
  obtain r1 fs1 where one: "fs_call (sys_follow p) fs = (r1, fs1)" by fastforce
  have m: "moves P fs fs1 \<and> fs_disk fs1 = fs_disk fs" using fs_call_read [OF one] sys_follow_same by blast
  have n: "follow 40 p (fs_disk fs) = Inr n" if "r1 = Inr n" for n
    using fs_call_Inr [of "sys_follow p" fs n fs1] one that by (auto simp: sys_follow_def split: sum.splits)
  show ?thesis
  proof (cases r1)
    case (Inl e)
    then show ?thesis using assms one m by (auto simp: fs_open_def io_then_def moves_def)
  next
    case (Inr x)
    then show ?thesis using assms one m n [OF Inr] by (cases x) (auto simp: fs_open_def io_then_def moves_def evolves_def)
  qed
qed

lemma build_outcome:
  fixes s destination
  defines "t \<equiv> s\<lparr>so_path := destination\<rparr>"
  assumes run: "build_from_snapshot crc hasher handle source destination fs = (r, fs')"
    and src: "follow 40 source (fs_disk fs) = Inr (FileNode i)" "source_of crc s (dk_data (fs_disk fs) i)"
    and valid: "config_valid s" "keys_valid s" and law: "hasher_law crc hasher" and wf: "disk_wf (fs_disk fs)" and name: "file_name destination = Some name"
  shows "evolves (creating crc t (fs_disk fs)) fs fs' \<and> r \<noteq> Panic
    \<and> (r = Ok () \<longrightarrow> (\<exists>bs. encode_snapshot crc s = Ok bs \<and> published (resolve destination) bs (fs_disk fs')))"
proof -
  let ?P = "creating crc t (fs_disk fs)" and ?d = "fs_disk fs"
  have t: "so_path t = destination" "encode_snapshot crc t = encode_snapshot crc s" by (simp_all add: t_def encode_snapshot_def)
  have k: "keeps (resolve destination) ?d ?d" by (rule keeps_refl [OF wf])
  then have P: "?P ?d" by (simp add: creating_def t)
  obtain present fs1 where one: "fs_exists destination fs = (present, fs1)" by fastforce
  note m1 = fs_exists_reads [OF one, of ?P]
  obtain r2 fs2 where two: "fs_open source fs1 = (r2, fs2)" by fastforce
  note m2 = fs_open_reads [OF two, of ?P]
  have e1: "evolves ?P fs fs1" using m1 P moves_evolves by blast
  have e2: "evolves ?P fs fs2" using e1 m1 m2 P evolves_trans by metis
  consider (present) present | (closed) e where "\<not> present" "r2 = Inl e" | (opened) rd where "\<not> present" "r2 = Inr rd" by (cases r2) blast+
  then show ?thesis
  proof cases
    case present
    then show ?thesis using run one e1 by (auto simp: build_from_snapshot_def)
  next
    case closed
    then show ?thesis using run one two e2 by (auto simp: build_from_snapshot_def)
  next
    case (opened rd)
    show ?thesis
    proof (cases "lazy_build_output crc hasher rd")
      case (Ok out)
      have "heal rd = \<lparr>rd_bytes = dk_data ?d i, rd_pos = 0, rd_faults = []\<rparr>"
        using m2 m1 src(1) opened(2) by (cases rd) (auto simp: heal_def)
      then have enc: "encode_snapshot crc s = Ok out"
        using lazy_build_output_tolerant [OF Ok] lazy_build_output_Ok [OF valid _ law, of "heal rd" out] src(2) by simp
      have ac: "atomic_create handle destination out fs2 = (r, fs')" using run one two opened Ok by (simp add: build_from_snapshot_def)
      have disk: "fs_disk fs2 = ?d" using m1 m2 by simp
      note c = atomic_create_creates [OF ac name _ wf, unfolded disk, OF k]
      have "created (resolve destination) out ?d (fs_disk fs2)" using k disk by (simp add: created_def)
      from moves_evolves [OF conjunct1 [OF c] this] have "evolves ?P fs2 fs'"
        by (rule evolves_mono) (use enc in \<open>auto simp: creating_def t\<close>)
      then show ?thesis using c e2 enc evolves_trans by blast
    next
      case (Err e)
      then show ?thesis using run one two opened e2 by (auto simp: build_from_snapshot_def)
    qed (use lazy_build_output_safe [of crc hasher rd] in \<open>simp add: safe_def\<close>)
  qed
qed

text \<open>C7: The reference builder writes the canonical snapshot and replaces nothing. From a file with the keys and
  band hashes of a store, committed with buckets or not, a successful build leaves exactly the bytes the store
  itself would commit at the destination. Under every schedule of faults and at every moment everything that existed is unchanged and the
  destination is as before or complete; the build never panics.\<close>

theorem lazy_build_canonical:
  assumes run: "build_from_snapshot crc hasher handle source destination fs = (r, fs')"
    and src: "follow 40 source (fs_disk fs) = Inr (FileNode i)" "source_of crc s (dk_data (fs_disk fs) i)"
    and valid: "config_valid s" "keys_valid s" and law: "hasher_law crc hasher" and wf: "disk_wf (fs_disk fs)" and name: "file_name destination = Some name"
  shows "(\<exists>ds. fs_trace fs' = fs_trace fs @ ds \<and> fs_disk fs' = last (fs_disk fs # ds)
      \<and> (\<forall>d \<in> set ds. (\<forall>q n. dk_entries (fs_disk fs) q = Some n \<longrightarrow> dk_entries d q = Some n)
           \<and> (\<forall>i < dk_next (fs_disk fs). dk_data d i = dk_data (fs_disk fs) i)
           \<and> (durable destination d = durable destination (fs_disk fs)
              \<or> (\<exists>bs. encode_snapshot crc s = Ok bs \<and> durable destination d = Some bs))))
    \<and> r \<noteq> Panic
    \<and> (r = Ok () \<longrightarrow> (\<exists>bs. encode_snapshot crc s = Ok bs \<and> durable destination (fs_disk fs') = Some bs))"
proof -
  let ?t = "s\<lparr>so_path := destination\<rparr>"
  have t: "so_path ?t = destination" "encode_snapshot crc ?t = encode_snapshot crc s" by (simp_all add: encode_snapshot_def)
  note c = build_outcome [OF run src valid law wf name]
  obtain ds where "fs_trace fs' = fs_trace fs @ ds" "fs_disk fs' = last (fs_disk fs # ds)" "\<forall>d \<in> set ds. creating crc ?t (fs_disk fs) d"
    using c unfolding evolves_def by blast
  moreover have "r = Ok () \<longrightarrow> (\<exists>bs. encode_snapshot crc s = Ok bs \<and> durable destination (fs_disk fs') = Some bs)" using c durable_published by blast
  ultimately show ?thesis using c creating_moment [of crc ?t, OF _ wf] unfolding t by (intro conjI exI [of _ ds]) simp_all
qed

section \<open>Witness\<close>

definition source_fs :: "bytes \<Rightarrow> fs" where
  "source_fs bs = (example_fs [])\<lparr>fs_disk := example_disk\<lparr>dk_entries := [[''index''] \<mapsto> FileNode 1], dk_data := (\<lambda>_. bs), dk_synced := (\<lambda>_. True), dk_next := 2\<rparr>\<rparr>"

theorem lazy_build_canonical_witness:
  "\<exists>bs. encode_snapshot example_crc example_store = Ok bs
     \<and> (case build_from_snapshot example_crc example_hasher id [''index''] [''lazy''] (source_fs bs) of (r, fs') \<Rightarrow>
          r \<noteq> Panic \<and> (r = Ok () \<longrightarrow> durable [''lazy''] (fs_disk fs') = Some bs)
          \<and> (\<forall>d \<in> set (fs_trace fs'). dk_entries d [''index''] = Some (FileNode 1) \<and> dk_data d 1 = bs))"
proof -
  obtain bs where bs: "encode_snapshot example_crc example_store = Ok bs"
    using encode_snapshot_room [OF example_store_valid, of example_crc] by (auto simp: example_store_def store_empty_def)
  obtain r fs' where run: "build_from_snapshot example_crc example_hasher id [''index''] [''lazy''] (source_fs bs) = (r, fs')" by fastforce
  have src: "follow 40 [''index''] (fs_disk (source_fs bs)) = Inr (FileNode 1)" by (simp add: source_fs_def follow.simps resolve_def)
  have fields: "dk_data (fs_disk (source_fs bs)) 1 = bs" "fs_trace (source_fs bs) = []" "disk_wf (fs_disk (source_fs bs))"
    "dk_entries (fs_disk (source_fs bs)) [''index''] = Some (FileNode 1)" "1 < dk_next (fs_disk (source_fs bs))" "file_name [''lazy''] = Some ''lazy''"
    by (auto simp: source_fs_def example_fs_def disk_wf_def node_ok_def file_name_def)
  have "source_of example_crc example_store (dk_data (fs_disk (source_fs bs)) 1)" using snapshot_is_source [OF example_store_valid bs] fields(1) by simp
  note canonical = lazy_build_canonical [OF run src this example_store_valid example_hasher_law fields(3,6)]
  show ?thesis using canonical bs run fields by (intro exI [of _ bs]) auto
qed

end
