(* ===== verification/Pari_Build.thy ===== *)
theory Pari_Build
  imports Pari_Spill Pari_LazyBuild
begin

text \<open>
  Crate \<open>pari-store-build\<close>, the external builder (\<open>crates/pari-store-build/src/lib.rs\<close>): the source is checked in
  place, its records are spilled to sorted runs of at most \<open>max_buffer_records\<close>, the runs are merged into a file of
  descriptors and one of memberships, the descriptors are grouped into bucket segments, the
  container is assembled from the source and the segments, and is published beside nothing else. A \<open>workspace\<close> is the
  file system together with the temporary files to remove at the end. The bytes of a buffered writer reach
  its file when it is flushed; one that is given up before leaves its file empty. CRC-32, its hasher, the
  handles of \<open>same-file\<close> and the clock are parameters.

  The theorems show that the external builder writes, for every buffer size, the very bytes a store
  would commit, and that it never replaces a file.
\<close>

section \<open>Temporary files\<close>

type_synonym u128 = "128 word"

record workspace =
  ws_temporary :: "path list"
  ws_fs :: fs

definition track :: "path \<Rightarrow> workspace \<Rightarrow> workspace" where
  "track p ws = ws\<lparr>ws_temporary := ws_temporary ws @ [p]\<rparr>"

definition drop_temporaries :: "workspace \<Rightarrow> fs" where
  "drop_temporaries ws = fold (\<lambda>p fs. snd (fs_remove_file p fs)) (ws_temporary ws) (ws_fs ws)"

definition build_nonce :: "u128 option \<Rightarrow> u32 \<Rightarrow> (u128, build_error) result" where
  "build_nonce clock process_id =
     and_then (ok_or (InvalidSource ''system clock is before UNIX epoch'') clock) (\<lambda>nanos. Ok (nanos XOR ucast process_id))"

definition temp_path :: "path \<Rightarrow> u128 \<Rightarrow> string \<Rightarrow> path" where
  "temp_path destination nonce suffix =
     (let name = (case file_name destination of None \<Rightarrow> ''pari'' | Some name \<Rightarrow> name);
          parent = (if file_name destination = None then destination else butlast destination)
      in parent @ [''.'' @ name @ ''.'' @ hex_digits 32 (unat nonce) @ ''.'' @ suffix @ ''.tmp''])"

section \<open>Streams of a workspace\<close>

definition on_fs :: "(fs \<Rightarrow> (io_error + 'a) \<times> fs) \<Rightarrow> workspace \<Rightarrow> ('a, build_error) result \<times> workspace" where
  "on_fs call ws =
     (case call (ws_fs ws) of
        (Inl e, fs) \<Rightarrow> (Err (BuildIo e), ws\<lparr>ws_fs := fs\<rparr>)
      | (Inr x, fs) \<Rightarrow> (Ok x, ws\<lparr>ws_fs := fs\<rparr>))"

text \<open>\<open>OpenOptions::create_new\<close> and \<open>BufWriter::new\<close>; the writer takes the next schedule of faults.\<close>

definition create_stream :: "path \<Rightarrow> workspace \<Rightarrow> (inode \<times> writer, build_error) result \<times> workspace" where
  "create_stream p ws =
     st_then (on_fs (fs_create_new p) ws) (\<lambda>i ws.
     let fs = ws_fs ws
     in (Ok (i, \<lparr>wr_bytes = [], wr_faults = (case fs_reads fs of [] \<Rightarrow> [] | r # rs \<Rightarrow> r)\<rparr>), ws\<lparr>ws_fs := fs\<lparr>fs_reads := tl (fs_reads fs)\<rparr>\<rparr>))"

definition flush_stream :: "inode \<Rightarrow> writer \<Rightarrow> workspace \<Rightarrow> (unit, build_error) result \<times> workspace" where
  "flush_stream i w = on_fs (fs_write_all i (wr_bytes w))"

definition sync_stream :: "inode \<Rightarrow> workspace \<Rightarrow> (unit, build_error) result \<times> workspace" where
  "sync_stream i = on_fs (fs_sync_all i)"

text \<open>Loops that carry a value and a state.\<close>

fun st_foldl :: "('a \<Rightarrow> 'b \<Rightarrow> 's \<Rightarrow> ('b, 'e) result \<times> 's) \<Rightarrow> 'a list \<Rightarrow> 'b \<Rightarrow> 's \<Rightarrow> ('b, 'e) result \<times> 's" where
  "st_foldl f [] x s = (Ok x, s)"
| "st_foldl f (a # as) x s = st_then (f a x s) (\<lambda>x s. st_foldl f as x s)"

lemma st_then_cong [fundef_cong]:
  "m = m' \<Longrightarrow> (\<And>x s. m' = (Ok x, s) \<Longrightarrow> f x s = g x s) \<Longrightarrow> st_then m f = st_then m' g"
  by (auto simp: st_then_def split: prod.splits result.splits)

section \<open>Spilling\<close>

definition spill_one_run :: "path \<Rightarrow> u128 \<Rightarrow> spill_record list \<Rightarrow> path list \<Rightarrow> workspace
    \<Rightarrow> (spill_record list \<times> path list, build_error) result \<times> workspace" where
  "spill_one_run destination nonce buffer runs ws =
     (let buffer = sort buffer; p = temp_path destination nonce (''run-'' @ decimal (length runs))
      in st_then (create_stream p (track p ws)) (\<lambda>(i, w) ws.
         st_then (fold_result write_spill_record buffer w, ws) (\<lambda>w ws.
         st_then (flush_stream i w ws) (\<lambda>_ ws.
         st_then (sync_stream i ws) (\<lambda>_ ws.
         (Ok ([], runs @ [p]), ws))))))"

definition push_record :: "path \<Rightarrow> u128 \<Rightarrow> usize \<Rightarrow> u64 \<Rightarrow> usize \<times> bytes \<Rightarrow> spill_record list \<times> path list \<Rightarrow> workspace
    \<Rightarrow> (spill_record list \<times> path list, build_error) result \<times> workspace" where
  "push_record destination nonce max_buffer_records key entry state ws =
     (let (buffer, runs) = state
      in st_then (spill_record_of key entry, ws) (\<lambda>x ws.
         let buffer = buffer @ [x]
         in if length buffer = max_buffer_records then spill_one_run destination nonce buffer runs ws else (Ok (buffer, runs), ws)))"

definition spill_item :: "path \<Rightarrow> u128 \<Rightarrow> usize \<Rightarrow> section_descriptor \<Rightarrow> section_descriptor \<Rightarrow> usize \<Rightarrow> usize
    \<Rightarrow> reader \<times> spill_record list \<times> path list \<Rightarrow> workspace \<Rightarrow> (reader \<times> spill_record list \<times> path list, build_error) result \<times> workspace" where
  "spill_item destination nonce max_buffer_records keys hashes row_bytes item state ws =
     (let (source, buffer, runs) = state
      in st_then (read_item keys hashes row_bytes item source, ws) (\<lambda>((key, hash_row), source) ws.
         st_then (st_foldl (push_record destination nonce max_buffer_records key) (List.enumerate 0 hash_row) (buffer, runs) ws) (\<lambda>(buffer, runs) ws.
         (Ok (source, buffer, runs), ws))))"

text \<open>The buffer is allocated at once: a capacity of more than \<open>isize::MAX\<close> bytes panics.\<close>

definition spill_runs :: "section_descriptor \<Rightarrow> section_descriptor \<Rightarrow> usize \<Rightarrow> usize \<Rightarrow> path \<Rightarrow> u128 \<Rightarrow> build_options \<Rightarrow> reader \<Rightarrow> workspace
    \<Rightarrow> (path list \<times> reader, build_error) result \<times> workspace" where
  "spill_runs keys hashes item_count bands destination nonce options source ws =
     st_then (ok_or BuildLengthOverflow (checked_mul_usize bands U64_BYTES), ws) (\<lambda>row_bytes ws.
     let max_buffer_records = bo_max_buffer_records options
     in if 9223372036854775807 < 24 * max_buffer_records then (Panic, ws)
        else st_then (st_foldl (spill_item destination nonce max_buffer_records keys hashes row_bytes) [0..<item_count] (source, [], []) ws) (\<lambda>(source, buffer, runs) ws.
             if buffer \<noteq> [] then st_then (spill_one_run destination nonce buffer runs ws) (\<lambda>(buffer, runs) ws. (Ok (runs, source), ws))
             else (Ok (runs, source), ws)))"

section \<open>Merging\<close>

definition open_runs :: "path list \<Rightarrow> workspace \<Rightarrow> (reader list, build_error) result \<times> workspace" where
  "open_runs run_paths = st_foldl (\<lambda>p readers ws. st_then (on_fs (fs_open p) ws) (\<lambda>r ws. (Ok (readers @ [r]), ws))) run_paths []"

definition merge_runs :: "'c crc_hasher \<Rightarrow> path list \<Rightarrow> path \<Rightarrow> path \<Rightarrow> workspace \<Rightarrow> (u64, build_error) result \<times> workspace" where
  "merge_runs hasher run_paths descriptor_path membership_path ws =
     st_then (open_runs run_paths ws) (\<lambda>readers ws.
     st_then (create_stream descriptor_path ws) (\<lambda>(i, descriptor_writer) ws.
     st_then (create_stream membership_path ws) (\<lambda>(j, membership_writer) ws.
     st_then (prime_heap readers, ws) (\<lambda>(readers, heap) ws.
     st_then (merge_loop hasher readers heap (merge_start hasher descriptor_writer membership_writer), ws) (\<lambda>ms ws.
     st_then (finish_merge hasher ms, ws) (\<lambda>ms ws.
     st_then (flush_stream i (mg_descriptors ms) ws) (\<lambda>_ ws.
     st_then (flush_stream j (mg_memberships ms) ws) (\<lambda>_ ws.
     st_then (sync_stream i ws) (\<lambda>_ ws.
     st_then (sync_stream j ws) (\<lambda>_ ws.
     (Ok (mg_buckets ms), ws)))))))))))"

section \<open>Segments\<close>

record segment_file =
  sf_path :: path
  sf_bytes :: u64
  sf_checksum :: u32

definition write_one_segment :: "(bytes \<Rightarrow> u32) \<Rightarrow> 'c crc_hasher \<Rightarrow> path \<Rightarrow> u128 \<Rightarrow> descriptor_draft list \<Rightarrow> usize \<Rightarrow> reader \<Rightarrow> workspace
    \<Rightarrow> (segment_file \<times> reader, build_error) result \<times> workspace" where
  "write_one_segment crc hasher destination nonce taken index memberships ws =
     (let p = temp_path destination nonce (''bucket-'' @ decimal index)
      in st_then (create_stream p (track p ws)) (\<lambda>(i, w) ws.
         let write_records = map (\<lambda>draft. \<lparr>bw_key = dd_key draft, bw_member_count = dd_member_count draft, bw_member_checksum = dd_checksum draft\<rparr>) taken
         in st_then (map_err BuildBucket (write_bucket_segment crc hasher write_records memberships w), ws) (\<lambda>(res, memberships, w) ws.
            st_then (flush_stream i w ws) (\<lambda>_ ws.
            st_then (sync_stream i ws) (\<lambda>_ ws.
            (Ok (\<lparr>sf_path = p, sf_bytes = sb_bytes res, sf_checksum = sb_checksum res\<rparr>, memberships), ws))))))"

function segments_loop :: "(bytes \<Rightarrow> u32) \<Rightarrow> 'c crc_hasher \<Rightarrow> path \<Rightarrow> u128 \<Rightarrow> descriptor_draft option \<Rightarrow> reader \<Rightarrow> reader \<Rightarrow> segment_file list \<Rightarrow> workspace
    \<Rightarrow> (segment_file list, build_error) result \<times> workspace" where
  "segments_loop crc hasher destination nonce None descriptor_reader memberships segments ws = (Ok segments, ws)"
| "segments_loop crc hasher destination nonce (Some draft) descriptor_reader memberships segments ws =
     st_then (take_group [] BUCKET_SEGMENT_HEADER_BYTES (Some draft) descriptor_reader, ws) (\<lambda>(taken, pending, descriptor_reader) ws.
     st_then (ok_or (InvalidSource ''empty bucket segment group'') (case taken of [] \<Rightarrow> None | d # ds \<Rightarrow> Some (dd_relative_offset d)), ws) (\<lambda>first_offset ws.
     st_then (map_err BuildIo (seek_start first_offset memberships), ws) (\<lambda>memberships ws.
     st_then (write_one_segment crc hasher destination nonce taken (length segments) memberships ws) (\<lambda>(segment, memberships) ws.
     segments_loop crc hasher destination nonce pending descriptor_reader memberships (segments @ [segment]) ws))))"
  by pat_completeness auto

termination segments_loop
proof (relation "measure (\<lambda>(_, _, _, _, pending, r, _, _, _). pending_size pending r)")
  fix crc :: "bytes \<Rightarrow> u32" and hasher :: "'c crc_hasher" and destination nonce draft and r m :: reader and segments ws x ws1 y pending r'
    and first_offset ws2 m2 ws3 seg m3 ws4 z taken
  assume "(take_group [] BUCKET_SEGMENT_HEADER_BYTES (Some draft) r, ws) = (Ok x, ws1)" and "(taken, y) = x" and "(pending, r') = y"
  then have "pending_size pending r' < pending_size (Some draft) r" using take_group_consumes [of "[]" 40 "Some draft" r taken pending r'] by auto
  then show "((crc, hasher, destination, nonce, pending, r', m3, segments @ [seg], ws4), crc, hasher, destination, nonce, Some draft, r, m, segments, ws)
      \<in> measure (\<lambda>(_, _, _, _, pending, r, _, _, _). pending_size pending r)" by simp
qed simp

declare segments_loop.simps(2) [simp del]

definition assemble_segments :: "(bytes \<Rightarrow> u32) \<Rightarrow> 'c crc_hasher \<Rightarrow> path \<Rightarrow> path \<Rightarrow> path \<Rightarrow> u128 \<Rightarrow> workspace
    \<Rightarrow> (segment_file list, build_error) result \<times> workspace" where
  "assemble_segments crc hasher descriptor_path membership_path destination nonce ws =
     st_then (on_fs (fs_open descriptor_path) ws) (\<lambda>descriptor_reader ws.
     st_then (on_fs (fs_open membership_path) ws) (\<lambda>memberships ws.
     st_then (read_descriptor_optional descriptor_reader, ws) (\<lambda>(pending, descriptor_reader) ws.
     if pending = None
     then st_then (write_one_segment crc hasher destination nonce [] 0 memberships ws) (\<lambda>(segment, memberships) ws. (Ok [segment], ws))
     else segments_loop crc hasher destination nonce pending descriptor_reader memberships [] ws)))"

section \<open>The container\<close>

definition FILE_MAGIC :: bytes where
  "FILE_MAGIC = [80, 65, 82, 73, 73, 68, 88, 0]"

fun algorithm_raw :: "algorithm \<Rightarrow> u16" where
  "algorithm_raw MinHashLsh = 1"

fun scheme_raw :: "signature_scheme \<Rightarrow> u16" where
  "scheme_raw PariAffine32V1 = 1"
| "scheme_raw PariAffine64V1 = 2"

fun codec_raw :: "codec_id \<Rightarrow> u16" where
  "codec_raw CodecBytes = 1"
| "codec_raw CodecUtf8 = 2"
| "codec_raw CodecU64 = 3"
| "codec_raw CodecI64 = 4"
| "codec_raw CodecJson = 5"

fun section_kind_raw :: "section_kind \<Rightarrow> u16" where
  "section_kind_raw Keys = 1"
| "section_kind_raw BandHashes = 2"
| "section_kind_raw Buckets = 3"
| "section_kind_raw Tombstones = 4"

text \<open>The header array: each \<open>copy_from_slice\<close> writes the next field; bytes 36 to 40 and 68 to 72 keep the
  initial zeros.\<close>

definition build_encode_header :: "(bytes \<Rightarrow> u32) \<Rightarrow> index_metadata \<Rightarrow> u32 \<Rightarrow> bytes" where
  "build_encode_header crc metadata section_count =
     (let fields = FILE_MAGIC @ le16 1 @ le16 72 @ le16 (algorithm_raw (md_algorithm metadata)) @ le16 (scheme_raw (md_signature_scheme metadata))
            @ le16 (width_bits (md_signature_scheme metadata)) @ le16 (codec_raw (md_key_codec metadata)) @ le32 (md_num_perm metadata)
            @ le32 (md_bands metadata) @ le32 (md_rows metadata) @ le32 section_count @ replicate 4 0 @ le64 (md_seed metadata)
            @ le64 (md_threshold metadata) @ le64 (md_feature_flags metadata)
      in fields @ le32 (crc fields) @ replicate 4 0)"

definition encode_section_header :: "section_kind \<Rightarrow> u64 \<Rightarrow> u32 \<Rightarrow> bytes" where
  "encode_section_header kind payload_length checksum = le16 (section_kind_raw kind) @ le16 1 @ le64 payload_length @ le32 checksum"

function copy_range_loop :: "u64 \<Rightarrow> reader \<Rightarrow> writer \<Rightarrow> (reader \<times> writer, build_error) result" where
  "copy_range_loop remaining source w =
     (if remaining = 0 then Ok (source, w)
      else let count = unat (min remaining COPY_BUFFER_BYTES_U64) in
           and_then (map_err BuildIo (read_exact count source)) (\<lambda>(piece, source).
           and_then (map_err BuildIo (write_all piece w)) (\<lambda>w.
           copy_range_loop (remaining - of_nat count) source w)))"
  by pat_completeness auto

termination copy_range_loop
proof (relation "measure (\<lambda>(remaining, _, _). unat remaining)")
  fix remaining :: u64 and source w count x piece source' w'
  assume "remaining \<noteq> 0" and "count = unat (min remaining COPY_BUFFER_BYTES_U64)"
  then show "((remaining - of_nat count, source', w'), remaining, source, w) \<in> measure (\<lambda>(remaining, _, _). unat remaining)"
    using buffer_step [of remaining COPY_BUFFER_BYTES_U64] by simp
qed simp

declare copy_range_loop.simps [simp del]

definition copy_file_range :: "u64 \<Rightarrow> u64 \<Rightarrow> reader \<Rightarrow> writer \<Rightarrow> (reader \<times> writer, build_error) result" where
  "copy_file_range offset len source w =
     and_then (map_err BuildIo (seek_start offset source)) (\<lambda>source. copy_range_loop len source w)"

definition copy_framed_source_section :: "section_kind \<Rightarrow> section_descriptor \<Rightarrow> reader \<Rightarrow> writer \<Rightarrow> (reader \<times> writer, build_error) result" where
  "copy_framed_source_section kind descriptor source w =
     and_then (map_err BuildIo (write_all (encode_section_header kind (sd_payload_length descriptor) (sd_checksum descriptor)) w)) (\<lambda>w.
     copy_file_range (sd_payload_offset descriptor) (sd_payload_length descriptor) source w)"

text \<open>\<open>io::copy\<close> from a buffered reader.\<close>

function io_copy :: "reader \<Rightarrow> writer \<Rightarrow> (writer, build_error) result" where
  "io_copy r w =
     and_then (map_err BuildIo (buf_read IO_BUFFER_BYTES r)) (\<lambda>(piece, r).
     if piece = [] then Ok w
     else and_then (map_err BuildIo (write_all piece w)) (\<lambda>w. io_copy r w))"
  by pat_completeness auto

termination io_copy
proof (relation "measure (\<lambda>(r, _). length (rest_of r))")
  fix r w x piece r' w'
  assume "map_err BuildIo (buf_read IO_BUFFER_BYTES r) = Ok x" and "(piece, r') = x" and "piece \<noteq> []"
  then have "rest_of r = piece @ rest_of r'" using buf_read_Ok(1) [of 8192 r piece r'] by (auto simp: res_simps)
  then show "((r', w'), r, w) \<in> measure (\<lambda>(r, _). length (rest_of r))" using \<open>piece \<noteq> []\<close> by simp
qed simp

declare io_copy.simps [simp del]

definition copy_segment :: "segment_file \<Rightarrow> writer \<Rightarrow> workspace \<Rightarrow> (writer, build_error) result \<times> workspace" where
  "copy_segment part w ws =
     st_then (map_err BuildIo (write_all (encode_section_header Buckets (sf_bytes part) (sf_checksum part)) w), ws) (\<lambda>w ws.
     st_then (on_fs (fs_open (sf_path part)) ws) (\<lambda>payload ws.
     (io_copy payload w, ws)))"

definition write_final_container :: "(bytes \<Rightarrow> u32) \<Rightarrow> file_layout \<Rightarrow> section_descriptor \<Rightarrow> section_descriptor \<Rightarrow> segment_file list \<Rightarrow> path
    \<Rightarrow> reader \<Rightarrow> workspace \<Rightarrow> (reader, build_error) result \<times> workspace" where
  "write_final_container crc layout keys hashes segments destination_temp source ws =
     st_then (ok_or BuildLengthOverflow (checked_add_usize 2 (length segments)), ws) (\<lambda>section_count ws.
     st_then (ok_or BuildLengthOverflow (u32_try_from section_count), ws) (\<lambda>section_count ws.
     st_then (create_stream destination_temp ws) (\<lambda>(i, w) ws.
     st_then (map_err BuildIo (write_all (build_encode_header crc (fl_metadata layout) section_count) w), ws) (\<lambda>w ws.
     st_then (copy_framed_source_section Keys keys source w, ws) (\<lambda>(source, w) ws.
     st_then (copy_framed_source_section BandHashes hashes source w, ws) (\<lambda>(source, w) ws.
     st_then (st_foldl copy_segment segments w ws) (\<lambda>w ws.
     st_then (flush_stream i w ws) (\<lambda>_ ws.
     st_then (sync_stream i ws) (\<lambda>_ ws.
     (Ok source, ws))))))))))"

section \<open>Publication\<close>

definition build_sync_parent :: "path \<Rightarrow> fs \<Rightarrow> (io_error + unit) \<times> fs" where
  "build_sync_parent p = fs_sync_directory (parent_dir p)"

definition remove_file_if_exists :: "path \<Rightarrow> fs \<Rightarrow> (io_error + unit) \<times> fs" where
  "remove_file_if_exists p fs =
     (case fs_remove_file p fs of
        (Inr _, fs) \<Rightarrow> (Inr (), fs)
      | (Inl e, fs) \<Rightarrow> if io_kind e = IoNotFound then (Inr (), fs) else (Inl e, fs))"

definition rollback_final :: "(inode \<Rightarrow> 'h) \<Rightarrow> path \<Rightarrow> 'h \<Rightarrow> fs \<Rightarrow> (io_error + unit) \<times> fs" where
  "rollback_final handle destination identity fs =
     (case fs_handle_from_path handle destination fs of
        (Inl e, fs) \<Rightarrow> if io_kind e = IoNotFound then (Inr (), fs) else (Inl e, fs)
      | (Inr current, fs) \<Rightarrow>
          if current \<noteq> identity then (Inr (), fs)
          else io_then (fs_remove_file destination fs) (\<lambda>_ fs. build_sync_parent destination fs))"

definition recover_after_publication :: "(inode \<Rightarrow> 'h) \<Rightarrow> path \<Rightarrow> path \<Rightarrow> 'h \<Rightarrow> io_error \<Rightarrow> fs \<Rightarrow> build_error \<times> fs" where
  "recover_after_publication handle temporary destination identity original fs =
     (case rollback_final handle destination identity fs of (rollback, fs) \<Rightarrow>
      case remove_file_if_exists temporary fs of (cleanup, fs) \<Rightarrow>
        (if io_failure rollback = None \<and> io_failure cleanup = None then BuildIo original
         else BuildIo (IoRecovery original (io_failure rollback) (io_failure cleanup)), fs))"

definition build_publish_with :: "(path \<Rightarrow> fs \<Rightarrow> (io_error + unit) \<times> fs) \<Rightarrow> (path \<Rightarrow> fs \<Rightarrow> (io_error + unit) \<times> fs)
    \<Rightarrow> (inode \<Rightarrow> 'h) \<Rightarrow> path \<Rightarrow> path \<Rightarrow> fs \<Rightarrow> (unit, build_error) result \<times> fs" where
  "build_publish_with remove_temporary sync_directory handle temporary destination fs =
     (case fs_handle_from_path handle temporary fs of
        (Inl e, fs) \<Rightarrow> (Err (BuildIo e), fs)
      | (Inr identity, fs) \<Rightarrow>
          (case fs_hard_link temporary destination fs of
             (Inl e, fs) \<Rightarrow> if io_kind e = IoAlreadyExists then (Err (BuildAlreadyExists destination), fs) else (Err (BuildIo e), fs)
           | (Inr _, fs) \<Rightarrow>
               (case remove_temporary temporary fs of
                  (Inl e, fs) \<Rightarrow> (case recover_after_publication handle temporary destination identity e fs of (error, fs) \<Rightarrow> (Err error, fs))
                | (Inr _, fs) \<Rightarrow>
                    (case sync_directory destination fs of
                       (Inl e, fs) \<Rightarrow> (case recover_after_publication handle temporary destination identity e fs of (error, fs) \<Rightarrow> (Err error, fs))
                     | (Inr _, fs) \<Rightarrow> (Ok (), fs)))))"

definition build_publish :: "(inode \<Rightarrow> 'h) \<Rightarrow> path \<Rightarrow> path \<Rightarrow> fs \<Rightarrow> (unit, build_error) result \<times> fs" where
  "build_publish = build_publish_with fs_remove_file build_sync_parent"

section \<open>Building\<close>

definition on_workspace :: "(fs \<Rightarrow> ('a, build_error) result \<times> fs) \<Rightarrow> workspace \<Rightarrow> ('a, build_error) result \<times> workspace" where
  "on_workspace call ws = (case call (ws_fs ws) of (r, fs) \<Rightarrow> (r, ws\<lparr>ws_fs := fs\<rparr>))"

text \<open>The source, from its opening to the checks of its lengths.\<close>

definition check_source :: "(bytes \<Rightarrow> u32) \<Rightarrow> 'c crc_hasher \<Rightarrow> reader
    \<Rightarrow> (file_layout \<times> section_descriptor \<times> section_descriptor \<times> usize \<times> usize \<times> reader, build_error) result" where
  "check_source crc hasher source_file =
     and_then (map_err BuildLayout (layout_read_from crc hasher source_file)) (\<lambda>(layout, source_file).
     and_then (validate_source_metadata (fl_metadata layout)) (\<lambda>_.
     and_then (source_section layout Keys ''missing keys section'') (\<lambda>keys.
     and_then (source_section layout BandHashes ''missing band-hash section'') (\<lambda>hashes.
     and_then (verify_section_streaming hasher keys source_file) (\<lambda>source_file.
     and_then (verify_section_streaming hasher hashes source_file) (\<lambda>source_file.
     and_then (read_record_count keys source_file) (\<lambda>(item_count, source_file).
     and_then (read_record_count hashes source_file) (\<lambda>(hash_count, source_file).
     and_then (err_if (item_count \<noteq> hash_count) (InvalidSource ''key and band-hash record counts differ'')) (\<lambda>_.
     let bands = unat (md_bands (fl_metadata layout)) in
     and_then (validate_source_lengths keys hashes item_count bands) (\<lambda>_.
     Ok (layout, keys, hashes, item_count, bands, source_file)))))))))))"

text \<open>Spilling, merging, assembling and publishing; the temporary files are removed when the function is left.\<close>

definition build_container :: "(bytes \<Rightarrow> u32) \<Rightarrow> 'c crc_hasher \<Rightarrow> (inode \<Rightarrow> 'h) \<Rightarrow> path \<Rightarrow> build_options \<Rightarrow> (fs \<Rightarrow> (unit, build_error) result \<times> fs)
    \<Rightarrow> u128 \<Rightarrow> file_layout \<times> section_descriptor \<times> section_descriptor \<times> usize \<times> usize \<times> reader \<Rightarrow> workspace \<Rightarrow> (build_stats, build_error) result \<times> workspace" where
  "build_container crc hasher handle destination options before_publish nonce checked ws =
     (let (layout, keys, hashes, item_count, bands, source_file) = checked
      in st_then (spill_runs keys hashes item_count bands destination nonce options source_file ws) (\<lambda>(run_paths, source_file) ws.
         st_then (and_then (ok_or BuildLengthOverflow (u64_try_from item_count)) (\<lambda>items.
                  and_then (ok_or BuildLengthOverflow (u64_try_from bands)) (\<lambda>bands.
                  ok_or BuildLengthOverflow (checked_mul items bands))), ws) (\<lambda>records ws.
         let peak_buffered_records = min (bo_max_buffer_records options) (unat records);
             descriptor_path = temp_path destination nonce ''descriptors'';
             membership_path = temp_path destination nonce ''memberships''
         in st_then (merge_runs hasher run_paths descriptor_path membership_path (track membership_path (track descriptor_path ws))) (\<lambda>bucket_count ws.
            st_then (assemble_segments crc hasher descriptor_path membership_path destination nonce ws) (\<lambda>segments ws.
            let destination_temp = temp_path destination nonce ''commit''
            in st_then (write_final_container crc layout keys hashes segments destination_temp source_file (track destination_temp ws)) (\<lambda>source_file ws.
               st_then (on_fs (fs_metadata_len destination_temp) ws) (\<lambda>output_bytes ws.
               st_then (on_workspace before_publish ws) (\<lambda>_ ws.
               st_then (on_workspace (build_publish handle destination_temp destination) ws) (\<lambda>_ ws.
               (Ok \<lparr>bs_records = records, bs_spill_runs = length run_paths, bs_peak_buffered_records = peak_buffered_records,
                     bs_buckets = bucket_count, bs_output_bytes = output_bytes\<rparr>, ws))))))))))"

definition build_external_with_hook :: "(bytes \<Rightarrow> u32) \<Rightarrow> 'c crc_hasher \<Rightarrow> (inode \<Rightarrow> 'h) \<Rightarrow> u128 option \<Rightarrow> path \<Rightarrow> path \<Rightarrow> build_options
    \<Rightarrow> (fs \<Rightarrow> (unit, build_error) result \<times> fs) \<Rightarrow> fs \<Rightarrow> (build_stats, build_error) result \<times> fs" where
  "build_external_with_hook crc hasher handle clock source destination options before_publish fs =
     (if bo_max_buffer_records options = 0 then (Err (InvalidOptions ''max_buffer_records must be positive''), fs)
      else case fs_exists destination fs of (present, fs) \<Rightarrow>
        if present then (Err (BuildAlreadyExists destination), fs)
        else case fs_open source fs of
               (Inl e, fs) \<Rightarrow> (Err (BuildIo e), fs)
             | (Inr source_file, fs) \<Rightarrow>
                 st_then (check_source crc hasher source_file, fs) (\<lambda>checked fs.
                 st_then (build_nonce clock (fs_process_id fs), fs) (\<lambda>nonce fs.
                 case build_container crc hasher handle destination options before_publish nonce checked \<lparr>ws_temporary = [], ws_fs = fs\<rparr> of
                   (r, ws) \<Rightarrow> (r, drop_temporaries ws))))"

definition build_external :: "(bytes \<Rightarrow> u32) \<Rightarrow> 'c crc_hasher \<Rightarrow> (inode \<Rightarrow> 'h) \<Rightarrow> u128 option \<Rightarrow> path \<Rightarrow> path \<Rightarrow> build_options \<Rightarrow> fs
    \<Rightarrow> (build_stats, build_error) result \<times> fs" where
  "build_external crc hasher handle clock source destination options =
     build_external_with_hook crc hasher handle clock source destination options (\<lambda>fs. (Ok (), fs))"

end
