(* ===== verification/Pari_BuildSteps.thy ===== *)
theory Pari_BuildSteps
  imports Pari_Build
begin

text \<open>
  The steps of the external builder up to the merged files. \<open>runs\<close> is the calculus all of them share: an operation only adds
  files, never panics, and a success satisfies a postcondition on the workspace; it composes along \<open>st_then\<close> and loops.
  On it rest the files that are created, flushed and synced, the reading of the source, the spilled runs, which hold
  all records of the source in sorted pieces, and the merge, which writes the descriptors and memberships of the buckets in order.
\<close>

section \<open>Steps that only add files\<close>

text \<open>A step of the builder before the publication: whatever existed when it started stays, the entry of the destination included,
  and every file it tracks has a temporary name.\<close>

definition ws_disk :: "workspace \<Rightarrow> disk" where
  "ws_disk ws = fs_disk (ws_fs ws)"

definition temporary_names :: "path \<Rightarrow> u128 \<Rightarrow> workspace \<Rightarrow> bool" where
  "temporary_names destination nonce ws \<longleftrightarrow> (\<forall>p \<in> set (ws_temporary ws). \<exists>suffix. p = temp_path destination nonce suffix)"

definition adds :: "path \<Rightarrow> u128 \<Rightarrow> workspace \<Rightarrow> workspace \<Rightarrow> bool" where
  "adds destination nonce ws ws' \<longleftrightarrow> (disk_wf (ws_disk ws) \<longrightarrow> evolves (keeps (resolve destination) (ws_disk ws)) (ws_fs ws) (ws_fs ws'))
     \<and> (temporary_names destination nonce ws \<longrightarrow> temporary_names destination nonce ws')"

lemma keeps_trans: "keeps t d0 d1 \<Longrightarrow> keeps t d1 d2 \<Longrightarrow> keeps t d0 d2"
  unfolding keeps_def by auto

lemma adds_refl [simp]: "adds destination nonce ws ws"
  by (simp add: adds_def)

lemma adds_keeps: "adds destination nonce ws ws' \<Longrightarrow> disk_wf (ws_disk ws) \<Longrightarrow> keeps (resolve destination) (ws_disk ws) (ws_disk ws')"
  using evolves_last [of "keeps (resolve destination) (ws_disk ws)" "ws_fs ws" "ws_fs ws'"] keeps_refl by (simp add: adds_def ws_disk_def)

lemma adds_wf: "adds destination nonce ws ws' \<Longrightarrow> disk_wf (ws_disk ws) \<Longrightarrow> disk_wf (ws_disk ws')"
  using adds_keeps keeps_wf by blast

lemma adds_trans:
  assumes "adds destination nonce ws ws'" and "adds destination nonce ws' ws''"
  shows "adds destination nonce ws ws''"
proof -
  have "evolves (keeps (resolve destination) (ws_disk ws)) (ws_fs ws) (ws_fs ws'')" if wf: "disk_wf (ws_disk ws)"
  proof (rule evolves_trans)
    show "evolves (keeps (resolve destination) (ws_disk ws)) (ws_fs ws) (ws_fs ws')" using assms(1) wf by (simp add: adds_def)
    have "evolves (keeps (resolve destination) (ws_disk ws')) (ws_fs ws') (ws_fs ws'')" using assms(2) adds_wf [OF assms(1) wf] by (simp add: adds_def)
    then show "evolves (keeps (resolve destination) (ws_disk ws)) (ws_fs ws') (ws_fs ws'')"
      by (rule evolves_mono) (rule keeps_trans [OF adds_keeps [OF assms(1) wf]])
  qed
  then show ?thesis using assms by (simp add: adds_def)
qed

text \<open>The outcomes of an operation that started in \<open>ws\<close>: it only adds files, does not panic, and a success satisfies \<open>Q\<close>.\<close>

definition runs :: "path \<Rightarrow> u128 \<Rightarrow> workspace \<Rightarrow> ('a \<Rightarrow> workspace \<Rightarrow> bool) \<Rightarrow> ('a, build_error) result \<times> workspace \<Rightarrow> bool" where
  "runs destination nonce ws Q outcome \<longleftrightarrow> adds destination nonce ws (snd outcome)
     \<and> (case fst outcome of Ok x \<Rightarrow> Q x (snd outcome) | Err e \<Rightarrow> True | Panic \<Rightarrow> False)"

lemma runs_bind:
  assumes "runs destination nonce ws Q m" and "\<And>x ws1. Q x ws1 \<Longrightarrow> adds destination nonce ws ws1 \<Longrightarrow> runs destination nonce ws R (f x ws1)"
  shows "runs destination nonce ws R (st_then m f)"
proof -
  obtain r ws1 where m: "m = (r, ws1)" by (cases m)
  show ?thesis using assms by (cases r) (auto simp: m runs_def)
qed

lemma runs_start:
  assumes "adds destination nonce ws ws1" and "runs destination nonce ws1 Q m" shows "runs destination nonce ws Q m"
  using assms adds_trans by (auto simp: runs_def)

lemma runs_pure:
  assumes "adds destination nonce ws ws1" and "safe r" and "\<And>x. r = Ok x \<Longrightarrow> Q x ws1"
  shows "runs destination nonce ws Q (r, ws1)"
  using assms by (cases r) (auto simp: runs_def safe_def)

lemma runs_Ok: "adds destination nonce ws ws1 \<Longrightarrow> Q x ws1 \<Longrightarrow> runs destination nonce ws Q (Ok x, ws1)"
  by (simp add: runs_def)

lemma runs_mono: "runs destination nonce ws Q m \<Longrightarrow> (\<And>x ws1. Q x ws1 \<Longrightarrow> adds destination nonce ws ws1 \<Longrightarrow> R x ws1) \<Longrightarrow> runs destination nonce ws R m"
  by (auto simp: runs_def split: result.splits)

lemma runs_foldl:
  assumes start: "I [] x ws1" "adds destination nonce ws ws1"
    and step: "\<And>done a todo x ws1. as = done @ a # todo \<Longrightarrow> I done x ws1 \<Longrightarrow> adds destination nonce ws ws1
      \<Longrightarrow> runs destination nonce ws1 (\<lambda>y ws2. adds destination nonce ws1 ws2 \<longrightarrow> I (done @ [a]) y ws2) (f a x ws1)"
  shows "runs destination nonce ws (I as) (st_foldl f as x ws1)"
proof -
  have "runs destination nonce ws (I as) (st_foldl f todo x ws1)" if "as = done @ todo" "I done x ws1" "adds destination nonce ws ws1" for "done" todo x ws1
    using that
  proof (induction todo arbitrary: "done" x ws1)
    case (Cons a todo)
    have "runs destination nonce ws (\<lambda>y ws2. I (done @ [a]) y ws2 \<and> adds destination nonce ws ws2) (f a x ws1)"
      by (rule runs_start [OF Cons.prems(3) runs_mono [OF step [OF Cons.prems]]]) (use Cons.prems(3) adds_trans in blast)
    then show ?case by simp (erule runs_bind, use Cons.IH [of "done @ [a]"] Cons.prems(1) in auto)
  qed (simp add: runs_Ok)
  from this [of "[]" as x ws1] show ?thesis using start by simp
qed

section \<open>Files of a workspace\<close>

definition holds :: "disk \<Rightarrow> inode \<Rightarrow> path \<Rightarrow> bytes \<Rightarrow> bool \<Rightarrow> workspace \<Rightarrow> bool" where
  "holds d0 i p bs synced ws \<longleftrightarrow> dk_next d0 \<le> i \<and> i < dk_next (ws_disk ws) \<and> dk_entries (ws_disk ws) (resolve p) = Some (FileNode i)
     \<and> dk_data (ws_disk ws) i = bs \<and> (synced \<longrightarrow> dk_synced (ws_disk ws) i)"

definition made :: "disk \<Rightarrow> path \<Rightarrow> bytes \<Rightarrow> workspace \<Rightarrow> bool" where
  "made d0 p bs ws \<longleftrightarrow> (\<exists>i. holds d0 i p bs True ws)"

lemma holds_adds: "holds d0 i p bs b ws \<Longrightarrow> adds destination nonce ws ws' \<Longrightarrow> disk_wf (ws_disk ws) \<Longrightarrow> holds d0 i p bs b ws'"
  using adds_keeps [of destination nonce ws ws'] by (auto simp: holds_def keeps_def)

lemma made_adds: "made d0 p bs ws \<Longrightarrow> adds destination nonce ws ws' \<Longrightarrow> disk_wf (ws_disk ws) \<Longrightarrow> made d0 p bs ws'"
  using holds_adds by (fastforce simp: made_def)

lemma made_earlier: "made (ws_disk ws) p bs ws' \<Longrightarrow> adds destination nonce ws0 ws \<Longrightarrow> disk_wf (ws_disk ws0) \<Longrightarrow> made (ws_disk ws0) p bs ws'"
  using adds_keeps [of destination nonce ws0 ws] by (fastforce simp: made_def holds_def keeps_def)

lemma on_fs_eq: "on_fs call ws = (case call (ws_fs ws) of (r, fs) \<Rightarrow> ((case r of Inl e \<Rightarrow> Err (BuildIo e) | Inr x \<Rightarrow> Ok x), ws\<lparr>ws_fs := fs\<rparr>))"
  by (auto simp: on_fs_def split: prod.splits sum.splits)

lemma temporary_names_fs [simp]: "temporary_names destination nonce (ws\<lparr>ws_fs := fs\<rparr>) = temporary_names destination nonce ws"
  by (simp add: temporary_names_def)

lemma runs_on_fs:
  assumes "\<And>r fs. call (ws_fs ws1) = (r, fs) \<Longrightarrow> (keeps (resolve destination) (ws_disk ws) (ws_disk ws1) \<longrightarrow> disk_wf (ws_disk ws) \<longrightarrow> evolves (keeps (resolve destination) (ws_disk ws)) (ws_fs ws1) fs)
      \<and> (\<forall>x. r = Inr x \<longrightarrow> disk_wf (ws_disk ws) \<longrightarrow> Q x (ws1\<lparr>ws_fs := fs\<rparr>))"
    and "adds destination nonce ws ws1" and "disk_wf (ws_disk ws)"
  shows "runs destination nonce ws Q (on_fs call ws1)"
proof -
  obtain r fs where c: "call (ws_fs ws1) = (r, fs)" by fastforce
  have "evolves (keeps (resolve destination) (ws_disk ws)) (ws_fs ws) fs"
    using assms(1) [OF c] assms(2,3) adds_keeps [OF assms(2,3)] evolves_trans by (auto simp: adds_def)
  then have "adds destination nonce ws (ws1\<lparr>ws_fs := fs\<rparr>)" using assms(2) by (simp add: adds_def)
  then show ?thesis using assms(1) [OF c] assms(3) by (auto simp: on_fs_eq c runs_def split: sum.splits)
qed

lemma temp_path_beside:
  assumes "file_name destination = Some name"
  shows "resolve (temp_path destination nonce suffix) \<noteq> resolve destination" "resolve (temp_path destination nonce suffix) \<noteq> []"
proof -
  let ?n = "''.'' @ name @ ''.'' @ hex_digits 32 (unat nonce) @ ''.'' @ suffix @ ''.tmp''"
  have "temp_path destination nonce suffix = butlast destination @ [?n]" using assms by (simp add: temp_path_def)
  moreover have "?n \<noteq> ''.''" by simp
  ultimately have "resolve (temp_path destination nonce suffix) = resolve (butlast destination) @ [?n]" by (simp add: resolve_def)
  moreover have "?n \<noteq> name" by (auto dest: arg_cong [where f = length])
  ultimately show "resolve (temp_path destination nonce suffix) \<noteq> resolve destination" "resolve (temp_path destination nonce suffix) \<noteq> []"
    using resolve_target [OF assms] by simp_all
qed

lemma adds_track: "adds destination nonce ws (track (temp_path destination nonce suffix) ws)"
  by (auto simp: adds_def track_def temporary_names_def ws_disk_def)

lemma ws_disk_track [simp]: "ws_disk (track p ws) = ws_disk ws" "ws_fs (track p ws) = ws_fs ws"
  by (simp_all add: ws_disk_def track_def)

lemma ws_disk_upd [simp]: "ws_disk (ws\<lparr>ws_fs := fs\<rparr>) = fs_disk fs"
  by (simp add: ws_disk_def)

text \<open>Files that are being written do not disturb each other.\<close>

lemma create_stream_runs:
  assumes name: "file_name destination = Some name" and p: "p = temp_path destination nonce suffix"
    and ws1: "adds destination nonce ws ws1" and wf: "disk_wf (ws_disk ws)"
  shows "runs destination nonce ws (\<lambda>(i, w) ws2. wr_bytes w = [] \<and> holds (ws_disk ws1) i p [] False ws2 \<and> adds destination nonce ws1 ws2) (create_stream p ws1)"
proof -
  note beside = temp_path_beside [OF name, of nonce suffix, folded p]
  have wf1: "disk_wf (ws_disk ws1)" by (rule adds_wf [OF ws1 wf])
  have created: "runs destination nonce ws1 (\<lambda>i ws2. holds (ws_disk ws1) i p [] False ws2) (on_fs (fs_create_new p) ws1)"
  proof (rule runs_on_fs [OF _ adds_refl wf1], intro conjI impI allI)
    fix r fs
    assume run: "fs_create_new p (ws_fs ws1) = (r, fs)" and k: "keeps (resolve destination) (ws_disk ws1) (ws_disk ws1)"
    show "evolves (keeps (resolve destination) (ws_disk ws1)) (ws_fs ws1) fs"
      using moves_evolves [OF fs_create_new_keeps [OF run beside]] k by (simp add: ws_disk_def)
  next
    fix r fs i
    assume run: "fs_create_new p (ws_fs ws1) = (r, fs)" and r: "r = Inr i"
    then have "sys_create_new p (ws_disk ws1) = Inr (i, fs_disk fs)" using fs_call_Inr by (simp add: fs_create_new_def ws_disk_def)
    from keeps_create_new [OF keeps_refl [OF wf1] this beside] show "holds (ws_disk ws1) i p [] False (ws1\<lparr>ws_fs := fs\<rparr>)" by (simp add: holds_def)
  qed
  have reads: "adds destination nonce ws2 (ws2\<lparr>ws_fs := (ws_fs ws2)\<lparr>fs_reads := x\<rparr>\<rparr>)" for ws2 x
    by (simp add: adds_def evolves_def)
  have "runs destination nonce ws1 (\<lambda>(i, w) ws2. wr_bytes w = [] \<and> holds (ws_disk ws1) i p [] False ws2) (create_stream p ws1)"
    unfolding create_stream_def Let_def
  proof (rule runs_bind [OF created])
    fix i ws2
    assume "holds (ws_disk ws1) i p [] False ws2" and "adds destination nonce ws1 ws2"
    then show "runs destination nonce ws1 (\<lambda>(i, w) ws2. wr_bytes w = [] \<and> holds (ws_disk ws1) i p [] False ws2)
       (Ok (i, \<lparr>wr_bytes = [], wr_faults = (case fs_reads (ws_fs ws2) of [] \<Rightarrow> [] | r # rs \<Rightarrow> r)\<rparr>), ws2\<lparr>ws_fs := (ws_fs ws2)\<lparr>fs_reads := tl (fs_reads (ws_fs ws2))\<rparr>\<rparr>)"
      using adds_trans [OF _ reads] by (intro runs_Ok) (auto simp: holds_def ws_disk_def)
  qed
  then have "runs destination nonce ws1 (\<lambda>(i, w) ws2. wr_bytes w = [] \<and> holds (ws_disk ws1) i p [] False ws2 \<and> adds destination nonce ws1 ws2) (create_stream p ws1)"
    by (rule runs_mono) auto
  then show ?thesis by (rule runs_start [OF ws1])
qed

lemma append_data_simps [simp]: "dk_entries (append_data i bs d) = dk_entries d" "dk_next (append_data i bs d) = dk_next d"
  "dk_data (append_data i bs d) j = (if j = i then dk_data d i @ bs else dk_data d j)"
  "dk_synced (append_data i bs d) j = (if j = i then False else dk_synced d j)"
  by (simp_all add: append_data_def)

lemma flush_stream_runs:
  assumes h: "holds (ws_disk ws) i p [] b ws1" and ws1: "adds destination nonce ws ws1" and wf: "disk_wf (ws_disk ws)"
  shows "runs destination nonce ws (\<lambda>_ ws2. holds (ws_disk ws) i p (wr_bytes w) False ws2
    \<and> (\<forall>d0 j q bs c. j \<noteq> i \<longrightarrow> holds d0 j q bs c ws1 \<longrightarrow> holds d0 j q bs c ws2)) (flush_stream i w ws1)"
  unfolding flush_stream_def
proof (rule runs_on_fs [OF _ ws1 wf], intro conjI impI allI)
  fix r fs
  assume run: "fs_write_all i (wr_bytes w) (ws_fs ws1) = (r, fs)" and k: "keeps (resolve destination) (ws_disk ws) (ws_disk ws1)"
  have "dk_next (ws_disk ws) \<le> i" using h by (simp add: holds_def)
  from moves_evolves [OF fs_write_all_keeps [OF run this]] show "evolves (keeps (resolve destination) (ws_disk ws)) (ws_fs ws1) fs"
    using k by (simp add: ws_disk_def)
next
  fix r fs u
  assume run: "fs_write_all i (wr_bytes w) (ws_fs ws1) = (r, fs)" and r: "r = Inr u"
  then have d: "fs_disk fs = append_data i (wr_bytes w) (ws_disk ws1)" by (cases rule: fs_write_all_cases [of i "wr_bytes w" "ws_fs ws1"]) (auto simp: ws_disk_def)
  show "holds (ws_disk ws) i p (wr_bytes w) False (ws1\<lparr>ws_fs := fs\<rparr>)" using h by (simp add: holds_def d)
  show "holds d0 j q bs c (ws1\<lparr>ws_fs := fs\<rparr>)" if "j \<noteq> i" "holds d0 j q bs c ws1" for d0 j q bs c using that by (auto simp: holds_def d)
qed

lemma sync_stream_runs:
  assumes h: "holds (ws_disk ws) i p bs b ws1" and ws1: "adds destination nonce ws ws1" and wf: "disk_wf (ws_disk ws)"
  shows "runs destination nonce ws (\<lambda>_ ws2. holds (ws_disk ws) i p bs True ws2
    \<and> (\<forall>d0 j q bs c. j \<noteq> i \<longrightarrow> holds d0 j q bs c ws1 \<longrightarrow> holds d0 j q bs c ws2)) (sync_stream i ws1)"
  unfolding sync_stream_def
proof (rule runs_on_fs [OF _ ws1 wf], intro conjI impI allI)
  fix r fs
  assume run: "fs_sync_all i (ws_fs ws1) = (r, fs)" and k: "keeps (resolve destination) (ws_disk ws) (ws_disk ws1)"
  have "dk_next (ws_disk ws) \<le> i" using h by (simp add: holds_def)
  from moves_evolves [OF fs_sync_all_keeps [OF run this]] show "evolves (keeps (resolve destination) (ws_disk ws)) (ws_fs ws1) fs"
    using k by (simp add: ws_disk_def)
next
  fix r fs u
  assume run: "fs_sync_all i (ws_fs ws1) = (r, fs)" and r: "r = Inr u"
  then have d: "fs_disk fs = (ws_disk ws1)\<lparr>dk_synced := (dk_synced (ws_disk ws1))(i := True)\<rparr>"
    using fs_call_Inr [of "sys_sync i" "ws_fs ws1" u fs] by (simp add: fs_sync_all_def sys_sync_def ws_disk_def)
  show "holds (ws_disk ws) i p bs True (ws1\<lparr>ws_fs := fs\<rparr>)" using h by (simp add: holds_def d)
  show "holds d0 j q bs' c (ws1\<lparr>ws_fs := fs\<rparr>)" if "j \<noteq> i" "holds d0 j q bs' c ws1" for d0 j q bs' c using that by (auto simp: holds_def d)
qed

text \<open>Derived rules: results that are pairs, pure steps, and the end of every file.\<close>

lemma runs_bind2:
  assumes "runs destination nonce ws (\<lambda>(x, y). Q x y) m"
    and "\<And>x y ws1. Q x y ws1 \<Longrightarrow> adds destination nonce ws ws1 \<Longrightarrow> runs destination nonce ws R (f x y ws1)"
  shows "runs destination nonce ws R (st_then m (\<lambda>(x, y). f x y))"
  by (rule runs_bind [OF assms(1)]) (auto split: prod.splits intro: assms(2))

lemma runs_bind_pure:
  assumes "adds destination nonce ws ws1" and "safe r" and "\<And>x. r = Ok x \<Longrightarrow> runs destination nonce ws R (f x ws1)"
  shows "runs destination nonce ws R (st_then (r, ws1) f)"
  using assms by (cases r) (auto simp: safe_def runs_def)

lemma finish_file:
  assumes h: "holds (ws_disk ws) i p [] False ws1" and ws1: "adds destination nonce ws ws1" and wf: "disk_wf (ws_disk ws)"
    and rest: "\<And>ws2. made (ws_disk ws) p (wr_bytes w) ws2 \<Longrightarrow> adds destination nonce ws ws2 \<Longrightarrow> runs destination nonce ws R (g ws2)"
  shows "runs destination nonce ws R (st_then (flush_stream i w ws1) (\<lambda>_ ws. st_then (sync_stream i ws) (\<lambda>_ ws. g ws)))"
proof (rule runs_bind [OF flush_stream_runs [OF h ws1 wf]])
  fix u ws2
  assume "holds (ws_disk ws) i p (wr_bytes w) False ws2
    \<and> (\<forall>d0 j q bs c. j \<noteq> i \<longrightarrow> holds d0 j q bs c ws1 \<longrightarrow> holds d0 j q bs c ws2)" and ws2: "adds destination nonce ws ws2"
  then have h2: "holds (ws_disk ws) i p (wr_bytes w) False ws2" by blast
  show "runs destination nonce ws R (st_then (sync_stream i ws2) (\<lambda>_ ws. g ws))"
    by (rule runs_bind [OF sync_stream_runs [OF h2 ws2 wf]], rule rest) (auto simp: made_def)
qed

lemma create_file:
  assumes name: "file_name destination = Some name" and p: "p = temp_path destination nonce suffix" and wf: "disk_wf (ws_disk ws)"
    and rest: "\<And>i w ws1. wr_bytes w = [] \<Longrightarrow> holds (ws_disk ws) i p [] False ws1 \<Longrightarrow> adds destination nonce ws ws1 \<Longrightarrow> runs destination nonce ws R (f i w ws1)"
  shows "runs destination nonce ws R (st_then (create_stream p (track p ws)) (\<lambda>(i, w) ws. f i w ws))"
proof (rule runs_bind2)
  show "runs destination nonce ws (\<lambda>(i, w) ws2. wr_bytes w = [] \<and> holds (ws_disk ws) i p [] False ws2) (create_stream p (track p ws))"
    using create_stream_runs [OF name p _ wf, of "track p ws"] adds_track [of destination nonce ws suffix, folded p] by (auto elim!: runs_mono)
qed (use rest in blast)

section \<open>Spilling\<close>

lemma write_all_safe [panic_free]: "safe (write_all bs w)"
  by (auto simp: write_all_def safe_def split: list.splits option.splits)

lemma write_records_safe [panic_free]: "safe (write_spill_record x w)" "safe (finish_descriptor d w)"
  unfolding write_spill_record_def finish_descriptor_def by (intro panic_free)+

text \<open>The runs that were written so far, and the records they hold.\<close>

definition run_files :: "disk \<Rightarrow> path list \<Rightarrow> spill_record list list \<Rightarrow> workspace \<Rightarrow> bool" where
  "run_files d0 run_paths rss ws \<longleftrightarrow> list_all2 (\<lambda>p rs. made d0 p (concat (map spill_bytes rs)) ws \<and> sorted rs) run_paths rss"

lemma run_files_adds:
  "run_files d0 run_paths rss ws \<Longrightarrow> adds destination nonce ws ws' \<Longrightarrow> disk_wf (ws_disk ws) \<Longrightarrow> run_files d0 run_paths rss ws'"
  unfolding run_files_def using made_adds by (auto elim!: list_all2_mono)

lemma spill_one_run_runs:
  assumes name: "file_name destination = Some name" and wf: "disk_wf (ws_disk ws)"
  shows "runs destination nonce ws (\<lambda>st ws2. fst st = [] \<and> (\<exists>p. snd st = run_paths @ [p]
      \<and> made (ws_disk ws) p (concat (map spill_bytes (sort buffer))) ws2))
    (spill_one_run destination nonce buffer run_paths ws)"
  unfolding spill_one_run_def Let_def
proof (rule create_file [OF name refl wf])
  fix i :: inode and w :: writer and ws1
  let ?p = "temp_path destination nonce (''run-'' @ decimal (length run_paths))"
  assume w: "wr_bytes w = []" and h: "holds (ws_disk ws) i ?p [] False ws1" and ws1: "adds destination nonce ws ws1"
  show "runs destination nonce ws (\<lambda>st ws2. fst st = [] \<and> (\<exists>p. snd st = run_paths @ [p]
      \<and> made (ws_disk ws) p (concat (map spill_bytes (sort buffer))) ws2))
     (st_then (fold_result write_spill_record (sort buffer) w, ws1) (\<lambda>w ws. st_then (flush_stream i w ws) (\<lambda>_ ws.
      st_then (sync_stream i ws) (\<lambda>_ ws. (Ok ([], run_paths @ [?p]), ws)))))"
  proof (rule runs_bind_pure [OF ws1])
    show "safe (fold_result write_spill_record (sort buffer) w)" by (intro panic_free)
  next
    fix w'
    assume "fold_result write_spill_record (sort buffer) w = Ok w'"
    then have "wr_bytes w' = concat (map spill_bytes (sort buffer))" using write_spill_records_Ok w by fastforce
    then show "runs destination nonce ws (\<lambda>st ws2. fst st = [] \<and> (\<exists>p. snd st = run_paths @ [p]
      \<and> made (ws_disk ws) p (concat (map spill_bytes (sort buffer))) ws2))
     (st_then (flush_stream i w' ws1) (\<lambda>_ ws. st_then (sync_stream i ws) (\<lambda>_ ws. (Ok ([], run_paths @ [?p]), ws))))"
      by (intro finish_file [OF h ws1 wf] runs_Ok) auto
  qed
qed

text \<open>The state of the spill loop after the records of \<open>seen\<close>.\<close>

definition spilled :: "disk \<Rightarrow> usize \<Rightarrow> spill_record list \<Rightarrow> spill_record list \<times> path list \<Rightarrow> workspace \<Rightarrow> bool" where
  "spilled d0 n seen state ws \<longleftrightarrow> (\<exists>rss. run_files d0 (snd state) rss ws \<and> mset (concat rss) + mset (fst state) = mset seen
     \<and> length (fst state) < n \<and> (\<forall>rs \<in> set rss. length rs = n))"

lemma spilled_adds: "spilled d0 n seen state ws \<Longrightarrow> adds destination nonce ws ws' \<Longrightarrow> disk_wf (ws_disk ws) \<Longrightarrow> spilled d0 n seen state ws'"
  unfolding spilled_def using run_files_adds by blast

lemma run_files_snoc:
  assumes "run_files d0 run_paths rss ws" and "made d0 p (concat (map spill_bytes rs)) ws" and "sorted rs"
  shows "run_files d0 (run_paths @ [p]) (rss @ [rs]) ws"
  using assms by (simp add: run_files_def list_all2_appendI)

lemma spill_record_of_safe [panic_free]: "safe (spill_record_of key entry)"
  unfolding spill_record_of_def Let_def by (intro panic_free)

lemma push_record_runs:
  assumes name: "file_name destination = Some name" and wf: "disk_wf (ws_disk ws)" and n: "0 < n"
    and state: "spilled (ws_disk ws) n seen state ws1" and ws1: "adds destination nonce ws ws1"
    and x: "spill_record_of key entry = Ok x"
  shows "runs destination nonce ws1 (\<lambda>state' ws2. spilled (ws_disk ws) n (seen @ [x]) state' ws2) (push_record destination nonce n key entry state ws1)"
proof -
  obtain buffer run_paths where s: "state = (buffer, run_paths)" by (cases state)
  have wf1: "disk_wf (ws_disk ws1)" by (rule adds_wf [OF ws1 wf])
  obtain rss where rss: "run_files (ws_disk ws) run_paths rss ws1" "mset (concat rss) + mset buffer = mset seen" "length buffer < n" "\<forall>rs \<in> set rss. length rs = n"
    using state by (auto simp: spilled_def s)
  have push: "push_record destination nonce n key entry state ws1
      = (if length (buffer @ [x]) = n then spill_one_run destination nonce (buffer @ [x]) run_paths ws1 else (Ok (buffer @ [x], run_paths), ws1))"
    by (simp add: push_record_def s x Let_def)
  show ?thesis
  proof (cases "length (buffer @ [x]) = n")
    case True
    have "runs destination nonce ws1 (\<lambda>state' ws2. spilled (ws_disk ws) n (seen @ [x]) state' ws2) (spill_one_run destination nonce (buffer @ [x]) run_paths ws1)"
    proof (rule runs_mono [OF spill_one_run_runs [OF name wf1]])
      fix state' :: "spill_record list \<times> path list" and ws2
      assume st: "fst state' = [] \<and> (\<exists>p. snd state' = run_paths @ [p] \<and> made (ws_disk ws1) p (concat (map spill_bytes (sort (buffer @ [x])))) ws2)"
        and ws2: "adds destination nonce ws1 ws2"
      then obtain p where p: "snd state' = run_paths @ [p]" "made (ws_disk ws) p (concat (map spill_bytes (sort (buffer @ [x])))) ws2"
        using made_earlier [OF _ ws1 wf] by blast
      have "run_files (ws_disk ws) (run_paths @ [p]) (rss @ [sort (buffer @ [x])]) ws2"
        using run_files_snoc [OF run_files_adds [OF rss(1) ws2 wf1] p(2)] by simp
      then show "spilled (ws_disk ws) n (seen @ [x]) state' ws2"
        unfolding spilled_def using st p(1) rss True n by (intro exI [of _ "rss @ [sort (buffer @ [x])]"]) auto
    qed
    then show ?thesis using True push by simp
  next
    case False
    have "spilled (ws_disk ws) n (seen @ [x]) (buffer @ [x], run_paths) ws1"
      unfolding spilled_def using rss False by (intro exI [of _ rss]) auto
    then show ?thesis using False push by (simp add: runs_Ok)
  qed
qed

section \<open>Reading the source\<close>

lemma payload_slice:
  assumes "section_holds layout d file p" and "a + n \<le> length p"
  shows "take n (drop (unat (sd_payload_offset d) + a) file) = take n (drop a p)"
proof -
  have "p = take (length p) (drop (unat (sd_payload_offset d)) file)" using assms(1) by (simp add: section_holds_def)
  then have "take n (drop a p) = take n (drop a (take (length p) (drop (unat (sd_payload_offset d)) file)))" by simp
  also have "\<dots> = take n (drop (unat (sd_payload_offset d) + a) file)" using assms(2) by (simp add: drop_take add.commute min_def)
  finally show ?thesis by simp
qed

lemma read_at_Ok:
  assumes "seek_start p r = Ok r1" and "read_exact n r1 = Ok (bs, r2)"
  shows "bs = take n (drop (unat p) (rd_bytes r)) \<and> rd_bytes r2 = rd_bytes r"
  using seek_start_Ok [OF assms(1)] assms(2) by (auto simp: read_exact_def res_simps same_file_def dest!: io_tick_Ok split: if_splits)

lemma concat_chunk:
  assumes "\<forall>x \<in> set xs. length x = w" and "i < length xs"
  shows "take w (drop (i * w) (concat xs)) = xs ! i"
  using assms
proof (induction xs arbitrary: i)
  case (Cons x xs)
  then show ?case by (cases i) (auto simp: add.commute)
qed simp

definition source_sections :: "(bytes \<Rightarrow> u32) \<Rightarrow> store \<Rightarrow> file_layout \<Rightarrow> section_descriptor \<Rightarrow> section_descriptor \<Rightarrow> bytes \<Rightarrow> bool" where
  "source_sections crc s layout dk dh file \<longleftrightarrow> fl_metadata layout = snapshot_metadata s
     \<and> describes crc layout file dk \<lparr>sec_kind = Keys, sec_required = True, sec_payload = keys_payload (map fst (so_key_hashes s))\<rparr>
     \<and> describes crc layout file dh \<lparr>sec_kind = BandHashes, sec_required = True, sec_payload = hashes_payload (map snd (so_key_hashes s))\<rparr>"

lemma source_sections_hold:
  assumes "source_sections crc s layout dk dh file"
  shows "section_holds layout dk file (keys_payload (map fst (so_key_hashes s)))" "section_holds layout dh file (hashes_payload (map snd (so_key_hashes s)))"
  using assms by (simp_all add: source_sections_def describes_def)

lemma source_section_Ok: "source_section layout kind reason = Ok d \<longleftrightarrow> required_unique_section layout kind = Ok d"
  by (auto simp: source_section_def required_unique_section_def res_simps split: list.splits)

lemma verify_loop_same: "verify_loop hasher remaining h r = Ok (h', r') \<Longrightarrow> rd_bytes r' = rd_bytes r"
proof (induction hasher remaining h r rule: verify_loop.induct)
  case (1 hasher remaining h r)
  show ?case
  proof (cases "remaining = 0")
    case True
    then show ?thesis using "1.prems" by (subst (asm) verify_loop.simps) simp
  next
    case False
    define chunk where "chunk = unat (min remaining COPY_BUFFER_BYTES_U64)"
    obtain piece r1 where read: "read_exact chunk r = Ok (piece, r1)"
      and loop: "verify_loop hasher (remaining - of_nat chunk) (hasher_update hasher piece h) r1 = Ok (h', r')"
      using "1.prems" False by (subst (asm) verify_loop.simps) (auto simp: res_simps Let_def chunk_def)
    have "map_err BuildIo (read_exact chunk r) = Ok (piece, r1)" using read by simp
    from "1.IH" [OF False chunk_def this refl loop] read show ?thesis
      by (auto simp: read_exact_def res_simps same_file_def dest!: io_tick_Ok split: if_splits)
  qed
qed

lemma verify_section_same: "verify_section_streaming hasher d r = Ok r' \<Longrightarrow> rd_bytes r' = rd_bytes r"
  by (auto simp: verify_section_streaming_def res_simps Let_def same_file_def dest!: verify_loop_same seek_start_Ok)

lemma read_record_count_Ok:
  assumes "read_record_count d r = Ok (n, r')" and "section_holds layout d (rd_bytes r) (le64 (of_nat m) @ rest)" and "m < usize_limit"
  shows "n = m \<and> rd_bytes r' = rd_bytes r"
proof -
  obtain r1 raw where "seek_start (sd_payload_offset d) r = Ok r1" "read_exact 8 r1 = Ok (raw, r')" "n = unat (from_le_bytes raw :: u64)"
    using assms(1) by (auto simp: read_record_count_def res_simps)
  then show ?thesis using read_at_Ok payload_slice [OF assms(2), of 0 8] assms(3) by (fastforce simp: unat_of_nat_u64)
qed

lemma layout_same: "layout_read_from crc hasher r = Ok (layout, r') \<Longrightarrow> container crc (rd_bytes r) md frames \<Longrightarrow> hasher_law crc hasher \<Longrightarrow> rd_bytes r' = rd_bytes r"
  using layout_read_from_Ok [of crc hasher r layout r'] container_length [of crc "rd_bytes r" md frames] by (auto simp: same_file_def)

lemma check_source_Ok:
  assumes run: "check_source crc hasher r = Ok (layout, dk, dh, n, bands, r')" and src: "source_of crc s (rd_bytes r)"
    and law: "hasher_law crc hasher" and valid: "config_valid s" "keys_valid s"
  shows "source_sections crc s layout dk dh (rd_bytes r)" "n = length (so_key_hashes s)" "bands = p_bands (so_params s)" "rd_bytes r' = rd_bytes r"
proof -
  let ?kh = "so_key_hashes s"
  obtain ss where cont: "container crc (rd_bytes r) (snapshot_metadata s) (map section_frame ss)"
    and filters: "filter (\<lambda>sec. sec_kind sec = Keys) ss = [\<lparr>sec_kind = Keys, sec_required = True, sec_payload = keys_payload (map fst ?kh)\<rparr>]"
      "filter (\<lambda>sec. sec_kind sec = BandHashes) ss = [\<lparr>sec_kind = BandHashes, sec_required = True, sec_payload = hashes_payload (map snd ?kh)\<rparr>]"
    using src by (auto simp: source_of_def)
  obtain r0 r1 r2 r3 m where lay: "layout_read_from crc hasher r = Ok (layout, r0)" and sec: "source_section layout Keys ''missing keys section'' = Ok dk"
      "source_section layout BandHashes ''missing band-hash section'' = Ok dh"
    and ver: "verify_section_streaming hasher dk r0 = Ok r1" "verify_section_streaming hasher dh r1 = Ok r2"
    and cnt: "read_record_count dk r2 = Ok (n, r3)" "read_record_count dh r3 = Ok (m, r')" and b: "bands = unat (md_bands (fl_metadata layout))"
    using run by (auto simp: check_source_def res_simps Let_def)
  have "layout_read_from crc hasher (heal r) = Ok (layout, heal r0)" by (rule tolerantD [OF layout_read_from_tolerant lay])
  moreover obtain layout' r0' where "layout_read_from crc hasher (heal r) = Ok (layout', r0')" "fl_metadata layout' = snapshot_metadata s"
    "list_all2 (describes crc layout' (rd_bytes r)) (fl_sections layout') ss"
    using layout_of_container [OF law, of "heal r" "snapshot_metadata s" ss] cont by auto
  ultimately have md: "fl_metadata layout = snapshot_metadata s" and all: "list_all2 (describes crc layout (rd_bytes r)) (fl_sections layout) ss" by auto
  show sections: "source_sections crc s layout dk dh (rd_bytes r)"
    using unique_section [OF all filters(1)] unique_section [OF all filters(2)] sec md by (auto simp: source_sections_def source_section_Ok)
  note holds = source_sections_hold [OF sections]
  have same: "rd_bytes r0 = rd_bytes r" "rd_bytes r1 = rd_bytes r" "rd_bytes r2 = rd_bytes r"
    using layout_same [OF lay cont law] ver by (auto dest!: verify_section_same)
  have lim: "length ?kh < usize_limit" using holds(1) by (auto simp: section_holds_def)
  have "n = length ?kh \<and> rd_bytes r3 = rd_bytes r2"
    by (rule read_record_count_Ok [OF cnt(1)]) (use holds(1) same lim in \<open>simp_all add: keys_payload_def\<close>)
  moreover have "rd_bytes r3 = rd_bytes r2 \<Longrightarrow> m = length ?kh \<and> rd_bytes r' = rd_bytes r3"
    by (rule read_record_count_Ok [OF cnt(2)]) (use holds(2) same lim in \<open>simp_all add: hashes_payload_def\<close>)
  ultimately show "n = length ?kh" "rd_bytes r' = rd_bytes r" using same by simp_all
  show "bands = p_bands (so_params s)" using b md snapshot_fields(2) [OF valid(1)] by simp
qed

lemma field_position_Ok:
  assumes "field_position d w index = Ok p"
  shows "unat p = unat (sd_payload_offset d) + (8 + index * w)"
proof -
  obtain n where "index * w + 8 < usize_limit" "n = index * w + 8" and n: "n < usize_limit" "checked_add (sd_payload_offset d) (of_nat n) = Some p"
    using assms by (auto simp: field_position_def res_simps checked_mul_usize_def checked_add_usize_def u64_try_from_Some simp del: of_nat_add of_nat_mult
        split: if_splits bind_splits)
  then show ?thesis using checked_add_Some [OF n(2)] unat_of_nat_u64 [OF n(1)] by simp
qed

lemma read_item_Ok:
  assumes sec: "source_sections crc s layout dk dh file" and valid: "keys_valid s" and item: "item < length (so_key_hashes s)"
    and run: "read_item dk dh (p_bands (so_params s) * 8) item r = Ok ((key, pieces), r')" and r: "rd_bytes r = file"
  shows "key = fst (so_key_hashes s ! item)" "pieces = map le64 (snd (so_key_hashes s ! item))" "rd_bytes r' = file"
proof -
  let ?kh = "so_key_hashes s" and ?bands = "p_bands (so_params s)"
  let ?rows = "map (\<lambda>row. concat (map le64 row)) (map snd ?kh)"
  obtain p r1 r2 raw q r3 row where p: "field_position dk 8 item = Ok p" "seek_start p r = Ok r1" "read_exact 8 r1 = Ok (raw, r2)"
    and q: "field_position dh (?bands * 8) item = Ok q" "seek_start q r2 = Ok r3" "read_exact (?bands * 8) r3 = Ok (row, r')"
    and res: "key = from_le_bytes raw" "pieces = chunks_exact 8 row"
    using run by (auto simp: read_item_def read_field_def res_simps)
  note hold = source_sections_hold [OF sec]
  have one: "raw = take 8 (drop (8 + item * 8) (keys_payload (map fst ?kh))) \<and> rd_bytes r2 = file"
    using read_at_Ok [OF p(2,3)] payload_slice [OF hold(1), of "8 + item * 8" 8] field_position_Ok [OF p(1)] item r by (auto simp: mult.commute)
  have width: "\<forall>row \<in> set (map snd ?kh). length row = ?bands" by (rule keys_valid_rows [OF valid])
  have "(item + 1) * (?bands * 8) \<le> length ?kh * (?bands * 8)" using item by (intro mult_le_mono) auto
  then have two: "row = take (?bands * 8) (drop (8 + item * (?bands * 8)) (hashes_payload (map snd ?kh))) \<and> rd_bytes r' = file"
    using read_at_Ok [OF q(2,3)] payload_slice [OF hold(2), of "8 + item * (?bands * 8)" "?bands * 8"] field_position_Ok [OF q(1)] one
      length_hashes_payload [OF width] by (auto simp: algebra_simps)
  have "raw = le64 (map fst ?kh ! item)" using one concat_chunk [of "map le64 (map fst ?kh)" 8 item] item by (simp add: keys_payload_def add.commute)
  then show "key = fst (?kh ! item)" using res(1) item by simp
  have "concat (map le64 (concat xss)) = concat (map (\<lambda>row. concat (map le64 row)) xss)" for xss :: "u64 list list" by (induction xss) auto
  then have "concat (map le64 (concat (map snd ?kh))) = concat ?rows" .
  then have "row = ?rows ! item" using two concat_chunk [of ?rows "?bands * 8" item] item width by (simp add: hashes_payload_def add.commute mult.commute)
  then show "pieces = map le64 (snd (?kh ! item))" using res(2) item by (simp add: chunks_exact_le64)
  show "rd_bytes r' = file" using two by simp
qed

lemma read_exact_safe [panic_free]: "safe (read_exact n r)"
  unfolding read_exact_def by (intro panic_free)

lemma read_item_safe [panic_free]: "safe (read_item dk dh w item r)"
  unfolding read_item_def read_field_def field_position_def by (intro panic_free)

section \<open>The runs of a source\<close>

lemma spill_record_of_le64:
  "band < 4294967296 \<Longrightarrow> spill_record_of key (band, le64 hash) = Ok (SpillRecord (of_nat band) hash key)"
  by (simp add: spill_record_of_def u32_try_from_def)

lemma enumerate_map: "List.enumerate n (map f xs) = map (apsnd f) (List.enumerate n xs)"
  by (induction xs arbitrary: n) auto

lemma push_row_runs:
  assumes name: "file_name destination = Some name" and wf: "disk_wf (ws_disk ws)" and n: "0 < n"
    and state: "spilled (ws_disk ws) n seen state ws1" and ws1: "adds destination nonce ws ws1" and short: "length hashes < 4294967296"
  shows "runs destination nonce ws1 (spilled (ws_disk ws) n (seen @ item_records (key, hashes)))
    (st_foldl (push_record destination nonce n key) (List.enumerate 0 (map le64 hashes)) state ws1)"
proof -
  let ?rec = "\<lambda>(band, chunk). SpillRecord (of_nat band) (from_le_bytes chunk) key"
  have "runs destination nonce ws1 (\<lambda>st ws2. spilled (ws_disk ws) n (seen @ map ?rec (List.enumerate 0 (map le64 hashes))) st ws2)
    (st_foldl (push_record destination nonce n key) (List.enumerate 0 (map le64 hashes)) state ws1)"
  proof (rule runs_foldl [where I = "\<lambda>done st ws2. spilled (ws_disk ws) n (seen @ map ?rec done) st ws2"])
    show "spilled (ws_disk ws) n (seen @ map ?rec []) state ws1" using state by simp
  next
    fix "done" a todo st ws2
    assume split: "List.enumerate 0 (map le64 hashes) = done @ a # todo" and st: "spilled (ws_disk ws) n (seen @ map ?rec done) st ws2"
      and ws2: "adds destination nonce ws1 ws2"
    obtain band chunk where a: "a = (band, chunk)" by (cases a)
    have "a \<in> set (List.enumerate 0 (map le64 hashes))" by (simp add: split)
    then have "band < length hashes" "chunk = le64 (hashes ! band)" by (auto simp: a in_set_enumerate_eq)
    then have x: "spill_record_of key a = Ok (?rec a)" using short by (simp add: a spill_record_of_le64)
    have "adds destination nonce ws ws2" using adds_trans [OF ws1 ws2] .
    from runs_mono [OF push_record_runs [OF name wf n st this x]]
    show "runs destination nonce ws2 (\<lambda>y ws3. adds destination nonce ws2 ws3 \<longrightarrow> spilled (ws_disk ws) n (seen @ map ?rec (done @ [a])) y ws3)
       (push_record destination nonce n key a st ws2)" by simp
  qed simp
  moreover have "map ?rec (List.enumerate 0 (map le64 hashes)) = item_records (key, hashes)"
    by (simp add: item_records_def enumerate_map comp_def case_prod_beta)
  ultimately show ?thesis by simp
qed

lemma spill_item_runs:
  assumes name: "file_name destination = Some name" and wf: "disk_wf (ws_disk ws)" and n: "0 < n" and sec: "source_sections crc s layout dk dh file"
    and valid: "config_valid s" "keys_valid s" and item: "item < length (so_key_hashes s)"
    and state: "rd_bytes (fst state) = file" "spilled (ws_disk ws) n seen (snd state) ws1" and ws1: "adds destination nonce ws ws1"
  shows "runs destination nonce ws1 (\<lambda>st ws2. rd_bytes (fst st) = file \<and> spilled (ws_disk ws) n (seen @ item_records (so_key_hashes s ! item)) (snd st) ws2)
    (spill_item destination nonce n dk dh (p_bands (so_params s) * 8) item state ws1)"
proof -
  let ?entry = "so_key_hashes s ! item"
  obtain source buffer run_paths where s: "state = (source, buffer, run_paths)" by (cases state)
  have "?entry \<in> set (so_key_hashes s)" using item by simp
  then have short: "length (snd ?entry) < 4294967296" using valid(2) config_bounds(5) [OF valid(1)] by (force simp: keys_valid_def)
  show ?thesis
    unfolding spill_item_def s Let_def prod.case
  proof (rule runs_bind_pure [OF adds_refl])
    show "safe (read_item dk dh (p_bands (so_params s) * 8) item source)" by (intro panic_free)
  next
    fix x
    assume read: "read_item dk dh (p_bands (so_params s) * 8) item source = Ok x"
    obtain key row source' where x: "x = ((key, row), source')" by (metis prod.exhaust)
    note e = read_item_Ok [OF sec valid(2) item read [unfolded x]]
    have e: "key = fst ?entry" "row = map le64 (snd ?entry)" "rd_bytes source' = file" using e state(1) s by simp_all
    have loop: "runs destination nonce ws1 (spilled (ws_disk ws) n (seen @ item_records ?entry))
      (st_foldl (push_record destination nonce n key) (List.enumerate 0 row) (buffer, run_paths) ws1)"
      using push_row_runs [OF name wf n _ ws1 short, of seen "(buffer, run_paths)" key] state(2) s e by simp
    show "runs destination nonce ws1 (\<lambda>st ws2. rd_bytes (fst st) = file \<and> spilled (ws_disk ws) n (seen @ item_records ?entry) (snd st) ws2)
       ((case x of (x, xa) \<Rightarrow> (case x of (key, hash_row) \<Rightarrow> \<lambda>source ws.
            st_then (st_foldl (push_record destination nonce n key) (List.enumerate 0 hash_row) (buffer, run_paths) ws)
             (\<lambda>(buffer, runs) ws. (Ok (source, buffer, runs), ws))) xa) ws1)"
      unfolding x prod.case by (rule runs_bind [OF loop]) (use e(3) in \<open>auto intro!: runs_Ok split: prod.splits\<close>)
  qed
qed

text \<open>Full runs and at most one shorter run.\<close>

lemma div_ceil_runs:
  assumes "0 < n" and "b < n" shows "div_ceil (k * n + b) n = (if b = 0 then k else k + 1)"
  using assms by (auto simp: div_ceil_def)

lemma length_concat_full: "\<forall>rs \<in> set rss. length rs = n \<Longrightarrow> length (concat rss) = length rss * n"
  by (induction rss) auto

lemma upt_split:
  assumes "[0..<n] = done @ item # todo" shows "item = length done" "item < n"
proof -
  have len: "length done < n" using arg_cong [OF assms, of length] by simp
  have "[0..<n] ! length done = item" by (simp add: assms del: upt_conv_Cons)
  then show "item = length done" "item < n" using len by simp_all
qed

lemma spill_runs_runs:
  assumes name: "file_name destination = Some name" and wf: "disk_wf (ws_disk ws)" and sec: "source_sections crc s layout dk dh file"
    and valid: "config_valid s" "keys_valid s" and n: "0 < bo_max_buffer_records options" "24 * bo_max_buffer_records options \<le> 9223372036854775807"
    and source: "rd_bytes source = file"
  shows "runs destination nonce ws (\<lambda>x ws2. rd_bytes (snd x) = file \<and> (\<exists>rss. run_files (ws_disk ws) (fst x) rss ws2
      \<and> mset (concat rss) = mset (concat (map item_records (so_key_hashes s)))
      \<and> length (fst x) = div_ceil (length (concat (map item_records (so_key_hashes s)))) (bo_max_buffer_records options)))
    (spill_runs dk dh (length (so_key_hashes s)) (p_bands (so_params s)) destination nonce options source ws)"
proof -
  let ?kh = "so_key_hashes s" and ?n = "bo_max_buffer_records options"
  let ?R = "\<lambda>x ws2. rd_bytes (snd x) = file \<and> (\<exists>rss. run_files (ws_disk ws) (fst x) rss ws2
      \<and> mset (concat rss) = mset (concat (map item_records ?kh)) \<and> length (fst x) = div_ceil (length (concat (map item_records ?kh))) ?n)"
  let ?I = "\<lambda>done (st :: reader \<times> spill_record list \<times> path list) ws2. rd_bytes (fst st) = file \<and> spilled (ws_disk ws) ?n (concat (map item_records (take (length done) ?kh))) (snd st) ws2"
  have row: "checked_mul_usize (p_bands (so_params s)) 8 = Some (p_bands (so_params s) * 8)"
    using config_bounds(5) [OF valid(1)] by (simp add: checked_mul_usize_def)
  have count: "length run_paths = length rss" "length (concat (map item_records ?kh)) = length rss * ?n + length buffer"
    if "run_files (ws_disk ws) run_paths rss ws2" "\<forall>rs \<in> set rss. length rs = ?n" "mset (concat rss) + mset buffer = mset (concat (map item_records ?kh))"
    for run_paths rss buffer ws2
    using that length_concat_full [OF that(2)] by (auto simp: run_files_def dest: list_all2_lengthD arg_cong [where f = size])
  have "runs destination nonce ws (\<lambda>st ws2. ?I [0..<length ?kh] st ws2)
    (st_foldl (spill_item destination nonce ?n dk dh (p_bands (so_params s) * 8)) [0..<length ?kh] (source, [], []) ws)"
  proof (rule runs_foldl [where I = ?I])
    have "run_files (ws_disk ws) [] [] ws" by (simp add: run_files_def)
    then show "?I [] (source, [], []) ws" using source n by (force simp: spilled_def)
  next
    fix "done" item todo and st :: "reader \<times> spill_record list \<times> path list" and ws1
    assume split: "[0..<length ?kh] = done @ item # todo" and I: "?I done st ws1" and ws1: "adds destination nonce ws ws1"
    note item = upt_split [OF split]
    from runs_mono [OF spill_item_runs [OF name wf n(1) sec valid item(2) conjunct1 [OF I] conjunct2 [OF I] ws1]]
    show "runs destination nonce ws1 (\<lambda>y ws2. adds destination nonce ws1 ws2 \<longrightarrow> ?I (done @ [item]) y ws2)
       (spill_item destination nonce ?n dk dh (p_bands (so_params s) * 8) item st ws1)"
      using item by (simp add: take_Suc_conv_app_nth)
  qed simp
  then have loop: "runs destination nonce ws (\<lambda>st ws2. rd_bytes (fst st) = file \<and> spilled (ws_disk ws) ?n (concat (map item_records ?kh)) (snd st) ws2)
    (st_foldl (spill_item destination nonce ?n dk dh (p_bands (so_params s) * 8)) [0..<length ?kh] (source, [], []) ws)" by simp
  have finish: "runs destination nonce ws ?R (if buffer \<noteq> [] then st_then (spill_one_run destination nonce buffer run_paths ws1) (\<lambda>(buffer, ps) ws. (Ok (ps, source'), ws))
             else (Ok (run_paths, source'), ws1))"
    if src: "rd_bytes source' = file" and sp: "spilled (ws_disk ws) ?n (concat (map item_records ?kh)) (buffer, run_paths) ws1" and ws1: "adds destination nonce ws ws1"
    for source' :: reader and buffer run_paths ws1
  proof -
    obtain rss where rss: "run_files (ws_disk ws) run_paths rss ws1" "mset (concat rss) + mset buffer = mset (concat (map item_records ?kh))"
      "length buffer < ?n" "\<forall>rs \<in> set rss. length rs = ?n"
      using sp by (auto simp: spilled_def)
    note c = count [OF rss(1,4,2)] div_ceil_runs [OF n(1) rss(3), of "length rss"]
    have wf1: "disk_wf (ws_disk ws1)" by (rule adds_wf [OF ws1 wf])
    show ?thesis
    proof (cases "buffer = []")
      case True
      then show ?thesis using rss c src ws1 by (simp add: runs_Ok) (intro runs_Ok, auto)
    next
      case False
      have "runs destination nonce ws1 (\<lambda>st ws2. fst st = [] \<and> (\<exists>p. snd st = run_paths @ [p] \<and> made (ws_disk ws1) p (concat (map spill_bytes (sort buffer))) ws2))
        (spill_one_run destination nonce buffer run_paths ws1)" by (rule spill_one_run_runs [OF name wf1])
      then have "runs destination nonce ws1 ?R (st_then (spill_one_run destination nonce buffer run_paths ws1) (\<lambda>(buffer, ps) ws. (Ok (ps, source'), ws)))"
      proof (rule runs_bind)
        fix st :: "spill_record list \<times> path list" and ws2
        assume st: "fst st = [] \<and> (\<exists>p. snd st = run_paths @ [p] \<and> made (ws_disk ws1) p (concat (map spill_bytes (sort buffer))) ws2)"
          and ws2: "adds destination nonce ws1 ws2"
        then obtain p where p: "snd st = run_paths @ [p]" "made (ws_disk ws) p (concat (map spill_bytes (sort buffer))) ws2"
          using made_earlier [OF _ ws1 wf] by blast
        have "run_files (ws_disk ws) (run_paths @ [p]) (rss @ [sort buffer]) ws2"
          using run_files_snoc [OF run_files_adds [OF rss(1) ws2 wf1] p(2)] by simp
        then have "?R (snd st, source') ws2"
          using p(1) src rss(2) c False by (auto intro!: exI [of _ "rss @ [sort buffer]"])
        then show "runs destination nonce ws1 ?R ((case st of (buffer, ps) \<Rightarrow> \<lambda>ws. (Ok (ps, source'), ws)) ws2)"
          using ws2 by (cases st) (simp add: runs_Ok)
      qed
      then show ?thesis using False runs_start [OF ws1] by simp
    qed
  qed
  show ?thesis
    unfolding spill_runs_def row ok_or.simps st_then_simps Let_def using n(2)
    by (simp del: upt_Suc) (rule runs_bind [OF loop], use finish in auto)
qed

section \<open>Merging the runs\<close>

lemma holds_earlier: "holds (ws_disk ws) i p bs b ws' \<Longrightarrow> adds destination nonce ws0 ws \<Longrightarrow> disk_wf (ws_disk ws0) \<Longrightarrow> holds (ws_disk ws0) i p bs b ws'"
  using adds_keeps [of destination nonce ws0 ws] by (fastforce simp: holds_def keeps_def)

lemma open_made:
  assumes made: "made d0 p bs ws1" and ws1: "adds destination nonce ws ws1" and wf: "disk_wf (ws_disk ws)"
  shows "runs destination nonce ws (\<lambda>r ws2. rd_bytes r = bs \<and> rd_pos r = 0 \<and> adds destination nonce ws1 ws2) (on_fs (fs_open p) ws1)"
proof (rule runs_start [OF ws1])
  have wf1: "disk_wf (ws_disk ws1)" by (rule adds_wf [OF ws1 wf])
  obtain i where i: "dk_entries (fs_disk (ws_fs ws1)) (resolve p) = Some (FileNode i)" "dk_data (fs_disk (ws_fs ws1)) i = bs"
    using made by (auto simp: made_def holds_def ws_disk_def)
  then have follow: "follow 40 p (fs_disk (ws_fs ws1)) = Inr (FileNode i)" by (subst follow.simps) simp
  have "runs destination nonce ws1 (\<lambda>r ws2. rd_bytes r = bs \<and> rd_pos r = 0) (on_fs (fs_open p) ws1)"
  proof (rule runs_on_fs [OF _ adds_refl wf1], intro conjI impI allI)
    fix r fs
    assume run: "fs_open p (ws_fs ws1) = (r, fs)" and k: "keeps (resolve destination) (ws_disk ws1) (ws_disk ws1)"
    show "evolves (keeps (resolve destination) (ws_disk ws1)) (ws_fs ws1) fs"
      using fs_open_reads [OF run, of "keeps (resolve destination) (ws_disk ws1)"] k by (simp add: ws_disk_def)
  next
    fix r fs x
    assume run: "fs_open p (ws_fs ws1) = (r, fs)" and r: "r = Inr x"
    then show "rd_bytes x = bs" "rd_pos x = 0" using fs_open_reads [OF run] follow i(2) by auto
  qed
  then show "runs destination nonce ws1 (\<lambda>r ws2. rd_bytes r = bs \<and> rd_pos r = 0 \<and> adds destination nonce ws1 ws2) (on_fs (fs_open p) ws1)"
    by (rule runs_mono) simp
qed

lemma open_runs_runs:
  assumes files: "run_files d0 run_paths rss ws1" and ws1: "adds destination nonce ws ws1" and wf: "disk_wf (ws_disk ws)"
  shows "runs destination nonce ws (\<lambda>readers ws2. list_all2 (streams spill_bytes) readers rss) (open_runs run_paths ws1)"
proof -
  let ?I = "\<lambda>done (readers :: reader list) ws2. list_all2 (streams spill_bytes) readers (take (length done) rss) \<and> adds destination nonce ws1 ws2"
  have len: "length run_paths = length rss" using files by (auto simp: run_files_def dest: list_all2_lengthD)
  have wf1: "disk_wf (ws_disk ws1)" by (rule adds_wf [OF ws1 wf])
  have "runs destination nonce ws (?I run_paths) (open_runs run_paths ws1)"
    unfolding open_runs_def
  proof (rule runs_foldl [OF _ ws1])
    fix "done" p todo and readers :: "reader list" and ws2
    assume split: "run_paths = done @ p # todo" and I: "?I done readers ws2" and ws2: "adds destination nonce ws ws2"
    let ?k = "length done"
    have k: "?k < length rss" "run_paths ! ?k = p" using split len by auto
    have "run_files d0 run_paths rss ws2" using run_files_adds [OF files conjunct2 [OF I] wf1] .
    then have made: "made d0 p (concat (map spill_bytes (rss ! ?k))) ws2" using k len by (auto simp: run_files_def list_all2_conv_all_nth)
    have wf2: "disk_wf (ws_disk ws2)" by (rule adds_wf [OF ws2 wf])
    show "runs destination nonce ws2 (\<lambda>y ws3. adds destination nonce ws2 ws3 \<longrightarrow> ?I (done @ [p]) y ws3)
       (st_then (on_fs (fs_open p) ws2) (\<lambda>r ws. (Ok (readers @ [r]), ws)))"
    proof (rule runs_bind [OF open_made [OF made adds_refl wf2]])
      fix r :: reader and ws3
      assume "rd_bytes r = concat (map spill_bytes (rss ! ?k)) \<and> rd_pos r = 0 \<and> adds destination nonce ws2 ws3" and ws3: "adds destination nonce ws2 ws3"
      then have "streams spill_bytes r (rss ! ?k)" by (simp add: streams_def rest_of_def)
      then have "?I (done @ [p]) (readers @ [r]) ws3"
        using I k(1) adds_trans [OF conjunct2 [OF I] ws3] by (simp add: take_Suc_conv_app_nth list_all2_appendI)
      then show "runs destination nonce ws2 (\<lambda>y ws3. adds destination nonce ws2 ws3 \<longrightarrow> ?I (done @ [p]) y ws3) (Ok (readers @ [r]), ws3)"
        using ws3 by (simp add: runs_Ok)
    qed
  qed simp
  then show ?thesis by (rule runs_mono) (use len in simp)
qed

lemma read_record_safe [panic_free]: "safe (read_record width truncated raw r)"
proof (induction width truncated raw r rule: read_record.induct)
  case (1 width truncated raw r)
  have "safe (buf_read n r)" for n unfolding buf_read_def Let_def by (intro panic_free)
  then show ?case using 1
    by (cases "buf_read (width - length raw) r") (subst read_record.simps; auto simp: safe_def split: prod.splits)+
qed

lemma record_readers_safe [panic_free]: "safe (read_spill_record r)" "safe (read_descriptor_optional r)"
  unfolding read_spill_record_def read_descriptor_optional_def by (intro panic_free)+

lemma merge_steps_safe [panic_free]: "safe (merge_member hasher x ms)" "safe (finish_merge hasher ms)"
proof -
  have emit: "safe (emit_descriptor hasher key ms)" for key and ms :: "'a merge_state" unfolding emit_descriptor_def by (intro panic_free)
  then have "safe (enter_group hasher b ms)" for b and ms :: "'a merge_state" unfolding enter_group_def by (intro panic_free) (auto intro: panic_free emit)
  then show "safe (merge_member hasher x ms)" unfolding merge_member_def Let_def by (intro panic_free)
  show "safe (finish_merge hasher ms)" unfolding finish_merge_def by (intro panic_free emit)
qed

lemma prime_heap_safe [panic_free]: "safe (prime_heap readers)"
  unfolding prime_heap_def by (intro panic_free)

lemma merge_loop_safe:
  assumes "\<forall>e \<in> set heap. he_run e < length readers" shows "safe (merge_loop hasher readers heap ms)"
  using assms
proof (induction hasher readers heap ms rule: merge_loop.induct)
  case (2 hasher readers entry heap ms)
  have run: "\<not> length readers \<le> he_run entry" using "2.prems" by simp
  show ?case
    unfolding merge_loop.simps(2)
  proof (cases "merge_member hasher (he_record entry) ms")
    case (Ok ms1)
    show "safe (and_then (merge_member hasher (he_record entry) ms) (\<lambda>ms. if length readers \<le> he_run entry then Panic
        else and_then (read_spill_record (readers ! he_run entry)) (\<lambda>(next_record, reader).
          merge_loop hasher (readers[he_run entry := reader]) (heap_push next_record (he_run entry) heap) ms)))"
    proof (cases "read_spill_record (readers ! he_run entry)")
      case Ok2: (Ok x)
      obtain next_record reader where x: "x = (next_record, reader)" by (cases x)
      have "\<forall>e \<in> set (heap_push next_record (he_run entry) heap). he_run e < length (readers[he_run entry := reader])"
        using "2.prems" by (auto simp: heap_push_def set_insort_key split: option.splits)
      from "2.IH" [OF Ok run Ok2 x [symmetric] this] show ?thesis using run Ok Ok2 x by simp
    next
      case (Err e)
      then show ?thesis using run Ok by (simp add: safe_def)
    qed (use record_readers_safe(1) in \<open>simp add: safe_def\<close>)
  qed (use merge_steps_safe(1) in \<open>auto simp: safe_def\<close>)
qed (simp add: safe_def)

text \<open>Two files that are written side by side.\<close>

lemma finish_two_files:
  assumes h: "holds (ws_disk ws) i p [] False ws1" "holds (ws_disk ws) j q [] False ws1" "i \<noteq> j"
    and ws1: "adds destination nonce ws ws1" and wf: "disk_wf (ws_disk ws)"
    and rest: "\<And>ws2. made (ws_disk ws) p (wr_bytes w) ws2 \<Longrightarrow> made (ws_disk ws) q (wr_bytes v) ws2 \<Longrightarrow> adds destination nonce ws ws2 \<Longrightarrow> runs destination nonce ws R (g ws2)"
  shows "runs destination nonce ws R (st_then (flush_stream i w ws1) (\<lambda>_ ws. st_then (flush_stream j v ws) (\<lambda>_ ws.
    st_then (sync_stream i ws) (\<lambda>_ ws. st_then (sync_stream j ws) (\<lambda>_ ws. g ws)))))"
proof (rule runs_bind [OF flush_stream_runs [OF h(1) ws1 wf]], goal_cases)
  case (1 _ ws2)
  then have i: "holds (ws_disk ws) i p (wr_bytes w) False ws2" and j: "holds (ws_disk ws) j q [] False ws2" and ws2: "adds destination nonce ws ws2"
    using h by auto
  show ?case
  proof (rule runs_bind [OF flush_stream_runs [OF j ws2 wf]], goal_cases)
    case (1 _ ws3)
    then have j: "holds (ws_disk ws) j q (wr_bytes v) False ws3" and i: "holds (ws_disk ws) i p (wr_bytes w) False ws3" and ws3: "adds destination nonce ws ws3"
      using i h(3) by auto
    show ?case
    proof (rule runs_bind [OF sync_stream_runs [OF i ws3 wf]], goal_cases)
      case (1 _ ws4)
      then have i: "holds (ws_disk ws) i p (wr_bytes w) True ws4" and j: "holds (ws_disk ws) j q (wr_bytes v) False ws4" and ws4: "adds destination nonce ws ws4"
        using j h(3) by auto
      show ?case
        by (rule runs_bind [OF sync_stream_runs [OF j ws4 wf]], rule rest) (use i h(3) in \<open>fastforce simp: made_def\<close>)+
    qed
  qed
qed

lemma represented_buckets:
  assumes "buckets_represent bm m"
  shows "distinct (map fst bm)" "\<forall>b \<in> set bm. snd b \<noteq> []"
proof -
  show "distinct (map fst bm)" using assms bt_wf_distinct by (auto simp: buckets_represent_def)
  show "\<forall>b \<in> set bm. snd b \<noteq> []"
  proof
    fix b assume "b \<in> set bm"
    then have "map_of bm (fst b) = Some (snd b)" using assms bt_wf_mem [of bm "fst b" "snd b"] by (simp add: buckets_represent_def)
    then show "snd b \<noteq> []" using assms by (auto simp: buckets_represent_def non_empty_def split: if_splits)
  qed
qed

text \<open>The merge itself, between the creation of the two files and their end.\<close>

lemma merge_readers:
  assumes law: "hasher_law crc hasher" and readers: "list_all2 (streams spill_bytes) readers rss" "\<forall>rs \<in> set rss. sorted rs"
    and order: "sort (concat rss) = concat (map bucket_records bm)" and wfb: "distinct (map fst bm)" "\<forall>b \<in> set bm. snd b \<noteq> []"
    and w: "wr_bytes w = []" "wr_bytes v = []" and ws1: "adds destination nonce ws ws1"
    and rest: "\<And>ms. wr_bytes (mg_descriptors ms) = concat (map draft_bytes (drafts crc 0 bm)) \<Longrightarrow> wr_bytes (mg_memberships ms) = membership_bytes bm
      \<Longrightarrow> unat (mg_buckets ms) = length bm \<Longrightarrow> runs destination nonce ws R (g ms ws1)"
  shows "runs destination nonce ws R (st_then (prime_heap readers, ws1) (\<lambda>(readers, heap) ws.
     st_then (merge_loop hasher readers heap (merge_start hasher w v), ws) (\<lambda>ms ws. st_then (finish_merge hasher ms, ws) (\<lambda>ms ws. g ms ws))))"
proof (rule runs_bind_pure [OF ws1 prime_heap_safe])
  fix x
  assume "prime_heap readers = Ok x"
  then obtain readers' heap where x: "x = (readers', heap)" and prime: "prime_heap readers = Ok (readers', heap)" by (cases x) auto
  obtain rests where rests: "list_all2 (streams spill_bytes) readers' rests" "heap_covers heap rests"
    using prime_heap_Ok [OF prime readers] by blast
  have safe: "safe (merge_loop hasher readers' heap (merge_start hasher w v))"
    by (rule merge_loop_safe) (use rests list_all2_lengthD in \<open>fastforce simp: heap_covers_def\<close>)
  show "runs destination nonce ws R ((case x of (readers, heap) \<Rightarrow> \<lambda>ws. st_then (merge_loop hasher readers heap (merge_start hasher w v), ws) (\<lambda>ms ws.
     st_then (finish_merge hasher ms, ws) (\<lambda>ms ws. g ms ws))) ws1)"
    unfolding x prod.case
  proof (rule runs_bind_pure [OF ws1 safe], rule runs_bind_pure [OF ws1 merge_steps_safe(2)])
    fix ms ms'
    assume loop: "merge_loop hasher readers' heap (merge_start hasher w v) = Ok ms" and fin: "finish_merge hasher ms = Ok ms'"
    have "fold_result (merge_member hasher) (concat (map bucket_records bm)) (merge_start hasher w v) = Ok ms"
      using merge_sorted [OF prime loop readers] order by simp
    from rest [OF merge_output [OF law w this fin wfb]] show "runs destination nonce ws R (g ms' ws1)" .
  qed
qed

lemma merge_runs_runs:
  assumes name: "file_name destination = Some name" and wf: "disk_wf (ws_disk ws)" and law: "hasher_law crc hasher"
    and files: "run_files d0 run_paths rss ws" "mset (concat rss) = mset (concat (map item_records kh))"
    and rep: "buckets_represent bm (map_of kh)" "bt_wf kh" "\<forall>item \<in> set kh. length (snd item) < 4294967296"
    and dp: "dp = temp_path destination nonce ''descriptors''" and mp: "mp = temp_path destination nonce ''memberships''"
  shows "runs destination nonce ws (\<lambda>n ws2. made (ws_disk ws) dp (concat (map draft_bytes (drafts crc 0 bm))) ws2
      \<and> made (ws_disk ws) mp (membership_bytes bm) ws2 \<and> unat n = length bm)
    (merge_runs hasher run_paths dp mp (track mp (track dp ws)))" (is "runs _ _ _ ?R _")
proof -
  let ?ws = "track mp (track dp ws)"
  have ws0: "adds destination nonce ws ?ws" unfolding dp mp using adds_trans adds_track by blast
  have srt: "\<forall>rs \<in> set rss. sorted rs" using files(1) by (fastforce simp: run_files_def list_all2_conv_all_nth in_set_conv_nth)
  have "sort (concat rss) = sort (concat (map item_records kh))" using files(2) by (metis properties_for_sort mset_sort sorted_sort)
  then have order: "sort (concat rss) = concat (map bucket_records bm)" using sort_source_records [OF rep] by simp
  have files1: "run_files d0 run_paths rss ?ws" using run_files_adds [OF files(1) ws0 wf] .
  show ?thesis
    unfolding merge_runs_def
  proof (rule runs_bind [OF open_runs_runs [OF files1 ws0 wf]], goal_cases)
    case (1 readers ws1)
    note readers = 1(1) and ws1 = 1(2)
    show ?case
    proof (rule runs_bind2 [OF create_stream_runs [OF name dp ws1 wf]], goal_cases)
      case (1 i w ws2)
      then have w: "wr_bytes w = []" and hi: "holds (ws_disk ws) i dp [] False ws2" and ws2: "adds destination nonce ws ws2"
        using holds_earlier [OF _ ws1 wf] by blast+
      show ?case
      proof (rule runs_bind2 [OF create_stream_runs [OF name mp ws2 wf]], goal_cases)
        case (1 j v ws3)
        then have v: "wr_bytes v = []" and hj: "holds (ws_disk ws2) j mp [] False ws3" and ws3: "adds destination nonce ws ws3"
          and step: "adds destination nonce ws2 ws3" by blast+
        have ij: "i \<noteq> j" using hi hj by (auto simp: holds_def)
        have hi: "holds (ws_disk ws) i dp [] False ws3" using holds_adds [OF hi step adds_wf [OF ws2 wf]] .
        have hj: "holds (ws_disk ws) j mp [] False ws3" using holds_earlier [OF hj ws2 wf] .
        show ?case
          by (rule merge_readers [OF law readers srt order represented_buckets [OF rep(1)] w v ws3], rule finish_two_files [OF hi hj ij ws3 wf], rule runs_Ok) auto
      qed
    qed
  qed
qed

end
