(* ===== verification/Pari_BuildOutput.thy ===== *)
theory Pari_BuildOutput
  imports Pari_BuildSteps
begin

text \<open>
  The output of the external builder: the segments it assembles from the merged files are the segments of the canonical
  snapshot, group by group, and the container it writes is the snapshot the store would commit.
\<close>

section \<open>Assembling the segments\<close>

lemma read_exact_same: "read_exact n r = Ok (bs, r') \<Longrightarrow> rd_bytes r' = rd_bytes r"
  by (auto simp: read_exact_def res_simps same_file_def dest!: io_tick_Ok split: if_splits)

lemma copy_loop_same: "copy_loop hasher remaining (w, r, bucket, outer) = Ok (w', r', bucket', outer') \<Longrightarrow> rd_bytes r' = rd_bytes r"
proof (induction hasher remaining "(w, r, bucket, outer)" arbitrary: w r bucket outer rule: copy_loop.induct)
  case (1 hasher remaining w r bucket outer)
  show ?case
  proof (cases "remaining = 0")
    case True
    then show ?thesis using "1.prems" by (subst (asm) copy_loop.simps) simp
  next
    case False
    define count where "count = unat (min remaining COPY_BUFFER_BYTES_U64)"
    obtain piece r1 w1 where read: "read_exact count r = Ok (piece, r1)" and wr: "write_all piece w = Ok w1"
      and loop: "copy_loop hasher (remaining - of_nat count) (w1, r1, hasher_update hasher piece bucket, hasher_update hasher piece outer) = Ok (w', r', bucket', outer')"
      using "1.prems" False by (subst (asm) copy_loop.simps) (auto simp: res_simps Let_def count_def)
    have "map_err bucket_io_error (read_exact count r) = Ok (piece, r1)" "map_err bucket_io_error (write_all piece w) = Ok w1" using read wr by simp_all
    from "1.hyps" [OF False count_def this(1) refl this(2) loop] show ?thesis using read_exact_same [OF read] by simp
  qed
qed

lemma copy_records_same:
  "fold_result (copy_record hasher) records (w, r, outer) = Ok (w', r', outer') \<Longrightarrow> rd_bytes r' = rd_bytes r"
proof (induction records arbitrary: w r outer)
  case (Cons x records)
  then obtain w1 r1 outer1 where "copy_record hasher x (w, r, outer) = Ok (w1, r1, outer1)"
    "fold_result (copy_record hasher) records (w1, r1, outer1) = Ok (w', r', outer')" by (auto simp: res_simps)
  moreover from this(1) have "rd_bytes r1 = rd_bytes r" by (auto simp: copy_record_def res_simps Let_def dest!: copy_loop_same)
  ultimately show ?case using Cons.IH by metis
qed simp

lemma write_bucket_segment_same: "write_bucket_segment crc hasher records r w = Ok (res, r', w') \<Longrightarrow> rd_bytes r' = rd_bytes r"
  unfolding write_bucket_segment_def Let_def by (auto simp: res_simps dest: copy_records_same)

lemma safe_steps: "safe r \<Longrightarrow> (\<And>x. r = Ok x \<Longrightarrow> safe (f x)) \<Longrightarrow> safe (and_then r f)"
  by (cases r) (simp_all add: safe_def)

lemma copy_loop_safe: "safe (copy_loop hasher remaining (w, r, bucket, outer))"
proof (induction hasher remaining "(w, r, bucket, outer)" arbitrary: w r bucket outer rule: copy_loop.induct)
  case (1 hasher remaining w r bucket outer)
  show ?case
  proof (cases "remaining = 0")
    case False
    define count where "count = unat (min remaining COPY_BUFFER_BYTES_U64)"
    have "safe (and_then (map_err bucket_io_error (read_exact count r)) (\<lambda>(piece, r). and_then (map_err bucket_io_error (write_all piece w)) (\<lambda>w.
        copy_loop hasher (remaining - of_nat count) (w, r, hasher_update hasher piece bucket, hasher_update hasher piece outer))))"
    proof (rule safe_steps [OF safe_map_err [OF read_exact_safe]])
      fix x
      assume x: "map_err bucket_io_error (read_exact count r) = Ok x"
      obtain piece r1 where p: "x = (piece, r1)" by (cases x)
      show "safe (case x of (piece, r) \<Rightarrow> and_then (map_err bucket_io_error (write_all piece w)) (\<lambda>w.
        copy_loop hasher (remaining - of_nat count) (w, r, hasher_update hasher piece bucket, hasher_update hasher piece outer)))"
        unfolding p prod.case by (rule safe_steps [OF safe_map_err [OF write_all_safe]], rule "1.hyps" [OF False count_def x p [symmetric]])
    qed
    then show ?thesis using False by (subst copy_loop.simps) (simp only: Let_def count_def if_False)
  qed (simp add: copy_loop.simps safe_def)
qed

lemma copy_record_safe [panic_free]: "safe (copy_record hasher x state)"
  unfolding copy_record_def Let_def by (cases state) (auto intro!: panic_free copy_loop_safe)

lemma write_bucket_segment_safe [panic_free]: "safe (write_bucket_segment crc hasher records r w)"
proof -
  have "safe (validate_records records)" "safe (stream_entry x st)" "safe (write_hashed hasher bs ws)" for x st bs ws
    unfolding validate_records_def stream_entry_def write_hashed_def Let_def by (auto intro!: panic_free split: prod.splits)
  then show ?thesis unfolding write_bucket_segment_def Let_def by (intro panic_free)
qed

lemma take_group_safe [panic_free]: "safe (take_group taken estimated pending r)"
proof (induction taken estimated pending r rule: take_group.induct)
  case (2 taken estimated draft r)
  have size: "safe (bucket_record_size n)" for n unfolding bucket_record_size_def by (intro panic_free)
  show ?case
    unfolding take_group.simps(2)
  proof (rule safe_steps [OF safe_map_err [OF size]], rule safe_steps, goal_cases)
    case (2 contribution full)
    note IH = "2.IH" [OF 2]
    show ?case
    proof (cases full)
      case False
      have "safe (and_then (ok_or BuildLengthOverflow (checked_add_usize estimated contribution)) (\<lambda>estimated.
          and_then (read_descriptor_optional r) (\<lambda>(pending, r). take_group (taken @ [draft]) estimated pending r)))"
        by (rule safe_steps [OF safe_basic(3)], rule safe_steps [OF record_readers_safe(2)]) (auto intro: IH [OF False] split: prod.splits)
      then show ?thesis using False by simp
    qed (simp add: safe_def)
  qed (intro panic_free)
qed (simp add: safe_def)

section \<open>Segments of a source\<close>

definition segment_made :: "(bytes \<Rightarrow> u32) \<Rightarrow> disk \<Rightarrow> workspace \<Rightarrow> segment_file \<Rightarrow> (bucket_key \<times> u64 list) list \<Rightarrow> bool" where
  "segment_made crc d0 ws seg g \<longleftrightarrow> made d0 (sf_path seg) (segment crc (records_of g)) ws
     \<and> sf_bytes seg = of_nat (length (segment crc (records_of g))) \<and> sf_checksum seg = crc (segment crc (records_of g))"

lemma segments_made_adds:
  "list_all2 (segment_made crc d0 ws) segs gs \<Longrightarrow> adds destination nonce ws ws' \<Longrightarrow> disk_wf (ws_disk ws) \<Longrightarrow> list_all2 (segment_made crc d0 ws') segs gs"
  using made_adds by (auto simp: segment_made_def elim!: list_all2_mono)

lemma segment_made_earlier:
  "segment_made crc (ws_disk ws) ws' seg g \<Longrightarrow> adds destination nonce ws0 ws \<Longrightarrow> disk_wf (ws_disk ws0) \<Longrightarrow> segment_made crc (ws_disk ws0) ws' seg g"
  using made_earlier by (fastforce simp: segment_made_def)

lemma drafts_write_records:
  "map (\<lambda>draft. \<lparr>bw_key = dd_key draft, bw_member_count = dd_member_count draft, bw_member_checksum = dd_checksum draft\<rparr>) (drafts crc off g)
    = map (write_record crc) (records_of g)"
  by (induction g arbitrary: off) (auto simp: records_of_def write_record_def member_bytes_def)

lemma length_membership_bytes: "length (membership_bytes bm) = 8 * member_total bm"
  by (induction bm) (auto simp: membership_bytes_def)

lemma membership_bytes_append: "membership_bytes (xs @ ys) = membership_bytes xs @ membership_bytes ys"
  by (simp add: membership_bytes_def)

lemma membership_bytes_records: "membership_bytes g = concat (map member_bytes (records_of g))"
  by (induction g) (auto simp: membership_bytes_def records_of_def member_bytes_def)

lemma write_one_segment_runs:
  assumes name: "file_name destination = Some name" and wf: "disk_wf (ws_disk ws)" and law: "hasher_law crc hasher" and ok: "group_ok g"
    and m: "rest_of m = membership_bytes g @ rest" "rd_pos m \<le> length (rd_bytes m)"
  shows "runs destination nonce ws (\<lambda>(seg, m') ws2. segment_made crc (ws_disk ws) ws2 seg g \<and> rd_bytes m' = rd_bytes m)
    (write_one_segment crc hasher destination nonce (drafts crc off g) index m ws)"
  unfolding write_one_segment_def Let_def drafts_write_records
proof (rule create_file [OF name refl wf], goal_cases)
  case (1 i w ws1)
  note w = 1(1) and h = 1(2) and ws1 = 1(3)
  have seg: "segment_ok (records_of g)" using ok by (simp add: group_ok_def)
  show ?case
  proof (rule runs_bind_pure [OF ws1], intro panic_free)
    fix x
    assume run: "map_err BuildBucket (write_bucket_segment crc hasher (map (write_record crc) (records_of g)) m w) = Ok x"
    obtain res m' w' where x: "x = (res, m', w')" by (metis prod.exhaust)
    have run: "write_bucket_segment crc hasher (map (write_record crc) (records_of g)) m w = Ok (res, m', w')" using run x by (simp add: res_simps)
    note o = write_bucket_segment_Ok [OF law seg _ m(2) run, of rest] write_bucket_segment_same [OF run]
    have o: "res = \<lparr>sb_bytes = of_nat (length (segment crc (records_of g))), sb_checksum = crc (segment crc (records_of g))\<rparr>"
      "wr_bytes w' = segment crc (records_of g)" "rd_bytes m' = rd_bytes m"
      using o m(1) w by (simp_all add: membership_bytes_records)
    show "runs destination nonce ws (\<lambda>(seg, m') ws2. segment_made crc (ws_disk ws) ws2 seg g \<and> rd_bytes m' = rd_bytes m)
      ((case x of (res, memberships, w) \<Rightarrow> \<lambda>ws. st_then (flush_stream i w ws) (\<lambda>_ ws. st_then (sync_stream i ws) (\<lambda>_ ws.
         (Ok (\<lparr>sf_path = temp_path destination nonce (''bucket-'' @ decimal index), sf_bytes = sb_bytes res, sf_checksum = sb_checksum res\<rparr>, memberships), ws)))) ws1)"
      unfolding x prod.case by (rule finish_file [OF h ws1 wf], rule runs_Ok) (use o in \<open>auto simp: segment_made_def\<close>)
  qed
qed

lemma next_group_first: "snd (next_group [] (b # bm)) = rest \<Longrightarrow> length rest \<le> length bm"
  using next_group_shorter [of "[b]" bm] by simp

lemma next_group_start: "fst (next_group (x # cur) bm) = x # tl (fst (next_group (x # cur) bm))"
  by (induction "x # cur" bm arbitrary: cur rule: next_group.induct) auto

lemma segments_loop_runs:
  assumes name: "file_name destination = Some name" and wf: "disk_wf (ws_disk ws)" and law: "hasher_law crc hasher"
    and "pending_streams pending r (drafts crc (8 * member_total pre) bm)" and "rd_bytes m = membership_bytes (pre @ bm)"
    and "8 * member_total (pre @ bm) < usize_limit" and "\<forall>b \<in> set bm. length (snd b) < 4294967296"
    and "bm \<noteq> [] \<longrightarrow> (\<forall>g \<in> set (groups_from [] bm). group_ok g)"
    and "list_all2 (segment_made crc (ws_disk ws) ws1) segs gs" and "adds destination nonce ws ws1"
  shows "runs destination nonce ws (\<lambda>segs' ws2. list_all2 (segment_made crc (ws_disk ws) ws2) segs' (gs @ (if bm = [] then [] else groups_from [] bm)))
    (segments_loop crc hasher destination nonce pending r m segs ws1)"
  using assms(4-)
proof (induction "length bm" arbitrary: bm pre pending r m segs gs ws1 rule: less_induct)
  case less
  note ws1 = less.prems(7)
  show ?case
  proof (cases bm)
    case Nil
    then have "pending = None" using less.prems(1) by (simp add: pending_streams_def)
    then show ?thesis using Nil less.prems(6) ws1 by (simp add: runs_Ok)
  next
    case (Cons b bm')
    let ?off = "8 * member_total pre"
    obtain g rest where ng: "next_group [] bm = (g, rest)" by fastforce
    have g: "g = b # tl g" "g @ rest = bm" "length rest < length bm"
      using next_group_start [of b "[]" bm'] next_group_append [of "[]" bm] next_group_shorter [of "[b]" bm'] ng by (simp_all add: Cons)
    have short: "\<forall>b \<in> set rest. length (snd b) < 4294967296" using less.prems(4) g(2) by auto
    have groups: "groups_from [] bm = g # (if rest = [] then [] else groups_from [] rest)"
      using groups_from_next [of "[]" bm] ng by (simp split: list.splits)
    obtain draft where pending: "pending = Some draft" using less.prems(1) by (auto simp: pending_streams_def Cons)
    show ?thesis
      unfolding pending segments_loop.simps(2)
    proof (rule runs_bind_pure [OF ws1 take_group_safe], goal_cases)
      case (1 x)
      obtain ds pending' r' where x: "x = (ds, pending', r')" by (metis prod.exhaust)
      have "ds = drafts crc ?off g \<and> pending_streams pending' r' (drafts crc (?off + 8 * member_total g) rest)"
        using take_group_Ok [of crc ?off "[]" pending r ds pending' r' bm] 1 less.prems(1,4) ng by (simp add: x pending)
      then have ds: "ds = drafts crc ?off g" and p': "pending_streams pending' r' (drafts crc (8 * member_total (pre @ g)) rest)"
        by (simp_all add: algebra_simps)
      have first: "(case ds of [] \<Rightarrow> None | d # ds \<Rightarrow> Some (dd_relative_offset d)) = Some (of_nat ?off)" by (subst ds, subst g(1)) simp
      show ?case
        unfolding x prod.case first ok_or.simps st_then_simps(1)
      proof (rule runs_bind_pure [OF ws1], intro panic_free, goal_cases)
        case (1 m1)
        have off: "unat (of_nat ?off :: u64) = ?off" using less.prems(3) by (intro unat_of_nat_u64) simp
        have m1: "rd_bytes m1 = membership_bytes (pre @ bm)" "rd_pos m1 = ?off"
          using 1 less.prems(2) off by (auto simp: res_simps same_file_def simp del: of_nat_mult dest!: seek_start_Ok)
        have rest: "rest_of m1 = membership_bytes g @ membership_bytes rest" "rd_pos m1 \<le> length (rd_bytes m1)"
          using m1 by (simp_all add: rest_of_def membership_bytes_append length_membership_bytes flip: g(2))
        have ok: "group_ok g" using less.prems(5) groups Cons by simp
        have one: "runs destination nonce ws (\<lambda>y ws2. segment_made crc (ws_disk ws1) ws2 (fst y) g \<and> rd_bytes (snd y) = rd_bytes m1 \<and> adds destination nonce ws1 ws2)
          (write_one_segment crc hasher destination nonce (drafts crc ?off g) (length segs) m1 ws1)"
          by (rule runs_start [OF ws1], rule runs_mono [OF write_one_segment_runs [OF name adds_wf [OF ws1 wf] law ok rest]]) auto
        show ?case
          unfolding ds
        proof (rule runs_bind [OF one], goal_cases)
          case (1 y ws2)
          obtain seg m' where y: "y = (seg, m')" by (cases y)
          have seg: "segment_made crc (ws_disk ws) ws2 seg g" and m': "rd_bytes m' = membership_bytes ((pre @ g) @ rest)" and ws2: "adds destination nonce ws ws2"
            and step: "adds destination nonce ws1 ws2"
            using 1 m1(1) segment_made_earlier [OF _ ws1 wf] g(2) by (auto simp: y)
          have segs: "list_all2 (segment_made crc (ws_disk ws) ws2) (segs @ [seg]) (gs @ [g])"
            using segments_made_adds [OF less.prems(6) step adds_wf [OF ws1 wf]] seg by (simp add: list_all2_appendI)
          have "runs destination nonce ws (\<lambda>segs' ws2. list_all2 (segment_made crc (ws_disk ws) ws2) segs' ((gs @ [g]) @ (if rest = [] then [] else groups_from [] rest)))
            (segments_loop crc hasher destination nonce pending' r' m' (segs @ [seg]) ws2)"
            by (rule less.hyps [OF g(3) p' m' _ _ _ segs ws2]) (use less.prems(3,5) groups g(2) Cons short in auto)
          then show ?case using groups Cons by (simp add: y)
        qed
      qed
    qed
  qed
qed

lemma assemble_segments_runs:
  assumes name: "file_name destination = Some name" and wf: "disk_wf (ws_disk ws)" and law: "hasher_law crc hasher"
    and files: "made d0 dp (concat (map draft_bytes (drafts crc 0 bm))) ws" "made d0 mp (membership_bytes bm) ws"
    and total: "8 * member_total bm < usize_limit" "\<forall>b \<in> set bm. length (snd b) < 4294967296" and ok: "\<forall>g \<in> set (groups_from [] bm). group_ok g"
  shows "runs destination nonce ws (\<lambda>segs ws2. list_all2 (segment_made crc (ws_disk ws) ws2) segs (groups_from [] bm))
    (assemble_segments crc hasher dp mp destination nonce ws)"
  unfolding assemble_segments_def
proof (rule runs_bind [OF open_made [OF files(1) adds_refl wf]], goal_cases)
  case (1 r ws1)
  then have r: "streams draft_bytes r (drafts crc 0 bm)" and ws1: "adds destination nonce ws ws1" by (auto simp: streams_def rest_of_def)
  show ?case
  proof (rule runs_bind [OF open_made [OF made_adds [OF files(2) ws1 wf] ws1 wf]], goal_cases)
    case (1 m ws2)
    then have m: "rd_bytes m = membership_bytes bm" "rd_pos m = 0" and ws2: "adds destination nonce ws ws2" by auto
    show ?case
    proof (rule runs_bind_pure [OF ws2 record_readers_safe(2)], goal_cases)
      case (1 x)
      obtain pending r' where x: "x = (pending, r')" by (cases x)
      have pending: "pending_streams pending r' (drafts crc 0 bm)" using read_pending 1 r by (simp add: x)
      show ?case
      proof (cases bm)
        case Nil
        then have p: "pending = None" using pending by (simp add: pending_streams_def)
        have "runs destination nonce ws2 (\<lambda>(seg, m') ws3. segment_made crc (ws_disk ws2) ws3 seg [] \<and> rd_bytes m' = rd_bytes m)
          (write_one_segment crc hasher destination nonce (drafts crc 0 []) 0 m ws2)"
          by (rule write_one_segment_runs [OF name adds_wf [OF ws2 wf] law, where rest = "[]"]) (use ok m Nil in \<open>simp_all add: rest_of_def\<close>)
        then show ?thesis
          unfolding x p Nil by (simp, intro runs_start [OF ws2]) (erule runs_bind2, auto intro!: runs_Ok segment_made_earlier [OF _ ws2 wf])
      next
        case (Cons b bm')
        then have p: "pending \<noteq> None" using pending by (auto simp: pending_streams_def)
        have "runs destination nonce ws (\<lambda>segs' ws2. list_all2 (segment_made crc (ws_disk ws) ws2) segs' ([] @ (if bm = [] then [] else groups_from [] bm)))
          (segments_loop crc hasher destination nonce pending r' m [] ws2)"
          by (rule segments_loop_runs [OF name wf law, where pre = "[]"]) (use pending m total ok ws2 in auto)
        then show ?thesis using p by (auto simp: x Cons)
      qed
    qed
  qed
qed

section \<open>The canonical container\<close>

lemma encode_snapshot_plan:
  assumes valid: "config_valid s" "keys_valid s" and enc: "encode_snapshot crc s = Ok bs"
  shows "\<exists>bm. buckets_represent bm (map_of (so_key_hashes s)) \<and> member_total bm = length (so_key_hashes s) * p_bands (so_params s)
    \<and> 8 * member_total bm < usize_limit \<and> (\<forall>b \<in> set bm. length (snd b) < 4294967296)
    \<and> (\<forall>g \<in> set (groups_from [] bm). group_ok g)
    \<and> container crc bs (snapshot_metadata s) (map section_frame (snapshot_sections crc s (groups_from [] bm)))"
proof -
  let ?kh = "so_key_hashes s" and ?bands = "p_bands (so_params s)"
  obtain bm where bm: "materialize_sorted_buckets ?kh ?bands = Ok bm" "buckets_represent bm (map_of ?kh)"
    using materialize_Ok [of ?kh ?bands] valid(2) config_bounds [OF valid(1)] by (auto simp: keys_valid_def)
  let ?keys = "\<lparr>sec_kind = Keys, sec_required = True, sec_payload = keys_payload (map fst ?kh)\<rparr>"
  let ?hashes = "\<lparr>sec_kind = BandHashes, sec_required = True, sec_payload = hashes_payload (map snd ?kh)\<rparr>"
  from enc obtain ss where ss: "append_bucket_sections crc ?kh ?bands [?keys, ?hashes] = Ok ss"
    and enc_file: "length ss \<le> 1024" "index_file_encode crc \<lparr>if_metadata = snapshot_metadata s, if_sections = ss\<rparr> = Ok bs"
    and size: "length (keys_payload (map fst ?kh)) \<le> 268435456" "length (hashes_payload (map snd ?kh)) \<le> 268435456"
    by (auto simp: encode_snapshot_def res_simps u32_try_from_Some index_metadata_new_Ok encode_keys_Ok encode_band_hashes_Ok
        section_new_Ok index_file_new_def snapshot_metadata_def)
  have groups: "ss = snapshot_sections crc s (groups_from [] bm)" "\<forall>g \<in> set (groups_from [] bm). group_ok g"
    using append_sections_groups [OF bm(1) ss] by (simp_all add: snapshot_sections_def)
  have "file_valid \<lparr>if_metadata = snapshot_metadata s, if_sections = ss\<rparr>"
    using metadata_valid_snapshot [OF valid(1)] enc_file(1) size groups(2)
    by (auto simp: file_valid_def groups(1) snapshot_sections_def bucket_section_def group_ok_def length_group_segment)
  then have cont: "container crc bs (snapshot_metadata s) (map section_frame ss)"
    using index_file_encode_valid [of "\<lparr>if_metadata = snapshot_metadata s, if_sections = ss\<rparr>" crc] enc_file(2) by auto
  have total: "member_total bm = length ?kh * ?bands" using materialize_total [OF bm(1)] by (simp add: member_total_def)
  have small: "member_total bm * 8 \<le> 268435448"
    using size(2) length_hashes_payload [OF keys_valid_rows [OF valid(2)]] by (simp add: total)
  have "length (snd b) < 4294967296" if "b \<in> set bm" for b
    using member_le_sum_list [of "length (snd b)" "map (\<lambda>b. length (snd b)) bm"] that small by (auto simp: member_total_def)
  then show ?thesis using bm(2) total groups cont small by (intro exI [of _ bm]) auto
qed

lemma build_encode_header_eq: "build_encode_header crc md n = encode_header crc md n"
proof -
  have "algorithm_raw a = algorithm_as_raw a" for a by (cases a) simp
  moreover have "scheme_raw x = signature_scheme_as_raw x" for x by (cases x) simp_all
  moreover have "codec_raw c = codec_id_as_raw c" for c by (cases c) simp_all
  ultimately show ?thesis by (simp add: build_encode_header_def encode_header_def header_fields_def Let_def FILE_MAGIC_def MAGIC_def)
qed

lemma section_kind_raw_eq: "section_kind_raw k = section_kind_as_raw k"
  by (cases k) simp_all

lemma frame_bytes_header:
  "unat n = length payload \<Longrightarrow> encode_section_header kind n (crc payload) @ payload = frame_bytes crc (section_frame \<lparr>sec_kind = kind, sec_required = True, sec_payload = payload\<rparr>)"
  by (simp add: encode_section_header_def frame_bytes_def section_frame_def section_kind_raw_eq) (metis of_unat_eq)

lemma read_exact_rest:
  "read_exact n r = Ok (bs, r') \<Longrightarrow> rest_of r = bs @ rest_of r' \<and> length bs = n \<and> rd_bytes r' = rd_bytes r"
  using append_take_drop_id [of n "drop (rd_pos r) (rd_bytes r)"]
  by (auto simp: read_exact_def res_simps same_file_def rest_of_def add.commute dest!: io_tick_Ok split: if_splits)

lemma copy_range_loop_Ok:
  "copy_range_loop remaining r w = Ok (r', w') \<Longrightarrow> wr_bytes w' = wr_bytes w @ take (unat remaining) (rest_of r) \<and> rd_bytes r' = rd_bytes r"
proof (induction remaining r w rule: copy_range_loop.induct)
  case (1 remaining r w)
  show ?case
  proof (cases "remaining = 0")
    case True
    then show ?thesis using "1.prems" by (subst (asm) copy_range_loop.simps) simp
  next
    case False
    define count where "count = unat (min remaining COPY_BUFFER_BYTES_U64)"
    obtain piece r1 w1 where read: "read_exact count r = Ok (piece, r1)" and wr: "write_all piece w = Ok w1"
      and loop: "copy_range_loop (remaining - of_nat count) r1 w1 = Ok (r', w')"
      using "1.prems" False by (subst (asm) copy_range_loop.simps) (auto simp: res_simps Let_def count_def)
    have "map_err BuildIo (read_exact count r) = Ok (piece, r1)" "map_err BuildIo (write_all piece w) = Ok w1" using read wr by simp_all
    note IH = "1.IH" [OF False count_def this(1) refl this(2) loop]
    have le: "count \<le> unat remaining" "unat (remaining - of_nat count) = unat remaining - count"
      unfolding count_def by (auto simp: min_def unat_sub word_le_nat_alt)
    show ?thesis using IH read_exact_rest [OF read] write_all_Ok [OF wr] le by (simp add: take_append)
  qed
qed

lemma io_copy_Ok: "io_copy r w = Ok w' \<Longrightarrow> wr_bytes w' = wr_bytes w @ rest_of r"
proof (induction r w rule: io_copy.induct)
  case (1 r w)
  obtain piece r1 where read: "buf_read 8192 r = Ok (piece, r1)" and rest: "if piece = [] then w' = w else \<exists>w1. write_all piece w = Ok w1 \<and> io_copy r1 w1 = Ok w'"
    using "1.prems" by (subst (asm) io_copy.simps) (auto simp: res_simps split: if_splits)
  show ?case
  proof (cases "piece = []")
    case True
    then show ?thesis using buf_read_Ok(3) [OF read] rest by simp
  next
    case False
    then obtain w1 where w1: "write_all piece w = Ok w1" "io_copy r1 w1 = Ok w'" using rest by auto
    have "map_err BuildIo (buf_read 8192 r) = Ok (piece, r1)" "map_err BuildIo (write_all piece w) = Ok w1" using read w1 by simp_all
    from "1.IH" [OF this(1) refl False this(2) w1(2)] show ?thesis using buf_read_Ok(1) [OF read] write_all_Ok [OF w1(1)] by simp
  qed
qed

lemma copy_range_loop_safe [panic_free]: "safe (copy_range_loop remaining r w)"
proof (induction remaining r w rule: copy_range_loop.induct)
  case (1 remaining r w)
  show ?case
  proof (cases "remaining = 0")
    case False
    define count where "count = unat (min remaining COPY_BUFFER_BYTES_U64)"
    have "safe (and_then (map_err BuildIo (read_exact count r)) (\<lambda>(piece, r). and_then (map_err BuildIo (write_all piece w)) (\<lambda>w.
        copy_range_loop (remaining - of_nat count) r w)))"
    proof (rule safe_steps [OF safe_map_err [OF read_exact_safe]])
      fix x
      assume x: "map_err BuildIo (read_exact count r) = Ok x"
      obtain piece r1 where p: "x = (piece, r1)" by (cases x)
      show "safe (case x of (piece, r) \<Rightarrow> and_then (map_err BuildIo (write_all piece w)) (\<lambda>w. copy_range_loop (remaining - of_nat count) r w))"
        unfolding p prod.case by (rule safe_steps [OF safe_map_err [OF write_all_safe]], rule "1.IH" [OF False count_def x p [symmetric]])
    qed
    then show ?thesis using False by (subst copy_range_loop.simps) (simp only: Let_def count_def if_False)
  qed (simp add: copy_range_loop.simps safe_def)
qed

lemma copy_framed_safe [panic_free]: "safe (copy_framed_source_section kind d r w)"
  unfolding copy_framed_source_section_def copy_file_range_def by (intro panic_free)

lemma io_copy_safe [panic_free]: "safe (io_copy r w)"
proof (induction r w rule: io_copy.induct)
  case (1 r w)
  have buf: "safe (buf_read n r)" for n unfolding buf_read_def Let_def by (intro panic_free)
  show ?case
  proof (subst io_copy.simps, rule safe_steps [OF safe_map_err [OF buf]])
    fix x
    assume x: "map_err BuildIo (buf_read 8192 r) = Ok x"
    obtain piece r1 where p: "x = (piece, r1)" by (cases x)
    show "safe (case x of (piece, r) \<Rightarrow> if piece = [] then Ok w else and_then (map_err BuildIo (write_all piece w)) (\<lambda>w. io_copy r w))"
    proof (cases "piece = []")
      case False
      then show ?thesis unfolding p prod.case if_not_P [OF False]
        by (intro safe_steps [OF safe_map_err [OF write_all_safe]] "1.IH" [OF x p [symmetric] False])
    qed (simp add: p safe_def)
  qed
qed

lemma copy_framed_Ok:
  assumes run: "copy_framed_source_section kind d r w = Ok (r', w')"
    and d: "describes crc layout (rd_bytes r) d \<lparr>sec_kind = kind, sec_required = True, sec_payload = payload\<rparr>"
  shows "wr_bytes w' = wr_bytes w @ frame_bytes crc (section_frame \<lparr>sec_kind = kind, sec_required = True, sec_payload = payload\<rparr>)" "rd_bytes r' = rd_bytes r"
proof -
  obtain w1 r1 where w1: "write_all (encode_section_header kind (sd_payload_length d) (sd_checksum d)) w = Ok w1"
    and r1: "seek_start (sd_payload_offset d) r = Ok r1" and loop: "copy_range_loop (sd_payload_length d) r1 w1 = Ok (r', w')"
    using run by (auto simp: copy_framed_source_section_def copy_file_range_def res_simps)
  have h: "section_holds layout d (rd_bytes r) payload" "sd_checksum d = crc payload" using d by (simp_all add: describes_def)
  then have "rest_of r1 = drop (unat (sd_payload_offset d)) (rd_bytes r)" using seek_start_Ok [OF r1] by (simp add: rest_of_def same_file_def)
  then have "take (unat (sd_payload_length d)) (rest_of r1) = payload" using h(1) by (simp add: section_holds_def)
  then show "wr_bytes w' = wr_bytes w @ frame_bytes crc (section_frame \<lparr>sec_kind = kind, sec_required = True, sec_payload = payload\<rparr>)" "rd_bytes r' = rd_bytes r"
    using copy_range_loop_Ok [OF loop] write_all_Ok [OF w1] seek_start_Ok [OF r1] h frame_bytes_header [of "sd_payload_length d" payload kind crc]
    by (simp_all add: section_holds_def same_file_def)
qed

section \<open>Writing the container\<close>

lemma copy_segment_runs:
  assumes seg: "segment_made crc d0 ws1 part g" and ok: "group_ok g" and ws1: "adds destination nonce ws ws1" and wf: "disk_wf (ws_disk ws)"
  shows "runs destination nonce ws (\<lambda>w' ws2. wr_bytes w' = wr_bytes w @ frame_bytes crc (section_frame (bucket_section crc g)) \<and> adds destination nonce ws1 ws2)
    (copy_segment part w ws1)"
  unfolding copy_segment_def
proof (rule runs_bind_pure [OF ws1], intro panic_free, goal_cases)
  case (1 w1)
  let ?payload = "segment crc (records_of g)"
  have made: "made d0 (sf_path part) ?payload ws1" using seg by (simp add: segment_made_def)
  have "length ?payload < usize_limit" using ok by (simp add: group_ok_def length_group_segment)
  then have "unat (sf_bytes part) = length ?payload" "sf_checksum part = crc ?payload" using seg by (simp_all add: segment_made_def unat_of_nat_u64)
  then have w1: "wr_bytes w1 @ ?payload = wr_bytes w @ frame_bytes crc (section_frame (bucket_section crc g))"
    using 1 frame_bytes_header [of "sf_bytes part" ?payload Buckets crc] by (auto simp: res_simps bucket_section_def dest!: write_all_Ok)
  show ?case
    by (rule runs_bind [OF open_made [OF made ws1 wf]], rule runs_pure, assumption, intro panic_free)
      (use w1 in \<open>auto simp: rest_of_def dest!: io_copy_Ok\<close>)
qed

lemma copy_segments_runs:
  assumes segs: "list_all2 (segment_made crc d0 ws1) segments gs" and ok: "\<forall>g \<in> set gs. group_ok g" and ws1: "adds destination nonce ws ws1" and wf: "disk_wf (ws_disk ws)"
  shows "runs destination nonce ws (\<lambda>w' ws2. wr_bytes w' = wr_bytes w @ concat (map (\<lambda>g. frame_bytes crc (section_frame (bucket_section crc g))) gs) \<and> adds destination nonce ws1 ws2)
    (st_foldl copy_segment segments w ws1)"
proof -
  let ?f = "\<lambda>g. frame_bytes crc (section_frame (bucket_section crc g))"
  let ?I = "\<lambda>done (w' :: writer) ws2. wr_bytes w' = wr_bytes w @ concat (map ?f (take (length done) gs)) \<and> adds destination nonce ws1 ws2"
  have len: "length segments = length gs" using segs by (rule list_all2_lengthD)
  have wf1: "disk_wf (ws_disk ws1)" by (rule adds_wf [OF ws1 wf])
  have "runs destination nonce ws (?I segments) (st_foldl copy_segment segments w ws1)"
  proof (rule runs_foldl [OF _ ws1])
    fix "done" part todo and v :: writer and ws2
    assume split: "segments = done @ part # todo" and I: "?I done v ws2" and ws2: "adds destination nonce ws ws2"
    let ?k = "length done"
    have k: "?k < length gs" "segments ! ?k = part" using split len by auto
    have "list_all2 (segment_made crc d0 ws2) segments gs" using segments_made_adds [OF segs conjunct2 [OF I] wf1] .
    then have seg: "segment_made crc d0 ws2 part (gs ! ?k)" using k len by (auto simp: list_all2_conv_all_nth)
    have g: "group_ok (gs ! ?k)" using ok k by simp
    show "runs destination nonce ws2 (\<lambda>y ws3. adds destination nonce ws2 ws3 \<longrightarrow> ?I (done @ [part]) y ws3) (copy_segment part v ws2)"
      by (rule runs_mono [OF copy_segment_runs [OF seg g adds_refl adds_wf [OF ws2 wf]]])
        (use I k adds_trans [OF conjunct2 [OF I]] in \<open>auto simp: take_Suc_conv_app_nth\<close>)
  qed simp
  then show ?thesis by (rule runs_mono) (use len in simp)
qed

lemma write_final_container_runs:
  assumes name: "file_name destination = Some name" and wf: "disk_wf (ws_disk ws)" and sec: "source_sections crc s layout dk dh file"
    and segs: "list_all2 (segment_made crc d0 ws) segments gs" and ok: "\<forall>g \<in> set gs. group_ok g"
    and bs: "container crc bs (snapshot_metadata s) (map section_frame (snapshot_sections crc s gs))"
    and p: "p = temp_path destination nonce ''commit''" and r: "rd_bytes r = file"
  shows "runs destination nonce ws (\<lambda>_ ws2. made (ws_disk ws) p bs ws2) (write_final_container crc layout dk dh segments p r (track p ws))"
proof -
  have len: "length segments = length gs" using segs by (rule list_all2_lengthD)
  have tracked: "adds destination nonce ws (track p ws)" unfolding p by (rule adds_track)
  have md: "fl_metadata layout = snapshot_metadata s"
    and dk: "describes crc layout file dk \<lparr>sec_kind = Keys, sec_required = True, sec_payload = keys_payload (map fst (so_key_hashes s))\<rparr>"
    and dh: "describes crc layout file dh \<lparr>sec_kind = BandHashes, sec_required = True, sec_payload = hashes_payload (map snd (so_key_hashes s))\<rparr>"
    using sec by (simp_all add: source_sections_def)
  show ?thesis
    unfolding write_final_container_def
  proof (rule runs_bind_pure [OF tracked safe_basic(3)], rule runs_bind_pure [OF tracked safe_basic(3)], goal_cases)
    case (1 n count)
    then have count: "count = of_nat (2 + length gs)" by (auto simp: res_simps checked_add_usize_def u32_try_from_Some len split: if_splits)
    show ?case
    proof (rule create_file [OF name p wf], goal_cases)
      case (1 i w ws1)
      note w = 1(1) and h = 1(2) and ws1 = 1(3)
      show ?case
      proof (rule runs_bind_pure [OF ws1], intro panic_free, rule runs_bind_pure [OF ws1], intro panic_free, goal_cases)
        case (1 w1 x)
        obtain r2 w2 where x: "x = (r2, w2)" by (cases x)
        have w1: "wr_bytes w1 = encode_header crc (snapshot_metadata s) count" using 1(1) w by (auto simp: res_simps md build_encode_header_eq dest!: write_all_Ok)
        note c2 = copy_framed_Ok [OF 1(2) [unfolded x], unfolded r, OF dk]
        show ?case
          unfolding x prod.case
        proof (rule runs_bind_pure [OF ws1], intro panic_free, goal_cases)
          case (1 y)
          obtain r3 w3 where y: "y = (r3, w3)" by (cases y)
          note c3 = copy_framed_Ok [OF 1 [unfolded y], unfolded c2(2), OF dh]
          show ?case
            unfolding y prod.case
          proof (rule runs_bind [OF copy_segments_runs [OF segments_made_adds [OF segs ws1 wf] ok ws1 wf]], goal_cases)
            case (1 w4 ws2)
            then have ws2: "adds destination nonce ws ws2" and step: "adds destination nonce ws1 ws2" and w4: "wr_bytes w4 = bs"
              using w1 c2(1) c3(1) count bs by (auto simp: container_def snapshot_sections_def comp_def)
            have h2: "holds (ws_disk ws) i p [] False ws2" by (rule holds_adds [OF h step adds_wf [OF ws1 wf]])
            show ?case by (rule finish_file [OF h2 ws2 wf], rule runs_Ok) (use w4 in auto)
          qed
        qed
      qed
    qed
  qed
qed

end
