(* ===== verification/Pari_BuildProof.thy ===== *)
theory Pari_BuildProof
  imports Pari_BuildOutput
begin

text \<open>
  The external builder as a whole: publication and rollback, the removal of the temporary files, the statistics, and the
  properties. The locale \<open>canonical_builder\<close> is the contract of a builder; the reference builder of \<open>pari-store-lazy\<close> and the external
  builder are its interpretations, so that what follows from the contract is proved once. A buffer that cannot be allocated is treated apart.
\<close>

section \<open>Publication\<close>

lemma build_sync_parent_reads: "build_sync_parent p fs = (r, fs') \<Longrightarrow> moves P fs fs' \<and> fs_disk fs' = fs_disk fs"
  using fs_sync_directory_reads [of "parent_dir p" fs r fs'] by (simp add: build_sync_parent_def)

lemma rollback_final_moves:
  assumes "rollback_final handle p identity fs = (r, fs')" and free: "dk_entries d0 (resolve p) = None"
  shows "moves (created (resolve p) bs d0) fs fs'"
proof -
  let ?P = "created (resolve p) bs d0"
  obtain r1 fs1 where one: "fs_handle_from_path handle p fs = (r1, fs1)" by fastforce
  obtain r2 fs2 where two: "fs_remove_file p fs1 = (r2, fs2)" by fastforce
  obtain r3 fs3 where three: "build_sync_parent p fs2 = (r3, fs3)" by fastforce
  have m: "moves ?P fs fs1" "moves ?P fs2 fs3" using fs_handle_from_path_reads [OF one] build_sync_parent_reads [OF three] by blast+
  have "moves ?P fs1 fs2" using two by (rule fs_remove_file_moves) (use created_remove_target free in blast)
  moreover have "fs' = fs1 \<or> fs' = fs2 \<or> fs' = fs3"
    using assms(1) one two three by (auto simp: rollback_final_def io_then_def split: sum.splits if_splits)
  ultimately show ?thesis using m moves_trans by metis
qed

lemma recover_after_publication_moves:
  assumes "recover_after_publication handle q p identity e fs = (e', fs')" and free: "dk_entries d0 (resolve p) = None"
    and rem: "\<And>d d'. created (resolve p) bs d0 d \<Longrightarrow> sys_remove_file q d = Inr ((), d') \<Longrightarrow> created (resolve p) bs d0 d'"
  shows "moves (created (resolve p) bs d0) fs fs'"
proof -
  obtain r1 fs1 where one: "rollback_final handle p identity fs = (r1, fs1)" by fastforce
  obtain r2 fs2 where two: "fs_remove_file q fs1 = (r2, fs2)" by fastforce
  have "moves (created (resolve p) bs d0) fs1 fs2" using two by (rule fs_remove_file_moves) (rule rem)
  moreover have "fs' = fs2"
    using assms(1) one two by (auto simp: recover_after_publication_def remove_file_if_exists_def split: prod.splits sum.splits if_splits)
  ultimately show ?thesis using rollback_final_moves [OF one free] moves_trans by metis
qed

lemma build_publish_creates:
  assumes run: "build_publish handle q p fs = (r, fs')" and s: "staged handle (resolve p) d0 bs (lazy_tf handle q i) (fs_disk fs)" and wf: "disk_wf d0"
    and t: "resolve p \<noteq> []"
  shows "moves (created (resolve p) bs d0) fs fs' \<and> r \<noteq> Panic \<and> (r = Ok () \<longrightarrow> published (resolve p) bs (fs_disk fs'))"
proof -
  let ?t = "resolve p" and ?P = "created (resolve p) bs d0" and ?tf = "lazy_tf handle q i"
  have q: "tf_path ?tf = q" by (simp add: lazy_tf_def)
  have rem: "\<And>d d'. ?P d \<Longrightarrow> sys_remove_file q d = Inr ((), d') \<Longrightarrow> ?P d'"
    using staged_created(2) [OF s wf t] by (auto simp: removal_keeps_def q)
  have other: "resolve q \<noteq> ?t" using s by (simp add: staged_def owned_def q)
  obtain r0 fs0 where zero: "fs_handle_from_path handle q fs = (r0, fs0)" by fastforce
  have m0: "moves ?P fs fs0" "fs_disk fs0 = fs_disk fs" using fs_handle_from_path_reads [OF zero] by blast+
  have s0: "staged handle ?t d0 bs ?tf (fs_disk fs0)" using s m0 by simp
  obtain r1 fs1 where one: "fs_hard_link q p fs0 = (r1, fs1)" by fastforce
  have m1: "moves ?P fs0 fs1"
    using one unfolding fs_hard_link_def by (rule fs_call_moves) (use hard_link_creates [OF s0 wf] in \<open>auto simp: created_def q m0\<close>)
  have m01: "moves ?P fs fs1" using m0(1) m1 moves_trans by blast
  consider (handle) e where "r0 = Inl e" | (refused) x e where "r0 = Inr x" "r1 = Inl e" | (linked) x u where "r0 = Inr x" "r1 = Inr u"
    by (cases r0; cases r1) blast+
  then show ?thesis
  proof cases
    case handle
    then show ?thesis using run zero m0 by (auto simp: build_publish_def build_publish_with_def)
  next
    case refused
    then show ?thesis using run zero one m01 by (auto simp: build_publish_def build_publish_with_def split: if_splits)
  next
    case linked
    then have "sys_hard_link q p (fs_disk fs0) = Inr (u, fs_disk fs1)" using fs_call_Inr one by (simp add: fs_hard_link_def)
    note l = hard_link_creates [OF s0 wf, unfolded q, OF this]
    obtain r2 fs2 where two: "fs_remove_file q fs1 = (r2, fs2)" by fastforce
    have m2: "moves ?P fs fs2" by (rule moves_trans [OF m01 fs_remove_file_moves [OF two rem]])
    have "moves (published ?t bs) fs1 fs2" using two by (rule fs_remove_file_moves) (use published_remove other in blast)
    then have pub: "published ?t bs (fs_disk fs2)" using l(3) by (rule moves_last)
    obtain r3 fs3 where three: "build_sync_parent p fs2 = (r3, fs3)" by fastforce
    have m3: "moves ?P fs fs3" "fs_disk fs3 = fs_disk fs2" using moves_trans [OF m2] build_sync_parent_reads [OF three] by blast+
    have fail: "moves ?P fs fs5" if "recover_after_publication handle q p x e fs4 = (e', fs5)" "moves ?P fs fs4" for e e' fs4 fs5
      by (rule moves_trans [OF that(2)], rule recover_after_publication_moves [OF that(1) l(2)]) (rule rem)
    show ?thesis
      using run zero one linked two three m3 pub fail [OF _ m2] fail [OF _ m3(1)]
      by (auto simp: build_publish_def build_publish_with_def split: sum.splits prod.splits)
  qed
qed

text \<open>Removing the temporary files keeps what existed and what was published.\<close>

lemma drop_temporaries_moves:
  assumes names: "temporary_names destination nonce ws" and name: "file_name destination = Some name" and wf: "disk_wf d0"
    and free: "\<forall>suffix. dk_entries d0 (resolve (temp_path destination nonce suffix)) = None"
  shows "moves (created (resolve destination) bs d0) (ws_fs ws) (drop_temporaries ws)" "moves (published (resolve destination) bs) (ws_fs ws) (drop_temporaries ws)"
proof -
  let ?t = "resolve destination"
  have drops: "moves P fs (fold (\<lambda>p fs. snd (fs_remove_file p fs)) ps fs)"
    if rem: "\<And>p d d'. p \<in> set ps \<Longrightarrow> P d \<Longrightarrow> sys_remove_file p d = Inr ((), d') \<Longrightarrow> P d'" for P ps fs
    using rem
  proof (induction ps arbitrary: fs)
    case (Cons p ps)
    have "moves P fs (snd (fs_remove_file p fs))" by (rule fs_remove_file_moves [of p fs "fst (fs_remove_file p fs)"]) (use Cons.prems in auto)
    moreover have "moves P (snd (fs_remove_file p fs)) (fold (\<lambda>p fs. snd (fs_remove_file p fs)) ps (snd (fs_remove_file p fs)))"
      by (rule Cons.IH) (use Cons.prems in \<open>meson list.set_intros(2)\<close>)
    ultimately show ?case by (simp add: moves_trans)
  qed simp
  have temp: "dk_entries d0 (resolve p) = None \<and> resolve p \<noteq> ?t \<and> resolve p \<noteq> []" if "p \<in> set (ws_temporary ws)" for p
    using that names free temp_path_beside [OF name] by (auto simp: temporary_names_def)
  have t: "?t \<noteq> []" using resolve_target [OF name] by simp
  show "moves (created ?t bs d0) (ws_fs ws) (drop_temporaries ws)"
    unfolding drop_temporaries_def
  proof (rule drops)
    fix p d d'
    assume p: "p \<in> set (ws_temporary ws)" and d: "created ?t bs d0 d" "sys_remove_file p d = Inr ((), d')"
    show "created ?t bs d0 d'"
      using created_removal [of ?t d0 "lazy_tf id p 0" bs] temp [OF p] wf t d by (simp add: owned_def lazy_tf_def removal_keeps_def)
  qed
  show "moves (published ?t bs) (ws_fs ws) (drop_temporaries ws)"
    unfolding drop_temporaries_def by (rule drops) (use temp published_remove in blast)
qed

section \<open>From the checked source to the destination\<close>

text \<open>The outcomes of a build that may publish \<open>bs\<close>: it keeps what existed and creates at most the destination.\<close>

definition completes :: "path \<Rightarrow> u128 \<Rightarrow> bytes \<Rightarrow> workspace \<Rightarrow> ('a \<Rightarrow> workspace \<Rightarrow> bool) \<Rightarrow> ('a, build_error) result \<times> workspace \<Rightarrow> bool" where
  "completes destination nonce bs ws Q outcome \<longleftrightarrow> evolves (created (resolve destination) bs (ws_disk ws)) (ws_fs ws) (ws_fs (snd outcome))
     \<and> temporary_names destination nonce (snd outcome) \<and> (case fst outcome of Ok x \<Rightarrow> Q x (snd outcome) | Err e \<Rightarrow> True | Panic \<Rightarrow> False)"

lemma adds_completes:
  assumes "adds destination nonce ws ws1" and "disk_wf (ws_disk ws)" and "temporary_names destination nonce ws"
  shows "evolves (created (resolve destination) bs (ws_disk ws)) (ws_fs ws) (ws_fs ws1) \<and> temporary_names destination nonce ws1"
  using assms by (auto simp: adds_def created_def elim: evolves_mono)

lemma completes_bind:
  assumes start: "disk_wf (ws_disk ws)" "temporary_names destination nonce ws" and m: "runs destination nonce ws Q m"
    and f: "\<And>x ws1. Q x ws1 \<Longrightarrow> adds destination nonce ws ws1 \<Longrightarrow> completes destination nonce bs ws R (f x ws1)"
  shows "completes destination nonce bs ws R (st_then m f)"
proof -
  obtain r ws1 where mr: "m = (r, ws1)" by (cases m)
  have a: "adds destination nonce ws ws1" using m by (simp add: runs_def mr)
  show ?thesis using m f [OF _ a] adds_completes [OF a start, of bs] by (cases r) (auto simp: mr runs_def completes_def)
qed

lemma completes_bind_pure:
  assumes start: "disk_wf (ws_disk ws)" "temporary_names destination nonce ws" and a: "adds destination nonce ws ws1" and r: "safe r"
    and f: "\<And>x. r = Ok x \<Longrightarrow> completes destination nonce bs ws R (f x ws1)"
  shows "completes destination nonce bs ws R (st_then (r, ws1) f)"
  by (rule completes_bind [OF start runs_pure [OF a r, where Q = "\<lambda>x ws2. r = Ok x \<and> ws2 = ws1"]]) (use f in auto)

lemma metadata_runs:
  assumes made: "made d0 p bs ws1" and ws1: "adds destination nonce ws ws1" and wf: "disk_wf (ws_disk ws)"
  shows "runs destination nonce ws (\<lambda>n ws2. n = of_nat (length bs) \<and> ws_disk ws2 = ws_disk ws1) (on_fs (fs_metadata_len p) ws1)"
proof -
  obtain i where i: "dk_entries (fs_disk (ws_fs ws1)) (resolve p) = Some (FileNode i)" "dk_data (fs_disk (ws_fs ws1)) i = bs"
    using made by (auto simp: made_def holds_def ws_disk_def)
  then have follow: "follow 40 p (fs_disk (ws_fs ws1)) = Inr (FileNode i)" by (subst follow.simps) simp
  show ?thesis
  proof (rule runs_on_fs [OF _ ws1 wf], intro conjI impI allI)
    fix r fs
    assume run: "fs_metadata_len p (ws_fs ws1) = (r, fs)" and k: "keeps (resolve destination) (ws_disk ws) (ws_disk ws1)"
    obtain r1 fs1 where one: "fs_call (sys_follow p) (ws_fs ws1) = (r1, fs1)" by fastforce
    have m: "moves P (ws_fs ws1) fs1 \<and> fs_disk fs1 = fs_disk (ws_fs ws1)" for P using fs_call_read [OF one] sys_follow_same by blast
    have "fs = fs1" using run one by (auto simp: fs_metadata_len_def io_then_def split: sum.splits)
    then show "evolves (keeps (resolve destination) (ws_disk ws)) (ws_fs ws1) fs" using m k moves_evolves by (fastforce simp: ws_disk_def)
  next
    fix r fs n
    assume run: "fs_metadata_len p (ws_fs ws1) = (r, fs)" and r: "r = Inr n"
    obtain r1 fs1 where one: "fs_call (sys_follow p) (ws_fs ws1) = (r1, fs1)" by fastforce
    have same: "fs_disk fs1 = fs_disk (ws_fs ws1)" using fs_call_read [OF one] sys_follow_same by blast
    obtain x where x1: "r1 = Inr x" using run one r by (cases r1) (simp_all add: fs_metadata_len_def io_then_def)
    have "(Inr (of_nat (length (dk_data (fs_disk fs1) (node_inode x)))), fs1) = (r, fs)"
      using run unfolding fs_metadata_len_def io_then_def one x1 by (simp only: prod.case sum.case)
    then have x: "n = of_nat (length (dk_data (fs_disk fs1) (node_inode x)))" "fs = fs1" unfolding r prod.inject sum.inject by (metis)+
    have "sys_follow p (fs_disk (ws_fs ws1)) = Inr (x, fs_disk fs1)" by (rule fs_call_Inr) (use one x1 in simp)
    then have "x = FileNode i" unfolding sys_follow_def follow by simp
    then show "n = of_nat (length bs)" using x(1) same i(2) by simp
    show "ws_disk (ws1\<lparr>ws_fs := fs\<rparr>) = ws_disk ws1" using x(2) same by (simp add: ws_disk_def)
  qed
qed

lemma build_publish_completes:
  assumes made: "made (ws_disk ws) q bs ws1" and q: "q = temp_path destination nonce suffix" and name: "file_name destination = Some name"
    and free: "dk_entries (ws_disk ws) (resolve q) = None" and ws1: "adds destination nonce ws ws1"
    and start: "disk_wf (ws_disk ws)" "temporary_names destination nonce ws"
    and R: "\<And>ws2. published (resolve destination) bs (ws_disk ws2) \<Longrightarrow> R x ws2"
  shows "completes destination nonce bs ws R (st_then (on_workspace (build_publish handle q destination) ws1) (\<lambda>_ ws. (Ok x, ws)))"
proof -
  obtain i where i: "holds (ws_disk ws) i q bs True ws1" using made by (auto simp: made_def)
  have keeps: "keeps (resolve destination) (ws_disk ws) (ws_disk ws1)" by (rule adds_keeps [OF ws1 start(1)])
  have staged: "staged handle (resolve destination) (ws_disk ws) bs (lazy_tf handle q i) (fs_disk (ws_fs ws1))"
    using i keeps free temp_path_beside [OF name, of nonce suffix, folded q] by (simp add: staged_def owned_def lazy_tf_def holds_def ws_disk_def)
  obtain r fs where run: "build_publish handle q destination (ws_fs ws1) = (r, fs)" by fastforce
  have t: "resolve destination \<noteq> []" using resolve_target [OF name] by simp
  note p = build_publish_creates [OF run staged start(1) t]
  have e1: "evolves (created (resolve destination) bs (ws_disk ws)) (ws_fs ws) (ws_fs ws1)" "temporary_names destination nonce ws1"
    using adds_completes [OF ws1 start] by auto
  have "created (resolve destination) bs (ws_disk ws) (fs_disk (ws_fs ws1))" using keeps by (simp add: created_def ws_disk_def)
  then have "evolves (created (resolve destination) bs (ws_disk ws)) (ws_fs ws) fs"
    using evolves_trans [OF e1(1)] moves_evolves p by blast
  then show ?thesis using p e1(2) R [of "ws1\<lparr>ws_fs := fs\<rparr>"] by (cases r) (auto simp: completes_def on_workspace_def run)
qed

section \<open>The whole build\<close>

text \<open>The statistics of a build of \<open>s\<close>: one record per band hash, full runs but for the last one, and the non-empty buckets.\<close>

definition exact_build_stats :: "build_options \<Rightarrow> store \<Rightarrow> bytes \<Rightarrow> build_stats" where
  "exact_build_stats options s bs =
     (let records = length (so_key_hashes s) * p_bands (so_params s)
      in \<lparr>bs_records = of_nat records, bs_spill_runs = div_ceil records (bo_max_buffer_records options),
          bs_peak_buffered_records = min (bo_max_buffer_records options) records,
          bs_buckets = of_nat (card {b. bucket_of (contents s) b \<noteq> {}}), bs_output_bytes = of_nat (length bs)\<rparr>)"

lemma length_source_records:
  assumes "keys_valid s" shows "length (concat (map item_records (so_key_hashes s))) = length (so_key_hashes s) * p_bands (so_params s)"
proof -
  have "length (concat (map item_records kh)) = length kh * n" if "\<forall>row \<in> set (map snd kh). length row = n" for kh n
    using that by (induction kh) (auto simp: item_records_def)
  then show ?thesis using keys_valid_rows [OF assms] by blast
qed

lemma represented_count:
  assumes "buckets_represent bm m" and "finite (dom m)" shows "length bm = card {b. bucket_of m b \<noteq> {}}"
proof -
  have "map_of bm b = None \<longleftrightarrow> bucket_of m b = {}" for b
    using assms(1) finite_bucket_of [OF assms(2), of b] by (auto simp: buckets_represent_def non_empty_def)
  then have "dom (map_of bm) = {b. bucket_of m b \<noteq> {}}" by (auto simp: dom_def)
  then have "card {b. bucket_of m b \<noteq> {}} = card (set (map fst bm))" by (simp add: dom_map_of_conv_image_fst)
  then show ?thesis using distinct_card [OF represented_buckets(1) [OF assms(1)]] by simp
qed

lemma build_container_completes:
  assumes name: "file_name destination = Some name" and start: "disk_wf (ws_disk ws)" "temporary_names destination nonce ws" and law: "hasher_law crc hasher"
    and sec: "source_sections crc s layout dk dh file" and r: "rd_bytes r = file" and valid: "config_valid s" "keys_valid s" and enc: "encode_snapshot crc s = Ok bs"
    and n: "0 < bo_max_buffer_records options" "24 * bo_max_buffer_records options \<le> 9223372036854775807"
    and free: "\<forall>suffix. dk_entries (ws_disk ws) (resolve (temp_path destination nonce suffix)) = None"
  shows "completes destination nonce bs ws (\<lambda>stats ws2. published (resolve destination) bs (ws_disk ws2) \<and> stats = exact_build_stats options s bs)
    (build_container crc hasher handle destination options (\<lambda>fs. (Ok (), fs)) nonce (layout, dk, dh, length (so_key_hashes s), p_bands (so_params s), r) ws)"
proof -
  let ?kh = "so_key_hashes s" and ?bands = "p_bands (so_params s)"
  let ?dp = "temp_path destination nonce ''descriptors''" and ?mp = "temp_path destination nonce ''memberships''" and ?tp = "temp_path destination nonce ''commit''"
  note wf = start(1)
  obtain bm where bm: "buckets_represent bm (map_of ?kh)" "member_total bm = length ?kh * ?bands" "8 * member_total bm < usize_limit"
      "\<forall>b \<in> set bm. length (snd b) < 4294967296" and ok: "\<forall>g \<in> set (groups_from [] bm). group_ok g"
    and cont: "container crc bs (snapshot_metadata s) (map section_frame (snapshot_sections crc s (groups_from [] bm)))"
    using encode_snapshot_plan [OF valid enc] by blast
  have short: "\<forall>item \<in> set ?kh. length (snd item) < 4294967296" using valid(2) config_bounds(5) [OF valid(1)] by (force simp: keys_valid_def)
  have kh: "bt_wf ?kh" using valid(2) by (simp add: keys_valid_def)
  have hook: "on_workspace (\<lambda>fs. (Ok (), fs)) ws1 = (Ok (), ws1)" for ws1 by (simp add: on_workspace_def)
  show ?thesis
    unfolding build_container_def Let_def prod.case
  proof (rule completes_bind [OF start spill_runs_runs [OF name wf sec valid n r]], goal_cases)
    case (1 x ws1)
    obtain run_paths r1 where x: "x = (run_paths, r1)" by (cases x)
    obtain rss where r1: "rd_bytes r1 = file" and rss: "run_files (ws_disk ws) run_paths rss ws1" "mset (concat rss) = mset (concat (map item_records ?kh))"
      and count: "length run_paths = div_ceil (length ?kh * ?bands) (bo_max_buffer_records options)"
      using 1(1) by (auto simp: x length_source_records [OF valid(2)])
    note ws1 = 1(2)
    have wf1: "disk_wf (ws_disk ws1)" by (rule adds_wf [OF ws1 wf])
    show ?case
      unfolding x prod.case
    proof (rule completes_bind_pure [OF start ws1], intro panic_free, goal_cases)
      case (1 records)
      have records: "records = of_nat (length ?kh * ?bands)"
        using 1 by (auto simp: res_simps u64_try_from_Some checked_mul_def split: if_splits)
      then have total: "unat records = length ?kh * ?bands" using unat_of_nat_u64 [of "length ?kh * ?bands"] bm(2,3) by (simp del: of_nat_mult)
      show ?case
      proof (rule completes_bind [OF start runs_start [OF ws1 merge_runs_runs [OF name wf1 law rss bm(1) kh short refl refl]]], goal_cases)
        case (1 bucket_count ws2)
        then have files: "made (ws_disk ws1) ?dp (concat (map draft_bytes (drafts crc 0 bm))) ws2" "made (ws_disk ws1) ?mp (membership_bytes bm) ws2"
          and buckets: "bucket_count = of_nat (length bm)" and ws2: "adds destination nonce ws ws2" by (auto dest: of_unat_eq)
        have wf2: "disk_wf (ws_disk ws2)" by (rule adds_wf [OF ws2 wf])
        show ?case
        proof (rule completes_bind [OF start runs_start [OF ws2 assemble_segments_runs [OF name wf2 law files bm(3,4) ok]]], goal_cases)
          case (1 segments ws3)
          note segs = 1(1) and ws3 = 1(2)
          have wf3: "disk_wf (ws_disk ws3)" by (rule adds_wf [OF ws3 wf])
          show ?case
          proof (rule completes_bind [OF start runs_start [OF ws3 write_final_container_runs [OF name wf3 sec segs ok cont refl r1]]], goal_cases)
            case (1 r4 ws4)
            then have made: "made (ws_disk ws) ?tp bs ws4" and ws4: "adds destination nonce ws ws4" using made_earlier [OF _ ws3 wf] by blast+
            show ?case
            proof (rule completes_bind [OF start metadata_runs [OF made ws4 wf]], goal_cases)
              case (1 len ws5)
              then have len: "len = of_nat (length bs)" and made: "made (ws_disk ws) ?tp bs ws5" and ws5: "adds destination nonce ws ws5"
                using made by (auto simp: made_def holds_def)
              have stats: "\<lparr>bs_records = records, bs_spill_runs = length run_paths, bs_peak_buffered_records = min (bo_max_buffer_records options) (unat records),
                  bs_buckets = bucket_count, bs_output_bytes = len\<rparr> = exact_build_stats options s bs"
                using represented_count [OF bm(1) finite_dom_map_of] unfolding total by (simp add: exact_build_stats_def Let_def records count buckets len)
              show ?case
                unfolding hook st_then_simps stats
                by (rule build_publish_completes [OF made refl name _ ws5 start]) (use free in auto)
            qed
          qed
        qed
      qed
    qed
  qed
qed

section \<open>The external builder writes the canonical container\<close>

lemma verify_loop_safe [panic_free]: "safe (verify_loop hasher remaining h r)"
proof (induction hasher remaining h r rule: verify_loop.induct)
  case (1 hasher remaining h r)
  show ?case
  proof (cases "remaining = 0")
    case False
    define chunk where "chunk = unat (min remaining COPY_BUFFER_BYTES_U64)"
    have "safe (and_then (map_err BuildIo (read_exact chunk r)) (\<lambda>(piece, r). verify_loop hasher (remaining - of_nat chunk) (hasher_update hasher piece h) r))"
    proof (rule safe_steps [OF safe_map_err [OF read_exact_safe]])
      fix x
      assume x: "map_err BuildIo (read_exact chunk r) = Ok x"
      obtain piece r1 where p: "x = (piece, r1)" by (cases x)
      show "safe (case x of (piece, r) \<Rightarrow> verify_loop hasher (remaining - of_nat chunk) (hasher_update hasher piece h) r)"
        unfolding p prod.case by (rule "1.IH" [OF False chunk_def x p [symmetric]])
    qed
    then show ?thesis using False by (subst verify_loop.simps) (simp only: Let_def chunk_def if_False)
  qed (simp add: verify_loop.simps safe_def)
qed

lemma check_source_safe: "safe (check_source crc hasher r)"
proof -
  have "safe (validate_source_metadata md)" for md unfolding validate_source_metadata_def by (intro panic_free) (auto intro: panic_free split: signature_scheme.split)
  moreover have "safe (source_section layout kind reason)" for layout kind reason
    unfolding source_section_def by (cases "filter (\<lambda>d. sd_kind d = kind) (fl_sections layout)") (auto intro!: panic_free)
  moreover have "safe (verify_section_streaming hasher d r)" "safe (read_record_count d r)" for d r
    unfolding verify_section_streaming_def read_record_count_def Let_def by (intro panic_free)+
  moreover have "safe (validate_source_lengths dk dh n bands)" for dk dh n bands unfolding validate_source_lengths_def by (intro panic_free)
  ultimately show ?thesis unfolding check_source_def Let_def by (intro panic_free)
qed

lemma fs_open_process: "fs_open p fs = (r, fs') \<Longrightarrow> fs_process_id fs' = fs_process_id fs"
proof -
  assume run: "fs_open p fs = (r, fs')"
  obtain r1 fs1 where one: "fs_call (sys_follow p) fs = (r1, fs1)" by fastforce
  have "moves (\<lambda>_. True) fs fs1" using fs_call_read [OF one] sys_follow_same by blast
  then have "fs_process_id fs1 = fs_process_id fs" by (simp add: moves_def)
  then show ?thesis using run one by (auto simp: fs_open_def io_then_def Let_def split: sum.splits node.splits if_splits)
qed

lemma build_external_outcome:
  assumes run: "build_external crc hasher handle clock source destination options fs = (r, fs')"
    and src: "follow 40 source (fs_disk fs) = Inr (FileNode i)" "source_of crc s (dk_data (fs_disk fs) i)"
    and valid: "config_valid s" "keys_valid s" and enc: "encode_snapshot crc s = Ok bs" and law: "hasher_law crc hasher" and wf: "disk_wf (fs_disk fs)"
    and name: "file_name destination = Some name" and n: "24 * bo_max_buffer_records options \<le> 9223372036854775807"
    and free: "\<forall>nanos suffix. clock = Some nanos \<longrightarrow> dk_entries (fs_disk fs) (resolve (temp_path destination (nanos XOR ucast (fs_process_id fs)) suffix)) = None"
  shows "evolves (created (resolve destination) bs (fs_disk fs)) fs fs' \<and> r \<noteq> Panic
    \<and> (\<forall>stats. r = Ok stats \<longrightarrow> published (resolve destination) bs (fs_disk fs') \<and> stats = exact_build_stats options s bs)"
proof -
  let ?t = "resolve destination" and ?P = "created (resolve destination) bs (fs_disk fs)"
  have P: "?P (fs_disk fs)" using keeps_refl [OF wf] by (simp add: created_def)
  obtain present fs1 where one: "fs_exists destination fs = (present, fs1)" by fastforce
  note m1 = fs_exists_reads [OF one, of ?P]
  obtain r2 fs2 where two: "fs_open source fs1 = (r2, fs2)" by fastforce
  note m2 = fs_open_reads [OF two, of ?P]
  have e1: "evolves ?P fs fs1" using m1 P moves_evolves by blast
  have e2: "evolves ?P fs fs2" using e1 m1 m2 P evolves_trans by metis
  have disk: "fs_disk fs2 = fs_disk fs" using m1 m2 by simp
  have pid: "fs_process_id fs2 = fs_process_id fs" using fs_open_process [OF two] m1 by (simp add: moves_def)
  note unf = build_external_def build_external_with_hook_def
  consider (zero) "bo_max_buffer_records options = 0" | (present) "bo_max_buffer_records options \<noteq> 0" present
    | (closed) e where "bo_max_buffer_records options \<noteq> 0" "\<not> present" "r2 = Inl e"
    | (opened) rd where "bo_max_buffer_records options \<noteq> 0" "\<not> present" "r2 = Inr rd"
    by (cases r2) blast+
  then show ?thesis
  proof cases
    case zero
    then show ?thesis using run by (auto simp: unf)
  next
    case present
    then show ?thesis using run one e1 by (auto simp: unf)
  next
    case closed
    then show ?thesis using run one two e2 by (auto simp: unf)
  next
    case (opened rd)
    have rd: "rd_bytes rd = dk_data (fs_disk fs) i" using m2 m1 src(1) opened(3) by auto
    have step: "(r, fs') = st_then (check_source crc hasher rd, fs2) (\<lambda>checked fs. st_then (build_nonce clock (fs_process_id fs), fs) (\<lambda>nonce fs.
        case build_container crc hasher handle destination options (\<lambda>fs. (Ok (), fs)) nonce checked \<lparr>ws_temporary = [], ws_fs = fs\<rparr> of
          (r, ws) \<Rightarrow> (r, drop_temporaries ws)))"
      using run one two opened by (simp add: unf)
    show ?thesis
    proof (cases "check_source crc hasher rd")
      case (Ok checked)
      obtain layout dk dh count bands rd' where c: "checked = (layout, dk, dh, count, bands, rd')" by (metis prod.exhaust)
      note cs = check_source_Ok [OF Ok [unfolded c] _ law valid, unfolded rd, OF src(2)]
      show ?thesis
      proof (cases clock)
        case None
        then show ?thesis using step Ok e2 by (simp add: build_nonce_def)
      next
        case (Some nanos)
        let ?nonce = "nanos XOR ucast (fs_process_id fs)" and ?ws = "\<lparr>ws_temporary = [], ws_fs = fs2\<rparr>"
        obtain r3 ws3 where three: "build_container crc hasher handle destination options (\<lambda>fs. (Ok (), fs)) ?nonce checked ?ws = (r3, ws3)" by fastforce
        have out: "r = r3" "fs' = drop_temporaries ws3" using step Ok Some three pid by (simp_all add: build_nonce_def)
        have ws: "ws_disk ?ws = fs_disk fs" "temporary_names destination ?nonce ?ws" by (simp_all add: ws_disk_def disk temporary_names_def)
        have "completes destination ?nonce bs ?ws (\<lambda>stats ws2. published ?t bs (ws_disk ws2) \<and> stats = exact_build_stats options s bs)
          (build_container crc hasher handle destination options (\<lambda>fs. (Ok (), fs)) ?nonce (layout, dk, dh, length (so_key_hashes s), p_bands (so_params s), rd') ?ws)"
          by (rule build_container_completes [OF name _ ws(2) law cs(1) cs(4) valid enc _ n]) (use opened(1) wf free Some ws(1) in auto)
        then have fin: "completes destination ?nonce bs ?ws (\<lambda>stats ws2. published ?t bs (ws_disk ws2) \<and> stats = exact_build_stats options s bs) (r3, ws3)"
          using three by (simp add: c cs(2,3))
        have names: "temporary_names destination ?nonce ws3" and e3: "evolves ?P fs2 (ws_fs ws3)" using fin ws(1) by (simp_all add: completes_def)
        have frees: "\<forall>suffix. dk_entries (fs_disk fs) (resolve (temp_path destination ?nonce suffix)) = None" using free Some by simp
        note drop = drop_temporaries_moves [OF names name wf frees, of bs]
        have "?P (ws_disk ws3)" using evolves_last [OF e3] P disk by (simp add: ws_disk_def)
        then have "evolves ?P fs fs'" using evolves_trans [OF evolves_trans [OF e2 e3]] moves_evolves [OF drop(1)] out(2) by (simp add: ws_disk_def)
        then show ?thesis using fin out drop(2) moves_last by (cases r3) (auto simp: completes_def ws_disk_def)
      qed
    next
      case (Err e)
      then show ?thesis using step e2 by simp
    qed (use check_source_safe [of crc hasher rd] in \<open>simp add: safe_def\<close>)
  qed
qed

section \<open>Properties\<close>

lemma created_moment:
  assumes "created (resolve p) bs d0 d" and "disk_wf d0"
  shows "(\<forall>q n. dk_entries d0 q = Some n \<longrightarrow> dk_entries d q = Some n) \<and> (\<forall>i < dk_next d0. dk_data d i = dk_data d0 i)
    \<and> (durable p d = durable p d0 \<or> durable p d = Some bs)"
proof -
  have "keeps [] d0 d" by (rule created_root [OF assms])
  moreover have "durable p d = durable p d0 \<or> durable p d = Some bs" using created_durable [OF assms] by blast
  ultimately show ?thesis by (auto simp: keeps_def)
qed

text \<open>A buffer of more than \<open>isize::MAX\<close> bytes cannot be allocated: the build then publishes nothing and changes no file.\<close>

lemma oversized_build:
  assumes run: "build_external crc hasher handle clock source destination options fs = (r, fs')" and big: "9223372036854775807 < 24 * bo_max_buffer_records options"
  shows "fs_disk fs' = fs_disk fs \<and> (P (fs_disk fs) \<longrightarrow> evolves P fs fs') \<and> r \<noteq> Ok stats"
proof -
  obtain present fs1 where one: "fs_exists destination fs = (present, fs1)" by fastforce
  obtain r2 fs2 where two: "fs_open source fs1 = (r2, fs2)" by fastforce
  have m: "fs_disk fs1 = fs_disk fs" "fs_disk fs2 = fs_disk fs" "P (fs_disk fs) \<Longrightarrow> evolves P fs fs1" "P (fs_disk fs) \<Longrightarrow> evolves P fs1 fs2"
    using fs_exists_reads [OF one, of P] fs_open_reads [OF two, of P] moves_evolves by auto
  have pass: "build_container crc hasher handle destination options hook nonce checked ws = (r', ws') \<Longrightarrow> ws' = ws \<and> r' \<noteq> Ok x" for hook nonce checked ws r' ws' x
    using big by (cases "checked_mul_usize (fst (snd (snd (snd (snd checked))))) 8")
      (auto simp: build_container_def spill_runs_def Let_def st_then_def split: prod.splits)
  have "fs' \<in> {fs, fs1, fs2} \<and> r \<noteq> Ok stats"
  proof (cases "bo_max_buffer_records options = 0 \<or> present \<or> (\<exists>e. r2 = Inl e)")
    case True
    then show ?thesis using run one two by (auto simp: build_external_def build_external_with_hook_def split: if_splits)
  next
    case False
    then obtain rd where rd: "r2 = Inr rd" by (cases r2) auto
    show ?thesis
    proof (cases "check_source crc hasher rd")
      case (Ok checked)
      show ?thesis
      proof (cases "build_nonce clock (fs_process_id fs2)")
        case nonce: (Ok nonce)
        obtain r3 ws3 where three: "build_container crc hasher handle destination options (\<lambda>fs. (Ok (), fs)) nonce checked \<lparr>ws_temporary = [], ws_fs = fs2\<rparr> = (r3, ws3)" by fastforce
        then have "r = r3" "fs' = drop_temporaries ws3"
          using run one two rd False Ok nonce by (auto simp: build_external_def build_external_with_hook_def)
        then show ?thesis using pass [OF three] by (simp add: drop_temporaries_def)
      qed (use run one two rd False Ok in \<open>auto simp: build_external_def build_external_with_hook_def\<close>)
    qed (use run one two rd False in \<open>auto simp: build_external_def build_external_with_hook_def\<close>)
  qed
  moreover have "P (fs_disk fs) \<Longrightarrow> evolves P fs fs2" using m(3,4) evolves_trans by blast
  ultimately show ?thesis using m by auto
qed

text \<open>C6: The external builder writes the canonical snapshot with any amount of memory. For every buffer size, a
  successful build from a file with the keys and band hashes of a store that fits the format leaves exactly the bytes the
  store itself would commit at the destination, and reports one record per band hash, as many runs as the buffer
  requires, the buffer that was filled, the non-empty buckets and the length of the file. Under every schedule of faults,
  provided that nothing has the name of one of its temporary files, everything that existed is unchanged at
  every moment and the destination is as before or complete; the build panics at most when its buffer exceeds the largest
  allocation, \<open>isize::MAX\<close> bytes at 24 for a record.\<close>

theorem external_build_canonical:
  assumes run: "build_external crc hasher handle clock source destination options fs = (r, fs')"
    and src: "follow 40 source (fs_disk fs) = Inr (FileNode i)" "source_of crc s (dk_data (fs_disk fs) i)"
    and valid: "config_valid s" "keys_valid s" and enc: "encode_snapshot crc s = Ok bs" and law: "hasher_law crc hasher" and wf: "disk_wf (fs_disk fs)"
    and name: "file_name destination = Some name"
    and free: "\<forall>nanos suffix. clock = Some nanos \<longrightarrow> dk_entries (fs_disk fs) (resolve (temp_path destination (nanos XOR ucast (fs_process_id fs)) suffix)) = None"
  shows "(\<exists>ds. fs_trace fs' = fs_trace fs @ ds \<and> fs_disk fs' = last (fs_disk fs # ds)
      \<and> (\<forall>d \<in> set ds. (\<forall>q n. dk_entries (fs_disk fs) q = Some n \<longrightarrow> dk_entries d q = Some n)
           \<and> (\<forall>i < dk_next (fs_disk fs). dk_data d i = dk_data (fs_disk fs) i)
           \<and> (durable destination d = durable destination (fs_disk fs) \<or> durable destination d = Some bs)))
    \<and> (r = Panic \<longrightarrow> 9223372036854775807 < 24 * bo_max_buffer_records options)
    \<and> (\<forall>stats. r = Ok stats \<longrightarrow> durable destination (fs_disk fs') = Some bs
         \<and> bs_records stats = of_nat (length (so_key_hashes s) * p_bands (so_params s))
         \<and> bs_spill_runs stats = div_ceil (length (so_key_hashes s) * p_bands (so_params s)) (bo_max_buffer_records options)
         \<and> bs_peak_buffered_records stats = min (bo_max_buffer_records options) (length (so_key_hashes s) * p_bands (so_params s))
         \<and> bs_buckets stats = of_nat (card {b. bucket_of (map_of (so_key_hashes s)) b \<noteq> {}})
         \<and> bs_output_bytes stats = of_nat (length bs))"
proof -
  have c: "evolves (created (resolve destination) bs (fs_disk fs)) fs fs' \<and> (r = Panic \<longrightarrow> 9223372036854775807 < 24 * bo_max_buffer_records options)
    \<and> (\<forall>stats. r = Ok stats \<longrightarrow> published (resolve destination) bs (fs_disk fs') \<and> stats = exact_build_stats options s bs)"
  proof (cases "24 * bo_max_buffer_records options \<le> 9223372036854775807")
    case True
    then show ?thesis using build_external_outcome [OF run src valid enc law wf name _ free] by simp
  next
    case False
    moreover have "created (resolve destination) bs (fs_disk fs) (fs_disk fs)" using keeps_refl [OF wf] by (simp add: created_def)
    ultimately show ?thesis using oversized_build [OF run] by auto
  qed
  obtain ds where "fs_trace fs' = fs_trace fs @ ds" "fs_disk fs' = last (fs_disk fs # ds)" "\<forall>d \<in> set ds. created (resolve destination) bs (fs_disk fs) d"
    using c unfolding evolves_def by blast
  moreover have "\<forall>stats. r = Ok stats \<longrightarrow> durable destination (fs_disk fs') = Some bs \<and> stats = exact_build_stats options s bs" using c durable_published by blast
  ultimately show ?thesis using c created_moment [OF _ wf] by (intro conjI exI [of _ ds] ballI allI impI) (auto simp: exact_build_stats_def Let_def)
qed

section \<open>Witness\<close>

theorem external_build_canonical_witness:
  "\<exists>bs. encode_snapshot example_crc example_store = Ok bs
     \<and> (case build_external example_crc example_hasher id (Some 5) [''index''] [''built''] \<lparr>bo_max_buffer_records = 3\<rparr> (source_fs bs) of (r, fs') \<Rightarrow>
          r \<noteq> Panic \<and> (\<forall>stats. r = Ok stats \<longrightarrow> durable [''built''] (fs_disk fs') = Some bs \<and> bs_spill_runs stats = 2 \<and> bs_peak_buffered_records stats = 3)
          \<and> (\<forall>d \<in> set (fs_trace fs'). dk_entries d [''index''] = Some (FileNode 1) \<and> dk_data d 1 = bs))"
proof -
  obtain bs where bs: "encode_snapshot example_crc example_store = Ok bs"
    using encode_snapshot_room [OF example_store_valid, of example_crc] by (auto simp: example_store_def store_empty_def)
  let ?o = "\<lparr>bo_max_buffer_records = 3\<rparr>"
  obtain r fs' where run: "build_external example_crc example_hasher id (Some 5) [''index''] [''built''] ?o (source_fs bs) = (r, fs')" by fastforce
  have src: "follow 40 [''index''] (fs_disk (source_fs bs)) = Inr (FileNode 1)" by (simp add: source_fs_def follow.simps resolve_def)
  have fields: "dk_data (fs_disk (source_fs bs)) 1 = bs" "fs_trace (source_fs bs) = []" "disk_wf (fs_disk (source_fs bs))"
    "dk_entries (fs_disk (source_fs bs)) [''index''] = Some (FileNode 1)" "1 < dk_next (fs_disk (source_fs bs))" "file_name [''built''] = Some ''built''"
    by (auto simp: source_fs_def example_fs_def disk_wf_def node_ok_def file_name_def)
  have source: "source_of example_crc example_store (dk_data (fs_disk (source_fs bs)) 1)" using snapshot_is_source [OF example_store_valid bs] fields(1) by simp
  have free: "\<forall>nanos suffix. Some 5 = Some nanos \<longrightarrow>
      dk_entries (fs_disk (source_fs bs)) (resolve (temp_path [''built''] (nanos XOR ucast (fs_process_id (source_fs bs))) suffix)) = None"
    by (simp add: source_fs_def temp_path_def file_name_def resolve_def)
  note canonical = external_build_canonical [OF run src source example_store_valid bs example_hasher_law fields(3,6) free]
  show ?thesis using canonical bs run fields by (intro exI [of _ bs]) (auto simp: example_store_def store_empty_def div_ceil_def)
qed

section \<open>What every builder promises\<close>

text \<open>A builder from a source file to a destination: it keeps everything that existed, and what it publishes is the
  snapshot of the store the source describes. The reference builder and the external builder keep this contract.\<close>

locale canonical_builder =
  fixes crc :: "bytes \<Rightarrow> u32" and build :: "path \<Rightarrow> path \<Rightarrow> fs \<Rightarrow> ('a, 'e) result \<times> fs" and ready :: "path \<Rightarrow> fs \<Rightarrow> bool"
  assumes builds: "build source destination fs = (r, fs') \<Longrightarrow> ready destination fs \<Longrightarrow> disk_wf (fs_disk fs)
    \<Longrightarrow> follow 40 source (fs_disk fs) = Inr (FileNode i) \<Longrightarrow> source_of crc s (dk_data (fs_disk fs) i)
    \<Longrightarrow> config_valid s \<Longrightarrow> keys_valid s \<Longrightarrow> encode_snapshot crc s = Ok bs
    \<Longrightarrow> evolves (created (resolve destination) bs (fs_disk fs)) fs fs' \<and> r \<noteq> Panic \<and> (\<forall>x. r = Ok x \<longrightarrow> published (resolve destination) bs (fs_disk fs'))"
begin

lemma builds_created:
  assumes "build source destination fs = (r, fs')" and "ready destination fs" and wf: "disk_wf (fs_disk fs)"
    and "follow 40 source (fs_disk fs) = Inr (FileNode i)" and "source_of crc s (dk_data (fs_disk fs) i)"
    and "config_valid s" and "keys_valid s" and "encode_snapshot crc s = Ok bs"
  shows "created (resolve destination) bs (fs_disk fs) (fs_disk fs')"
proof (rule evolves_last [of _ fs fs'])
  show "evolves (created (resolve destination) bs (fs_disk fs)) fs fs'" using builds [OF assms] by blast
  show "created (resolve destination) bs (fs_disk fs) (fs_disk fs)" using keeps_refl [OF wf] by (simp add: created_def)
qed

text \<open>Existing files survive a build, and what was built is a source of the same store.\<close>

lemma builds_keep:
  assumes "build source destination fs = (r, fs')" and "ready destination fs" and wf: "disk_wf (fs_disk fs)"
    and "follow 40 source (fs_disk fs) = Inr (FileNode i)" and "source_of crc s (dk_data (fs_disk fs) i)"
    and "config_valid s" and "keys_valid s" and "encode_snapshot crc s = Ok bs" and old: "durable p (fs_disk fs) = Some old"
  shows "durable p (fs_disk fs') = Some old"
proof -
  have k: "keeps [] (fs_disk fs) (fs_disk fs')" by (rule created_root [OF builds_created [OF assms(1-8)] wf])
  obtain j where j: "dk_entries (fs_disk fs) (resolve p) = Some (FileNode j)" "dk_synced (fs_disk fs) j" "dk_data (fs_disk fs) j = old"
    using old by (auto simp: durable_def split: option.splits node.splits if_splits)
  then have "j < dk_next (fs_disk fs)" using wf by (force simp: disk_wf_def node_ok_def)
  then show ?thesis using k j by (simp add: durable_def keeps_def)
qed

lemma builds_source:
  assumes "build source destination fs = (Ok x, fs')" and "ready destination fs" and "disk_wf (fs_disk fs)"
    and "follow 40 source (fs_disk fs) = Inr (FileNode i)" and "source_of crc s (dk_data (fs_disk fs) i)"
    and "config_valid s" and "keys_valid s" and "encode_snapshot crc s = Ok bs"
  shows "disk_wf (fs_disk fs') \<and> durable destination (fs_disk fs') = Some bs
    \<and> (\<exists>j. follow 40 destination (fs_disk fs') = Inr (FileNode j) \<and> source_of crc s (dk_data (fs_disk fs') j))"
proof -
  have pub: "published (resolve destination) bs (fs_disk fs')" using builds [OF assms] by blast
  then obtain j where j: "dk_entries (fs_disk fs') (resolve destination) = Some (FileNode j)" "dk_data (fs_disk fs') j = bs" by (auto simp: published_def)
  have "follow 40 destination (fs_disk fs') = Inr (FileNode j)" by (subst follow.simps) (simp add: j(1))
  then show ?thesis using pub j durable_published [OF pub] snapshot_is_source [OF assms(6-8)] by (auto simp: published_def)
qed

end

definition builder_ready :: "(bytes \<Rightarrow> u32) \<Rightarrow> 'c crc_hasher \<Rightarrow> path \<Rightarrow> bool" where
  "builder_ready crc hasher destination \<longleftrightarrow> hasher_law crc hasher \<and> (\<exists>name. file_name destination = Some name)"

definition external_ready :: "u128 option \<Rightarrow> build_options \<Rightarrow> path \<Rightarrow> fs \<Rightarrow> bool" where
  "external_ready clock options destination fs \<longleftrightarrow> 24 * bo_max_buffer_records options \<le> 9223372036854775807
     \<and> (\<forall>nanos suffix. clock = Some nanos \<longrightarrow> dk_entries (fs_disk fs) (resolve (temp_path destination (nanos XOR ucast (fs_process_id fs)) suffix)) = None)"

interpretation reference: canonical_builder crc "build_from_snapshot crc hasher handle" "\<lambda>destination fs. builder_ready crc hasher destination"
  for crc hasher handle
proof
  fix source destination fs r fs' i s bs
  assume run: "build_from_snapshot crc hasher handle source destination fs = (r, fs')" and ready: "builder_ready crc hasher destination"
    and wf: "disk_wf (fs_disk fs)" and src: "follow 40 source (fs_disk fs) = Inr (FileNode i)" "source_of crc s (dk_data (fs_disk fs) i)"
    and valid: "config_valid s" "keys_valid s" and enc: "encode_snapshot crc s = Ok bs"
  obtain name where law: "hasher_law crc hasher" and name: "file_name destination = Some name" using ready by (auto simp: builder_ready_def)
  let ?t = "s\<lparr>so_path := destination\<rparr>"
  have t: "so_path ?t = destination" "encode_snapshot crc ?t = Ok bs" using enc by (simp_all add: encode_snapshot_def)
  have "creating crc ?t d0 d \<Longrightarrow> created (resolve destination) bs d0 d" for d0 d
    using t by (auto simp: creating_def created_def)
  then show "evolves (created (resolve destination) bs (fs_disk fs)) fs fs' \<and> r \<noteq> Panic \<and> (\<forall>x. r = Ok x \<longrightarrow> published (resolve destination) bs (fs_disk fs'))"
    using build_outcome [OF run src valid law wf name] enc by (auto elim!: evolves_mono)
qed

interpretation external: canonical_builder crc "\<lambda>source destination. build_external crc hasher handle clock source destination options"
    "\<lambda>destination fs. builder_ready crc hasher destination \<and> external_ready clock options destination fs"
  for crc hasher handle clock options
proof
  fix source destination fs r fs' i s bs
  assume run: "build_external crc hasher handle clock source destination options fs = (r, fs')"
    and ready: "builder_ready crc hasher destination \<and> external_ready clock options destination fs"
    and wf: "disk_wf (fs_disk fs)" and src: "follow 40 source (fs_disk fs) = Inr (FileNode i)" "source_of crc s (dk_data (fs_disk fs) i)"
    and valid: "config_valid s" "keys_valid s" and enc: "encode_snapshot crc s = Ok bs"
  obtain name where law: "hasher_law crc hasher" and name: "file_name destination = Some name" using ready by (auto simp: builder_ready_def)
  note o = build_external_outcome [OF run src valid enc law wf name]
  have "evolves (created (resolve destination) bs (fs_disk fs)) fs fs' \<and> r \<noteq> Panic
    \<and> (\<forall>stats. r = Ok stats \<longrightarrow> published (resolve destination) bs (fs_disk fs') \<and> stats = exact_build_stats options s bs)"
    by (rule o) (use ready in \<open>unfold external_ready_def, blast+\<close>)
  then show "evolves (created (resolve destination) bs (fs_disk fs)) fs fs' \<and> r \<noteq> Panic \<and> (\<forall>x. r = Ok x \<longrightarrow> published (resolve destination) bs (fs_disk fs'))"
    by blast
qed

lemma reference_example:
  assumes bs: "encode_snapshot example_crc example_store = Ok bs"
  shows "\<exists>fs'. build_from_snapshot example_crc example_hasher id [''index''] [''lazy''] (source_fs bs) = (Ok (), fs')
    \<and> (\<forall>q. q \<noteq> [''index''] \<longrightarrow> q \<noteq> [''lazy''] \<longrightarrow> dk_entries (fs_disk fs') q = None) \<and> calm fs'"
proof -
  have lazy: "lazy_build_output example_crc example_hasher \<lparr>rd_bytes = bs, rd_pos = 0, rd_faults = []\<rparr> = Ok bs"
    using lazy_build_output_Ok [OF example_store_valid _ example_hasher_law, of "\<lparr>rd_bytes = bs, rd_pos = 0, rd_faults = []\<rparr>" bs]
      snapshot_is_source [OF example_store_valid bs] bs by simp
  note calls = fs_exists_def fs_open_def fs_create_new_def fs_write_all_def fs_sync_all_def fs_handle_from_file_def fs_hard_link_def fs_remove_file_def
    fs_sync_directory_def fs_call_def fs_step_def io_then_def lift_io_cases Let_def
  note systems = sys_follow_def follow.simps resolve_def sys_create_new_def is_dir_def append_data_def sys_sync_def sys_hard_link_def sys_remove_file_def
    file_name_def parent_dir_def
  show ?thesis
    by (simp add: build_from_snapshot_def atomic_create_def create_temporary_def create_temporary_loop.simps(2) [of 127, simplified] lazy_temporary_path_def
        publish_temporary_def sync_parent_def calm_def source_fs_def example_fs_def example_disk_def lazy calls systems)
qed

section \<open>Names that are taken\<close>

text \<open>A temporary name is tracked before its file is created. When another file already has the name of the next run, the run fails, and the
  removal of the temporary files deletes that file: the hypothesis on free names in the properties above is needed.\<close>

lemma foreign_temporary_removed:
  assumes p: "p = temp_path destination nonce (''run-'' @ decimal (length run_paths))" and name: "file_name destination = Some name"
    and ws: "ws_temporary ws = []" "fs_faults (ws_fs ws) = []" "is_dir (butlast (resolve p)) (ws_disk ws)" "dk_entries (ws_disk ws) (resolve p) = Some (FileNode i)"
    and run: "spill_one_run destination nonce buffer run_paths ws = (r, ws')"
  shows "r = Err (BuildIo IoAlreadyExists) \<and> dk_entries (fs_disk (drop_temporaries ws')) (resolve p) = None"
proof -
  have "fs_create_new p (ws_fs ws) = (Inl IoAlreadyExists, ws_fs ws)"
    using ws(2-4) by (simp add: fs_create_new_def fs_call_def sys_create_new_def ws_disk_def Let_def)
  then have "create_stream p (track p ws) = (Err (BuildIo IoAlreadyExists), track p ws)" by (simp add: create_stream_def on_fs_eq)
  then have out: "r = Err (BuildIo IoAlreadyExists)" "ws' = track p ws" using run by (auto simp: spill_one_run_def Let_def p)
  have "resolve p \<noteq> []" using temp_path_beside(2) [OF name] p by simp
  then have "\<not> is_dir (resolve p) (ws_disk ws)" using ws(4) by (simp add: is_dir_def)
  then have "fs_disk (snd (fs_remove_file p (ws_fs ws))) = (ws_disk ws)\<lparr>dk_entries := (dk_entries (ws_disk ws))(resolve p := None)\<rparr>"
    using ws(2,4) by (simp add: fs_remove_file_def fs_call_def sys_remove_file_def ws_disk_def fs_step_def Let_def)
  then show ?thesis using ws(1) out by (simp add: drop_temporaries_def track_def)
qed

end
