(* ===== verification/Pari_BuildLive.thy ===== *)
theory Pari_BuildLive
  imports Pari_BuildProof
begin

text \<open>
  The external builder succeeds. Whatever the faults, a build that returns has written the canonical container; here, when the file
  system delivers no fault, every step returns: readers and writers deliver what they are asked for, the names of the runs and segments are pairwise
  different, the counters do not overflow, the groups fit the container, the link is made, and no temporary file is left. The predicate \<open>succeeds\<close> states of a
  step that it returns a value, \<open>clear\<close> that the names it still has to create are free. The last section composes the two builders.
\<close>

section \<open>Streams without faults\<close>

lemma read_exact_healthy:
  "rd_faults r = [] \<Longrightarrow> rd_pos r + n \<le> length (rd_bytes r) \<Longrightarrow> read_exact n r = Ok (take n (drop (rd_pos r) (rd_bytes r)), r\<lparr>rd_pos := rd_pos r + n\<rparr>)"
  by (simp add: read_exact_def io_tick_healthy)

lemma verify_loop_healthy:
  "rd_faults r = [] \<Longrightarrow> rd_pos r + unat remaining \<le> length (rd_bytes r) \<Longrightarrow>
    \<exists>pieces. concat pieces = take (unat remaining) (drop (rd_pos r) (rd_bytes r))
      \<and> verify_loop hasher remaining h r = Ok (fold (hasher_update hasher) pieces h, r\<lparr>rd_pos := rd_pos r + unat remaining\<rparr>)"
proof (induction hasher remaining h r rule: verify_loop.induct)
  case (1 hasher remaining h r)
  show ?case
  proof (cases "remaining = 0")
    case True
    then show ?thesis by (intro exI [of _ "[]"]) (simp add: verify_loop.simps [of hasher 0])
  next
    case False
    define count where "count = unat (min remaining COPY_BUFFER_BYTES_U64)"
    note step = buffer_step [of remaining COPY_BUFFER_BYTES_U64, folded count_def]
    define piece where "piece = take count (drop (rd_pos r) (rd_bytes r))"
    define r1 where "r1 = r\<lparr>rd_pos := rd_pos r + count\<rparr>"
    have read: "read_exact count r = Ok (piece, r1)" using "1.prems" step False by (simp add: read_exact_healthy piece_def r1_def)
    then have m: "map_err BuildIo (read_exact count r) = Ok (piece, r1)" by simp
    have rem: "unat (remaining - of_nat count) = unat remaining - count" "count \<le> unat remaining" using step False by auto
    from "1.IH" [OF False count_def m refl] obtain pieces where p: "concat pieces = take (unat (remaining - of_nat count)) (drop (rd_pos r1) (rd_bytes r1))"
      "verify_loop hasher (remaining - of_nat count) (hasher_update hasher piece h) r1
        = Ok (fold (hasher_update hasher) pieces (hasher_update hasher piece h), r1\<lparr>rd_pos := rd_pos r1 + unat (remaining - of_nat count)\<rparr>)"
      using "1.prems" rem by (auto simp: r1_def)
    have "verify_loop hasher remaining h r = verify_loop hasher (remaining - of_nat count) (hasher_update hasher piece h) r1"
      using False by (subst verify_loop.simps) (simp add: Let_def count_def [symmetric] read)
    then show ?thesis
      using p rem take_add_drop [of count "rd_pos r" "rd_bytes r" "unat remaining - count"]
      by (intro exI [of _ "piece # pieces"]) (simp add: piece_def r1_def)
  qed
qed

lemma copy_range_loop_healthy:
  "rd_faults r = [] \<Longrightarrow> wr_faults w = [] \<Longrightarrow> rd_pos r + unat remaining \<le> length (rd_bytes r) \<Longrightarrow>
    \<exists>r' w'. copy_range_loop remaining r w = Ok (r', w') \<and> rd_faults r' = [] \<and> wr_faults w' = []"
proof (induction remaining r w rule: copy_range_loop.induct)
  case (1 remaining r w)
  show ?case
  proof (cases "remaining = 0")
    case True
    then show ?thesis using "1.prems" by (subst copy_range_loop.simps) simp
  next
    case False
    define count where "count = unat (min remaining COPY_BUFFER_BYTES_U64)"
    note step = buffer_step [of remaining COPY_BUFFER_BYTES_U64, folded count_def]
    define piece where "piece = take count (drop (rd_pos r) (rd_bytes r))"
    define r1 where "r1 = r\<lparr>rd_pos := rd_pos r + count\<rparr>"
    define w1 where "w1 = w\<lparr>wr_bytes := wr_bytes w @ piece\<rparr>"
    have io: "read_exact count r = Ok (piece, r1)" "write_all piece w = Ok w1"
      using "1.prems" step False by (simp_all add: read_exact_healthy write_all_healthy piece_def r1_def w1_def)
    then have m: "map_err BuildIo (read_exact count r) = Ok (piece, r1)" "map_err BuildIo (write_all piece w) = Ok w1" by simp_all
    have rem: "unat (remaining - of_nat count) = unat remaining - count" "count \<le> unat remaining" using step False by auto
    have "\<exists>r' w'. copy_range_loop (remaining - of_nat count) r1 w1 = Ok (r', w') \<and> rd_faults r' = [] \<and> wr_faults w' = []"
      using "1.IH" [OF False count_def m(1) refl m(2)] "1.prems" rem by (simp add: r1_def w1_def)
    then show ?thesis using False by (subst copy_range_loop.simps) (simp add: Let_def count_def [symmetric] io)
  qed
qed

lemma io_copy_healthy: "rd_faults r = [] \<Longrightarrow> wr_faults w = [] \<Longrightarrow> \<exists>w'. io_copy r w = Ok w' \<and> wr_faults w' = []"
proof (induction r w rule: io_copy.induct)
  case (1 r w)
  obtain piece r1 where read: "buf_read 8192 r = Ok (piece, r1)" using buf_read_healthy [OF "1.prems"(1)] by blast
  show ?case
  proof (cases "piece = []")
    case True
    then show ?thesis using read "1.prems" by (subst io_copy.simps) simp
  next
    case False
    have wr: "write_all piece w = Ok (w\<lparr>wr_bytes := wr_bytes w @ piece\<rparr>)" by (rule write_all_healthy [OF "1.prems"(2)])
    have m: "map_err BuildIo (buf_read 8192 r) = Ok (piece, r1)" "map_err BuildIo (write_all piece w) = Ok (w\<lparr>wr_bytes := wr_bytes w @ piece\<rparr>)" using read wr by simp_all
    have "\<exists>w'. io_copy r1 (w\<lparr>wr_bytes := wr_bytes w @ piece\<rparr>) = Ok w' \<and> wr_faults w' = []"
      using "1.IH" [OF m(1) refl False m(2)] buf_read_Ok(4) [OF read "1.prems"(1)] "1.prems"(2) by simp
    then show ?thesis using read wr False by (subst io_copy.simps) simp
  qed
qed

lemma write_spill_records_healthy: "wr_faults w = [] \<Longrightarrow> \<exists>w'. fold_result write_spill_record xs w = Ok w' \<and> wr_faults w' = []"
  by (induction xs arbitrary: w) (auto simp: write_spill_record_def write_all_healthy)

lemma finish_descriptor_healthy: "wr_faults w = [] \<Longrightarrow> \<exists>w'. finish_descriptor d w = Ok w' \<and> wr_faults w' = []"
  by (auto simp: finish_descriptor_def write_all_healthy)

lemma read_stream_healthy:
  assumes "rd_faults r = []" and "streams enc r xs" and "\<And>x. length (enc x) = width" and "0 < width"
  shows "\<exists>res r'. read_record width truncated [] r = Ok (res, r') \<and> rd_faults r' = []"
proof -
  have "width \<le> length (rest_of r) \<or> rest_of r = []" using assms by (cases xs) (auto simp: streams_def)
  then obtain res r' where "read_record width truncated [] r = Ok (res, r')" using read_record_healthy [OF assms(1), of width "[]" truncated] assms(4) by auto
  then show ?thesis using read_record_Ok [of width truncated "[]" r res r'] assms(1) by auto
qed

lemma record_readers_healthy:
  "rd_faults r = [] \<Longrightarrow> streams spill_bytes r xs \<Longrightarrow> \<exists>res r'. read_spill_record r = Ok (res, r') \<and> rd_faults r' = []"
  "rd_faults r = [] \<Longrightarrow> streams draft_bytes r ys \<Longrightarrow> \<exists>res r'. read_descriptor_optional r = Ok (res, r') \<and> rd_faults r' = []"
  using read_stream_healthy [of r spill_bytes xs 20 "''truncated spill record''"] read_stream_healthy [of r draft_bytes ys 28 "''truncated temporary descriptor''"]
  by (auto simp: read_spill_record_def read_descriptor_optional_def)

section \<open>The merge succeeds\<close>

definition healthy_streams :: "reader list \<Rightarrow> spill_record list list \<Rightarrow> bool" where
  "healthy_streams readers rss \<longleftrightarrow> list_all2 (streams spill_bytes) readers rss \<and> (\<forall>r \<in> set readers. rd_faults r = [])"

lemma prime_heap_healthy:
  assumes "healthy_streams readers rss"
  shows "\<exists>readers' heap. prime_heap readers = Ok (readers', heap) \<and> (\<forall>r \<in> set readers'. rd_faults r = [])"
proof -
  let ?f = "\<lambda>reader (primed, heap). and_then (read_spill_record reader) (\<lambda>(next_record, reader).
         Ok (primed @ [reader], heap_push next_record (length primed) heap))"
  have "\<exists>readers' heap. fold_result ?f readers (primed, h) = Ok (readers', heap) \<and> (\<forall>r \<in> set readers'. rd_faults r = [])"
    if "healthy_streams readers rss" "\<forall>r \<in> set primed. rd_faults r = []" for primed h
    using that
  proof (induction readers arbitrary: rss primed h)
    case (Cons r rs)
    then obtain run rss' where rss: "rss = run # rss'" "streams spill_bytes r run" "healthy_streams rs rss'" "rd_faults r = []"
      by (auto simp: healthy_streams_def list_all2_Cons1)
    obtain res r' where read: "read_spill_record r = Ok (res, r')" "rd_faults r' = []" using record_readers_healthy(1) [OF rss(4,2)] by blast
    then show ?case using Cons.IH [OF rss(3), of "primed @ [r']"] Cons.prems(2) by simp
  qed simp
  from this [of "[]" "[]"] show ?thesis using assms by (simp add: prime_heap_def)
qed

lemma merge_loop_fold:
  assumes "healthy_streams readers rss" and "heap_covers heap rss"
  shows "\<exists>out. sorted out \<and> mset out = remaining_records heap rss \<and> merge_loop hasher readers heap ms = fold_result (merge_member hasher) out ms"
  using assms
proof (induction hasher readers heap ms arbitrary: rss rule: merge_loop.induct)
  case (1 hasher readers ms)
  have "rss ! run = []" if "run < length rss" for run using "1.prems"(2) that by (auto simp: heap_covers_def)
  then have "concat rss = []" by (auto simp: in_set_conv_nth)
  then show ?case by (intro exI [of _ "[]"]) (simp add: remaining_records_def)
next
  case (2 hasher readers entry heap ms)
  let ?i = "he_run entry"
  have len: "length readers = length rss" using "2.prems"(1) by (auto simp: healthy_streams_def dest: list_all2_lengthD)
  have run: "?i < length rss" using "2.prems"(2) by (simp add: heap_covers_def)
  have str: "streams spill_bytes (readers ! ?i) (rss ! ?i)" "rd_faults (readers ! ?i) = []"
    using "2.prems"(1) run len by (simp_all add: healthy_streams_def list_all2_conv_all_nth)
  obtain next_record reader where read: "read_spill_record (readers ! ?i) = Ok (next_record, reader)" "rd_faults reader = []"
    using record_readers_healthy(1) [OF str(2,1)] by blast
  obtain rest where rest: "streams spill_bytes reader rest"
    "case rss ! ?i of [] \<Rightarrow> next_record = None \<and> rest = [] | x # ys \<Rightarrow> next_record = Some x \<and> rest = ys"
    using read_spill_record_Ok [OF read(1) str(1)] by (cases "rss ! ?i") auto
  note adv = heap_advance [OF "2.prems"(2) run rest(2)]
  have least: "\<forall>y \<in> set out. he_record entry \<le> y" if "mset out = remaining_records heap rss" for out
    using heap_least [OF "2.prems"(2)] that by (metis set_mset_mset)
  have streams': "healthy_streams (readers[?i := reader]) (rss[?i := rest])"
    using "2.prems"(1) rest(1) read(2) by (auto simp: healthy_streams_def intro: list_all2_update_cong dest: set_update_subset_insert [THEN subsetD])
  show ?case
  proof (cases "merge_member hasher (he_record entry) ms")
    case (Ok ms1)
    obtain out where out: "sorted out" "mset out = remaining_records heap rss"
      "merge_loop hasher (readers[?i := reader]) (heap_push next_record ?i heap) ms1 = fold_result (merge_member hasher) out ms1"
      using "2.IH" [OF Ok _ read(1) refl streams' adv(1)] len run by (auto simp: adv(2))
    then show ?thesis using Ok read(1) len run least [OF out(2)]
      by (intro exI [of _ "he_record entry # out"]) (auto simp: remaining_records_def merge_loop.simps(2))
  next
    case (Err e)
    obtain out where "mset out = remaining_records heap rss" using ex_mset by blast
    then have out: "sorted (sort out)" "mset (sort out) = remaining_records heap rss" by simp_all
    then show ?thesis using Err least [OF out(2)]
      by (intro exI [of _ "he_record entry # sort out"]) (auto simp: remaining_records_def merge_loop.simps(2))
  next
    case Panic
    then show ?thesis using merge_steps_safe(1) [of hasher "he_record entry" ms] by (simp add: safe_def)
  qed
qed

text \<open>Counters that stay below the number of merged records cannot overflow.\<close>

definition counters :: "nat \<Rightarrow> 'c merge_state \<Rightarrow> bool" where
  "counters k ms \<longleftrightarrow> unat (mg_buckets ms) \<le> k \<and> unat (mg_offset ms) + 8 * unat (mg_count ms) \<le> 8 * k
     \<and> wr_faults (mg_descriptors ms) = [] \<and> wr_faults (mg_memberships ms) = []"

lemma emit_descriptor_total:
  assumes "counters k ms" and "k < 4294967295"
  shows "\<exists>ms'. emit_descriptor hasher key ms = Ok ms' \<and> counters (k + 1) ms' \<and> mg_count ms' = mg_count ms \<and> mg_offset ms' = mg_offset ms
    \<and> unat (mg_offset ms') + 8 * unat (mg_count ms') \<le> 8 * k"
proof -
  obtain w where w: "finish_descriptor \<lparr>dd_key = key, dd_member_count = mg_count ms, dd_relative_offset = mg_offset ms,
       dd_checksum = hasher_finalize hasher (mg_hasher ms)\<rparr> (mg_descriptors ms) = Ok w" "wr_faults w = []"
    using finish_descriptor_healthy assms(1) by (fastforce simp: counters_def)
  have "checked_add (mg_buckets ms) 1 = Some (mg_buckets ms + 1)" using assms by (simp add: checked_add_def counters_def)
  moreover from checked_add_Some [OF this] have "unat (mg_buckets ms + 1) = unat (mg_buckets ms) + 1" by simp
  ultimately show ?thesis using w assms(1) by (simp add: emit_descriptor_def counters_def)
qed

lemma merge_member_total:
  assumes "counters k ms" and "k < 4294967295"
  shows "\<exists>ms'. merge_member hasher x ms = Ok ms' \<and> counters (k + 1) ms'"
proof -
  let ?b = "BucketKey (sr_band x) (sr_hash x)"
  have "\<exists>ms1. enter_group hasher ?b ms = Ok ms1 \<and> counters (k + 1) ms1 \<and> unat (mg_offset ms1) + 8 * unat (mg_count ms1) \<le> 8 * k"
  proof (cases "mg_key ms = Some ?b")
    case True
    then show ?thesis using assms(1) by (auto simp: enter_group_def counters_def)
  next
    case other: False
    show ?thesis
    proof (cases "mg_key ms")
      case None
      then show ?thesis using assms(1) by (auto simp: enter_group_def counters_def)
    next
      case (Some key)
      obtain ms1 where ms1: "emit_descriptor hasher key ms = Ok ms1" "counters (k + 1) ms1" "unat (mg_offset ms1) + 8 * unat (mg_count ms1) \<le> 8 * k"
        using emit_descriptor_total [OF assms, of hasher key] by blast
      have count: "unat (ucast (mg_count ms1) :: u64) = unat (mg_count ms1)" by (simp add: unsigned_ucast_eq take_bit_nat_eq_self unat_u32_less)
      obtain bytes where bytes: "checked_mul (ucast (mg_count ms1)) (8 :: u64) = Some bytes" using ms1(3) assms(2) count by (auto simp: checked_mul_def)
      have b: "unat bytes = 8 * unat (mg_count ms1)" using checked_mul_Some [OF bytes] count by simp
      obtain off where off: "checked_add (mg_offset ms1) bytes = Some off" using ms1(3) assms(2) b by (auto simp: checked_add_def)
      have "unat off \<le> 8 * k" using checked_add_Some [OF off] b ms1(3) by simp
      then show ?thesis using Some other ms1 bytes off by (auto simp: enter_group_def counters_def)
    qed
  qed
  then obtain ms1 where ms1: "enter_group hasher ?b ms = Ok ms1" "counters (k + 1) ms1" "unat (mg_offset ms1) + 8 * unat (mg_count ms1) \<le> 8 * k" by blast
  have "write_all (le64 (sr_key x)) (mg_memberships ms1) = Ok ((mg_memberships ms1)\<lparr>wr_bytes := wr_bytes (mg_memberships ms1) @ le64 (sr_key x)\<rparr>)"
    using ms1(2) by (intro write_all_healthy) (simp add: counters_def)
  moreover obtain n where n: "checked_add (mg_count ms1) 1 = Some n" using ms1(3) assms(2) by (auto simp: checked_add_def)
  ultimately show ?thesis using ms1 checked_add_Some [OF n] by (auto simp: merge_member_def Let_def counters_def)
qed

lemma merge_total:
  fixes hasher :: "'c crc_hasher"
  assumes "healthy_streams readers rss" and "\<forall>rs \<in> set rss. sorted rs" and "length (concat rss) < 4294967295" and "wr_faults w = []" "wr_faults v = []"
  shows "\<exists>readers' heap ms ms'. prime_heap readers = Ok (readers', heap) \<and> merge_loop hasher readers' heap (merge_start hasher w v) = Ok ms \<and> finish_merge hasher ms = Ok ms'"
proof -
  have str: "list_all2 (streams spill_bytes) readers rss" using assms(1) by (simp add: healthy_streams_def)
  obtain readers' heap where prime: "prime_heap readers = Ok (readers', heap)" "\<forall>r \<in> set readers'. rd_faults r = []"
    using prime_heap_healthy [OF assms(1)] by blast
  obtain rests where rests: "list_all2 (streams spill_bytes) readers' rests" "heap_covers heap rests" "remaining_records heap rests = mset (concat rss)"
    using prime_heap_Ok [OF prime(1) str assms(2)] by blast
  obtain out where out: "mset out = mset (concat rss)" "merge_loop hasher readers' heap (merge_start hasher w v) = fold_result (merge_member hasher) out (merge_start hasher w v)"
    using merge_loop_fold [of readers' rests heap hasher "merge_start hasher w v"] rests prime(2) by (auto simp: healthy_streams_def)
  have len: "length out = length (concat rss)" using out(1) by (metis size_mset)
  have "\<exists>ms. fold_result (merge_member hasher) out (merge_start hasher w v) = Ok ms \<and> counters (length out) ms"
  proof (rule fold_result_total)
    show "counters (length []) (merge_start hasher w v)" using assms(4,5) by (simp add: counters_def merge_start_def)
  next
    fix ys x zs and ms :: "'c merge_state"
    assume "out = ys @ x # zs" and "counters (length ys) ms"
    then show "\<exists>ms'. merge_member hasher x ms = Ok ms' \<and> counters (length (ys @ [x])) ms'"
      using merge_member_total [of "length ys" ms hasher x] assms(3) len by auto
  qed
  then obtain ms where ms: "merge_loop hasher readers' heap (merge_start hasher w v) = Ok ms" "counters (length out) ms" using out(2) by auto
  then obtain ms' where "finish_merge hasher ms = Ok ms'"
    using emit_descriptor_total [OF ms(2)] assms(3) len by (cases "mg_key ms") (fastforce simp: finish_merge_def)+
  then show ?thesis using prime(1) ms(1) by blast
qed

section \<open>The groups are read\<close>

lemma take_group_healthy:
  assumes "pending_streams pending r ds" and "rd_faults r = []" and "estimated + (\<Sum>d\<leftarrow>ds. 32 + 8 * unat (dd_member_count d)) < usize_limit"
  shows "\<exists>taken' pending' r'. take_group taken estimated pending r = Ok (taken', pending', r') \<and> rd_faults r' = []"
  using assms
proof (induction ds arbitrary: taken estimated pending r)
  case Nil
  then show ?case by (auto simp: pending_streams_def)
next
  case (Cons d ds)
  let ?c = "32 + 8 * unat (dd_member_count d)"
  have p: "pending = Some d" "streams draft_bytes r ds" using Cons.prems(1) by (auto simp: pending_streams_def)
  have size: "bucket_record_size (unat (dd_member_count d)) = Ok ?c" using Cons.prems(3) by (simp add: bucket_record_size_Ok)
  have add: "checked_add_usize estimated ?c = Some (estimated + ?c)" using Cons.prems(3) by (simp add: checked_add_usize_def)
  obtain res r1 where read: "read_descriptor_optional r = Ok (res, r1)" "rd_faults r1 = []" using record_readers_healthy(2) [OF Cons.prems(2) p(2)] by blast
  have "\<exists>taken' pending' r'. take_group (taken @ [d]) (estimated + ?c) res r1 = Ok (taken', pending', r') \<and> rd_faults r' = []"
    by (rule Cons.IH [OF read_pending [OF read(1) p(2)] read(2)]) (use Cons.prems(3) in simp)
  then show ?case using read Cons.prems(2) by (auto simp: p(1) take_group.simps(2) size add)
qed

section \<open>Names of temporary files\<close>

lemma digit_inj:
  assumes "a < 10" and "b < 10" and "digit a = digit b" shows "a = b"
proof -
  have "distinct ''0123456789abcdef''" by simp
  then show ?thesis using assms nth_eq_iff_index_eq [of "''0123456789abcdef''" a b] by (simp add: digit_def)
qed

lemma decimal_inj: "decimal m = decimal n \<Longrightarrow> m = n"
proof (induction m arbitrary: n rule: decimal.induct)
  case (1 m)
  have last: "last (decimal k) = digit (k mod 10)" for k by (subst decimal.simps) simp
  have short: "butlast (decimal k) = (if k < 10 then [] else decimal (k div 10))" for k by (subst decimal.simps) simp
  have ne: "decimal k \<noteq> []" for k by (subst decimal.simps) simp
  have "m mod 10 = n mod 10" using last [of m] last [of n] "1.prems" digit_inj [of "m mod 10" "n mod 10"] by simp
  moreover have "m div 10 = n div 10"
  proof (cases "m < 10")
    case True
    then have "butlast (decimal n) = []" using short [of m] "1.prems" by simp
    then have "n < 10" using short [of n] ne [of "n div 10"] by (simp split: if_splits)
    then show ?thesis using True by simp
  next
    case False
    then have "decimal (m div 10) = butlast (decimal n)" using short [of m] "1.prems" by simp
    then have "decimal (m div 10) = decimal (n div 10)" using short [of n] ne [of "m div 10"] by (simp split: if_splits)
    then show ?thesis by (rule "1.IH" [OF False])
  qed
  ultimately show ?case by (metis div_mult_mod_eq)
qed

lemma temp_path_resolve:
  assumes "file_name destination = Some name"
  shows "resolve (temp_path destination nonce suffix) = butlast (resolve destination) @ [''.'' @ name @ ''.'' @ hex_digits 32 (unat nonce) @ ''.'' @ suffix @ ''.tmp'']"
  using assms resolve_target [OF assms] by (simp add: temp_path_def) (simp add: resolve_def)

lemma temp_path_inj:
  assumes "file_name destination = Some name" and "resolve (temp_path destination nonce u) = resolve (temp_path destination nonce v)" shows "u = v"
  using assms(2) by (simp add: temp_path_resolve [OF assms(1)])

section \<open>Steps that succeed\<close>

text \<open>A workspace with no faults ahead, whose directory exists, and in which at most the temporary names with a suffix in \<open>S\<close> are taken, by
  files that are tracked.\<close>

definition clear :: "path \<Rightarrow> u128 \<Rightarrow> string set \<Rightarrow> workspace \<Rightarrow> bool" where
  "clear destination nonce S ws \<longleftrightarrow> calm (ws_fs ws) \<and> is_dir (butlast (resolve destination)) (ws_disk ws)
     \<and> (\<forall>suffix x. dk_entries (ws_disk ws) (resolve (temp_path destination nonce suffix)) = Some x
           \<longrightarrow> suffix \<in> S \<and> temp_path destination nonce suffix \<in> set (ws_temporary ws) \<and> (\<exists>i. x = FileNode i))"

definition succeeds :: "('a \<Rightarrow> 's \<Rightarrow> bool) \<Rightarrow> ('a, 'e) result \<times> 's \<Rightarrow> bool" where
  "succeeds Q m \<longleftrightarrow> (\<exists>x s. m = (Ok x, s) \<and> Q x s)"

lemma succeedsI: "m = (Ok x, s) \<Longrightarrow> Q x s \<Longrightarrow> succeeds Q m"
  by (auto simp: succeeds_def)

lemma succeeds_bind: "succeeds Q m \<Longrightarrow> (\<And>x s. m = (Ok x, s) \<Longrightarrow> Q x s \<Longrightarrow> succeeds R (f x s)) \<Longrightarrow> succeeds R (st_then m f)"
  by (auto simp: succeeds_def)

lemma succeeds_pure: "r = Ok x \<Longrightarrow> succeeds R (f x s) \<Longrightarrow> succeeds R (st_then (r, s) f)"
  by simp

lemma succeeds_foldl:
  assumes "I [] x s" and step: "\<And>done a todo x s. as = done @ a # todo \<Longrightarrow> I done x s \<Longrightarrow> succeeds (I (done @ [a])) (f a x s)"
  shows "succeeds (I as) (st_foldl f as x s)"
proof -
  have "succeeds (I as) (st_foldl f todo x s)" if "as = done @ todo" "I done x s" for "done" todo x s
    using that
  proof (induction todo arbitrary: "done" x s)
    case (Cons a todo)
    show ?case unfolding st_foldl.simps
      by (rule succeeds_bind [OF step [OF Cons.prems]], rule Cons.IH [of "done @ [a]"]) (use Cons.prems(1) in simp_all)
  qed (simp add: succeeds_def)
  then show ?thesis using assms(1) by (metis append_Nil)
qed

lemma runs_succeeds: "runs destination nonce ws Q m \<Longrightarrow> m = (Ok x, ws') \<Longrightarrow> Q x ws' \<and> adds destination nonce ws ws'"
  by (simp add: runs_def)

lemma track_temporary [simp]: "ws_temporary (track p ws) = ws_temporary ws @ [p]"
  by (simp add: track_def)

lemma clear_track [simp]: "clear destination nonce S ws \<Longrightarrow> clear destination nonce S (track p ws)"
  by (auto simp: clear_def)

lemma clear_mono: "clear destination nonce S ws \<Longrightarrow> S \<subseteq> T \<Longrightarrow> clear destination nonce T ws"
  by (auto simp: clear_def)

lemma create_stream_succeeds:
  assumes name: "file_name destination = Some name" and p: "p = temp_path destination nonce u" and c: "clear destination nonce S ws" and u: "u \<notin> S"
    and tracked: "p \<in> set (ws_temporary ws)"
  shows "succeeds (\<lambda>(i, w) ws'. wr_faults w = [] \<and> clear destination nonce (insert u S) ws' \<and> ws_temporary ws' = ws_temporary ws) (create_stream p ws)"
proof -
  let ?d = "ws_disk ws"
  have dir: "is_dir (butlast (resolve p)) ?d" and calm: "calm (ws_fs ws)" using c by (simp_all add: clear_def p temp_path_resolve [OF name])
  have free: "dk_entries ?d (resolve p) = None" using c u by (cases "dk_entries ?d (resolve p)") (auto simp: clear_def p)
  obtain d' where new: "sys_create_new p ?d = Inr (dk_next ?d, d')" and d': "dk_entries d' = (dk_entries ?d)(resolve p \<mapsto> FileNode (dk_next ?d))"
    using dir free by (simp add: sys_create_new_def Let_def)
  have call: "fs_create_new p (ws_fs ws) = (Inr (dk_next ?d), fs_step d' (ws_fs ws))"
    using new calm by (simp add: fs_create_new_def calm_call ws_disk_def)
  have "is_dir (butlast (resolve destination)) d'" using c free by (auto simp: clear_def is_dir_def d' split: option.splits node.splits)
  moreover have "v \<in> insert u S \<and> temp_path destination nonce v \<in> set (ws_temporary ws) \<and> (\<exists>i. x = FileNode i)"
    if "dk_entries d' (resolve (temp_path destination nonce v)) = Some x" for v x
  proof (cases "v = u")
    case True
    then show ?thesis using that tracked by (auto simp: d' p)
  next
    case False
    then have "resolve (temp_path destination nonce v) \<noteq> resolve p" using temp_path_inj [OF name, of nonce v u] by (auto simp: p)
    then show ?thesis using that c by (auto simp: clear_def d')
  qed
  ultimately show ?thesis using call calm
    by (auto simp: create_stream_def on_fs_eq Let_def succeeds_def clear_def calm_def ws_disk_def fs_step_def)
qed

lemma flush_stream_succeeds: "clear destination nonce S ws \<Longrightarrow> succeeds (\<lambda>_ ws'. clear destination nonce S ws') (flush_stream i w ws)"
  by (auto simp: flush_stream_def on_fs_eq calm_write clear_def succeeds_def ws_disk_def fs_step_def append_data_def is_dir_def calm_def)

lemma sync_stream_succeeds: "clear destination nonce S ws \<Longrightarrow> succeeds (\<lambda>_ ws'. clear destination nonce S ws') (sync_stream i ws)"
  by (auto simp: sync_stream_def on_fs_eq fs_sync_all_def sys_sync_def calm_call clear_def succeeds_def ws_disk_def fs_step_def is_dir_def calm_def)

lemma open_succeeds:
  assumes "clear destination nonce S ws" and "made d0 p bs ws"
  shows "succeeds (\<lambda>r ws'. rd_faults r = [] \<and> ws_disk ws' = ws_disk ws \<and> ws_temporary ws' = ws_temporary ws \<and> clear destination nonce S ws') (on_fs (fs_open p) ws)"
proof -
  obtain i where i: "dk_entries (fs_disk (ws_fs ws)) (resolve p) = Some (FileNode i)" using assms(2) by (auto simp: made_def holds_def ws_disk_def)
  then have "follow 40 p (fs_disk (ws_fs ws)) = Inr (FileNode i)" by (subst follow.simps) simp
  then have "sys_follow p (fs_disk (ws_fs ws)) = Inr (FileNode i, fs_disk (ws_fs ws))" by (simp add: sys_follow_def)
  then show ?thesis using assms(1)
    by (auto simp: on_fs_eq fs_open_def io_then_def calm_call clear_def succeeds_def ws_disk_def fs_step_def calm_def)
qed

lemma finish_succeeds:
  assumes "clear destination nonce S ws" and "\<And>ws'. clear destination nonce S ws' \<Longrightarrow> succeeds R (g ws')"
  shows "succeeds R (st_then (flush_stream i w ws) (\<lambda>_ ws. st_then (sync_stream i ws) (\<lambda>_ ws. g ws)))"
  by (rule succeeds_bind [OF flush_stream_succeeds [OF assms(1)]], rule succeeds_bind [OF sync_stream_succeeds], assumption, rule assms(2))

section \<open>Spilling and merging succeed\<close>

definition run_names :: "nat \<Rightarrow> string set" where
  "run_names k = {''run-'' @ decimal j |j. j < k}"

lemma run_names_Suc: "insert (''run-'' @ decimal k) (run_names k) = run_names (Suc k)"
  by (auto simp: run_names_def less_Suc_eq)

lemma run_names_new: "''run-'' @ decimal k \<notin> run_names k"
  by (auto simp: run_names_def dest: decimal_inj)

lemma spill_one_run_succeeds:
  assumes name: "file_name destination = Some name" and c: "clear destination nonce (run_names (length run_paths)) ws"
  shows "succeeds (\<lambda>st ws'. clear destination nonce (run_names (length (snd st))) ws') (spill_one_run destination nonce buffer run_paths ws)"
  unfolding spill_one_run_def Let_def
proof (rule succeeds_bind [OF create_stream_succeeds [OF name refl _ run_names_new]], goal_cases)
  case (3 x ws1)
  obtain i w where x: "x = (i, w)" by (cases x)
  have w: "wr_faults w = []" and c1: "clear destination nonce (run_names (Suc (length run_paths))) ws1" using 3 unfolding x run_names_Suc by auto
  obtain w' where "fold_result write_spill_record (sort buffer) w = Ok w'" using write_spill_records_healthy [OF w] by blast
  then show ?case unfolding x prod.case by (intro succeeds_pure finish_succeeds [OF c1]) (auto simp: succeeds_def)
qed (use c in simp_all)

lemma push_record_succeeds:
  assumes name: "file_name destination = Some name" and c: "clear destination nonce (run_names (length (snd state))) ws" and x: "spill_record_of key entry = Ok x"
  shows "succeeds (\<lambda>st ws'. clear destination nonce (run_names (length (snd st))) ws') (push_record destination nonce n key entry state ws)"
proof -
  obtain buffer run_paths where s: "state = (buffer, run_paths)" by (cases state)
  have c: "clear destination nonce (run_names (length run_paths)) ws" using c by (simp add: s)
  show ?thesis
  proof (cases "length (buffer @ [x]) = n")
    case True
    then show ?thesis using spill_one_run_succeeds [OF name c, of "buffer @ [x]"] by (simp add: push_record_def s x Let_def)
  next
    case False
    then show ?thesis using c by (simp add: push_record_def s x Let_def succeeds_def)
  qed
qed

lemma field_total:
  assumes h: "section_holds layout d file p" and fits: "8 + index * w + width \<le> length p" and r: "rd_bytes r = file" "rd_faults r = []"
  shows "\<exists>q bs r'. field_position d w index = Ok q \<and> read_field q width r = Ok (bs, r') \<and> rd_faults r' = [] \<and> rd_bytes r' = file"
proof -
  let ?off = "index * w + 8"
  have lim: "unat (sd_payload_offset d) + (?off + width) \<le> length file" "length file < usize_limit" using h fits by (auto simp: section_holds_def)
  then have off: "?off < usize_limit" by simp
  have "unat (of_nat ?off :: u64) = ?off" by (rule unat_of_nat_u64 [OF off])
  then have "checked_add (sd_payload_offset d) (of_nat ?off) = Some (sd_payload_offset d + of_nat ?off)" using lim by (simp add: checked_add_def del: of_nat_add of_nat_mult)
  then have q: "field_position d w index = Ok (sd_payload_offset d + of_nat ?off)"
    using off by (simp add: field_position_def checked_mul_usize_def checked_add_usize_def u64_try_from_def del: of_nat_add of_nat_mult)
  note pos = field_position_Ok [OF q]
  show ?thesis using q pos lim r by (simp add: read_field_def seek_start_healthy read_exact_healthy)
qed

lemma read_item_total:
  assumes sec: "source_sections crc s layout dk dh file" and valid: "keys_valid s" and item: "item < length (so_key_hashes s)" and r: "rd_bytes r = file" "rd_faults r = []"
  shows "\<exists>x r'. read_item dk dh (p_bands (so_params s) * 8) item r = Ok (x, r') \<and> rd_faults r' = []"
proof -
  let ?kh = "so_key_hashes s" and ?w = "p_bands (so_params s) * 8"
  note hold = source_sections_hold [OF sec]
  have fits1: "8 + item * 8 + 8 \<le> length (keys_payload (map fst ?kh))" using item by simp
  have "(item + 1) * ?w \<le> length ?kh * ?w" using item by (intro mult_le_mono) auto
  then have fits2: "8 + item * ?w + ?w \<le> length (hashes_payload (map snd ?kh))"
    using length_hashes_payload [OF keys_valid_rows [OF valid]] by (simp add: algebra_simps)
  obtain q bs r1 where one: "field_position dk 8 item = Ok q" "read_field q 8 r = Ok (bs, r1)" "rd_faults r1 = []" "rd_bytes r1 = file"
    using field_total [OF hold(1) fits1 r] by blast
  obtain q' bs' r2 where two: "field_position dh ?w item = Ok q'" "read_field q' ?w r1 = Ok (bs', r2)" "rd_faults r2 = []"
    using field_total [OF hold(2) fits2 one(4,3)] by blast
  show ?thesis unfolding read_item_def one(1,2) and_then.simps prod.case two(1,2) using two(3) by blast
qed

lemma spill_item_succeeds:
  assumes name: "file_name destination = Some name" and sec: "source_sections crc s layout dk dh file" and valid: "config_valid s" "keys_valid s" and item: "item < length (so_key_hashes s)"
    and st: "rd_bytes (fst state) = file" "rd_faults (fst state) = []" "clear destination nonce (run_names (length (snd (snd state)))) ws"
  shows "succeeds (\<lambda>st ws'. rd_bytes (fst st) = file \<and> rd_faults (fst st) = [] \<and> clear destination nonce (run_names (length (snd (snd st)))) ws')
    (spill_item destination nonce n dk dh (p_bands (so_params s) * 8) item state ws)"
proof -
  let ?entry = "so_key_hashes s ! item"
  obtain source buffer run_paths where s: "state = (source, buffer, run_paths)" by (cases state)
  obtain x source' where read: "read_item dk dh (p_bands (so_params s) * 8) item source = Ok (x, source')" "rd_faults source' = []"
    using read_item_total [OF sec valid(2) item, of source] st(1,2) s by (metis fst_conv)
  obtain key row where x: "x = (key, row)" by (cases x)
  note e = read_item_Ok [OF sec valid(2) item read(1) [unfolded x]]
  have e: "row = map le64 (snd ?entry)" "rd_bytes source' = file" using e st(1) s by simp_all
  have "?entry \<in> set (so_key_hashes s)" using item by simp
  then have short: "length (snd ?entry) < 4294967296" using valid(2) config_bounds(5) [OF valid(1)] by (force simp: keys_valid_def)
  have loop: "succeeds (\<lambda>st ws'. clear destination nonce (run_names (length (snd st))) ws')
    (st_foldl (push_record destination nonce n key) (List.enumerate 0 row) (buffer, run_paths) ws)"
  proof (rule succeeds_foldl [where I = "\<lambda>_ st ws'. clear destination nonce (run_names (length (snd st))) ws'"])
    fix "done" a todo and st :: "spill_record list \<times> path list" and ws1
    assume split: "List.enumerate 0 row = done @ a # todo" and c: "clear destination nonce (run_names (length (snd st))) ws1"
    obtain band chunk where a: "a = (band, chunk)" by (cases a)
    have "a \<in> set (List.enumerate 0 row)" by (simp add: split)
    then have "band < length (snd ?entry)" "chunk = le64 (snd ?entry ! band)" by (auto simp: a e(1) in_set_enumerate_eq)
    then have "spill_record_of key a = Ok (SpillRecord (of_nat band) (snd ?entry ! band) key)" using short by (simp add: a spill_record_of_le64)
    from push_record_succeeds [OF name c this] show "succeeds (\<lambda>st ws'. clear destination nonce (run_names (length (snd st))) ws') (push_record destination nonce n key a st ws1)" .
  qed (use st(3) s in simp)
  show ?thesis
    unfolding spill_item_def s Let_def prod.case read(1) x st_then_simps
    by (rule succeeds_bind [OF loop]) (use e(2) read(2) in \<open>auto simp: succeeds_def split: prod.splits\<close>)
qed

lemma spill_runs_succeeds:
  assumes name: "file_name destination = Some name" and sec: "source_sections crc s layout dk dh file" and valid: "config_valid s" "keys_valid s"
    and n: "24 * bo_max_buffer_records options \<le> 9223372036854775807" and source: "rd_bytes source = file" "rd_faults source = []" and c: "clear destination nonce {} ws"
  shows "succeeds (\<lambda>x ws'. rd_faults (snd x) = [] \<and> clear destination nonce (run_names (length (fst x))) ws')
    (spill_runs dk dh (length (so_key_hashes s)) (p_bands (so_params s)) destination nonce options source ws)"
proof -
  let ?kh = "so_key_hashes s" and ?n = "bo_max_buffer_records options"
  let ?I = "\<lambda>(st :: reader \<times> spill_record list \<times> path list) ws'. rd_bytes (fst st) = file \<and> rd_faults (fst st) = [] \<and> clear destination nonce (run_names (length (snd (snd st)))) ws'"
  have row: "checked_mul_usize (p_bands (so_params s)) 8 = Some (p_bands (so_params s) * 8)"
    using config_bounds(5) [OF valid(1)] by (simp add: checked_mul_usize_def)
  have loop: "succeeds ?I (st_foldl (spill_item destination nonce ?n dk dh (p_bands (so_params s) * 8)) [0..<length ?kh] (source, [], []) ws)"
  proof (rule succeeds_foldl [where I = "\<lambda>_. ?I"])
    show "?I (source, [], []) ws" using source c by (simp add: run_names_def)
  next
    fix "done" item todo and st :: "reader \<times> spill_record list \<times> path list" and ws1
    assume split: "[0..<length ?kh] = done @ item # todo" and I: "?I st ws1"
    show "succeeds ?I (spill_item destination nonce ?n dk dh (p_bands (so_params s) * 8) item st ws1)"
      by (rule spill_item_succeeds [OF name sec valid upt_split(2) [OF split]]) (use I in auto)
  qed
  show ?thesis
    unfolding spill_runs_def row ok_or.simps st_then_simps Let_def if_not_P [OF leD [OF n]]
  proof (rule succeeds_bind [OF loop], goal_cases)
    case (1 st ws1)
    obtain source' buffer run_paths where st: "st = (source', buffer, run_paths)" by (cases st)
    have f: "rd_faults source' = []" and c1: "clear destination nonce (run_names (length run_paths)) ws1" using 1 by (simp_all add: st)
    show ?case
    proof (cases "buffer = []")
      case True
      then show ?thesis using f c1 by (simp add: st succeeds_def)
    next
      case False
      have "succeeds (\<lambda>x ws'. rd_faults (snd x) = [] \<and> clear destination nonce (run_names (length (fst x))) ws')
        (st_then (spill_one_run destination nonce buffer run_paths ws1) (\<lambda>(buffer, runs) ws. (Ok (runs, source'), ws)))"
        by (rule succeeds_bind [OF spill_one_run_succeeds [OF name c1]]) (use f in \<open>auto simp: succeeds_def split: prod.splits\<close>)
      then show ?thesis using False by (simp add: st)
    qed
  qed
qed

lemma run_files_disk: "run_files d0 run_paths rss ws \<Longrightarrow> ws_disk ws' = ws_disk ws \<Longrightarrow> run_files d0 run_paths rss ws'"
  by (simp add: run_files_def made_def holds_def)

lemma open_runs_succeeds:
  assumes files: "run_files d0 run_paths rss ws" and c: "clear destination nonce S ws"
  shows "succeeds (\<lambda>readers ws'. (\<forall>r \<in> set readers. rd_faults r = []) \<and> clear destination nonce S ws' \<and> ws_temporary ws' = ws_temporary ws) (open_runs run_paths ws)"
proof -
  let ?I = "\<lambda>_ (readers :: reader list) ws'. (\<forall>r \<in> set readers. rd_faults r = []) \<and> clear destination nonce S ws' \<and> ws_disk ws' = ws_disk ws \<and> ws_temporary ws' = ws_temporary ws"
  have "succeeds (?I run_paths) (open_runs run_paths ws)"
    unfolding open_runs_def
  proof (rule succeeds_foldl [where I = ?I])
    fix "done" p todo and readers :: "reader list" and ws1
    assume split: "run_paths = done @ p # todo" and I: "?I done readers ws1"
    have "run_files d0 run_paths rss ws1" using run_files_disk [OF files] I by blast
    then obtain bs where made: "made d0 p bs ws1"
      using split by (auto simp: run_files_def list_all2_append1 list_all2_Cons1)
    show "succeeds (?I (done @ [p])) (st_then (on_fs (fs_open p) ws1) (\<lambda>r ws. (Ok (readers @ [r]), ws)))"
      by (rule succeeds_bind [OF open_succeeds [OF conjunct1 [OF conjunct2 [OF I]] made]]) (use I in \<open>auto simp: succeeds_def\<close>)
  qed (use c in simp)
  then show ?thesis by (auto simp: succeeds_def)
qed

lemma merge_runs_succeeds:
  assumes name: "file_name destination = Some name" and wf: "disk_wf (ws_disk ws)" and files: "run_files d0 run_paths rss ws"
    and small: "length (concat rss) < 4294967295" and c: "clear destination nonce (run_names k) ws"
    and dp: "dp = temp_path destination nonce ''descriptors''" and mp: "mp = temp_path destination nonce ''memberships''"
  shows "succeeds (\<lambda>_ ws'. clear destination nonce ({''descriptors'', ''memberships''} \<union> run_names k) ws') (merge_runs hasher run_paths dp mp (track mp (track dp ws)))"
proof -
  let ?ws = "track mp (track dp ws)" and ?S = "{''descriptors'', ''memberships''} \<union> run_names k"
  have ws0: "adds destination nonce ws ?ws" unfolding dp mp using adds_trans adds_track by blast
  have srt: "\<forall>rs \<in> set rss. sorted rs" using files by (fastforce simp: run_files_def list_all2_conv_all_nth in_set_conv_nth)
  have files1: "run_files d0 run_paths rss ?ws" using run_files_adds [OF files ws0 wf] .
  have c0: "clear destination nonce (run_names k) ?ws" using c by simp
  have fresh: "''descriptors'' \<notin> run_names k" "''memberships'' \<notin> insert ''descriptors'' (run_names k)" by (auto simp: run_names_def)
  show ?thesis
    unfolding merge_runs_def
  proof (rule succeeds_bind [OF open_runs_succeeds [OF files1 c0]], goal_cases)
    case (1 readers ws1)
    have "list_all2 (streams spill_bytes) readers rss"
      using runs_succeeds [OF open_runs_runs [OF files1 ws0 wf] 1(1)] by blast
    then have str: "healthy_streams readers rss" and c1: "clear destination nonce (run_names k) ws1" and t1: "dp \<in> set (ws_temporary ws1)" "mp \<in> set (ws_temporary ws1)" using 1(2) by (auto simp: healthy_streams_def)
    show ?case
    proof (rule succeeds_bind [OF create_stream_succeeds [OF name dp c1 fresh(1) t1(1)]], goal_cases)
      case (1 x ws2)
      obtain i w where x: "x = (i, w)" by (cases x)
      have w: "wr_faults w = []" and c2: "clear destination nonce (insert ''descriptors'' (run_names k)) ws2" and t2: "mp \<in> set (ws_temporary ws2)" using t1(2) 1(2) by (simp_all add: x)
      show ?case
        unfolding x prod.case
      proof (rule succeeds_bind [OF create_stream_succeeds [OF name mp c2 fresh(2) t2]], goal_cases)
        case (1 y ws3)
        obtain j v where y: "y = (j, v)" by (cases y)
        have v: "wr_faults v = []" and c3: "clear destination nonce ?S ws3" using 1(2) by (auto simp: y insert_commute)
        obtain readers' heap ms ms' where m: "prime_heap readers = Ok (readers', heap)" "merge_loop hasher readers' heap (merge_start hasher w v) = Ok ms" "finish_merge hasher ms = Ok ms'"
          using merge_total [OF str srt small w v] by blast
        show ?case
          unfolding y prod.case m(1) st_then_simps m(2,3)
          by (rule succeeds_bind [OF flush_stream_succeeds [OF c3]], rule succeeds_bind [OF flush_stream_succeeds], assumption,
            rule succeeds_bind [OF sync_stream_succeeds], assumption, rule succeeds_bind [OF sync_stream_succeeds], assumption) (simp add: succeeds_def)
      qed
    qed
  qed
qed

section \<open>Assembling succeeds\<close>

definition segment_names :: "nat \<Rightarrow> nat \<Rightarrow> string set" where
  "segment_names k n = {''descriptors'', ''memberships''} \<union> run_names k \<union> {''bucket-'' @ decimal j |j. j < n}"

lemma segment_names_Suc: "insert (''bucket-'' @ decimal n) (segment_names k n) = segment_names k (Suc n)"
  unfolding segment_names_def less_Suc_eq by blast

lemma segment_names_new: "''bucket-'' @ decimal n \<notin> segment_names k n" "''commit'' \<notin> segment_names k n"
proof -
  have "j = n" if "''bucket-'' @ decimal n = ''bucket-'' @ decimal j" for j using that decimal_inj [of n j] by simp
  moreover have "''bucket-'' @ xs \<noteq> ''run-'' @ ys" "''commit'' \<noteq> ''run-'' @ ys" "''commit'' \<noteq> ''bucket-'' @ xs"
    "''bucket-'' @ xs \<noteq> ''descriptors''" "''bucket-'' @ xs \<noteq> ''memberships''" "''commit'' \<noteq> ''descriptors''" "''commit'' \<noteq> ''memberships''" for xs ys by simp_all
  ultimately show "''bucket-'' @ decimal n \<notin> segment_names k n" "''commit'' \<notin> segment_names k n"
    unfolding segment_names_def run_names_def by blast+
qed

lemma write_one_segment_succeeds:
  assumes name: "file_name destination = Some name" and law: "hasher_law crc hasher" and ok: "group_ok g"
    and m: "rest_of m = membership_bytes g @ rest" "rd_pos m \<le> length (rd_bytes m)" "rd_faults m = []" and c: "clear destination nonce (segment_names k n) ws"
  shows "succeeds (\<lambda>(seg, m') ws'. rd_faults m' = [] \<and> rd_bytes m' = rd_bytes m \<and> clear destination nonce (segment_names k (Suc n)) ws')
    (write_one_segment crc hasher destination nonce (drafts crc off g) n m ws)"
  unfolding write_one_segment_def Let_def drafts_write_records
proof (rule succeeds_bind [OF create_stream_succeeds [OF name refl _ segment_names_new(1) [of n k]]], goal_cases)
  case (3 x ws1)
  obtain i w where x: "x = (i, w)" by (cases x)
  have w: "wr_faults w = []" and c1: "clear destination nonce (segment_names k (Suc n)) ws1" using 3 unfolding x segment_names_Suc by auto
  have seg: "segment_ok (records_of g)" using ok by (simp add: group_ok_def)
  obtain res m' w' where run: "write_bucket_segment crc hasher (map (write_record crc) (records_of g)) m w = Ok (res, m', w')"
    using write_bucket_segment_ok [OF law seg m(3,2) _ w, of rest] m(1) by (auto simp: rest_of_def membership_bytes_records)
  have "heal m = m" "heal_writer w = w" using m(3) w by (simp_all add: heal_def heal_writer_def)
  then have "m' = heal m'" using write_bucket_segment_heal [OF run] run by simp
  then have "rd_faults m' = []" "rd_bytes m' = rd_bytes m" using write_bucket_segment_same [OF run] by (metis heal_simps(2), simp)
  then show ?case
    unfolding x prod.case run map_err.simps st_then_simps by (intro finish_succeeds [OF c1]) (auto simp: succeeds_def)
qed (use c in simp_all)

lemma drafts_size:
  "\<forall>b \<in> set bm. length (snd b) < 4294967296 \<Longrightarrow> (\<Sum>d\<leftarrow>drafts crc off bm. 32 + 8 * unat (dd_member_count d)) = 32 * length bm + 8 * member_total bm"
  by (induction bm arbitrary: off) (auto simp: unat_of_nat_u32)

lemma member_total_rest: "member_total rest \<le> member_total (g @ rest)" "length rest \<le> length (g @ rest)"
  by simp_all

lemma segments_loop_succeeds:
  assumes name: "file_name destination = Some name" and law: "hasher_law crc hasher"
    and "pending_streams pending r (drafts crc (8 * member_total pre) bm)" and "rd_faults r = []" and "rd_bytes m = membership_bytes (pre @ bm)" and "rd_faults m = []"
    and "8 * member_total (pre @ bm) < usize_limit" and "40 + 32 * length bm + 8 * member_total bm < usize_limit" and "\<forall>b \<in> set bm. length (snd b) < 4294967296"
    and "bm \<noteq> [] \<longrightarrow> (\<forall>g \<in> set (groups_from [] bm). group_ok g)" and "clear destination nonce (segment_names k (length segs)) ws"
  shows "succeeds (\<lambda>segs' ws'. clear destination nonce (segment_names k (length segs')) ws') (segments_loop crc hasher destination nonce pending r m segs ws)"
  using assms(3-)
proof (induction "length bm" arbitrary: bm pre pending r m segs ws rule: less_induct)
  case less
  show ?case
  proof (cases bm)
    case Nil
    then have "pending = None" using less.prems(1) by (simp add: pending_streams_def)
    then show ?thesis using less.prems(9) by (simp add: succeeds_def)
  next
    case (Cons b bm')
    let ?off = "8 * member_total pre"
    obtain g rest where ng: "next_group [] bm = (g, rest)" by fastforce
    have g: "g = b # tl g" "g @ rest = bm" "length rest < length bm"
      using next_group_start [of b "[]" bm'] next_group_append [of "[]" bm] next_group_shorter [of "[b]" bm'] ng by (simp_all add: Cons)
    have short: "\<forall>b \<in> set rest. length (snd b) < 4294967296" using less.prems(7) g(2) by auto
    have groups: "groups_from [] bm = g # (if rest = [] then [] else groups_from [] rest)"
      using groups_from_next [of "[]" bm] ng by (simp split: list.splits)
    have ok: "group_ok g" "rest \<noteq> [] \<longrightarrow> (\<forall>g \<in> set (groups_from [] rest). group_ok g)" using less.prems(8) groups Cons by auto
    obtain draft where pending: "pending = Some draft" using less.prems(1) by (auto simp: pending_streams_def Cons)
    obtain ds pending' r' where take: "take_group [] 40 pending r = Ok (ds, pending', r')" "rd_faults r' = []"
      using take_group_healthy [OF less.prems(1,2), of 40 "[]"] less.prems(6) drafts_size [OF less.prems(7), of crc ?off] by auto
    have "ds = drafts crc ?off g \<and> pending_streams pending' r' (drafts crc (?off + 8 * member_total g) rest)"
      using take_group_Ok [of crc ?off "[]" pending r ds pending' r' bm] take less.prems(1,7) ng by simp
    then have ds: "ds = drafts crc ?off g" and p': "pending_streams pending' r' (drafts crc (8 * member_total (pre @ g)) rest)"
      by (simp_all add: algebra_simps)
    have first: "(case drafts crc ?off g of [] \<Rightarrow> None | d # ds \<Rightarrow> Some (dd_relative_offset d)) = Some (of_nat ?off)" by (subst g(1)) simp
    have off: "unat (of_nat ?off :: u64) = ?off" using less.prems(5) by (intro unat_of_nat_u64) simp
    define m1 where "m1 = m\<lparr>rd_pos := ?off\<rparr>"
    have seek: "seek_start (of_nat ?off) m = Ok m1" using seek_start_healthy [OF less.prems(4), of "of_nat ?off"] unfolding off m1_def .
    have m1: "rest_of m1 = membership_bytes g @ membership_bytes rest" "rd_pos m1 \<le> length (rd_bytes m1)" "rd_faults m1 = []" "rd_bytes m1 = membership_bytes ((pre @ g) @ rest)"
      using less.prems(3,4) by (simp_all add: m1_def rest_of_def membership_bytes_append length_membership_bytes flip: g(2))
    show ?thesis
      unfolding pending segments_loop.simps(2) take(1) [unfolded pending ds] st_then_simps prod.case first ok_or.simps seek map_err.simps
    proof (rule succeeds_bind [OF write_one_segment_succeeds [OF name law ok(1) m1(1,2,3) less.prems(9)]], goal_cases)
      case (1 y ws1)
      obtain seg m' where y: "y = (seg, m')" by (cases y)
      have m': "rd_bytes m' = membership_bytes ((pre @ g) @ rest)" using 1(2) m1(4) by (simp add: y)
      have c: "rd_faults m' = []" "clear destination nonce (segment_names k (length (segs @ [seg]))) ws1" using 1(2) by (simp_all add: y)
      show ?case
        unfolding y prod.case by (rule less.hyps [OF g(3) p' take(2) m' c(1) _ _ short ok(2) c(2)]) (use less.prems(5,6) in \<open>auto simp flip: g(2)\<close>)
    qed
  qed
qed

lemma assemble_segments_succeeds:
  assumes name: "file_name destination = Some name" and wf: "disk_wf (ws_disk ws)" and law: "hasher_law crc hasher"
    and files: "made d0 dp (concat (map draft_bytes (drafts crc 0 bm))) ws" "made d0 mp (membership_bytes bm) ws"
    and total: "40 + 32 * length bm + 8 * member_total bm < usize_limit" "\<forall>b \<in> set bm. length (snd b) < 4294967296" and ok: "\<forall>g \<in> set (groups_from [] bm). group_ok g"
    and c: "clear destination nonce ({''descriptors'', ''memberships''} \<union> run_names k) ws"
  shows "succeeds (\<lambda>segs ws'. clear destination nonce (segment_names k (length segs)) ws') (assemble_segments crc hasher dp mp destination nonce ws)"
proof -
  have c0: "clear destination nonce (segment_names k 0) ws" using c by (simp add: segment_names_def)
  show ?thesis
    unfolding assemble_segments_def
  proof (rule succeeds_bind [OF open_succeeds [OF c0 files(1)]], goal_cases)
    case (1 r ws1)
    have r: "streams draft_bytes r (drafts crc 0 bm)" and ws1: "adds destination nonce ws ws1"
      using runs_succeeds [OF open_made [OF files(1) adds_refl wf] 1(1)] by (auto simp: streams_def rest_of_def)
    have h: "rd_faults r = []" and c1: "clear destination nonce (segment_names k 0) ws1" using 1(2) by auto
    have made1: "made d0 mp (membership_bytes bm) ws1" by (rule made_adds [OF files(2) ws1 wf])
    show ?case
    proof (rule succeeds_bind [OF open_succeeds [OF c1 made1]], goal_cases)
      case (1 m ws2)
      have m: "rd_bytes m = membership_bytes bm" "rd_pos m = 0" using runs_succeeds [OF open_made [OF made1 adds_refl adds_wf [OF ws1 wf]] 1(1)] by auto
      have hm: "rd_faults m = []" and c2: "clear destination nonce (segment_names k 0) ws2" using 1(2) by auto
      obtain pending r' where read: "read_descriptor_optional r = Ok (pending, r')" "rd_faults r' = []" using record_readers_healthy(2) [OF h r] by blast
      have pending: "pending_streams pending r' (drafts crc 0 bm)" using read_pending [OF read(1) r] .
      show ?case
        unfolding read(1) st_then_simps prod.case
      proof (cases bm)
        case Nil
        then have p: "pending = None" using pending by (simp add: pending_streams_def)
        have one: "succeeds (\<lambda>(seg, m') ws'. rd_faults m' = [] \<and> rd_bytes m' = rd_bytes m \<and> clear destination nonce (segment_names k (Suc 0)) ws')
          (write_one_segment crc hasher destination nonce (drafts crc 0 []) 0 m ws2)"
          by (rule write_one_segment_succeeds [OF name law, where rest = "[]"]) (use ok m hm c2 Nil in \<open>simp_all add: rest_of_def\<close>)
        show "succeeds (\<lambda>segs ws'. clear destination nonce (segment_names k (length segs)) ws')
          (if pending = None then st_then (write_one_segment crc hasher destination nonce [] 0 m ws2) (\<lambda>(segment, memberships) ws. (Ok [segment], ws))
           else segments_loop crc hasher destination nonce pending r' m [] ws2)"
          unfolding if_P [OF p] by (rule succeeds_bind [OF one [unfolded drafts.simps]]) (auto simp: succeeds_def)
      next
        case (Cons b bm')
        then have p: "pending \<noteq> None" using pending by (auto simp: pending_streams_def)
        show "succeeds (\<lambda>segs ws'. clear destination nonce (segment_names k (length segs)) ws')
          (if pending = None then st_then (write_one_segment crc hasher destination nonce [] 0 m ws2) (\<lambda>(segment, memberships) ws. (Ok [segment], ws))
           else segments_loop crc hasher destination nonce pending r' m [] ws2)"
          unfolding if_not_P [OF p] by (rule segments_loop_succeeds [OF name law, where pre = "[]" and bm = bm]) (use pending read(2) m hm total ok c2 in auto)
      qed
    qed
  qed
qed

section \<open>Writing the container succeeds\<close>

lemma copy_framed_healthy:
  assumes d: "section_holds layout d (rd_bytes r) payload" and h: "rd_faults r = []" "wr_faults w = []"
  shows "\<exists>r' w'. copy_framed_source_section kind d r w = Ok (r', w') \<and> rd_faults r' = [] \<and> wr_faults w' = []"
proof -
  let ?w = "w\<lparr>wr_bytes := wr_bytes w @ encode_section_header kind (sd_payload_length d) (sd_checksum d)\<rparr>" and ?r = "r\<lparr>rd_pos := unat (sd_payload_offset d)\<rparr>"
  have "\<exists>r' w'. copy_range_loop (sd_payload_length d) ?r ?w = Ok (r', w') \<and> rd_faults r' = [] \<and> wr_faults w' = []"
    by (rule copy_range_loop_healthy) (use d h in \<open>simp_all add: section_holds_def\<close>)
  then show ?thesis using h by (simp add: copy_framed_source_section_def copy_file_range_def write_all_healthy seek_start_healthy)
qed

lemma copy_segment_succeeds:
  assumes seg: "segment_made crc d0 ws part g" and w: "wr_faults w = []" and c: "clear destination nonce S ws"
  shows "succeeds (\<lambda>w' ws'. wr_faults w' = [] \<and> clear destination nonce S ws' \<and> ws_disk ws' = ws_disk ws) (copy_segment part w ws)"
  unfolding copy_segment_def write_all_healthy [OF w] map_err.simps st_then_simps
proof (rule succeeds_bind [OF open_succeeds [OF c]], goal_cases)
  case (2 r ws1)
  then obtain w' where "io_copy r (w\<lparr>wr_bytes := wr_bytes w @ encode_section_header Buckets (sf_bytes part) (sf_checksum part)\<rparr>) = Ok w'" "wr_faults w' = []"
    using io_copy_healthy [of r "w\<lparr>wr_bytes := wr_bytes w @ encode_section_header Buckets (sf_bytes part) (sf_checksum part)\<rparr>"] w by auto
  then show ?case using 2(2) by (simp add: succeeds_def)
qed (use seg in \<open>auto simp: segment_made_def\<close>)

lemma copy_segments_succeeds:
  assumes segs: "list_all2 (segment_made crc d0 ws) segments gs" and w: "wr_faults w = []" and c: "clear destination nonce S ws"
  shows "succeeds (\<lambda>w' ws'. clear destination nonce S ws') (st_foldl copy_segment segments w ws)"
proof -
  let ?I = "\<lambda>_ (w' :: writer) ws'. wr_faults w' = [] \<and> clear destination nonce S ws' \<and> ws_disk ws' = ws_disk ws"
  have "succeeds (?I segments) (st_foldl copy_segment segments w ws)"
  proof (rule succeeds_foldl [where I = ?I])
    fix "done" part todo and v :: writer and ws1
    assume split: "segments = done @ part # todo" and I: "?I done v ws1"
    obtain g where "segment_made crc d0 ws part g" using segs split by (auto simp: list_all2_append1 list_all2_Cons1)
    then have seg: "segment_made crc d0 ws1 part g" using I by (simp add: segment_made_def made_def holds_def)
    show "succeeds (?I (done @ [part])) (copy_segment part v ws1)"
      using copy_segment_succeeds [OF seg conjunct1 [OF I] conjunct1 [OF conjunct2 [OF I]]] I by (auto simp: succeeds_def)
  qed (use w c in simp)
  then show ?thesis by (auto simp: succeeds_def)
qed

lemma write_final_container_succeeds:
  assumes name: "file_name destination = Some name" and wf: "disk_wf (ws_disk ws)" and sec: "source_sections crc s layout dk dh file"
    and segs: "list_all2 (segment_made crc d0 ws) segments gs" and few: "length segments < 4294967294" and r: "rd_bytes r = file" "rd_faults r = []"
    and p: "p = temp_path destination nonce ''commit''" and c: "clear destination nonce S ws" and fresh: "''commit'' \<notin> S"
  shows "succeeds (\<lambda>_ ws'. clear destination nonce (insert ''commit'' S) ws') (write_final_container crc layout dk dh segments p r (track p ws))"
proof -
  note hold = source_sections_hold [OF sec]
  have dk: "describes crc layout (rd_bytes r) dk \<lparr>sec_kind = Keys, sec_required = True, sec_payload = keys_payload (map fst (so_key_hashes s))\<rparr>"
    using sec r by (simp add: source_sections_def)
  have n: "checked_add_usize 2 (length segments) = Some (2 + length segments)" "u32_try_from (2 + length segments) = Some (of_nat (2 + length segments))"
    using few by (simp_all add: checked_add_usize_def u32_try_from_def)
  have tracked: "adds destination nonce ws (track p ws)" unfolding p by (rule adds_track)
  have c0: "clear destination nonce S (track p ws)" using c by simp
  show ?thesis
    unfolding write_final_container_def n ok_or.simps st_then_simps
  proof (rule succeeds_bind [OF create_stream_succeeds [OF name p c0 fresh]], simp, goal_cases)
    case (1 x ws1)
    obtain i w where x: "x = (i, w)" by (cases x)
    have w: "wr_faults w = []" and c1: "clear destination nonce (insert ''commit'' S) ws1" using 1(2) by (simp_all add: x)
    have ws1: "adds destination nonce ws ws1" using runs_succeeds [OF create_stream_runs [OF name p tracked wf] 1(1) [unfolded x]] by simp
    let ?w = "w\<lparr>wr_bytes := wr_bytes w @ build_encode_header crc (fl_metadata layout) (of_nat (2 + length segments))\<rparr>"
    have w1: "wr_faults ?w = []" using w by simp
    obtain r2 w2 where two: "copy_framed_source_section Keys dk r ?w = Ok (r2, w2)" "rd_faults r2 = []" "wr_faults w2 = []"
      using copy_framed_healthy [OF _ r(2) w1] hold(1) r(1) by metis
    have r2: "rd_bytes r2 = file" using copy_framed_Ok(2) [OF two(1) dk] r(1) by simp
    obtain r3 w3 where three: "copy_framed_source_section BandHashes dh r2 w2 = Ok (r3, w3)" "wr_faults w3 = []"
      using copy_framed_healthy [OF _ two(2,3)] hold(2) r2 by metis
    show ?case
      unfolding x prod.case write_all_healthy [OF w] map_err.simps st_then_simps two(1) three(1)
    proof (rule succeeds_bind [OF copy_segments_succeeds [OF segments_made_adds [OF segs ws1 wf] three(2) c1]], goal_cases)
      case (1 w4 ws2)
      show ?case by (rule finish_succeeds [OF 1(2)]) (auto simp: succeeds_def)
    qed
  qed
qed

section \<open>Publishing succeeds\<close>

lemma metadata_succeeds:
  assumes "calm (ws_fs ws)" and "made d0 p bs ws"
  shows "succeeds (\<lambda>_ ws'. calm (ws_fs ws') \<and> ws_disk ws' = ws_disk ws \<and> ws_temporary ws' = ws_temporary ws) (on_fs (fs_metadata_len p) ws)"
proof -
  obtain i where i: "dk_entries (fs_disk (ws_fs ws)) (resolve p) = Some (FileNode i)" using assms(2) by (auto simp: made_def holds_def ws_disk_def)
  then have "follow 40 p (fs_disk (ws_fs ws)) = Inr (FileNode i)" by (subst follow.simps) simp
  then show ?thesis using assms(1) by (simp add: on_fs_eq fs_metadata_len_def io_then_def calm_call sys_follow_def succeeds_def ws_disk_def fs_step_def calm_def)
qed

lemma build_publish_succeeds:
  assumes calm: "calm fs" and made: "dk_entries (fs_disk fs) (resolve q) = Some (FileNode i)" and q: "resolve q \<noteq> []" "resolve q \<noteq> resolve p"
    and dir: "is_dir (butlast (resolve p)) (fs_disk fs)" and name: "file_name p = Some name"
    and free: "dk_entries (fs_disk fs) (resolve p) = None" and root: "dk_entries (fs_disk fs) [] = None"
  shows "\<exists>fs'. build_publish handle q p fs = (Ok (), fs') \<and> calm fs'
    \<and> dk_entries (fs_disk fs') = (dk_entries (fs_disk fs))(resolve p \<mapsto> FileNode i, resolve q := None)"
proof -
  have p: "resolve p \<noteq> []" using resolve_target [OF name] by simp
  have f: "follow 40 q (fs_disk fs) = Inr (FileNode i)" by (subst follow.simps) (simp add: made)
  define d1 where "d1 = (fs_disk fs)\<lparr>dk_entries := (dk_entries (fs_disk fs))(resolve p \<mapsto> FileNode i)\<rparr>"
  define d2 where "d2 = d1\<lparr>dk_entries := (dk_entries d1)(resolve q := None)\<rparr>"
  have link: "sys_hard_link q p (fs_disk fs) = Inr ((), d1)" using made q dir p free by (simp add: sys_hard_link_def Let_def d1_def is_dir_def)
  have rem: "sys_remove_file q d1 = Inr ((), d2)" using made q by (simp add: sys_remove_file_def Let_def d2_def d1_def is_dir_def)
  have "is_dir (butlast (resolve p)) d2" using dir made free q by (auto simp: d2_def d1_def is_dir_def split: option.splits node.splits)
  moreover have "resolve (parent_dir p) = butlast (resolve p)" using resolve_parent_dir [of p] resolve_target [OF name] by simp
  moreover have "dk_entries d2 [] = None" using root p by (simp add: d2_def d1_def)
  ultimately have "\<exists>n. follow 40 (parent_dir p) d2 = Inr n"
    by (subst follow.simps) (auto simp: is_dir_def split: option.splits node.splits)
  then obtain n where "follow 40 (parent_dir p) d2 = Inr n" by blast
  then show ?thesis
    using calm f link rem
    by (simp add: d2_def d1_def build_publish_def build_publish_with_def fs_handle_from_path_def fs_hard_link_def fs_remove_file_def build_sync_parent_def fs_sync_directory_def io_then_def calm_call sys_follow_def)
qed

section \<open>Checking the source succeeds\<close>

lemma verify_section_healthy:
  assumes d: "describes crc layout (rd_bytes r) d sec" and law: "hasher_law crc hasher" and h: "rd_faults r = []"
  shows "\<exists>r'. verify_section_streaming hasher d r = Ok r' \<and> rd_faults r' = [] \<and> rd_bytes r' = rd_bytes r"
proof -
  let ?r = "r\<lparr>rd_pos := unat (sd_payload_offset d)\<rparr>" and ?p = "sec_payload sec"
  have hold: "unat (sd_payload_offset d) + unat (sd_payload_length d) \<le> length (rd_bytes r)" "take (unat (sd_payload_length d)) (drop (unat (sd_payload_offset d)) (rd_bytes r)) = ?p"
    "sd_checksum d = crc ?p"
    using d by (simp_all add: describes_def section_holds_def)
  obtain pieces where pieces: "concat pieces = ?p" "verify_loop hasher (sd_payload_length d) (hasher_new hasher) ?r
      = Ok (fold (hasher_update hasher) pieces (hasher_new hasher), ?r\<lparr>rd_pos := rd_pos ?r + unat (sd_payload_length d)\<rparr>)"
    using verify_loop_healthy [of ?r "sd_payload_length d" hasher "hasher_new hasher"] h hold by auto
  then have "hasher_finalize hasher (fold (hasher_update hasher) pieces (hasher_new hasher)) = sd_checksum d" using law hold(3) by (simp add: hasher_law_def)
  then show ?thesis using pieces(2) h by (simp add: verify_section_streaming_def seek_start_healthy Let_def)
qed

lemma read_record_count_healthy:
  assumes "section_holds layout d (rd_bytes r) (le64 (of_nat m) @ rest)" and "rd_faults r = []" and "m < usize_limit"
  shows "\<exists>r'. read_record_count d r = Ok (m, r') \<and> rd_faults r' = [] \<and> rd_bytes r' = rd_bytes r"
proof -
  have "unat (sd_payload_offset d) + 8 \<le> length (rd_bytes r)" using assms(1) by (simp add: section_holds_def)
  then obtain n r' where run: "read_record_count d r = Ok (n, r')" "rd_faults r' = []"
    using assms(2) by (auto simp: read_record_count_def seek_start_healthy read_exact_healthy)
  then show ?thesis using read_record_count_Ok [OF run(1) assms(1,3)] by simp
qed

lemma validate_lengths_ok:
  assumes dk: "unat (sd_payload_length dk) = 8 + 8 * n" and dh: "unat (sd_payload_length dh) = 8 + n * (bands * 8)" and b: "bands < 4294967296"
  shows "validate_source_lengths dk dh n bands = Ok ()"
proof -
  have "8 + 8 * n < usize_limit" "8 + n * (bands * 8) < usize_limit" using dk dh unat_u64_less [of "sd_payload_length dk"] unat_u64_less [of "sd_payload_length dh"] by simp_all
  moreover from this have "unat (of_nat (8 + 8 * n) :: u64) = 8 + 8 * n" "unat (of_nat (8 + n * (bands * 8)) :: u64) = 8 + n * (bands * 8)" by (blast intro: unat_of_nat_u64)+
  moreover from this have "sd_payload_length dk = of_nat (8 + 8 * n)" "sd_payload_length dh = of_nat (8 + n * (bands * 8))"
    using dk dh by (metis word_unat_eq_iff)+
  ultimately show ?thesis
    using b by (simp add: validate_source_lengths_def checked_mul_usize_def checked_add_usize_def u64_try_from_def mult.commute [of n 8] del: of_nat_add of_nat_mult)
qed

lemma check_source_healthy:
  assumes src: "source_of crc s (rd_bytes r)" and law: "hasher_law crc hasher" and valid: "config_valid s" "keys_valid s" and h: "rd_faults r = []"
  shows "\<exists>checked. check_source crc hasher r = Ok checked \<and> rd_faults (snd (snd (snd (snd (snd checked))))) = []"
proof -
  let ?kh = "so_key_hashes s" and ?bands = "p_bands (so_params s)"
  obtain ss where cont: "container crc (rd_bytes r) (snapshot_metadata s) (map section_frame ss)"
    and filters: "filter (\<lambda>sec. sec_kind sec = Keys) ss = [\<lparr>sec_kind = Keys, sec_required = True, sec_payload = keys_payload (map fst ?kh)\<rparr>]"
      "filter (\<lambda>sec. sec_kind sec = BandHashes) ss = [\<lparr>sec_kind = BandHashes, sec_required = True, sec_payload = hashes_payload (map snd ?kh)\<rparr>]"
    using src by (auto simp: source_of_def)
  obtain layout q where lay: "layout_read_from crc hasher r = Ok (layout, q)" "rd_bytes q = rd_bytes r" "rd_faults q = []" "fl_metadata layout = snapshot_metadata s"
    "list_all2 (describes crc layout (rd_bytes q)) (fl_sections layout) ss"
    using layout_of_container [OF law cont h] h by (auto simp: same_file_def)
  obtain dk dh where sec: "source_section layout Keys ''missing keys section'' = Ok dk" "source_section layout BandHashes ''missing band-hash section'' = Ok dh"
    and dk: "describes crc layout (rd_bytes q) dk \<lparr>sec_kind = Keys, sec_required = True, sec_payload = keys_payload (map fst ?kh)\<rparr>"
    and dh: "describes crc layout (rd_bytes q) dh \<lparr>sec_kind = BandHashes, sec_required = True, sec_payload = hashes_payload (map snd ?kh)\<rparr>"
    using unique_section [OF lay(5) filters(1)] unique_section [OF lay(5) filters(2)] by (auto simp: source_section_Ok)
  have hold: "section_holds layout dk (rd_bytes q) (keys_payload (map fst ?kh))" "section_holds layout dh (rd_bytes q) (hashes_payload (map snd ?kh))"
    using dk dh by (simp_all add: describes_def)
  have lim: "length ?kh < usize_limit" using hold(1) by (auto simp: section_holds_def)
  obtain q1 where q1: "verify_section_streaming hasher dk q = Ok q1" "rd_faults q1 = []" "rd_bytes q1 = rd_bytes q" using verify_section_healthy [OF dk law lay(3)] by blast
  obtain q2 where q2: "verify_section_streaming hasher dh q1 = Ok q2" "rd_faults q2 = []" "rd_bytes q2 = rd_bytes q"
    using verify_section_healthy [of crc layout q1 dh, OF _ law q1(2)] dh q1(3) by metis
  obtain q3 where q3: "read_record_count dk q2 = Ok (length ?kh, q3)" "rd_faults q3 = []" "rd_bytes q3 = rd_bytes q"
    using read_record_count_healthy [of layout dk q2 "length ?kh", OF _ q2(2) lim] hold(1) q2(3) by (auto simp: keys_payload_def)
  obtain q4 where q4: "read_record_count dh q3 = Ok (length ?kh, q4)" "rd_faults q4 = []"
    using read_record_count_healthy [of layout dh q3 "length ?kh", OF _ q3(2) lim] hold(2) q3(3) by (auto simp: hashes_payload_def)
  have bands: "unat (md_bands (snapshot_metadata s)) = ?bands" using config_bounds(2) [OF valid(1)] by (simp add: snapshot_metadata_def)
  have lens: "validate_source_lengths dk dh (length ?kh) ?bands = Ok ()"
    by (rule validate_lengths_ok) (use hold length_hashes_payload [OF keys_valid_rows [OF valid(2)]] config_bounds(5) [OF valid(1)] in \<open>simp_all add: section_holds_def\<close>)
  have meta: "validate_source_metadata (snapshot_metadata s) = Ok ()" by (simp add: validate_source_metadata_def snapshot_metadata_def split: signature_scheme.split)
  show ?thesis unfolding check_source_def lay(1,4) map_err.simps and_then.simps prod.case meta sec q1(1) q2(1) q3(1) q4(1) Let_def bands lens using q4(2) by simp
qed

section \<open>The whole build succeeds\<close>

lemma encode_snapshot_small:
  assumes "container crc bs (snapshot_metadata s) (map section_frame (snapshot_sections crc s gs))" and "keys_valid s"
  shows "length (so_key_hashes s) * p_bands (so_params s) \<le> 33554431" "length gs \<le> 1022"
proof -
  have "length (hashes_payload (map snd (so_key_hashes s))) \<le> 268435456" using assms(1) by (auto simp: container_def snapshot_sections_def frame_ok_def section_frame_def)
  then show "length (so_key_hashes s) * p_bands (so_params s) \<le> 33554431" using length_hashes_payload [OF keys_valid_rows [OF assms(2)]] by simp
  show "length gs \<le> 1022" using assms(1) by (simp add: container_def snapshot_sections_def)
qed

lemma length_le_members: "\<forall>b \<in> set bm. snd b \<noteq> [] \<Longrightarrow> length bm \<le> member_total bm"
  by (induction bm) (auto simp: Suc_le_eq neq_Nil_conv)

lemma build_container_succeeds:
  assumes name: "file_name destination = Some name" and wf: "disk_wf (ws_disk ws)" and law: "hasher_law crc hasher"
    and sec: "source_sections crc s layout dk dh file" and r: "rd_bytes r = file" "rd_faults r = []" and valid: "config_valid s" "keys_valid s" and enc: "encode_snapshot crc s = Ok bs"
    and n: "0 < bo_max_buffer_records options" "24 * bo_max_buffer_records options \<le> 9223372036854775807"
    and c: "clear destination nonce {} ws" and free: "dk_entries (ws_disk ws) (resolve destination) = None"
  shows "succeeds (\<lambda>_ ws'. calm (ws_fs ws') \<and> (\<forall>suffix x. dk_entries (ws_disk ws') (resolve (temp_path destination nonce suffix)) = Some x
      \<longrightarrow> temp_path destination nonce suffix \<in> set (ws_temporary ws') \<and> (\<exists>i. x = FileNode i)))
    (build_container crc hasher handle destination options (\<lambda>fs. (Ok (), fs)) nonce (layout, dk, dh, length (so_key_hashes s), p_bands (so_params s), r) ws)"
proof -
  let ?kh = "so_key_hashes s" and ?bands = "p_bands (so_params s)"
  let ?dp = "temp_path destination nonce ''descriptors''" and ?mp = "temp_path destination nonce ''memberships''" and ?tp = "temp_path destination nonce ''commit''"
  obtain bm where bm: "buckets_represent bm (map_of ?kh)" "member_total bm = length ?kh * ?bands" "8 * member_total bm < usize_limit"
      "\<forall>b \<in> set bm. length (snd b) < 4294967296" and ok: "\<forall>g \<in> set (groups_from [] bm). group_ok g"
    and cont: "container crc bs (snapshot_metadata s) (map section_frame (snapshot_sections crc s (groups_from [] bm)))"
    using encode_snapshot_plan [OF valid enc] by blast
  note small = encode_snapshot_small [OF cont valid(2)]
  have short: "\<forall>item \<in> set ?kh. length (snd item) < 4294967296" using valid(2) config_bounds(5) [OF valid(1)] by (force simp: keys_valid_def)
  have kh: "bt_wf ?kh" using valid(2) by (simp add: keys_valid_def)
  have size: "40 + 32 * length bm + 8 * member_total bm < usize_limit" using length_le_members [OF represented_buckets(2) [OF bm(1)]] small(1) bm(2) by simp
  have "length ?kh * 1 \<le> length ?kh * ?bands" using config_bounds(4) [OF valid(1)] by (intro mult_le_mono) auto
  then have "length ?kh \<le> 33554431" using small(1) by linarith
  then have items: "length ?kh < usize_limit" "?bands < usize_limit" "length ?kh * ?bands < usize_limit" using small(1) config_bounds(5) [OF valid(1)] by simp_all
  then have "unat (of_nat (length ?kh) :: u64) * unat (of_nat ?bands :: u64) < usize_limit" by (simp add: unat_of_nat_u64)
  then have records: "and_then (ok_or BuildLengthOverflow (u64_try_from (length ?kh))) (\<lambda>items. and_then (ok_or BuildLengthOverflow (u64_try_from ?bands)) (\<lambda>bands.
      ok_or BuildLengthOverflow (checked_mul items bands))) = Ok (of_nat (length ?kh) * of_nat ?bands)"
    using items by (simp add: u64_try_from_def checked_mul_def)
  have hook: "on_workspace (\<lambda>fs. (Ok (), fs)) ws1 = (Ok (), ws1)" for ws1 by (simp add: on_workspace_def)
  show ?thesis
    unfolding build_container_def Let_def prod.case
  proof (rule succeeds_bind [OF spill_runs_succeeds [OF name sec valid n(2) r c]], goal_cases)
    case (1 x ws1)
    obtain run_paths r1 where x: "x = (run_paths, r1)" by (cases x)
    have c1: "clear destination nonce (run_names (length run_paths)) ws1" and f1: "rd_faults r1 = []" using 1(2) by (simp_all add: x)
    obtain rss where r1: "rd_bytes r1 = file" and rss: "run_files (ws_disk ws) run_paths rss ws1" "mset (concat rss) = mset (concat (map item_records ?kh))" and ws1: "adds destination nonce ws ws1"
      using runs_succeeds [OF spill_runs_runs [OF name wf sec valid n r(1)] 1(1)] by (auto simp: x)
    have wf1: "disk_wf (ws_disk ws1)" by (rule adds_wf [OF ws1 wf])
    have few: "length (concat rss) < 4294967295"
      using arg_cong [OF rss(2), of size] length_source_records [OF valid(2)] small(1) by (simp only: size_mset)
    show ?case
      unfolding x prod.case records st_then_simps
    proof (rule succeeds_bind [OF merge_runs_succeeds [OF name wf1 rss(1) few c1 refl refl]], goal_cases)
      case (1 count ws2)
      note c2 = 1(2)
      have files: "made (ws_disk ws1) ?dp (concat (map draft_bytes (drafts crc 0 bm))) ws2" "made (ws_disk ws1) ?mp (membership_bytes bm) ws2"
        and step: "adds destination nonce ws1 ws2"
        using runs_succeeds [OF merge_runs_runs [OF name wf1 law rss bm(1) kh short refl refl] 1(1)] by auto
      have ws2: "adds destination nonce ws ws2" by (rule adds_trans [OF ws1 step])
      have wf2: "disk_wf (ws_disk ws2)" by (rule adds_wf [OF ws2 wf])
      show ?case
      proof (rule succeeds_bind [OF assemble_segments_succeeds [OF name wf2 law files size bm(4) ok c2]], goal_cases)
        case (1 segments ws3)
        have segs: "list_all2 (segment_made crc (ws_disk ws2) ws3) segments (groups_from [] bm)" and step: "adds destination nonce ws2 ws3"
          using runs_succeeds [OF assemble_segments_runs [OF name wf2 law files bm(3,4) ok] 1(1)] by auto
        have ws3: "adds destination nonce ws ws3" by (rule adds_trans [OF ws2 step])
        have wf3: "disk_wf (ws_disk ws3)" by (rule adds_wf [OF ws3 wf])
        have count: "length segments < 4294967294" using list_all2_lengthD [OF segs] small(2) by simp
        show ?case
        proof (rule succeeds_bind [OF write_final_container_succeeds [OF name wf3 sec segs count r1 f1 refl 1(2) segment_names_new(2)]], goal_cases)
          case (1 r4 ws4)
          have made: "made (ws_disk ws3) ?tp bs ws4" and step: "adds destination nonce ws3 ws4"
            using runs_succeeds [OF write_final_container_runs [OF name wf3 sec segs ok cont refl r1] 1(1)] by auto
          have ws4: "adds destination nonce ws ws4" by (rule adds_trans [OF ws3 step])
          note c4 = 1(2)
          have calm: "calm (ws_fs ws4)" and dir: "is_dir (butlast (resolve destination)) (ws_disk ws4)" using c4 by (simp_all add: clear_def)
          have k: "keeps (resolve destination) (ws_disk ws) (ws_disk ws4)" by (rule adds_keeps [OF ws4 wf])
          show ?case
          proof (rule succeeds_bind [OF metadata_succeeds [OF calm made]], goal_cases)
            case (1 len ws5)
            obtain i where i: "dk_entries (ws_disk ws4) (resolve ?tp) = Some (FileNode i)" using made by (auto simp: made_def holds_def)
            have "\<exists>fs'. build_publish handle ?tp destination (ws_fs ws5) = (Ok (), fs') \<and> calm fs'
                \<and> dk_entries (fs_disk fs') = (dk_entries (fs_disk (ws_fs ws5)))(resolve destination \<mapsto> FileNode i, resolve ?tp := None)"
              by (rule build_publish_succeeds [OF _ _ _ _ _ name, of _ _ i])
                (use 1(2) i dir k free temp_path_beside [OF name, of nonce "''commit''"] in \<open>auto simp: ws_disk_def keeps_def disk_wf_def\<close>)
            then obtain fs' where pub: "build_publish handle ?tp destination (ws_fs ws5) = (Ok (), fs')" "calm fs'"
              "dk_entries (fs_disk fs') = (dk_entries (ws_disk ws4))(resolve destination \<mapsto> FileNode i, resolve ?tp := None)" using 1(2) by (auto simp: ws_disk_def)
            have "temp_path destination nonce v \<in> set (ws_temporary ws5) \<and> (\<exists>i. x = FileNode i)"
              if "dk_entries (fs_disk fs') (resolve (temp_path destination nonce v)) = Some x" for v x
              using that 1(2) c4 temp_path_beside(1) [OF name, of nonce v] by (auto simp: pub(3) clear_def split: if_splits)
            then show ?case unfolding hook st_then_simps using pub(1,2) by (simp add: on_workspace_def succeeds_def ws_disk_def)
          qed
        qed
      qed
    qed
  qed
qed

lemma drop_temporaries_clean:
  assumes "calm (ws_fs ws)" and "q \<noteq> []"
    and "\<And>x. dk_entries (ws_disk ws) q = Some x \<Longrightarrow> (\<exists>p \<in> set (ws_temporary ws). resolve p = q) \<and> (\<exists>i. x = FileNode i)"
  shows "dk_entries (fs_disk (drop_temporaries ws)) q = None"
proof -
  have "dk_entries (fs_disk (fold (\<lambda>p fs. snd (fs_remove_file p fs)) ps fs)) q = None"
    if "calm fs" "\<And>x. dk_entries (fs_disk fs) q = Some x \<Longrightarrow> (\<exists>p \<in> set ps. resolve p = q) \<and> (\<exists>i. x = FileNode i)" for ps fs
    using that
  proof (induction ps arbitrary: fs)
    case Nil
    then show ?case by (cases "dk_entries (fs_disk fs) q") auto
  next
    case (Cons p ps)
    let ?fs = "snd (fs_remove_file p fs)"
    have calm: "calm ?fs" using Cons.prems(1) by (auto simp: fs_remove_file_def calm_call sys_remove_file_def Let_def)
    have "(\<exists>p \<in> set ps. resolve p = q) \<and> (\<exists>i. x = FileNode i)" if "dk_entries (fs_disk ?fs) q = Some x" for x
    proof (cases "resolve p = q")
      case True
      have "dk_entries (fs_disk ?fs) q = None"
        using Cons.prems assms(2) by (cases "dk_entries (fs_disk fs) q") (fastforce simp: fs_remove_file_def calm_call sys_remove_file_def Let_def True is_dir_def fs_step_def)+
      then show ?thesis using that by simp
    next
      case False
      then have "dk_entries (fs_disk fs) q = Some x"
        using that Cons.prems(1) by (auto simp: fs_remove_file_def calm_call sys_remove_file_def Let_def fs_step_def split: if_splits)
      then show ?thesis using Cons.prems(2) False by fastforce
    qed
    then show ?case using Cons.IH [OF calm] by simp
  qed
  from this [OF assms(1), of "ws_temporary ws"] assms(3) show ?thesis by (simp add: drop_temporaries_def ws_disk_def)
qed

lemma build_external_live:
  assumes calm: "calm fs" and src: "follow 40 source (fs_disk fs) = Inr (FileNode i)" "source_of crc s (dk_data (fs_disk fs) i)"
    and valid: "config_valid s" "keys_valid s" and enc: "encode_snapshot crc s = Ok bs" and law: "hasher_law crc hasher" and wf: "disk_wf (fs_disk fs)"
    and name: "file_name destination = Some name" and dir: "is_dir (butlast (resolve destination)) (fs_disk fs)" and new: "dk_entries (fs_disk fs) (resolve destination) = None"
    and pos: "0 < bo_max_buffer_records options"
    and free: "\<forall>suffix. dk_entries (fs_disk fs) (resolve (temp_path destination (nanos XOR ucast (fs_process_id fs)) suffix)) = None"
  shows "if 24 * bo_max_buffer_records options \<le> 9223372036854775807
    then \<exists>stats fs'. build_external crc hasher handle (Some nanos) source destination options fs = (Ok stats, fs') \<and> durable destination (fs_disk fs') = Some bs
      \<and> (\<forall>suffix. dk_entries (fs_disk fs') (resolve (temp_path destination (nanos XOR ucast (fs_process_id fs)) suffix)) = None)
    else \<exists>fs'. build_external crc hasher handle (Some nanos) source destination options fs = (Panic, fs') \<and> fs_disk fs' = fs_disk fs"
proof -
  let ?nonce = "nanos XOR ucast (fs_process_id fs)" and ?file = "dk_data (fs_disk fs) i" and ?rd = "\<lparr>rd_bytes = dk_data (fs_disk fs) i, rd_pos = 0, rd_faults = []\<rparr>"
  have "resolve destination \<noteq> []" using resolve_target [OF name] by simp
  then have "follow 40 destination (fs_disk fs) = Inl IoNotFound" using new by (subst follow.simps) simp
  then have exists: "fs_exists destination fs = (False, fs)" using calm by (simp add: fs_exists_def calm_call sys_follow_def)
  obtain fs2 where opened: "fs_open source fs = (Inr ?rd, fs2)" and two: "calm fs2" "fs_disk fs2 = fs_disk fs"
    using calm src(1) by (auto simp: fs_open_def io_then_def calm_call sys_follow_def fs_step_def calm_def)
  have pid: "fs_process_id fs2 = fs_process_id fs" by (rule fs_open_process [OF opened])
  let ?ws = "\<lparr>ws_temporary = [], ws_fs = fs2\<rparr>"
  have disk: "ws_disk ?ws = fs_disk fs" by (simp add: ws_disk_def two(2))
  obtain layout dk dh count bands rd' where check: "check_source crc hasher ?rd = Ok (layout, dk, dh, count, bands, rd')" "rd_faults rd' = []"
    using check_source_healthy [of crc s ?rd hasher, OF _ law valid] src(2) by force
  note cs = check_source_Ok [OF check(1) _ law valid]
  have c: "clear destination ?nonce {} ?ws" unfolding clear_def disk using two(1) dir free by simp
  show ?thesis
  proof (cases "24 * bo_max_buffer_records options \<le> 9223372036854775807")
    case n: True
    have "succeeds (\<lambda>_ ws'. calm (ws_fs ws') \<and> (\<forall>suffix x. dk_entries (ws_disk ws') (resolve (temp_path destination ?nonce suffix)) = Some x
        \<longrightarrow> temp_path destination ?nonce suffix \<in> set (ws_temporary ws') \<and> (\<exists>i. x = FileNode i)))
      (build_container crc hasher handle destination options (\<lambda>fs. (Ok (), fs)) ?nonce (layout, dk, dh, length (so_key_hashes s), p_bands (so_params s), rd') ?ws)"
      by (rule build_container_succeeds [OF name _ law cs(1) _ check(2) valid enc pos n c]) (use cs(4) src(2) wf new disk in simp_all)
    then obtain stats ws' where built: "build_container crc hasher handle destination options (\<lambda>fs. (Ok (), fs)) ?nonce (layout, dk, dh, count, bands, rd') ?ws = (Ok stats, ws')"
      and left: "calm (ws_fs ws')" "\<And>suffix x. dk_entries (ws_disk ws') (resolve (temp_path destination ?nonce suffix)) = Some x
        \<Longrightarrow> temp_path destination ?nonce suffix \<in> set (ws_temporary ws') \<and> (\<exists>i. x = FileNode i)"
      using cs(2,3) src(2) by (auto simp: succeeds_def)
    have clean: "dk_entries (fs_disk (drop_temporaries ws')) (resolve (temp_path destination ?nonce suffix)) = None" for suffix
      by (rule drop_temporaries_clean [OF left(1) temp_path_beside(2) [OF name]]) (use left(2) in blast)
    have run: "build_external crc hasher handle (Some nanos) source destination options fs = (Ok stats, drop_temporaries ws')"
      using pos built by (simp add: build_external_def build_external_with_hook_def exists opened check(1) build_nonce_def pid)
    have "published (resolve destination) bs (fs_disk (drop_temporaries ws'))"
      using build_external_outcome [OF run src valid enc law wf name n] free by auto
    then have "durable destination (fs_disk (drop_temporaries ws')) = Some bs" by (rule durable_published)
    then show ?thesis unfolding if_P [OF n] using run clean by blast
  next
    case False
    have row: "checked_mul_usize bands 8 = Some (bands * 8)" using cs(3) src(2) config_bounds(5) [OF valid(1)] by (simp add: checked_mul_usize_def)
    have "build_container crc hasher handle destination options (\<lambda>fs. (Ok (), fs)) ?nonce (layout, dk, dh, count, bands, rd') ?ws = (Panic, ?ws)"
      using False by (simp add: build_container_def spill_runs_def row Let_def)
    then have "build_external crc hasher handle (Some nanos) source destination options fs = (Panic, fs2)"
      using pos by (simp add: build_external_def build_external_with_hook_def exists opened check(1) build_nonce_def pid drop_temporaries_def)
    then show ?thesis unfolding if_not_P [OF False] using two(2) by blast
  qed
qed

text \<open>C15: The external builder makes progress. On a file system that delivers no fault, with a source that holds the keys and band hashes of a valid store
  whose snapshot fits the format, a destination that is free in an existing directory, and no file with the name of one of the build's temporary files,
  the outcome depends on the buffer alone: a buffer of no records is refused and nothing happens; one of more than \<open>isize::MAX\<close> bytes panics and changes no
  file; with every other \<open>build_external\<close> returns its statistics, the destination holds the canonical container durably, and no temporary file is left.\<close>

theorem external_build_succeeds:
  assumes calm: "calm fs" and src: "follow 40 source (fs_disk fs) = Inr (FileNode i)" "source_of crc s (dk_data (fs_disk fs) i)"
    and valid: "config_valid s" "keys_valid s" and enc: "encode_snapshot crc s = Ok bs" and law: "hasher_law crc hasher" and wf: "disk_wf (fs_disk fs)"
    and name: "file_name destination = Some name" and dir: "is_dir (butlast (resolve destination)) (fs_disk fs)" and new: "dk_entries (fs_disk fs) (resolve destination) = None"
    and free: "\<forall>suffix. dk_entries (fs_disk fs) (resolve (temp_path destination (nanos XOR ucast (fs_process_id fs)) suffix)) = None"
  shows "if bo_max_buffer_records options = 0
    then build_external crc hasher handle (Some nanos) source destination options fs = (Err (InvalidOptions ''max_buffer_records must be positive''), fs)
    else if 24 * bo_max_buffer_records options \<le> 9223372036854775807
    then \<exists>stats fs'. build_external crc hasher handle (Some nanos) source destination options fs = (Ok stats, fs') \<and> durable destination (fs_disk fs') = Some bs
      \<and> (\<forall>suffix. dk_entries (fs_disk fs') (resolve (temp_path destination (nanos XOR ucast (fs_process_id fs)) suffix)) = None)
    else \<exists>fs'. build_external crc hasher handle (Some nanos) source destination options fs = (Panic, fs') \<and> fs_disk fs' = fs_disk fs"
proof (cases "bo_max_buffer_records options = 0")
  case True
  then show ?thesis by (simp add: build_external_def build_external_with_hook_def)
next
  case False
  then have pos: "0 < bo_max_buffer_records options" by simp
  show ?thesis unfolding if_not_P [OF False] by (rule build_external_live [OF calm src valid enc law wf name dir new pos free])
qed

theorem external_build_succeeds_witness:
  "\<exists>bs stats fs'. encode_snapshot example_crc example_store = Ok bs
     \<and> build_external example_crc example_hasher id (Some 5) [''index''] [''built''] \<lparr>bo_max_buffer_records = 3\<rparr> (source_fs bs) = (Ok stats, fs')
     \<and> durable [''built''] (fs_disk fs') = Some bs \<and> dk_entries (fs_disk fs') (temp_path [''built''] (5 XOR ucast (fs_process_id (source_fs bs))) ''run-0'') = None"
proof -
  obtain bs where bs: "encode_snapshot example_crc example_store = Ok bs"
    using encode_snapshot_room [OF example_store_valid, of example_crc] by (auto simp: example_store_def store_empty_def)
  have src: "follow 40 [''index''] (fs_disk (source_fs bs)) = Inr (FileNode 1)" by (simp add: source_fs_def follow.simps resolve_def)
  have fields: "calm (source_fs bs)" "dk_data (fs_disk (source_fs bs)) 1 = bs" "disk_wf (fs_disk (source_fs bs))" "file_name [''built''] = Some ''built''"
    "is_dir (butlast (resolve [''built''])) (fs_disk (source_fs bs))" "dk_entries (fs_disk (source_fs bs)) (resolve [''built'']) = None"
    by (auto simp: source_fs_def example_fs_def calm_def disk_wf_def node_ok_def file_name_def is_dir_def resolve_def)
  have source: "source_of example_crc example_store (dk_data (fs_disk (source_fs bs)) 1)" using snapshot_is_source [OF example_store_valid bs] fields(2) by simp
  have free: "\<forall>suffix. dk_entries (fs_disk (source_fs bs)) (resolve (temp_path [''built''] (5 XOR ucast (fs_process_id (source_fs bs))) suffix)) = None"
    by (simp add: source_fs_def temp_path_def file_name_def resolve_def)
  have plain: "resolve (temp_path [''built''] nonce ''run-0'') = temp_path [''built''] nonce ''run-0''" for nonce by (simp add: temp_path_def file_name_def resolve_def)
  show ?thesis
    using external_build_succeeds [OF fields(1) src source example_store_valid bs example_hasher_law fields(3-6) free, of "\<lparr>bo_max_buffer_records = 3\<rparr>" id] bs plain by simp metis
qed

section \<open>The two builders compose\<close>

text \<open>C16: When the reference builder has built a file from the source of a store, under any faults, the external builder, whatever
  its buffer, keeps that file, never panics, and publishes nothing but the same bytes. It accepts the file as its source: without further faults, with a
  positive buffer, a clock after the epoch and a destination that is free in an existing directory, the second build succeeds, and both files are the snapshot
  of the store. The buffer must not exceed the largest allocation, and nothing may have the name of one of the temporary files.\<close>

theorem rebuild_canonical:
  assumes first: "build_from_snapshot crc hasher handle source middle fs = (Ok (), fs1)" and second: "build_external crc hasher handle clock middle destination options fs1 = (r, fs2)"
    and src: "follow 40 source (fs_disk fs) = Inr (FileNode i)" "source_of crc s (dk_data (fs_disk fs) i)"
    and valid: "config_valid s" "keys_valid s" and enc: "encode_snapshot crc s = Ok bs" and wf: "disk_wf (fs_disk fs)"
    and ready: "builder_ready crc hasher middle" "builder_ready crc hasher destination" "external_ready clock options destination fs1"
  shows "r \<noteq> Panic \<and> durable middle (fs_disk fs2) = Some bs \<and> (\<forall>stats. r = Ok stats \<longrightarrow> durable destination (fs_disk fs2) = durable middle (fs_disk fs2))
    \<and> (calm fs1 \<and> 0 < bo_max_buffer_records options \<and> clock \<noteq> None \<and> is_dir (butlast (resolve destination)) (fs_disk fs1)
         \<and> dk_entries (fs_disk fs1) (resolve destination) = None \<longrightarrow> (\<exists>stats. r = Ok stats))"
proof -
  obtain j where j: "disk_wf (fs_disk fs1)" "durable middle (fs_disk fs1) = Some bs" "follow 40 middle (fs_disk fs1) = Inr (FileNode j)"
    "source_of crc s (dk_data (fs_disk fs1) j)"
    using reference.builds_source [OF first ready(1) wf src valid enc] by blast
  have prem: "builder_ready crc hasher destination \<and> external_ready clock options destination fs1" using ready by simp
  note b = external.builds [OF second prem j(1,3,4) valid enc]
  have kept: "durable middle (fs_disk fs2) = Some bs" by (rule external.builds_keep [OF second prem j(1,3,4) valid enc j(2)])
  have "\<exists>stats. r = Ok stats" if calm: "calm fs1" and pos: "0 < bo_max_buffer_records options" and clock: "clock \<noteq> None"
    and dest: "is_dir (butlast (resolve destination)) (fs_disk fs1)" "dk_entries (fs_disk fs1) (resolve destination) = None"
  proof -
    obtain nanos where nanos: "clock = Some nanos" using clock by blast
    obtain name where law: "hasher_law crc hasher" and name: "file_name destination = Some name" using ready(2) by (auto simp: builder_ready_def)
    have n: "24 * bo_max_buffer_records options \<le> 9223372036854775807"
      and free: "\<forall>suffix. dk_entries (fs_disk fs1) (resolve (temp_path destination (nanos XOR ucast (fs_process_id fs1)) suffix)) = None"
      using ready(3) by (auto simp: external_ready_def nanos)
    show ?thesis
      using build_external_live [OF calm j(3,4) valid enc law j(1) name dest pos free, of handle] second n by (auto simp: nanos)
  qed
  then show ?thesis using b kept durable_published by auto
qed

theorem rebuild_canonical_witness:
  "\<exists>bs fs1. encode_snapshot example_crc example_store = Ok bs
     \<and> build_from_snapshot example_crc example_hasher id [''index''] [''lazy''] (source_fs bs) = (Ok (), fs1)
     \<and> (case build_external example_crc example_hasher id (Some 5) [''lazy''] [''built''] \<lparr>bo_max_buffer_records = 3\<rparr> fs1 of (r, fs2) \<Rightarrow>
          (\<exists>stats. r = Ok stats) \<and> durable [''lazy''] (fs_disk fs2) = Some bs \<and> durable [''built''] (fs_disk fs2) = Some bs)"
proof -
  obtain bs where bs: "encode_snapshot example_crc example_store = Ok bs"
    using encode_snapshot_room [OF example_store_valid, of example_crc] by (auto simp: example_store_def store_empty_def)
  obtain fs1 where first: "build_from_snapshot example_crc example_hasher id [''index''] [''lazy''] (source_fs bs) = (Ok (), fs1)"
    and names: "\<forall>q. q \<noteq> [''index''] \<longrightarrow> q \<noteq> [''lazy''] \<longrightarrow> dk_entries (fs_disk fs1) q = None" and calm: "calm fs1"
    using reference_example [OF bs] by blast
  let ?o = "\<lparr>bo_max_buffer_records = 3\<rparr>"
  obtain r fs2 where second: "build_external example_crc example_hasher id (Some 5) [''lazy''] [''built''] ?o fs1 = (r, fs2)" by fastforce
  have src: "follow 40 [''index''] (fs_disk (source_fs bs)) = Inr (FileNode 1)" by (simp add: source_fs_def follow.simps resolve_def)
  have fields: "dk_data (fs_disk (source_fs bs)) 1 = bs" "disk_wf (fs_disk (source_fs bs))"
    by (auto simp: source_fs_def example_fs_def disk_wf_def node_ok_def)
  have source: "source_of example_crc example_store (dk_data (fs_disk (source_fs bs)) 1)" using snapshot_is_source [OF example_store_valid bs] fields(1) by simp
  have ready: "builder_ready example_crc example_hasher [''lazy'']" "builder_ready example_crc example_hasher [''built'']" "external_ready (Some 5) ?o [''built''] fs1"
    using names example_hasher_law by (simp_all add: builder_ready_def external_ready_def file_name_def temp_path_def resolve_def)
  have dest: "is_dir (butlast (resolve [''built''])) (fs_disk fs1)" "dk_entries (fs_disk fs1) (resolve [''built'']) = None"
    using names by (simp_all add: resolve_def is_dir_def)
  show ?thesis using rebuild_canonical [OF first second src source example_store_valid bs fields(2) ready] calm dest bs first second
    by (intro exI [of _ bs] exI [of _ fs1]) auto
qed

end
