(* ===== verification/Spec2Isabelle.thy ===== *)
theory Spec2Isabelle
  imports Pari_Grouping Pari_Planner Pari_Backend Pari_BuildLive
begin

text \<open>
  A verification library for \<open>pari\<close>, a similarity engine in Rust: MinHash sketches of documents,
  locality-sensitive hashing (LSH) over them, duplicate grouping, a portable index file format,
  storage backends, and indexes kept in files. Paths below are relative to \<open>src/crates\<close>.

  \<^bold>\<open>The program.\<close> A document is a set of byte strings. \<open>pari-core\<close> turns it into a sketch: one
  minimum per pseudo-random permutation. \<open>pari-index\<close> cuts a sketch into bands of rows, hashes each
  band, and stores a key under one bucket per band; two keys are candidates when they share a
  bucket. A planner chooses bands, rows and storage, and a grouping pass unites the keys of a
  bucket. \<open>pari-format\<close> is the file format: a checksummed header, framed sections, and a section kind
  that holds sorted buckets with a directory, read whole or by ranges. \<open>pari-backend\<close> runs the same
  index over any store of records and buckets. \<open>pari-store\<close> keeps an index in one file: a committed base that
  is read bucket by bucket, an overlay of changes, and commits that write a temporary file and rename it into
  place. \<open>pari-store-lazy\<close> is a read-only index over such a file, with a builder for it; \<open>pari-store-build\<close> builds the same
  file with a bounded buffer, by spilling sorted runs to disk and merging them.

  \<^bold>\<open>Theories and sources.\<close>
  \<^item> \<open>Pari_Prelude\<close>, \<open>Pari_Maps\<close>: Rust's integers, \<open>Result\<close> with panics, checked and saturating
    arithmetic, slices, chunks, little-endian bytes, \<open>HashMap\<close>, \<open>BTreeMap\<close> and \<open>HashSet\<close>.
  \<^item> \<open>Pari_F64\<close>: the IEEE binary64 operations the sources use, on bit patterns: exact rounding of
    quotients, products and sums to nearest even, comparisons, the total order.
  \<^item> \<open>Pari_MinHash\<close> (\<open>pari-core/src/minhash.rs\<close>, \<open>hash.rs\<close>): generator, permutations, sketches of both
    widths, merge, comparison, batches.
  \<^item> \<open>Pari_Params\<close>, \<open>Pari_Stats\<close>, \<open>Pari_Lsh\<close> (\<open>pari-index/src/lib.rs\<close>): parameter tuning, bucket statistics and
    query counters, the in-memory index.
  \<^item> \<open>Pari_Planner\<close> (\<open>pari-index/src/planner.rs\<close>): size model and storage recommendation.
  \<^item> \<open>Pari_UnionFind\<close>, \<open>Pari_Grouping\<close> (\<open>pari-index/src/grouping.rs\<close>): the union-find structure, duplicate
    groups, candidate pairs.
  \<^item> \<open>Pari_Codec\<close>, \<open>Pari_Format\<close>, \<open>Pari_Layout\<close>, \<open>Pari_Buckets\<close> (\<open>pari-format/src/codec.rs\<close>, \<open>format.rs\<close>, \<open>layout.rs\<close>,
    \<open>buckets.rs\<close>, \<open>bucket_stream.rs\<close>): key codecs, the container and its eager and lazy readers, bucket
    segments and their in-memory and streaming writers.
  \<^item> \<open>Pari_Backend\<close> (\<open>pari-backend/src/lib.rs\<close>): the backend trait, the index over it, the memory
    backend, descriptor bytes.
  \<^item> \<open>Pari_Bands\<close>: band hashes as bucket keys, shared by the backends and the stores.
  \<^item> \<open>Pari_Snapshot\<close>, \<open>Pari_Store\<close>, \<open>Pari_Files\<close> (\<open>pari-store/src/lib.rs\<close>): the state of a persistent index, its snapshot and
    the opening of one; insertions, removals, queries and statistics over base and overlay; temporary
    files, publication, rollback, creation and commit.
  \<^item> \<open>Pari_Faults\<close>: reads under a schedule of faults, and operations that never panic. \<open>Pari_FS\<close>: \<open>std::fs\<close> as a disk of
    paths, files and links, with faults and a trace of all disks passed through.
  \<^item> \<open>Pari_Lazy\<close>, \<open>Pari_LazyBuild\<close> (\<open>pari-store-lazy/src/lib.rs\<close>): the read-only index, and the reference builder with
    its publication.
  \<^item> \<open>Pari_Spill\<close>, \<open>Pari_Build\<close> (\<open>pari-store-build/src/lib.rs\<close>): the external builder. The first has its options, errors, records and
    their encoding, the source checks and the merge of the runs; the second the workspace with its temporary files,
    spilling, segments, the container, publication and \<open>build_external\<close>. \<open>Pari_BuildSteps\<close>, \<open>Pari_BuildOutput\<close>,
    \<open>Pari_BuildProof\<close> and \<open>Pari_BuildLive\<close> hold the proofs: up to the merged files, up to the container, of the whole, and that a
    build without faults succeeds.

  \<^bold>\<open>Conventions.\<close> A struct is a record, an enum a datatype, an operation one definition with the
  guards in the order of the code; loop bodies have their own definitions where a lemma needs them.
  Fallible code returns a \<open>result\<close> whose third outcome is a panic, so that every \<open>expect\<close>, index and
  slice of the code is a branch, and absence of panics is proved. Mutating methods return the new
  state; where the code can fail after it has changed something the state is returned beside the
  error. The target has 64 bits: \<open>usize\<close> is a natural number with checked operations at \<open>2 ^ 64\<close>.

  \<^bold>\<open>What the lemmas show.\<close>
  \<^item> Sketches: merging is sketching the union, components are minima of permuted hashes, permutations
    are bijections, the estimate is the rounded share of equal components, batches equal the
    sequential map on exactly the workers the thread policy allows.
  \<^item> Index: the bucket tables refine a map from keys to band hashes for every history (locale
    \<open>candidate_index\<close>), queries are exact and sorted, batches are validated before the first change,
    band hashes detect every change of one value.
  \<^item> Parameters, statistics, planning: the tuner is total and optimal for every \<open>powf\<close>; summaries with their
    nearest-rank percentiles, size estimates and recommendations are exact, with overflow reported.
  \<^item> Grouping: groups are the connected components, for the index, for pairs and for verified pairs;
    loops over the union-find structure terminate.
  \<^item> Files: the decoder accepts exactly the canonical encodings, the lazy reader agrees with it under
    every schedule of I/O faults, range reads return exactly the requested bytes, bucket segments
    round trip and the streaming writer produces the same bytes. The key codecs accept exactly what they write (locale \<open>key_codec\<close>),
    with UTF-8 decoded to chars; nothing is claimed about JSON values.
  \<^item> Backends: over any backend with the contract of the trait (locale \<open>backend_contract\<close>) the index
    answers as the in-memory one; the memory backend has this contract.
  \<^item> Stores: opening the snapshot of a store restores it; the handle has the contract of the in-memory
    index (\<open>candidate_index\<close> again, interpreted on the persistent store), so that every history of changes, on
    the handle or on its reopened file, answers as the map it describes; faults can only make a query fail.
    The lazy index answers alike, and its builder writes the very bytes a commit would write.
  \<^item> External building: the merge of sorted runs visits the records of the source in order, so that the segments and the
    container are, for every buffer size, the bytes a commit would write, with exact statistics. Both builders
    keep one contract (locale \<open>canonical_builder\<close>), and the output of one is a source for the other. Without
    faults the external builder succeeds, also on a file of the other, and leaves no temporary file. Both need temporary names that are free, and a
    buffer above the largest allocation panics.
  \<^item> Publication: for every schedule of faults and at every moment, a commit leaves the old file or the
    complete new one and loses nothing of the handle, creation and building replace nothing; without
    faults a commit succeeds.

  \<^bold>\<open>Bounds and termination.\<close> All recursive definitions are total. Loops that follow parent pointers
  in the union-find structure are partial functions into \<open>option\<close> and are proved to return on every
  well-formed structure. The loops over files end because they consume the file. No fuel is used elsewhere.

  \<^bold>\<open>Parameters.\<close> \<open>powf\<close>, SHA-1, CRC-32 and its incremental hasher, \<open>serde_json\<close>, the worker pool of \<open>rayon\<close> and its ordered \<open>collect\<close>, the handles of \<open>same-file\<close>, the number of
  CPUs and clock readings are arguments of the definitions; hypotheses on them state their documented
  behaviour.

  \<^bold>\<open>The file system.\<close> A call can fail by the schedule, a failing write leaves any prefix behind, and the bytes of a file
  survive a crash once it is synced. The order in which a disk makes renames durable is not modelled; the
  claims hold for each disk of the trace. Other processes do not interleave. A buffered writer of the external builder hands
  its bytes to the file when it is flushed, so that an abandoned temporary file is empty. The standard library also writes each full buffer of 8 KiB and
  the rest on drop; the difference is in the contents of temporary files of failed builds, which no claim mentions; a buffered reader serves at most
  the rest of its 8 KiB buffer per call.

  \<^bold>\<open>Not modelled.\<close> The command line (\<open>pari-cli\<close>) parses arguments, reads files and prints around the operations above. The
  Redis client sends scripts to a server, the Python bindings convert objects and forward, the conformance suite and
  the benchmarks are test code. Texts of error messages are constructors that carry the values shown; aborts
  of the allocator are not modelled, a capacity that overflows is a panic.
\<close>

end
